(* ===== verification/Slermes_Prelude.thy ===== *)
theory Slermes_Prelude
  imports Main "HOL-Library.Word" "HOL-Library.Monad_Syntax"
begin

text \<open>
  The prelude of the library: the machine-integer types of the C code, the C library
  calls on strings that several components share (\<open>snprintf\<close> into a fixed buffer,
  \<open>tolower\<close>), the collections of facts the component proofs draw on, and generic
  lemmas on lists, natural numbers and words.

  C strings are Isabelle strings: a char list stands for the bytes before the
  terminating NUL. A \<open>char *\<close> that the code tests against NULL is an optional string;
  a handle (\<open>omap_t *\<close>, \<open>hive_t *\<close>, ...) that is NULL has no object, so the record of
  the object is the argument and the guard on the handle has no counterpart.
\<close>

unbundle bit_operations_syntax

type_synonym u8 = "8 word"
type_synonym u16 = "16 word"
type_synonym u32 = "32 word"
type_synonym u64 = "64 word"

named_theorems inv_simps \<open>consequences of component invariants, for the simplifier\<close>
named_theorems abs_simps \<open>abstraction functions applied to updated states\<close>

section \<open>The C library calls the components share\<close>

text \<open>\<open>snprintf(buf, n, "%s", s)\<close> and \<open>strncpy\<close> with a terminator: at most \<open>n - 1\<close> bytes.\<close>

definition c_trunc :: "nat \<Rightarrow> string \<Rightarrow> string" where
  "c_trunc n s = take (n - 1) s"

text \<open>\<open>tolower\<close> in the C locale: ASCII upper-case letters only.\<close>

definition c_tolower :: "char \<Rightarrow> char" where
  "c_tolower c = (if 65 \<le> (of_char c :: int) \<and> (of_char c :: int) \<le> 90
                  then char_of ((of_char c :: int) + 32) else c)"

text \<open>The classification macros in the C locale.\<close>

definition c_isdigit :: "char \<Rightarrow> bool" where
  "c_isdigit c \<longleftrightarrow> 48 \<le> (of_char c :: int) \<and> (of_char c :: int) \<le> 57"

definition c_isspace :: "char \<Rightarrow> bool" where
  "c_isspace c \<longleftrightarrow> (of_char c :: int) = 32 \<or> (9 \<le> (of_char c :: int) \<and> (of_char c :: int) \<le> 13)"

text \<open>The value of a digit in bases up to 36; 99 for any other character.\<close>

definition c_digit_val :: "char \<Rightarrow> int" where
  "c_digit_val c = (let x = of_char (c_tolower c) in
     if 48 \<le> x \<and> x \<le> 57 then x - 48 else if 97 \<le> x \<and> x \<le> 122 then x - 87 else 99)"

text \<open>\<open>strtol(s, &end, base)\<close> for a 64-bit \<open>long\<close>: the value, clamped to its range, and the
  text after the number; without any digit the value is 0 and \<open>end\<close> is \<open>s\<close>.\<close>

definition c_strtol :: "int \<Rightarrow> string \<Rightarrow> int \<times> string" where
  "c_strtol base s =
     (let t = dropWhile c_isspace s;
          neg = (t \<noteq> [] \<and> t ! 0 = CHR ''-'');
          t = (if t \<noteq> [] \<and> (t ! 0 = CHR ''-'' \<or> t ! 0 = CHR ''+'') then drop 1 t else t);
          t = (if base = 16 \<and> length t > 2 \<and> t ! 0 = CHR ''0'' \<and> c_tolower (t ! 1) = CHR ''x''
                  \<and> c_digit_val (t ! 2) < 16 then drop 2 t else t);
          ds = takeWhile (\<lambda>c. c_digit_val c < base) t;
          v = fold (\<lambda>c v. v * base + c_digit_val c) ds 0;
          v = (if neg then - v else v)
      in if ds = [] then (0, s)
         else (max (- (2 ^ 63)) (min (2 ^ 63 - 1) v), drop (length ds) t))"

text \<open>\<open>%lld\<close> (and \<open>%d\<close>, \<open>%zu\<close>): decimal digits, with a sign when negative.\<close>

function c_udec :: "int \<Rightarrow> string" where
  "c_udec i = (if i < 10 then [char_of (48 + i)] else c_udec (i div 10) @ [char_of (48 + i mod 10)])"
  by pat_completeness auto
termination by (relation "measure nat") auto

declare c_udec.simps [simp del]

definition c_dec :: "int \<Rightarrow> string" where
  "c_dec i = (if i < 0 then CHR ''-'' # c_udec (- i) else c_udec i)"

text \<open>The C string in a buffer: the bytes before the first NUL.\<close>

definition c_str :: "string \<Rightarrow> string" where
  "c_str buf = takeWhile (\<lambda>c. c \<noteq> CHR 0x00) buf"

text \<open>One call of the allocator: the outcomes of the coming calls are given as a list of
  booleans; past its end every call succeeds.\<close>

definition c_alloc :: "bool list \<Rightarrow> bool \<times> bool list" where
  "c_alloc mem = (case mem of [] \<Rightarrow> (True, []) | b # bs \<Rightarrow> (b, bs))"

lemma c_alloc_Nil [simp]: "c_alloc [] = (True, [])"
  by (simp add: c_alloc_def)

lemma c_trunc_short [simp]: "length s < n \<Longrightarrow> c_trunc n s = s"
  by (simp add: c_trunc_def)

lemma length_c_trunc: "0 < n \<Longrightarrow> length (c_trunc n s) < n"
  by (simp add: c_trunc_def)

lemma c_trunc_idem [simp]: "c_trunc n (c_trunc n s) = c_trunc n s"
  by (simp add: c_trunc_def)

section \<open>Generic lemmas\<close>

lemma of_char_int_nonneg [simp]: "(0 :: int) \<le> of_char c"
  by (metis of_nat_0_le_iff of_nat_of_char)

lemma of_char_of_int [simp]: "0 \<le> i \<Longrightarrow> i < 256 \<Longrightarrow> (of_char (char_of (i :: int)) :: int) = i"
  by simp

lemma and_mask_pow2: "n = 2 ^ k \<Longrightarrow> (a :: nat) AND (n - 1) = a mod n"
  by (simp add: take_bit_eq_mod [symmetric] take_bit_eq_mask mask_eq_exp_minus_1)

lemma length_filter_update_drop:
  assumes "i < length xs" and "P (xs ! i)" and "\<not> P x"
  shows "length (filter P (xs[i := x])) = length (filter P xs) - 1"
    and "0 < length (filter P xs)"
proof -
  have s: "xs = take i xs @ xs ! i # drop (Suc i) xs"
    using assms(1) by (rule id_take_nth_drop)
  have u: "xs[i := x] = take i xs @ x # drop (Suc i) xs"
    using assms(1) by (rule upd_conv_take_nth_drop)
  show "length (filter P (xs[i := x])) = length (filter P xs) - 1"
    by (subst (2) s, subst u) (use assms in simp)
  show "0 < length (filter P xs)"
    by (subst s) (use assms in simp)
qed

lemma nth_list_update_if: "xs[i := x] ! j = (if i = j \<and> j < length xs then x else xs ! j)"
  by (cases "i < length xs") (auto simp: list_update_beyond)

lemma set_nth_conv: "x \<in> set xs \<longleftrightarrow> (\<exists>i < length xs. xs ! i = x)"
  by (auto simp: in_set_conv_nth)

lemma push_or: "0 \<le> y \<Longrightarrow> y < 2 ^ n \<Longrightarrow> push_bit n x OR y = x * 2 ^ n + (y :: int)"
proof -
  assume y: "0 \<le> y" "y < 2 ^ n"
  then have t: "take_bit n y = y" by (simp add: take_bit_int_eq_self_iff)
  have "push_bit n x AND y = 0"
    by (subst t [symmetric]) (rule bit_eqI, auto simp: bit_simps)
  then have "push_bit n x OR y = push_bit n x + y" by (rule disjunctive_add_eq_or [symmetric])
  then show ?thesis by (simp add: push_bit_eq_mult)
qed

section \<open>Codecs\<close>

text \<open>What a client of an encoder and its decoder relies on: decoding undoes encoding on the values the
  encoder is meant for. Two codecs in a row are a codec again.\<close>

locale codec =
  fixes legal :: "'a \<Rightarrow> bool" and enc :: "'a \<Rightarrow> 'b" and dec :: "'b \<Rightarrow> 'a option"
  assumes dec_enc: "legal x \<Longrightarrow> dec (enc x) = Some x"
begin

lemma enc_inj: "legal x \<Longrightarrow> legal y \<Longrightarrow> enc x = enc y \<longleftrightarrow> x = y"
  by (metis dec_enc option.inject)

lemma enc_inj_on: "inj_on enc (Collect legal)"
  by (rule inj_onI) (simp add: enc_inj)

end

locale codec_chain = inner: codec legal1 enc1 dec1 + outer: codec legal2 enc2 dec2
  for legal1 :: "'a \<Rightarrow> bool" and enc1 :: "'a \<Rightarrow> 'b" and dec1
    and legal2 :: "'b \<Rightarrow> bool" and enc2 :: "'b \<Rightarrow> 'c" and dec2 +
  assumes legal_enc1: "legal1 x \<Longrightarrow> legal2 (enc1 x)"

sublocale codec_chain \<subseteq> chain: codec legal1 "enc2 \<circ> enc1" "\<lambda>y. Option.bind (dec2 y) dec1"
  by unfold_locales (simp add: legal_enc1 inner.dec_enc outer.dec_enc)

end
