(* ===== verification/Omap.thy ===== *)
theory Omap
  imports Slermes_Prelude
begin

text \<open>
  \<^verbatim>\<open>lib/libomap/omap.c\<close>: the insertion-ordered string map.

  The entry array is the list of its used slots, so \<open>ecount\<close> is its length; slots beyond
  it are never read. The index is the list of its slots, so \<open>icap\<close> is its length and a
  NULL index is the empty list. A stored \<open>void *\<close> is an optional value, NULL being None.
  \<open>om_freed\<close> is the sequence of values passed to the destructor. \<open>om_mem\<close> is the sequence
  of outcomes of the coming calls of \<open>malloc\<close>/\<open>realloc\<close> (the empty list: every further
  call succeeds), so that each out-of-memory return of the code is a branch of the model.
  The probe loop of \<open>omap_index_put\<close> has no bound in the code; None is "does not return".
\<close>

section \<open>State\<close>

record 'v omap_entry =
  e_key :: "string option"
  e_value :: "'v option"
  e_hash :: u64

record 'v omap =
  om_entries :: "'v omap_entry list"
  om_ecap :: nat
  om_live :: nat
  om_index :: "int list"
  om_value_free :: bool
  om_freed :: "'v list"
  om_mem :: "bool list"

definition OMAP_EMPTY :: int where "OMAP_EMPTY = -1"
definition OMAP_DELETED :: int where "OMAP_DELETED = -2"
definition OMAP_MIN_INDEX_CAP :: nat where "OMAP_MIN_INDEX_CAP = 8"

text \<open>One call of the allocator.\<close>

definition omap_malloc :: "'v omap \<Rightarrow> bool \<times> 'v omap" where
  "omap_malloc m = (case om_mem m of [] \<Rightarrow> (True, m) | b # bs \<Rightarrow> (b, m\<lparr>om_mem := bs\<rparr>))"

definition omap_hash :: "string \<Rightarrow> u64" where
  "omap_hash s = fold (\<lambda>c h. (h XOR of_char c) * 1099511628211) s 1469598103934665603"

definition omap_release_value :: "'v omap \<Rightarrow> 'v option \<Rightarrow> 'v omap" where
  "omap_release_value m v =
     (case v of Some x \<Rightarrow> if om_value_free m then m\<lparr>om_freed := om_freed m @ [x]\<rparr> else m
      | None \<Rightarrow> m)"

section \<open>The index\<close>

text \<open>The home slot, \<open>(size_t)hash & (icap - 1)\<close>.\<close>

definition omap_home :: "u64 \<Rightarrow> nat \<Rightarrow> nat" where
  "omap_home h icap = nat (uint h AND int (icap - 1))"

partial_function (option) omap_probe_free :: "int list \<Rightarrow> nat \<Rightarrow> nat \<Rightarrow> nat option" where
  "omap_probe_free idx msk slot =
     (if idx ! slot \<ge> 0 then omap_probe_free idx msk ((slot + 1) AND msk) else Some slot)"

definition omap_index_put :: "int list \<Rightarrow> u64 \<Rightarrow> nat \<Rightarrow> int list option" where
  "omap_index_put idx h ordinal = do {
     let msk = length idx - 1;
     slot \<leftarrow> omap_probe_free idx msk (omap_home h (length idx));
     Some (idx[slot := int ordinal]) }"

fun omap_put_all :: "'v omap_entry list \<Rightarrow> nat \<Rightarrow> int list \<Rightarrow> int list option" where
  "omap_put_all [] i idx = Some idx"
| "omap_put_all (e # es) i idx =
     (if e_key e = None then omap_put_all es (Suc i) idx
      else do { idx' \<leftarrow> omap_index_put idx (e_hash e) i; omap_put_all es (Suc i) idx' })"

definition omap_reindex :: "'v omap \<Rightarrow> nat \<Rightarrow> (bool \<times> 'v omap) option" where
  "omap_reindex m new_icap =
     (let cap = (if new_icap < OMAP_MIN_INDEX_CAP then OMAP_MIN_INDEX_CAP else new_icap);
          (ok, m) = omap_malloc m
      in if \<not> ok then Some (False, m)
         else do {
           idx \<leftarrow> omap_put_all (om_entries m) 0 (replicate cap OMAP_EMPTY);
           Some (True, m\<lparr>om_index := idx\<rparr>) })"

declare omap_probe_free.simps [code]

text \<open>The slide loop of \<open>omap_compact\<close>: \<open>r\<close> reads, \<open>w\<close> writes; the result is the
  first \<open>w\<close> slots.\<close>

function omap_slide :: "'v omap_entry list \<Rightarrow> nat \<Rightarrow> nat \<Rightarrow> 'v omap_entry list" where
  "omap_slide es r w =
     (if r < length es
      then if e_key (es ! r) = None then omap_slide es (Suc r) w
           else omap_slide (if w \<noteq> r then es[w := es ! r] else es) (Suc r) (Suc w)
      else take w es)"
  by pat_completeness auto
termination by (relation "measure (\<lambda>(es, r, w). length es - r)") auto

declare omap_slide.simps [simp del]

definition omap_compact :: "'v omap \<Rightarrow> (bool \<times> 'v omap) option" where
  "omap_compact m =
     omap_reindex (m\<lparr>om_entries := omap_slide (om_entries m) 0 0\<rparr>) (length (om_index m))"

definition omap_entry_is :: "'v omap_entry \<Rightarrow> string \<Rightarrow> u64 \<Rightarrow> bool" where
  "omap_entry_is e key h \<longleftrightarrow> e_key e \<noteq> None \<and> e_hash e = h \<and> e_key e = Some key"

text \<open>The probe loop of \<open>omap_find\<close> and of \<open>omap_index_erase\<close>, over the \<open>n\<close> probes
  left; it yields the slot where the key was found.\<close>

fun omap_probe_key :: "'v omap_entry list \<Rightarrow> int list \<Rightarrow> string \<Rightarrow> u64 \<Rightarrow> nat \<Rightarrow> nat \<Rightarrow> nat option" where
  "omap_probe_key es idx key h slot 0 = None"
| "omap_probe_key es idx key h slot (Suc n) =
     (let ord = idx ! slot in
      if ord = OMAP_EMPTY then None
      else if ord \<ge> 0 \<and> omap_entry_is (es ! nat ord) key h then Some slot
      else omap_probe_key es idx key h ((slot + 1) AND (length idx - 1)) n)"

definition omap_find :: "'v omap \<Rightarrow> string \<Rightarrow> u64 \<Rightarrow> int" where
  "omap_find m key h =
     (if om_index m = [] \<or> om_live m = 0 then -1
      else case omap_probe_key (om_entries m) (om_index m) key h (omap_home h (length (om_index m)))
               (length (om_index m)) of
          None \<Rightarrow> -1
        | Some slot \<Rightarrow> om_index m ! slot)"

definition omap_index_erase :: "'v omap \<Rightarrow> string \<Rightarrow> u64 \<Rightarrow> 'v omap" where
  "omap_index_erase m key h =
     (case omap_probe_key (om_entries m) (om_index m) key h (omap_home h (length (om_index m)))
               (length (om_index m)) of
          None \<Rightarrow> m
        | Some slot \<Rightarrow> m\<lparr>om_index := (om_index m)[slot := OMAP_DELETED]\<rparr>)"

text \<open>\<open>while ((ecount + 1) * 3 >= ncap * 2) ncap *= 2;\<close>\<close>

function omap_grow_icap :: "nat \<Rightarrow> nat \<Rightarrow> nat" where
  "omap_grow_icap need ncap =
     (if 0 < ncap \<and> need * 3 \<ge> ncap * 2 then omap_grow_icap need (ncap * 2) else ncap)"
  by pat_completeness auto
termination by (relation "measure (\<lambda>(need, ncap). 2 * need - ncap)") auto

declare omap_grow_icap.simps [simp del]

definition omap_reserve_one :: "'v omap \<Rightarrow> (bool \<times> 'v omap) option" where
  "omap_reserve_one m = do {
     (ok, m) \<leftarrow>
       (if length (om_entries m) = om_ecap m \<and> om_live m * 2 \<le> length (om_entries m)
        then omap_compact m else Some (True, m));
     if \<not> ok then Some (False, m)
     else let (ok, m) =
       (if length (om_entries m) = om_ecap m
        then let ncap = (if om_ecap m \<noteq> 0 then om_ecap m * 2 else OMAP_MIN_INDEX_CAP);
                 (ok, m) = omap_malloc m
             in if \<not> ok then (False, m) else (True, m\<lparr>om_ecap := ncap\<rparr>)
        else (True, m))
     in if \<not> ok then Some (False, m)
        else if om_index m = [] \<or> (length (om_entries m) + 1) * 3 \<ge> length (om_index m) * 2
        then let ncap = (if om_index m \<noteq> [] then length (om_index m) * 2
                         else OMAP_MIN_INDEX_CAP)
             in omap_reindex m (omap_grow_icap (length (om_entries m) + 1) ncap)
        else Some (True, m) }"

section \<open>Public operations\<close>

definition omap_new :: "bool \<Rightarrow> bool list \<Rightarrow> 'v omap" where
  "omap_new value_free mem =
     \<lparr>om_entries = [], om_ecap = 0, om_live = 0, om_index = [],
      om_value_free = value_free, om_freed = [], om_mem = mem\<rparr>"

fun omap_clear_entries :: "'v omap_entry list \<Rightarrow> 'v omap \<Rightarrow> 'v omap" where
  "omap_clear_entries [] m = m"
| "omap_clear_entries (e # es) m =
     omap_clear_entries es (if e_key e = None then m else omap_release_value m (e_value e))"

definition omap_clear :: "'v omap \<Rightarrow> 'v omap" where
  "omap_clear m =
     (let m = omap_clear_entries (om_entries m) m
      in m\<lparr>om_entries := [], om_live := 0,
            om_index := replicate (length (om_index m)) OMAP_EMPTY\<rparr>)"

definition omap_size :: "'v omap \<Rightarrow> nat" where
  "omap_size m = om_live m"

definition omap_empty :: "'v omap \<Rightarrow> bool" where
  "omap_empty m \<longleftrightarrow> om_live m = 0"

definition omap_set :: "'v omap \<Rightarrow> string \<Rightarrow> 'v option \<Rightarrow> (bool \<times> 'v omap) option" where
  "omap_set m key value =
     (let h = omap_hash key; ord = omap_find m key h in
      if ord \<ge> 0 then
        let e = om_entries m ! nat ord;
            m = (if e_value e \<noteq> value then omap_release_value m (e_value e) else m)
        in Some (True, m\<lparr>om_entries := (om_entries m)[nat ord := e\<lparr>e_value := value\<rparr>]\<rparr>)
      else do {
        (ok, m) \<leftarrow> omap_reserve_one m;
        if \<not> ok then Some (False, m)
        else let (ok, m) = omap_malloc m in
          if \<not> ok then Some (False, m)
          else do {
            let pos = length (om_entries m);
            idx \<leftarrow> omap_index_put (om_index m) h pos;
            Some (True, m\<lparr>om_entries := om_entries m @
                             [\<lparr>e_key = Some key, e_value = value, e_hash = h\<rparr>],
                           om_index := idx, om_live := Suc (om_live m)\<rparr>) } })"

text \<open>The second component is \<open>*out_value\<close>: None when it was not written.\<close>

definition omap_setdefault ::
    "'v omap \<Rightarrow> string \<Rightarrow> 'v option \<Rightarrow> (bool \<times> 'v option option \<times> 'v omap) option" where
  "omap_setdefault m key value =
     (let h = omap_hash key; ord = omap_find m key h in
      if ord \<ge> 0 then Some (True, Some (e_value (om_entries m ! nat ord)), m)
      else do {
        (ok, m) \<leftarrow> omap_set m key value;
        if \<not> ok then Some (False, None, m) else Some (True, Some value, m) })"

definition omap_get :: "'v omap \<Rightarrow> string \<Rightarrow> 'v option" where
  "omap_get m key =
     (let ord = omap_find m key (omap_hash key)
      in if ord < 0 then None else e_value (om_entries m ! nat ord))"

definition omap_contains :: "'v omap \<Rightarrow> string \<Rightarrow> bool" where
  "omap_contains m key \<longleftrightarrow> omap_find m key (omap_hash key) \<ge> 0"

definition omap_pop :: "'v omap \<Rightarrow> string \<Rightarrow> 'v option \<times> 'v omap" where
  "omap_pop m key =
     (let h = omap_hash key; ord = omap_find m key h in
      if ord < 0 then (None, m)
      else let e = om_entries m ! nat ord; m = omap_index_erase m key h
        in (e_value e,
            m\<lparr>om_entries := (om_entries m)[nat ord := e\<lparr>e_key := None, e_value := None\<rparr>],
              om_live := om_live m - 1\<rparr>))"

definition omap_erase :: "'v omap \<Rightarrow> string \<Rightarrow> bool \<times> 'v omap" where
  "omap_erase m key =
     (if \<not> omap_contains m key then (False, m)
      else let (v, m) = omap_pop m key in (True, omap_release_value m v))"

text \<open>\<open>omap_at\<close>: the walk over the entries counts the live ones seen.\<close>

fun omap_at_walk :: "'v omap_entry list \<Rightarrow> nat \<Rightarrow> nat \<Rightarrow> (string option \<times> 'v option) option" where
  "omap_at_walk [] seen index = None"
| "omap_at_walk (e # es) seen index =
     (if e_key e = None then omap_at_walk es seen index
      else if seen = index then Some (e_key e, e_value e)
      else omap_at_walk es (Suc seen) index)"

definition omap_at :: "'v omap \<Rightarrow> nat \<Rightarrow> (string option \<times> 'v option) option" where
  "omap_at m index =
     (if om_live m = length (om_entries m) then
        if index \<ge> length (om_entries m) then None
        else Some (e_key (om_entries m ! index), e_value (om_entries m ! index))
      else omap_at_walk (om_entries m) 0 index)"

fun omap_keys_walk :: "'v omap_entry list \<Rightarrow> nat \<Rightarrow> nat \<Rightarrow> string list" where
  "omap_keys_walk [] n live = []"
| "omap_keys_walk (e # es) n live =
     (if n < live then
        case e_key e of None \<Rightarrow> omap_keys_walk es n live
        | Some k \<Rightarrow> k # omap_keys_walk es (Suc n) live
      else [])"

text \<open>None is the NULL result, for an empty map or on a failed allocation.\<close>

definition omap_keys :: "'v omap \<Rightarrow> string list option \<times> 'v omap" where
  "omap_keys m =
     (if om_live m = 0 then (None, m)
      else let (ok, m) = omap_malloc m in
        if \<not> ok then (None, m)
        else (Some (omap_keys_walk (om_entries m) 0 (om_live m)), m))"

end
