(* ===== verification/Omap_Correct.thy ===== *)
theory Omap_Correct
  imports Omap
begin

text \<open>
  Correctness of \<^verbatim>\<open>lib/libomap/omap.c\<close>: the open-addressed index stays a faithful picture of
  the live entries, every probe loop returns, and the operations are those of an
  insertion-ordered dictionary. The interfaces \<open>kv_store\<close> and \<open>ordered_dict\<close> state what
  the clients of the map rely on; the model is an instance of both.
\<close>

section \<open>The index represents the live ordinals\<close>

definition idx_pos :: "int list \<Rightarrow> u64 \<Rightarrow> nat \<Rightarrow> nat" where
  "idx_pos idx h d = (unat h + d) mod length idx"

definition idx_pow2 :: "int list \<Rightarrow> bool" where
  "idx_pow2 idx \<longleftrightarrow> (\<exists>k. length idx = 2 ^ k)"

text \<open>Linear probing: every live ordinal is stored once, and the slots from its home
  position to where it is stored are never EMPTY.\<close>

definition idx_reach :: "int list \<Rightarrow> u64 \<Rightarrow> int \<Rightarrow> bool" where
  "idx_reach idx h ord \<longleftrightarrow> (\<exists>d < length idx. idx ! idx_pos idx h d = ord
      \<and> (\<forall>d' < d. idx ! idx_pos idx h d' \<noteq> OMAP_EMPTY))"

definition idx_ok :: "nat set \<Rightarrow> (nat \<Rightarrow> u64) \<Rightarrow> int list \<Rightarrow> bool" where
  "idx_ok L hf idx \<longleftrightarrow> idx_pow2 idx
     \<and> (\<forall>s < length idx. idx ! s \<in> {OMAP_EMPTY, OMAP_DELETED} \<union> int ` L)
     \<and> (\<forall>s < length idx. \<forall>t < length idx. idx ! s \<ge> 0 \<longrightarrow> idx ! s = idx ! t \<longrightarrow> s = t)
     \<and> (\<forall>i \<in> L. idx_reach idx (hf i) (int i))"

lemma idx_pow2_pos: "idx_pow2 idx \<Longrightarrow> 0 < length idx"
  by (auto simp: idx_pow2_def)

lemma idx_pow2_nonempty [dest]: "idx_pow2 idx \<Longrightarrow> idx \<noteq> []"
  using idx_pow2_pos by fastforce

lemma idx_pow2_update [simp]: "idx_pow2 (idx[s := x]) = idx_pow2 idx"
  by (simp add: idx_pow2_def)

lemma idx_pos_update [simp]: "idx_pos (idx[s := x]) h d = idx_pos idx h d"
  by (simp add: idx_pos_def)

lemma idx_pos_less: "idx_pow2 idx \<Longrightarrow> idx_pos idx h d < length idx"
  by (auto simp: idx_pos_def)

lemma idx_and_mask: "idx_pow2 idx \<Longrightarrow> a AND (length idx - Suc 0) = a mod length idx"
  unfolding idx_pow2_def using and_mask_pow2 by (metis One_nat_def)

lemma omap_home_and: "omap_home h icap = unat h AND (icap - 1)"
proof -
  have "uint h AND int (icap - 1) = int (unat h AND (icap - 1))"
    by (simp only: of_nat_and_eq uint_nat)
  then show ?thesis by (simp add: omap_home_def)
qed

lemma idx_pos_start: "idx_pow2 idx \<Longrightarrow> omap_home h (length idx) = idx_pos idx h 0"
  by (simp add: omap_home_and idx_and_mask idx_pos_def)

lemma idx_pos_next:
  "idx_pow2 idx \<Longrightarrow> (idx_pos idx h d + 1) AND (length idx - 1) = idx_pos idx h (Suc d)"
  by (simp add: idx_and_mask idx_pos_def mod_Suc_eq)

lemma idx_pos_onto:
  assumes "idx_pow2 idx" "s < length idx"
  shows "\<exists>d < length idx. idx_pos idx h d = s"
proof -
  let ?n = "length idx"
  let ?d = "(s + ?n - unat h mod ?n) mod ?n"
  have n: "0 < ?n" using assms(1) by (rule idx_pow2_pos)
  have le: "unat h mod ?n \<le> s + ?n" using n by (meson le_add2 le_trans mod_less_divisor less_imp_le)
  have "(unat h + ?d) mod ?n = (unat h mod ?n + (s + ?n - unat h mod ?n)) mod ?n"
    by (simp add: mod_simps)
  also have "\<dots> = (s + ?n) mod ?n" using le by simp
  also have "\<dots> = s" using assms(2) by simp
  finally have "idx_pos idx h ?d = s" by (simp add: idx_pos_def)
  moreover have "?d < ?n" using n by simp
  ultimately show ?thesis by blast
qed

text \<open>Pigeonhole: fewer live ordinals than slots leave a free slot.\<close>

lemma idx_free_slot:
  assumes "idx_ok L hf idx" "finite L" "card L < length idx"
  shows "\<exists>s < length idx. idx ! s < 0"
proof (rule ccontr)
  assume "\<not> ?thesis"
  then have nn: "\<And>s. s < length idx \<Longrightarrow> 0 \<le> idx ! s" by force
  have "inj_on (\<lambda>s. idx ! s) {..<length idx}"
    using assms(1) nn by (auto simp: idx_ok_def inj_on_def)
  then have "card ((\<lambda>s. idx ! s) ` {..<length idx}) = length idx"
    by (simp add: card_image)
  moreover have "(\<lambda>s. idx ! s) ` {..<length idx} \<subseteq> int ` L"
  proof
    fix x assume "x \<in> (\<lambda>s. idx ! s) ` {..<length idx}"
    then obtain s where s: "s < length idx" "x = idx ! s" by auto
    with assms(1) have "x \<in> {OMAP_EMPTY, OMAP_DELETED} \<union> int ` L" by (auto simp: idx_ok_def)
    with nn [OF s(1)] s(2) show "x \<in> int ` L" by (auto simp: OMAP_EMPTY_def OMAP_DELETED_def)
  qed
  ultimately have "length idx \<le> card (int ` L)"
    using assms(2) by (metis card_mono finite_imageI)
  with assms(2,3) show False using card_image_le [OF assms(2), of int] by simp
qed

lemma omap_probe_free_finds:
  assumes "idx_pow2 idx" "idx ! idx_pos idx h e < 0" "d \<le> e"
    and "\<forall>d'. d \<le> d' \<and> d' < e \<longrightarrow> 0 \<le> idx ! idx_pos idx h d'"
  shows "omap_probe_free idx (length idx - 1) (idx_pos idx h d) = Some (idx_pos idx h e)"
  using assms(3,4)
proof (induction rule: inc_induct)
  case base
  show ?case using assms(2) by (subst omap_probe_free.simps) simp
next
  case (step n)
  then show ?case
    by (subst omap_probe_free.simps) (simp add: idx_pos_next [OF assms(1), simplified])
qed

lemma omap_probe_free_total:
  assumes ok: "idx_ok L hf idx" and "finite L" "card L < length idx"
  obtains e where "e < length idx" "idx ! idx_pos idx h e < 0"
    "\<forall>d' < e. 0 \<le> idx ! idx_pos idx h d'"
    "omap_probe_free idx (length idx - 1) (omap_home h (length idx)) = Some (idx_pos idx h e)"
proof -
  have p2: "idx_pow2 idx" using ok by (simp add: idx_ok_def)
  obtain s where s: "s < length idx" "idx ! s < 0" using idx_free_slot [OF assms] by blast
  obtain d0 where d0: "d0 < length idx" "idx_pos idx h d0 = s" using idx_pos_onto [OF p2 s(1)] by blast
  let ?P = "\<lambda>d. idx ! idx_pos idx h d < 0"
  define e where "e = (LEAST d. ?P d)"
  have e1: "?P e" unfolding e_def by (rule LeastI [of ?P d0]) (simp add: d0 s)
  have e2: "e \<le> d0" unfolding e_def by (rule Least_le) (simp add: d0 s)
  have e3: "\<forall>d' < e. 0 \<le> idx ! idx_pos idx h d'"
    unfolding e_def using not_less_Least by (metis not_le)
  have "omap_probe_free idx (length idx - 1) (idx_pos idx h 0) = Some (idx_pos idx h e)"
    by (rule omap_probe_free_finds [OF p2 e1]) (use e3 in auto)
  then show ?thesis
    using that [of e] e1 e2 e3 d0 by (simp add: idx_pos_start [OF p2])
qed

lemma idx_reach_put:
  assumes "idx ! s < 0" "0 \<le> x" "0 \<le> ord" "idx_reach idx h ord"
  shows "idx_reach (idx[s := x]) h ord"
proof -
  from assms(4) obtain d where d: "d < length idx" "idx ! idx_pos idx h d = ord"
    "\<forall>d' < d. idx ! idx_pos idx h d' \<noteq> OMAP_EMPTY" by (auto simp: idx_reach_def)
  have "idx_pos idx h d \<noteq> s" using d(2) assms(1,3) by auto
  moreover have "\<forall>d' < d. idx[s := x] ! idx_pos idx h d' \<noteq> OMAP_EMPTY"
    using d(3) assms(2) by (auto simp: nth_list_update_if OMAP_EMPTY_def)
  ultimately show ?thesis using d(1,2) by (auto simp: idx_reach_def)
qed

lemma omap_index_put_ok:
  assumes ok: "idx_ok L hf idx" and fin: "finite L" "card L < length idx" and new: "i \<notin> L"
    and hf: "hf i = h"
  shows "\<exists>idx'. omap_index_put idx h i = Some idx' \<and> idx_ok (insert i L) hf idx'
     \<and> length idx' = length idx"
proof -
  have p2: "idx_pow2 idx" using ok by (simp add: idx_ok_def)
  obtain e where e: "e < length idx" "idx ! idx_pos idx h e < 0"
    "\<forall>d' < e. 0 \<le> idx ! idx_pos idx h d'"
    "omap_probe_free idx (length idx - 1) (omap_home h (length idx)) = Some (idx_pos idx h e)"
    using omap_probe_free_total [OF ok fin] by blast
  let ?s = "idx_pos idx h e"
  let ?idx = "idx[?s := int i]"
  have s: "?s < length idx" by (rule idx_pos_less [OF p2])
  have "omap_index_put idx h i = Some ?idx" using e(4) by (simp add: omap_index_put_def)
  moreover have "idx_ok (insert i L) hf ?idx"
    unfolding idx_ok_def
  proof (intro conjI ballI)
    show "idx_pow2 ?idx" using p2 by simp
    show "\<forall>t < length ?idx. ?idx ! t \<in> {OMAP_EMPTY, OMAP_DELETED} \<union> int ` insert i L"
      using ok by (auto simp: idx_ok_def nth_list_update_if)
    have nin: "\<And>t. t < length idx \<Longrightarrow> idx ! t \<noteq> int i"
      using ok new by (fastforce simp: idx_ok_def OMAP_EMPTY_def OMAP_DELETED_def)
    show "\<forall>t < length ?idx. \<forall>u < length ?idx. ?idx ! t \<ge> 0 \<longrightarrow> ?idx ! t = ?idx ! u \<longrightarrow> t = u"
      using ok nin s unfolding idx_ok_def by (auto simp: nth_list_update_if)
    fix j assume j: "j \<in> insert i L"
    show "idx_reach ?idx (hf j) (int j)"
    proof (cases "j = i")
      case True
      have "\<forall>d' < e. ?idx ! idx_pos idx h d' \<noteq> OMAP_EMPTY"
        using e(3) by (auto simp: nth_list_update_if OMAP_EMPTY_def dest: spec)
      then show ?thesis using True hf e(1) s by (auto simp: idx_reach_def)
    next
      case False
      with j ok have "idx_reach idx (hf j) (int j)" by (auto simp: idx_ok_def)
      then show ?thesis by (rule idx_reach_put [OF e(2), rotated 2]) auto
    qed
  qed
  ultimately show ?thesis by simp
qed

lemma idx_ok_erase:
  assumes ok: "idx_ok L hf idx" and s: "s < length idx" "idx ! s = int i"
  shows "idx_ok (L - {i}) hf (idx[s := OMAP_DELETED])"
  unfolding idx_ok_def
proof (intro conjI ballI)
  let ?idx = "idx[s := OMAP_DELETED]"
  show "idx_pow2 ?idx" using ok by (simp add: idx_ok_def)
  have uniq: "\<And>t. t < length idx \<Longrightarrow> idx ! t = int i \<Longrightarrow> t = s"
    using ok s unfolding idx_ok_def by (metis of_nat_0_le_iff)
  show "\<forall>t < length ?idx. ?idx ! t \<in> {OMAP_EMPTY, OMAP_DELETED} \<union> int ` (L - {i})"
    using ok uniq by (fastforce simp: idx_ok_def nth_list_update_if)
  show "\<forall>t < length ?idx. \<forall>u < length ?idx. ?idx ! t \<ge> 0 \<longrightarrow> ?idx ! t = ?idx ! u \<longrightarrow> t = u"
    using ok unfolding idx_ok_def by (auto simp: nth_list_update_if OMAP_DELETED_def)
  fix j assume j: "j \<in> L - {i}"
  with ok obtain d where d: "d < length idx" "idx ! idx_pos idx (hf j) d = int j"
    "\<forall>d' < d. idx ! idx_pos idx (hf j) d' \<noteq> OMAP_EMPTY" by (auto simp: idx_ok_def idx_reach_def)
  have "idx_pos idx (hf j) d \<noteq> s" using d(2) s(2) j by auto
  moreover have "\<forall>d' < d. ?idx ! idx_pos idx (hf j) d' \<noteq> OMAP_EMPTY"
    using d(3) by (auto simp: nth_list_update_if OMAP_EMPTY_def OMAP_DELETED_def)
  ultimately show "idx_reach ?idx (hf j) (int j)" using d(1,2) by (auto simp: idx_reach_def)
qed

lemma idx_okD:
  assumes "idx_ok L hf idx"
  shows idx_ok_pow2: "idx_pow2 idx"
    and idx_ok_reach: "i \<in> L \<Longrightarrow> idx_reach idx (hf i) (int i)"
    and idx_ok_slot: "s < length idx \<Longrightarrow> 0 \<le> idx ! s \<Longrightarrow> \<exists>i \<in> L. idx ! s = int i"
  using assms by (fastforce simp: idx_ok_def OMAP_EMPTY_def OMAP_DELETED_def)+

lemma idx_ok_cong: "(\<And>i. i \<in> L \<Longrightarrow> hf i = hf' i) \<Longrightarrow> idx_ok L hf idx = idx_ok L hf' idx"
  by (simp add: idx_ok_def)

lemma idx_ok_empty: "length idx = 2 ^ k \<Longrightarrow> \<forall>s < length idx. idx ! s = OMAP_EMPTY \<Longrightarrow> idx_ok {} hf idx"
  by (auto simp: idx_ok_def idx_pow2_def OMAP_EMPTY_def)

section \<open>Invariant and abstraction\<close>

definition omap_live_ords :: "'v omap_entry list \<Rightarrow> nat set" where
  "omap_live_ords es = {i. i < length es \<and> e_key (es ! i) \<noteq> None}"

text \<open>The abstract map: the live keys with their values, in insertion order.\<close>

definition omap_bindings :: "'v omap_entry list \<Rightarrow> (string \<times> 'v option) list" where
  "omap_bindings es = map (\<lambda>e. (the (e_key e), e_value e)) (filter (\<lambda>e. e_key e \<noteq> None) es)"

abbreviation omap_abs :: "'v omap \<Rightarrow> (string \<times> 'v option) list" where
  "omap_abs m \<equiv> omap_bindings (om_entries m)"

definition omap_entries_ok :: "'v omap_entry list \<Rightarrow> bool" where
  "omap_entries_ok es \<longleftrightarrow> distinct (map fst (omap_bindings es))
     \<and> (\<forall>e \<in> set es. \<forall>k. e_key e = Some k \<longrightarrow> e_hash e = omap_hash k)"

definition omap_inv :: "'v omap \<Rightarrow> bool" where
  "omap_inv m \<longleftrightarrow> omap_entries_ok (om_entries m)
     \<and> om_live m = length (omap_abs m)
     \<and> length (om_entries m) \<le> om_ecap m
     \<and> (if om_index m = [] then om_entries m = []
        else idx_ok (omap_live_ords (om_entries m)) (\<lambda>i. e_hash (om_entries m ! i)) (om_index m)
             \<and> length (om_entries m) * 3 < length (om_index m) * 2)"

text \<open>Python's \<open>dict\<close> on the abstract map.\<close>

fun dict_set :: "('k \<times> 'a) list \<Rightarrow> 'k \<Rightarrow> 'a \<Rightarrow> ('k \<times> 'a) list" where
  "dict_set [] k v = [(k, v)]"
| "dict_set ((k', v') # xs) k v = (if k' = k then (k, v) # xs else (k', v') # dict_set xs k v)"

definition dict_del :: "('k \<times> 'a) list \<Rightarrow> 'k \<Rightarrow> ('k \<times> 'a) list" where
  "dict_del xs k = filter (\<lambda>p. fst p \<noteq> k) xs"

lemma dict_set_new: "k \<notin> fst ` set xs \<Longrightarrow> dict_set xs k v = xs @ [(k, v)]"
  by (induction xs) auto

lemma dict_set_split:
  "k \<notin> fst ` set xs \<Longrightarrow> dict_set (xs @ (k, v') # ys) k v = xs @ (k, v) # ys"
  by (induction xs) auto

lemma map_of_dict_set [simp]: "map_of (dict_set xs k v) = (map_of xs)(k \<mapsto> v)"
  by (induction xs) (auto simp: fun_eq_iff)

lemma map_of_dict_del [simp]: "map_of (dict_del xs k) = (map_of xs)(k := None)"
  by (induction xs) (auto simp: dict_del_def fun_eq_iff)

lemma dict_del_id: "k \<notin> fst ` set xs \<Longrightarrow> dict_del xs k = xs"
  by (induction xs) (auto simp: dict_del_def)

lemma dict_del_split:
  "distinct (map fst (xs @ (k, v) # ys)) \<Longrightarrow> dict_del (xs @ (k, v) # ys) k = xs @ ys"
  using dict_del_id [of k xs] dict_del_id [of k ys] by (simp add: dict_del_def)

lemma omap_bindings_append [simp]: "omap_bindings (xs @ ys) = omap_bindings xs @ omap_bindings ys"
  by (simp add: omap_bindings_def)

lemma omap_bindings_Nil [simp]: "omap_bindings [] = []"
  by (simp add: omap_bindings_def)

lemma omap_bindings_Cons [simp]: "omap_bindings (e # es) =
    (case e_key e of None \<Rightarrow> omap_bindings es | Some k \<Rightarrow> (k, e_value e) # omap_bindings es)"
  by (auto simp: omap_bindings_def)

lemma omap_bindings_filter [simp]:
  "omap_bindings (filter (\<lambda>e. e_key e \<noteq> None) es) = omap_bindings es"
  by (simp add: omap_bindings_def)

lemma finite_omap_live_ords [simp]: "finite (omap_live_ords es)"
  by (simp add: omap_live_ords_def)

lemma card_omap_live_ords: "card (omap_live_ords es) = length (omap_bindings es)"
  by (simp add: omap_live_ords_def omap_bindings_def length_filter_conv_card)

lemma length_omap_bindings_le: "length (omap_bindings es) \<le> length es"
  by (simp add: omap_bindings_def)

lemma omap_live_ords_snoc [simp]:
  "e_key e \<noteq> None \<Longrightarrow> omap_live_ords (es @ [e]) = insert (length es) (omap_live_ords es)"
  by (auto simp: omap_live_ords_def nth_append less_Suc_eq)

lemma omap_live_ords_update_dead:
  "i < length es \<Longrightarrow> e_key e = None \<Longrightarrow> omap_live_ords (es[i := e]) = omap_live_ords es - {i}"
  by (auto simp: omap_live_ords_def nth_list_update_if)

lemma omap_live_ords_update_same:
  "e_key e = e_key (es ! i) \<Longrightarrow> omap_live_ords (es[i := e]) = omap_live_ords es"
  by (auto simp: omap_live_ords_def nth_list_update_if)

lemma omap_bindings_split:
  assumes "i < length es" "e_key (es ! i) = Some k"
  obtains xs ys where "es = xs @ es ! i # ys" "length xs = i"
    "omap_bindings es = omap_bindings xs @ (k, e_value (es ! i)) # omap_bindings ys"
proof -
  have s: "es = take i es @ es ! i # drop (Suc i) es" using assms(1) by (rule id_take_nth_drop)
  show ?thesis
    by (rule that [OF s]) (use assms in simp, subst s, simp add: assms(2))
qed

text \<open>A live key has one ordinal.\<close>

lemma omap_ord_unique:
  assumes "omap_entries_ok es" "i < length es" "j < length es"
    and "e_key (es ! i) = Some k" "e_key (es ! j) = Some k"
  shows "i = j"
proof -
  let ?P = "\<lambda>e. e_key e \<noteq> None"
  have *: False if "i < j" "j < length es" "e_key (es ! i) = Some k" "e_key (es ! j) = Some k" for i j
  proof -
    have s: "es = take j es @ es ! j # drop (Suc j) es" using that(2) by (rule id_take_nth_drop)
    have b: "omap_bindings es =
        omap_bindings (take j es) @ (k, e_value (es ! j)) # omap_bindings (drop (Suc j) es)"
      by (subst s) (simp add: that(4))
    have "es ! i \<in> set (take j es)" using that(1,2) by (auto simp: in_set_conv_nth intro!: exI [of _ i])
    then have "k \<in> fst ` set (omap_bindings (take j es))"
      using that(3) by (force simp: omap_bindings_def)
    then show False using assms(1) b by (simp add: omap_entries_ok_def)
  qed
  show ?thesis using * [of i j] * [of j i] assms(2-) by (cases i j rule: linorder_cases) auto
qed

lemma omap_bindings_key:
  "k \<in> fst ` set (omap_bindings es) \<longleftrightarrow> (\<exists>i < length es. e_key (es ! i) = Some k)"
  unfolding omap_bindings_def by (force simp: in_set_conv_nth image_iff)

section \<open>Lookup\<close>

lemma omap_probe_key_sound:
  assumes "idx_pow2 idx" "omap_probe_key es idx k h (idx_pos idx h d) n = Some s"
  shows "s < length idx \<and> 0 \<le> idx ! s \<and> omap_entry_is (es ! nat (idx ! s)) k h"
  using assms(2)
proof (induction n arbitrary: d)
  case (Suc n)
  then show ?case
    using idx_pos_less [OF assms(1), of h d]
    by (auto simp: Let_def idx_pos_next [OF assms(1), simplified] split: if_splits)
qed simp

lemma omap_probe_key_complete:
  assumes "idx_pow2 idx" "d \<le> e" "e < d + n" "0 \<le> idx ! idx_pos idx h e"
    and "omap_entry_is (es ! nat (idx ! idx_pos idx h e)) k h"
    and "\<forall>d'. d \<le> d' \<and> d' < e \<longrightarrow> idx ! idx_pos idx h d' \<noteq> OMAP_EMPTY"
  shows "omap_probe_key es idx k h (idx_pos idx h d) n \<noteq> None"
  using assms(2,3,6)
proof (induction n arbitrary: d)
  case (Suc n)
  show ?case
  proof (cases "d = e")
    case True
    then show ?thesis using assms(4,5) by (simp add: Let_def OMAP_EMPTY_def)
  next
    case False
    with Suc show ?thesis
      by (auto simp: Let_def idx_pos_next [OF assms(1), simplified])
  qed
qed simp

lemma omap_probe_key_eq:
  assumes ok: "omap_entries_ok es" "idx_ok (omap_live_ords es) (\<lambda>i. e_hash (es ! i)) idx"
  shows "case omap_probe_key es idx k (omap_hash k) (omap_home (omap_hash k) (length idx)) (length idx) of
      None \<Rightarrow> k \<notin> fst ` set (omap_bindings es)
    | Some s \<Rightarrow> s < length idx \<and> (\<exists>i < length es. idx ! s = int i \<and> e_key (es ! i) = Some k)"
proof -
  let ?h = "omap_hash k"
  have p2: "idx_pow2 idx" using ok(2) by (rule idx_ok_pow2)
  have st: "omap_home ?h (length idx) = idx_pos idx ?h 0"
    using idx_pos_start [OF p2] by simp
  show ?thesis
  proof (cases "omap_probe_key es idx k ?h (idx_pos idx ?h 0) (length idx)")
    case None
    have "k \<notin> fst ` set (omap_bindings es)"
    proof
      assume "k \<in> fst ` set (omap_bindings es)"
      then obtain i where i: "i < length es" "e_key (es ! i) = Some k"
        by (auto simp: omap_bindings_key)
      then have hh: "e_hash (es ! i) = ?h" using ok(1) by (auto simp: omap_entries_ok_def)
      have "i \<in> omap_live_ords es" using i by (simp add: omap_live_ords_def)
      then have "idx_reach idx ?h (int i)" using idx_ok_reach [OF ok(2)] hh by force
      then obtain d where d: "d < length idx" "idx ! idx_pos idx ?h d = int i"
        "\<forall>d' < d. idx ! idx_pos idx ?h d' \<noteq> OMAP_EMPTY"
        unfolding idx_reach_def by blast
      have "omap_entry_is (es ! nat (idx ! idx_pos idx ?h d)) k ?h"
        using d(2) i hh by (simp add: omap_entry_is_def)
      then have "omap_probe_key es idx k ?h (idx_pos idx ?h 0) (length idx) \<noteq> None"
        by (intro omap_probe_key_complete [OF p2, of 0 d]) (use d in simp_all)
      then show False using None by simp
    qed
    then show ?thesis using None st by simp
  next
    case (Some s)
    have s: "s < length idx" "0 \<le> idx ! s" "omap_entry_is (es ! nat (idx ! s)) k ?h"
      using omap_probe_key_sound [OF p2 Some] by auto
    then obtain i where "i \<in> omap_live_ords es" "idx ! s = int i"
      using idx_ok_slot [OF ok(2)] by blast
    then show ?thesis using Some st s by (auto simp: omap_live_ords_def omap_entry_is_def)
  qed
qed

lemma omap_find_absent:
  assumes "omap_inv m" "k \<notin> fst ` set (omap_abs m)"
  shows "omap_find m k (omap_hash k) = -1"
proof (cases "om_index m = []")
  case False
  then have ok: "omap_entries_ok (om_entries m)"
    "idx_ok (omap_live_ords (om_entries m)) (\<lambda>i. e_hash (om_entries m ! i)) (om_index m)"
    using assms(1) by (auto simp: omap_inv_def)
  show ?thesis
    using omap_probe_key_eq [OF ok, of k] assms(2) omap_bindings_key [of k "om_entries m"]
    by (fastforce simp: omap_find_def split: option.splits)
qed (simp add: omap_find_def)

lemma omap_find_present:
  assumes "omap_inv m" "i < length (om_entries m)" "e_key (om_entries m ! i) = Some k"
  shows "omap_find m k (omap_hash k) = int i"
    and "\<exists>s < length (om_index m). om_index m ! s = int i \<and>
      omap_probe_key (om_entries m) (om_index m) k (omap_hash k)
        (omap_home (omap_hash k) (length (om_index m))) (length (om_index m)) = Some s"
proof -
  have ne: "om_index m \<noteq> []" using assms by (auto simp: omap_inv_def)
  then have ok: "omap_entries_ok (om_entries m)"
    "idx_ok (omap_live_ords (om_entries m)) (\<lambda>i. e_hash (om_entries m ! i)) (om_index m)"
    using assms(1) by (auto simp: omap_inv_def)
  have mem: "k \<in> fst ` set (omap_abs m)" using assms(2,3) by (auto simp: omap_bindings_key)
  then have live: "om_live m \<noteq> 0" using assms(1) by (auto simp: omap_inv_def)
  obtain s where s: "omap_probe_key (om_entries m) (om_index m) k (omap_hash k)
        (omap_home (omap_hash k) (length (om_index m))) (length (om_index m)) = Some s"
      "s < length (om_index m)" "\<exists>j < length (om_entries m). om_index m ! s = int j
        \<and> e_key (om_entries m ! j) = Some k"
    using omap_probe_key_eq [OF ok, of k] mem by (auto split: option.splits)
  then have i: "om_index m ! s = int i"
    using omap_ord_unique [OF ok(1) assms(2) _ assms(3)] by blast
  show "omap_find m k (omap_hash k) = int i"
    using s(1) i live ne by (simp add: omap_find_def)
  show "\<exists>s < length (om_index m). om_index m ! s = int i \<and>
      omap_probe_key (om_entries m) (om_index m) k (omap_hash k)
        (omap_home (omap_hash k) (length (om_index m))) (length (om_index m)) = Some s"
    using s(1,2) i by blast
qed

lemma omap_find_cases:
  assumes "omap_inv m"
  obtains (absent) "k \<notin> fst ` set (omap_abs m)" "omap_find m k (omap_hash k) = -1"
  | (present) i where "i < length (om_entries m)" "e_key (om_entries m ! i) = Some k"
      "omap_find m k (omap_hash k) = int i" "k \<in> fst ` set (omap_abs m)"
  using assms omap_find_absent omap_find_present(1) omap_bindings_key by metis

section \<open>Reindexing, compaction and growth\<close>

definition omap_mem_ok :: "'v omap \<Rightarrow> bool" where
  "omap_mem_ok m \<longleftrightarrow> False \<notin> set (om_mem m)"

lemma omap_malloc_cases:
  obtains b bs where "omap_malloc m = (b, m\<lparr>om_mem := bs\<rparr>)"
    "omap_mem_ok m \<Longrightarrow> b \<and> False \<notin> set bs"
  by (cases "om_mem m") (auto simp: omap_malloc_def omap_mem_ok_def intro: that [of True "[]"])

lemma omap_put_all_ok:
  assumes "idx_ok (omap_live_ords pre) (\<lambda>i. e_hash ((pre @ es) ! i)) idx"
    and "length (pre @ es) < length idx"
  shows "\<exists>idx'. omap_put_all es (length pre) idx = Some idx'
     \<and> idx_ok (omap_live_ords (pre @ es)) (\<lambda>i. e_hash ((pre @ es) ! i)) idx'
     \<and> length idx' = length idx"
  using assms
proof (induction es arbitrary: pre idx)
  case (Cons e es)
  let ?hf = "\<lambda>i. e_hash ((pre @ e # es) ! i)"
  show ?case
  proof (cases "e_key e = None")
    case True
    have "omap_live_ords (pre @ [e]) = omap_live_ords pre"
      using True by (auto simp: omap_live_ords_def nth_append less_Suc_eq)
    then show ?thesis using Cons.IH [of "pre @ [e]" idx] Cons.prems True by simp
  next
    case False
    then obtain y where y: "e_key e = Some y" by auto
    have "card (omap_live_ords pre) < length idx"
      using Cons.prems(2) length_omap_bindings_le [of pre] by (simp add: card_omap_live_ords)
    moreover have "length pre \<notin> omap_live_ords pre" by (simp add: omap_live_ords_def)
    ultimately obtain idx' where "omap_index_put idx (e_hash e) (length pre) = Some idx'"
      "idx_ok (insert (length pre) (omap_live_ords pre)) ?hf idx'" "length idx' = length idx"
      using omap_index_put_ok [OF Cons.prems(1), of "length pre" "e_hash e"] by auto
    then show ?thesis using Cons.IH [of "pre @ [e]" idx'] Cons.prems y by simp
  qed
qed auto

lemma omap_reindex_ok:
  assumes "cap = max OMAP_MIN_INDEX_CAP n" "cap = 2 ^ k" "length (om_entries m) < cap"
  obtains idx where
    "omap_reindex m n = Some (let (ok, m) = omap_malloc m in
        if ok then (True, m\<lparr>om_index := idx\<rparr>) else (False, m))"
    "idx_ok (omap_live_ords (om_entries m)) (\<lambda>i. e_hash (om_entries m ! i)) idx"
    "length idx = cap"
proof -
  have c: "(if n < OMAP_MIN_INDEX_CAP then OMAP_MIN_INDEX_CAP else n) = cap"
    using assms(1) by auto
  have "idx_ok {} (\<lambda>i. e_hash (om_entries m ! i)) (replicate cap OMAP_EMPTY)"
    by (rule idx_ok_empty [of _ k]) (use assms in auto)
  then obtain idx where idx: "omap_put_all (om_entries m) 0 (replicate cap OMAP_EMPTY) = Some idx"
    "idx_ok (omap_live_ords (om_entries m)) (\<lambda>i. e_hash (om_entries m ! i)) idx" "length idx = cap"
    using omap_put_all_ok [of "[]" "om_entries m" "replicate cap OMAP_EMPTY"] assms(3)
    by (auto simp: omap_live_ords_def)
  obtain b bs where b: "omap_malloc m = (b, m\<lparr>om_mem := bs\<rparr>)" by (rule omap_malloc_cases)
  show ?thesis by (rule that [OF _ idx(2,3)]) (simp add: omap_reindex_def c b idx(1))
qed

lemma omap_slide_filter:
  "w \<le> r \<Longrightarrow> r \<le> length es \<Longrightarrow>
   omap_slide es r w = take w es @ filter (\<lambda>e. e_key e \<noteq> None) (drop r es)"
proof (induction es r w rule: omap_slide.induct)
  case (1 es r w)
  show ?case
  proof (cases "r < length es")
    case True
    then have d: "drop r es = es ! r # drop (Suc r) es" by (simp add: Cons_nth_drop_Suc)
    show ?thesis
    proof (cases "e_key (es ! r) = None")
      case dead: True
      then show ?thesis using "1" True d by (subst omap_slide.simps) simp
    next
      case False
      then obtain y where y: "e_key (es ! r) = Some y" by auto
      let ?es = "if w \<noteq> r then es[w := es ! r] else es"
      have "omap_slide es r w = omap_slide ?es (Suc r) (Suc w)"
        using True y by (subst omap_slide.simps) simp
      also have "\<dots> = take (Suc w) ?es @ filter (\<lambda>e. e_key e \<noteq> None) (drop (Suc r) ?es)"
        using "1.IH"(2) [OF True False] "1.prems" True by simp
      also have "take (Suc w) ?es = take w es @ [es ! r]"
        using "1.prems" True by (auto simp: take_Suc_conv_app_nth)
      also have "drop (Suc r) ?es = drop (Suc r) es"
        using "1.prems" by (simp add: drop_update_cancel)
      finally show ?thesis using d y by simp
    qed
  next
    case False
    then show ?thesis using "1.prems" by (subst omap_slide.simps) simp
  qed
qed

lemma omap_entries_ok_filter:
  "omap_entries_ok es \<Longrightarrow> omap_entries_ok (filter (\<lambda>e. e_key e \<noteq> None) es)"
  unfolding omap_entries_ok_def omap_bindings_filter by simp

lemma omap_grow_icap_spec:
  "0 < ncap \<Longrightarrow> need * 3 < omap_grow_icap need ncap * 2 \<and> (\<exists>j. omap_grow_icap need ncap = ncap * 2 ^ j)"
proof (induction need ncap rule: omap_grow_icap.induct)
  case (1 need ncap)
  show ?case
  proof (cases "need * 3 \<ge> ncap * 2")
    case True
    then obtain j where "omap_grow_icap need (ncap * 2) = ncap * 2 * 2 ^ j"
      "need * 3 < omap_grow_icap need (ncap * 2) * 2" using "1" by auto
    then show ?thesis using True "1.prems"
      by (subst (1 2) omap_grow_icap.simps) (auto intro!: exI [of _ "Suc j"])
  next
    case False
    then show ?thesis by (subst (1 2) omap_grow_icap.simps) (auto intro!: exI [of _ 0])
  qed
qed

definition omap_compact_due :: "'v omap \<Rightarrow> bool" where
  "omap_compact_due m \<longleftrightarrow>
     length (om_entries m) = om_ecap m \<and> om_live m * 2 \<le> length (om_entries m)"

definition omap_frame :: "'v omap \<Rightarrow> 'v omap \<Rightarrow> bool" where
  "omap_frame m m' \<longleftrightarrow> omap_abs m' = omap_abs m \<and> om_live m' = om_live m
     \<and> om_value_free m' = om_value_free m \<and> om_freed m' = om_freed m"

lemma omap_inv_cap:
  assumes "omap_inv m"
  shows "\<exists>k. max OMAP_MIN_INDEX_CAP (length (om_index m)) = 2 ^ k"
proof (cases "length (om_index m) < OMAP_MIN_INDEX_CAP")
  case True
  then have "max OMAP_MIN_INDEX_CAP (length (om_index m)) = 2 ^ 3"
    by (simp add: OMAP_MIN_INDEX_CAP_def)
  then show ?thesis by blast
next
  case False
  then have "om_index m \<noteq> []" by (auto simp: OMAP_MIN_INDEX_CAP_def)
  then have "idx_pow2 (om_index m)" using assms by (auto simp: omap_inv_def dest: idx_ok_pow2)
  then show ?thesis using False by (auto simp: idx_pow2_def max_def)
qed

lemma omap_compact_ok:
  assumes "omap_inv m"
  obtains ok m' where "omap_compact m = Some (ok, m')" "omap_frame m m'"
    "ok \<Longrightarrow> omap_inv m'" "om_ecap m' = om_ecap m" "omap_mem_ok m \<Longrightarrow> ok \<and> omap_mem_ok m'"
proof -
  define es where "es = filter (\<lambda>e. e_key e \<noteq> None) (om_entries m)"
  have es: "omap_bindings es = omap_abs m" "length es \<le> length (om_entries m)"
    "omap_entries_ok (om_entries m) \<Longrightarrow> omap_entries_ok es"
    unfolding es_def by (rule omap_bindings_filter, rule length_filter_le, rule omap_entries_ok_filter)
  let ?m = "m\<lparr>om_entries := es\<rparr>"
  let ?n = "length (om_index m)"
  have sl: "omap_slide (om_entries m) 0 0 = es" unfolding es_def by (simp only: omap_slide_filter) simp
  obtain k where k: "max OMAP_MIN_INDEX_CAP ?n = 2 ^ k" using omap_inv_cap [OF assms] by blast
  have small: "length es * 3 < max OMAP_MIN_INDEX_CAP ?n * 2"
  proof (cases "om_index m = []")
    case True
    then show ?thesis using assms es(2) by (simp add: omap_inv_def OMAP_MIN_INDEX_CAP_def)
  next
    case False
    then have "length (om_entries m) * 3 < ?n * 2" using assms by (simp add: omap_inv_def)
    then show ?thesis using es(2) by linarith
  qed
  then have lt: "length (om_entries ?m) < max OMAP_MIN_INDEX_CAP ?n" by simp
  obtain idx where idx: "omap_reindex ?m ?n = Some (let (ok, m) = omap_malloc ?m in
        if ok then (True, m\<lparr>om_index := idx\<rparr>) else (False, m))"
    "idx_ok (omap_live_ords (om_entries ?m)) (\<lambda>i. e_hash (om_entries ?m ! i)) idx"
    "length idx = max OMAP_MIN_INDEX_CAP ?n"
    by (rule omap_reindex_ok [OF refl k lt])
  obtain b bs where b: "omap_malloc ?m = (b, ?m\<lparr>om_mem := bs\<rparr>)"
    "omap_mem_ok ?m \<Longrightarrow> b \<and> False \<notin> set bs" by (rule omap_malloc_cases [of ?m]) blast
  have ne: "idx \<noteq> []" using idx(2) by (auto dest: idx_ok_pow2)
  show ?thesis
  proof (rule that)
    show "omap_compact m = Some (b, if b then ?m\<lparr>om_mem := bs, om_index := idx\<rparr> else ?m\<lparr>om_mem := bs\<rparr>)"
      using idx(1) b(1) by (simp add: omap_compact_def sl)
  qed (use assms idx small ne b es in
      \<open>auto simp: omap_frame_def omap_inv_def omap_mem_ok_def\<close>)
qed

text \<open>What \<open>omap_reserve_one\<close> guarantees; the one failure that can leave the map
  inconsistent is a failed reindex of a due compaction.\<close>

definition omap_room :: "'v omap \<Rightarrow> bool" where
  "omap_room m \<longleftrightarrow> length (om_entries m) < om_ecap m
     \<and> (length (om_entries m) + 1) * 3 < length (om_index m) * 2"

lemma omap_reserve_index:
  assumes "omap_inv m" "length (om_entries m) < om_ecap m"
    and "om_index m = [] \<or> (length (om_entries m) + 1) * 3 \<ge> length (om_index m) * 2"
  obtains ok m' where
    "omap_reindex m (omap_grow_icap (length (om_entries m) + 1)
        (if om_index m \<noteq> [] then length (om_index m) * 2 else OMAP_MIN_INDEX_CAP)) = Some (ok, m')"
    "omap_frame m m'" "omap_inv m'" "ok \<Longrightarrow> omap_room m'"
    "omap_mem_ok m \<Longrightarrow> ok \<and> omap_mem_ok m'"
proof -
  define st where "st = (if om_index m \<noteq> [] then length (om_index m) * 2 else OMAP_MIN_INDEX_CAP)"
  define n where "n = omap_grow_icap (length (om_entries m) + 1) st"
  have p: "0 < st" by (simp add: st_def OMAP_MIN_INDEX_CAP_def)
  obtain j where j: "n = st * 2 ^ j" and g: "(length (om_entries m) + 1) * 3 < n * 2"
    using omap_grow_icap_spec [OF p, of "length (om_entries m) + 1"] unfolding n_def by (elim conjE exE)
  have "\<exists>i. st = 2 ^ i"
  proof (cases "om_index m = []")
    case True
    have "OMAP_MIN_INDEX_CAP = 2 ^ 3" by (simp add: OMAP_MIN_INDEX_CAP_def)
    then show ?thesis using True st_def by metis
  next
    case False
    then obtain i where "length (om_index m) = 2 ^ i"
      using assms(1) idx_ok_pow2 unfolding omap_inv_def idx_pow2_def by meson
    then have "st = 2 ^ Suc i" using False by (simp add: st_def)
    then show ?thesis by blast
  qed
  then obtain i where "st = 2 ^ i" by blast
  then have i: "n = 2 ^ (i + j)" using j by (simp only: power_add)
  define cap where "cap = max OMAP_MIN_INDEX_CAP n"
  have "\<exists>k. cap = 2 ^ k"
  proof (cases "n < OMAP_MIN_INDEX_CAP")
    case True
    then have "cap = 2 ^ 3" by (simp add: cap_def OMAP_MIN_INDEX_CAP_def)
    then show ?thesis by blast
  next
    case False
    then have "cap = n" by (simp add: cap_def)
    then show ?thesis using i by metis
  qed
  then obtain k where k: "cap = 2 ^ k" by blast
  have le: "n \<le> cap" by (simp add: cap_def)
  have lt: "length (om_entries m) < cap" using g le by presburger
  obtain idx where idx: "omap_reindex m n = Some (let (ok, m) = omap_malloc m in
        if ok then (True, m\<lparr>om_index := idx\<rparr>) else (False, m))"
    "idx_ok (omap_live_ords (om_entries m)) (\<lambda>i. e_hash (om_entries m ! i)) idx"
    "length idx = cap"
    by (rule omap_reindex_ok [OF cap_def k lt])
  obtain b bs where b: "omap_malloc m = (b, m\<lparr>om_mem := bs\<rparr>)"
    "omap_mem_ok m \<Longrightarrow> b \<and> False \<notin> set bs" by (rule omap_malloc_cases [of m]) blast
  have ne: "idx \<noteq> []" using idx(2) by (auto dest: idx_ok_pow2)
  have fit: "(length (om_entries m) + 1) * 3 < length idx * 2" using g le idx(3) by linarith
  show ?thesis
  proof (rule that)
    show "omap_reindex m (omap_grow_icap (length (om_entries m) + 1)
        (if om_index m \<noteq> [] then length (om_index m) * 2 else OMAP_MIN_INDEX_CAP)) = Some (b, if b then m\<lparr>om_mem := bs, om_index := idx\<rparr> else m\<lparr>om_mem := bs\<rparr>)"
      unfolding st_def [symmetric] n_def [symmetric] using idx(1) b(1) by simp
  qed (use assms(1,2) idx(2) fit ne b(2) in
      \<open>auto simp: omap_frame_def omap_inv_def omap_mem_ok_def omap_room_def\<close>)
qed

lemma omap_frame_trans: "omap_frame m m' \<Longrightarrow> omap_frame m' m'' \<Longrightarrow> omap_frame m m''"
  by (simp add: omap_frame_def)

lemma omap_frame_refl [simp]: "omap_frame m m"
  by (simp add: omap_frame_def)

lemma omap_inv_mem [simp]: "omap_inv (m\<lparr>om_mem := bs\<rparr>) = omap_inv m"
  by (simp add: omap_inv_def)

lemma omap_reserve_one_ok:
  assumes "omap_inv m"
  obtains ok m' where "omap_reserve_one m = Some (ok, m')" "omap_frame m m'"
    "ok \<Longrightarrow> omap_inv m' \<and> omap_room m'"
    "\<not> ok \<Longrightarrow> \<not> omap_compact_due m \<Longrightarrow> omap_inv m'"
    "omap_mem_ok m \<Longrightarrow> ok \<and> omap_mem_ok m'"
proof -
  obtain ok1 m1 where m1: "(if omap_compact_due m then omap_compact m else Some (True, m)) = Some (ok1, m1)"
    "omap_frame m m1" "ok1 \<Longrightarrow> omap_inv m1" "omap_mem_ok m \<Longrightarrow> ok1 \<and> omap_mem_ok m1"
    "\<not> omap_compact_due m \<Longrightarrow> ok1 \<and> omap_inv m1"
  proof (cases "omap_compact_due m")
    case True
    obtain ok m' where "omap_compact m = Some (ok, m')" "omap_frame m m'"
      "ok \<Longrightarrow> omap_inv m'" "omap_mem_ok m \<Longrightarrow> ok \<and> omap_mem_ok m'"
      by (rule omap_compact_ok [OF assms]) blast
    then show ?thesis using True by (intro that [of ok m']) auto
  qed (use assms in \<open>auto intro: that [of True m]\<close>)
  note r = omap_reserve_one_def [folded omap_compact_due_def] m1(1)
  show ?thesis
  proof (cases ok1)
    case False
    then show ?thesis using m1 by (intro that [of False m1]) (auto simp: r)
  next
    case True
    define full where "full \<longleftrightarrow> length (om_entries m1) = om_ecap m1"
    define ncap where "ncap = (if om_ecap m1 \<noteq> 0 then om_ecap m1 * 2 else OMAP_MIN_INDEX_CAP)"
    obtain b bs where b: "omap_malloc m1 = (b, m1\<lparr>om_mem := bs\<rparr>)"
      "omap_mem_ok m1 \<Longrightarrow> b \<and> False \<notin> set bs" by (rule omap_malloc_cases [of m1]) blast
    define m2 where "m2 = (if full then m1\<lparr>om_mem := bs, om_ecap := ncap\<rparr> else m1)"
    have inv1: "omap_inv m1" using m1(3) True by simp
    show ?thesis
    proof (cases "full \<and> \<not> b")
      case fail: True
      then show ?thesis using m1 b True inv1
        by (intro that [of False "m1\<lparr>om_mem := bs\<rparr>"]) (auto simp: r full_def omap_frame_def)
    next
      case go: False
      have inv2: "omap_inv m2" and fr2: "omap_frame m m2" and lt2: "length (om_entries m2) < om_ecap m2"
        and mem2: "omap_mem_ok m \<Longrightarrow> omap_mem_ok m2"
        using inv1 m1 b go True
        by (auto simp: m2_def omap_inv_def omap_frame_def full_def ncap_def OMAP_MIN_INDEX_CAP_def omap_mem_ok_def)
      let ?due = "om_index m2 = [] \<or> (length (om_entries m2) + 1) * 3 \<ge> length (om_index m2) * 2"
      have e: "omap_reserve_one m = (if ?due then omap_reindex m2 (omap_grow_icap (length (om_entries m2) + 1)
          (if om_index m2 \<noteq> [] then length (om_index m2) * 2 else OMAP_MIN_INDEX_CAP)) else Some (True, m2))"
        using go b(1) True by (auto simp: r m2_def full_def ncap_def Let_def)
      show ?thesis
      proof (cases ?due)
        case True
        obtain ok m' where "omap_reserve_one m = Some (ok, m')" "omap_frame m2 m'" "omap_inv m'"
          "ok \<Longrightarrow> omap_room m'" "omap_mem_ok m2 \<Longrightarrow> ok \<and> omap_mem_ok m'"
          using omap_reserve_index [OF inv2 lt2 True] e True by (metis (no_types, lifting))
        then show ?thesis using fr2 mem2 by (intro that [of ok m']) (auto intro: omap_frame_trans)
      next
        case False
        then show ?thesis using e inv2 fr2 lt2 mem2
          by (intro that [of True m2]) (auto simp: omap_room_def)
      qed
    qed
  qed
qed

section \<open>The operations refine an insertion-ordered dictionary\<close>

lemma omap_abs_split:
  assumes "omap_inv m" "i < length (om_entries m)" "e_key (om_entries m ! i) = Some k"
  obtains xs ys where "om_entries m = xs @ om_entries m ! i # ys" "length xs = i"
    "omap_abs m = omap_bindings xs @ (k, e_value (om_entries m ! i)) # omap_bindings ys"
    "k \<notin> fst ` set (omap_bindings xs)" "k \<notin> fst ` set (omap_bindings ys)"
proof -
  obtain xs ys where s: "om_entries m = xs @ om_entries m ! i # ys" "length xs = i"
    "omap_abs m = omap_bindings xs @ (k, e_value (om_entries m ! i)) # omap_bindings ys"
    using omap_bindings_split [OF assms(2,3)] by metis
  moreover have "distinct (map fst (omap_abs m))"
    using assms(1) by (simp add: omap_inv_def omap_entries_ok_def)
  ultimately show ?thesis by (intro that) auto
qed

lemma omap_find_value:
  assumes "omap_inv m" "i < length (om_entries m)" "e_key (om_entries m ! i) = Some k"
  shows "map_of (omap_abs m) k = Some (e_value (om_entries m ! i))"
proof -
  obtain xs ys where "omap_abs m = omap_bindings xs @ (k, e_value (om_entries m ! i)) # omap_bindings ys"
    "k \<notin> fst ` set (omap_bindings xs)" by (rule omap_abs_split [OF assms]) blast
  moreover from this(2) have "map_of (omap_bindings xs) k = None" by (simp add: map_of_eq_None_iff)
  ultimately show ?thesis by (simp add: map_add_def)
qed

lemma omap_release_value_simps [simp]:
  "om_entries (omap_release_value m v) = om_entries m" "om_live (omap_release_value m v) = om_live m"
  "om_ecap (omap_release_value m v) = om_ecap m" "om_index (omap_release_value m v) = om_index m"
  "om_mem (omap_release_value m v) = om_mem m"
  "om_value_free (omap_release_value m v) = om_value_free m"
  "omap_inv (omap_release_value m v) = omap_inv m"
  by (auto simp: omap_release_value_def omap_inv_def split: option.split)

text \<open>What the destructor receives when \<open>v\<close> is released.\<close>

definition omap_released :: "'v omap \<Rightarrow> 'v option \<Rightarrow> 'v list" where
  "omap_released m v = (case v of Some x \<Rightarrow> if om_value_free m then [x] else [] | None \<Rightarrow> [])"

lemma omap_freed_release [simp]:
  "om_freed (omap_release_value m v) = om_freed m @ omap_released m v"
  by (auto simp: omap_release_value_def omap_released_def split: option.split)

lemma omap_entries_ok_update_value:
  fixes es :: "'a omap_entry list"
  assumes "i < length es"
  shows "omap_entries_ok (es[i := (es ! i)\<lparr>e_value := v\<rparr>]) = omap_entries_ok es"
    (is "omap_entries_ok ?es = _")
proof -
  have k: "map fst (omap_bindings ?es) = map fst (omap_bindings es)"
  proof -
    have s: "es = take i es @ es ! i # drop (Suc i) es" using assms by (rule id_take_nth_drop)
    show ?thesis
      by (subst upd_conv_take_nth_drop [OF assms], subst (4) s) (simp split: option.split)
  qed
  have "(\<forall>e \<in> set ?es. \<forall>k. e_key e = Some k \<longrightarrow> e_hash e = omap_hash k)
      = (\<forall>e \<in> set es. \<forall>k. e_key e = Some k \<longrightarrow> e_hash e = omap_hash k)"
  proof -
    show ?thesis using assms by (simp add: all_set_conv_all_nth nth_list_update_if) (metis)
  qed
  with k show ?thesis by (simp add: omap_entries_ok_def)
qed

lemma omap_set_replace:
  fixes m :: "'v omap" and v :: "'v option"
  assumes inv: "omap_inv m" and i: "i < length (om_entries m)" "e_key (om_entries m ! i) = Some k"
  defines "m' \<equiv> (if e_value (om_entries m ! i) \<noteq> v
                 then omap_release_value m (e_value (om_entries m ! i)) else m)
               \<lparr>om_entries := (om_entries m)[i := (om_entries m ! i)\<lparr>e_value := v\<rparr>]\<rparr>"
  shows "omap_set m k v = Some (True, m')" "omap_inv m'" "omap_abs m' = dict_set (omap_abs m) k v"
proof -
  let ?e = "om_entries m ! i"
  show "omap_set m k v = Some (True, m')"
    using omap_find_present(1) [OF assms(1-3)] by (simp add: omap_set_def m'_def Let_def)
  obtain xs ys where s: "om_entries m = xs @ ?e # ys" "length xs = i"
    "omap_abs m = omap_bindings xs @ (k, e_value ?e) # omap_bindings ys"
    "k \<notin> fst ` set (omap_bindings xs)" by (rule omap_abs_split [OF inv i]) blast
  have es: "om_entries m' = (om_entries m)[i := ?e\<lparr>e_value := v\<rparr>]" by (simp add: m'_def)
  also have "\<dots> = xs @ ?e\<lparr>e_value := v\<rparr> # ys"
    by (subst s(1)) (simp add: list_update_append s(2))
  finally have "omap_abs m' = omap_bindings xs @ (k, v) # omap_bindings ys" using i(2) by simp
  then show ab: "omap_abs m' = dict_set (omap_abs m) k v"
    using s(3,4) by (simp add: dict_set_split)
  have len: "length (omap_abs m') = length (omap_abs m)"
    unfolding s(3) ab by (simp add: dict_set_split s(4))
  have hs: "(\<lambda>j. e_hash (om_entries m' ! j)) = (\<lambda>j. e_hash (om_entries m ! j))"
    by (auto simp: es nth_list_update_if)
  have lo: "omap_live_ords (om_entries m') = omap_live_ords (om_entries m)"
    unfolding es by (rule omap_live_ords_update_same) simp
  have ok: "omap_entries_ok (om_entries m')"
    unfolding es using inv by (simp add: omap_entries_ok_update_value [OF i(1)] omap_inv_def)
  have fr: "om_live m' = om_live m" "om_ecap m' = om_ecap m" "om_index m' = om_index m"
    "length (om_entries m') = length (om_entries m)" by (auto simp: m'_def)
  moreover from this(4) have "om_entries m' = [] \<longleftrightarrow> om_entries m = []" by (metis length_0_conv)
  ultimately show "omap_inv m'" using inv ok unfolding omap_inv_def hs lo len by simp
qed

lemma omap_set_insert:
  assumes inv: "omap_inv m" and new: "k \<notin> fst ` set (omap_abs m)"
  obtains ok m' where "omap_set m k v = Some (ok, m')"
    "om_value_free m' = om_value_free m" "om_freed m' = om_freed m"
    "ok \<Longrightarrow> omap_inv m' \<and> omap_abs m' = dict_set (omap_abs m) k v"
    "\<not> ok \<Longrightarrow> omap_abs m' = omap_abs m \<and> (\<not> omap_compact_due m \<longrightarrow> omap_inv m')"
    "omap_mem_ok m \<Longrightarrow> ok \<and> omap_mem_ok m'"
proof -
  obtain ok1 m1 where m1: "omap_reserve_one m = Some (ok1, m1)" "omap_frame m m1"
    "ok1 \<Longrightarrow> omap_inv m1 \<and> omap_room m1" "\<not> ok1 \<Longrightarrow> \<not> omap_compact_due m \<Longrightarrow> omap_inv m1"
    "omap_mem_ok m \<Longrightarrow> ok1 \<and> omap_mem_ok m1"
    by (rule omap_reserve_one_ok [OF inv]) blast
  have f: "omap_find m k (omap_hash k) = -1" by (rule omap_find_absent [OF inv new])
  note set = omap_set_def [of m k v, unfolded Let_def f]
  show ?thesis
  proof (cases ok1)
    case False
    then show ?thesis using m1 by (intro that [of False m1]) (auto simp: set omap_frame_def)
  next
    case True
    then have inv1: "omap_inv m1" and room: "omap_room m1" using m1(3) by auto
    obtain b bs where b: "omap_malloc m1 = (b, m1\<lparr>om_mem := bs\<rparr>)"
      "omap_mem_ok m1 \<Longrightarrow> b \<and> False \<notin> set bs" by (rule omap_malloc_cases [of m1]) blast
    let ?es = "om_entries m1 @ [\<lparr>e_key = Some k, e_value = v, e_hash = omap_hash k\<rparr>]"
    have ne: "om_index m1 \<noteq> []" using room by (auto simp: omap_room_def)
    have idx: "idx_ok (omap_live_ords (om_entries m1)) (\<lambda>i. e_hash (?es ! i)) (om_index m1)"
      using inv1 ne by (subst idx_ok_cong [of _ _ "\<lambda>i. e_hash (om_entries m1 ! i)"])
        (auto simp: omap_inv_def omap_live_ords_def nth_append)
    have small: "card (omap_live_ords (om_entries m1)) < length (om_index m1)"
      using room length_omap_bindings_le [of "om_entries m1"]
      by (simp add: card_omap_live_ords omap_room_def)
    obtain idx' where idx': "omap_index_put (om_index m1) (omap_hash k) (length (om_entries m1)) = Some idx'"
      "idx_ok (insert (length (om_entries m1)) (omap_live_ords (om_entries m1))) (\<lambda>i. e_hash (?es ! i)) idx'"
      "length idx' = length (om_index m1)"
      using omap_index_put_ok [OF idx _ small, of "length (om_entries m1)" "omap_hash k"]
      by (auto simp: omap_live_ords_def)
    let ?m2 = "m1\<lparr>om_mem := bs, om_entries := ?es, om_index := idx', om_live := Suc (om_live m1)\<rparr>"
    have r: "omap_set m k v = Some (if b then (True, ?m2) else (False, m1\<lparr>om_mem := bs\<rparr>))"
      using True m1(1) b(1) idx'(1) by (simp add: set)
    have ab: "omap_abs m1 = omap_abs m" using m1(2) by (simp add: omap_frame_def)
    have "omap_inv ?m2" using inv1 room idx'(2,3) ne new ab
      by (auto simp: omap_inv_def omap_room_def omap_entries_ok_def)
    then show ?thesis using r m1(2,5) b(2) inv1 dict_set_new [OF new] ab
      by (intro that [of b "if b then ?m2 else m1\<lparr>om_mem := bs\<rparr>"])
        (auto simp: omap_frame_def omap_mem_ok_def)
  qed
qed

lemma omap_get_abs: "omap_inv m \<Longrightarrow> omap_get m k = Option.bind (map_of (omap_abs m) k) id"
  by (cases rule: omap_find_cases [of m k])
    (auto simp: omap_get_def omap_find_value map_of_eq_None_iff [THEN iffD2])

lemma omap_contains_abs: "omap_inv m \<Longrightarrow> omap_contains m k \<longleftrightarrow> k \<in> fst ` set (omap_abs m)"
  by (cases rule: omap_find_cases [of m k]) (auto simp: omap_contains_def)

lemma omap_size_abs: "omap_inv m \<Longrightarrow> omap_size m = length (omap_abs m)"
  by (simp add: omap_size_def omap_inv_def)

lemma omap_pop_absent:
  "omap_inv m \<Longrightarrow> k \<notin> fst ` set (omap_abs m) \<Longrightarrow> omap_pop m k = (None, m)"
  by (simp add: omap_pop_def omap_find_absent)

lemma omap_pop_ok:
  assumes inv: "omap_inv m"
  obtains m' where "omap_pop m k = (omap_get m k, m')" "omap_inv m'"
    "omap_abs m' = dict_del (omap_abs m) k" "om_freed m' = om_freed m"
    "om_value_free m' = om_value_free m" "om_mem m' = om_mem m"
  using inv
proof (cases rule: omap_find_cases [of m k])
  case absent
  then show ?thesis using inv
    by (intro that [of m]) (auto simp: omap_pop_def omap_get_def dict_del_id)
next
  case (present i)
  let ?e = "om_entries m ! i"
  obtain s where s: "s < length (om_index m)" "om_index m ! s = int i"
    "omap_probe_key (om_entries m) (om_index m) k (omap_hash k)
        (omap_home (omap_hash k) (length (om_index m))) (length (om_index m)) = Some s"
    using omap_find_present(2) [OF inv present(1,2)] by blast
  let ?es = "(om_entries m)[i := ?e\<lparr>e_key := None, e_value := None\<rparr>]"
  let ?idx = "(om_index m)[s := OMAP_DELETED]"
  let ?m = "m\<lparr>om_index := ?idx, om_entries := ?es, om_live := om_live m - 1\<rparr>"
  have r: "omap_pop m k = (omap_get m k, ?m)"
    using present(3) s(3) by (simp add: omap_pop_def omap_get_def omap_index_erase_def Let_def)
  obtain xs ys where sp: "om_entries m = xs @ ?e # ys" "length xs = i"
    "omap_abs m = omap_bindings xs @ (k, e_value ?e) # omap_bindings ys"
    by (rule omap_abs_split [OF inv present(1,2)]) blast
  have dk: "distinct (map fst (omap_abs m))" using inv by (simp add: omap_inv_def omap_entries_ok_def)
  have es: "?es = xs @ ?e\<lparr>e_key := None, e_value := None\<rparr> # ys"
    by (subst sp(1)) (simp add: list_update_append sp(2))
  have ab: "omap_bindings ?es = omap_bindings xs @ omap_bindings ys" unfolding es by simp
  have del: "omap_bindings ?es = dict_del (omap_abs m) k"
    unfolding ab sp(3) by (rule dict_del_split [symmetric]) (use dk sp(3) in simp)
  have hs: "(\<lambda>j. e_hash (?es ! j)) = (\<lambda>j. e_hash (om_entries m ! j))"
    by (auto simp: nth_list_update_if)
  have lo: "omap_live_ords ?es = omap_live_ords (om_entries m) - {i}"
    by (rule omap_live_ords_update_dead) (use present in auto)
  have ne: "om_index m \<noteq> []" using s(1) by auto
  have "idx_ok (omap_live_ords ?es) (\<lambda>j. e_hash (?es ! j)) ?idx"
    unfolding lo hs by (rule idx_ok_erase [OF _ s(1,2)]) (use inv ne in \<open>auto simp: omap_inv_def\<close>)
  moreover have "omap_entries_ok ?es"
    unfolding omap_entries_ok_def
  proof
    show "distinct (map fst (omap_bindings ?es))" unfolding ab using dk sp(3) by simp
    show "\<forall>e \<in> set ?es. \<forall>k. e_key e = Some k \<longrightarrow> e_hash e = omap_hash k"
      using inv by (auto simp: omap_inv_def omap_entries_ok_def dest!: subsetD [OF set_update_subset_insert])
  qed
  moreover have "om_live m - 1 = length (omap_bindings ?es)"
    unfolding ab using inv sp(3) by (simp add: omap_inv_def)
  ultimately have "omap_inv ?m" using inv ne by (simp add: omap_inv_def)
  then show ?thesis using r del by (intro that [of ?m]) auto
qed

lemma omap_released_free:
  "om_value_free m = om_value_free m' \<Longrightarrow> omap_released m = omap_released m'"
  by (simp add: omap_released_def fun_eq_iff split: option.split)

text \<open>What a replacing \<open>omap_set\<close> passes to the destructor: the displaced value, unless
  it is the very value being stored.\<close>

definition omap_displaced :: "'v omap \<Rightarrow> string \<Rightarrow> 'v option \<Rightarrow> 'v list" where
  "omap_displaced m k v = (case map_of (omap_abs m) k of
     Some old \<Rightarrow> if old \<noteq> v then omap_released m old else [] | None \<Rightarrow> [])"

lemma omap_set_spec:
  assumes inv: "omap_inv m"
  obtains ok m' where "omap_set m k v = Some (ok, m')"
    "om_value_free m' = om_value_free m"
    "ok \<Longrightarrow> omap_inv m' \<and> omap_abs m' = dict_set (omap_abs m) k v
       \<and> om_freed m' = om_freed m @ omap_displaced m k v"
    "\<not> ok \<Longrightarrow> omap_abs m' = omap_abs m \<and> om_freed m' = om_freed m
       \<and> (\<not> omap_compact_due m \<longrightarrow> omap_inv m')"
    "omap_mem_ok m \<Longrightarrow> ok \<and> omap_mem_ok m'"
  using inv
proof (cases rule: omap_find_cases [of m k])
  case absent
  then have "omap_displaced m k v = []"
    by (simp add: omap_displaced_def map_of_eq_None_iff [THEN iffD2])
  moreover obtain ok m' where "omap_set m k v = Some (ok, m')"
    "om_value_free m' = om_value_free m" "om_freed m' = om_freed m"
    "ok \<Longrightarrow> omap_inv m' \<and> omap_abs m' = dict_set (omap_abs m) k v"
    "\<not> ok \<Longrightarrow> omap_abs m' = omap_abs m \<and> (\<not> omap_compact_due m \<longrightarrow> omap_inv m')"
    "omap_mem_ok m \<Longrightarrow> ok \<and> omap_mem_ok m'"
    by (rule omap_set_insert [OF inv absent(1), of v]) blast
  ultimately show ?thesis by (intro that [of ok m']) auto
next
  case (present i)
  note r = omap_set_replace [OF inv present(1,2), of v]
  show ?thesis
    by (rule that [OF r(1)])
      (use r(2,3) omap_find_value [OF inv present(1,2)] in \<open>auto simp: omap_displaced_def omap_mem_ok_def\<close>)
qed

lemma omap_erase_spec:
  assumes inv: "omap_inv m"
  obtains m' where "omap_erase m k = (k \<in> fst ` set (omap_abs m), m')" "omap_inv m'"
    "omap_abs m' = dict_del (omap_abs m) k"
    "om_freed m' = om_freed m @ omap_released m (omap_get m k)" "om_mem m' = om_mem m"
proof (cases "k \<in> fst ` set (omap_abs m)")
  case True
  obtain m' where m': "omap_pop m k = (omap_get m k, m')" "omap_inv m'"
    "omap_abs m' = dict_del (omap_abs m) k" "om_freed m' = om_freed m"
    "om_value_free m' = om_value_free m" "om_mem m' = om_mem m"
    by (rule omap_pop_ok [OF inv]) blast
  show ?thesis
    by (rule that [of "omap_release_value m' (omap_get m k)"])
      (use True m' inv omap_released_free [OF m'(5)] in \<open>auto simp: omap_erase_def omap_contains_abs\<close>)
next
  case False
  then have "omap_get m k = None" using inv
    by (simp add: omap_get_abs map_of_eq_None_iff [THEN iffD2])
  then show ?thesis using False inv
    by (intro that [of m]) (auto simp: omap_erase_def omap_contains_abs dict_del_id omap_released_def)
qed

lemma omap_at_walk_nth:
  "seen \<le> i \<Longrightarrow> omap_at_walk es seen i =
     (if i - seen < length (omap_bindings es)
      then Some (apfst Some (omap_bindings es ! (i - seen))) else None)"
  by (induction es seen i rule: omap_at_walk.induct) (auto simp: Suc_diff_Suc nth_Cons')

lemma omap_bindings_all_live:
  "length (omap_bindings es) = length es \<Longrightarrow>
   omap_bindings es = map (\<lambda>e. (the (e_key e), e_value e)) es \<and> (\<forall>e \<in> set es. e_key e \<noteq> None)"
proof -
  assume "length (omap_bindings es) = length es"
  then have "filter (\<lambda>e. e_key e \<noteq> None) es = es"
    by (simp add: omap_bindings_def length_filter_less)
      (metis (mono_tags, lifting) filter_True length_filter_less less_irrefl not_None_eq)
  then show ?thesis by (metis (mono_tags, lifting) omap_bindings_def filter_id_conv)
qed

lemma omap_at_abs:
  assumes "omap_inv m"
  shows "omap_at m i = (if i < length (omap_abs m) then Some (apfst Some (omap_abs m ! i)) else None)"
proof (cases "om_live m = length (om_entries m)")
  case True
  then have "length (omap_abs m) = length (om_entries m)" using assms by (simp add: omap_inv_def)
  then have b: "omap_abs m = map (\<lambda>e. (the (e_key e), e_value e)) (om_entries m)"
    "\<forall>e \<in> set (om_entries m). e_key e \<noteq> None" by (auto dest: omap_bindings_all_live)
  show ?thesis using True b by (auto simp: omap_at_def)
next
  case False
  then show ?thesis by (simp add: omap_at_def omap_at_walk_nth)
qed

lemma omap_keys_walk_map:
  "n + length (omap_bindings es) = live \<Longrightarrow> omap_keys_walk es n live = map fst (omap_bindings es)"
  by (induction es n live rule: omap_keys_walk.induct) (auto split: option.splits)

lemma omap_clear_entries_fields [simp]:
  "om_ecap (omap_clear_entries es m) = om_ecap m" "om_index (omap_clear_entries es m) = om_index m"
  "om_value_free (omap_clear_entries es m) = om_value_free m" "om_mem (omap_clear_entries es m) = om_mem m"
  by (induction es m rule: omap_clear_entries.induct) auto

lemma omap_clear_entries_freed:
  "om_freed (omap_clear_entries es m) =
     om_freed m @ concat (map (omap_released m \<circ> snd) (omap_bindings es))"
proof (induction es m rule: omap_clear_entries.induct)
  case (2 e es m)
  have "omap_released (omap_release_value m (e_value e)) = omap_released m"
    by (rule omap_released_free) simp
  with 2 show ?case by (auto split: option.split)
qed simp

lemma omap_clear_ok:
  assumes "omap_inv m"
  shows "omap_inv (omap_clear m)" "omap_abs (omap_clear m) = []" "om_mem (omap_clear m) = om_mem m"
    "om_freed (omap_clear m) = om_freed m @ concat (map (omap_released m \<circ> snd) (omap_abs m))"
proof -
  have "idx_ok {} hf (replicate (length (om_index m)) OMAP_EMPTY)" if "om_index m \<noteq> []" for hf
  proof -
    have "idx_pow2 (om_index m)" using assms that by (auto simp: omap_inv_def dest: idx_ok_pow2)
    then show ?thesis unfolding idx_pow2_def by (auto intro: idx_ok_empty)
  qed
  then show "omap_inv (omap_clear m)"
    using assms by (auto simp: omap_inv_def omap_clear_def Let_def omap_entries_ok_def omap_live_ords_def)
qed (simp_all add: omap_clear_def Let_def omap_clear_entries_freed)

lemma omap_new_ok: "omap_inv (omap_new vf mem)" "omap_abs (omap_new vf mem) = []"
  "omap_mem_ok (omap_new vf []) "
  by (simp_all add: omap_new_def omap_inv_def omap_entries_ok_def omap_mem_ok_def)

section \<open>Interfaces\<close>

text \<open>A store of values under string keys, as its clients see it: \<open>fetch\<close> after \<open>store\<close>
  and after \<open>remove\<close>.\<close>

locale kv_store =
  fixes inv :: "'m \<Rightarrow> bool"
    and store :: "'m \<Rightarrow> string \<Rightarrow> 'v option \<Rightarrow> (bool \<times> 'm) option"
    and fetch :: "'m \<Rightarrow> string \<Rightarrow> 'v option"
    and remove :: "'m \<Rightarrow> string \<Rightarrow> 'v option \<times> 'm"
  assumes store_total: "inv m \<Longrightarrow> \<exists>m'. store m k v = Some (True, m') \<and> inv m'"
    and fetch_store: "inv m \<Longrightarrow> store m k v = Some (True, m') \<Longrightarrow>
          fetch m' k' = (if k' = k then v else fetch m k')"
    and remove_result: "inv m \<Longrightarrow> fst (remove m k) = fetch m k"
    and remove_inv: "inv m \<Longrightarrow> inv (snd (remove m k))"
    and fetch_remove: "inv m \<Longrightarrow> fetch (snd (remove m k)) k' = (if k' = k then None else fetch m k')"
begin

lemma store_remove:
  assumes "inv m" "store m k v = Some (True, m')" "inv m'"
  shows "fst (remove m' k) = v" and "fetch (snd (remove m' k)) k = None"
  using assms by (simp_all add: remove_result fetch_remove fetch_store)

lemma store_store:
  assumes "inv m" "store m k v = Some (True, m1)" "inv m1" "store m1 k w = Some (True, m2)"
  shows "fetch m2 k' = (if k' = k then w else fetch m k')"
  using assms by (simp add: fetch_store)

end

text \<open>A store that is moreover an insertion-ordered dictionary.\<close>

locale ordered_dict =
  fixes inv :: "'m \<Rightarrow> bool"
    and dict :: "'m \<Rightarrow> (string \<times> 'v option) list"
    and store :: "'m \<Rightarrow> string \<Rightarrow> 'v option \<Rightarrow> (bool \<times> 'm) option"
    and fetch :: "'m \<Rightarrow> string \<Rightarrow> 'v option"
    and remove :: "'m \<Rightarrow> string \<Rightarrow> 'v option \<times> 'm"
    and count :: "'m \<Rightarrow> nat"
    and item :: "'m \<Rightarrow> nat \<Rightarrow> (string option \<times> 'v option) option"
  assumes dict_distinct: "inv m \<Longrightarrow> distinct (map fst (dict m))"
    and dict_store: "inv m \<Longrightarrow> \<exists>m'. store m k v = Some (True, m') \<and> inv m'
          \<and> dict m' = dict_set (dict m) k v"
    and dict_fetch: "inv m \<Longrightarrow> fetch m k = Option.bind (map_of (dict m) k) id"
    and dict_remove: "inv m \<Longrightarrow> \<exists>m'. remove m k = (fetch m k, m') \<and> inv m'
          \<and> dict m' = dict_del (dict m) k"
    and dict_count: "inv m \<Longrightarrow> count m = length (dict m)"
    and dict_item: "inv m \<Longrightarrow> item m i =
          (if i < length (dict m) then Some (apfst Some (dict m ! i)) else None)"

sublocale ordered_dict \<subseteq> kv_store inv store fetch remove
proof
  fix m k v m' k'
  assume inv: "inv m"
  obtain m1 where m1: "store m k v = Some (True, m1)" "inv m1" "dict m1 = dict_set (dict m) k v"
    using dict_store [OF inv] by blast
  then show "\<exists>m'. store m k v = Some (True, m') \<and> inv m'" by blast
  show "fetch m' k' = (if k' = k then v else fetch m k')" if "store m k v = Some (True, m')"
    using that m1 inv by (simp add: dict_fetch)
  obtain m2 where m2: "remove m k = (fetch m k, m2)" "inv m2" "dict m2 = dict_del (dict m) k"
    using dict_remove [OF inv] by blast
  then show "fst (remove m k) = fetch m k" "inv (snd (remove m k))" by simp_all
  show "fetch (snd (remove m k)) k' = (if k' = k then None else fetch m k')"
    using m2 inv by (simp add: dict_fetch)
qed

context ordered_dict
begin

text \<open>Reading the items by position, as the iteration loops of the clients do, yields
  exactly the dictionary.\<close>

lemma items_enumerate:
  assumes "inv m"
  shows "map (item m) [0..<count m] = map (\<lambda>(k, v). Some (Some k, v)) (dict m)"
  using assms by (intro nth_equalityI) (auto simp: dict_item dict_count split: prod.split)

lemma item_fetch:
  assumes "inv m" "i < count m"
  obtains k where "item m i = Some (Some k, fetch m k)"
proof -
  have i: "i < length (dict m)" using assms by (simp add: dict_count)
  obtain k v where kv: "dict m ! i = (k, v)" by (cases "dict m ! i")
  then have "map_of (dict m) k = Some v"
    using i dict_distinct [OF assms(1)] by (metis map_of_is_SomeI nth_mem)
  then show ?thesis using assms(1) i kv by (intro that [of k]) (simp add: dict_item dict_fetch)
qed

end

definition omap_good :: "'v omap \<Rightarrow> bool" where
  "omap_good m \<longleftrightarrow> omap_inv m \<and> omap_mem_ok m"

interpretation od: ordered_dict omap_good omap_abs omap_set omap_get omap_pop omap_size omap_at
proof
  fix m :: "'v omap" and k v i
  assume "omap_good m"
  then have inv: "omap_inv m" and mem: "omap_mem_ok m" by (simp_all add: omap_good_def)
  show "distinct (map fst (omap_abs m))" using inv by (simp add: omap_inv_def omap_entries_ok_def)
  show "\<exists>m'. omap_set m k v = Some (True, m') \<and> omap_good m' \<and> omap_abs m' = dict_set (omap_abs m) k v"
    by (rule omap_set_spec [OF inv, of k v]) (use mem in \<open>auto simp: omap_good_def\<close>)
  show "omap_get m k = Option.bind (map_of (omap_abs m) k) id" by (rule omap_get_abs [OF inv])
  show "\<exists>m'. omap_pop m k = (omap_get m k, m') \<and> omap_good m' \<and> omap_abs m' = dict_del (omap_abs m) k"
    by (rule omap_pop_ok [OF inv, of k]) (use mem in \<open>auto simp: omap_good_def omap_mem_ok_def\<close>)
  show "omap_size m = length (omap_abs m)" by (rule omap_size_abs [OF inv])
  show "omap_at m i = (if i < length (omap_abs m) then Some (apfst Some (omap_abs m ! i)) else None)"
    by (rule omap_at_abs [OF inv])
qed

section \<open>Properties\<close>

text \<open>
  C1. On a well-formed map and with memory available, \<open>omap_set\<close> returns true, keeps the
  map well-formed and acts as assignment in an insertion-ordered dictionary: an existing
  key keeps its position, a new key goes to the end. The destructor receives exactly the
  displaced value.
\<close>

theorem omap_set_refines_dict:
  assumes "omap_inv m" and "omap_mem_ok m"
  shows "\<exists>m'. omap_set m k v = Some (True, m') \<and> omap_inv m' \<and> omap_mem_ok m'
     \<and> omap_abs m' = dict_set (omap_abs m) k v
     \<and> om_freed m' = om_freed m @ omap_displaced m k v"
proof (rule omap_set_spec [OF assms(1), of k v])
  fix ok m'
  assume "omap_set m k v = Some (ok, m')" "omap_mem_ok m \<Longrightarrow> ok \<and> omap_mem_ok m'"
    "ok \<Longrightarrow> omap_inv m' \<and> omap_abs m' = dict_set (omap_abs m) k v
       \<and> om_freed m' = om_freed m @ omap_displaced m k v"
  with assms(2) show ?thesis by simp
qed

theorem omap_set_refines_dict_witness:
  "omap_inv (omap_new True [] :: nat omap) \<and> omap_mem_ok (omap_new True [] :: nat omap)
   \<and> (\<exists>m'. omap_set (omap_new True [] :: nat omap) ''tool'' (Some 7) = Some (True, m')
        \<and> omap_inv m' \<and> omap_abs m' = [(''tool'', Some 7)])"
  using omap_set_refines_dict [of "omap_new True [] :: nat omap" "''tool''" "Some 7"]
  by (auto simp add: omap_new_ok)

text \<open>
  C3. \<open>omap_erase\<close> reports whether the key was present, deletes exactly its binding, leaves
  the order of the others unchanged and hands the value to the destructor; \<open>omap_pop\<close>
  deletes the same binding but returns the value and calls no destructor.
\<close>

theorem omap_removal_refines_dict:
  assumes "omap_inv m"
  shows "\<exists>m1 m2. omap_erase m k = (k \<in> fst ` set (omap_abs m), m1)
     \<and> omap_pop m k = (omap_get m k, m2)
     \<and> omap_inv m1 \<and> omap_abs m1 = dict_del (omap_abs m) k
     \<and> om_freed m1 = om_freed m @ omap_released m (omap_get m k)
     \<and> omap_inv m2 \<and> omap_abs m2 = dict_del (omap_abs m) k \<and> om_freed m2 = om_freed m"
  by (rule omap_erase_spec [OF assms, of k], rule omap_pop_ok [OF assms, of k]) blast

theorem omap_removal_refines_dict_witness:
  "omap_inv (omap_new True [] :: nat omap) \<and> fst (omap_erase (omap_new True [] :: nat omap) ''x'') = False"
  using omap_removal_refines_dict [of "omap_new True [] :: nat omap" "''x''"]
  by (auto simp add: omap_new_ok)

text \<open>
  C9. The read operations agree with the dictionary: \<open>omap_get\<close> and \<open>omap_contains\<close> with
  lookup, \<open>omap_size\<close> with its length, and \<open>omap_at\<close> enumerates it in insertion order,
  whether or not the entry array holds tombstones.
\<close>

theorem omap_reads_refine_dict:
  assumes "omap_inv m"
  shows "omap_get m k = Option.bind (map_of (omap_abs m) k) id
     \<and> (omap_contains m k \<longleftrightarrow> k \<in> fst ` set (omap_abs m))
     \<and> omap_size m = length (omap_abs m)
     \<and> omap_at m i = (if i < length (omap_abs m) then Some (apfst Some (omap_abs m ! i)) else None)"
  using assms by (simp add: omap_get_abs omap_contains_abs omap_size_abs omap_at_abs)

theorem omap_reads_refine_dict_witness:
  "omap_inv (omap_new False [] :: nat omap) \<and> omap_at (omap_new False [] :: nat omap) 0 = None
   \<and> \<not> omap_contains (omap_new False [] :: nat omap) ''k''"
  using omap_reads_refine_dict [of "omap_new False [] :: nat omap" "''k''" 0]
  by (simp add: omap_new_ok)

text \<open>
  When \<open>omap_set\<close> returns false (an allocation failed) no binding has changed and the
  destructor has not run; the map is still well-formed unless a compaction was due.
\<close>

theorem omap_set_failure_safe:
  assumes "omap_inv m" and "omap_set m k v = Some (False, m')"
  shows "omap_abs m' = omap_abs m \<and> om_freed m' = om_freed m
     \<and> (\<not> omap_compact_due m \<longrightarrow> omap_inv m')"
  by (rule omap_set_spec [OF assms(1), of k v]) (use assms(2) in auto)

theorem omap_set_failure_safe_witness:
  "omap_inv (omap_new False [False] :: nat omap)
   \<and> omap_set (omap_new False [False] :: nat omap) ''k'' None = Some (False, omap_new False [])
   \<and> omap_abs (omap_new False [] :: nat omap) = omap_abs (omap_new False [False] :: nat omap)"
proof -
  have "omap_set (omap_new False [False] :: nat omap) ''k'' None = Some (False, omap_new False [])"
    by (simp add: omap_new_def omap_set_def omap_find_def omap_reserve_one_def omap_compact_def
        omap_slide.simps omap_reindex_def omap_malloc_def OMAP_MIN_INDEX_CAP_def)
  with omap_set_failure_safe [OF omap_new_ok(1) this] show ?thesis by (simp add: omap_new_ok)
qed

text \<open>
  The exception of \<open>omap_set_failure_safe\<close> is real: when the reindex of a due compaction runs out of memory,
  \<open>omap_set\<close> returns false with the entries already moved but the old index in place, and a
  key whose binding is still in the entry array is no longer found.
\<close>

definition omap_oom_demo :: "nat omap" where
  "omap_oom_demo = fold (\<lambda>c m. snd (omap_pop m [c])) ''acdf''
     (fold (\<lambda>c m. case omap_set m [c] (Some (of_char c)) of Some (_, m') \<Rightarrow> m' | None \<Rightarrow> m)
        ''abcdefgh'' (omap_new False (replicate 11 True @ [False])))"

theorem omap_compact_oom_loses_key:
  "case omap_set omap_oom_demo ''z'' None of None \<Rightarrow> False
   | Some (ok, m') \<Rightarrow> \<not> ok \<and> omap_abs m' = omap_abs omap_oom_demo
       \<and> omap_get omap_oom_demo ''b'' = Some 98 \<and> omap_get m' ''b'' = None"
  by code_simp

end
