(* ===== verification/Hive.thy ===== *)
theory Hive
  imports Slermes_Prelude
begin

text \<open>
  \<^verbatim>\<open>lib/libhive/hive.c\<close>: the slot map with stable handles. Each block has an array of
  \<open>void *\<close> slots, an 8-bit skipfield (0: the slot is dead; otherwise the distance to the
  next live slot or to the end of the block) and a freelist threaded through its dead
  slots. A \<open>void *\<close> cell is either a pointer stored by the user or a free-list link (the
  code casts an integer to \<open>void *\<close>); reading a user pointer as a link has no specified
  value, which is the None of \<open>cell_link\<close> and of \<open>hive_insert\<close>.

  The chain through \<open>next\<close> visits the blocks in the order of the \<open>blocks\<close> array and is
  only used to free them, so the list of blocks stands for both. \<open>hv_mem\<close> holds the
  outcomes of the coming allocator calls (empty: they succeed).
\<close>

section \<open>State\<close>

datatype 'a hive_cell = User 'a | Link int

record 'a hive_block =
  hb_slots :: "'a hive_cell list"
  hb_skip :: "u8 list"
  hb_cap :: nat
  hb_live :: nat
  hb_free_head :: int

record 'a hive =
  hv_blocks :: "'a hive_block list"
  hv_block_cap :: nat
  hv_count :: nat
  hv_mem :: "bool list"

record hive_handle =
  hd_block :: nat
  hd_slot :: nat

record hive_iter =
  it_block :: nat
  it_slot :: nat
  it_remaining :: nat

definition HIVE_DEFAULT_BLOCK_CAP :: nat where "HIVE_DEFAULT_BLOCK_CAP = 64"

definition cell_link :: "'a hive_cell \<Rightarrow> int option" where
  "cell_link c = (case c of Link n \<Rightarrow> Some n | User _ \<Rightarrow> None)"

text \<open>The seeding loop of \<open>hive_block_new\<close> and \<open>hive_clear\<close>: slot \<open>i\<close> links to \<open>i + 1\<close>,
  the last one to the end marker.\<close>

definition hive_seed :: "nat \<Rightarrow> 'a hive_cell list" where
  "hive_seed cap = map (\<lambda>i. Link (int (i + 1))) [0..<cap - 1] @ [Link (-1)]"

text \<open>Three calls of \<open>calloc\<close>; the two arrays are both requested before either is tested.\<close>

definition hive_block_new :: "nat \<Rightarrow> bool list \<Rightarrow> 'a hive_block option \<times> bool list" where
  "hive_block_new cap mem =
     (let (ok, mem) = c_alloc mem in
      if \<not> ok then (None, mem)
      else let (ok1, mem) = c_alloc mem; (ok2, mem) = c_alloc mem in
      if \<not> ok1 \<or> \<not> ok2 then (None, mem)
      else (Some \<lparr>hb_slots = hive_seed cap, hb_skip = replicate cap 0, hb_cap = cap,
                  hb_live = 0, hb_free_head = 0\<rparr>, mem))"

section \<open>The skipfield\<close>

text \<open>\<open>start\<close> is the \<open>long\<close> the loop begins with; \<open>slot - 1\<close> on slot 0 wraps to
  \<open>SIZE_MAX\<close>, which is \<open>-1\<close> as a \<open>long\<close>.\<close>

function hive_block_prev_live :: "'a hive_block \<Rightarrow> int \<Rightarrow> int" where
  "hive_block_prev_live b i =
     (if i < 0 then -1
      else if hb_skip b ! nat i \<noteq> 0 then i
      else hive_block_prev_live b (i - 1))"
  by pat_completeness auto
termination by (relation "measure (\<lambda>(b, i). nat (i + 1))") auto

function hive_block_next_live :: "'a hive_block \<Rightarrow> nat \<Rightarrow> nat" where
  "hive_block_next_live b i =
     (if i < hb_cap b then if hb_skip b ! i \<noteq> 0 then i else hive_block_next_live b (Suc i)
      else hb_cap b)"
  by pat_completeness auto
termination by (relation "measure (\<lambda>(b, i). hb_cap b - i)") auto

declare hive_block_prev_live.simps [simp del] hive_block_next_live.simps [simp del]

definition hive_block_repair_predecessor :: "'a hive_block \<Rightarrow> nat \<Rightarrow> 'a hive_block" where
  "hive_block_repair_predecessor b slot =
     (let p = hive_block_prev_live b (int slot - 1)
      in if p \<ge> 0 then b\<lparr>hb_skip := (hb_skip b)[nat p := word_of_int (int slot - p)]\<rparr> else b)"

definition hive_block_repair_forward :: "'a hive_block \<Rightarrow> nat \<Rightarrow> 'a hive_block" where
  "hive_block_repair_forward b slot =
     (let nxt = hive_block_next_live b (slot + 1)
      in b\<lparr>hb_skip := (hb_skip b)[slot := of_nat (nxt - slot)]\<rparr>)"

section \<open>Lifecycle\<close>

text \<open>None is the NULL result.\<close>

definition hive_new :: "nat \<Rightarrow> bool list \<Rightarrow> 'a hive option" where
  "hive_new block_cap mem =
     (let cap = (if block_cap = 0 then HIVE_DEFAULT_BLOCK_CAP else block_cap);
          cap = (if cap > 255 then 255 else cap);
          cap = (if cap < 16 then 16 else cap);
          (ok, mem) = c_alloc mem in
      if \<not> ok then None
      else case hive_block_new cap mem of
        (None, mem) \<Rightarrow> None
      | (Some b0, mem) \<Rightarrow>
          let (ok, mem) = c_alloc mem in
          if \<not> ok then None
          else Some \<lparr>hv_blocks = [b0], hv_block_cap = cap, hv_count = 0, hv_mem = mem\<rparr>)"

definition hive_clear_block :: "'a hive_block \<Rightarrow> 'a hive_block" where
  "hive_clear_block b =
     b\<lparr>hb_slots := hive_seed (hb_cap b), hb_skip := replicate (hb_cap b) 0, hb_live := 0,
       hb_free_head := 0\<rparr>"

definition hive_clear :: "'a hive \<Rightarrow> 'a hive" where
  "hive_clear h = h\<lparr>hv_blocks := map hive_clear_block (hv_blocks h), hv_count := 0\<rparr>"

definition hive_block_count :: "'a hive \<Rightarrow> nat" where
  "hive_block_count h = length (hv_blocks h)"

definition hive_empty :: "'a hive \<Rightarrow> bool" where
  "hive_empty h \<longleftrightarrow> hv_count h = 0"

section \<open>Insert and erase\<close>

text \<open>The search loop over the blocks: the first ordinal from \<open>bi\<close> on with a free slot.\<close>

fun hive_find_free :: "'a hive_block list \<Rightarrow> nat \<Rightarrow> nat option" where
  "hive_find_free [] bi = None"
| "hive_find_free (b # bs) bi =
     (if hb_free_head b \<ge> 0 then Some bi else hive_find_free bs (Suc bi))"

text \<open>Popping the freelist of block \<open>bi\<close> and storing the pointer.\<close>

definition hive_take_slot :: "'a hive \<Rightarrow> nat \<Rightarrow> 'a \<Rightarrow> (hive_handle \<times> bool \<times> 'a hive) option" where
  "hive_take_slot h bi ptr = do {
     let b = hv_blocks h ! bi;
     let slot = nat (hb_free_head b);
     next_free \<leftarrow> cell_link (hb_slots b ! slot);
     let b = b\<lparr>hb_slots := (hb_slots b)[slot := User ptr], hb_free_head := next_free,
               hb_live := hb_live b + 1\<rparr>;
     let b = hive_block_repair_predecessor (hive_block_repair_forward b slot) slot;
     Some (\<lparr>hd_block = bi, hd_slot = slot\<rparr>, True,
           h\<lparr>hv_blocks := (hv_blocks h)[bi := b], hv_count := hv_count h + 1\<rparr>) }"

definition hive_insert :: "'a hive \<Rightarrow> 'a \<Rightarrow> (hive_handle \<times> bool \<times> 'a hive) option" where
  "hive_insert h ptr =
     (case hive_find_free (hv_blocks h) 0 of
        Some bi \<Rightarrow> hive_take_slot h bi ptr
      | None \<Rightarrow>
          (case hive_block_new (hv_block_cap h) (hv_mem h) of
             (None, mem) \<Rightarrow> Some (\<lparr>hd_block = 0, hd_slot = 0\<rparr>, False, h\<lparr>hv_mem := mem\<rparr>)
           | (Some nb, mem) \<Rightarrow>
               let (ok, mem) = c_alloc mem in
               if \<not> ok then Some (\<lparr>hd_block = 0, hd_slot = 0\<rparr>, False, h\<lparr>hv_mem := mem\<rparr>)
               else hive_take_slot (h\<lparr>hv_blocks := hv_blocks h @ [nb], hv_mem := mem\<rparr>)
                      (length (hv_blocks h)) ptr))"

definition hive_erase :: "'a hive \<Rightarrow> hive_handle \<Rightarrow> bool \<times> 'a hive" where
  "hive_erase h hnd =
     (if hd_block hnd \<ge> length (hv_blocks h) then (False, h)
      else let b = hv_blocks h ! hd_block hnd; s = hd_slot hnd in
        if s \<ge> hb_cap b \<or> hb_skip b ! s = 0 then (False, h)
        else let
          b = b\<lparr>hb_slots := (hb_slots b)[s := Link (hb_free_head b)],
                hb_skip := (hb_skip b)[s := 0], hb_free_head := int s, hb_live := hb_live b - 1\<rparr>;
          p = hive_block_prev_live b (int s - 1);
          b = (if p \<ge> 0
               then b\<lparr>hb_skip := (hb_skip b)[nat p :=
                        word_of_int (int (hive_block_next_live b (s + 1)) - p)]\<rparr>
               else b)
        in (True, h\<lparr>hv_blocks := (hv_blocks h)[hd_block hnd := b], hv_count := hv_count h - 1\<rparr>))"

section \<open>Lookup\<close>

text \<open>None is NULL; a live slot yields the raw cell.\<close>

definition hive_get :: "'a hive \<Rightarrow> hive_handle \<Rightarrow> 'a hive_cell option" where
  "hive_get h hnd =
     (if hd_block hnd \<ge> length (hv_blocks h) then None
      else let b = hv_blocks h ! hd_block hnd in
        if hd_slot hnd \<ge> hb_cap b \<or> hb_skip b ! hd_slot hnd = 0 then None
        else Some (hb_slots b ! hd_slot hnd))"

definition hive_contains :: "'a hive \<Rightarrow> hive_handle \<Rightarrow> bool" where
  "hive_contains h hnd \<longleftrightarrow>
     hd_block hnd < length (hv_blocks h) \<and>
     (let b = hv_blocks h ! hd_block hnd
      in hd_slot hnd < hb_cap b \<and> hb_skip b ! hd_slot hnd \<noteq> 0)"

section \<open>Iteration\<close>

text \<open>The loop of \<open>hive_iter_begin\<close>, from block \<open>bi\<close> on.\<close>

function hive_iter_seek :: "'a hive \<Rightarrow> nat \<Rightarrow> nat \<Rightarrow> hive_iter" where
  "hive_iter_seek h remaining bi =
     (if remaining > 0 \<and> bi < length (hv_blocks h)
      then let b = hv_blocks h ! bi; s = hive_block_next_live b 0
           in if s < hb_cap b then \<lparr>it_block = bi, it_slot = s, it_remaining = remaining\<rparr>
              else hive_iter_seek h remaining (Suc bi)
      else \<lparr>it_block = bi, it_slot = 0, it_remaining = remaining\<rparr>)"
  by pat_completeness auto
termination by (relation "measure (\<lambda>(h, r, bi). length (hv_blocks h) - bi)") auto

definition hive_iter_begin :: "'a hive \<Rightarrow> hive_iter" where
  "hive_iter_begin h = hive_iter_seek h (hv_count h) 0"

text \<open>The loop of \<open>hive_iter_next\<close>; None is the false result.\<close>

function hive_iter_scan ::
    "'a hive \<Rightarrow> nat \<Rightarrow> nat \<Rightarrow> nat \<Rightarrow> (hive_handle \<times> 'a hive_cell) option \<times> hive_iter" where
  "hive_iter_scan h bi s rem =
     (if bi < length (hv_blocks h) then
        let b = hv_blocks h ! bi in
        if s < hb_cap b \<and> hb_skip b ! s \<noteq> 0 then
          let s' = s + unat (hb_skip b ! s)
          in (Some (\<lparr>hd_block = bi, hd_slot = s\<rparr>, hb_slots b ! s),
              if s' \<ge> hb_cap b then \<lparr>it_block = Suc bi, it_slot = 0, it_remaining = rem - 1\<rparr>
              else \<lparr>it_block = bi, it_slot = s', it_remaining = rem - 1\<rparr>)
        else if Suc s \<ge> hb_cap b then hive_iter_scan h (Suc bi) 0 rem
        else hive_iter_scan h bi (Suc s) rem
      else (None, \<lparr>it_block = bi, it_slot = s, it_remaining = rem\<rparr>))"
  by pat_completeness auto
termination
  by (relation "inv_image ({(x, y). x < y} <*lex*> {(x, y). x < y})
        (\<lambda>(h, bi, s, rem). (length (hv_blocks h) - bi, hb_cap (hv_blocks h ! bi) - s))")
     (auto simp: wf_less intro!: wf_inv_image wf_lex_prod)

declare hive_iter_seek.simps [simp del] hive_iter_scan.simps [simp del]

definition hive_iter_next ::
    "'a hive \<Rightarrow> hive_iter \<Rightarrow> (hive_handle \<times> 'a hive_cell) option \<times> hive_iter" where
  "hive_iter_next h it =
     (if it_remaining it = 0 then (None, it)
      else hive_iter_scan h (it_block it) (it_slot it) (it_remaining it))"

lemma hive_iter_scan_remaining:
  "hive_iter_scan h bi s rem = (Some x, it) \<Longrightarrow> it_remaining it = rem - 1"
  by (induction h bi s rem rule: hive_iter_scan.induct)
     (subst (asm) (3) hive_iter_scan.simps, auto simp: Let_def split: if_splits)

lemma hive_iter_next_remaining:
  "hive_iter_next h it = (Some x, it') \<Longrightarrow> it_remaining it' < it_remaining it"
  using hive_iter_scan_remaining by (fastforce simp: hive_iter_next_def split: if_splits)

text \<open>The \<open>while (hive_iter_next(...))\<close> loop of the clients: the elements it visits.\<close>

function hive_drain :: "'a hive \<Rightarrow> hive_iter \<Rightarrow> (hive_handle \<times> 'a hive_cell) list" where
  "hive_drain h it =
     (case hive_iter_next h it of
        (None, _) \<Rightarrow> []
      | (Some x, it') \<Rightarrow> x # hive_drain h it')"
  by pat_completeness auto
termination
  by (relation "measure (\<lambda>(h, it). it_remaining it)") (auto dest: hive_iter_next_remaining [OF sym])

declare hive_drain.simps [simp del]

section \<open>Statistics\<close>

definition hive_capacity :: "'a hive \<Rightarrow> nat" where
  "hive_capacity h = length (hv_blocks h) * hv_block_cap h"

definition hive_freelist_count :: "'a hive \<Rightarrow> nat" where
  "hive_freelist_count h = hive_capacity h - hv_count h"

text \<open>The inner loop of \<open>hive_max_contiguous\<close> over the skipfield: \<open>(run, best)\<close>.\<close>

fun hive_max_run :: "u8 list \<Rightarrow> nat \<Rightarrow> nat \<Rightarrow> nat" where
  "hive_max_run [] run best = (if run > best then run else best)"
| "hive_max_run (d # ds) run best =
     (if d \<noteq> 0 then hive_max_run ds (Suc run) best
      else hive_max_run ds 0 (if run > best then run else best))"

definition hive_max_contiguous :: "'a hive \<Rightarrow> nat" where
  "hive_max_contiguous h =
     fold (\<lambda>b best. hive_max_run (take (hb_cap b) (hb_skip b)) 0 best) (hv_blocks h) 0"

end
