(* ===== verification/Hive_Correct.thy ===== *)
theory Hive_Correct
  imports Hive
begin

text \<open>
  Correctness of \<^verbatim>\<open>lib/libhive/hive.c\<close>. The skipfield of a block is a faithful linked list
  of its live slots (\<open>skip_ok\<close>), the freelist threads exactly the dead ones (\<open>fl_chain\<close>),
  and both survive the eager repairs of insert and erase. The hive as a whole is a finite
  map from handles to pointers, and iteration lists that map. \<open>handle_store\<close> states what
  the clients rely on.
\<close>

section \<open>The skipfield\<close>

text \<open>\<open>n\<close> is the first position from \<open>i\<close> on whose skip is not zero, or the end.\<close>

definition next_spec :: "u8 list \<Rightarrow> nat \<Rightarrow> nat \<Rightarrow> bool" where
  "next_spec ds i n \<longleftrightarrow> i \<le> n \<and> n \<le> length ds \<and> (\<forall>j. i \<le> j \<and> j < n \<longrightarrow> ds ! j = 0)
     \<and> (n < length ds \<longrightarrow> ds ! n \<noteq> 0)"

definition skip_ok :: "u8 list \<Rightarrow> bool" where
  "skip_ok ds \<longleftrightarrow> (\<forall>i < length ds. ds ! i \<noteq> 0 \<longrightarrow> next_spec ds (Suc i) (i + unat (ds ! i)))"

lemma next_spec_unique:
  assumes "next_spec ds i n" "next_spec ds i n'" shows "n = n'"
proof -
  have "\<not> a < b" if "next_spec ds i a" "next_spec ds i b" for a b
  proof
    assume "a < b"
    moreover have "b \<le> length ds" "i \<le> a" using that by (auto simp: next_spec_def)
    ultimately have "ds ! a \<noteq> 0" "ds ! a = 0" using that by (auto simp: next_spec_def)
    then show False by simp
  qed
  with assms show ?thesis by (meson linorder_neqE_nat)
qed

lemma next_spec_cong:
  assumes "next_spec ds i n" "length ds' = length ds"
    and "\<And>j. i \<le> j \<Longrightarrow> j \<le> n \<Longrightarrow> j < length ds \<Longrightarrow> ds' ! j = 0 \<longleftrightarrow> ds ! j = 0"
  shows "next_spec ds' i n"
proof -
  have n: "i \<le> n" "n \<le> length ds" "\<And>j. i \<le> j \<Longrightarrow> j < n \<Longrightarrow> ds ! j = 0"
    "n < length ds \<Longrightarrow> ds ! n \<noteq> 0"
    using assms(1) by (auto simp: next_spec_def)
  have "ds' ! j = 0" if "i \<le> j" "j < n" for j using n that assms(3) [of j] by simp
  moreover have "ds' ! n \<noteq> 0" if "n < length ds" using n that assms(3) [of n] by simp
  ultimately show ?thesis using n assms(2) by (simp add: next_spec_def)
qed

lemma next_spec_dead:
  assumes "next_spec ds (Suc i) n" "ds ! i = 0" shows "next_spec ds i n"
proof -
  have "ds ! j = 0" if "i \<le> j" "j < n" for j
    using assms that by (cases "j = i") (auto simp: next_spec_def)
  then show ?thesis using assms(1) by (simp add: next_spec_def)
qed

lemma next_spec_le:
  assumes "next_spec ds i n" "ds ! k \<noteq> 0" "i \<le> k" shows "n \<le> k"
  using assms by (meson next_spec_def not_less)

lemma next_spec_later:
  "next_spec ds i n \<Longrightarrow> i \<le> k \<Longrightarrow> k \<le> n \<Longrightarrow> next_spec ds k n"
  by (simp add: next_spec_def)

lemma next_spec_earlier:
  assumes "next_spec ds k n" "i \<le> k" "\<And>j. i \<le> j \<Longrightarrow> j < k \<Longrightarrow> ds ! j = 0"
  shows "next_spec ds i n"
proof -
  have "ds ! j = 0" if "i \<le> j" "j < n" for j
    using assms(1) assms(3) [of j] that by (cases "j < k") (auto simp: next_spec_def)
  then show ?thesis using assms(1,2) by (simp add: next_spec_def)
qed

lemma next_live_spec:
  "i \<le> hb_cap b \<Longrightarrow> length (hb_skip b) = hb_cap b
   \<Longrightarrow> next_spec (hb_skip b) i (hive_block_next_live b i)"
proof (induction b i rule: hive_block_next_live.induct)
  case (1 b i)
  show ?case
  proof (cases "i < hb_cap b \<and> hb_skip b ! i = 0")
    case True
    then have "next_spec (hb_skip b) (Suc i) (hive_block_next_live b (Suc i))" using 1 by auto
    moreover have "hive_block_next_live b i = hive_block_next_live b (Suc i)"
      using True by (subst hive_block_next_live.simps) simp
    ultimately show ?thesis using True next_spec_dead by simp
  next
    case False
    then show ?thesis using 1(2,3)
      by (subst hive_block_next_live.simps) (auto simp: next_spec_def)
  qed
qed

lemma prev_live_spec:
  "hive_block_prev_live b i = p \<Longrightarrow>
   (p = -1 \<and> (\<forall>j. int j \<le> i \<longrightarrow> hb_skip b ! j = 0)) \<or>
   (0 \<le> p \<and> p \<le> i \<and> hb_skip b ! nat p \<noteq> 0 \<and> (\<forall>j. p < int j \<and> int j \<le> i \<longrightarrow> hb_skip b ! j = 0))"
proof (induction b i rule: hive_block_prev_live.induct)
  case (1 b i)
  show ?case
  proof (cases "0 \<le> i \<and> hb_skip b ! nat i = 0")
    case True
    then have eq: "hive_block_prev_live b (i - 1) = p"
      using 1(2) by (subst (asm) hive_block_prev_live.simps) simp
    have *: "j = nat i" if "int j \<le> i" "\<not> int j \<le> i - 1" for j using that by linarith
    from 1(1)[OF _ _ eq] True show ?thesis by (smt (verit, best) * nat_0_le)
  next
    case False
    then show ?thesis using 1(2) by (subst (asm) hive_block_prev_live.simps) (auto split: if_splits)
  qed
qed

text \<open>Reviving or killing one slot: the code repairs the slot itself and its nearest live
  predecessor; everything else keeps its successor.\<close>

definition skip_repair :: "u8 list \<Rightarrow> int \<Rightarrow> nat \<Rightarrow> u8 list" where
  "skip_repair ds p n = (if p \<ge> 0 then ds[nat p := word_of_int (int n - p)] else ds)"

lemma length_skip_repair [simp]: "length (skip_repair ds p n) = length ds"
  by (simp add: skip_repair_def)

lemma u8_of_nat: "d \<le> 255 \<Longrightarrow> unat (of_nat d :: u8) = d"
  by (simp add: unat_of_nat)

lemma u8_dist: "p < n \<Longrightarrow> n - p \<le> 255 \<Longrightarrow> unat (of_nat (n - p) :: u8) = n - p"
  by (rule u8_of_nat)

lemma u8_dist_nonzero: "p < n \<Longrightarrow> n - p \<le> 255 \<Longrightarrow> (of_nat (n - p) :: u8) \<noteq> 0"
  using u8_dist [of p n] by (metis unat_0 zero_less_diff less_numeral_extra(3))

text \<open>The common shape of both repairs: \<open>ds\<close> agrees with a consistent skipfield \<open>ds0\<close>
  away from \<open>s\<close>, and position \<open>s\<close> itself is right.\<close>

lemma skip_repair_ok:
  assumes ok: "skip_ok ds0" and len: "length ds = length ds0" "length ds0 \<le> 255" "s < length ds"
    and same: "\<And>j. j \<noteq> s \<Longrightarrow> ds ! j = ds0 ! j"
    and s: "ds ! s \<noteq> 0 \<Longrightarrow> next_spec ds (Suc s) (s + unat (ds ! s))"
    and p: "(p = -1 \<and> (\<forall>j < s. ds ! j = 0)) \<or>
      (0 \<le> p \<and> p < int s \<and> ds ! nat p \<noteq> 0 \<and> (\<forall>j. p < int j \<and> j < s \<longrightarrow> ds ! j = 0))"
    and n: "next_spec ds s n" "0 \<le> p \<Longrightarrow> nat p < n"
  shows "skip_ok (skip_repair ds p n)"
    and "\<And>j. j < length ds \<Longrightarrow> skip_repair ds p n ! j = 0 \<longleftrightarrow> ds ! j = 0"
proof -
  define q where "q = nat p"
  have nlen: "n \<le> length ds" using n by (simp add: next_spec_def)
  have rep: "skip_repair ds p n = (if p \<ge> 0 then ds[q := of_nat (n - q)] else ds)"
  proof (cases "p \<ge> 0")
    case True
    then have "p = int q" "q < n" using n(2) by (simp_all add: q_def)
    then show ?thesis by (simp add: skip_repair_def)
  qed (simp add: skip_repair_def)
  show zero: "skip_repair ds p n ! j = 0 \<longleftrightarrow> ds ! j = 0" if "j < length ds" for j
  proof (cases "p \<ge> 0 \<and> j = q")
    case True
    then have "ds ! j \<noteq> 0" using p by (simp add: q_def)
    moreover have "q < n" using True n(2) by (simp add: q_def)
    ultimately show ?thesis using True that u8_dist_nonzero [of q n] nlen len(2,1) by (simp add: rep)
  next
    case False
    then show ?thesis by (cases "p \<ge> 0") (simp_all add: rep)
  qed
  have keep: "skip_repair ds p n ! i = ds ! i" if "\<not> (p \<ge> 0 \<and> i = q)" for i
    using that by (auto simp: rep nth_list_update_if)
  show "skip_ok (skip_repair ds p n)"
    unfolding skip_ok_def
  proof (intro allI impI)
    fix i
    assume i: "i < length (skip_repair ds p n)" "skip_repair ds p n ! i \<noteq> 0"
    then have il: "i < length ds" "ds ! i \<noteq> 0" using zero by auto
    show "next_spec (skip_repair ds p n) (Suc i) (i + unat (skip_repair ds p n ! i))"
    proof (cases "p \<ge> 0 \<and> i = q")
      case True
      have pq: "p = int q" using True by (simp add: q_def)
      have "q < s" using p True pq by auto
      have "q < n" using n(2) True by (simp add: q_def)
      have dead: "ds ! j = 0" if "q < j" "j < s" for j using p pq that by simp
      have "next_spec ds (Suc q) n"
        by (rule next_spec_earlier [OF n(1)]) (use dead \<open>q < s\<close> in auto)
      then have "next_spec (skip_repair ds p n) (Suc q) n"
        by (rule next_spec_cong) (use zero in auto)
      moreover have "unat (skip_repair ds p n ! q) = n - q"
        using True il rep u8_dist [of q n] \<open>q < n\<close> nlen len by simp
      ultimately show ?thesis using True \<open>q < n\<close> by simp
    next
      case False
      then have "next_spec ds (Suc i) (i + unat (ds ! i))"
      proof (cases "i = s")
        case True
        then show ?thesis using s il by simp
      next
        case ns: False
        then have i0: "next_spec ds0 (Suc i) (i + unat (ds ! i))"
          using ok il len same by (simp add: skip_ok_def)
        show ?thesis
        proof (cases "i > s")
          case True
          then show ?thesis by (intro next_spec_cong [OF i0]) (use same len in auto)
        next
          case below: False
          then have "i < s" using ns by simp
          have p0: "0 \<le> p" using p il \<open>i < s\<close> by auto
          have "\<not> p < int i" using p p0 il \<open>i < s\<close> by auto
          moreover have "p = int q" using p0 by (simp add: q_def)
          ultimately have "i < q" using False p0 by auto
          then have "q < s" "ds ! q \<noteq> 0" "p = int q" "i < q" using p p0 by (auto simp: q_def)
          then have "ds0 ! q \<noteq> 0" using same [of q] by simp
          then have le: "i + unat (ds ! i) \<le> q"
            by (rule next_spec_le [OF i0]) (use \<open>i < q\<close> in simp)
          have "ds ! j = ds0 ! j" if "j \<le> i + unat (ds ! i)" for j
            using le that \<open>q < s\<close> by (intro same) simp
          then show ?thesis
            by (intro next_spec_cong [OF i0]) (use len in simp_all)
        qed
      qed
      then have "next_spec (skip_repair ds p n) (Suc i) (i + unat (ds ! i))"
        by (rule next_spec_cong) (use zero in auto)
      then show ?thesis using keep False by simp
    qed
  qed
qed

section \<open>Blocks\<close>

definition live_slots :: "u8 list \<Rightarrow> nat set" where
  "live_slots ds = {i. i < length ds \<and> ds ! i \<noteq> 0}"

text \<open>\<open>fl_chain sl hd0 fl\<close>: following the links from \<open>hd0\<close> visits exactly the slots \<open>fl\<close>.\<close>

fun fl_chain :: "'a hive_cell list \<Rightarrow> int \<Rightarrow> nat list \<Rightarrow> bool" where
  "fl_chain sl hd0 [] \<longleftrightarrow> hd0 = -1"
| "fl_chain sl hd0 (i # fl) \<longleftrightarrow> hd0 = int i \<and> i < length sl \<and> (\<exists>n. sl ! i = Link n \<and> fl_chain sl n fl)"

definition hive_block_inv :: "nat \<Rightarrow> 'a hive_block \<Rightarrow> bool" where
  "hive_block_inv cap b \<longleftrightarrow>
     0 < cap \<and> cap \<le> 255 \<and> hb_cap b = cap \<and> length (hb_slots b) = cap \<and> length (hb_skip b) = cap
     \<and> skip_ok (hb_skip b)
     \<and> (\<forall>i \<in> live_slots (hb_skip b). \<exists>x. hb_slots b ! i = User x)
     \<and> hb_live b = card (live_slots (hb_skip b))
     \<and> (\<exists>fl. fl_chain (hb_slots b) (hb_free_head b) fl \<and> distinct fl
            \<and> set fl = {0..<cap} - live_slots (hb_skip b))"

definition hive_block_get :: "'a hive_block \<Rightarrow> nat \<Rightarrow> 'a option" where
  "hive_block_get b s =
     (if s < hb_cap b \<and> hb_skip b ! s \<noteq> 0
      then case hb_slots b ! s of User x \<Rightarrow> Some x | Link _ \<Rightarrow> None else None)"

lemma fl_chain_update: "i \<notin> set fl \<Longrightarrow> fl_chain (sl[i := c]) hd0 fl = fl_chain sl hd0 fl"
  by (induction fl arbitrary: hd0) auto

lemma hive_seed_nth: "i < cap \<Longrightarrow> hive_seed cap ! i = Link (if Suc i < cap then int (Suc i) else -1)"
  by (auto simp: hive_seed_def nth_append)

lemma length_hive_seed [simp]: "0 < cap \<Longrightarrow> length (hive_seed cap) = cap"
  by (simp add: hive_seed_def)

lemma fl_chain_seed:
  assumes "i < cap" shows "fl_chain (hive_seed cap :: 'a hive_cell list) (int i) [i..<cap]"
  using assms
proof (induction "cap - i" arbitrary: i)
  case (Suc d)
  show ?case
  proof (cases "Suc i < cap")
    case True
    have "fl_chain (hive_seed cap :: 'a hive_cell list) (int (Suc i)) [Suc i..<cap]" by (intro Suc(1)) (use Suc(2) True in simp_all)
    then show ?thesis using Suc(3) True by (simp add: upt_conv_Cons hive_seed_nth)
  next
    case False
    then have "[i..<cap] = [i]" using Suc(3) by (simp add: upt_conv_Cons)
    then show ?thesis using Suc(3) False by (simp add: hive_seed_nth)
  qed
qed simp

lemma live_slots_replicate [simp]: "live_slots (replicate n 0) = {}"
  by (auto simp: live_slots_def)

lemma hive_block_inv_fresh:
  assumes "0 < cap" "cap \<le> 255"
  shows "hive_block_inv cap \<lparr>hb_slots = hive_seed cap, hb_skip = replicate cap 0, hb_cap = cap,
           hb_live = 0, hb_free_head = 0\<rparr>"
proof -
  have "fl_chain (hive_seed cap) 0 [0..<cap]" using fl_chain_seed [of 0 cap] assms by simp
  then show ?thesis using assms unfolding hive_block_inv_def
    by (auto simp: skip_ok_def intro!: exI [of _ "[0..<cap]"])
qed

lemma hive_block_new_inv:
  assumes "hive_block_new cap mem = (Some b, mem')" "0 < cap" "cap \<le> 255"
  shows "hive_block_inv cap b" "hive_block_get b s = None" "hb_free_head b = 0"
  using assms hive_block_inv_fresh [of cap]
  by (auto simp: hive_block_new_def hive_block_get_def split: prod.splits if_splits)

lemma hive_block_free_head:
  assumes "hive_block_inv cap b" "0 \<le> hb_free_head b"
  obtains slot fl n where "hb_free_head b = int slot" "slot < cap" "hb_skip b ! slot = 0"
    "hb_slots b ! slot = Link n" "fl_chain (hb_slots b) n fl" "distinct (slot # fl)"
    "set (slot # fl) = {0..<cap} - live_slots (hb_skip b)"
proof -
  obtain fl where fl: "fl_chain (hb_slots b) (hb_free_head b) fl" "distinct fl"
    "set fl = {0..<cap} - live_slots (hb_skip b)" "length (hb_skip b) = cap"
    using assms(1) by (auto simp: hive_block_inv_def)
  then obtain slot fl' where s: "fl = slot # fl'" using assms(2) by (cases fl) auto
  with fl have "slot \<in> {0..<cap} - live_slots (hb_skip b)" by auto
  then have "slot < cap" "hb_skip b ! slot = 0" using fl(4) by (auto simp: live_slots_def)
  moreover obtain n where "hb_free_head b = int slot" "hb_slots b ! slot = Link n" "fl_chain (hb_slots b) n fl'"
    using fl(1) s by auto
  ultimately show ?thesis using fl(2,3) s by (intro that [of slot n fl']) simp_all
qed

lemma hive_block_full: "hive_block_inv cap b \<Longrightarrow> hb_free_head b < 0 \<Longrightarrow> live_slots (hb_skip b) = {0..<cap}"
  unfolding hive_block_inv_def live_slots_def
proof (elim conjE exE)
  fix fl
  assume "fl_chain (hb_slots b) (hb_free_head b) fl" "hb_free_head b < 0"
    "set fl = {0..<cap} - {i. i < length (hb_skip b) \<and> hb_skip b ! i \<noteq> 0}" "length (hb_skip b) = cap"
  then show "{i. i < length (hb_skip b) \<and> hb_skip b ! i \<noteq> 0} = {0..<cap}" by (cases fl) auto
qed

section \<open>Storing into a free slot\<close>

definition hive_block_store :: "'a hive_block \<Rightarrow> nat \<Rightarrow> int \<Rightarrow> 'a \<Rightarrow> 'a hive_block" where
  "hive_block_store b slot n ptr =
     hive_block_repair_predecessor (hive_block_repair_forward
       (b\<lparr>hb_slots := (hb_slots b)[slot := User ptr], hb_free_head := n, hb_live := hb_live b + 1\<rparr>) slot) slot"

lemma hive_block_store_skip:
  fixes b :: "'a hive_block" and n :: int and ptr :: 'a
  assumes inv: "hive_block_inv cap b" and slot: "slot < cap" "hb_skip b ! slot = 0"
  defines "b' \<equiv> hive_block_store b slot n ptr"
  shows "skip_ok (hb_skip b')" "length (hb_skip b') = cap"
    "\<And>j. j < cap \<Longrightarrow> hb_skip b' ! j \<noteq> 0 \<longleftrightarrow> j = slot \<or> hb_skip b ! j \<noteq> 0"
proof -
  define b1 where "b1 = b\<lparr>hb_slots := (hb_slots b)[slot := User ptr], hb_free_head := n, hb_live := hb_live b + 1\<rparr>"
  define b2 where "b2 = hive_block_repair_forward b1 slot"
  define nxt where "nxt = hive_block_next_live b1 (slot + 1)"
  define p where "p = hive_block_prev_live b2 (int slot - 1)"
  have b: "hb_cap b = cap" "length (hb_skip b) = cap" "cap \<le> 255" "skip_ok (hb_skip b)"
    using inv by (auto simp: hive_block_inv_def)
  have b1: "hb_skip b1 = hb_skip b" "hb_cap b1 = cap" using b by (simp_all add: b1_def)
  have nxt: "next_spec (hb_skip b) (Suc slot) nxt"
    using next_live_spec [of "slot + 1" b1] slot b b1 by (simp add: nxt_def)
  then have nl: "slot < nxt" "nxt \<le> cap" using b by (auto simp: next_spec_def)
  have b2: "hb_skip b2 = (hb_skip b)[slot := of_nat (nxt - slot)]"
    by (simp add: b2_def hive_block_repair_forward_def Let_def nxt_def b1)
  have at: "hb_skip b2 ! slot = of_nat (nxt - slot)" using slot b by (simp add: b2)
  have u: "unat (hb_skip b2 ! slot) = nxt - slot"
    using at u8_dist [of slot nxt] nl b by simp
  have nz: "hb_skip b2 ! slot \<noteq> 0" using at u8_dist_nonzero [of slot nxt] nl b by simp
  have sk: "hb_skip b' = skip_repair (hb_skip b2) p slot"
    unfolding b'_def hive_block_store_def b1_def [symmetric] b2_def [symmetric]
      hive_block_repair_predecessor_def Let_def p_def [symmetric] skip_repair_def by simp
  have ps: "(p = -1 \<and> (\<forall>j < slot. hb_skip b2 ! j = 0)) \<or>
      (0 \<le> p \<and> p < int slot \<and> hb_skip b2 ! nat p \<noteq> 0 \<and> (\<forall>j. p < int j \<and> j < slot \<longrightarrow> hb_skip b2 ! j = 0))"
    using prev_live_spec [OF p_def [symmetric]] by auto
  have 1: "length (hb_skip b2) = length (hb_skip b)" "length (hb_skip b) \<le> 255" "slot < length (hb_skip b2)"
    using b slot by (simp_all add: b2)
  have 2: "hb_skip b2 ! j = hb_skip b ! j" if "j \<noteq> slot" for j using that by (simp add: b2)
  have 3: "next_spec (hb_skip b2) (Suc slot) (slot + unat (hb_skip b2 ! slot))"
    unfolding u using nl next_spec_cong [OF nxt, of "hb_skip b2"] 1 2 by simp
  have 4: "next_spec (hb_skip b2) slot slot" using nz 1 by (auto simp: next_spec_def)
  have 5: "nat p < slot" if "0 \<le> p" using ps that by auto
  note r = skip_repair_ok [OF b(4) 1 2 3 ps 4 5]
  show "skip_ok (hb_skip b')" unfolding sk by (rule r(1))
  show "length (hb_skip b') = cap" using b by (simp add: sk b2)
  fix j assume "j < cap"
  then show "hb_skip b' ! j \<noteq> 0 \<longleftrightarrow> j = slot \<or> hb_skip b ! j \<noteq> 0"
    using r(2) [of j] nz 1 2 [of j] b by (cases "j = slot") (simp_all add: sk)
qed

lemma hive_block_store_fields:
  "hb_slots (hive_block_store b slot n ptr) = (hb_slots b)[slot := User ptr]"
  "hb_cap (hive_block_store b slot n ptr) = hb_cap b"
  "hb_live (hive_block_store b slot n ptr) = hb_live b + 1"
  "hb_free_head (hive_block_store b slot n ptr) = n"
  by (simp_all add: hive_block_store_def hive_block_repair_predecessor_def
      hive_block_repair_forward_def Let_def)

lemma hive_block_store_inv:
  fixes n :: int
  assumes inv: "hive_block_inv cap b" and slot: "slot < cap" "hb_skip b ! slot = 0"
    and fl: "fl_chain (hb_slots b) n fl" "distinct (slot # fl)"
      "set (slot # fl) = {0..<cap} - live_slots (hb_skip b)"
  shows "hive_block_inv cap (hive_block_store b slot n ptr)"
    "hive_block_get (hive_block_store b slot n ptr) = (hive_block_get b)(slot \<mapsto> ptr)"
    "hive_block_get b slot = None"
proof -
  define b' where "b' = hive_block_store b slot n ptr"
  have b: "hb_cap b = cap" "length (hb_slots b) = cap" "length (hb_skip b) = cap" "0 < cap" "cap \<le> 255"
    "hb_live b = card (live_slots (hb_skip b))" "\<forall>i \<in> live_slots (hb_skip b). \<exists>x. hb_slots b ! i = User x"
    using inv by (auto simp: hive_block_inv_def)
  note sk = hive_block_store_skip [OF inv slot, where n = n and ptr = ptr, folded b'_def]
  note fd = hive_block_store_fields [of b slot n ptr, folded b'_def]
  have live: "live_slots (hb_skip b') = insert slot (live_slots (hb_skip b))"
    using sk(2,3) slot b by (auto simp: live_slots_def)
  have nin: "slot \<notin> live_slots (hb_skip b)" using slot by (simp add: live_slots_def)
  have fin: "finite (live_slots (hb_skip b))" by (simp add: live_slots_def)
  have users: "\<exists>x. hb_slots b' ! i = User x" if "i \<in> live_slots (hb_skip b')" for i
    using that b(7) slot b(2) unfolding fd live by (cases "i = slot") auto
  have chain: "fl_chain (hb_slots b') (hb_free_head b') fl" "distinct fl"
    "set fl = {0..<cap} - live_slots (hb_skip b')"
    using fl nin by (auto simp: fd fl_chain_update live)
  show "hive_block_inv cap (hive_block_store b slot n ptr)"
    unfolding hive_block_inv_def b'_def [symmetric]
    using users chain sk(1,2) b nin fin by (auto simp: fd live)
  show "hive_block_get (hive_block_store b slot n ptr) = (hive_block_get b)(slot \<mapsto> ptr)"
    unfolding b'_def [symmetric] using sk(3) b slot
    by (auto simp: hive_block_get_def fd fun_eq_iff)
  show "hive_block_get b slot = None" using slot by (simp add: hive_block_get_def)
qed

section \<open>Erasing a live slot\<close>

definition hive_block_kill :: "'a hive_block \<Rightarrow> nat \<Rightarrow> 'a hive_block" where
  "hive_block_kill b s =
     (let b = b\<lparr>hb_slots := (hb_slots b)[s := Link (hb_free_head b)],
                hb_skip := (hb_skip b)[s := 0], hb_free_head := int s, hb_live := hb_live b - 1\<rparr>;
          p = hive_block_prev_live b (int s - 1)
      in if p \<ge> 0
         then b\<lparr>hb_skip := (hb_skip b)[nat p := word_of_int (int (hive_block_next_live b (s + 1)) - p)]\<rparr>
         else b)"

lemma hive_block_kill_fields:
  "hb_slots (hive_block_kill b s) = (hb_slots b)[s := Link (hb_free_head b)]"
  "hb_cap (hive_block_kill b s) = hb_cap b"
  "hb_live (hive_block_kill b s) = hb_live b - 1"
  "hb_free_head (hive_block_kill b s) = int s"
  by (simp_all add: hive_block_kill_def Let_def)

lemma hive_block_kill_skip:
  fixes b :: "'a hive_block"
  assumes inv: "hive_block_inv cap b" and s: "s < cap"
  defines "b' \<equiv> hive_block_kill b s"
  shows "skip_ok (hb_skip b')" "length (hb_skip b') = cap"
    "\<And>j. j < cap \<Longrightarrow> hb_skip b' ! j \<noteq> 0 \<longleftrightarrow> j \<noteq> s \<and> hb_skip b ! j \<noteq> 0"
proof -
  define b1 where "b1 = b\<lparr>hb_slots := (hb_slots b)[s := Link (hb_free_head b)],
                hb_skip := (hb_skip b)[s := 0], hb_free_head := int s, hb_live := hb_live b - 1\<rparr>"
  define nxt where "nxt = hive_block_next_live b1 (s + 1)"
  define p where "p = hive_block_prev_live b1 (int s - 1)"
  have b: "hb_cap b = cap" "length (hb_skip b) = cap" "cap \<le> 255" "skip_ok (hb_skip b)"
    using inv by (auto simp: hive_block_inv_def)
  have b1: "hb_skip b1 = (hb_skip b)[s := 0]" "hb_cap b1 = cap" using b by (simp_all add: b1_def)
  have sk: "hb_skip b' = skip_repair (hb_skip b1) p nxt"
    unfolding b'_def hive_block_kill_def Let_def b1_def [symmetric] p_def [symmetric]
      nxt_def [symmetric] skip_repair_def by simp
  have at: "hb_skip b1 ! s = 0" using s b by (simp add: b1)
  have 1: "length (hb_skip b1) = length (hb_skip b)" "length (hb_skip b) \<le> 255" "s < length (hb_skip b1)"
    using b s by (simp_all add: b1)
  have 2: "hb_skip b1 ! j = hb_skip b ! j" if "j \<noteq> s" for j using that by (simp add: b1)
  have nx: "next_spec (hb_skip b1) (Suc s) nxt"
    using next_live_spec [of "s + 1" b1] s b b1 by (simp add: nxt_def)
  then have 4: "next_spec (hb_skip b1) s nxt" by (rule next_spec_dead) (rule at)
  have ps: "(p = -1 \<and> (\<forall>j < s. hb_skip b1 ! j = 0)) \<or>
      (0 \<le> p \<and> p < int s \<and> hb_skip b1 ! nat p \<noteq> 0 \<and> (\<forall>j. p < int j \<and> j < s \<longrightarrow> hb_skip b1 ! j = 0))"
    using prev_live_spec [OF p_def [symmetric]] by auto
  have "s < nxt" using nx by (simp add: next_spec_def)
  then have 5: "nat p < nxt" if "0 \<le> p" using ps that by auto
  note r = skip_repair_ok [OF b(4) 1 2 _ ps 4 5]
  show "skip_ok (hb_skip b')" unfolding sk by (rule r(1)) (use at in simp_all)
  show "length (hb_skip b') = cap" using b by (simp add: sk b1)
  fix j assume "j < cap"
  then show "hb_skip b' ! j \<noteq> 0 \<longleftrightarrow> j \<noteq> s \<and> hb_skip b ! j \<noteq> 0"
    using r(2) [of j] at 1 2 [of j] b by (cases "j = s") (simp_all add: sk)
qed

lemma hive_block_kill_inv:
  assumes inv: "hive_block_inv cap b" and s: "s < cap" "hb_skip b ! s \<noteq> 0"
  shows "hive_block_inv cap (hive_block_kill b s)"
    "hive_block_get (hive_block_kill b s) = (hive_block_get b)(s := None)"
    "hive_block_get b s \<noteq> None" "0 < hb_live b"
proof -
  define b' where "b' = hive_block_kill b s"
  obtain fl where fl: "fl_chain (hb_slots b) (hb_free_head b) fl" "distinct fl"
    "set fl = {0..<cap} - live_slots (hb_skip b)" using inv by (auto simp: hive_block_inv_def)
  have b: "hb_cap b = cap" "length (hb_slots b) = cap" "length (hb_skip b) = cap" "0 < cap" "cap \<le> 255"
    "hb_live b = card (live_slots (hb_skip b))" "\<forall>i \<in> live_slots (hb_skip b). \<exists>x. hb_slots b ! i = User x"
    using inv by (auto simp: hive_block_inv_def)
  note sk = hive_block_kill_skip [OF inv s(1), folded b'_def]
  note fd = hive_block_kill_fields [of b s, folded b'_def]
  have live: "live_slots (hb_skip b') = live_slots (hb_skip b) - {s}"
    using sk(2,3) b by (auto simp: live_slots_def)
  have sin: "s \<in> live_slots (hb_skip b)" using s b by (simp add: live_slots_def)
  have fin: "finite (live_slots (hb_skip b))" by (simp add: live_slots_def)
  have users: "\<exists>x. hb_slots b' ! i = User x" if "i \<in> live_slots (hb_skip b')" for i
    using that b(7) unfolding fd live by auto
  have "s \<notin> set fl" using fl(3) sin by simp
  then have chain: "fl_chain (hb_slots b') (hb_free_head b') (s # fl)" "distinct (s # fl)"
    "set (s # fl) = {0..<cap} - live_slots (hb_skip b')"
    using fl s(1) sin b by (auto simp: fd fl_chain_update live)
  show "hive_block_inv cap (hive_block_kill b s)"
    unfolding hive_block_inv_def b'_def [symmetric]
    using users sk(1,2) b sin fin live chain by (simp only: fd) (auto intro!: exI [of _ "s # fl"])
  show "hive_block_get (hive_block_kill b s) = (hive_block_get b)(s := None)"
    unfolding b'_def [symmetric] using sk(3) b s
    by (auto simp: hive_block_get_def fd fun_eq_iff)
  show "hive_block_get b s \<noteq> None" using s b sin by (auto simp: hive_block_get_def)
  show "0 < hb_live b" using b(6) sin fin by (auto simp: card_gt_0_iff)
qed

section \<open>The hive\<close>

definition hive_inv :: "'a hive \<Rightarrow> bool" where
  "hive_inv h \<longleftrightarrow> hv_blocks h \<noteq> [] \<and> 0 < hv_block_cap h \<and> hv_block_cap h \<le> 255
     \<and> (\<forall>b \<in> set (hv_blocks h). hive_block_inv (hv_block_cap h) b)
     \<and> hv_count h = sum_list (map hb_live (hv_blocks h))"

text \<open>The abstract value: a finite map from handles to the stored pointers.\<close>

definition hive_abs :: "'a hive \<Rightarrow> hive_handle \<Rightarrow> 'a option" where
  "hive_abs h hnd =
     (if hd_block hnd < length (hv_blocks h)
      then hive_block_get (hv_blocks h ! hd_block hnd) (hd_slot hnd) else None)"

lemma hive_inv_block: "hive_inv h \<Longrightarrow> bi < length (hv_blocks h) \<Longrightarrow> hive_block_inv (hv_block_cap h) (hv_blocks h ! bi)"
  by (simp add: hive_inv_def)

lemma hive_block_get_cell:
  "hive_block_inv cap b \<Longrightarrow> s < cap \<Longrightarrow> hb_skip b ! s \<noteq> 0 \<Longrightarrow> \<exists>x. hb_slots b ! s = User x \<and> hive_block_get b s = Some x"
  by (force simp: hive_block_inv_def hive_block_get_def live_slots_def)

lemma hive_get_abs: "hive_inv h \<Longrightarrow> hive_get h hnd = map_option User (hive_abs h hnd)"
  using hive_inv_block [of h "hd_block hnd"] hive_block_get_cell [of "hv_block_cap h" "hv_blocks h ! hd_block hnd" "hd_slot hnd"]
  by (auto simp: hive_get_def hive_abs_def Let_def hive_block_get_def hive_block_inv_def)

lemma hive_contains_abs: "hive_inv h \<Longrightarrow> hive_contains h hnd \<longleftrightarrow> hive_abs h hnd \<noteq> None"
  using hive_inv_block [of h "hd_block hnd"] hive_block_get_cell [of "hv_block_cap h" "hv_blocks h ! hd_block hnd" "hd_slot hnd"]
  by (auto simp: hive_contains_def hive_abs_def Let_def hive_block_get_def hive_block_inv_def)

lemma hive_find_free_spec:
  "case hive_find_free bs k of
     None \<Rightarrow> \<forall>b \<in> set bs. hb_free_head b < 0
   | Some bi \<Rightarrow> k \<le> bi \<and> bi < k + length bs \<and> 0 \<le> hb_free_head (bs ! (bi - k))
       \<and> (\<forall>j < bi - k. hb_free_head (bs ! j) < 0)"
proof (induction bs arbitrary: k)
  case (Cons b bs)
  show ?case
  proof (cases "0 \<le> hb_free_head b")
    case False
    with Cons [of "Suc k"] show ?thesis
      by (auto simp: nth_Cons' split: option.splits)
  qed simp
qed simp

lemma hive_update_block:
  assumes "hive_inv h" "bi < length (hv_blocks h)" "hive_block_inv (hv_block_cap h) b"
    and "c = hv_count h + hb_live b - hb_live (hv_blocks h ! bi)"
  shows "hive_inv (h\<lparr>hv_blocks := (hv_blocks h)[bi := b], hv_count := c\<rparr>)"
    "hive_abs (h\<lparr>hv_blocks := (hv_blocks h)[bi := b], hv_count := c\<rparr>) =
       (\<lambda>hnd. if hd_block hnd = bi then hive_block_get b (hd_slot hnd) else hive_abs h hnd)"
proof -
  have "sum_list (map hb_live ((hv_blocks h)[bi := b])) = c"
    using assms by (simp add: map_update sum_list_update hive_inv_def)
  then show "hive_inv (h\<lparr>hv_blocks := (hv_blocks h)[bi := b], hv_count := c\<rparr>)"
    using assms set_update_subset_insert [of "hv_blocks h" bi b] by (auto simp: hive_inv_def)
qed (use assms in \<open>auto simp: hive_abs_def fun_eq_iff\<close>)

lemma hive_take_slot_spec:
  assumes inv: "hive_inv h" and bi: "bi < length (hv_blocks h)" "0 \<le> hb_free_head (hv_blocks h ! bi)"
  obtains hnd h' where "hive_take_slot h bi ptr = Some (hnd, True, h')" "hive_inv h'"
    "hive_abs h hnd = None" "hive_abs h' = (hive_abs h)(hnd \<mapsto> ptr)" "hv_count h' = hv_count h + 1"
    "hv_mem h' = hv_mem h" "hd_block hnd = bi" "hv_block_cap h' = hv_block_cap h"
    "length (hv_blocks h') = length (hv_blocks h)"
proof -
  let ?b = "hv_blocks h ! bi"
  have binv: "hive_block_inv (hv_block_cap h) ?b" using inv bi(1) by (rule hive_inv_block)
  show ?thesis
  proof (rule hive_block_free_head [OF binv bi(2)])
    fix slot fl n
    assume s: "hb_free_head ?b = int slot" "slot < hv_block_cap h" "hb_skip ?b ! slot = 0"
      "hb_slots ?b ! slot = Link n" "fl_chain (hb_slots ?b) n fl" "distinct (slot # fl)"
      "set (slot # fl) = {0..<hv_block_cap h} - live_slots (hb_skip ?b)"
    define b' where "b' = hive_block_store ?b slot n ptr"
    define hnd where "hnd = \<lparr>hd_block = bi, hd_slot = slot\<rparr>"
    define h' where "h' = h\<lparr>hv_blocks := (hv_blocks h)[bi := b'], hv_count := hv_count h + 1\<rparr>"
    have run: "hive_take_slot h bi ptr = Some (hnd, True, h')"
      by (simp add: hive_take_slot_def Let_def s(1,4) cell_link_def b'_def hive_block_store_def
          hnd_def h'_def)
    note st = hive_block_store_inv(1,2) [OF binv s(2,3,5,6,7), where ptr = ptr, folded b'_def]
      hive_block_store_inv(3) [OF binv s(2,3,5,6,7)]
    have c: "hv_count h + 1 = hv_count h + hb_live b' - hb_live ?b"
      by (simp add: b'_def hive_block_store_fields)
    note up = hive_update_block [OF inv bi(1) st(1) c, folded h'_def]
    show ?thesis
    proof (rule that [OF run up(1)])
      show "hive_abs h hnd = None" using st(3) bi by (simp add: hive_abs_def hnd_def)
      show "hive_abs h' = (hive_abs h)(hnd \<mapsto> ptr)"
        unfolding up(2) st(2) by (auto simp: fun_eq_iff hnd_def hive_abs_def bi)
    qed (simp_all add: h'_def hnd_def)
  qed
qed

lemma hive_append_block:
  assumes "hive_inv h" "hive_block_new (hv_block_cap h) m = (Some nb, mem)"
  shows "hive_inv (h\<lparr>hv_blocks := hv_blocks h @ [nb], hv_mem := mem'\<rparr>)"
    "hive_abs (h\<lparr>hv_blocks := hv_blocks h @ [nb], hv_mem := mem'\<rparr>) = hive_abs h"
proof -
  have nb: "hive_block_inv (hv_block_cap h) nb" "\<And>s. hive_block_get nb s = None"
    using hive_block_new_inv [OF assms(2)] assms(1) by (auto simp: hive_inv_def)
  have "hb_live nb = 0"
    using assms(2) by (auto simp: hive_block_new_def split: prod.splits if_splits)
  then show "hive_inv (h\<lparr>hv_blocks := hv_blocks h @ [nb], hv_mem := mem'\<rparr>)"
    using assms(1) nb by (auto simp: hive_inv_def)
  show "hive_abs (h\<lparr>hv_blocks := hv_blocks h @ [nb], hv_mem := mem'\<rparr>) = hive_abs h"
    using nb by (auto simp: hive_abs_def fun_eq_iff nth_append less_Suc_eq)
qed

definition hive_full :: "'a hive \<Rightarrow> bool" where
  "hive_full h \<longleftrightarrow> hv_count h = hive_capacity h"

lemma hive_insert_spec:
  fixes h :: "'a hive"
  assumes inv: "hive_inv h"
  obtains hnd ok h' where "hive_insert h ptr = Some (hnd, ok, h')" "hive_inv h'"
    "ok \<Longrightarrow> hive_abs h hnd = None \<and> hive_abs h' = (hive_abs h)(hnd \<mapsto> ptr) \<and> hv_count h' = hv_count h + 1"
    "\<not> ok \<Longrightarrow> hive_abs h' = hive_abs h \<and> hv_count h' = hv_count h"
    "hv_mem h = [] \<Longrightarrow> ok \<and> hv_mem h' = []"
proof (cases "hive_find_free (hv_blocks h) 0")
  case (Some bi)
  then have bi: "bi < length (hv_blocks h)" "0 \<le> hb_free_head (hv_blocks h ! bi)"
    using hive_find_free_spec [of "hv_blocks h" 0] by auto
  show ?thesis
    by (rule hive_take_slot_spec [OF inv bi, of ptr], rule that)
       (use Some in \<open>auto simp: hive_insert_def\<close>)
next
  case None
  obtain nb :: "'a hive_block option" and mem where nb: "hive_block_new (hv_block_cap h) (hv_mem h) = (nb, mem)" by force
  show ?thesis
  proof (cases nb)
    case nnb: None
    have "hv_mem h \<noteq> []" using nb nnb by (auto simp: hive_block_new_def)
    moreover have "hive_inv (h\<lparr>hv_mem := mem\<rparr>)" "hive_abs (h\<lparr>hv_mem := mem\<rparr>) = hive_abs h"
      using inv by (auto simp: hive_inv_def hive_abs_def fun_eq_iff)
    ultimately show ?thesis using None nb nnb
      by (intro that [of "\<lparr>hd_block = 0, hd_slot = 0\<rparr>" False "h\<lparr>hv_mem := mem\<rparr>"])
         (auto simp: hive_insert_def)
  next
    case (Some b)
    obtain ok mem' where al: "c_alloc mem = (ok, mem')" by force
    have m0: "hv_mem h = [] \<Longrightarrow> ok \<and> mem' = []"
      using nb al by (auto simp: hive_block_new_def split: if_splits)
    define h1 where "h1 = h\<lparr>hv_blocks := hv_blocks h @ [b], hv_mem := mem'\<rparr>"
    show ?thesis
    proof (cases ok)
      case False
      have "hive_inv (h\<lparr>hv_mem := mem'\<rparr>)" "hive_abs (h\<lparr>hv_mem := mem'\<rparr>) = hive_abs h"
        using inv by (auto simp: hive_inv_def hive_abs_def fun_eq_iff)
      then show ?thesis using None nb Some al False m0
        by (intro that [of "\<lparr>hd_block = 0, hd_slot = 0\<rparr>" False "h\<lparr>hv_mem := mem'\<rparr>"])
           (auto simp: hive_insert_def)
    next
      case True
      note ap = hive_append_block [OF inv nb [unfolded Some], of mem', folded h1_def]
      have "hb_free_head b = 0"
        using hive_block_new_inv [OF nb [unfolded Some]] inv by (auto simp: hive_inv_def)
      then have f: "length (hv_blocks h) < length (hv_blocks h1)"
        "0 \<le> hb_free_head (hv_blocks h1 ! length (hv_blocks h))"
        by (simp_all add: h1_def)
      have run: "hive_insert h ptr = hive_take_slot h1 (length (hv_blocks h)) ptr"
        using None nb Some al True by (simp add: hive_insert_def h1_def)
      have c: "hv_count h1 = hv_count h" "hv_mem h1 = mem'" by (simp_all add: h1_def)
      show ?thesis
        by (rule hive_take_slot_spec [OF ap(1) f, of ptr], rule that)
           (use run ap(2) c m0 True in auto)
    qed
  qed
qed

lemma hive_erase_spec:
  assumes inv: "hive_inv h"
  obtains h' where "hive_erase h hnd = (hive_abs h hnd \<noteq> None, h')" "hive_inv h'"
    "hive_abs h' = (hive_abs h)(hnd := None)" "hv_mem h' = hv_mem h"
    "hv_count h' = (if hive_abs h hnd = None then hv_count h else hv_count h - 1)"
    "hive_abs h hnd \<noteq> None \<Longrightarrow> 0 < hv_count h"
proof (cases "hive_contains h hnd")
  case False
  then have n: "hive_abs h hnd = None" using hive_contains_abs [OF inv] by simp
  moreover have "hive_erase h hnd = (False, h)"
    using False by (auto simp: hive_erase_def hive_contains_def Let_def)
  ultimately show ?thesis using inv by (intro that [of h]) (auto simp: fun_eq_iff)
next
  case True
  then have n: "hive_abs h hnd \<noteq> None" using hive_contains_abs [OF inv] by simp
  define bi s where "bi = hd_block hnd" and "s = hd_slot hnd"
  let ?b = "hv_blocks h ! bi"
  have bi: "bi < length (hv_blocks h)" and s: "s < hb_cap ?b" "hb_skip ?b ! s \<noteq> 0"
    using True by (auto simp: hive_contains_def Let_def bi_def s_def)
  have binv: "hive_block_inv (hv_block_cap h) ?b" using inv bi by (rule hive_inv_block)
  then have cap: "hb_cap ?b = hv_block_cap h" by (simp add: hive_block_inv_def)
  define b' where "b' = hive_block_kill ?b s"
  define h' where "h' = h\<lparr>hv_blocks := (hv_blocks h)[bi := b'], hv_count := hv_count h - 1\<rparr>"
  note k = hive_block_kill_inv [OF binv s(1) [unfolded cap] s(2), folded b'_def]
  have "hb_live ?b \<le> hv_count h"
    using inv bi by (simp add: hive_inv_def member_le_sum_list)
  then have c: "hv_count h - 1 = hv_count h + hb_live b' - hb_live ?b" "0 < hv_count h"
    using k(4) by (simp_all add: b'_def hive_block_kill_fields)
  note up = hive_update_block [OF inv bi k(1) c(1), folded h'_def]
  have run: "hive_erase h hnd = (True, h')"
    using bi s by (simp add: hive_erase_def Let_def bi_def [symmetric] s_def [symmetric] h'_def b'_def
        hive_block_kill_def)
  show ?thesis
  proof (rule that [OF _ up(1)])
    show "hive_abs h' = (hive_abs h)(hnd := None)"
      unfolding up(2) k(2)
      by (auto simp: fun_eq_iff bi_def s_def hive_abs_def bi [unfolded bi_def])
  qed (use run n c in \<open>auto simp: h'_def\<close>)
qed

lemma hive_new_inv:
  assumes "hive_new cap mem = Some h" shows "hive_inv h" "hive_abs h = Map.empty" "hv_count h = 0"
proof -
  obtain b mem1 mem2 cap' where b: "hive_block_new cap' mem1 = (Some b, mem2)" "0 < cap'" "cap' \<le> 255"
    "hv_blocks h = [b]" "hv_block_cap h = cap'" "hv_count h = 0"
    using assms unfolding hive_new_def Let_def
    by (auto simp: HIVE_DEFAULT_BLOCK_CAP_def split: prod.splits if_splits option.splits)
  note nb = hive_block_new_inv [OF b(1,2,3)]
  have "hb_live b = 0"
    using b(1) by (auto simp: hive_block_new_def split: prod.splits if_splits)
  then show "hive_inv h" "hive_abs h = Map.empty" "hv_count h = 0"
    using nb b by (auto simp: hive_inv_def hive_abs_def fun_eq_iff)
qed

lemma hive_clear_inv:
  assumes "hive_inv h" shows "hive_inv (hive_clear h)" "hive_abs (hive_clear h) = Map.empty"
    "hv_count (hive_clear h) = 0" "hv_mem (hive_clear h) = hv_mem h"
proof -
  have "hive_block_inv (hv_block_cap h) (hive_clear_block b) \<and> hb_live (hive_clear_block b) = 0
      \<and> (\<forall>s. hive_block_get (hive_clear_block b) s = None)" if "b \<in> set (hv_blocks h)" for b
  proof -
    have "hive_clear_block b = \<lparr>hb_slots = hive_seed (hv_block_cap h), hb_skip = replicate (hv_block_cap h) 0,
       hb_cap = hv_block_cap h, hb_live = 0, hb_free_head = 0\<rparr>"
      using that assms by (auto simp: hive_clear_block_def hive_inv_def hive_block_inv_def)
    moreover have "0 < hv_block_cap h" "hv_block_cap h \<le> 255" using assms by (auto simp: hive_inv_def)
    ultimately show ?thesis using hive_block_inv_fresh [of "hv_block_cap h"]
      by (auto simp: hive_block_get_def)
  qed
  then show "hive_inv (hive_clear h)" "hive_abs (hive_clear h) = Map.empty"
    "hv_count (hive_clear h) = 0" "hv_mem (hive_clear h) = hv_mem h"
    using assms by (auto simp: hive_clear_def hive_inv_def hive_abs_def fun_eq_iff o_def
        cong: map_cong intro!: sum_list_nonneg_eq_0_iff [THEN iffD2])
qed

section \<open>Iteration\<close>

text \<open>The live slots of a block from slot \<open>s\<close> on, and those of the hive from a cursor on,
  in the order of the arrays.\<close>

definition hive_block_from :: "nat \<Rightarrow> 'a hive_block \<Rightarrow> nat \<Rightarrow> (hive_handle \<times> 'a hive_cell) list" where
  "hive_block_from bi b s = map (\<lambda>s. (\<lparr>hd_block = bi, hd_slot = s\<rparr>, hb_slots b ! s))
     (filter (\<lambda>s. hb_skip b ! s \<noteq> 0) [s..<hb_cap b])"

definition hive_from :: "'a hive \<Rightarrow> nat \<Rightarrow> nat \<Rightarrow> (hive_handle \<times> 'a hive_cell) list" where
  "hive_from h bi s =
     (if bi < length (hv_blocks h)
      then hive_block_from bi (hv_blocks h ! bi) s
         @ concat (map (\<lambda>bj. hive_block_from bj (hv_blocks h ! bj) 0) [Suc bi..<length (hv_blocks h)])
      else [])"

definition hive_items :: "'a hive \<Rightarrow> (hive_handle \<times> 'a hive_cell) list" where
  "hive_items h = concat (map (\<lambda>bi. hive_block_from bi (hv_blocks h ! bi) 0) [0..<length (hv_blocks h)])"

lemma hive_block_from_end: "hb_cap b \<le> s \<Longrightarrow> hive_block_from bi b s = []"
  by (simp add: hive_block_from_def)

lemma hive_block_from_dead:
  "s < hb_cap b \<Longrightarrow> hb_skip b ! s = 0 \<Longrightarrow> hive_block_from bi b s = hive_block_from bi b (Suc s)"
  by (simp add: hive_block_from_def upt_conv_Cons)

lemma hive_block_from_gap:
  assumes "s \<le> t" "t \<le> hb_cap b" "\<And>j. s \<le> j \<Longrightarrow> j < t \<Longrightarrow> hb_skip b ! j = 0"
  shows "hive_block_from bi b s = hive_block_from bi b t"
  using assms
proof (induction "t - s" arbitrary: s)
  case (Suc d)
  have "hive_block_from bi b s = hive_block_from bi b (Suc s)"
    by (rule hive_block_from_dead) (use Suc in auto)
  also have "\<dots> = hive_block_from bi b t" by (rule Suc(1)) (use Suc(2-) in auto)
  finally show ?case .
qed simp

lemma hive_block_from_live:
  assumes "hive_block_inv cap b" "s < cap" "hb_skip b ! s \<noteq> 0"
  shows "hive_block_from bi b s = (\<lparr>hd_block = bi, hd_slot = s\<rparr>, hb_slots b ! s)
           # hive_block_from bi b (s + unat (hb_skip b ! s))"
proof -
  have b: "hb_cap b = cap" "length (hb_skip b) = cap" using assms(1) by (auto simp: hive_block_inv_def)
  have "next_spec (hb_skip b) (Suc s) (s + unat (hb_skip b ! s))"
    using assms by (auto simp: hive_block_inv_def skip_ok_def)
  then have "hive_block_from bi b (Suc s) = hive_block_from bi b (s + unat (hb_skip b ! s))"
    by (intro hive_block_from_gap) (auto simp: next_spec_def b)
  then show ?thesis using assms b
    by (simp add: hive_block_from_def upt_conv_Cons [of s])
qed

lemma hive_from_next_block:
  "bi < length (hv_blocks h) \<Longrightarrow> hb_cap (hv_blocks h ! bi) \<le> s \<Longrightarrow> hive_from h bi s = hive_from h (Suc bi) 0"
  by (auto simp: hive_from_def hive_block_from_end upt_conv_Cons)

lemma hive_from_0: "hive_items h = hive_from h 0 0"
  by (auto simp: hive_items_def hive_from_def upt_conv_Cons)

lemma hive_from_split:
  "bi < length (hv_blocks h) \<Longrightarrow> \<exists>rest. \<forall>s. hive_from h bi s = hive_block_from bi (hv_blocks h ! bi) s @ rest"
  by (auto simp: hive_from_def)

lemma hive_iter_scan_spec:
  assumes "hive_inv h"
  shows "case hive_from h bi s of
      [] \<Rightarrow> fst (hive_iter_scan h bi s rem) = None
    | x # xs \<Rightarrow> \<exists>it. hive_iter_scan h bi s rem = (Some x, it) \<and> it_remaining it = rem - 1
        \<and> hive_from h (it_block it) (it_slot it) = xs"
  using assms
proof (induction h bi s rem rule: hive_iter_scan.induct)
  case (1 h bi s rem)
  show ?case
  proof (cases "bi < length (hv_blocks h)")
    case False
    then show ?thesis by (subst hive_iter_scan.simps) (simp add: hive_from_def)
  next
    case bi: True
    let ?b = "hv_blocks h ! bi"
    have binv: "hive_block_inv (hv_block_cap h) ?b" using 1(3) bi by (rule hive_inv_block)
    then have cap: "hb_cap ?b = hv_block_cap h" by (simp add: hive_block_inv_def)
    obtain rest where from_eq: "\<And>s. hive_from h bi s = hive_block_from bi ?b s @ rest"
      using hive_from_split [OF bi] by auto
    show ?thesis
    proof (cases "s < hb_cap ?b \<and> hb_skip ?b ! s \<noteq> 0")
      case True
      let ?s' = "s + unat (hb_skip ?b ! s)"
      define it where "it = (if ?s' \<ge> hb_cap ?b then \<lparr>it_block = Suc bi, it_slot = 0, it_remaining = rem - 1\<rparr>
              else \<lparr>it_block = bi, it_slot = ?s', it_remaining = rem - 1\<rparr>)"
      have "hive_iter_scan h bi s rem = (Some (\<lparr>hd_block = bi, hd_slot = s\<rparr>, hb_slots ?b ! s), it)"
        using bi True by (subst hive_iter_scan.simps) (simp add: it_def Let_def)
      moreover have "hive_from h bi s = (\<lparr>hd_block = bi, hd_slot = s\<rparr>, hb_slots ?b ! s) # hive_from h bi ?s'"
        using hive_block_from_live [OF binv, of s bi] True cap by (simp add: from_eq)
      moreover have "hive_from h (it_block it) (it_slot it) = hive_from h bi ?s'" "it_remaining it = rem - 1"
        using hive_from_next_block [OF bi] by (auto simp: it_def)
      ultimately show ?thesis by simp
    next
      case False
      show ?thesis
      proof (cases "Suc s \<ge> hb_cap ?b")
        case True
        have "hive_from h bi s = hive_from h (Suc bi) 0"
        proof (cases "s < hb_cap ?b")
          case sl: True
          then have "hive_from h bi s = hive_from h bi (Suc s)"
            using hive_block_from_dead [of s ?b bi] False by (simp add: from_eq)
          then show ?thesis using hive_from_next_block [OF bi True] by simp
        qed (use hive_from_next_block [OF bi] in simp)
        moreover have "hive_iter_scan h bi s rem = hive_iter_scan h (Suc bi) 0 rem"
          using bi False True by (subst hive_iter_scan.simps) (auto simp: Let_def)
        ultimately show ?thesis using 1(1) [OF bi refl False True 1(3)] by (auto split: list.splits)
      next
        case more: False
        then have "hive_from h bi s = hive_from h bi (Suc s)"
          using hive_block_from_dead [of s ?b bi] False by (simp add: from_eq)
        moreover have "hive_iter_scan h bi s rem = hive_iter_scan h bi (Suc s) rem"
          using bi False more by (subst hive_iter_scan.simps) (auto simp: Let_def)
        ultimately show ?thesis using 1(2) [OF bi refl False more 1(3)] by (auto split: list.splits)
      qed
    qed
  qed
qed

lemma hive_iter_seek_spec:
  assumes "hive_inv h" "0 < rem"
  shows "hive_from h (it_block (hive_iter_seek h rem bi)) (it_slot (hive_iter_seek h rem bi)) = hive_from h bi 0
    \<and> it_remaining (hive_iter_seek h rem bi) = rem"
  using assms
proof (induction h rem bi rule: hive_iter_seek.induct)
  case (1 h rem bi)
  show ?case
  proof (cases "bi < length (hv_blocks h)")
    case False
    then show ?thesis by (subst (1 2 3) hive_iter_seek.simps) simp
  next
    case bi: True
    let ?b = "hv_blocks h ! bi"
    define s where "s = hive_block_next_live ?b 0"
    have binv: "hive_block_inv (hv_block_cap h) ?b" using 1(2) bi by (rule hive_inv_block)
    then have "next_spec (hb_skip ?b) 0 s"
      unfolding s_def by (intro next_live_spec) (auto simp: hive_block_inv_def)
    then have gap: "hive_block_from bi ?b 0 = hive_block_from bi ?b s"
      using binv by (intro hive_block_from_gap) (auto simp: next_spec_def hive_block_inv_def)
    obtain rest where from_eq: "\<And>s. hive_from h bi s = hive_block_from bi ?b s @ rest"
      using hive_from_split [OF bi] by auto
    show ?thesis
    proof (cases "s < hb_cap ?b")
      case True
      then have "hive_iter_seek h rem bi = \<lparr>it_block = bi, it_slot = s, it_remaining = rem\<rparr>"
        using bi 1(3) by (subst hive_iter_seek.simps) (simp add: Let_def s_def [symmetric])
      then show ?thesis by (simp add: from_eq gap)
    next
      case False
      then have "hive_iter_seek h rem bi = hive_iter_seek h rem (Suc bi)"
        using bi 1(3) by (subst hive_iter_seek.simps) (simp add: Let_def s_def [symmetric])
      moreover have "hive_from h bi 0 = hive_from h (Suc bi) 0"
        using hive_from_next_block [OF bi, of s] False by (simp add: from_eq gap)
      ultimately show ?thesis using 1(1) [OF _ refl s_def] 1(2,3) bi False by simp
    qed
  qed
qed

lemma hive_drain_from:
  assumes "hive_inv h" "it_remaining it = length (hive_from h (it_block it) (it_slot it))"
  shows "hive_drain h it = hive_from h (it_block it) (it_slot it)"
  using assms
proof (induction h it rule: hive_drain.induct)
  case (1 h it)
  show ?case
  proof (cases "hive_from h (it_block it) (it_slot it)")
    case Nil
    then show ?thesis using 1(3) by (subst hive_drain.simps) (simp add: hive_iter_next_def)
  next
    case (Cons x xs)
    obtain it' where it': "hive_iter_next h it = (Some x, it')" "it_remaining it' = length xs"
      "hive_from h (it_block it') (it_slot it') = xs"
      using hive_iter_scan_spec [OF 1(2), of "it_block it" "it_slot it" "it_remaining it"] Cons 1(3)
      by (auto simp: hive_iter_next_def)
    then have "hive_drain h it' = xs" using 1(1) [OF it'(1) [symmetric] refl 1(2)] by simp
    then show ?thesis using Cons it'(1) by (subst hive_drain.simps) simp
  qed
qed

lemma hive_block_from_length: "hive_block_inv cap b \<Longrightarrow> length (hive_block_from bi b 0) = hb_live b"
  by (auto simp: hive_block_from_def hive_block_inv_def length_filter_conv_card live_slots_def
      intro!: arg_cong [of _ _ card])

lemma length_hive_items: "hive_inv h \<Longrightarrow> length (hive_items h) = hv_count h"
proof -
  assume inv: "hive_inv h"
  then have "map (\<lambda>bi. length (hive_block_from bi (hv_blocks h ! bi) 0)) [0..<length (hv_blocks h)]
    = map (\<lambda>bi. hb_live (hv_blocks h ! bi)) [0..<length (hv_blocks h)]"
    by (auto intro!: hive_block_from_length hive_inv_block)
  also have "\<dots> = map hb_live (hv_blocks h)"
    by (intro nth_equalityI) simp_all
  finally show ?thesis using inv by (simp add: hive_items_def length_concat o_def hive_inv_def)
qed

lemma hive_drain_items:
  assumes "hive_inv h"
  shows "hive_drain h (hive_iter_begin h) = hive_items h"
proof (cases "hv_count h = 0")
  case True
  then have "hive_items h = []" using length_hive_items [OF assms] by simp
  moreover have "hive_drain h (hive_iter_begin h) = []"
    using True by (subst hive_drain.simps) (simp add: hive_iter_begin_def hive_iter_next_def hive_iter_seek.simps)
  ultimately show ?thesis by simp
next
  case False
  then have "hive_from h (it_block (hive_iter_begin h)) (it_slot (hive_iter_begin h)) = hive_items h
      \<and> it_remaining (hive_iter_begin h) = hv_count h"
    using hive_iter_seek_spec [OF assms, of "hv_count h" 0] by (simp add: hive_iter_begin_def hive_from_0)
  then show ?thesis using hive_drain_from [OF assms, of "hive_iter_begin h"] length_hive_items [OF assms]
    by simp
qed

lemma hive_items_iff:
  assumes "hive_inv h"
  shows "(hnd, c) \<in> set (hive_items h) \<longleftrightarrow> (\<exists>x. hive_abs h hnd = Some x \<and> c = User x)"
proof -
  have "(hnd, c) \<in> set (hive_items h) \<longleftrightarrow> hd_block hnd < length (hv_blocks h)
     \<and> hd_slot hnd < hb_cap (hv_blocks h ! hd_block hnd) \<and> hb_skip (hv_blocks h ! hd_block hnd) ! hd_slot hnd \<noteq> 0
     \<and> c = hb_slots (hv_blocks h ! hd_block hnd) ! hd_slot hnd"
    by (cases hnd) (auto simp: hive_items_def hive_block_from_def)
  also have "\<dots> \<longleftrightarrow> hive_get h hnd = Some c"
    by (auto simp: hive_get_def Let_def)
  also have "\<dots> \<longleftrightarrow> (\<exists>x. hive_abs h hnd = Some x \<and> c = User x)"
    using hive_get_abs [OF assms, of hnd] by auto
  finally show ?thesis .
qed

lemma in_concat_upt: "x \<in> set (concat (map f [0..<n])) \<longleftrightarrow> (\<exists>i<n. x \<in> set (f i))"
  by auto

lemma hive_block_from_handles:
  "distinct (map fst (hive_block_from bi b s))"
  "hnd \<in> set (map fst (hive_block_from bi b s)) \<Longrightarrow> hd_block hnd = bi"
  by (auto simp: hive_block_from_def o_def distinct_map inj_on_def)

lemma distinct_hive_items: "distinct (map fst (hive_items h))"
proof -
  let ?f = "\<lambda>bi. map fst (hive_block_from bi (hv_blocks h ! bi) 0)"
  have blk: "hd_block hnd < n" if mem: "hnd \<in> set (concat (map ?f [0..<n]))" for hnd n
  proof -
    obtain bi where "bi < n" "hnd \<in> set (?f bi)" using mem by (simp only: in_concat_upt) blast
    then show ?thesis using hive_block_from_handles(2) by blast
  qed
  have "distinct (concat (map ?f [0..<n]))" for n
  proof (induction n)
    case (Suc n)
    have "set (concat (map ?f [0..<n])) \<inter> set (?f n) = {}"
    proof (rule ccontr)
      assume "set (concat (map ?f [0..<n])) \<inter> set (?f n) \<noteq> {}"
      then obtain hnd where "hnd \<in> set (concat (map ?f [0..<n]))" "hnd \<in> set (?f n)" by blast
      then have "hd_block hnd < n" "hd_block hnd = n" using blk hive_block_from_handles(2) by blast+
      then show False by simp
    qed
    then show ?case using Suc hive_block_from_handles(1) [of n] by simp
  qed simp
  from this [of "length (hv_blocks h)"] show ?thesis
    by (simp add: hive_items_def map_concat o_def)
qed

section \<open>Stable-handle stores\<close>

text \<open>What a client of the hive relies on: \<open>get\<close> is a finite map that \<open>insert\<close> and
  \<open>erase\<close> update at one handle, and \<open>items\<close> lists it.\<close>

locale handle_store =
  fixes inv :: "'h \<Rightarrow> bool"
    and insert :: "'h \<Rightarrow> 'a \<Rightarrow> ('k \<times> bool \<times> 'h) option"
    and erase :: "'h \<Rightarrow> 'k \<Rightarrow> bool \<times> 'h"
    and get :: "'h \<Rightarrow> 'k \<Rightarrow> 'a option"
    and items :: "'h \<Rightarrow> ('k \<times> 'a) list"
  assumes insert_ok: "inv h \<Longrightarrow> \<exists>k ok h'. insert h x = Some (k, ok, h') \<and> inv h'
      \<and> (ok \<longrightarrow> get h k = None) \<and> get h' = (if ok then (get h)(k \<mapsto> x) else get h)"
    and erase_ok: "inv h \<Longrightarrow> fst (erase h k) = (get h k \<noteq> None) \<and> inv (snd (erase h k))
      \<and> get (snd (erase h k)) = (get h)(k := None)"
    and items_ok: "inv h \<Longrightarrow> distinct (map fst (items h)) \<and> map_of (items h) = get h"
begin

lemma items_iff: "inv h \<Longrightarrow> (k, x) \<in> set (items h) \<longleftrightarrow> get h k = Some x"
  using items_ok [of h] by (metis map_of_eq_Some_iff)

lemma erase_many:
  "inv h \<Longrightarrow> inv (fold (\<lambda>k h. snd (erase h k)) ks h)
     \<and> get (fold (\<lambda>k h. snd (erase h k)) ks h) = (\<lambda>k. if k \<in> set ks then None else get h k)"
  by (induction ks arbitrary: h) (auto simp: erase_ok fun_eq_iff)

text \<open>Erasing every handle of the iteration empties the store.\<close>

lemma erase_all:
  assumes "inv h"
  shows "inv (fold (\<lambda>k h. snd (erase h k)) (map fst (items h)) h)"
    "get (fold (\<lambda>k h. snd (erase h k)) (map fst (items h)) h) = Map.empty"
proof -
  have "get h k = None" if "k \<notin> fst ` set (items h)" for k
    using that items_iff [OF assms] by (cases "get h k") force+
  then show "get (fold (\<lambda>k h. snd (erase h k)) (map fst (items h)) h) = Map.empty"
    using erase_many [OF assms, of "map fst (items h)"] by (auto simp: fun_eq_iff)
qed (use erase_many [OF assms] in simp)

text \<open>The linear search of the clients: the first element with a property is found
  exactly when some element has it.\<close>

lemma find_items:
  assumes "inv h"
  shows "find (\<lambda>(k, x). P x) (items h) = None \<longleftrightarrow> (\<forall>k x. get h k = Some x \<longrightarrow> \<not> P x)"
    "find (\<lambda>(k, x). P x) (items h) = Some (k, x) \<Longrightarrow> get h k = Some x \<and> P x"
proof -
  show "find (\<lambda>(k, x). P x) (items h) = None \<longleftrightarrow> (\<forall>k x. get h k = Some x \<longrightarrow> \<not> P x)"
    by (simp add: find_None_iff Ball_def items_iff [OF assms])
  assume "find (\<lambda>(k, x). P x) (items h) = Some (k, x)"
  then obtain i where "i < length (items h)" "items h ! i = (k, x)" "P x"
    by (auto simp: find_Some_iff)
  then show "get h k = Some x \<and> P x" using items_iff [OF assms, of k x] by (metis nth_mem)
qed

end

definition hive_values :: "'a hive \<Rightarrow> (hive_handle \<times> 'a) list" where
  "hive_values h = map (\<lambda>(k, c). (k, case c of User x \<Rightarrow> x | Link _ \<Rightarrow> undefined))
     (hive_drain h (hive_iter_begin h))"

lemma hive_values_ok:
  assumes "hive_inv h" shows "distinct (map fst (hive_values h))" "map_of (hive_values h) = hive_abs h"
proof -
  have fst: "map fst (hive_values h) = map fst (hive_items h)"
    using hive_drain_items [OF assms] by (auto simp: hive_values_def)
  then show d: "distinct (map fst (hive_values h))" using distinct_hive_items [of h] by simp
  have "(k, x) \<in> set (hive_values h) \<longleftrightarrow> hive_abs h k = Some x" for k x
    using hive_items_iff [OF assms] hive_drain_items [OF assms] by (force simp: hive_values_def)
  then show "map_of (hive_values h) = hive_abs h"
    using map_of_eq_Some_iff [OF d] by (metis option.exhaust ext)
qed

interpretation hs: handle_store hive_inv hive_insert hive_erase hive_abs hive_values
proof
  fix h :: "'a hive" and x k
  assume inv: "hive_inv h"
  show "\<exists>k ok h'. hive_insert h x = Some (k, ok, h') \<and> hive_inv h'
      \<and> (ok \<longrightarrow> hive_abs h k = None) \<and> hive_abs h' = (if ok then (hive_abs h)(k \<mapsto> x) else hive_abs h)"
    by (rule hive_insert_spec [OF inv, of x]) auto
  show "fst (hive_erase h k) = (hive_abs h k \<noteq> None) \<and> hive_inv (snd (hive_erase h k))
      \<and> hive_abs (snd (hive_erase h k)) = (hive_abs h)(k := None)"
    by (rule hive_erase_spec [OF inv, of k]) simp
  show "distinct (map fst (hive_values h)) \<and> map_of (hive_values h) = hive_abs h"
    using hive_values_ok [OF inv] by simp
qed

section \<open>Properties\<close>

text \<open>
  C12. On a well-formed hive \<open>hive_insert\<close> always returns, and with memory available it
  succeeds. The handle it hands out was not live before, it now denotes the stored pointer,
  every other handle keeps its pointer, the count grows by one and the skipfield, freelist
  and count stay consistent; a failed insert changes no element.
\<close>

theorem hive_insert_fresh_handle:
  assumes "hive_inv h"
  shows "\<exists>hnd ok h'. hive_insert h ptr = Some (hnd, ok, h') \<and> hive_inv h'
     \<and> (hv_mem h = [] \<longrightarrow> ok)
     \<and> (if ok then hive_get h hnd = None \<and> hv_count h' = hv_count h + 1
          \<and> hive_get h' = (hive_get h)(hnd \<mapsto> User ptr)
        else hive_get h' = hive_get h)"
proof (rule hive_insert_spec [OF assms, of ptr])
  fix hnd ok h'
  assume r: "hive_insert h ptr = Some (hnd, ok, h')" "hive_inv h'"
    "ok \<Longrightarrow> hive_abs h hnd = None \<and> hive_abs h' = (hive_abs h)(hnd \<mapsto> ptr) \<and> hv_count h' = hv_count h + 1"
    "\<not> ok \<Longrightarrow> hive_abs h' = hive_abs h \<and> hv_count h' = hv_count h"
    "hv_mem h = [] \<Longrightarrow> ok \<and> hv_mem h' = []"
  show ?thesis
    by (intro exI [of _ hnd] exI [of _ ok] exI [of _ h'])
       (use r in \<open>auto simp: hive_get_abs [OF assms] hive_get_abs [OF r(2)] fun_eq_iff\<close>)
qed

theorem hive_insert_fresh_handle_witness:
  "\<exists>h hnd h'. hive_new 16 [] = Some h \<and> hive_inv h
     \<and> hive_insert h ''a'' = Some (hnd, True, h') \<and> hive_get h' hnd = Some (User ''a'')"
proof -
  obtain h :: "string hive" where h: "hive_new 16 [] = Some h" "hv_mem h = []"
    by (simp add: hive_new_def hive_block_new_def)
  then have inv: "hive_inv h" by (intro hive_new_inv)
  then show ?thesis using h hive_insert_fresh_handle [OF inv, of "''a''"] by fastforce
qed

text \<open>
  C14. \<open>hive_erase\<close> returns true exactly for a live handle; it then kills that handle only,
  and the slot goes back to the freelist of its block. On a dead or foreign handle nothing
  changes.
\<close>

theorem hive_erase_exact:
  assumes "hive_inv h"
  shows "\<exists>h'. hive_erase h hnd = (hive_contains h hnd, h') \<and> hive_inv h'
     \<and> hive_get h' = (hive_get h)(hnd := None)
     \<and> hv_count h' + (if hive_contains h hnd then 1 else 0) = hv_count h"
proof (rule hive_erase_spec [OF assms, of hnd])
  fix h'
  assume r: "hive_erase h hnd = (hive_abs h hnd \<noteq> None, h')" "hive_inv h'"
    "hive_abs h' = (hive_abs h)(hnd := None)"
    "hv_count h' = (if hive_abs h hnd = None then hv_count h else hv_count h - 1)"
    "hive_abs h hnd \<noteq> None \<Longrightarrow> 0 < hv_count h"
  show ?thesis
    by (intro exI [of _ h'])
       (use r in \<open>auto simp: hive_contains_abs [OF assms] hive_get_abs [OF assms]
          hive_get_abs [OF r(2)] fun_eq_iff\<close>)
qed

theorem hive_erase_exact_witness:
  "\<exists>h hnd h'. hive_new 16 [] = Some h \<and> hive_insert h ''a'' = Some (hnd, True, h') \<and> hive_inv h'
     \<and> (\<exists>h''. hive_erase h' hnd = (True, h'') \<and> hive_get h'' hnd = None)"
proof -
  obtain h :: "string hive" where h: "hive_new 16 [] = Some h" "hv_mem h = []"
    by (simp add: hive_new_def hive_block_new_def)
  then have "hive_inv h" by (intro hive_new_inv)
  from hs.insert_ok [OF this] hive_insert_spec [OF this, of "''a''"] h(2)
  obtain hnd h' where i: "hive_insert h ''a'' = Some (hnd, True, h')" "hive_inv h'" "hive_abs h' hnd = Some ''a''"
    by (metis fun_upd_same)
  with hive_erase_exact [OF i(2), of hnd] h show ?thesis
    by (intro exI [of _ h] exI [of _ hnd] exI [of _ h']) (auto simp: hive_contains_abs)
qed

text \<open>
  C17. The client loop \<open>hive_iter_begin\<close>; \<open>while (hive_iter_next(...))\<close> ends and visits every
  live element exactly once, in the order of block and slot, and as many of them as
  \<open>hive_count\<close> says.
\<close>

theorem hive_iteration_complete:
  assumes "hive_inv h"
  shows "map fst (hive_drain h (hive_iter_begin h)) =
       concat (map (\<lambda>bi. map (\<lambda>s. \<lparr>hd_block = bi, hd_slot = s\<rparr>)
          (filter (\<lambda>s. hive_contains h \<lparr>hd_block = bi, hd_slot = s\<rparr>) [0..<hv_block_cap h]))
          [0..<hive_block_count h])
    \<and> distinct (map fst (hive_drain h (hive_iter_begin h)))
    \<and> (\<forall>hnd c. (hnd, c) \<in> set (hive_drain h (hive_iter_begin h)) \<longleftrightarrow> hive_get h hnd = Some c)
    \<and> length (hive_drain h (hive_iter_begin h)) = hv_count h"
proof -
  have "hb_cap (hv_blocks h ! bi) = hv_block_cap h" if "bi < length (hv_blocks h)" for bi
    using hive_inv_block [OF assms that] by (simp add: hive_block_inv_def)
  then have "map fst (hive_items h) =
       concat (map (\<lambda>bi. map (\<lambda>s. \<lparr>hd_block = bi, hd_slot = s\<rparr>)
          (filter (\<lambda>s. hive_contains h \<lparr>hd_block = bi, hd_slot = s\<rparr>) [0..<hv_block_cap h]))
          [0..<hive_block_count h])"
    unfolding hive_items_def map_concat hive_block_count_def
    by (intro arg_cong [of _ _ concat])
       (auto simp: o_def hive_block_from_def hive_contains_def Let_def intro!: filter_cong map_cong)
  moreover have "(hnd, c) \<in> set (hive_items h) \<longleftrightarrow> hive_get h hnd = Some c" for hnd c
    by (auto simp: hive_items_iff [OF assms] hive_get_abs [OF assms])
  ultimately show ?thesis
    unfolding hive_drain_items [OF assms] using distinct_hive_items [of h] length_hive_items [OF assms]
    by blast
qed

theorem hive_iteration_complete_witness:
  "\<exists>h hnd h'. hive_new 16 [] = Some h \<and> hive_insert h (5::nat) = Some (hnd, True, h') \<and> hive_inv h'
     \<and> length (hive_drain h' (hive_iter_begin h')) = 1
     \<and> (hnd, User 5) \<in> set (hive_drain h' (hive_iter_begin h'))"
proof -
  obtain h :: "nat hive" where h: "hive_new 16 [] = Some h" "hv_mem h = []"
    by (simp add: hive_new_def hive_block_new_def)
  then have "hive_inv h" "hv_count h = 0" by (auto intro: hive_new_inv)
  with hive_insert_spec [of h 5] h(2)
  obtain hnd h' where i: "hive_insert h 5 = Some (hnd, True, h')" "hive_inv h'" "hive_abs h' hnd = Some 5"
    "hv_count h' = 1"
    by (metis fun_upd_same add_0)
  with hive_iteration_complete [OF i(2)] h show ?thesis
    by (intro exI [of _ h] exI [of _ hnd] exI [of _ h']) (simp add: hive_get_abs)
qed

end
