(* ===== verification/Json.thy ===== *)
theory Json
  imports Slermes_Prelude
begin

text \<open>
  \<^verbatim>\<open>lib/libjson/json.c\<close>: the JSON tree, its recursive-descent parser and its serializer.

  The cursor \<open>pos\<close> of the parser is the text from it to \<open>end\<close>. Numbers are C doubles:
  their type is a parameter, and the C library calls on them are the fields of a record
  (\<open>strtod\<close>, the two \<open>snprintf\<close> formats and the test that a double is a \<open>long long\<close>). The
  parser's string buffer is modelled with its capacity, so a write beyond it is a result
  (\<open>JOob\<close>). Each nested call of the parser takes one unit of fuel; \<open>JFuel\<close> is "none left".
  Allocations succeed.
\<close>

section \<open>Trees\<close>

datatype 'n json =
    JNull
  | JBool bool
  | JNumber 'n
  | JString string
  | JArray "'n json list"
  | JObject "(string \<times> 'n json) list"

record 'n json_num =
  jn_strtod :: "string \<Rightarrow> 'n \<times> string"
  jn_is_llong :: "'n \<Rightarrow> bool"
  jn_fmt0 :: "'n \<Rightarrow> string"
  jn_fmt17 :: "'n \<Rightarrow> string"

datatype 'a jres = JOk 'a string | JErr string | JOob | JFuel

section \<open>Tree operations\<close>

definition json_append :: "'n json \<Rightarrow> 'n json \<Rightarrow> 'n json" where
  "json_append arr item = (case arr of JArray xs \<Rightarrow> JArray (xs @ [item]) | _ \<Rightarrow> arr)"

definition json_get :: "'n json \<Rightarrow> nat \<Rightarrow> 'n json option" where
  "json_get arr index = (case arr of
      JArray xs \<Rightarrow> if index \<ge> length xs then None else Some (xs ! index) | _ \<Rightarrow> None)"

definition json_len :: "'n json \<Rightarrow> nat" where
  "json_len arr = (case arr of JArray xs \<Rightarrow> length xs | _ \<Rightarrow> 0)"

text \<open>The key loop of \<open>json_set\<close>: replace in place, or append.\<close>

fun json_set_fields :: "(string \<times> 'n json) list \<Rightarrow> string \<Rightarrow> 'n json \<Rightarrow> (string \<times> 'n json) list" where
  "json_set_fields [] key val = [(key, val)]"
| "json_set_fields ((k, v) # kvs) key val =
     (if k = key then (k, val) # kvs else (k, v) # json_set_fields kvs key val)"

definition json_set :: "'n json \<Rightarrow> string \<Rightarrow> 'n json \<Rightarrow> 'n json" where
  "json_set obj key val = (case obj of JObject kvs \<Rightarrow> JObject (json_set_fields kvs key val) | _ \<Rightarrow> obj)"

fun json_del_fields :: "(string \<times> 'n json) list \<Rightarrow> string \<Rightarrow> bool \<times> (string \<times> 'n json) list" where
  "json_del_fields [] key = (False, [])"
| "json_del_fields ((k, v) # kvs) key =
     (if k = key then (True, kvs) else let (b, r) = json_del_fields kvs key in (b, (k, v) # r))"

definition json_obj_del :: "'n json \<Rightarrow> string \<Rightarrow> bool \<times> 'n json" where
  "json_obj_del obj key = (case obj of
      JObject kvs \<Rightarrow> (let (b, r) = json_del_fields kvs key in (b, JObject r)) | _ \<Rightarrow> (False, obj))"

definition json_obj_get :: "'n json \<Rightarrow> string \<Rightarrow> 'n json option" where
  "json_obj_get obj key = (case obj of JObject kvs \<Rightarrow> map_of kvs key | _ \<Rightarrow> None)"

definition json_get_str :: "'n json \<Rightarrow> string \<Rightarrow> string option \<Rightarrow> string option" where
  "json_get_str obj key def = (case json_obj_get obj key of Some (JString s) \<Rightarrow> Some s | _ \<Rightarrow> def)"

definition json_get_num :: "'n json_num \<Rightarrow> 'n json \<Rightarrow> string \<Rightarrow> 'n \<Rightarrow> 'n" where
  "json_get_num env obj key def = (case json_obj_get obj key of
      Some (JNumber n) \<Rightarrow> n
    | Some (JString s) \<Rightarrow>
        (let (val, end) = jn_strtod env s in if end \<noteq> s \<and> end = [] then val else def)
    | _ \<Rightarrow> def)"

definition json_get_bool :: "'n json \<Rightarrow> string \<Rightarrow> bool \<Rightarrow> bool" where
  "json_get_bool obj key def = (case json_obj_get obj key of
      Some (JBool b) \<Rightarrow> b
    | Some (JString s) \<Rightarrow>
        (if map c_tolower s = ''true'' then True
         else if map c_tolower s = ''false'' then False else def)
    | _ \<Rightarrow> def)"

fun json_copy :: "'n json \<Rightarrow> 'n json" where
  "json_copy JNull = JNull"
| "json_copy (JBool b) = JBool b"
| "json_copy (JNumber n) = JNumber n"
| "json_copy (JString s) = JString s"
| "json_copy (JArray xs) = fold (\<lambda>x c. json_append c (json_copy x)) xs (JArray [])"
| "json_copy (JObject kvs) = fold (\<lambda>(k, v) c. json_set c k (json_copy v)) kvs (JObject [])"

section \<open>The parser\<close>

definition skip_ws :: "string \<Rightarrow> string" where
  "skip_ws s = dropWhile (\<lambda>c. (of_char c :: int) \<le> 32) s"

text \<open>\<open>match\<close>: Some is the text after the character.\<close>

definition json_match :: "char \<Rightarrow> string \<Rightarrow> string option" where
  "json_match c s = (case skip_ws s of [] \<Rightarrow> None | d # ds \<Rightarrow> if d = c then Some ds else None)"

text \<open>UTF-8, from \<open>encode_cp\<close> on; \<open>(char)cp\<close> keeps the low byte.\<close>

definition json_byte :: "int \<Rightarrow> char" where
  "json_byte i = char_of (i mod 256)"

definition json_encode_cp :: "int \<Rightarrow> string" where
  "json_encode_cp cp =
     (if cp < 128 then [json_byte cp]
      else if cp < 0x800 then [json_byte (0xC0 OR drop_bit 6 cp), json_byte (0x80 OR (cp AND 0x3F))]
      else if cp < 0x10000 then
        [json_byte (0xE0 OR drop_bit 12 cp), json_byte (0x80 OR (drop_bit 6 cp AND 0x3F)),
         json_byte (0x80 OR (cp AND 0x3F))]
      else
        [json_byte (0xF0 OR drop_bit 18 cp), json_byte (0x80 OR (drop_bit 12 cp AND 0x3F)),
         json_byte (0x80 OR (drop_bit 6 cp AND 0x3F)), json_byte (0x80 OR (cp AND 0x3F))])"

text \<open>\<open>case 'u'\<close>, the cursor being at the \<open>u\<close>: the bytes to store and the text from the
  cursor after the loop's increment; None when truncated.\<close>

definition json_unicode :: "string \<Rightarrow> (string \<times> string) option" where
  "json_unicode s =
     (if length s \<le> 4 then None
      else let cp = fst (c_strtol 16 (take 4 (drop 1 s))); s = drop 4 s in
        if 0xD800 \<le> cp \<and> cp \<le> 0xDBFF then
          let lo = fst (c_strtol 16 (take 4 (drop 3 s))) in
          if length s \<ge> 7 \<and> s ! 1 = CHR 0x5C \<and> s ! 2 = CHR ''u'' \<and> 0xDC00 \<le> lo \<and> lo \<le> 0xDFFF
          then Some (json_encode_cp (0x10000 + (cp - 0xD800) * 0x400 + (lo - 0xDC00)), drop 7 s)
          else Some (json_encode_cp 0xFFFD, drop 1 s)
        else if 0xDC00 \<le> cp \<and> cp \<le> 0xDFFF then Some (json_encode_cp 0xFFFD, drop 1 s)
        else Some (json_encode_cp cp, drop 1 s))"

text \<open>The one-character escapes; any other character stands for itself.\<close>

definition json_unescape :: "char \<Rightarrow> char" where
  "json_unescape c =
     (if c = CHR ''b'' then CHR 8 else if c = CHR ''f'' then CHR 12
      else if c = CHR ''n'' then CHR 10 else if c = CHR ''r'' then CHR 13
      else if c = CHR ''t'' then CHR 9 else c)"

lemma json_unicode_shorter: "json_unicode s = Some (bs, r) \<Longrightarrow> length r < length s"
  by (auto simp: json_unicode_def Let_def split: if_splits)

text \<open>The \<open>switch\<close> in the loop of \<open>parse_string\<close> on the character \<open>c\<close> before \<open>cs\<close>: the bytes it
  stores and the text after the loop's increment.\<close>

definition json_string_step :: "char \<Rightarrow> string \<Rightarrow> string jres" where
  "json_string_step c cs =
     (if c = CHR 0x5C then
        (case cs of
           [] \<Rightarrow> JErr ''Unexpected end in escape''
         | e # es \<Rightarrow>
             if e = CHR ''u'' then
               (case json_unicode cs of
                  None \<Rightarrow> JErr (''Truncated '' @ [CHR 0x5C] @ ''uXXXX'')
                | Some (bs, r) \<Rightarrow> JOk bs r)
             else JOk [json_unescape e] es)
      else JOk [c] cs)"

lemma json_string_step_shorter: "json_string_step c cs = JOk bs r \<Longrightarrow> length r \<le> length cs"
  by (auto simp: json_string_step_def split: if_splits list.splits option.splits
      dest!: json_unicode_shorter)

text \<open>The loop: \<open>cap\<close> is the capacity of the buffer and \<open>buf\<close> its contents. The terminator
  is written after the loop.\<close>

function json_string_loop :: "string \<Rightarrow> nat \<Rightarrow> string \<Rightarrow> string jres" where
  "json_string_loop s cap buf =
     (case s of
        [] \<Rightarrow> if length buf < cap then JOk buf [] else JOob
      | c # cs \<Rightarrow>
          if c = CHR 0x22 then (if length buf < cap then JOk buf s else JOob)
          else let cap = (if length buf \<ge> cap - 1 then cap * 2 else cap) in
          (case json_string_step c cs of
             JOk bs r \<Rightarrow>
               if length buf + length bs > cap then JOob else json_string_loop r cap (buf @ bs)
           | e \<Rightarrow> e))"
  by pat_completeness auto
termination
  by (relation "measure (\<lambda>(s, cap, buf). length s)")
     (auto simp: less_Suc_eq_le json_string_step_shorter)

declare json_string_loop.simps [simp del]

definition json_quoted :: "string \<Rightarrow> string" where
  "json_quoted s = [CHR 0x27] @ s @ [CHR 0x27]"

definition json_parse_string :: "string \<Rightarrow> string jres" where
  "json_parse_string s =
     (case json_match (CHR 0x22) s of
        None \<Rightarrow> JErr (''Expected '' @ json_quoted [CHR 0x22])
      | Some s \<Rightarrow>
          (case json_string_loop s 64 [] of
             JOk buf r \<Rightarrow>
               (case json_match (CHR 0x22) r of
                  None \<Rightarrow> JErr ''Unterminated string''
                | Some r \<Rightarrow> JOk (c_str buf) r)
           | e \<Rightarrow> e))"

text \<open>The scan of \<open>parse_number\<close>: the characters of the number and the text after it.\<close>

definition json_digits :: "string \<Rightarrow> string \<times> string" where
  "json_digits s = (takeWhile c_isdigit s, dropWhile c_isdigit s)"

definition json_opt :: "char list \<Rightarrow> string \<Rightarrow> string \<times> string" where
  "json_opt cs s = (case s of c # r \<Rightarrow> if c \<in> set cs then ([c], r) else ([], s) | [] \<Rightarrow> ([], s))"

definition json_scan_number :: "string \<Rightarrow> string \<times> string" where
  "json_scan_number s =
     (let (m, s) = json_opt [CHR ''-''] s;
          (i, s) = json_digits s;
          (p, s) = json_opt [CHR ''.''] s;
          (f, s) = (if p = [] then ([], s) else json_digits s);
          (e, s) = json_opt [CHR ''e'', CHR ''E''] s;
          (g, s) = (if e = [] then ([], s) else json_opt [CHR ''+'', CHR ''-''] s);
          (x, s) = (if e = [] then ([], s) else json_digits s)
      in (m @ i @ p @ f @ e @ g @ x, s))"

definition json_parse_number :: "'n json_num \<Rightarrow> string \<Rightarrow> 'n json jres" where
  "json_parse_number env s =
     (let (tok, r) = json_scan_number s
      in if length tok \<ge> 128 then JErr ''Number too long''
         else JOk (JNumber (fst (jn_strtod env tok))) r)"

fun json_parse_value :: "'n json_num \<Rightarrow> nat \<Rightarrow> string \<Rightarrow> 'n json jres"
  and json_parse_elems :: "'n json_num \<Rightarrow> nat \<Rightarrow> 'n json \<Rightarrow> string \<Rightarrow> 'n json jres"
  and json_parse_members :: "'n json_num \<Rightarrow> nat \<Rightarrow> 'n json \<Rightarrow> string \<Rightarrow> 'n json jres"
where
  "json_parse_value env 0 s = JFuel"
| "json_parse_value env (Suc k) s =
     (case skip_ws s of
        [] \<Rightarrow> JErr ''Unexpected end of input''
      | c # cs \<Rightarrow>
          if c = CHR 0x22 then
            (case json_parse_string (c # cs) of
               JOk str r \<Rightarrow> JOk (JString str) r | JErr e \<Rightarrow> JErr e | JOob \<Rightarrow> JOob | JFuel \<Rightarrow> JFuel)
          else if c = CHR ''{'' then
            (case json_match (CHR ''}'') cs of
               Some r \<Rightarrow> JOk (JObject []) r | None \<Rightarrow> json_parse_members env k (JObject []) cs)
          else if c = CHR ''['' then
            (case json_match (CHR '']'') cs of
               Some r \<Rightarrow> JOk (JArray []) r | None \<Rightarrow> json_parse_elems env k (JArray []) cs)
          else if c = CHR ''t'' \<or> c = CHR ''f'' then
            if take 4 (c # cs) = ''true'' then JOk (JBool True) (drop 4 (c # cs))
            else if take 5 (c # cs) = ''false'' then JOk (JBool False) (drop 5 (c # cs))
            else JErr (''Expected '' @ json_quoted ''true'' @ '' or '' @ json_quoted ''false'')
          else if c = CHR ''n'' then
            if take 4 (c # cs) = ''null'' then JOk JNull (drop 4 (c # cs))
            else JErr (''Expected '' @ json_quoted ''null'')
          else if c = CHR ''-'' \<or> c_isdigit c then json_parse_number env (c # cs)
          else JErr (''Unexpected character '' @ json_quoted [c]))"
| "json_parse_elems env 0 arr s = JFuel"
| "json_parse_elems env (Suc k) arr s =
     (case json_parse_value env k s of
        JOk val s \<Rightarrow>
          (let arr = json_append arr val in
           case json_match (CHR '','') s of
             Some s \<Rightarrow> json_parse_elems env k arr s
           | None \<Rightarrow>
               (case json_match (CHR '']'') s of
                  Some s \<Rightarrow> JOk arr s | None \<Rightarrow> JErr (''Expected '' @ json_quoted '']'' @ '' or '' @ json_quoted '','' @ '' in array'')))
      | e \<Rightarrow> e)"
| "json_parse_members env 0 obj s = JFuel"
| "json_parse_members env (Suc k) obj s =
     (case json_parse_string s of
        JOk key s \<Rightarrow>
          (case json_match (CHR '':'') s of
             None \<Rightarrow> JErr (''Expected '' @ json_quoted '':'' @ '' after object key'')
           | Some s \<Rightarrow>
               (case json_parse_value env k s of
                  JOk val s \<Rightarrow>
                    (let obj = json_set obj key val in
                     case json_match (CHR '','') s of
                       Some s \<Rightarrow> json_parse_members env k obj s
                     | None \<Rightarrow>
                         (case json_match (CHR ''}'') s of
                            Some s \<Rightarrow> JOk obj s | None \<Rightarrow> JErr (''Expected '' @ json_quoted ''}'' @ '' or '' @ json_quoted '','' @ '' in object'')))
                | e \<Rightarrow> e))
      | JErr e \<Rightarrow> JErr e | JOob \<Rightarrow> JOob | JFuel \<Rightarrow> JFuel)"

text \<open>The fuel of a whole parse: every nested call but the first two is paid for by a
  character of the input.\<close>

definition json_fuel :: "string \<Rightarrow> nat" where
  "json_fuel input = 2 * length input + 2"

text \<open>The result, the NULL tree being None, and the message stored in \<open>*error_msg\<close>.\<close>

datatype 'n json_outcome = JParsed "'n json" | JFailed "string option" | JOverrun | JNoFuel

definition json_parse :: "'n json_num \<Rightarrow> string \<Rightarrow> 'n json_outcome" where
  "json_parse env input =
     (case json_parse_value env (json_fuel input) input of
        JOk v r \<Rightarrow> if skip_ws r \<noteq> [] then JFailed None else JParsed v
      | JErr e \<Rightarrow> JFailed (Some (take 255 e))
      | JOob \<Rightarrow> JOverrun
      | JFuel \<Rightarrow> JNoFuel)"

section \<open>The serializer\<close>

definition json_hex_digit :: "int \<Rightarrow> char" where
  "json_hex_digit d = char_of (if d < 10 then 48 + d else 87 + d)"

text \<open>\<open>\u%04x\<close> for a byte below 32.\<close>

definition json_u_escape :: "char \<Rightarrow> string" where
  "json_u_escape c = [CHR 0x5C, CHR ''u'', CHR ''0'', CHR ''0'',
     json_hex_digit (of_char c div 16), json_hex_digit (of_char c mod 16)]"

definition ser_char :: "char \<Rightarrow> string" where
  "ser_char c =
     (if c = CHR 0x22 then [CHR 0x5C, CHR 0x22]
      else if c = CHR 0x5C then [CHR 0x5C, CHR 0x5C]
      else if c = CHR 8 then [CHR 0x5C, CHR ''b'']
      else if c = CHR 12 then [CHR 0x5C, CHR ''f'']
      else if c = CHR 10 then [CHR 0x5C, CHR ''n'']
      else if c = CHR 13 then [CHR 0x5C, CHR ''r'']
      else if c = CHR 9 then [CHR 0x5C, CHR ''t'']
      else if (of_char c :: int) < 32 then json_u_escape c
      else [c])"

definition ser_put_escaped :: "string \<Rightarrow> string" where
  "ser_put_escaped str = CHR 0x22 # concat (map ser_char str) @ [CHR 0x22]"

definition ser_number :: "'n json_num \<Rightarrow> 'n \<Rightarrow> string" where
  "ser_number env n = (if jn_is_llong env n then jn_fmt0 env n else jn_fmt17 env n)"

text \<open>The newline and the blanks before an element or a closing bracket.\<close>

definition ser_indent :: "nat \<Rightarrow> nat \<Rightarrow> string" where
  "ser_indent indent depth = (if indent > 0 then CHR 10 # replicate (depth * indent) (CHR '' '') else [])"

fun ser_node :: "'n json_num \<Rightarrow> 'n json \<Rightarrow> nat \<Rightarrow> nat \<Rightarrow> string"
  and ser_elems :: "'n json_num \<Rightarrow> bool \<Rightarrow> 'n json list \<Rightarrow> nat \<Rightarrow> nat \<Rightarrow> string"
  and ser_members :: "'n json_num \<Rightarrow> bool \<Rightarrow> (string \<times> 'n json) list \<Rightarrow> nat \<Rightarrow> nat \<Rightarrow> string"
where
  "ser_node env JNull depth indent = ''null''"
| "ser_node env (JBool b) depth indent = (if b then ''true'' else ''false'')"
| "ser_node env (JNumber n) depth indent = ser_number env n"
| "ser_node env (JString s) depth indent = ser_put_escaped s"
| "ser_node env (JArray xs) depth indent =
     ''['' @ ser_elems env True xs depth indent
     @ (if xs \<noteq> [] then ser_indent indent depth else []) @ '']''"
| "ser_node env (JObject kvs) depth indent =
     ''{'' @ ser_members env True kvs depth indent
     @ (if kvs \<noteq> [] then ser_indent indent depth else []) @ ''}''"
| "ser_elems env first [] depth indent = []"
| "ser_elems env first (x # xs) depth indent =
     (if first then [] else '','') @ ser_indent indent (depth + 1)
     @ ser_node env x (depth + 1) indent @ ser_elems env False xs depth indent"
| "ser_members env first [] depth indent = []"
| "ser_members env first ((k, v) # kvs) depth indent =
     (if first then [] else '','') @ ser_indent indent (depth + 1)
     @ ser_put_escaped k @ (if indent > 0 then '': '' else '':'')
     @ ser_node env v (depth + 1) indent @ ser_members env False kvs depth indent"

definition json_serialize :: "'n json_num \<Rightarrow> 'n json \<Rightarrow> string" where
  "json_serialize env node = ser_node env node 0 0"

definition json_serialize_pretty :: "'n json_num \<Rightarrow> 'n json \<Rightarrow> int \<Rightarrow> string" where
  "json_serialize_pretty env node indent = ser_node env node 0 (if indent > 0 then nat indent else 2)"

text \<open>The public escaper; it has no \<open>\b\<close> and \<open>\f\<close> case.\<close>

definition json_escape_char :: "char \<Rightarrow> string" where
  "json_escape_char c =
     (if c = CHR 0x22 then [CHR 0x5C, CHR 0x22]
      else if c = CHR 0x5C then [CHR 0x5C, CHR 0x5C]
      else if c = CHR 10 then [CHR 0x5C, CHR ''n'']
      else if c = CHR 13 then [CHR 0x5C, CHR ''r'']
      else if c = CHR 9 then [CHR 0x5C, CHR ''t'']
      else if (of_char c :: int) < 32 then json_u_escape c
      else [c])"

text \<open>The size computed by the first loop, and the bytes written by the second.\<close>

definition json_escape_need :: "string \<Rightarrow> nat" where
  "json_escape_need s = fold (\<lambda>c need. need +
     (if c = CHR 0x22 \<or> c = CHR 0x5C \<or> c = CHR 10 \<or> c = CHR 13 \<or> c = CHR 9 then 2
      else if (of_char c :: int) < 32 then 6 else 1)) s 1"

definition json_escape_string :: "string \<Rightarrow> string" where
  "json_escape_string s = CHR 0x22 # concat (map json_escape_char s) @ [CHR 0x22]"

section \<open>JSON pointers\<close>

text \<open>\<open>unescape_token\<close>: at most \<open>cap\<close> characters are written.\<close>

fun unescape_token :: "string \<Rightarrow> nat \<Rightarrow> string" where
  "unescape_token [] cap = []"
| "unescape_token (c # cs) 0 = []"
| "unescape_token (c # cs) (Suc cap) =
     (if c = CHR ''~'' \<and> cs \<noteq> [] then
        if cs ! 0 = CHR ''0'' then CHR ''~'' # unescape_token (drop 1 cs) cap
        else if cs ! 0 = CHR ''1'' then CHR ''/'' # unescape_token (drop 1 cs) cap
        else CHR ''~'' # unescape_token cs cap
      else c # unescape_token cs cap)"

definition json_pointer_step :: "'n json \<Rightarrow> string \<Rightarrow> 'n json option" where
  "json_pointer_step cur tok = (case cur of
      JObject _ \<Rightarrow> json_obj_get cur (unescape_token tok 255)
    | JArray _ \<Rightarrow>
        (let idx_buf = take 31 tok; (idx, endp) = c_strtol 10 idx_buf in
         if endp = idx_buf \<or> idx < 0 \<or> nat idx \<ge> json_len cur then None
         else json_get cur (nat idx))
    | _ \<Rightarrow> None)"

lemma length_drop_dropWhile: "p \<noteq> [] \<Longrightarrow> length (dropWhile P p) - Suc 0 < length p"
  using length_dropWhile_le [of P p] by (cases p) (auto simp: Suc_le_eq)

function json_pointer_walk :: "'n json \<Rightarrow> string \<Rightarrow> 'n json option" where
  "json_pointer_walk cur p =
     (if p = [] then Some cur
      else let tok = takeWhile (\<lambda>c. c \<noteq> CHR ''/'') p; end = dropWhile (\<lambda>c. c \<noteq> CHR ''/'') p
        in case json_pointer_step cur tok of
             None \<Rightarrow> None
           | Some cur \<Rightarrow> json_pointer_walk cur (drop 1 end))"
  by pat_completeness auto
termination
  by (relation "measure (\<lambda>(cur, p). length p)") (simp_all add: length_drop_dropWhile)

declare json_pointer_walk.simps [simp del]

definition json_pointer_get :: "'n json \<Rightarrow> string \<Rightarrow> 'n json option" where
  "json_pointer_get root path =
     (if path = [] then Some root
      else if path ! 0 \<noteq> CHR ''/'' then None
      else json_pointer_walk root (drop 1 path))"

end
