(* ===== verification/Json_Correct.thy ===== *)
theory Json_Correct
  imports Json "HOL-Library.Sublist"
begin

text \<open>
  Correctness of \<^verbatim>\<open>lib/libjson/json.c\<close>: every successful parse consumes input, so the fuel of
  \<open>json_parse\<close> is enough; serialized trees parse back (\<open>parses_back\<close>, by induction on the
  tree); parsed objects have distinct keys; and the string buffer is overrun by \<open>\u\<close>
  escapes only. Objects behave as insertion-ordered dictionaries.
\<close>

section \<open>The scanner\<close>

lemma length_skip_ws: "length (skip_ws s) \<le> length s"
  by (simp add: skip_ws_def length_dropWhile_le)

lemma json_match_shorter: "json_match c s = Some r \<Longrightarrow> length r < length s"
  using length_skip_ws [of s] by (auto simp: json_match_def split: list.splits if_splits)

lemma json_string_loop_shorter:
  "json_string_loop s cap buf = JOk b r \<Longrightarrow> length r \<le> length s"
proof (induction s cap buf rule: json_string_loop.induct)
  case (1 s cap buf)
  show ?case
  proof (cases s)
    case Nil
    then show ?thesis using 1(2) by (subst (asm) json_string_loop.simps) (auto split: if_splits)
  next
    case (Cons c cs)
    define cap' where "cap' = (if length buf \<ge> cap - 1 then cap * 2 else cap)"
    show ?thesis
    proof (cases "c = CHR 0x22")
      case True
      then show ?thesis using 1(2) Cons by (subst (asm) json_string_loop.simps) (auto split: if_splits)
    next
      case False
      then obtain bs r' where st: "json_string_step c cs = JOk bs r'" "\<not> length buf + length bs > cap'"
        "json_string_loop r' cap' (buf @ bs) = JOk b r"
        using 1(2) Cons by (subst (asm) json_string_loop.simps) (auto simp: Let_def cap'_def split: jres.splits if_splits)
      then have "length r \<le> length r'" using 1(1) [OF Cons False cap'_def st(1,2)] by simp
      then show ?thesis using json_string_step_shorter [OF st(1)] Cons by simp
    qed
  qed
qed

lemma json_parse_string_shorter:
  "json_parse_string s = JOk b r \<Longrightarrow> length r + 2 \<le> length s"
  by (auto simp: json_parse_string_def split: option.splits jres.splits
      dest!: json_match_shorter json_string_loop_shorter)

lemma json_string_step_no_fuel: "json_string_step c cs \<noteq> JFuel" "json_string_step c cs \<noteq> JOob"
  by (auto simp: json_string_step_def split: list.splits option.splits)

lemma json_string_loop_no_fuel: "json_string_loop s cap buf \<noteq> JFuel"
proof (induction s cap buf rule: json_string_loop.induct)
  case (1 s cap buf)
  then show ?case
    by (subst json_string_loop.simps)
       (auto simp: Let_def json_string_step_no_fuel split: list.split jres.split)
qed

lemma json_parse_string_no_fuel [simp]: "json_parse_string s \<noteq> JFuel"
  using json_string_loop_no_fuel by (auto simp: json_parse_string_def split: option.splits jres.splits)

lemma json_opt_split: "json_opt cs s = (a, r) \<Longrightarrow> s = a @ r"
  by (auto simp: json_opt_def split: list.splits if_splits)

lemma json_digits_split: "json_digits s = (a, r) \<Longrightarrow> s = a @ r"
  by (auto simp: json_digits_def)

lemma json_scan_number_split: "json_scan_number s = (tok, r) \<Longrightarrow> s = tok @ r"
  unfolding json_scan_number_def Let_def
  by (auto split: prod.splits if_splits dest!: json_opt_split json_digits_split)

lemma json_scan_number_shorter:
  assumes "c = CHR ''-'' \<or> c_isdigit c" "json_scan_number (c # cs) = (tok, r)"
  shows "length r \<le> length cs"
proof -
  have "tok \<noteq> []"
  proof (cases "c = CHR ''-''")
    case True
    then show ?thesis using assms(2)
      by (auto simp: json_scan_number_def Let_def json_opt_def [of "[CHR ''-'']"] split: prod.splits)
  next
    case False
    then have "c_isdigit c" using assms(1) by simp
    then have "fst (json_digits (c # cs)) \<noteq> []" by (simp add: json_digits_def)
    then show ?thesis using assms(2) False
      by (auto simp: json_scan_number_def Let_def json_opt_def [of "[CHR ''-'']"] split: prod.splits)
  qed
  then show ?thesis using json_scan_number_split [OF assms(2)] by (cases tok) auto
qed

section \<open>Every successful parse consumes input\<close>

lemma json_parse_shorter:
  "(\<forall>s v r. json_parse_value env k s = JOk v r \<longrightarrow> length r < length s) \<and>
   (\<forall>arr s v r. json_parse_elems env k arr s = JOk v r \<longrightarrow> length r < length s) \<and>
   (\<forall>obj s v r. json_parse_members env k obj s = JOk v r \<longrightarrow> length r < length s)"
proof (induction k)
  case (Suc k)
  have v: "length r < length s" if p: "json_parse_value env (Suc k) s = JOk v r" for s v r
  proof (cases "skip_ws s")
    case Nil
    then show ?thesis using p by simp
  next
    case (Cons c cs)
    then have l: "Suc (length cs) \<le> length s" using length_skip_ws [of s] by simp
    have obj: "length r \<le> length cs"
      if "(case json_match (CHR ''}'') cs of Some r \<Rightarrow> JOk (JObject []) r
           | None \<Rightarrow> json_parse_members env k (JObject []) cs) = JOk v r"
      using that Suc.IH by (force split: option.splits dest: json_match_shorter)
    have arr: "length r \<le> length cs"
      if "(case json_match (CHR '']'') cs of Some r \<Rightarrow> JOk (JArray []) r
           | None \<Rightarrow> json_parse_elems env k (JArray []) cs) = JOk v r"
      using that Suc.IH by (force split: option.splits dest: json_match_shorter)
    have num: "length r \<le> length cs"
      if "c = CHR ''-'' \<or> c_isdigit c" "json_parse_number env (c # cs) = JOk v r"
      using that json_scan_number_shorter [of c cs] by (auto simp: json_parse_number_def split: prod.splits if_splits)
    have str: "length r \<le> length cs" if "json_parse_string (c # cs) = JOk b r" for b
      using json_parse_string_shorter [OF that] by simp
    have "length r \<le> length cs"
      using p Cons obj arr num str
      by (auto split: if_splits jres.splits)
    then show ?thesis using l by simp
  qed
  moreover have "length r < length s" if p: "json_parse_elems env (Suc k) arr s = JOk v r" for arr s v r
    using p Suc.IH by (fastforce simp: Let_def split: jres.splits option.splits dest!: json_match_shorter)
  moreover have "length r < length s" if p: "json_parse_members env (Suc k) obj s = JOk v r" for obj s v r
    using p Suc.IH
    by (fastforce simp: Let_def split: jres.splits option.splits dest!: json_match_shorter json_parse_string_shorter)
  ultimately show ?case by blast
qed simp

section \<open>Fuel\<close>

lemma json_parse_number_no_fuel [simp]: "json_parse_number env s \<noteq> JFuel"
  by (auto simp: json_parse_number_def split: prod.split)

lemma json_fuel_enough_step:
  "(\<forall>s. 2 * length s + 1 \<le> k \<longrightarrow> json_parse_value env k s \<noteq> JFuel) \<and>
   (\<forall>arr s. 2 * length s + 2 \<le> k \<longrightarrow> json_parse_elems env k arr s \<noteq> JFuel) \<and>
   (\<forall>obj s. 2 * length s + 2 \<le> k \<longrightarrow> json_parse_members env k obj s \<noteq> JFuel)"
proof (induction k)
  case (Suc k)
  have IHv: "json_parse_value env k s \<noteq> JFuel" if "2 * length s + 1 \<le> k" for s
    using Suc.IH that by blast
  have IHe: "json_parse_elems env k arr s \<noteq> JFuel" if "2 * length s + 2 \<le> k" for arr s
    using Suc.IH that by blast
  have IHm: "json_parse_members env k obj s \<noteq> JFuel" if "2 * length s + 2 \<le> k" for obj s
    using Suc.IH that by blast
  have "json_parse_value env (Suc k) s \<noteq> JFuel" if l: "2 * length s + 1 \<le> Suc k" for s
  proof (cases "skip_ws s")
    case (Cons c cs)
    then have "Suc (length cs) \<le> length s" using length_skip_ws [of s] by simp
    then have "2 * length cs + 2 \<le> k" using l by simp
    with IHe IHm Cons show ?thesis by (auto split: option.split jres.split)
  qed simp
  moreover have "json_parse_elems env (Suc k) arr s \<noteq> JFuel" if l: "2 * length s + 2 \<le> Suc k" for arr s
  proof -
    have v: "json_parse_value env k s \<noteq> JFuel" using l by (intro IHv) simp
    have "json_parse_elems env k arr' s'' \<noteq> JFuel"
      if "json_parse_value env k s = JOk val s'" "json_match (CHR '','') s' = Some s''" for val s' s'' arr'
    proof (rule IHe)
      have "length s' < length s" using that(1) json_parse_shorter [of env k] by blast
      moreover have "length s'' < length s'" using that(2) by (rule json_match_shorter)
      ultimately show "2 * length s'' + 2 \<le> k" using l by simp
    qed
    then show ?thesis using v by (auto simp: Let_def split: option.split jres.split)
  qed
  moreover have "json_parse_members env (Suc k) obj s \<noteq> JFuel" if l: "2 * length s + 2 \<le> Suc k" for obj s
  proof -
    have v: "json_parse_value env k s2 \<noteq> JFuel"
      if "json_parse_string s = JOk key s1" "json_match (CHR '':'') s1 = Some s2" for key s1 s2
      using json_parse_string_shorter [OF that(1)] json_match_shorter [OF that(2)] l by (intro IHv) simp
    have "json_parse_members env k obj' s4 \<noteq> JFuel"
      if "json_parse_string s = JOk key s1" "json_match (CHR '':'') s1 = Some s2"
        "json_parse_value env k s2 = JOk val s3" "json_match (CHR '','') s3 = Some s4" for key val s1 s2 s3 s4 obj'
    proof (rule IHm)
      have "length s3 < length s2" using that(3) json_parse_shorter [of env k] by blast
      then show "2 * length s4 + 2 \<le> k"
        using json_parse_string_shorter [OF that(1)] json_match_shorter [OF that(2)]
          json_match_shorter [OF that(4)] l by simp
    qed
    then show ?thesis using v by (auto simp: Let_def split: option.split jres.split)
  qed
  ultimately show ?case by blast
qed simp

lemma json_fuel_enough: "json_fuel s \<le> k \<Longrightarrow> json_parse_value env k s \<noteq> JFuel"
  using json_fuel_enough_step [of k env] by (auto simp: json_fuel_def)

lemma json_fuel_mono_step:
  "(\<forall>s. json_parse_value env k s \<noteq> JFuel \<longrightarrow> json_parse_value env (Suc k) s = json_parse_value env k s) \<and>
   (\<forall>arr s. json_parse_elems env k arr s \<noteq> JFuel \<longrightarrow> json_parse_elems env (Suc k) arr s = json_parse_elems env k arr s) \<and>
   (\<forall>obj s. json_parse_members env k obj s \<noteq> JFuel \<longrightarrow> json_parse_members env (Suc k) obj s = json_parse_members env k obj s)"
proof (induction k)
  case (Suc k)
  have IHv: "json_parse_value env (Suc k) s = json_parse_value env k s"
    if "json_parse_value env k s \<noteq> JFuel" for s
    using Suc.IH that by blast
  have IHe: "json_parse_elems env (Suc k) arr s = json_parse_elems env k arr s"
    if "json_parse_elems env k arr s \<noteq> JFuel" for arr s
    using Suc.IH that by blast
  have IHm: "json_parse_members env (Suc k) obj s = json_parse_members env k obj s"
    if "json_parse_members env k obj s \<noteq> JFuel" for obj s
    using Suc.IH that by blast
  have "json_parse_value env (Suc (Suc k)) s = json_parse_value env (Suc k) s"
    if nf: "json_parse_value env (Suc k) s \<noteq> JFuel" for s
  proof (cases "skip_ws s")
    case (Cons c cs)
    have "c = CHR ''['' \<Longrightarrow> json_match (CHR '']'') cs = None \<Longrightarrow>
      json_parse_elems env (Suc k) (JArray []) cs = json_parse_elems env k (JArray []) cs"
      by (rule IHe) (use nf Cons in simp)
    moreover have "c = CHR ''{'' \<Longrightarrow> json_match (CHR ''}'') cs = None \<Longrightarrow>
      json_parse_members env (Suc k) (JObject []) cs = json_parse_members env k (JObject []) cs"
      by (rule IHm) (use nf Cons in simp)
    ultimately show ?thesis
      using Cons unfolding json_parse_value.simps(2) by (simp split: option.split)
  qed simp
  moreover have "json_parse_elems env (Suc (Suc k)) arr s = json_parse_elems env (Suc k) arr s"
    if nf: "json_parse_elems env (Suc k) arr s \<noteq> JFuel" for arr s
  proof -
    have v: "json_parse_value env (Suc k) s = json_parse_value env k s"
      by (rule IHv) (use nf in auto)
    have "json_parse_elems env (Suc k) (json_append arr val) s'' = json_parse_elems env k (json_append arr val) s''"
      if "json_parse_value env k s = JOk val s'" "json_match (CHR '','') s' = Some s''" for val s' s''
      by (rule IHe) (use nf that in \<open>simp add: Let_def\<close>)
    then show ?thesis
      unfolding json_parse_elems.simps(2) v by (simp add: Let_def split: option.split jres.split)
  qed
  moreover have "json_parse_members env (Suc (Suc k)) obj s = json_parse_members env (Suc k) obj s"
    if nf: "json_parse_members env (Suc k) obj s \<noteq> JFuel" for obj s
  proof -
    have v: "json_parse_value env (Suc k) s2 = json_parse_value env k s2"
      if "json_parse_string s = JOk key s1" "json_match (CHR '':'') s1 = Some s2" for key s1 s2
      by (rule IHv) (use nf that in auto)
    have "json_parse_members env (Suc k) (json_set obj key val) s4 = json_parse_members env k (json_set obj key val) s4"
      if "json_parse_string s = JOk key s1" "json_match (CHR '':'') s1 = Some s2"
        "json_parse_value env k s2 = JOk val s3" "json_match (CHR '','') s3 = Some s4" for key val s1 s2 s3 s4
      by (rule IHm) (use nf that in \<open>simp add: Let_def\<close>)
    with v show ?thesis
      unfolding json_parse_members.simps(2) by (simp add: Let_def split: option.split jres.split)
  qed
  ultimately show ?case by blast
qed simp

lemma json_fuel_mono:
  assumes "json_parse_value env k s \<noteq> JFuel" "k \<le> k'"
  shows "json_parse_value env k' s = json_parse_value env k s"
  using assms(2)
proof (induction k' rule: dec_induct)
  case (step n)
  then show ?case using json_fuel_mono_step [of env n] assms(1) by metis
qed simp

lemma json_parse_any_fuel:
  assumes "json_parse_value env k s = JOk v r" "json_parse_value env (json_fuel s) s \<noteq> JFuel"
  shows "json_parse_value env (json_fuel s) s = JOk v r"
  using json_fuel_mono [of env k s "max k (json_fuel s)"] json_fuel_mono [OF assms(2), of "max k (json_fuel s)"] assms
  by simp

section \<open>Texts that parse back\<close>

definition json_nul_free :: "string \<Rightarrow> bool" where
  "json_nul_free s \<longleftrightarrow> (\<forall>c \<in> set s. c \<noteq> CHR 0x00)"

text \<open>What is assumed of \<open>printf\<close> and \<open>strtod\<close> at a number: its text is one JSON number
  token of at most 127 characters, and \<open>strtod\<close> reads the number back.\<close>

definition json_num_ok :: "'n json_num \<Rightarrow> 'n \<Rightarrow> bool" where
  "json_num_ok env n \<longleftrightarrow> (let t = ser_number env n in
     t \<noteq> [] \<and> (t ! 0 = CHR ''-'' \<or> c_isdigit (t ! 0)) \<and> length t < 128
     \<and> json_scan_number t = (t, []) \<and> fst (jn_strtod env t) = n)"

fun json_wf :: "'n json_num \<Rightarrow> 'n json \<Rightarrow> bool" where
  "json_wf env JNull \<longleftrightarrow> True"
| "json_wf env (JBool b) \<longleftrightarrow> True"
| "json_wf env (JNumber n) \<longleftrightarrow> json_num_ok env n"
| "json_wf env (JString s) \<longleftrightarrow> json_nul_free s"
| "json_wf env (JArray xs) \<longleftrightarrow> (\<forall>x \<in> set xs. json_wf env x)"
| "json_wf env (JObject kvs) \<longleftrightarrow> distinct (map fst kvs)
     \<and> (\<forall>kv \<in> set kvs. json_nul_free (fst kv) \<and> json_wf env (snd kv))"

text \<open>What may follow a value: nothing that would extend a number.\<close>

definition json_delim :: "string \<Rightarrow> bool" where
  "json_delim r \<longleftrightarrow> (case r of [] \<Rightarrow> True
     | c # _ \<Rightarrow> \<not> c_isdigit c \<and> c \<notin> set ''.eE+-'')"

lemma json_opt_append:
  "json_delim r \<Longrightarrow> set cs \<subseteq> set ''.eE+-'' \<Longrightarrow> json_opt cs (t @ r) = apsnd (\<lambda>u. u @ r) (json_opt cs t)"
  by (cases t; cases r) (auto simp: json_opt_def json_delim_def)

lemma json_digits_append:
  "json_delim r \<Longrightarrow> json_digits (t @ r) = apsnd (\<lambda>u. u @ r) (json_digits t)"
  by (cases r) (auto simp: json_digits_def json_delim_def takeWhile_append dropWhile_append
      takeWhile_eq_all_conv [THEN iffD2])

lemma json_scan_number_append:
  assumes "json_delim r"
  shows "json_scan_number (t @ r) = apsnd (\<lambda>u. u @ r) (json_scan_number t)"
proof -
  note ap = json_opt_append [OF assms] json_digits_append [OF assms]
  obtain m s1 where 1: "json_opt [CHR ''-''] t = (m, s1)" by force
  obtain i s2 where 2: "json_digits s1 = (i, s2)" by force
  obtain p s3 where 3: "json_opt [CHR ''.''] s2 = (p, s3)" by force
  obtain f s4 where 4: "(if p = [] then ([], s3) else json_digits s3) = (f, s4)" by force
  have b4: "(if p = [] then ([], s3 @ r) else json_digits (s3 @ r)) = (f, s4 @ r)"
    using 4 by (auto simp: ap split: if_splits)
  obtain e s5 where 5: "json_opt [CHR ''e'', CHR ''E''] s4 = (e, s5)" by force
  obtain g s6 where 6: "(if e = [] then ([], s5) else json_opt [CHR ''+'', CHR ''-''] s5) = (g, s6)" by force
  have b6: "(if e = [] then ([], s5 @ r) else json_opt [CHR ''+'', CHR ''-''] (s5 @ r)) = (g, s6 @ r)"
    using 6 by (auto simp: ap split: if_splits)
  obtain x s7 where 7: "(if e = [] then ([], s6) else json_digits s6) = (x, s7)" by force
  have b7: "(if e = [] then ([], s6 @ r) else json_digits (s6 @ r)) = (x, s7 @ r)"
    using 7 by (auto simp: ap split: if_splits)
  have "json_scan_number t = (m @ i @ p @ f @ e @ g @ x, s7)"
    unfolding json_scan_number_def Let_def 1 2 3 split_conv 4 5 6 7 ..
  moreover have "json_scan_number (t @ r) = (m @ i @ p @ f @ e @ g @ x, s7 @ r)"
    using ap(1) [of "[CHR ''-'']" t] ap(2) [of s1] ap(1) [of "[CHR ''.'']" s2]
      ap(1) [of "[CHR ''e'', CHR ''E'']" s4]
    unfolding json_scan_number_def Let_def by (simp add: 1 2 3 5 b4 b6 b7)
  ultimately show ?thesis by simp
qed

lemma json_parse_number_token:
  assumes "json_num_ok env n" "json_delim r"
  shows "json_parse_number env (ser_number env n @ r) = JOk (JNumber n) r"
  using assms json_scan_number_append [OF assms(2), of "ser_number env n"]
  by (simp add: json_parse_number_def json_num_ok_def Let_def)

section \<open>Strings\<close>

lemma json_hex_digit_val: "0 \<le> d \<Longrightarrow> d < 16 \<Longrightarrow> c_digit_val (json_hex_digit d) = d"
  by (simp add: c_digit_val_def json_hex_digit_def c_tolower_def Let_def)

lemma c_digit_val_0: "c_digit_val (CHR ''0'') = 0"
  by (simp add: c_digit_val_def c_tolower_def)

lemma c_strtol_hex4:
  assumes "0 \<le> i" "i < 256"
  shows "fst (c_strtol 16 [CHR ''0'', CHR ''0'', json_hex_digit (i div 16), json_hex_digit (i mod 16)]) = i"
proof -
  have "c_digit_val (json_hex_digit (i div 16)) = i div 16"
    by (rule json_hex_digit_val) (use assms in auto)
  moreover have "c_digit_val (json_hex_digit (i mod 16)) = i mod 16"
    by (rule json_hex_digit_val) auto
  moreover have "i div 16 < 16" "i mod 16 < 16" using assms by auto
  moreover have "c_isspace (CHR ''0'') = False" "c_tolower (CHR ''0'') = CHR ''0''"
    by (simp_all add: c_isspace_def c_tolower_def)
  moreover have "i div 16 * 16 + i mod 16 = i" by simp
  ultimately show ?thesis using assms by (simp add: c_strtol_def Let_def c_digit_val_0)
qed

lemma json_step_u_escape:
  assumes "(of_char c :: int) < 32" "c \<noteq> CHR 0x00"
  shows "\<exists>ds. json_u_escape c @ t = CHR 0x5C # ds \<and> json_string_step (CHR 0x5C) ds = JOk [c] t"
proof -
  have v: "fst (c_strtol 16 [CHR ''0'', CHR ''0'', json_hex_digit (of_char c div 16), json_hex_digit (of_char c mod 16)])
      = of_char c"
    using assms(1) by (intro c_strtol_hex4) auto
  have "json_byte (of_char c) = c" by (simp add: json_byte_def)
  then show ?thesis using v assms(1)
    by (simp add: json_u_escape_def json_string_step_def json_unicode_def json_encode_cp_def Let_def)
qed

text \<open>An escaper whose output for one character is one step of the parser's string loop.\<close>

definition json_escaper :: "(char \<Rightarrow> string) \<Rightarrow> bool" where
  "json_escaper esc \<longleftrightarrow> (\<forall>c t. c \<noteq> CHR 0x00 \<longrightarrow>
     (\<exists>d ds. esc c @ t = d # ds \<and> d \<noteq> CHR 0x22 \<and> json_string_step d ds = JOk [c] t))"

lemma ser_char_escaper: "json_escaper ser_char" "json_escaper json_escape_char"
proof -
  have plain: "json_string_step c t = JOk [c] t" if "c \<noteq> CHR 0x5C" for c t
    using that by (simp add: json_string_step_def)
  have u: "\<exists>d ds. json_u_escape c @ t = d # ds \<and> d \<noteq> CHR 0x22 \<and> json_string_step d ds = JOk [c] t"
    if "(of_char c :: int) < 32" "c \<noteq> CHR 0x00" for c t
    using json_step_u_escape [OF that, of t] by auto
  show "json_escaper ser_char"
    unfolding json_escaper_def ser_char_def using u plain
    by (auto simp: json_string_step_def json_unescape_def)
  show "json_escaper json_escape_char"
    unfolding json_escaper_def json_escape_char_def using u plain
    by (auto simp: json_string_step_def json_unescape_def)
qed

lemma json_string_loop_escaped:
  assumes esc: "json_escaper esc"
  shows "json_nul_free s \<Longrightarrow> length buf < cap \<Longrightarrow> 2 \<le> cap \<Longrightarrow>
    json_string_loop (concat (map esc s) @ CHR 0x22 # r) cap buf = JOk (buf @ s) (CHR 0x22 # r)"
proof (induction s arbitrary: buf cap)
  case Nil
  then show ?case by (subst json_string_loop.simps) simp
next
  case (Cons c s)
  define t where "t = concat (map esc s) @ CHR 0x22 # r"
  define cap' where "cap' = (if length buf \<ge> cap - 1 then cap * 2 else cap)"
  have "c \<noteq> CHR 0x00" "json_nul_free s" using Cons(2) by (auto simp: json_nul_free_def)
  then obtain d ds where d: "esc c @ t = d # ds" "d \<noteq> CHR 0x22" "json_string_step d ds = JOk [c] t"
    using esc unfolding json_escaper_def by blast
  have l: "length buf + 1 < cap'" "2 \<le> cap'" using Cons(3,4) by (auto simp: cap'_def)
  have "json_string_loop (esc c @ t) cap buf = json_string_loop t cap' (buf @ [c])"
    using d l by (subst json_string_loop.simps) (auto simp: Let_def cap'_def)
  also have "\<dots> = JOk ((buf @ [c]) @ s) (CHR 0x22 # r)"
    unfolding t_def by (rule Cons.IH) (use l \<open>json_nul_free s\<close> in simp_all)
  finally show ?case by (simp add: t_def)
qed

text \<open>White space before a token.\<close>

definition json_ws :: "string \<Rightarrow> bool" where
  "json_ws w \<longleftrightarrow> (\<forall>c \<in> set w. (of_char c :: int) \<le> 32)"

lemma skip_ws_append: "json_ws w \<Longrightarrow> skip_ws (w @ s) = skip_ws s"
  by (auto simp: json_ws_def skip_ws_def dropWhile_append)

lemma skip_ws_Cons: "skip_ws (c # s) = (if (of_char c :: int) \<le> 32 then skip_ws s else c # s)"
  by (simp add: skip_ws_def)

lemma json_match_ws: "json_ws w \<Longrightarrow> json_match c (w @ s) = json_match c s"
  by (simp add: json_match_def skip_ws_append)

lemma json_match_Cons: "(of_char d :: int) > 32 \<Longrightarrow> json_match c (d # s) = (if d = c then Some s else None)"
  by (simp add: json_match_def skip_ws_Cons)

lemma ser_indent_ws: "json_ws (ser_indent indent depth)"
  by (auto simp: json_ws_def ser_indent_def)

lemma json_value_ws: "json_ws w \<Longrightarrow> json_parse_value env k (w @ s) = json_parse_value env k s"
  by (cases k) (simp_all add: skip_ws_append)

lemma json_parse_string_escaped:
  assumes "json_escaper esc" "json_nul_free s"
  shows "json_parse_string (CHR 0x22 # concat (map esc s) @ CHR 0x22 # r) = JOk s r"
proof -
  have "c_str s = s" using assms(2) by (auto simp: c_str_def json_nul_free_def)
  then show ?thesis using json_string_loop_escaped [OF assms, of "[]" 64 r]
    by (simp add: json_parse_string_def json_match_Cons)
qed

lemma json_parse_string_ser:
  "json_nul_free s \<Longrightarrow> json_ws w \<Longrightarrow> json_parse_string (w @ ser_put_escaped s @ r) = JOk s r"
  using json_parse_string_escaped [OF ser_char_escaper(1), of s r]
  by (simp add: ser_put_escaped_def json_parse_string_def json_match_ws)

section \<open>Parsing a serialized tree\<close>

text \<open>\<open>v\<close> parses back from its text in any context that does not extend a number.\<close>

definition parses_back :: "'n json_num \<Rightarrow> 'n json \<Rightarrow> bool" where
  "parses_back env v \<longleftrightarrow> (\<forall>d i r. json_delim r \<longrightarrow>
     (\<exists>k. \<forall>k' \<ge> k. json_parse_value env k' (ser_node env v d i @ r) = JOk v r))"

lemma parses_backD:
  assumes "parses_back env v" "json_delim r" "json_ws w"
  obtains k where "\<And>k'. k \<le> k' \<Longrightarrow> json_parse_value env k' (w @ ser_node env v d i @ r) = JOk v r"
  using assms json_value_ws [OF assms(3)] unfolding parses_back_def by metis

lemma json_delim_Cons [simp]:
  "json_delim (CHR '','' # r)" "json_delim (CHR '']'' # r)" "json_delim (CHR ''}'' # r)"
  by (simp_all add: json_delim_def c_isdigit_def)

lemma json_delim_indent: "json_delim s \<Longrightarrow> json_delim (ser_indent i d @ s)"
  by (simp add: json_delim_def ser_indent_def c_isdigit_def)

lemma json_match_sep [simp]:
  "json_match (CHR '','') (CHR '','' # r) = Some r"
  "json_match (CHR '','') (CHR '']'' # r) = None" "json_match (CHR '','') (CHR ''}'' # r) = None"
  "json_match (CHR '']'') (CHR '']'' # r) = Some r" "json_match (CHR ''}'') (CHR ''}'' # r) = Some r"
  "json_match (CHR '':'') (CHR '':'' # r) = Some r"
  by (simp_all add: json_match_Cons)

lemma json_ws_blank [simp]: "json_ws [CHR '' '']" "json_ws []"
  by (simp_all add: json_ws_def)

lemma ser_tail_delim:
  "json_delim (ser_elems env False xs d i @ ser_indent i d @ CHR '']'' # r)"
  "json_delim (ser_members env False kvs d i @ ser_indent i d @ CHR ''}'' # r)"
  by (cases xs; cases kvs; auto intro!: json_delim_indent)+

lemma ser_elems_parse:
  assumes "\<forall>y \<in> set (x # xs). parses_back env y"
  shows "\<exists>k. \<forall>k' \<ge> k. json_parse_elems env k' (JArray ys)
     (ser_indent i (d + 1) @ ser_node env x (d + 1) i @ ser_elems env False xs d i
        @ ser_indent i d @ CHR '']'' # r) = JOk (JArray (ys @ x # xs)) r"
  using assms
proof (induction xs arbitrary: x ys)
  case Nil
  obtain k where k: "\<And>k'. k \<le> k' \<Longrightarrow> json_parse_value env k'
      (ser_indent i (d + 1) @ ser_node env x (d + 1) i @ ser_indent i d @ CHR '']'' # r)
      = JOk x (ser_indent i d @ CHR '']'' # r)"
    by (rule parses_backD [of env x "ser_indent i d @ CHR '']'' # r" "ser_indent i (d + 1)"])
       (use Nil json_delim_indent ser_indent_ws in auto)
  show ?case
  proof (intro exI [of _ "Suc k"] allI impI)
    fix k' assume "Suc k \<le> k'"
    then obtain l where "k' = Suc l" "k \<le> l" by (cases k') auto
    then show "json_parse_elems env k' (JArray ys)
     (ser_indent i (d + 1) @ ser_node env x (d + 1) i @ ser_elems env False [] d i
        @ ser_indent i d @ CHR '']'' # r) = JOk (JArray (ys @ [x])) r"
      using k [of l] by (simp add: json_match_ws [OF ser_indent_ws] json_append_def Let_def)
  qed
next
  case (Cons y xs)
  let ?rest = "ser_indent i (d + 1) @ ser_node env y (d + 1) i @ ser_elems env False xs d i
        @ ser_indent i d @ CHR '']'' # r"
  obtain k1 where k1: "\<And>k'. k1 \<le> k' \<Longrightarrow> json_parse_value env k'
      (ser_indent i (d + 1) @ ser_node env x (d + 1) i @ CHR '','' # ?rest) = JOk x (CHR '','' # ?rest)"
    by (rule parses_backD [of env x "CHR '','' # ?rest" "ser_indent i (d + 1)"])
       (use Cons ser_indent_ws in auto)
  obtain k2 where k2: "\<And>k'. k2 \<le> k' \<Longrightarrow> json_parse_elems env k' (JArray (ys @ [x])) ?rest
      = JOk (JArray ((ys @ [x]) @ y # xs)) r"
    using Cons.IH [of y "ys @ [x]"] Cons.prems by auto
  show ?case
  proof (intro exI [of _ "Suc (max k1 k2)"] allI impI)
    fix k' assume "Suc (max k1 k2) \<le> k'"
    then obtain l where "k' = Suc l" "k1 \<le> l" "k2 \<le> l" by (cases k') auto
    then show "json_parse_elems env k' (JArray ys)
     (ser_indent i (d + 1) @ ser_node env x (d + 1) i @ ser_elems env False (y # xs) d i
        @ ser_indent i d @ CHR '']'' # r) = JOk (JArray (ys @ x # y # xs)) r"
      using k1 [of l] k2 [of l] by (simp add: json_append_def Let_def)
  qed
qed

lemma json_set_new: "key \<notin> fst ` set kvs \<Longrightarrow> json_set (JObject kvs) key v = JObject (kvs @ [(key, v)])"
proof -
  assume "key \<notin> fst ` set kvs"
  then have "json_set_fields kvs key v = kvs @ [(key, v)]" by (induction kvs) auto
  then show ?thesis by (simp add: json_set_def)
qed

lemma ser_members_parse:
  assumes "\<forall>kv \<in> set (x # kvs). json_nul_free (fst kv) \<and> parses_back env (snd kv)"
    and "distinct (map fst (ys @ x # kvs))"
  shows "\<exists>k. \<forall>k' \<ge> k. json_parse_members env k' (JObject ys)
     (ser_members env True (x # kvs) d i @ ser_indent i d @ CHR ''}'' # r) = JOk (JObject (ys @ x # kvs)) r"
  using assms
proof (induction kvs arbitrary: x ys)
  case Nil
  obtain key v where x: "x = (key, v)" by force
  let ?sep = "if 0 < i then '': '' else '':''"
  obtain k where k: "\<And>k'. k \<le> k' \<Longrightarrow> json_parse_value env k'
      ((if 0 < i then '' '' else []) @ ser_node env v (d + 1) i @ ser_indent i d @ CHR ''}'' # r)
      = JOk v (ser_indent i d @ CHR ''}'' # r)"
    by (rule parses_backD [of env v "ser_indent i d @ CHR ''}'' # r" "if 0 < i then '' '' else []"])
       (use Nil x json_delim_indent in auto)
  have key: "json_parse_string (ser_indent i (d + 1) @ ser_put_escaped key @ s) = JOk key s" for s
    by (rule json_parse_string_ser) (use Nil x ser_indent_ws in auto)
  show ?case
  proof (intro exI [of _ "Suc k"] allI impI)
    fix k' assume "Suc k \<le> k'"
    then obtain l where "k' = Suc l" "k \<le> l" by (cases k') auto
    moreover have "key \<notin> fst ` set ys" using Nil x by auto
    ultimately show "json_parse_members env k' (JObject ys)
     (ser_members env True [x] d i @ ser_indent i d @ CHR ''}'' # r) = JOk (JObject (ys @ [x])) r"
      using k [of l] key x
      by (cases "0 < i") (simp_all add: json_match_ws [OF ser_indent_ws] json_set_new Let_def)
  qed
next
  case (Cons y kvs)
  obtain key v where x: "x = (key, v)" by force
  obtain key2 v2 where y: "y = (key2, v2)" by force
  let ?rest = "ser_members env True (y # kvs) d i @ ser_indent i d @ CHR ''}'' # r"
  obtain k1 where k1: "\<And>k'. k1 \<le> k' \<Longrightarrow> json_parse_value env k'
      ((if 0 < i then '' '' else []) @ ser_node env v (d + 1) i @ CHR '','' # ?rest) = JOk v (CHR '','' # ?rest)"
    by (rule parses_backD [of env v "CHR '','' # ?rest" "if 0 < i then '' '' else []"]) (use Cons x in auto)
  obtain k2 where k2: "\<And>k'. k2 \<le> k' \<Longrightarrow> json_parse_members env k' (JObject (ys @ [x])) ?rest
      = JOk (JObject ((ys @ [x]) @ y # kvs)) r"
    using Cons.IH [of y "ys @ [x]"] Cons.prems by auto
  have key: "json_parse_string (ser_indent i (d + 1) @ ser_put_escaped key @ s) = JOk key s" for s
    by (rule json_parse_string_ser) (use Cons x ser_indent_ws in auto)
  have new: "key \<notin> fst ` set ys" using Cons.prems x by auto
  have unf: "ser_members env True (x # y # kvs) d i @ ser_indent i d @ CHR ''}'' # r =
      ser_indent i (d + 1) @ ser_put_escaped key @ (if 0 < i then '': '' else '':'')
      @ ser_node env v (d + 1) i @ CHR '','' # ?rest"
    by (simp add: x y)
  show ?case
  proof (intro exI [of _ "Suc (max k1 k2)"] allI impI)
    fix k' assume "Suc (max k1 k2) \<le> k'"
    then obtain l where "k' = Suc l" "k1 \<le> l" "k2 \<le> l" by (cases k') auto
    then show "json_parse_members env k' (JObject ys)
       (ser_members env True (x # y # kvs) d i @ ser_indent i d @ CHR ''}'' # r)
        = JOk (JObject (ys @ x # y # kvs)) r"
      unfolding unf using k1 [of l] k2 [of l] key new
      by (cases "0 < i") (simp_all add: json_set_new Let_def x del: ser_members.simps)
  qed
qed

lemma ser_node_not_close:
  assumes "json_wf env v" shows "json_match (CHR '']'') (ser_node env v d i @ s) = None"
proof (cases v)
  case (JNumber n)
  then obtain c cs where t: "ser_number env n = c # cs" "c = CHR ''-'' \<or> c_isdigit c"
    using assms by (cases "ser_number env n") (auto simp: json_num_ok_def Let_def)
  then have "(of_char c :: int) > 32" "c \<noteq> CHR '']''" by (auto simp: c_isdigit_def)
  then show ?thesis using JNumber t by (simp add: json_match_Cons)
qed (simp_all add: json_match_Cons ser_put_escaped_def)

lemma json_parses_back: "json_wf env v \<Longrightarrow> parses_back env v"
proof (induction v)
  case JNull
  have "json_parse_value env k (ser_node env JNull d i @ r) = JOk JNull r" if "Suc 0 \<le> k" for k d i r
    using that by (cases k) (simp_all add: skip_ws_Cons)
  then show ?case unfolding parses_back_def by blast
next
  case (JBool b)
  have "json_parse_value env k (ser_node env (JBool b) d i @ r) = JOk (JBool b) r" if "Suc 0 \<le> k" for k d i r
    using that by (cases k; cases b) (simp_all add: skip_ws_Cons)
  then show ?case unfolding parses_back_def by blast
next
  case (JNumber n)
  have "json_parse_value env k (ser_node env (JNumber n) d i @ r) = JOk (JNumber n) r"
    if "Suc 0 \<le> k" "json_delim r" for k d i r
  proof -
    obtain c cs where t: "ser_number env n = c # cs" "c = CHR ''-'' \<or> c_isdigit c"
      using JNumber by (cases "ser_number env n") (auto simp: json_num_ok_def Let_def)
    then have "(of_char c :: int) > 32" by (auto simp: c_isdigit_def)
    moreover have "json_parse_number env (c # cs @ r) = JOk (JNumber n) r"
      using json_parse_number_token [of env n r] JNumber that t by simp
    moreover have "c \<noteq> CHR 0x22 \<and> c \<noteq> CHR ''{'' \<and> c \<noteq> CHR ''['' \<and> c \<noteq> CHR ''t'' \<and> c \<noteq> CHR ''f'' \<and> c \<noteq> CHR ''n''"
      using t(2) by (auto simp: c_isdigit_def)
    ultimately show ?thesis using t that by (cases k) (simp_all add: skip_ws_Cons)
  qed
  then show ?case unfolding parses_back_def by blast
next
  case (JString s)
  have "json_parse_value env k (ser_node env (JString s) d i @ r) = JOk (JString s) r" if "Suc 0 \<le> k" for k d i r
    using that JString json_parse_string_ser [of s "[]" r]
    by (cases k) (simp_all add: skip_ws_Cons ser_put_escaped_def)
  then show ?case unfolding parses_back_def by blast
next
  case (JArray xs)
  show ?case
  proof (cases xs)
    case Nil
    have "json_parse_value env k (ser_node env (JArray xs) d i @ r) = JOk (JArray xs) r" if "Suc 0 \<le> k" for k d i r
      using that Nil by (cases k) (simp_all add: skip_ws_Cons)
    then show ?thesis unfolding parses_back_def by blast
  next
    case (Cons x ys)
    show ?thesis
      unfolding parses_back_def
    proof (intro allI impI)
      fix d i r
      obtain k where k: "\<And>k'. k \<le> k' \<Longrightarrow> json_parse_elems env k' (JArray [])
         (ser_indent i (d + 1) @ ser_node env x (d + 1) i @ ser_elems env False ys d i
            @ ser_indent i d @ CHR '']'' # r) = JOk (JArray xs) r"
        using ser_elems_parse [of x ys env "[]" i d r] JArray Cons by auto
      have nm: "json_match (CHR '']'') (ser_indent i (d + 1) @ ser_node env x (d + 1) i @ s) = None" for s
        using ser_node_not_close [of env x] JArray Cons
        by (simp add: json_match_ws [OF ser_indent_ws])
      show "\<exists>k. \<forall>k'\<ge>k. json_parse_value env k' (ser_node env (JArray xs) d i @ r) = JOk (JArray xs) r"
      proof (intro exI [of _ "Suc k"] allI impI)
        fix k' assume "Suc k \<le> k'"
        then obtain l where "k' = Suc l" "k \<le> l" by (cases k') auto
        then show "json_parse_value env k' (ser_node env (JArray xs) d i @ r) = JOk (JArray xs) r"
          using k [of l] nm by (simp add: Cons skip_ws_Cons)
      qed
    qed
  qed
next
  case (JObject kvs)
  show ?case
  proof (cases kvs)
    case Nil
    have "json_parse_value env k (ser_node env (JObject kvs) d i @ r) = JOk (JObject kvs) r" if "Suc 0 \<le> k" for k d i r
      using that Nil by (cases k) (simp_all add: skip_ws_Cons)
    then show ?thesis unfolding parses_back_def by blast
  next
    case (Cons x ys)
    show ?thesis
      unfolding parses_back_def
    proof (intro allI impI)
      fix d i r
      have all: "\<forall>kv \<in> set (x # ys). json_nul_free (fst kv) \<and> parses_back env (snd kv)"
      proof
        fix kv assume kv: "kv \<in> set (x # ys)"
        then have "json_wf env (snd kv)" "json_nul_free (fst kv)" using JObject.prems Cons by auto
        moreover have "snd kv \<in> Basic_BNFs.snds kv" by (cases kv) simp
        ultimately show "json_nul_free (fst kv) \<and> parses_back env (snd kv)"
          using JObject.IH [of kv "snd kv"] kv Cons by simp
      qed
      obtain k where k: "\<And>k'. k \<le> k' \<Longrightarrow> json_parse_members env k' (JObject [])
         (ser_members env True (x # ys) d i @ ser_indent i d @ CHR ''}'' # r) = JOk (JObject kvs) r"
        using ser_members_parse [OF all, of "[]" d i r] JObject Cons by auto
      have nm: "json_match (CHR ''}'') (ser_members env True (x # ys) d i @ s) = None" for s
        by (cases x) (simp add: json_match_ws [OF ser_indent_ws] ser_put_escaped_def json_match_Cons)
      show "\<exists>k. \<forall>k'\<ge>k. json_parse_value env k' (ser_node env (JObject kvs) d i @ r) = JOk (JObject kvs) r"
      proof (intro exI [of _ "Suc k"] allI impI)
        fix k' assume "Suc k \<le> k'"
        then obtain l where "k' = Suc l" "k \<le> l" by (cases k') auto
        then show "json_parse_value env k' (ser_node env (JObject kvs) d i @ r) = JOk (JObject kvs) r"
          using k [of l] nm by (simp add: Cons skip_ws_Cons del: ser_members.simps)
      qed
    qed
  qed
qed

section \<open>What the parser builds\<close>

fun json_keys_ok :: "'n json \<Rightarrow> bool" where
  "json_keys_ok (JString s) \<longleftrightarrow> json_nul_free s"
| "json_keys_ok (JArray xs) \<longleftrightarrow> (\<forall>x \<in> set xs. json_keys_ok x)"
| "json_keys_ok (JObject kvs) \<longleftrightarrow> distinct (map fst kvs)
     \<and> (\<forall>kv \<in> set kvs. json_nul_free (fst kv) \<and> json_keys_ok (snd kv))"
| "json_keys_ok _ \<longleftrightarrow> True"

lemma json_set_fields_keys:
  "map fst (json_set_fields kvs key v) = (if key \<in> set (map fst kvs) then map fst kvs else map fst kvs @ [key])"
  by (induction kvs key v rule: json_set_fields.induct) auto

lemma json_set_fields_mem: "kv \<in> set (json_set_fields kvs key v) \<Longrightarrow> kv \<in> set kvs \<or> kv = (key, v)"
  by (induction kvs key v rule: json_set_fields.induct) (auto split: if_splits)

lemma json_keys_ok_set:
  assumes "json_keys_ok (JObject kvs)" "json_nul_free key" "json_keys_ok v"
  shows "\<exists>kvs'. json_set (JObject kvs) key v = JObject kvs' \<and> json_keys_ok (JObject kvs')"
  using assms json_set_fields_keys [of kvs key v]
  by (auto simp: json_set_def dest!: json_set_fields_mem)

lemma json_parse_string_nul_free: "json_parse_string s = JOk key r \<Longrightarrow> json_nul_free key"
  by (auto simp: json_parse_string_def json_nul_free_def c_str_def split: option.splits jres.splits
      dest: set_takeWhileD)

lemma json_parse_keys_ok:
  "(\<forall>s v r. json_parse_value env k s = JOk v r \<longrightarrow> json_keys_ok v) \<and>
   (\<forall>xs s v r. json_parse_elems env k (JArray xs) s = JOk v r \<longrightarrow> json_keys_ok (JArray xs) \<longrightarrow> json_keys_ok v) \<and>
   (\<forall>kvs s v r. json_parse_members env k (JObject kvs) s = JOk v r \<longrightarrow> json_keys_ok (JObject kvs) \<longrightarrow> json_keys_ok v)"
proof (induction k)
  case (Suc k)
  have IHv: "json_keys_ok v" if "json_parse_value env k s = JOk v r" for s v r
    using Suc.IH that by blast
  have IHe: "json_keys_ok v" if "json_parse_elems env k (JArray xs) s = JOk v r" "json_keys_ok (JArray xs)" for xs s v r
    using Suc.IH that by blast
  have IHm: "json_keys_ok v" if "json_parse_members env k (JObject kvs) s = JOk v r" "json_keys_ok (JObject kvs)" for kvs s v r
    using Suc.IH that by blast
  have "json_keys_ok v" if p: "json_parse_value env (Suc k) s = JOk v r" for s v r
  proof (cases "skip_ws s")
    case Nil
    then show ?thesis using p by simp
  next
    case (Cons c cs)
    have obj: "json_keys_ok v"
      if "(case json_match (CHR ''}'') cs of Some r \<Rightarrow> JOk (JObject []) r
           | None \<Rightarrow> json_parse_members env k (JObject []) cs) = JOk v r"
      using that IHm [of "[]"] by (cases "json_match (CHR ''}'') cs") auto
    have arr: "json_keys_ok v"
      if "(case json_match (CHR '']'') cs of Some r \<Rightarrow> JOk (JArray []) r
           | None \<Rightarrow> json_parse_elems env k (JArray []) cs) = JOk v r"
      using that IHe [of "[]"] by (cases "json_match (CHR '']'') cs") auto
    have num: "json_keys_ok v" if "json_parse_number env (c # cs) = JOk v r"
      using that by (auto simp: json_parse_number_def split: prod.splits if_splits)
    have str: "json_nul_free b" if "json_parse_string (c # cs) = JOk b r" for b
      using json_parse_string_nul_free [OF that] .
    show ?thesis using p Cons obj arr num str by (auto split: if_splits jres.splits)
  qed
  moreover have "json_keys_ok v" if p: "json_parse_elems env (Suc k) (JArray xs) s = JOk v r"
    and ok: "json_keys_ok (JArray xs)" for xs s v r
  proof -
    obtain x s' where x: "json_parse_value env k s = JOk x s'"
      using p by (auto split: jres.splits)
    then have ok': "json_keys_ok (JArray (xs @ [x]))" using IHv ok by auto
    show ?thesis using p x ok' IHe [OF _ ok']
      by (auto simp: json_append_def Let_def split: option.splits)
  qed
  moreover have "json_keys_ok v" if p: "json_parse_members env (Suc k) (JObject kvs) s = JOk v r"
    and ok: "json_keys_ok (JObject kvs)" for kvs s v r
  proof -
    obtain key s1 s2 x s3 where x: "json_parse_string s = JOk key s1" "json_match (CHR '':'') s1 = Some s2"
      "json_parse_value env k s2 = JOk x s3"
      using p by (auto split: jres.splits option.splits)
    obtain kvs' where ok': "json_set (JObject kvs) key x = JObject kvs'" "json_keys_ok (JObject kvs')"
      using json_keys_ok_set [OF ok json_parse_string_nul_free [OF x(1)] IHv [OF x(3)]] by blast
    have "json_keys_ok (json_set (JObject kvs) key x)" unfolding ok'(1) by (rule ok'(2))
    then show ?thesis using p x IHm [OF _ ok'(2)] unfolding ok'(1) [symmetric]
      by (auto simp: Let_def split: option.splits)
  qed
  ultimately show ?case by blast
qed simp

section \<open>The string buffer\<close>

text \<open>No backslash is directly followed by a \<open>u\<close>.\<close>

definition json_no_u :: "string \<Rightarrow> bool" where
  "json_no_u s \<longleftrightarrow> (\<forall>a b. s \<noteq> a @ CHR 0x5C # CHR ''u'' # b)"

lemma json_no_u_suffix: "json_no_u s \<Longrightarrow> suffix r s \<Longrightarrow> json_no_u r"
  unfolding json_no_u_def suffix_def by (metis append.assoc)

lemma skip_ws_suffix: "suffix (skip_ws s) s"
  by (simp add: skip_ws_def suffix_dropWhile)

lemma json_match_suffix: "json_match c s = Some r \<Longrightarrow> suffix r s"
  using skip_ws_suffix [of s]
  by (auto simp: json_match_def split: list.splits if_splits dest: suffix_ConsD)

lemma json_unicode_suffix: "json_unicode s = Some (bs, r) \<Longrightarrow> suffix r s"
  by (auto simp: json_unicode_def Let_def suffix_drop split: if_splits)

lemma json_string_step_suffix: "json_string_step c cs = JOk bs r \<Longrightarrow> suffix r cs"
  by (auto simp: json_string_step_def split: if_splits list.splits option.splits
      dest: json_unicode_suffix simp: suffix_ConsI)

lemma json_string_loop_suffix: "json_string_loop s cap buf = JOk b r \<Longrightarrow> suffix r s"
proof (induction s cap buf rule: json_string_loop.induct)
  case (1 s cap buf)
  show ?case
  proof (cases s)
    case Nil
    then show ?thesis using 1(2) by (subst (asm) json_string_loop.simps) (auto split: if_splits)
  next
    case (Cons c cs)
    define cap' where "cap' = (if length buf \<ge> cap - 1 then cap * 2 else cap)"
    show ?thesis
    proof (cases "c = CHR 0x22")
      case True
      then show ?thesis using 1(2) Cons by (subst (asm) json_string_loop.simps) (auto split: if_splits)
    next
      case False
      then obtain bs r' where st: "json_string_step c cs = JOk bs r'" "\<not> length buf + length bs > cap'"
        "json_string_loop r' cap' (buf @ bs) = JOk b r"
        using 1(2) Cons by (subst (asm) json_string_loop.simps) (auto simp: Let_def cap'_def split: jres.splits if_splits)
      then have "suffix r r'" using 1(1) [OF Cons False cap'_def st(1,2)] by simp
      then show ?thesis using json_string_step_suffix [OF st(1)] Cons
        by (meson suffix_ConsI suffix_order.trans)
    qed
  qed
qed

lemma json_parse_string_suffix: "json_parse_string s = JOk key r \<Longrightarrow> suffix r s"
  by (auto simp: json_parse_string_def split: option.splits jres.splits
      dest!: json_match_suffix json_string_loop_suffix intro: suffix_order.trans)

lemma json_scan_number_suffix: "json_scan_number s = (tok, r) \<Longrightarrow> suffix r s"
  using json_scan_number_split by (auto simp: suffix_def)

lemma json_string_loop_no_oob:
  "json_no_u s \<Longrightarrow> length buf < cap \<Longrightarrow> 2 \<le> cap \<Longrightarrow> json_string_loop s cap buf \<noteq> JOob"
proof (induction s cap buf rule: json_string_loop.induct)
  case (1 s cap buf)
  show ?case
  proof (cases s)
    case Nil
    then show ?thesis using 1(3) by (subst json_string_loop.simps) simp
  next
    case (Cons c cs)
    define cap' where "cap' = (if length buf \<ge> cap - 1 then cap * 2 else cap)"
    show ?thesis
    proof (cases "c = CHR 0x22 \<or> (\<forall>bs r. json_string_step c cs \<noteq> JOk bs r)")
      case True
      then show ?thesis using 1(3) Cons json_string_step_no_fuel(2)
        by (subst json_string_loop.simps) (auto simp: Let_def split: jres.split)
    next
      case False
      then obtain bs r where st: "json_string_step c cs = JOk bs r" by auto
      have no_u: "\<not> (c = CHR 0x5C \<and> (\<exists>es. cs = CHR ''u'' # es))"
        using 1(2) Cons unfolding json_no_u_def by (metis append_Nil)
      have one: "length bs = 1"
        using st no_u by (auto simp: json_string_step_def split: if_splits list.splits)
      have l: "length buf + 1 < cap'" "2 \<le> cap'" using 1(3,4) by (auto simp: cap'_def)
      have "json_no_u r"
        using json_no_u_suffix [OF 1(2)] json_string_step_suffix [OF st] Cons suffix_ConsI by metis
      then have "json_string_loop r cap' (buf @ bs) \<noteq> JOob"
        using 1(1) [OF Cons _ cap'_def st] False l one by simp
      moreover have "json_string_loop s cap buf = json_string_loop r cap' (buf @ bs)"
        using Cons False st l one by (subst json_string_loop.simps) (auto simp: Let_def cap'_def)
      ultimately show ?thesis by simp
    qed
  qed
qed

lemma json_parse_string_no_oob: "json_no_u s \<Longrightarrow> json_parse_string s \<noteq> JOob"
proof
  assume n: "json_no_u s" and o: "json_parse_string s = JOob"
  obtain t where t: "json_match (CHR 0x22) s = Some t" "json_string_loop t 64 [] = JOob"
    using o by (auto simp: json_parse_string_def split: option.splits jres.splits)
  then show False using json_string_loop_no_oob [of t "[]" 64] json_no_u_suffix [OF n json_match_suffix] by simp
qed

lemma json_parse_suffix:
  "(\<forall>s v r. json_parse_value env k s = JOk v r \<longrightarrow> suffix r s) \<and>
   (\<forall>arr s v r. json_parse_elems env k arr s = JOk v r \<longrightarrow> suffix r s) \<and>
   (\<forall>obj s v r. json_parse_members env k obj s = JOk v r \<longrightarrow> suffix r s)"
proof (induction k)
  case (Suc k)
  note trans = suffix_order.trans
  have v: "suffix r s" if p: "json_parse_value env (Suc k) s = JOk v r" for s v r
  proof (cases "skip_ws s")
    case Nil
    then show ?thesis using p by simp
  next
    case (Cons c cs)
    have "suffix cs s" using skip_ws_suffix [of s] Cons by (metis suffix_ConsD)
    have "suffix r (c # cs)"
    proof -
      have obj: "suffix r cs"
        if "(case json_match (CHR ''}'') cs of Some r \<Rightarrow> JOk (JObject []) r
             | None \<Rightarrow> json_parse_members env k (JObject []) cs) = JOk v r"
        using that Suc.IH by (auto split: option.splits dest: json_match_suffix)
      have arr: "suffix r cs"
        if "(case json_match (CHR '']'') cs of Some r \<Rightarrow> JOk (JArray []) r
             | None \<Rightarrow> json_parse_elems env k (JArray []) cs) = JOk v r"
        using that Suc.IH by (auto split: option.splits dest: json_match_suffix)
      have num: "suffix r (c # cs)" if "json_parse_number env (c # cs) = JOk v r"
        using that json_scan_number_suffix [of "c # cs"] by (auto simp: json_parse_number_def split: prod.splits if_splits)
      have str: "suffix r (c # cs)" if "json_parse_string (c # cs) = JOk b r" for b
        using json_parse_string_suffix [OF that] .
      show ?thesis
        using p Cons obj arr num str suffix_drop [of 3 cs] suffix_drop [of 4 cs]
        by (auto intro: suffix_ConsI split: if_splits jres.splits)
    qed
    then show ?thesis using skip_ws_suffix [of s] Cons trans by metis
  qed
  moreover have "suffix r s" if p: "json_parse_elems env (Suc k) arr s = JOk v r" for arr s v r
  proof -
    obtain x s' where x: "json_parse_value env k s = JOk x s'" using p by (auto split: jres.splits)
    then have "suffix s' s" using Suc.IH by blast
    moreover have "suffix r s'"
      using p x Suc.IH by (fastforce simp: Let_def split: option.splits dest: json_match_suffix intro: trans)
    ultimately show ?thesis using trans by blast
  qed
  moreover have "suffix r s" if p: "json_parse_members env (Suc k) obj s = JOk v r" for obj s v r
  proof -
    obtain key s1 s2 x s3 where x: "json_parse_string s = JOk key s1" "json_match (CHR '':'') s1 = Some s2"
      "json_parse_value env k s2 = JOk x s3"
      using p by (auto split: jres.splits option.splits)
    then have "suffix s3 s" using Suc.IH json_parse_string_suffix json_match_suffix trans by metis
    moreover have "suffix r s3"
      using p x Suc.IH by (fastforce simp: Let_def split: option.splits dest: json_match_suffix intro: trans)
    ultimately show ?thesis using trans by blast
  qed
  ultimately show ?case by blast
qed simp

lemma json_parse_no_oob:
  "(\<forall>s. json_no_u s \<longrightarrow> json_parse_value env k s \<noteq> JOob) \<and>
   (\<forall>arr s. json_no_u s \<longrightarrow> json_parse_elems env k arr s \<noteq> JOob) \<and>
   (\<forall>obj s. json_no_u s \<longrightarrow> json_parse_members env k obj s \<noteq> JOob)"
proof (induction k)
  case (Suc k)
  have sv: "json_no_u r" if "json_no_u s" "json_parse_value env k s = JOk v r" for s v r
    using that json_parse_suffix [of env k] json_no_u_suffix by blast
  have sm: "json_no_u r" if "json_no_u s" "json_match c s = Some r" for c s r
    using that json_match_suffix json_no_u_suffix by blast
  have ss: "json_no_u r" if "json_no_u s" "json_parse_string s = JOk key r" for s key r
    using that json_parse_string_suffix json_no_u_suffix by blast
  have IHv: "json_parse_value env k s \<noteq> JOob" if "json_no_u s" for s using Suc.IH that by blast
  have IHe: "json_parse_elems env k arr s \<noteq> JOob" if "json_no_u s" for arr s using Suc.IH that by blast
  have IHm: "json_parse_members env k obj s \<noteq> JOob" if "json_no_u s" for obj s using Suc.IH that by blast
  have "json_parse_value env (Suc k) s \<noteq> JOob" if n: "json_no_u s" for s
  proof (cases "skip_ws s")
    case (Cons c cs)
    have "json_no_u (c # cs)" using json_no_u_suffix [OF n skip_ws_suffix] Cons by simp
    moreover from this have "json_no_u cs" by (rule json_no_u_suffix) (simp add: suffix_ConsI)
    ultimately have r: "json_parse_string (c # cs) \<noteq> JOob" "\<And>arr. json_parse_elems env k arr cs \<noteq> JOob"
      "\<And>obj. json_parse_members env k obj cs \<noteq> JOob"
      using IHe IHm json_parse_string_no_oob by blast+
    have "json_parse_number env (c # cs) \<noteq> JOob"
      by (simp add: json_parse_number_def split: prod.split)
    with r show ?thesis using Cons
      by (cases "c = CHR 0x22") (simp_all split: option.split jres.split)
  qed simp
  moreover have "json_parse_elems env (Suc k) arr s \<noteq> JOob" if n: "json_no_u s" for arr s
  proof (cases "json_parse_value env k s")
    case (JOk x s')
    then have n': "json_no_u s'" by (rule sv [OF n])
    show ?thesis
      using JOk IHe [OF sm [OF n']] by (simp add: Let_def split: option.split)
  qed (use IHv [OF n] in auto)
  moreover have "json_parse_members env (Suc k) obj s \<noteq> JOob" if n: "json_no_u s" for obj s
  proof (cases "json_parse_string s")
    case (JOk key s1)
    then have n1: "json_no_u s1" by (rule ss [OF n])
    show ?thesis
    proof (cases "json_match (CHR '':'') s1")
      case (Some s2)
      then have n2: "json_no_u s2" by (rule sm [OF n1])
      show ?thesis
      proof (cases "json_parse_value env k s2")
        case val: (JOk x s3)
        then have n3: "json_no_u s3" by (rule sv [OF n2])
        show ?thesis
          using JOk Some val IHm [OF sm [OF n3]] by (simp add: Let_def split: option.split)
      qed (use JOk Some IHv [OF n2] in auto)
    qed (use JOk in simp)
  qed (use json_parse_string_no_oob [OF n] in auto)
  ultimately show ?case by blast
qed simp

section \<open>Objects\<close>

lemma json_set_fields_map_of: "map_of (json_set_fields kvs key v) = (map_of kvs)(key \<mapsto> v)"
  by (induction kvs key v rule: json_set_fields.induct) (auto simp: fun_eq_iff)

lemma json_del_fields_spec:
  "distinct (map fst kvs) \<Longrightarrow> json_del_fields kvs key = (key \<in> fst ` set kvs, filter (\<lambda>kv. fst kv \<noteq> key) kvs)"
proof (induction kvs key rule: json_del_fields.induct)
  case (2 k v kvs key)
  then show ?case by (auto intro: filter_True [symmetric])
qed simp

lemma map_of_filter_key: "map_of (filter (\<lambda>kv. fst kv \<noteq> key) kvs) = (map_of kvs)(key := None)"
  by (induction kvs) (auto simp: fun_eq_iff)

lemma fold_json_append: "fold (\<lambda>x c. json_append c (f x)) xs (JArray ys) = JArray (ys @ map f xs)"
  by (induction xs arbitrary: ys) (simp_all add: json_append_def)

lemma fold_json_set:
  "distinct (map fst (ys @ kvs)) \<Longrightarrow>
   fold (\<lambda>(k, v) c. json_set c k (f v)) kvs (JObject ys) = JObject (ys @ map (\<lambda>(k, v). (k, f v)) kvs)"
proof (induction kvs arbitrary: ys)
  case (Cons kv kvs)
  obtain k v where kv: "kv = (k, v)" by force
  have "json_set (JObject ys) k (f v) = JObject (ys @ [(k, f v)])"
    by (rule json_set_new) (use Cons.prems kv in auto)
  moreover have "distinct (map fst ((ys @ [(k, f v)]) @ kvs))" using Cons.prems kv by auto
  ultimately show ?case using Cons.IH [of "ys @ [(k, f v)]"] kv by simp
qed simp

lemma json_copy_same: "json_keys_ok v \<Longrightarrow> json_copy v = v"
proof (induction v)
  case (JArray xs)
  have "map json_copy xs = xs" using JArray by (intro map_idI) auto
  then show ?case by (simp add: fold_json_append)
next
  case (JObject kvs)
  have "json_copy (snd kv) = snd kv" if "kv \<in> set kvs" for kv
    using JObject.IH [of kv "snd kv"] JObject.prems that by (cases kv) auto
  then have "map (\<lambda>(k, v). (k, json_copy v)) kvs = kvs"
    by (intro map_idI) auto
  then show ?case using JObject.prems fold_json_set [of "[]" kvs json_copy] by simp
qed simp_all

lemma json_escape_need_sum:
  "json_escape_need s = 1 + sum_list (map (\<lambda>c. length (json_escape_char c)) s)"
proof -
  have len: "length (json_escape_char c) =
     (if c = CHR 0x22 \<or> c = CHR 0x5C \<or> c = CHR 10 \<or> c = CHR 13 \<or> c = CHR 9 then 2
      else if (of_char c :: int) < 32 then 6 else 1)" for c
    by (simp add: json_escape_char_def json_u_escape_def)
  have "fold (\<lambda>c need. need + length (json_escape_char c)) s n
      = n + sum_list (map (\<lambda>c. length (json_escape_char c)) s)" for n
    by (induction s arbitrary: n) simp_all
  then show ?thesis by (simp add: json_escape_need_def len)
qed

lemma json_serialize_parse_lemma:
  assumes "json_wf env v"
  shows "json_parse env (ser_node env v 0 i) = JParsed v"
proof -
  have "json_delim []" by (simp add: json_delim_def)
  then obtain k where "json_parse_value env k (ser_node env v 0 i) = JOk v []"
    using parses_backD [OF json_parses_back [OF assms], of "[]" "[]"] by (metis append_Nil append_Nil2 json_ws_blank(2) order_refl)
  then have "json_parse_value env (json_fuel (ser_node env v 0 i)) (ser_node env v 0 i) = JOk v []"
    by (rule json_parse_any_fuel) (rule json_fuel_enough, simp)
  then show ?thesis by (simp add: json_parse_def skip_ws_def)
qed

section \<open>Properties\<close>

text \<open>Doubles restricted to integers, for the instances below.\<close>

definition json_int_num :: "int json_num" where
  "json_int_num = \<lparr>jn_strtod = c_strtol 10, jn_is_llong = (\<lambda>_. True), jn_fmt0 = c_dec, jn_fmt17 = c_dec\<rparr>"

text \<open>
  C21. Serializing then parsing is the identity, in the compact and in the indented form, for
  every tree whose strings hold no NUL, whose objects have distinct keys and whose numbers
  survive \<open>printf\<close> and \<open>strtod\<close>. In particular escaping is undone exactly and the parser
  never runs past its string buffer on serialized text.
\<close>

theorem json_serialize_parse:
  assumes "json_wf env v"
  shows "json_parse env (json_serialize env v) = JParsed v
     \<and> json_parse env (json_serialize_pretty env v indent) = JParsed v"
  using json_serialize_parse_lemma [OF assms] by (simp add: json_serialize_def json_serialize_pretty_def)

theorem json_serialize_parse_witness:
  "json_parse json_int_num (json_serialize json_int_num
      (JObject [(''k'', JArray [JNumber 7, JBool True, JNull]), (''s'', JString [CHR 0x22, CHR 0x5C, CHR 10])]))
   = JParsed (JObject [(''k'', JArray [JNumber 7, JBool True, JNull]), (''s'', JString [CHR 0x22, CHR 0x5C, CHR 10])])"
proof -
  have "c_udec 7 = ''7''" by code_simp
  then have "json_num_ok json_int_num 7"
    by (simp add: json_num_ok_def json_int_num_def ser_number_def c_dec_def c_isdigit_def json_scan_number_def
        json_opt_def json_digits_def c_strtol_def c_isspace_def c_digit_val_def c_tolower_def Let_def)
  then have "json_wf json_int_num (JObject [(''k'', JArray [JNumber 7, JBool True, JNull]), (''s'', JString [CHR 0x22, CHR 0x5C, CHR 10])])"
    by (simp add: json_nul_free_def)
  from json_serialize_parse [OF this] show ?thesis by simp
qed

text \<open>
  C24. The parser ends on every input: the fuel given to \<open>json_parse\<close> is never exhausted. A tree
  it returns has NUL-free strings and distinct keys in every object, however the text
  repeats keys; a text in which no backslash is followed by \<open>u\<close> never makes the parser
  write past its string buffer.
\<close>

theorem json_parse_sound:
  shows "json_parse env input \<noteq> JNoFuel
    \<and> (json_parse env input = JParsed v \<longrightarrow> json_keys_ok v)
    \<and> (json_no_u input \<longrightarrow> json_parse env input \<noteq> JOverrun)"
proof -
  have "json_parse_value env (json_fuel input) input \<noteq> JFuel" by (rule json_fuel_enough) simp
  then show ?thesis
    using json_parse_keys_ok [of env "json_fuel input"] json_parse_no_oob [of env "json_fuel input"]
    by (auto simp: json_parse_def split: jres.splits if_splits)
qed

theorem json_parse_sound_witness:
  "json_parse json_int_num ''[true, {}]'' = JParsed (JArray [JBool True, JObject []])
   \<and> json_keys_ok (JArray [JBool True, JObject [] :: int json])
   \<and> json_no_u ''[true, {}]'' \<and> json_parse json_int_num ''[true, {}]'' \<noteq> JOverrun"
proof -
  have p: "json_parse json_int_num ''[true, {}]'' = JParsed (JArray [JBool True, JObject []])"
    by code_simp
  have "json_no_u ''[true, {}]''"
    by (auto simp: json_no_u_def Cons_eq_append_conv)
  then show ?thesis
    using p json_parse_sound [of json_int_num "''[true, {}]''" "JArray [JBool True, JObject []]"] by simp
qed

text \<open>
  The bound on \<open>\u\<close> escapes is needed: the growth test runs once per escape, but an escape
  stores up to four bytes, so 61 plain characters and one three-byte escape make
  \<open>parse_string\<close> write the terminator past its 64-byte buffer; one plain character less is
  parsed.
\<close>

theorem json_unicode_overruns_buffer:
  "json_parse env (CHR 0x22 # replicate 61 (CHR ''a'') @ [CHR 0x5C] @ ''u20ac'' @ [CHR 0x22]) = JOverrun
   \<and> (\<exists>s. json_parse env (CHR 0x22 # replicate 60 (CHR ''a'') @ [CHR 0x5C] @ ''u20ac'' @ [CHR 0x22])
        = JParsed (JString s))"
proof -
  have "json_string_loop (replicate 61 (CHR ''a'') @ [CHR 0x5C] @ ''u20ac'' @ [CHR 0x22]) 64 [] = JOob"
    by code_simp
  moreover have "\<exists>s. json_string_loop (replicate 60 (CHR ''a'') @ [CHR 0x5C] @ ''u20ac'' @ [CHR 0x22]) 64 []
      = JOk s [CHR 0x22]"
    by (rule exI [of _ "replicate 60 (CHR ''a'') @ json_encode_cp 0x20ac"]) code_simp
  ultimately show ?thesis
    by (auto simp: json_parse_def json_fuel_def numeral_eq_Suc skip_ws_Cons json_parse_string_def json_match_Cons skip_ws_def
        simp del: replicate.simps)
qed

text \<open>
  \<open>json_escape_string\<close> produces a JSON literal that parses back to its input, but it writes
  one byte more than it allocates (\<open>need + 1\<close>), terminator included, on every input.
\<close>

theorem json_escape_string_overruns:
  assumes "json_nul_free s"
  shows "json_parse_string (json_escape_string s @ r) = JOk s r
     \<and> length (json_escape_string s) + 1 = (json_escape_need s + 1) + 1"
  using json_parse_string_escaped [OF ser_char_escaper(2) assms, of r]
  by (simp add: json_escape_string_def json_escape_need_sum length_concat o_def)

theorem json_escape_string_overruns_witness:
  "json_parse_string (json_escape_string [CHR ''a'', CHR 9] @ []) = JOk [CHR ''a'', CHR 9] []
   \<and> length (json_escape_string [CHR ''a'', CHR 9]) + 1 = 6 \<and> json_escape_need [CHR ''a'', CHR 9] + 1 = 5"
  using json_escape_string_overruns [of "[CHR ''a'', CHR 9]" "[]"]
  by (simp add: json_nul_free_def json_escape_need_def)

lemma json_set_fields_exact:
  "distinct (map fst kvs) \<Longrightarrow>
    json_set_fields kvs key v = (if key \<in> fst ` set kvs then map (\<lambda>(k, w). (k, if k = key then v else w)) kvs else kvs @ [(key, v)])"
proof (induction kvs key v rule: json_set_fields.induct)
  case (2 k w kvs key v)
  have "map (\<lambda>(k', w). (k', if k' = key then v else w)) kvs = kvs" if "key \<notin> fst ` set kvs"
    using that by (intro map_idI) force
  then show ?case using 2 by auto
qed simp

text \<open>
  C40. An object with distinct keys is an insertion-ordered dictionary. \<open>json_set\<close> on a key that is
  there replaces its value and moves nothing; on another key it appends the field at the end.
  \<open>json_obj_del\<close> reports and removes exactly the key and keeps the order of the rest, \<open>json_obj_get\<close>
  after either looks up accordingly, and \<open>json_copy\<close> rebuilds an equal tree.
\<close>

theorem json_object_dictionary:
  assumes "json_keys_ok (JObject kvs)"
  shows "json_set (JObject kvs) key v =
      JObject (if key \<in> fst ` set kvs then map (\<lambda>(k, w). (k, if k = key then v else w)) kvs else kvs @ [(key, v)])
    \<and> json_obj_get (json_set (JObject kvs) key v) k = (if k = key then Some v else json_obj_get (JObject kvs) k)
    \<and> json_obj_del (JObject kvs) key = (json_obj_get (JObject kvs) key \<noteq> None, JObject (filter (\<lambda>kv. fst kv \<noteq> key) kvs))
    \<and> json_obj_get (snd (json_obj_del (JObject kvs) key)) k = (if k = key then None else json_obj_get (JObject kvs) k)
    \<and> json_copy (JObject kvs) = JObject kvs"
proof (intro conjI)
  show "json_set (JObject kvs) key v =
      JObject (if key \<in> fst ` set kvs then map (\<lambda>(k, w). (k, if k = key then v else w)) kvs else kvs @ [(key, v)])"
    using assms json_set_fields_exact [of kvs key v] by (simp add: json_set_def)
qed (use assms json_del_fields_spec [of kvs key] json_copy_same [OF assms] in
  \<open>auto simp: json_obj_get_def json_set_def json_set_fields_map_of json_obj_del_def map_of_filter_key
      map_of_eq_None_iff simp del: json_copy.simps\<close>)

theorem json_object_dictionary_witness:
  "json_keys_ok (JObject [(''a'', JNumber (1::int)), (''b'', JNull)])
   \<and> json_set (JObject [(''a'', JNumber (1::int)), (''b'', JNull)]) ''a'' (JBool True) = JObject [(''a'', JBool True), (''b'', JNull)]"
  using json_object_dictionary [of "[(''a'', JNumber (1::int)), (''b'', JNull)]" "''a''" "JBool True" "''a''"]
  by (simp add: json_nul_free_def)

end
