(* ===== verification/ToolIdempotency.thy ===== *)
theory ToolIdempotency
  imports Omap Json
begin

text \<open>
  \<^verbatim>\<open>src/tools/tool_idempotency.c\<close>: the cache that makes a retried tool call return the result
  of its first run. An entry lives in the omap under "tool|material" with an expiry time;
  an attached file holds the unexpired entries as JSON.

  \<open>ie_addr\<close> is the address \<open>calloc\<close> returned, so that two entries with equal contents are
  still different pointers; \<open>ic_next\<close> is the next address. \<open>ic_files\<close> is the file system the
  code reads and writes and \<open>ic_wok\<close> says whether \<open>fopen(path, "wb")\<close> succeeds. \<open>now\<close> is the
  value of \<open>time(NULL)\<close> during one call. A result None stands for undefined behaviour: an
  omap probe that does not return, a NULL entry that is read, or a string buffer overrun.
\<close>

section \<open>State\<close>

record idem_entry =
  ie_addr :: nat
  ie_result :: string
  ie_expiry :: int

record idem_cache =
  ic_map :: "idem_entry omap"
  ic_persist_path :: "string option"
  ic_next :: nat
  ic_files :: "string \<Rightarrow> string option"
  ic_wok :: bool

definition IDEM_DEFAULT_TTL :: int where "IDEM_DEFAULT_TTL = 600"

text \<open>The C library calls on doubles: those of the parser, \<open>0.0\<close> and the cast to \<open>long long\<close>.\<close>

record 'n idem_env =
  id_num :: "'n json_num"
  id_zero :: 'n
  id_llong :: "'n \<Rightarrow> int"

text \<open>\<open>calloc\<close> and \<open>strdup\<close> draw on the allocator of the map.\<close>

definition idem_malloc :: "idem_cache \<Rightarrow> bool \<times> idem_cache" where
  "idem_malloc c = (let (ok, m) = omap_malloc (ic_map c) in (ok, c\<lparr>ic_map := m\<rparr>))"

section \<open>Persistence\<close>

text \<open>Escaping as the save loop does it: double quotes only.\<close>

definition idem_escape :: "string \<Rightarrow> string" where
  "idem_escape s = concat (map (\<lambda>c. if c = CHR 0x22 then [CHR 0x5C, c] else [c]) s)"

definition idem_quoted :: "string \<Rightarrow> string" where
  "idem_quoted s = [CHR 0x22] @ s @ [CHR 0x22]"

text \<open>One turn of the loop of \<open>idem_save\<close>: the text written for index \<open>i\<close>.\<close>

definition idem_save_item :: "int \<Rightarrow> idem_entry omap \<Rightarrow> nat \<Rightarrow> string option" where
  "idem_save_item now m i =
     (case omap_at m i of
        None \<Rightarrow> Some []
      | Some (k, v) \<Rightarrow> do {
          k \<leftarrow> k;
          e \<leftarrow> v;
          Some (if ie_expiry e \<le> now then []
                else (if i > 0 then '','' else [])
                  @ ''{'' @ idem_quoted ''key'' @ '':'' @ idem_quoted (idem_escape k)
                  @ '','' @ idem_quoted ''result'' @ '':'' @ idem_quoted (idem_escape (ie_result e))
                  @ '','' @ idem_quoted ''expiry'' @ '':'' @ c_dec (ie_expiry e) @ ''}'') })"

fun idem_save_items :: "int \<Rightarrow> idem_entry omap \<Rightarrow> nat list \<Rightarrow> string option" where
  "idem_save_items now m [] = Some []"
| "idem_save_items now m (i # is) = do {
     a \<leftarrow> idem_save_item now m i;
     b \<leftarrow> idem_save_items now m is;
     Some (a @ b) }"

definition idem_save :: "int \<Rightarrow> idem_cache \<Rightarrow> idem_cache option" where
  "idem_save now c =
     (case ic_persist_path c of
        None \<Rightarrow> Some c
      | Some path \<Rightarrow>
          if \<not> ic_wok c then Some c
          else do {
            items \<leftarrow> idem_save_items now (ic_map c) [0..<omap_size (ic_map c)];
            Some (c\<lparr>ic_files := (ic_files c)(path \<mapsto> ''['' @ items @ '']'')\<rparr>) })"

text \<open>One item of the parsed array.\<close>

definition idem_load_item :: "'n idem_env \<Rightarrow> int \<Rightarrow> 'n json \<Rightarrow> idem_cache \<Rightarrow> idem_cache option" where
  "idem_load_item env now item c =
     (case (item, json_get_str item ''key'' None, json_get_str item ''result'' None) of
        (JObject _, Some k, Some r) \<Rightarrow>
          (let exp = id_llong env (json_get_num (id_num env) item ''expiry'' (id_zero env)) in
           if exp \<le> now then Some c
           else let (ok, c) = idem_malloc c in
             if \<not> ok then Some c
             else let (ok, c) = idem_malloc c in
               if \<not> ok then Some (c\<lparr>ic_next := Suc (ic_next c)\<rparr>)
               else do {
                 (_, m) \<leftarrow> omap_set (ic_map c) k
                    (Some \<lparr>ie_addr = ic_next c, ie_result = r, ie_expiry = exp\<rparr>);
                 Some (c\<lparr>ic_map := m, ic_next := Suc (ic_next c)\<rparr>) })
      | _ \<Rightarrow> Some c)"

fun idem_load_items :: "'n idem_env \<Rightarrow> int \<Rightarrow> 'n json list \<Rightarrow> idem_cache \<Rightarrow> idem_cache option" where
  "idem_load_items env now [] c = Some c"
| "idem_load_items env now (x # xs) c = do {
     c \<leftarrow> idem_load_item env now x c;
     idem_load_items env now xs c }"

definition idem_load :: "'n idem_env \<Rightarrow> int \<Rightarrow> string \<Rightarrow> idem_cache \<Rightarrow> idem_cache option" where
  "idem_load env now path c =
     (case ic_files c path of
        None \<Rightarrow> Some c
      | Some content \<Rightarrow>
          if content = [] then Some c
          else let (ok, c) = idem_malloc c in
            if \<not> ok then Some c
            else (case json_parse (id_num env) (c_str content) of
                JParsed (JArray items) \<Rightarrow> idem_load_items env now items c
              | JParsed _ \<Rightarrow> Some c
              | JFailed _ \<Rightarrow> Some c
              | _ \<Rightarrow> None))"

section \<open>Public operations\<close>

definition tool_idem_new :: "bool list \<Rightarrow> (string \<Rightarrow> string option) \<Rightarrow> bool \<Rightarrow> idem_cache" where
  "tool_idem_new mem files wok =
     \<lparr>ic_map = omap_new True mem, ic_persist_path = None, ic_next = 0, ic_files = files, ic_wok = wok\<rparr>"

definition tool_idem_free :: "int \<Rightarrow> idem_cache \<Rightarrow> idem_cache option" where
  "tool_idem_free now c = do {
     c \<leftarrow> (if ic_persist_path c \<noteq> None
           then do { c \<leftarrow> idem_save now c; Some (c\<lparr>ic_persist_path := None\<rparr>) } else Some c);
     Some (c\<lparr>ic_map := omap_clear (ic_map c)\<rparr>) }"

definition tool_idem_attach :: "'n idem_env \<Rightarrow> int \<Rightarrow> string option \<Rightarrow> idem_cache \<Rightarrow> idem_cache option" where
  "tool_idem_attach env now path c =
     (let c = c\<lparr>ic_persist_path := None\<rparr> in
      case path of
        None \<Rightarrow> Some c
      | Some p \<Rightarrow>
          let (ok, c) = idem_malloc c in
          if \<not> ok then Some c else idem_load env now p (c\<lparr>ic_persist_path := Some p\<rparr>))"

text \<open>The key; None when the parser of \<open>args\<close> overruns its buffer.\<close>

definition tool_idem_key :: "'n json_num \<Rightarrow> string option \<Rightarrow> string option \<Rightarrow> string option" where
  "tool_idem_key env tool args =
     (let tool = (case tool of None \<Rightarrow> [] | Some t \<Rightarrow> t);
          args = (case args of None \<Rightarrow> [] | Some a \<Rightarrow> a)
      in case json_parse env args of
           JParsed root \<Rightarrow>
             (case json_get_str root ''idempotency_key'' None of
                Some x \<Rightarrow> if x \<noteq> [] then Some (tool @ ''|'' @ x) else Some (tool @ ''|'' @ args)
              | None \<Rightarrow> Some (tool @ ''|'' @ args))
         | JFailed _ \<Rightarrow> Some (tool @ ''|'' @ args)
         | _ \<Rightarrow> None)"

definition tool_idem_put :: "int \<Rightarrow> idem_cache \<Rightarrow> string \<Rightarrow> string \<Rightarrow> int \<Rightarrow> (bool \<times> idem_cache) option" where
  "tool_idem_put now c key result ttl_sec =
     (let (ok, c) = idem_malloc c in
      if \<not> ok then Some (False, c)
      else let a = ic_next c; (ok, c) = idem_malloc (c\<lparr>ic_next := Suc a\<rparr>) in
      if \<not> ok then Some (False, c)
      else let e = \<lparr>ie_addr = a, ie_result = result,
                    ie_expiry = now + (if ttl_sec > 0 then ttl_sec else IDEM_DEFAULT_TTL)\<rparr> in
      do {
        (ok, m) \<leftarrow> omap_set (ic_map c) key (Some e);
        if \<not> ok then Some (False, c\<lparr>ic_map := omap_release_value m (Some e)\<rparr>)
        else do { c \<leftarrow> idem_save now (c\<lparr>ic_map := m\<rparr>); Some (True, c) } })"

definition tool_idem_get :: "int \<Rightarrow> idem_cache \<Rightarrow> string \<Rightarrow> string option \<times> idem_cache" where
  "tool_idem_get now c key =
     (case omap_get (ic_map c) key of
        None \<Rightarrow> (None, c)
      | Some e \<Rightarrow>
          if ie_expiry e \<le> now then (None, c\<lparr>ic_map := snd (omap_pop (ic_map c) key)\<rparr>)
          else let (ok, c) = idem_malloc c in (if ok then Some (ie_result e) else None, c))"

definition tool_idem_invalidate :: "idem_cache \<Rightarrow> string \<Rightarrow> bool \<times> idem_cache" where
  "tool_idem_invalidate c key =
     (let (b, m) = omap_erase (ic_map c) key in (b, c\<lparr>ic_map := m\<rparr>))"

definition tool_idem_count :: "idem_cache \<Rightarrow> nat" where
  "tool_idem_count c = omap_size (ic_map c)"

end
