(* ===== verification/ToolIdempotency_Correct.thy ===== *)
theory ToolIdempotency_Correct
  imports ToolIdempotency Omap_Correct Json_Correct "HOL-Library.Multiset"
begin

text \<open>
  Correctness of \<^verbatim>\<open>src/tools/tool_idempotency.c\<close>, as a client of the omap (through the
  \<open>ordered_dict\<close> interface) and of the JSON library: what a retry sees, who owns the
  entries, and what a restart from the saved file restores.
\<close>

section \<open>Invariant\<close>

definition idem_inv :: "idem_cache \<Rightarrow> bool" where
  "idem_inv c \<longleftrightarrow> omap_good (ic_map c) \<and> (\<forall>kv \<in> set (omap_abs (ic_map c)). snd kv \<noteq> None)"

lemma idem_inv_new: "idem_inv (tool_idem_new [] files wok)"
  by (simp add: idem_inv_def tool_idem_new_def omap_good_def omap_new_ok)

lemma omap_mem_update [simp]: "omap_inv (m\<lparr>om_mem := bs\<rparr>) = omap_inv m"
  by (simp add: omap_inv_def)

lemma idem_malloc_ok:
  assumes "idem_inv c"
  obtains bs where "idem_malloc c = (True, c\<lparr>ic_map := ic_map c\<lparr>om_mem := bs\<rparr>\<rparr>)"
    "idem_inv (c\<lparr>ic_map := ic_map c\<lparr>om_mem := bs\<rparr>\<rparr>)"
proof (rule omap_malloc_cases [of "ic_map c"])
  fix b bs
  assume "omap_malloc (ic_map c) = (b, ic_map c\<lparr>om_mem := bs\<rparr>)"
    "omap_mem_ok (ic_map c) \<Longrightarrow> b \<and> False \<notin> set bs"
  then show ?thesis
    using assms by (intro that [of bs]) (auto simp: idem_malloc_def idem_inv_def omap_good_def omap_mem_ok_def)
qed

lemma idem_item:
  assumes "idem_inv c" "i < length (omap_abs (ic_map c))"
  obtains k e where "omap_abs (ic_map c) ! i = (k, Some e)" "omap_at (ic_map c) i = Some (Some k, Some e)"
proof -
  obtain k v where kv: "omap_abs (ic_map c) ! i = (k, v)" by force
  then have "(k, v) \<in> set (omap_abs (ic_map c))" using assms(2) nth_mem by fastforce
  then obtain e where "v = Some e" using assms(1) by (force simp: idem_inv_def)
  moreover have "omap_at (ic_map c) i = Some (Some k, v)"
    using od.dict_item [of "ic_map c" i] assms kv by (simp add: idem_inv_def)
  ultimately show ?thesis using kv by (intro that) auto
qed

lemma idem_save_items_total:
  assumes "idem_inv c" "\<forall>i \<in> set is. i < length (omap_abs (ic_map c))"
  shows "\<exists>t. idem_save_items now (ic_map c) is = Some t"
  using assms(2)
proof (induction "is")
  case (Cons i "is")
  obtain k e where "omap_at (ic_map c) i = Some (Some k, Some e)"
    by (rule idem_item [OF assms(1), of i]) (use Cons in auto)
  then show ?case using Cons by (auto simp: idem_save_item_def)
qed simp

lemma idem_save_total:
  assumes "idem_inv c"
  obtains fs where "idem_save now c = Some (c\<lparr>ic_files := fs\<rparr>)" "ic_persist_path c = None \<Longrightarrow> fs = ic_files c"
proof -
  have "omap_size (ic_map c) = length (omap_abs (ic_map c))"
    using od.dict_count [of "ic_map c"] assms by (simp add: idem_inv_def)
  then obtain t where t: "idem_save_items now (ic_map c) [0..<omap_size (ic_map c)] = Some t"
    using idem_save_items_total [OF assms, of "[0..<omap_size (ic_map c)]" now] by auto
  have refl: "c\<lparr>ic_files := ic_files c\<rparr> = c" by simp
  show ?thesis
  proof (cases "ic_persist_path c")
    case None
    then show ?thesis using refl by (intro that [of "ic_files c"]) (simp_all add: idem_save_def)
  next
    case (Some p)
    show ?thesis
    proof (cases "ic_wok c")
      case True
      then show ?thesis using Some t by (intro that) (auto simp: idem_save_def)
    next
      case False
      then show ?thesis using Some refl by (intro that [of "ic_files c"]) (simp_all add: idem_save_def)
    qed
  qed
qed

lemma dict_set_mem: "kv \<in> set (dict_set xs k v) \<Longrightarrow> kv \<in> set xs \<or> kv = (k, v)"
  by (induction xs k v rule: dict_set.induct) (auto split: if_splits)

lemma idem_inv_files [simp]: "idem_inv (c\<lparr>ic_files := fs\<rparr>) = idem_inv c"
  "idem_inv (c\<lparr>ic_next := n\<rparr>) = idem_inv c" "idem_inv (c\<lparr>ic_persist_path := p\<rparr>) = idem_inv c"
  by (simp_all add: idem_inv_def)

definition idem_ttl :: "int \<Rightarrow> int" where
  "idem_ttl ttl = (if ttl > 0 then ttl else IDEM_DEFAULT_TTL)"

text \<open>What a successful put leaves behind, up to the files.\<close>

lemma tool_idem_put_run:
  assumes "idem_inv c"
  obtains m fs where "tool_idem_put now c key r ttl = Some (True, c\<lparr>ic_map := m, ic_next := Suc (ic_next c), ic_files := fs\<rparr>)"
    "idem_inv (c\<lparr>ic_map := m, ic_next := Suc (ic_next c), ic_files := fs\<rparr>)"
    "omap_abs m = dict_set (omap_abs (ic_map c)) key
       (Some \<lparr>ie_addr = ic_next c, ie_result = r, ie_expiry = now + idem_ttl ttl\<rparr>)"
    "om_value_free m = om_value_free (ic_map c)"
    "om_freed m = om_freed (ic_map c) @ omap_displaced (ic_map c) key
       (Some \<lparr>ie_addr = ic_next c, ie_result = r, ie_expiry = now + idem_ttl ttl\<rparr>)"
proof -
  let ?e = "\<lparr>ie_addr = ic_next c, ie_result = r, ie_expiry = now + idem_ttl ttl\<rparr>"
  obtain b1 where 1: "idem_malloc c = (True, c\<lparr>ic_map := ic_map c\<lparr>om_mem := b1\<rparr>\<rparr>)"
    "idem_inv (c\<lparr>ic_map := ic_map c\<lparr>om_mem := b1\<rparr>\<rparr>)" by (rule idem_malloc_ok [OF assms])
  define c1 where "c1 = c\<lparr>ic_map := ic_map c\<lparr>om_mem := b1\<rparr>, ic_next := Suc (ic_next c)\<rparr>"
  have i1: "idem_inv c1" using 1(2) by (simp add: c1_def idem_inv_def)
  obtain b2 where 2: "idem_malloc c1 = (True, c1\<lparr>ic_map := ic_map c1\<lparr>om_mem := b2\<rparr>\<rparr>)"
    "idem_inv (c1\<lparr>ic_map := ic_map c1\<lparr>om_mem := b2\<rparr>\<rparr>)" by (rule idem_malloc_ok [OF i1])
  define m2 where "m2 = ic_map c\<lparr>om_mem := b2\<rparr>"
  have m2: "omap_inv m2" "omap_mem_ok m2" "\<forall>kv \<in> set (omap_abs m2). snd kv \<noteq> None"
    using 2(2) by (simp_all add: m2_def c1_def idem_inv_def omap_good_def omap_mem_ok_def)
  obtain ok m where m: "omap_set m2 key (Some ?e) = Some (ok, m)" "om_value_free m = om_value_free m2"
    "ok \<Longrightarrow> omap_inv m \<and> omap_abs m = dict_set (omap_abs m2) key (Some ?e)
       \<and> om_freed m = om_freed m2 @ omap_displaced m2 key (Some ?e)"
    "omap_mem_ok m2 \<Longrightarrow> ok \<and> omap_mem_ok m"
    by (rule omap_set_spec [OF m2(1), of key "Some ?e"]) blast
  have ok: ok and good: "omap_good m" using m m2 by (auto simp: omap_good_def)
  define c3 where "c3 = c\<lparr>ic_map := m, ic_next := Suc (ic_next c)\<rparr>"
  have i3: "idem_inv c3"
    using good m(3) [OF ok] m2(3) by (auto simp: idem_inv_def c3_def dest!: dict_set_mem)
  obtain fs where fs: "idem_save now c3 = Some (c3\<lparr>ic_files := fs\<rparr>)" by (rule idem_save_total [OF i3])
  have sw: "c\<lparr>ic_next := Suc (ic_next c), ic_map := m\<rparr> = c3" by (simp add: c3_def)
  have "tool_idem_put now c key r ttl = Some (True, c3\<lparr>ic_files := fs\<rparr>)"
    using 1(1) 2(1) m(1) ok fs
    by (simp add: sw tool_idem_put_def Let_def c1_def m2_def idem_ttl_def)
  moreover have "omap_displaced m2 key (Some ?e) = omap_displaced (ic_map c) key (Some ?e)"
    by (simp add: omap_displaced_def omap_released_def m2_def split: option.split)
  ultimately show ?thesis
    using i3 m(2) m(3) [OF ok] by (intro that [where m = m and fs = fs]) (simp_all add: c3_def m2_def)
qed

lemma tool_idem_get_value:
  assumes "idem_inv c"
  shows "fst (tool_idem_get now c k) =
     (case omap_get (ic_map c) k of None \<Rightarrow> None
      | Some e \<Rightarrow> if ie_expiry e \<le> now then None else Some (ie_result e))"
proof -
  obtain bs where "idem_malloc c = (True, c\<lparr>ic_map := ic_map c\<lparr>om_mem := bs\<rparr>\<rparr>)"
    by (rule idem_malloc_ok [OF assms])
  then show ?thesis by (simp add: tool_idem_get_def split: option.split)
qed

section \<open>Ownership\<close>

definition idem_live :: "idem_cache \<Rightarrow> nat list" where
  "idem_live c = concat (map (\<lambda>(k, v). case v of Some e \<Rightarrow> [ie_addr e] | None \<Rightarrow> []) (omap_abs (ic_map c)))"

text \<open>The entries ever allocated that the cache still holds or has freed.\<close>

definition idem_accounted :: "idem_cache \<Rightarrow> nat multiset" where
  "idem_accounted c = mset (idem_live c) + mset (map ie_addr (om_freed (ic_map c)))"

definition idem_own :: "idem_cache \<Rightarrow> bool" where
  "idem_own c \<longleftrightarrow> om_value_free (ic_map c) \<and> (\<forall>a \<in># idem_accounted c. a < ic_next c)
     \<and> (\<forall>a. count (idem_accounted c) a \<le> 1)"

definition idem_addrs :: "(string \<times> idem_entry option) list \<Rightarrow> nat multiset" where
  "idem_addrs xs = mset (concat (map (\<lambda>(k, v). case v of Some e \<Rightarrow> [ie_addr e] | None \<Rightarrow> []) xs))"

definition idem_old :: "(string \<times> idem_entry option) list \<Rightarrow> string \<Rightarrow> nat multiset" where
  "idem_old xs k = (case map_of xs k of Some (Some old) \<Rightarrow> {#ie_addr old#} | _ \<Rightarrow> {#})"

lemma idem_addrs_Cons:
  "idem_addrs ((k, v) # xs) = (case v of Some e \<Rightarrow> {#ie_addr e#} | None \<Rightarrow> {#}) + idem_addrs xs"
  by (simp add: idem_addrs_def split: option.split)

lemma idem_old_absent: "k \<notin> fst ` set xs \<Longrightarrow> idem_old xs k = {#}"
  by (simp add: idem_old_def map_of_eq_None_iff [THEN iffD2])

lemma idem_old_Cons: "idem_old ((k', v) # xs) k =
  (if k' = k then (case v of Some e \<Rightarrow> {#ie_addr e#} | None \<Rightarrow> {#}) else idem_old xs k)"
  by (simp add: idem_old_def split: option.split)

lemma idem_addrs_set:
  "distinct (map fst xs) \<Longrightarrow> idem_addrs (dict_set xs k (Some e)) + idem_old xs k = idem_addrs xs + {#ie_addr e#}"
proof (induction xs)
  case (Cons x xs)
  obtain k' v where x: "x = (k', v)" by force
  then show ?case using Cons
    by (cases "k' = k") (simp_all add: idem_addrs_Cons idem_old_Cons union_assoc)
qed (simp add: idem_addrs_def idem_old_def)

lemma idem_addrs_del:
  "distinct (map fst xs) \<Longrightarrow> idem_addrs (dict_del xs k) + idem_old xs k = idem_addrs xs"
proof (induction xs)
  case (Cons x xs)
  obtain k' v where x: "x = (k', v)" by force
  show ?case
  proof (cases "k' = k")
    case True
    then have "k \<notin> fst ` set xs" using Cons x by auto
    then have "dict_del (x # xs) k = xs" using True x dict_del_id [of k xs] by (simp add: dict_del_def)
    then show ?thesis using True x by (simp add: idem_addrs_Cons idem_old_Cons)
  next
    case False
    then have "dict_del (x # xs) k = x # dict_del xs k" using x by (simp add: dict_del_def)
    then show ?thesis using False Cons x by (simp add: idem_addrs_Cons idem_old_Cons union_assoc)
  qed
qed (simp add: idem_addrs_def dict_del_def idem_old_def)

lemma idem_accounted_put:
  assumes inv: "idem_inv c" and own: "idem_own c"
    and put: "tool_idem_put now c key r ttl = Some (True, c')"
  shows "idem_accounted c' = add_mset (ic_next c) (idem_accounted c)" "idem_own c'"
proof -
  let ?e = "\<lparr>ie_addr = ic_next c, ie_result = r, ie_expiry = now + idem_ttl ttl\<rparr>"
  let ?xs = "omap_abs (ic_map c)"
  obtain m fs where c': "c' = c\<lparr>ic_map := m, ic_next := Suc (ic_next c), ic_files := fs\<rparr>"
    and m: "omap_abs m = dict_set ?xs key (Some ?e)" "om_value_free m = om_value_free (ic_map c)"
      "om_freed m = om_freed (ic_map c) @ omap_displaced (ic_map c) key (Some ?e)"
    using put by (rule_tac tool_idem_put_run [OF inv, of now key r ttl]) auto
  have d: "distinct (map fst ?xs)" using inv by (simp add: idem_inv_def od.dict_distinct)
  have old: "image_mset ie_addr (mset (omap_displaced (ic_map c) key (Some ?e))) = idem_old ?xs key"
  proof (cases "map_of ?xs key")
    case None
    then show ?thesis by (simp add: omap_displaced_def idem_old_def)
  next
    case (Some v)
    then obtain e where e: "v = Some e" "(key, Some e) \<in> set ?xs"
      using inv by (force simp: idem_inv_def dest: map_of_SomeD)
    then have "ie_addr e \<in># idem_accounted c"
      by (force simp: idem_accounted_def idem_live_def)
    then have "e \<noteq> ?e" using own by (auto simp: idem_own_def)
    then show ?thesis using Some e own
      by (simp add: omap_displaced_def idem_old_def omap_released_def idem_own_def)
  qed
  have "idem_accounted c' = idem_addrs (dict_set ?xs key (Some ?e)) + idem_old ?xs key + mset (map ie_addr (om_freed (ic_map c)))"
    by (simp add: idem_accounted_def idem_live_def idem_addrs_def c' m old union_assoc union_commute union_lcomm)
  also have "\<dots> = idem_addrs ?xs + {#ic_next c#} + mset (map ie_addr (om_freed (ic_map c)))"
    unfolding idem_addrs_set [OF d] by simp
  finally show acc: "idem_accounted c' = add_mset (ic_next c) (idem_accounted c)"
    by (simp add: idem_accounted_def idem_live_def idem_addrs_def)
  have "ic_next c \<notin># idem_accounted c" using own by (auto simp: idem_own_def)
  then show "idem_own c'"
    using own acc m(2) by (auto simp: idem_own_def c' not_in_iff)
qed

lemma idem_accounted_invalidate:
  assumes inv: "idem_inv c" and own: "idem_own c"
  shows "idem_accounted (snd (tool_idem_invalidate c key)) = idem_accounted c"
proof -
  let ?xs = "omap_abs (ic_map c)"
  obtain m where m: "omap_erase (ic_map c) key = (key \<in> fst ` set ?xs, m)"
    "omap_abs m = dict_del ?xs key"
    "om_freed m = om_freed (ic_map c) @ omap_released (ic_map c) (omap_get (ic_map c) key)"
    using inv by (rule_tac omap_erase_spec [of "ic_map c" key]) (auto simp: idem_inv_def omap_good_def)
  have d: "distinct (map fst ?xs)" using inv by (simp add: idem_inv_def od.dict_distinct)
  have old: "image_mset ie_addr (mset (omap_released (ic_map c) (omap_get (ic_map c) key))) = idem_old ?xs key"
    using od.dict_fetch [of "ic_map c" key] inv own
    by (auto simp: idem_inv_def omap_released_def idem_old_def idem_own_def split: option.split)
  have "idem_accounted (snd (tool_idem_invalidate c key))
      = idem_addrs (dict_del ?xs key) + idem_old ?xs key + mset (map ie_addr (om_freed (ic_map c)))"
    by (simp add: tool_idem_invalidate_def m idem_accounted_def idem_live_def idem_addrs_def old
        union_assoc union_commute union_lcomm)
  then show ?thesis unfolding idem_addrs_del [OF d]
    by (simp add: idem_accounted_def idem_live_def idem_addrs_def)
qed

lemma idem_accounted_get:
  assumes inv: "idem_inv c"
  shows "idem_accounted (snd (tool_idem_get now c key)) =
     idem_accounted c - (case omap_get (ic_map c) key of
        Some e \<Rightarrow> if ie_expiry e \<le> now then {#ie_addr e#} else {#} | None \<Rightarrow> {#})"
proof -
  let ?xs = "omap_abs (ic_map c)"
  obtain bs where bs: "idem_malloc c = (True, c\<lparr>ic_map := ic_map c\<lparr>om_mem := bs\<rparr>\<rparr>)"
    by (rule idem_malloc_ok [OF inv])
  have d: "distinct (map fst ?xs)" using inv by (simp add: idem_inv_def od.dict_distinct)
  obtain m where m: "omap_pop (ic_map c) key = (omap_get (ic_map c) key, m)"
    "omap_abs m = dict_del ?xs key" "om_freed m = om_freed (ic_map c)"
    using inv by (rule_tac omap_pop_ok [of "ic_map c" key]) (auto simp: idem_inv_def omap_good_def)
  show ?thesis
  proof (cases "omap_get (ic_map c) key")
    case None
    then show ?thesis by (simp add: tool_idem_get_def)
  next
    case (Some e)
    show ?thesis
    proof (cases "ie_expiry e \<le> now")
      case True
      have "idem_old ?xs key = {#ie_addr e#}"
        using od.dict_fetch [of "ic_map c" key] inv Some
        by (auto simp: idem_inv_def idem_old_def bind_eq_Some_conv dest!: sym [of "Some e"])
      then have "idem_addrs (dict_del ?xs key) + {#ie_addr e#} = idem_addrs ?xs"
        using idem_addrs_del [OF d, of key] by simp
      then have "idem_addrs (dict_del ?xs key) = idem_addrs ?xs - {#ie_addr e#} \<and> ie_addr e \<in># idem_addrs ?xs"
        by (metis add_diff_cancel_right' union_single_eq_member add_mset_add_single)
      then show ?thesis using Some True m
        by (simp add: tool_idem_get_def idem_accounted_def idem_live_def idem_addrs_def multiset_diff_union_assoc)
    next
      case False
      then show ?thesis using Some bs
        by (simp add: tool_idem_get_def idem_accounted_def idem_live_def)
    qed
  qed
qed

section \<open>The saved file\<close>

text \<open>Text the save loop escapes correctly: no backslash, no control character.\<close>

definition idem_plain :: "string \<Rightarrow> bool" where
  "idem_plain s \<longleftrightarrow> (\<forall>c \<in> set s. c \<noteq> CHR 0x5C \<and> (of_char c :: int) \<ge> 32)"

lemma idem_plain_char:
  assumes "idem_plain s" "c \<in> set s"
  shows "c \<noteq> CHR 0x5C" "(of_char d :: int) < 32 \<Longrightarrow> c \<noteq> d" "(of_char c :: int) < 32 \<longleftrightarrow> False"
proof -
  have p: "c \<noteq> CHR 0x5C" "32 \<le> (of_char c :: int)"
    using assms unfolding idem_plain_def by blast+
  then show "c \<noteq> CHR 0x5C" "(of_char c :: int) < 32 \<longleftrightarrow> False" by simp_all
  show "c \<noteq> d" if "(of_char d :: int) < 32" using p(2) that by force
qed

lemma idem_escape_plain: "idem_plain s \<Longrightarrow> idem_quoted (idem_escape s) = ser_put_escaped s"
proof -
  assume p: "idem_plain s"
  have "(if c = CHR 0x22 then [CHR 0x5C, c] else [c]) = ser_char c" if "c \<in> set s" for c
  proof -
    have "c \<noteq> CHR 8" "c \<noteq> CHR 12" "c \<noteq> CHR 10" "c \<noteq> CHR 13" "c \<noteq> CHR 9"
      by (rule idem_plain_char(2) [OF p that], simp)+
    then show ?thesis using idem_plain_char(1,3) [OF p that] by (simp add: ser_char_def)
  qed
  then show ?thesis by (simp add: idem_quoted_def idem_escape_def ser_put_escaped_def cong: map_cong)
qed

lemma idem_plain_nul_free: "idem_plain s \<Longrightarrow> json_nul_free s"
  unfolding json_nul_free_def by (intro ballI idem_plain_char(2)) simp_all

definition idem_tree :: "(int \<Rightarrow> 'n) \<Rightarrow> string \<times> idem_entry option \<Rightarrow> 'n json" where
  "idem_tree num kv = JObject [(''key'', JString (fst kv)), (''result'', JString (ie_result (the (snd kv)))),
     (''expiry'', JNumber (num (ie_expiry (the (snd kv)))))]"

definition idem_saves :: "int \<Rightarrow> idem_cache \<Rightarrow> bool" where
  "idem_saves now c \<longleftrightarrow> (\<forall>kv \<in> set (omap_abs (ic_map c)). idem_plain (fst kv)
     \<and> idem_plain (ie_result (the (snd kv))) \<and> now < ie_expiry (the (snd kv)))"

lemma ser_put_escaped_lit:
  "ser_put_escaped ''key'' = idem_quoted ''key''" "ser_put_escaped ''result'' = idem_quoted ''result''"
  "ser_put_escaped ''expiry'' = idem_quoted ''expiry''"
  by (simp_all add: ser_put_escaped_def idem_quoted_def ser_char_def)

lemma idem_save_items_text:
  assumes inv: "idem_inv c" and sv: "idem_saves now c"
    and fmt: "\<And>kv. kv \<in> set (omap_abs (ic_map c)) \<Longrightarrow>
      ser_number env (num (ie_expiry (the (snd kv)))) = c_dec (ie_expiry (the (snd kv)))"
    and i: "i \<le> length (omap_abs (ic_map c))"
  shows "idem_save_items now (ic_map c) [i..<length (omap_abs (ic_map c))] =
     Some (ser_elems env (i = 0) (map (idem_tree num) (drop i (omap_abs (ic_map c)))) 0 0)"
  using i
proof (induction i rule: inc_induct)
  case (step n)
  let ?xs = "omap_abs (ic_map c)"
  obtain k e where e: "?xs ! n = (k, Some e)" "omap_at (ic_map c) n = Some (Some k, Some e)"
    by (rule idem_item [OF inv step(2)])
  have s: "idem_plain k" "idem_plain (ie_result e)" "now < ie_expiry e"
    using sv step(2) e nth_mem [of n ?xs] by (force simp: idem_saves_def)+
  have f: "ser_number env (num (ie_expiry e)) = c_dec (ie_expiry e)"
    using fmt [OF nth_mem [OF step(2)]] e by simp
  have d: "drop n ?xs = (k, Some e) # drop (Suc n) ?xs"
    using Cons_nth_drop_Suc [OF step(2)] e by simp
  show ?case
    unfolding upt_conv_Cons [OF step(2)] d
    using step.IH e s
    by (simp add: idem_save_item_def idem_tree_def idem_escape_plain ser_put_escaped_lit ser_indent_def f)
qed simp

lemma idem_save_text:
  assumes "idem_inv c" "idem_saves now c"
    and "\<And>kv. kv \<in> set (omap_abs (ic_map c)) \<Longrightarrow>
      ser_number env (num (ie_expiry (the (snd kv)))) = c_dec (ie_expiry (the (snd kv)))"
    and "ic_persist_path c = Some p" "ic_wok c"
  shows "idem_save now c = Some (c\<lparr>ic_files := (ic_files c)(p \<mapsto>
     json_serialize env (JArray (map (idem_tree num) (omap_abs (ic_map c)))))\<rparr>)"
proof -
  have "omap_size (ic_map c) = length (omap_abs (ic_map c))"
    using od.dict_count [of "ic_map c"] assms(1) by (simp add: idem_inv_def)
  then show ?thesis
    using idem_save_items_text [OF assms(1,2,3), of 0] assms(4,5)
    by (simp add: idem_save_def json_serialize_def ser_indent_def)
qed

section \<open>Loading the saved file\<close>

lemma json_scan_number_chars:
  assumes "json_scan_number s = (tok, r)" "c \<in> set tok"
  shows "c_isdigit c \<or> c \<in> set ''-+.eE''"
proof -
  have dig: "\<forall>c \<in> set a. c_isdigit c" if "json_digits t = (a, u)" for t a u
    using that by (auto simp: json_digits_def dest: set_takeWhileD)
  have opt: "set a \<subseteq> set cs" if "json_opt cs t = (a, u)" for cs t a u
    using that by (auto simp: json_opt_def split: list.splits if_splits)
  show ?thesis
    using assms unfolding json_scan_number_def Let_def
    by (auto split: prod.splits if_splits dest!: dig opt)
qed

lemma json_nul_free_Cons [simp]: "json_nul_free []" "json_nul_free (c # s) \<longleftrightarrow> c \<noteq> CHR 0x00 \<and> json_nul_free s"
  by (simp_all add: json_nul_free_def)

lemma json_nul_free_append [simp]: "json_nul_free (s @ t) \<longleftrightarrow> json_nul_free s \<and> json_nul_free t"
  by (auto simp: json_nul_free_def)

lemma ser_put_escaped_nul_free: "json_nul_free s \<Longrightarrow> json_nul_free (ser_put_escaped s)"
proof -
  have hex: "json_hex_digit (of_char c div 16) \<noteq> CHR 0x00" "json_hex_digit (of_char c mod 16) \<noteq> CHR 0x00"
    if "(of_char c :: int) < 32" for c
  proof -
    define i :: int where "i = of_char c"
    have "0 \<le> i" "i < 32" using that by (simp_all add: i_def)
    then have "0 \<le> i div 16" "i div 16 < 16" "0 \<le> i mod 16" "i mod 16 < 16" by auto
    then have "c_digit_val (json_hex_digit (of_char c div 16)) < 16" "c_digit_val (json_hex_digit (of_char c mod 16)) < 16"
      by (simp_all add: json_hex_digit_val i_def [symmetric])
    moreover have "c_digit_val (CHR 0x00) = 99" by (simp add: c_digit_val_def c_tolower_def)
    ultimately show "json_hex_digit (of_char c div 16) \<noteq> CHR 0x00" "json_hex_digit (of_char c mod 16) \<noteq> CHR 0x00"
      by (auto)
  qed
  have "json_nul_free (ser_char c)" if "c \<noteq> CHR 0x00" for c
    using that hex [of c] by (simp add: ser_char_def json_u_escape_def)
  then have "json_nul_free (concat (map ser_char s))" if "json_nul_free s" for s
    using that by (induction s) simp_all
  moreover assume "json_nul_free s"
  ultimately show ?thesis by (simp add: ser_put_escaped_def)
qed

lemma ser_indent_nul_free: "json_nul_free (ser_indent i d)"
  by (auto simp: json_nul_free_def ser_indent_def)

lemma ser_node_nul_free:
  "json_wf env v \<Longrightarrow> json_nul_free (ser_node env v d i)"
  "(\<forall>x \<in> set xs. json_wf env x) \<Longrightarrow> json_nul_free (ser_elems env first xs d i)"
  "(\<forall>kv \<in> set kvs. json_nul_free (fst kv) \<and> json_wf env (snd kv)) \<Longrightarrow> json_nul_free (ser_members env first kvs d i)"
proof (induction env v d i and env first xs d i and env first kvs d i
    rule: ser_node_ser_elems_ser_members.induct)
  case (3 env n d i)
  have "c_isdigit c \<or> c \<in> set ''-+.eE''" if "c \<in> set (ser_number env n)" for c
    using json_scan_number_chars [of "ser_number env n" "ser_number env n" "[]" c] 3 that
    by (simp add: json_num_ok_def Let_def)
  then show ?case by (fastforce simp: json_nul_free_def c_isdigit_def)
qed (simp_all add: ser_put_escaped_nul_free ser_indent_nul_free)

lemma c_str_nul_free: "json_nul_free s \<Longrightarrow> c_str s = s"
  by (auto simp: c_str_def json_nul_free_def)

text \<open>What reads observe of a cache: results and expiry times, not addresses.\<close>

definition idem_view_of :: "(string \<times> idem_entry option) list \<Rightarrow> (string \<times> (string \<times> int) option) list" where
  "idem_view_of xs = map (\<lambda>(k, v). (k, map_option (\<lambda>e. (ie_result e, ie_expiry e)) v)) xs"

lemma map_of_idem_view: "map_of (idem_view_of xs) k = map_option (map_option (\<lambda>e. (ie_result e, ie_expiry e))) (map_of xs k)"
  by (induction xs) (auto simp: idem_view_of_def)

lemma tool_idem_get_view:
  assumes "idem_inv c"
  shows "fst (tool_idem_get now c k) = (case map_of (idem_view_of (omap_abs (ic_map c))) k of
      Some (Some (r, exp)) \<Rightarrow> if exp \<le> now then None else Some r | _ \<Rightarrow> None)"
  using od.dict_fetch [of "ic_map c" k] assms
  by (auto simp: tool_idem_get_value map_of_idem_view idem_inv_def split: option.split)

lemma idem_load_item_tree:
  assumes inv: "idem_inv c" and new: "k \<notin> fst ` set (omap_abs (ic_map c))"
    and ll: "id_llong env (num (ie_expiry e)) = ie_expiry e" and live: "now < ie_expiry e"
  obtains c' where "idem_load_item env now (idem_tree num (k, Some e)) c = Some c'" "idem_inv c'"
    "idem_view_of (omap_abs (ic_map c')) = idem_view_of (omap_abs (ic_map c)) @ [(k, Some (ie_result e, ie_expiry e))]"
    "fst ` set (omap_abs (ic_map c')) = insert k (fst ` set (omap_abs (ic_map c)))"
proof -
  let ?e = "\<lparr>ie_addr = ic_next c, ie_result = ie_result e, ie_expiry = ie_expiry e\<rparr>"
  obtain b1 where 1: "idem_malloc c = (True, c\<lparr>ic_map := ic_map c\<lparr>om_mem := b1\<rparr>\<rparr>)"
    "idem_inv (c\<lparr>ic_map := ic_map c\<lparr>om_mem := b1\<rparr>\<rparr>)" by (rule idem_malloc_ok [OF inv])
  define c1 where "c1 = c\<lparr>ic_map := ic_map c\<lparr>om_mem := b1\<rparr>\<rparr>"
  obtain b2 where 2: "idem_malloc c1 = (True, c1\<lparr>ic_map := ic_map c1\<lparr>om_mem := b2\<rparr>\<rparr>)"
    "idem_inv (c1\<lparr>ic_map := ic_map c1\<lparr>om_mem := b2\<rparr>\<rparr>)"
    by (rule idem_malloc_ok [of c1]) (use 1(2) c1_def in auto)
  define m2 where "m2 = ic_map c\<lparr>om_mem := b2\<rparr>"
  have m2: "omap_good m2" using 2(2) by (simp add: idem_inv_def m2_def c1_def)
  obtain m where m: "omap_set m2 k (Some ?e) = Some (True, m)" "omap_good m"
    "omap_abs m = dict_set (omap_abs m2) k (Some ?e)"
    using od.dict_store [OF m2] by metis
  have app: "omap_abs m = omap_abs (ic_map c) @ [(k, Some ?e)]"
    using m(3) dict_set_new [OF new] by (simp add: m2_def)
  define c' where "c' = c\<lparr>ic_map := m, ic_next := Suc (ic_next c)\<rparr>"
  have "idem_load_item env now (idem_tree num (k, Some e)) c = Some c'"
    using 1(1) 2(1) m(1) ll live
    by (simp add: idem_load_item_def idem_tree_def json_get_str_def json_get_num_def json_obj_get_def Let_def
        c1_def m2_def c'_def)
  moreover have "idem_inv c'" using m(2) app inv by (auto simp: idem_inv_def c'_def)
  ultimately show ?thesis using app by (intro that [where c' = c']) (simp_all add: c'_def idem_view_of_def)
qed

lemma idem_load_items_tree:
  assumes "idem_inv c" "distinct (map fst xs)" "fst ` set xs \<inter> fst ` set (omap_abs (ic_map c)) = {}"
    and "\<And>kv. kv \<in> set xs \<Longrightarrow> snd kv \<noteq> None \<and> now < ie_expiry (the (snd kv))
       \<and> id_llong env (num (ie_expiry (the (snd kv)))) = ie_expiry (the (snd kv))"
  shows "\<exists>c'. idem_load_items env now (map (idem_tree num) xs) c = Some c' \<and> idem_inv c'
     \<and> idem_view_of (omap_abs (ic_map c')) = idem_view_of (omap_abs (ic_map c)) @ idem_view_of xs"
  using assms
proof (induction xs arbitrary: c)
  case Nil
  then show ?case by (simp add: idem_view_of_def)
next
  case (Cons x xs)
  obtain k v where kv: "x = (k, v)" by force
  obtain e where x: "x = (k, Some e)" using Cons.prems(4) [of x] kv by auto
  obtain c1 where c1: "idem_load_item env now (idem_tree num (k, Some e)) c = Some c1" "idem_inv c1"
    "idem_view_of (omap_abs (ic_map c1)) = idem_view_of (omap_abs (ic_map c)) @ [(k, Some (ie_result e, ie_expiry e))]"
    "fst ` set (omap_abs (ic_map c1)) = insert k (fst ` set (omap_abs (ic_map c)))"
  proof (rule idem_load_item_tree [OF Cons.prems(1), of k env num e now])
    show "k \<notin> fst ` set (omap_abs (ic_map c))" using Cons.prems(3) x by auto
    show "id_llong env (num (ie_expiry e)) = ie_expiry e" "now < ie_expiry e"
      using Cons.prems(4) [of x] x by simp_all
  qed
  have "\<exists>c'. idem_load_items env now (map (idem_tree num) xs) c1 = Some c' \<and> idem_inv c'
     \<and> idem_view_of (omap_abs (ic_map c')) = idem_view_of (omap_abs (ic_map c1)) @ idem_view_of xs"
    by (rule Cons.IH [OF c1(2)]) (use Cons.prems c1(4) x in auto)
  then show ?case using c1 by (auto simp: x idem_view_of_def)
qed

lemma idem_restart:
  assumes inv: "idem_inv c" and sv: "idem_saves now c"
    and ok: "\<And>kv. kv \<in> set (omap_abs (ic_map c)) \<Longrightarrow> json_num_ok (id_num env) (num (ie_expiry (the (snd kv))))
        \<and> id_llong env (num (ie_expiry (the (snd kv)))) = ie_expiry (the (snd kv))"
    and fl: "files p = Some (json_serialize (id_num env) (JArray (map (idem_tree num) (omap_abs (ic_map c)))))"
  obtains c2 where "tool_idem_attach env now (Some p) (tool_idem_new [] files wok) = Some c2" "idem_inv c2"
    "idem_view_of (omap_abs (ic_map c2)) = idem_view_of (omap_abs (ic_map c))"
proof -
  let ?xs = "omap_abs (ic_map c)"
  let ?t = "json_serialize (id_num env) (JArray (map (idem_tree num) ?xs))"
  have wf: "json_wf (id_num env) (JArray (map (idem_tree num) ?xs))"
    using sv ok by (fastforce simp: idem_tree_def idem_saves_def idem_plain_nul_free)
  then have parse: "json_parse (id_num env) (c_str ?t) = JParsed (JArray (map (idem_tree num) ?xs))"
    using json_serialize_parse_lemma [OF wf] ser_node_nul_free(1) [OF wf, of 0 0]
    by (simp add: c_str_nul_free json_serialize_def)
  have ne: "?t \<noteq> []" by (simp add: json_serialize_def)
  define c0 where "c0 = tool_idem_new [] files wok"
  have i0: "idem_inv c0" "ic_map c0 = omap_new True []" "ic_files c0 = files"
    by (simp_all add: c0_def idem_inv_new) (simp_all add: tool_idem_new_def)
  have mal: "idem_malloc c' = (True, c')" if "ic_map c' = omap_new True []" for c'
    using that by (cases c') (simp add: idem_malloc_def omap_malloc_def omap_new_def)
  define c1 where "c1 = c0\<lparr>ic_persist_path := Some p\<rparr>"
  have i1: "idem_inv c1" "omap_abs (ic_map c1) = []" "ic_map c1 = omap_new True []"
    using i0 by (simp_all add: c1_def omap_new_ok)
  have "distinct (map fst ?xs)" using inv by (simp add: idem_inv_def od.dict_distinct)
  then have "\<exists>c2. idem_load_items env now (map (idem_tree num) ?xs) c1 = Some c2 \<and> idem_inv c2
     \<and> idem_view_of (omap_abs (ic_map c2)) = idem_view_of (omap_abs (ic_map c1)) @ idem_view_of ?xs"
    by (rule idem_load_items_tree [OF i1(1)]) (use i1(2) inv sv ok in \<open>auto simp: idem_inv_def idem_saves_def\<close>)
  then obtain c2 where c2: "idem_load_items env now (map (idem_tree num) ?xs) c1 = Some c2" "idem_inv c2"
    "idem_view_of (omap_abs (ic_map c2)) = idem_view_of ?xs"
    using i1(2) by (auto simp: idem_view_of_def)
  have "tool_idem_attach env now (Some p) c0 = idem_load env now p c1"
    using mal i0 by (simp add: tool_idem_attach_def c1_def Let_def)
  also have "\<dots> = Some c2"
    using fl i0(3) ne mal [OF i1(3)] parse c2(1) by (simp add: idem_load_def c1_def)
  finally show ?thesis using c2 by (intro that [of c2]) (simp_all add: c0_def)
qed

section \<open>Properties\<close>

text \<open>
  C25. A retried tool call: after \<open>tool_idem_put\<close> the result is returned for the key until its
  time to live (600 s when none is given) has passed, and only until then; every other key
  reads as before, and the cache stays well-formed.
\<close>

theorem tool_idem_retry_returns_first:
  assumes "idem_inv c"
  shows "\<exists>c'. tool_idem_put now c key r ttl = Some (True, c') \<and> idem_inv c'
     \<and> fst (tool_idem_get t c' key) = (if t < now + (if ttl > 0 then ttl else 600) then Some r else None)
     \<and> (k \<noteq> key \<longrightarrow> fst (tool_idem_get t c' k) = fst (tool_idem_get t c k))"
proof (rule tool_idem_put_run [OF assms, of now key r ttl])
  fix m fs
  let ?c = "c\<lparr>ic_map := m, ic_next := Suc (ic_next c), ic_files := fs\<rparr>"
  assume run: "tool_idem_put now c key r ttl = Some (True, ?c)" and inv: "idem_inv ?c"
    and m: "omap_abs m = dict_set (omap_abs (ic_map c)) key
       (Some \<lparr>ie_addr = ic_next c, ie_result = r, ie_expiry = now + idem_ttl ttl\<rparr>)"
  have get: "omap_get m k' = Option.bind (map_of (omap_abs m) k') id" for k'
    using od.dict_fetch [of m k'] inv by (simp add: idem_inv_def)
  have get0: "omap_get (ic_map c) k' = Option.bind (map_of (omap_abs (ic_map c)) k') id" for k'
    using od.dict_fetch [of "ic_map c" k'] assms by (simp add: idem_inv_def)
  show ?thesis
    using run inv by (intro exI [of _ ?c])
      (simp add: tool_idem_get_value [OF inv] tool_idem_get_value [OF assms] get get0 m
        idem_ttl_def IDEM_DEFAULT_TTL_def)
qed

theorem tool_idem_retry_returns_first_witness:
  "\<exists>c'. tool_idem_put 100 (tool_idem_new [] Map.empty True) ''mail|x'' ''sent'' 0 = Some (True, c')
     \<and> fst (tool_idem_get 699 c' ''mail|x'') = Some ''sent''"
  using tool_idem_retry_returns_first [OF idem_inv_new [of Map.empty True], of 100 "''mail|x''" "''sent''" 0 699 "''mail|x''"]
  by auto

text \<open>
  Memory accounting. Each successful put allocates one entry; putting and invalidating
  never free an entry twice or while it is still stored, and lose none. The lazy drop in
  \<open>tool_idem_get\<close> is the exception: an expired entry leaves the map without being freed,
  because \<open>omap_pop\<close> calls no destructor.
\<close>

theorem tool_idem_memory:
  assumes "idem_inv c" and "idem_own c"
  shows "(\<exists>c'. tool_idem_put now c key r ttl = Some (True, c') \<and> idem_own c'
        \<and> idem_accounted c' = add_mset (ic_next c) (idem_accounted c))
     \<and> idem_accounted (snd (tool_idem_invalidate c key)) = idem_accounted c
     \<and> idem_accounted (snd (tool_idem_get now c key)) = idem_accounted c -
         (case omap_get (ic_map c) key of
            Some e \<Rightarrow> if ie_expiry e \<le> now then {#ie_addr e#} else {#} | None \<Rightarrow> {#})"
proof -
  obtain c' where "tool_idem_put now c key r ttl = Some (True, c')"
    using tool_idem_put_run [OF assms(1), of now key r ttl] by metis
  then show ?thesis
    using idem_accounted_put [OF assms] idem_accounted_invalidate [OF assms] idem_accounted_get [OF assms(1)]
    by blast
qed

theorem tool_idem_memory_witness:
  "idem_own (tool_idem_new [] Map.empty True)
   \<and> (\<exists>c'. tool_idem_put 0 (tool_idem_new [] Map.empty True) ''a'' ''x'' 1 = Some (True, c')
        \<and> idem_accounted c' = {#0#})"
proof -
  have own: "idem_own (tool_idem_new [] Map.empty True)"
    by (simp add: idem_own_def idem_accounted_def idem_live_def tool_idem_new_def omap_new_def)
  moreover have "idem_accounted (tool_idem_new [] Map.empty True) = {#}" "ic_next (tool_idem_new [] Map.empty True) = 0"
    by (simp_all add: idem_accounted_def idem_live_def tool_idem_new_def omap_new_def)
  ultimately show ?thesis
    using tool_idem_memory [OF idem_inv_new own, of 0 "''a''" "''x''" 1] by auto
qed

text \<open>
  C27. Restart: when no stored entry has expired, the texts hold no backslash and no control
  character, and the expiry times survive \<open>printf\<close> and \<open>strtod\<close>, a save followed by
  attaching the file to a new cache gives a cache that answers every read, at every time,
  as the old one does.
\<close>

theorem tool_idem_survives_restart:
  assumes "idem_inv c" and "idem_saves now c" and "ic_persist_path c = Some p" and "ic_wok c"
    and num: "\<forall>kv \<in> set (omap_abs (ic_map c)). let x = num (ie_expiry (the (snd kv))) in
      ser_number (id_num env) x = c_dec (ie_expiry (the (snd kv))) \<and> json_num_ok (id_num env) x
      \<and> id_llong env x = ie_expiry (the (snd kv))"
  shows "\<exists>c1 c2. idem_save now c = Some c1
     \<and> tool_idem_attach env now (Some p) (tool_idem_new [] (ic_files c1) wok) = Some c2
     \<and> (\<forall>t k. fst (tool_idem_get t c2 k) = fst (tool_idem_get t c k))"
proof -
  let ?t = "json_serialize (id_num env) (JArray (map (idem_tree num) (omap_abs (ic_map c))))"
  have sv: "idem_save now c = Some (c\<lparr>ic_files := (ic_files c)(p \<mapsto> ?t)\<rparr>)"
    by (rule idem_save_text) (use assms in \<open>simp_all add: Let_def\<close>)
  obtain c2 where "tool_idem_attach env now (Some p) (tool_idem_new [] ((ic_files c)(p \<mapsto> ?t)) wok) = Some c2"
    "idem_inv c2" "idem_view_of (omap_abs (ic_map c2)) = idem_view_of (omap_abs (ic_map c))"
    by (rule idem_restart [OF assms(1,2), of env num "(ic_files c)(p \<mapsto> ?t)" p wok])
       (use num in \<open>simp_all add: Let_def\<close>)
  then show ?thesis using sv by (simp add: tool_idem_get_view [OF assms(1)] tool_idem_get_view)
qed

definition idem_int_env :: "int idem_env" where
  "idem_int_env = \<lparr>id_num = json_int_num, id_zero = 0, id_llong = id\<rparr>"

definition idem_demo :: "int \<Rightarrow> string \<Rightarrow> string \<Rightarrow> int \<Rightarrow> idem_cache option \<Rightarrow> idem_cache option" where
  "idem_demo now key r ttl c = Option.bind c (\<lambda>c. map_option snd (tool_idem_put now c key r ttl))"

definition idem_attached :: "idem_cache option" where
  "idem_attached = tool_idem_attach idem_int_env 0 (Some ''f'') (tool_idem_new [] Map.empty True)"

theorem tool_idem_survives_restart_witness:
  "\<exists>c c1 c2. idem_demo 0 ''a'' ''x'' 7 idem_attached = Some c \<and> idem_save 1 c = Some c1
     \<and> tool_idem_attach idem_int_env 1 (Some ''f'') (tool_idem_new [] (ic_files c1) True) = Some c2
     \<and> fst (tool_idem_get 2 c2 ''a'') = fst (tool_idem_get 2 c ''a'')"
proof -
  have at: "idem_attached = Some ((tool_idem_new [] Map.empty True)\<lparr>ic_persist_path := Some ''f''\<rparr>)"
    by (simp add: idem_attached_def tool_idem_attach_def tool_idem_new_def idem_malloc_def omap_malloc_def
        omap_new_def idem_load_def)
  let ?start = "(tool_idem_new [] Map.empty True)\<lparr>ic_persist_path := Some ''f''\<rparr>"
  have i0: "idem_inv ?start" by (simp add: idem_inv_new)
  show ?thesis
  proof (rule tool_idem_put_run [OF i0, of 0 "''a''" "''x''" 7])
    fix m fs
    let ?c = "?start\<lparr>ic_map := m, ic_next := Suc (ic_next ?start), ic_files := fs\<rparr>"
    assume run: "tool_idem_put 0 ?start ''a'' ''x'' 7 = Some (True, ?c)" and inv: "idem_inv ?c"
      and m: "omap_abs m = dict_set (omap_abs (ic_map ?start)) ''a''
       (Some \<lparr>ie_addr = ic_next ?start, ie_result = ''x'', ie_expiry = 0 + idem_ttl 7\<rparr>)"
    have abs: "omap_abs (ic_map ?c) = [(''a'', Some \<lparr>ie_addr = 0, ie_result = ''x'', ie_expiry = 7\<rparr>)]"
      using m by (simp add: tool_idem_new_def omap_new_def idem_ttl_def)
    have "c_udec 7 = ''7''" by code_simp
    then have n: "ser_number json_int_num 7 = c_dec 7 \<and> json_num_ok json_int_num 7"
      by (simp add: json_num_ok_def json_int_num_def ser_number_def c_dec_def c_isdigit_def json_scan_number_def
          json_opt_def json_digits_def c_strtol_def c_isspace_def c_digit_val_def c_tolower_def Let_def)
    have "\<exists>c1 c2. idem_save 1 ?c = Some c1
       \<and> tool_idem_attach idem_int_env 1 (Some ''f'') (tool_idem_new [] (ic_files c1) True) = Some c2
       \<and> (\<forall>t k. fst (tool_idem_get t c2 k) = fst (tool_idem_get t ?c k))"
      by (rule tool_idem_survives_restart [where num = id])
         (use inv abs n in \<open>simp_all add: idem_saves_def idem_plain_def idem_int_env_def tool_idem_new_def\<close>)
    moreover have "idem_demo 0 ''a'' ''x'' 7 idem_attached = Some ?c"
      unfolding at idem_demo_def using run by simp
    ultimately show ?thesis by blast
  qed
qed

text \<open>
  Both restrictions of the previous property are needed. The separator is written for
  every index but 0, so when the entry at index 0 has expired the file starts with \<open>[,\<close> and
  a restart loses the whole cache; and a backslash is written unescaped, so a result
  ending in backslash-n comes back with a newline.
\<close>

theorem tool_idem_save_corrupts:
  "(case idem_demo 5 ''b'' ''y'' 100 (idem_demo 0 ''a'' ''x'' 1 idem_attached) of None \<Rightarrow> False | Some c \<Rightarrow>
      fst (tool_idem_get 6 c ''b'') = Some ''y''
      \<and> (case tool_idem_attach idem_int_env 6 (Some ''f'') (tool_idem_new [] (ic_files c) True) of
           None \<Rightarrow> False | Some c2 \<Rightarrow> fst (tool_idem_get 6 c2 ''b'') = None))
   \<and> (case idem_demo 0 ''a'' [CHR 0x5C, CHR ''n''] 9 idem_attached of None \<Rightarrow> False | Some c \<Rightarrow>
      fst (tool_idem_get 1 c ''a'') = Some [CHR 0x5C, CHR ''n'']
      \<and> (case tool_idem_attach idem_int_env 1 (Some ''f'') (tool_idem_new [] (ic_files c) True) of
           None \<Rightarrow> False | Some c2 \<Rightarrow> fst (tool_idem_get 1 c2 ''a'') = Some [CHR 10]))"
  by code_simp

end
