(* ===== verification/ThinkScrubber.thy ===== *)
theory ThinkScrubber
  imports Slermes_Prelude
begin

text \<open>
  \<^verbatim>\<open>src/agent/think_scrubber.c\<close>: the streaming filter that removes reasoning blocks from
  assistant text. The state carries the text held back between deltas, whether the stream
  is inside a block, and whether the last emitted text ended a line. Positions are
  naturals; the -1 of a failed search is None. The NULL result is None. Allocations
  succeed; the capacities are kept because \<open>feed\<close> tests one of them.

  The two functions \<open>cli_agent_think_scrubber_*\<close> merged at the end of the file are the
  stateless variant.
\<close>

section \<open>Tags\<close>

definition OPEN_TAGS :: "string list" where
  "OPEN_TAGS = [''<think>'', ''<thinking>'', ''<reasoning>'', ''<thought>'', ''<REASONING_SCRATCHPAD>'']"

definition CLOSE_TAGS :: "string list" where
  "CLOSE_TAGS = [''</think>'', ''</thinking>'', ''</reasoning>'', ''</thought>'', ''</REASONING_SCRATCHPAD>'']"

text \<open>The tables filled by \<open>init_tags\<close>.\<close>

definition OPEN_TAGS_LOWER :: "string list" where
  "OPEN_TAGS_LOWER = map (map c_tolower) OPEN_TAGS"

definition CLOSE_TAGS_LOWER :: "string list" where
  "CLOSE_TAGS_LOWER = map (map c_tolower) CLOSE_TAGS"

definition MAX_TAG_CHAR_LEN :: nat where
  "MAX_TAG_CHAR_LEN = fold (\<lambda>t m. if length t > m then length t else m) (OPEN_TAGS @ CLOSE_TAGS) 0"

definition tag_at :: "string \<Rightarrow> nat \<Rightarrow> string \<Rightarrow> bool" where
  "tag_at text i tag_lower \<longleftrightarrow> map c_tolower (take (length tag_lower) (drop i text)) = tag_lower"

definition find_tag_lower :: "string \<Rightarrow> nat \<Rightarrow> string \<Rightarrow> nat option" where
  "find_tag_lower text offset tag_lower =
     (if offset + length tag_lower > length text then None
      else find (\<lambda>i. tag_at text i tag_lower) [offset..<Suc (length text - length tag_lower)])"

text \<open>One turn of the loop of \<open>find_closed_pair\<close>, for the \<open>i\<close>-th tag.\<close>

definition closed_pair_step :: "string \<Rightarrow> nat \<Rightarrow> (nat \<times> nat) option \<Rightarrow> (nat \<times> nat) option" where
  "closed_pair_step buf i acc =
     (case find_tag_lower buf 0 (OPEN_TAGS_LOWER ! i) of
        None \<Rightarrow> acc
      | Some opn \<Rightarrow>
          (case find_tag_lower buf (opn + length (OPEN_TAGS_LOWER ! i)) (CLOSE_TAGS_LOWER ! i) of
             None \<Rightarrow> acc
           | Some cls \<Rightarrow>
               let end = cls + length (CLOSE_TAGS_LOWER ! i) in
               (case acc of
                  None \<Rightarrow> Some (opn, end)
                | Some (s, e) \<Rightarrow> if opn < s then Some (opn, end) else acc)))"

definition find_closed_pair :: "string \<Rightarrow> (nat \<times> nat) option" where
  "find_closed_pair buf = fold (closed_pair_step buf) [0..<5] None"

definition blank_char :: "char \<Rightarrow> bool" where
  "blank_char c \<longleftrightarrow> c = CHR '' '' \<or> c = CHR 9 \<or> c = CHR 13"

definition is_boundary :: "string \<Rightarrow> nat \<Rightarrow> bool \<Rightarrow> bool" where
  "is_boundary buf idx last_nl =
     (if idx = 0 then last_nl
      else case find (\<lambda>i. buf ! i = CHR 10) (rev [0..<idx]) of
        None \<Rightarrow> last_nl \<and> (\<forall>i \<in> set [0..<idx]. blank_char (buf ! i) \<or> buf ! i = CHR 10)
      | Some found_nl \<Rightarrow> \<forall>i \<in> set [Suc found_nl..<idx]. blank_char (buf ! i))"

text \<open>\<open>partial_suffix_at text i\<close>: the last \<open>i\<close> characters begin some tag and are shorter
  than it.\<close>

definition partial_suffix_at :: "string \<Rightarrow> nat \<Rightarrow> bool" where
  "partial_suffix_at text i \<longleftrightarrow>
     (\<exists>t \<in> set (CLOSE_TAGS_LOWER @ OPEN_TAGS_LOWER).
        length t > i \<and> map c_tolower (drop (length text - i) text) = take i t)"

definition max_partial_suffix :: "string \<Rightarrow> nat" where
  "max_partial_suffix text =
     (let max_check = (if length text < MAX_TAG_CHAR_LEN - 1 then length text else MAX_TAG_CHAR_LEN - 1)
      in case find (partial_suffix_at text) (rev [1..<Suc max_check]) of None \<Rightarrow> 0 | Some i \<Rightarrow> i)"

text \<open>The first close tag that begins the text, in the order of the table.\<close>

definition close_tag_here :: "string \<Rightarrow> string option" where
  "close_tag_here text =
     (if take 2 text = ''</'' then
        find (\<lambda>t. length t \<le> length text \<and> tag_at text 0 t) CLOSE_TAGS_LOWER
      else None)"

lemma close_tag_here_nonempty: "close_tag_here text = Some t \<Longrightarrow> t \<noteq> []"
  by (auto simp: close_tag_here_def CLOSE_TAGS_LOWER_def CLOSE_TAGS_def split: if_splits)

function strip_orphan_loop :: "string \<Rightarrow> nat \<Rightarrow> string \<Rightarrow> string" where
  "strip_orphan_loop text cap out =
     (case text of
        [] \<Rightarrow> out
      | c # cs \<Rightarrow>
          (case close_tag_here text of
             Some t \<Rightarrow>
               strip_orphan_loop (dropWhile (\<lambda>c. blank_char c \<or> c = CHR 10) (drop (length t) text)) cap out
           | None \<Rightarrow> strip_orphan_loop cs cap (if length out < cap - 1 then out @ [c] else out)))"
  by pat_completeness auto
termination
  by (relation "measure (\<lambda>(text, cap, out). length text)")
    (auto intro!: le_less_trans [OF length_dropWhile_le] dest: close_tag_here_nonempty)

declare strip_orphan_loop.simps [simp del]

definition strip_orphan :: "string \<Rightarrow> nat \<Rightarrow> string" where
  "strip_orphan text cap = strip_orphan_loop text cap []"

definition think_scrubber_strip_orphan_close_tags :: "string \<Rightarrow> nat \<Rightarrow> string" where
  "think_scrubber_strip_orphan_close_tags src dst_cap = strip_orphan src dst_cap"

text \<open>The index of the tag that occurs first; the search keeps the best position beside it.\<close>

definition first_tag_step :: "string \<Rightarrow> nat \<Rightarrow> nat \<Rightarrow> (nat \<times> nat) option \<Rightarrow> (nat \<times> nat) option" where
  "first_tag_step text start i best =
     (case find_tag_lower text start (OPEN_TAGS_LOWER ! i) of
        None \<Rightarrow> best
      | Some pos \<Rightarrow> (case best of
            None \<Rightarrow> Some (pos, i)
          | Some (best_pos, _) \<Rightarrow> if pos < best_pos then Some (pos, i) else best))"

definition find_first_tag :: "string \<Rightarrow> nat \<Rightarrow> nat \<Rightarrow> nat option" where
  "find_first_tag text start tag_count =
     map_option snd (fold (first_tag_step text start) [0..<min tag_count 5] None)"

section \<open>The scrubber\<close>

record think_scrubber =
  ts_buf :: string
  ts_buf_cap :: nat
  ts_in_block :: bool
  ts_last_nl :: bool
  ts_out_cap :: nat

definition think_scrubber_new :: think_scrubber where
  "think_scrubber_new = \<lparr>ts_buf = [], ts_buf_cap = 4096, ts_in_block = False, ts_last_nl = True,
     ts_out_cap = 65536\<rparr>"

definition ts_reset :: "think_scrubber \<Rightarrow> think_scrubber" where
  "ts_reset sc = sc\<lparr>ts_buf := [], ts_in_block := False, ts_last_nl := True\<rparr>"

function grow_cap :: "nat \<Rightarrow> nat \<Rightarrow> nat" where
  "grow_cap nc needed = (if 0 < nc \<and> nc < needed + 1 then grow_cap (nc * 2) needed else nc)"
  by pat_completeness auto
termination by (relation "measure (\<lambda>(nc, needed). needed + 1 - nc)") auto

declare grow_cap.simps [simp del]

definition grow_buf :: "think_scrubber \<Rightarrow> nat \<Rightarrow> think_scrubber" where
  "grow_buf sc needed =
     (if needed + 1 \<le> ts_out_cap sc then sc else sc\<lparr>ts_out_cap := grow_cap (ts_out_cap sc) needed\<rparr>)"

definition grow_work :: "think_scrubber \<Rightarrow> nat \<Rightarrow> think_scrubber" where
  "grow_work sc needed =
     (if needed + 1 \<le> ts_buf_cap sc then sc else sc\<lparr>ts_buf_cap := grow_cap (ts_buf_cap sc) needed\<rparr>)"

text \<open>The earliest close tag at or after \<open>pos\<close>: its position and its end.\<close>

definition close_step :: "string \<Rightarrow> nat \<Rightarrow> nat \<Rightarrow> (nat \<times> nat) option \<Rightarrow> (nat \<times> nat) option" where
  "close_step w pos i acc =
     (case find_tag_lower w pos (CLOSE_TAGS_LOWER ! i) of
        None \<Rightarrow> acc
      | Some p \<Rightarrow>
          (case acc of
             None \<Rightarrow> Some (p, p + length (CLOSE_TAGS_LOWER ! i))
           | Some (cp, _) \<Rightarrow> if p < cp then Some (p, p + length (CLOSE_TAGS_LOWER ! i)) else acc))"

definition find_close :: "string \<Rightarrow> nat \<Rightarrow> (nat \<times> nat) option" where
  "find_close w pos = fold (close_step w pos) [0..<5] None"

text \<open>The earliest open tag at a boundary; each tag is tried at its first occurrence only.\<close>

definition open_step :: "string \<Rightarrow> nat \<Rightarrow> bool \<Rightarrow> nat \<Rightarrow> (nat \<times> nat) option \<Rightarrow> (nat \<times> nat) option" where
  "open_step w pos last_nl i acc =
     (case find_tag_lower w pos (OPEN_TAGS_LOWER ! i) of
        None \<Rightarrow> acc
      | Some p \<Rightarrow>
          if is_boundary w p last_nl \<and> (case acc of None \<Rightarrow> True | Some (q, _) \<Rightarrow> p < q)
          then Some (p, p + length (OPEN_TAGS_LOWER ! i)) else acc)"

definition find_open_boundary :: "string \<Rightarrow> nat \<Rightarrow> bool \<Rightarrow> (nat \<times> nat) option" where
  "find_open_boundary w pos last_nl = fold (open_step w pos last_nl) [0..<5] None"

text \<open>Emitting the stretch \<open>w[pos .. pos + n)\<close>: orphan close tags are stripped; None when the
  output would not fit.\<close>

definition ts_emit :: "think_scrubber \<Rightarrow> string \<Rightarrow> nat \<Rightarrow> nat \<Rightarrow> string \<Rightarrow> (think_scrubber \<times> string) option" where
  "ts_emit sc w pos n out =
     (if n > 0 then
        let tmp = strip_orphan (take n (drop pos w)) (n + 1); st = length tmp in
        if length out + st + 1 > ts_out_cap sc then None
        else Some (sc\<lparr>ts_last_nl := (st > 0 \<and> last tmp = CHR 10)\<rparr>, out @ tmp)
      else Some (sc, out))"

definition ts_result :: "string \<Rightarrow> string option" where
  "ts_result out = (if out \<noteq> [] then Some out else None)"

lemma find_tag_lower_bounds:
  "find_tag_lower w pos t = Some p \<Longrightarrow> pos \<le> p \<and> p + length t \<le> length w \<and> tag_at w p t"
  by (auto simp: find_tag_lower_def find_Some_iff nth_append split: if_splits)

text \<open>The closed pair at or after \<open>pos\<close>, as positions in the working text.\<close>

definition turn_pair :: "string \<Rightarrow> nat \<Rightarrow> (nat \<times> nat) option" where
  "turn_pair w pos = map_option (\<lambda>(ps, pe). (ps + pos, pe + pos)) (find_closed_pair (drop pos w))"

text \<open>One turn of the loop of \<open>feed\<close>: Inl is a return (the result and the state left behind), Inr
  goes on with the state, the position and the output.\<close>

definition feed_turn :: "think_scrubber \<Rightarrow> string \<Rightarrow> nat \<Rightarrow> string \<Rightarrow>
    (string option \<times> think_scrubber) + (think_scrubber \<times> nat \<times> string)" where
  "feed_turn sc w pos out =
     (if ts_in_block sc then
        (case find_close w pos of
           None \<Rightarrow>
             let held = max_partial_suffix (drop pos w)
             in Inl (ts_result out, sc\<lparr>ts_buf := drop (length w - held) w\<rparr>)
         | Some (cp, ce) \<Rightarrow> Inr (sc\<lparr>ts_in_block := False\<rparr>, ce, out))
      else
        let pair = turn_pair w pos;
            opn = find_open_boundary w pos (ts_last_nl sc)
        in case (pair, opn) of
             (Some (ps, pe), None) \<Rightarrow>
               (case ts_emit sc w pos (ps - pos) out of
                  None \<Rightarrow> Inl (None, sc)
                | Some (sc, out) \<Rightarrow> Inr (sc, pe, out))
           | (Some (ps, pe), Some (p, oe)) \<Rightarrow>
               if ps \<le> p then
                 (case ts_emit sc w pos (ps - pos) out of
                    None \<Rightarrow> Inl (None, sc)
                  | Some (sc, out) \<Rightarrow> Inr (sc, pe, out))
               else
                 (case ts_emit sc w pos (p - pos) out of
                    None \<Rightarrow> Inl (None, sc)
                  | Some (sc, out) \<Rightarrow> Inr (sc\<lparr>ts_in_block := True\<rparr>, oe, out))
           | (None, Some (p, oe)) \<Rightarrow>
               (case ts_emit sc w pos (p - pos) out of
                  None \<Rightarrow> Inl (None, sc)
                | Some (sc, out) \<Rightarrow> Inr (sc\<lparr>ts_in_block := True\<rparr>, oe, out))
           | (None, None) \<Rightarrow>
               let rem = length w - pos; held = max_partial_suffix (drop pos w); emit = rem - held
               in case ts_emit sc w pos emit out of
                    None \<Rightarrow> Inl (None, sc)
                  | Some (sc, out) \<Rightarrow> Inl (ts_result out, sc\<lparr>ts_buf := drop (pos + emit) w\<rparr>))"

text \<open>The loop of \<open>feed\<close>; the fuel is one more than the number of characters left, and each
  turn passes at least one.\<close>

fun feed_loop :: "nat \<Rightarrow> think_scrubber \<Rightarrow> string \<Rightarrow> nat \<Rightarrow> string \<Rightarrow> string option \<times> think_scrubber" where
  "feed_loop 0 sc w pos out = (ts_result out, sc\<lparr>ts_buf := []\<rparr>)"
| "feed_loop (Suc fuel) sc w pos out =
     (if pos < length w then
        (case feed_turn sc w pos out of
           Inl r \<Rightarrow> r
         | Inr (sc, pos, out) \<Rightarrow> feed_loop fuel sc w pos out)
      else (ts_result out, sc\<lparr>ts_buf := []\<rparr>))"

definition ts_feed :: "think_scrubber \<Rightarrow> string \<Rightarrow> string option \<times> think_scrubber" where
  "ts_feed sc text =
     (if text = [] then (None, sc)
      else let w = ts_buf sc @ text; comb = length w;
               sc = grow_work sc comb; sc = sc\<lparr>ts_buf := w\<rparr>; sc = grow_buf sc (comb + 1)
           in feed_loop (Suc comb) sc w 0 [])"

definition ts_flush :: "think_scrubber \<Rightarrow> string option \<times> think_scrubber" where
  "ts_flush sc =
     (if ts_in_block sc then (None, sc\<lparr>ts_buf := [], ts_in_block := False\<rparr>)
      else if ts_buf sc = [] then (None, sc)
      else let sc = grow_buf sc (length (ts_buf sc) + 1);
               out = strip_orphan (ts_buf sc) (ts_out_cap sc); sc = sc\<lparr>ts_buf := []\<rparr>
           in if out \<noteq> [] then (Some out, sc\<lparr>ts_last_nl := (last out = CHR 10)\<rparr>) else (None, sc))"

section \<open>The stateless variant\<close>

text \<open>\<open>strstr\<close>: the text from the first occurrence on.\<close>

fun c_strstr :: "string \<Rightarrow> string \<Rightarrow> string option" where
  "c_strstr [] n = (if n = [] then Some [] else None)"
| "c_strstr (c # cs) n = (if take (length n) (c # cs) = n then Some (c # cs) else c_strstr cs n)"

text \<open>The return value and the output buffer of \<open>size\<close> bytes; the output is None when untouched.\<close>

definition cli_agent_think_scrubber_feed :: "string \<Rightarrow> bool \<Rightarrow> nat \<Rightarrow> int \<times> string option" where
  "cli_agent_think_scrubber_feed delta in_think_block output_size =
     (if output_size = 0 then (-1, None)
      else if in_think_block then
        (case (c_strstr delta ''</think>'', c_strstr delta ''</thinking>'') of
           (Some close, _) \<Rightarrow> (0, Some (take (output_size - 1) (drop 8 close)))
         | (None, Some close) \<Rightarrow> (0, Some (take (output_size - 1) (drop 11 close)))
         | (None, None) \<Rightarrow> (1, Some []))
      else if c_strstr delta ''<think>'' \<noteq> None \<or> c_strstr delta ''<thinking>'' \<noteq> None then (1, Some [])
      else (0, Some (take (output_size - 1) delta)))"

definition cli_agent_think_scrubber_flush :: "string option \<Rightarrow> nat \<Rightarrow> int \<times> string option" where
  "cli_agent_think_scrubber_flush held_back output_size =
     (if output_size = 0 then (-1, None)
      else case held_back of
        Some h \<Rightarrow> (0, Some (take (output_size - 1) h))
      | None \<Rightarrow> (0, Some []))"

end
