(* ===== verification/ThinkScrubber_Correct.thy ===== *)
theory ThinkScrubber_Correct
  imports ThinkScrubber "HOL-Library.Sublist"
begin

text \<open>
  Correctness of the streaming reasoning scrubber: where tags can match, what text is held back,
  one turn of the loop and the whole loop, the reachable states, the run over a list of deltas,
  and the properties: the invariant of the held-back text, outputs are subsequences of the input,
  termination, removal of a block under every split of the stream, and the split that leaks.
\<close>

section \<open>Tags and positions\<close>

abbreviation all_tags :: "string list" where
  "all_tags \<equiv> CLOSE_TAGS_LOWER @ OPEN_TAGS_LOWER"

lemma MAX_TAG_CHAR_LEN_value [simp]: "MAX_TAG_CHAR_LEN = 23"
  by (simp add: MAX_TAG_CHAR_LEN_def OPEN_TAGS_def CLOSE_TAGS_def)

lemma length_tags [simp]: "length OPEN_TAGS_LOWER = 5" "length CLOSE_TAGS_LOWER = 5"
  by (simp_all add: OPEN_TAGS_LOWER_def CLOSE_TAGS_LOWER_def OPEN_TAGS_def CLOSE_TAGS_def)

lemma OPEN_TAGS_LOWER_code: "OPEN_TAGS_LOWER =
    [''<think>'', ''<thinking>'', ''<reasoning>'', ''<thought>'', ''<reasoning_scratchpad>'']"
  by code_simp

lemma CLOSE_TAGS_LOWER_code: "CLOSE_TAGS_LOWER =
    [''</think>'', ''</thinking>'', ''</reasoning>'', ''</thought>'', ''</reasoning_scratchpad>'']"
  by code_simp

lemma tags_shape: "t \<in> set all_tags \<Longrightarrow> (\<exists>u. t = CHR ''<'' # u \<and> CHR ''<'' \<notin> set u) \<and> 6 < length t \<and> length t \<le> 23"
  by (auto simp: OPEN_TAGS_LOWER_code CLOSE_TAGS_LOWER_code)

lemma tags_prefix_free: "s \<in> set all_tags \<Longrightarrow> t \<in> set all_tags \<Longrightarrow> prefix s t \<Longrightarrow> s = t"
proof -
  have "list_all (\<lambda>s. list_all (\<lambda>t. prefix s t \<longrightarrow> s = t) all_tags) all_tags" by code_simp
  then show "s \<in> set all_tags \<Longrightarrow> t \<in> set all_tags \<Longrightarrow> prefix s t \<Longrightarrow> s = t" by (simp only: list_all_iff)
qed

lemma open_tag_mem [simp]: "i < 5 \<Longrightarrow> OPEN_TAGS_LOWER ! i \<in> set all_tags"
  and close_tag_mem [simp]: "i < 5 \<Longrightarrow> CLOSE_TAGS_LOWER ! i \<in> set all_tags"
  by simp_all

lemma open_tag_inj: "i < 5 \<Longrightarrow> j < 5 \<Longrightarrow> OPEN_TAGS_LOWER ! i = OPEN_TAGS_LOWER ! j \<longleftrightarrow> i = j"
  by (subst nth_eq_iff_index_eq) (simp_all add: OPEN_TAGS_LOWER_code)

lemma c_tolower_lt [simp]: "c_tolower c = CHR ''<'' \<longleftrightarrow> c = CHR ''<''"
proof
  assume a: "c_tolower c = CHR ''<''"
  show "c = CHR ''<''"
  proof (cases "65 \<le> (of_char c :: int) \<and> (of_char c :: int) \<le> 90")
    case True
    then have "(of_char (c_tolower c) :: int) = of_char c + 32" by (simp add: c_tolower_def)
    with a True show ?thesis by simp
  qed (use a in \<open>auto simp: c_tolower_def split: if_splits\<close>)
qed (simp add: c_tolower_def)

lemma tag_at_prefix: "tag_at w i t \<longleftrightarrow> prefix t (map c_tolower (drop i w))"
  by (metis tag_at_def append_eq_conv_conj prefix_def take_map)

lemma tag_at_shift: "tag_at (drop p w) i t \<longleftrightarrow> tag_at w (p + i) t"
  by (simp add: tag_at_def add.commute)

lemma tag_at_first: "tag_at w i t \<Longrightarrow> t \<in> set all_tags \<Longrightarrow> i + length t \<le> length w \<and> w ! i = CHR ''<''"
proof -
  assume a: "tag_at w i t" "t \<in> set all_tags"
  from a(1) obtain z where z: "map c_tolower (drop i w) = t @ z" unfolding tag_at_prefix prefix_def by blast
  from tags_shape [OF a(2)] obtain u where u: "t = CHR ''<'' # u" "6 < length t" by blast
  have l: "length w - i = length t + length z" using arg_cong [OF z, of length] by simp
  have "c_tolower (drop i w ! 0) = CHR ''<''" using arg_cong [OF z, of "\<lambda>l. l ! 0"] u l by simp
  then show ?thesis using l u by simp
qed

lemma tag_at_rest: "tag_at w i t \<Longrightarrow> t \<in> set all_tags \<Longrightarrow> 0 < k \<Longrightarrow> k < length t \<Longrightarrow> w ! (i + k) \<noteq> CHR ''<''"
proof -
  assume a: "tag_at w i t" "t \<in> set all_tags" "0 < k" "k < length t"
  from a(1) obtain z where z: "map c_tolower (drop i w) = t @ z" unfolding tag_at_prefix prefix_def by blast
  from tags_shape [OF a(2)] obtain u where u: "t = CHR ''<'' # u" "CHR ''<'' \<notin> set u" by blast
  have l: "length w - i = length t + length z" using arg_cong [OF z, of length] by simp
  have ku: "k - 1 < length u" using a(3,4) u by auto
  have "c_tolower (drop i w ! k) = (t @ z) ! k" using arg_cong [OF z, of "\<lambda>l. l ! k"] a(4) l by simp
  also have "\<dots> = u ! (k - 1)" using u ku a(3) by (simp add: nth_append nth_Cons')
  finally have "c_tolower (w ! (i + k)) \<in> set u" using a(4) l ku by simp
  with u(2) show ?thesis by (metis c_tolower_lt)
qed

lemma tag_unique: "tag_at w i s \<Longrightarrow> tag_at w i t \<Longrightarrow> s \<in> set all_tags \<Longrightarrow> t \<in> set all_tags \<Longrightarrow> s = t"
  by (metis prefix_same_cases tag_at_prefix tags_prefix_free)

lemma find_tag_lower_None:
  "t \<in> set all_tags \<Longrightarrow> find_tag_lower w pos t = None \<longleftrightarrow> (\<forall>i \<ge> pos. \<not> tag_at w i t)"
  using tag_at_first [of w _ t] by (auto simp: find_tag_lower_def find_None_iff less_Suc_eq_le) fastforce+

lemma find_tag_lower_Some:
  assumes "t \<in> set all_tags"
  shows "find_tag_lower w pos t = Some p \<longleftrightarrow> pos \<le> p \<and> tag_at w p t \<and> (\<forall>i. pos \<le> i \<longrightarrow> i < p \<longrightarrow> \<not> tag_at w i t)"
    (is "?l \<longleftrightarrow> ?r")
proof
  assume ?l
  then obtain k where k: "p = pos + k" "tag_at w p t" "\<forall>j < k. \<not> tag_at w (pos + j) t"
    by (auto simp: find_tag_lower_def find_Some_iff simp del: upt_Suc split: if_splits)
  show ?r
  proof (intro conjI allI impI)
    fix i assume "pos \<le> i" "i < p"
    then show "\<not> tag_at w i t" using k(3) [rule_format, of "i - pos"] k(1) by simp
  qed (use k in simp_all)
next
  assume r: ?r
  with tag_at_first [OF _ assms] have "p + length t \<le> length w" by blast
  with r show ?l by (auto simp: find_tag_lower_def find_Some_iff simp del: upt_Suc intro!: exI [of _ "p - pos"])
qed

section \<open>Held-back text\<close>

definition held_prefix :: "string \<Rightarrow> bool" where
  "held_prefix u \<longleftrightarrow> (\<exists>t \<in> set all_tags. strict_prefix (map c_tolower u) t)"

lemma partial_suffix_at_iff: "i \<le> length w \<Longrightarrow> partial_suffix_at w i \<longleftrightarrow> held_prefix (drop (length w - i) w)"
proof -
  assume i: "i \<le> length w"
  have "length t > i \<and> map c_tolower (drop (length w - i) w) = take i t \<longleftrightarrow>
      strict_prefix (map c_tolower (drop (length w - i) w)) t" for t
  proof -
    have l: "length (map c_tolower (drop (length w - i) w)) = i" using i by simp
    show ?thesis
      by (metis l prefix_length_less strict_prefixE' append_eq_conv_conj take_is_prefix strict_prefix_def
        take_all nat_less_le length_take min.absorb4 nless_le)
  qed
  then show ?thesis by (simp add: partial_suffix_at_def held_prefix_def)
qed

lemma held_prefix_length: "held_prefix u \<Longrightarrow> length u \<le> 22"
proof -
  assume "held_prefix u"
  then obtain t where "t \<in> set all_tags" "strict_prefix (map c_tolower u) t" by (auto simp: held_prefix_def)
  then have "length u < length t" "length t \<le> 23" using prefix_length_less [of "map c_tolower u" t] tags_shape by auto
  then show ?thesis by simp
qed

lemma held_prefix_lt: "held_prefix u \<Longrightarrow> u \<noteq> [] \<Longrightarrow> hd u = CHR ''<'' \<and> CHR ''<'' \<notin> set (tl u)"
proof -
  assume a: "held_prefix u" "u \<noteq> []"
  then obtain t where t: "t \<in> set all_tags" "strict_prefix (map c_tolower u) t" by (auto simp: held_prefix_def)
  from t(2) obtain z where z: "t = map c_tolower u @ z" by (auto elim: strict_prefixE')
  from tags_shape [OF t(1)] obtain v where v: "t = CHR ''<'' # v" "CHR ''<'' \<notin> set v" by blast
  obtain x y where xy: "u = x # y" using a(2) by (cases u) auto
  have "c_tolower x = CHR ''<''" and vv: "v = map c_tolower y @ z" using z v(1) xy by simp_all
  moreover have "CHR ''<'' \<notin> set y"
  proof
    assume "CHR ''<'' \<in> set y"
    then have "c_tolower CHR ''<'' \<in> set v" unfolding vv by (simp del: c_tolower_lt)
    moreover have "c_tolower CHR ''<'' = CHR ''<''" by (simp only: c_tolower_lt)
    ultimately show False using v(2) by metis
  qed
  ultimately show ?thesis using xy by simp
qed

lemma max_partial_suffix_spec:
  shows "max_partial_suffix w \<le> length w"
    and "held_prefix (drop (length w - max_partial_suffix w) w)"
    and "\<And>i. i \<le> length w \<Longrightarrow> held_prefix (drop (length w - i) w) \<Longrightarrow> i \<le> max_partial_suffix w"
proof -
  define m where "m = (if length w < 22 then length w else 22)"
  have e: "max_partial_suffix w = (case find (partial_suffix_at w) (rev [1..<Suc m]) of None \<Rightarrow> 0 | Some i \<Rightarrow> i)"
    by (simp add: max_partial_suffix_def m_def Let_def)
  have h0: "held_prefix []" 
    unfolding held_prefix_def by (rule bexI [of _ "''<think>''"]) (simp_all add: strict_prefix_def OPEN_TAGS_LOWER_code)
  have r: "rev [Suc 0..<Suc m] ! k = m - k" if "k < m" for k using that by (simp add: rev_nth del: upt_Suc)
  have mw: "m \<le> length w" by (simp add: m_def)
  have "max_partial_suffix w \<le> m \<and> held_prefix (drop (length w - max_partial_suffix w) w) \<and>
     (\<forall>i \<le> length w. held_prefix (drop (length w - i) w) \<longrightarrow> i \<le> max_partial_suffix w)"
  proof (cases "find (partial_suffix_at w) (rev [1..<Suc m])")
    case None
    then have n: "\<not> partial_suffix_at w i" if "0 < i" "i \<le> m" for i using that by (auto simp: find_None_iff simp del: upt_Suc)
    have "i = 0" if "i \<le> length w" "held_prefix (drop (length w - i) w)" for i
    proof (rule ccontr)
      assume "i \<noteq> 0"
      moreover have "i \<le> m" using held_prefix_length [OF that(2)] that(1) by (simp add: m_def)
      ultimately show False using n [of i] that by (simp add: partial_suffix_at_iff)
    qed
    then show ?thesis using e None h0 by auto
  next
    case (Some p)
    then obtain k where k: "k < m" "partial_suffix_at w (m - k)" "p = m - k" "\<forall>j < k. \<not> partial_suffix_at w (m - j)"
      by (auto simp: find_Some_iff r simp del: upt_Suc)
    have p: "max_partial_suffix w = p" using Some by (simp add: e del: upt_Suc)
    have "i \<le> p" if "i \<le> length w" "held_prefix (drop (length w - i) w)" for i
    proof (rule ccontr)
      assume "\<not> i \<le> p"
      moreover have "i \<le> m" using held_prefix_length [OF that(2)] that(1) by (simp add: m_def)
      ultimately have "m - i < k" "m - (m - i) = i" using k(1,3) by auto
      then show False using k(4) [rule_format, of "m - i"] that by (simp add: partial_suffix_at_iff)
    qed
    then show ?thesis using k(1,2,3) mw by (auto simp: p partial_suffix_at_iff)
  qed
  then show "max_partial_suffix w \<le> length w" "held_prefix (drop (length w - max_partial_suffix w) w)"
    "\<And>i. i \<le> length w \<Longrightarrow> held_prefix (drop (length w - i) w) \<Longrightarrow> i \<le> max_partial_suffix w"
    using mw by auto
qed

lemma max_partial_suffix_plain: "CHR ''<'' \<notin> set w \<Longrightarrow> max_partial_suffix w = 0"
proof (rule ccontr)
  assume a: "CHR ''<'' \<notin> set w" "max_partial_suffix w \<noteq> 0"
  let ?d = "drop (length w - max_partial_suffix w) w"
  have "?d \<noteq> []" using a(2) max_partial_suffix_spec(1) [of w] by auto
  then have "CHR ''<'' \<in> set ?d" using held_prefix_lt [OF max_partial_suffix_spec(2)] by (metis hd_in_set)
  with a(1) show False by (meson in_set_dropD)
qed

text \<open>With a single \<open><\<close>, at the start of a tag's prefix, exactly that prefix is held back.\<close>

lemma max_partial_suffix_append:
  assumes "CHR ''<'' \<notin> set b" and "held_prefix u"
  shows "max_partial_suffix (b @ u) = length u"
proof (rule antisym)
  show "length u \<le> max_partial_suffix (b @ u)"
    using assms(2) by (intro max_partial_suffix_spec(3)) simp_all
  let ?m = "max_partial_suffix (b @ u)"
  show "?m \<le> length u"
  proof (rule ccontr)
    assume m: "\<not> ?m \<le> length u"
    let ?d = "drop (length (b @ u) - ?m) (b @ u)"
    from m have d: "?d = drop (length (b @ u) - ?m) b @ u" using max_partial_suffix_spec(1) [of "b @ u"] by simp
    have ne: "drop (length (b @ u) - ?m) b \<noteq> []" using m max_partial_suffix_spec(1) [of "b @ u"] by simp
    then have "?d \<noteq> []" by (simp add: d)
    from held_prefix_lt [OF max_partial_suffix_spec(2) this] have "hd ?d = CHR ''<''" by blast
    then have "hd (drop (length (b @ u) - ?m) b) = CHR ''<''" using ne d by simp
    then have "CHR ''<'' \<in> set b" using ne by (metis hd_in_set in_set_dropD)
    with assms(1) show False by blast
  qed
qed

section \<open>Orphan close tags\<close>

lemma strip_orphan_loop_Nil [simp]: "strip_orphan_loop [] cap out = out"
  by (simp add: strip_orphan_loop.simps)

lemma strip_orphan_loop_Cons:
  "strip_orphan_loop (c # cs) cap out =
     (case close_tag_here (c # cs) of
        Some t \<Rightarrow> strip_orphan_loop (dropWhile (\<lambda>c. blank_char c \<or> c = CHR 10) (drop (length t) (c # cs))) cap out
      | None \<Rightarrow> strip_orphan_loop cs cap (if length out < cap - 1 then out @ [c] else out))"
  by (subst strip_orphan_loop.simps) simp

lemma subseq_dropWhile: "subseq (dropWhile P xs) xs"
  by (metis suffix_dropWhile suffix_imp_subseq)

lemma strip_orphan_loop_subseq: "\<exists>z. strip_orphan_loop w cap out = out @ z \<and> subseq z w"
proof (induction w cap out rule: strip_orphan_loop.induct)
  case (1 w cap out)
  show ?case
  proof (cases w)
    case (Cons c cs)
    show ?thesis
    proof (cases "close_tag_here w")
      case None
      from 1(1) [OF Cons None] obtain z where
        z: "strip_orphan_loop cs cap (if length out < cap - 1 then out @ [c] else out) = (if length out < cap - 1 then out @ [c] else out) @ z"
          "subseq z cs" by blast
      then show ?thesis using None Cons by (auto simp: strip_orphan_loop_Cons intro: subseq_Cons')
    next
      case (Some t)
      from 1(2) [OF Cons Some] obtain z where
        z: "strip_orphan_loop (dropWhile (\<lambda>c. blank_char c \<or> c = CHR 10) (drop (length t) w)) cap out = out @ z"
          "subseq z (dropWhile (\<lambda>c. blank_char c \<or> c = CHR 10) (drop (length t) w))" by blast
      have "subseq z w"
        by (rule subseq_order.trans [OF z(2)], rule subseq_order.trans [OF subseq_dropWhile])
          (rule suffix_imp_subseq [OF suffix_drop])
      then show ?thesis using z(1) Some Cons by (auto simp: strip_orphan_loop_Cons)
    qed
  qed simp
qed

lemma strip_orphan_subseq: "subseq (strip_orphan w cap) w"
  using strip_orphan_loop_subseq [of w cap "[]"] by (auto simp: strip_orphan_def)

lemma strip_orphan_loop_plain:
  "CHR ''<'' \<notin> set w \<Longrightarrow> length out + length w < cap \<Longrightarrow> strip_orphan_loop w cap out = out @ w"
  by (induction w arbitrary: out) (auto simp: strip_orphan_loop_Cons close_tag_here_def)

lemma strip_orphan_plain: "CHR ''<'' \<notin> set w \<Longrightarrow> length w < cap \<Longrightarrow> strip_orphan w cap = w"
  by (simp add: strip_orphan_def strip_orphan_loop_plain)

section \<open>The searches of one turn\<close>

text \<open>All three folds keep a candidate that some tag supplied.\<close>

lemma fold_inv: "P a \<Longrightarrow> (\<And>x a. x \<in> set xs \<Longrightarrow> P a \<Longrightarrow> P (f x a)) \<Longrightarrow> P (fold f xs a)"
  by (induction xs arbitrary: a) auto

lemma find_close_bounds: "find_close w pos = Some (p, e) \<Longrightarrow> pos \<le> p \<and> p < e \<and> e \<le> length w"
proof -
  have "\<forall>p e. find_close w pos = Some (p, e) \<longrightarrow> pos \<le> p \<and> p < e \<and> e \<le> length w"
    unfolding find_close_def
  proof (rule fold_inv)
    fix i acc assume i: "i \<in> set [0..<5::nat]" and a: "\<forall>p e. acc = Some (p, e) \<longrightarrow> pos \<le> p \<and> p < e \<and> e \<le> length w"
    have "0 < length (CLOSE_TAGS_LOWER ! i)" using i tags_shape [OF close_tag_mem [of i]] by auto
    then show "\<forall>p e. close_step w pos i acc = Some (p, e) \<longrightarrow> pos \<le> p \<and> p < e \<and> e \<le> length w"
      using a by (auto simp: close_step_def dest: find_tag_lower_bounds split: option.splits if_splits)
  qed simp
  then show "find_close w pos = Some (p, e) \<Longrightarrow> pos \<le> p \<and> p < e \<and> e \<le> length w" by blast
qed

lemma find_open_boundary_bounds: "find_open_boundary w pos nl = Some (p, e) \<Longrightarrow> pos \<le> p \<and> p < e \<and> e \<le> length w"
proof -
  have "\<forall>p e. find_open_boundary w pos nl = Some (p, e) \<longrightarrow> pos \<le> p \<and> p < e \<and> e \<le> length w"
    unfolding find_open_boundary_def
  proof (rule fold_inv)
    fix i acc assume i: "i \<in> set [0..<5::nat]" and a: "\<forall>p e. acc = Some (p, e) \<longrightarrow> pos \<le> p \<and> p < e \<and> e \<le> length w"
    have "0 < length (OPEN_TAGS_LOWER ! i)" using i tags_shape [OF open_tag_mem [of i]] by auto
    then show "\<forall>p e. open_step w pos nl i acc = Some (p, e) \<longrightarrow> pos \<le> p \<and> p < e \<and> e \<le> length w"
      using a by (auto simp: open_step_def dest: find_tag_lower_bounds split: option.splits if_splits)
  qed simp
  then show "find_open_boundary w pos nl = Some (p, e) \<Longrightarrow> pos \<le> p \<and> p < e \<and> e \<le> length w" by blast
qed

lemma find_closed_pair_bounds: "find_closed_pair w = Some (p, e) \<Longrightarrow> p < e \<and> e \<le> length w"
proof -
  have "\<forall>p e. find_closed_pair w = Some (p, e) \<longrightarrow> p < e \<and> e \<le> length w"
    unfolding find_closed_pair_def
  proof (rule fold_inv)
    fix i acc assume i: "i \<in> set [0..<5::nat]" and a: "\<forall>p e. acc = Some (p, e) \<longrightarrow> p < e \<and> e \<le> length w"
    have "6 < length (CLOSE_TAGS_LOWER ! i)" using i tags_shape [OF close_tag_mem [of i]] by auto
    then show "\<forall>p e. closed_pair_step w i acc = Some (p, e) \<longrightarrow> p < e \<and> e \<le> length w"
      using a by (auto simp: closed_pair_step_def Let_def dest!: find_tag_lower_bounds split: option.splits if_splits)
  qed simp
  then show "find_closed_pair w = Some (p, e) \<Longrightarrow> p < e \<and> e \<le> length w" by blast
qed

section \<open>One turn and the whole loop\<close>

text \<open>The capacity always suffices, a turn passes at least one character, and what it emits is a
  subsequence of what it passes.\<close>

definition turn_ok :: "think_scrubber \<Rightarrow> string \<Rightarrow> nat \<Rightarrow> string \<Rightarrow> bool" where
  "turn_ok sc w pos out \<longleftrightarrow> pos \<le> length w \<and> length out \<le> pos \<and> length w + 2 \<le> ts_out_cap sc"

lemma ts_emit_ok:
  assumes "turn_ok sc w pos out" and "pos + n \<le> length w"
  shows "\<exists>z nl. ts_emit sc w pos n out = Some (sc\<lparr>ts_last_nl := nl\<rparr>, out @ z) \<and> subseq z (take n (drop pos w))"
proof (cases "n = 0")
  case True
  then show ?thesis by (auto simp: ts_emit_def intro!: exI [of _ "ts_last_nl sc"])
next
  case False
  let ?z = "strip_orphan (take n (drop pos w)) (Suc n)"
  have s: "subseq ?z (take n (drop pos w))" by (rule strip_orphan_subseq)
  then have "length ?z \<le> n" using assms(2) by (metis list_emb_length length_take le_trans min.cobounded2)
  then show ?thesis using False assms s by (auto simp: ts_emit_def Let_def turn_ok_def)
qed

text \<open>The three ways a turn can go outside a block share this shape.\<close>

lemma emit_then:
  assumes "turn_ok sc w pos out" and "pos \<le> q" and "q < e" and "e \<le> length w"
    and "ts_emit sc w pos (q - pos) out = Some (sc1, out1)"
  shows "turn_ok sc1 w e out1 \<and> ts_out_cap sc1 = ts_out_cap sc \<and>
    (\<exists>z. out1 = out @ z \<and> subseq z (take (e - pos) (drop pos w)))"
proof -
  have "pos + (q - pos) \<le> length w" using assms(2-4) by simp
  from ts_emit_ok [OF assms(1) this] obtain z nl where
    e: "ts_emit sc w pos (q - pos) out = Some (sc\<lparr>ts_last_nl := nl\<rparr>, out @ z)" and
    s: "subseq z (take (q - pos) (drop pos w))" by blast
  have z: "sc1 = sc\<lparr>ts_last_nl := nl\<rparr>" "out1 = out @ z" using e assms(5) by simp_all
  have "take (q - pos) (drop pos w) = take (q - pos) (take (e - pos) (drop pos w))" using assms(3) by (simp add: min_def)
  then have "prefix (take (q - pos) (drop pos w)) (take (e - pos) (drop pos w))" by (metis take_is_prefix)
  then have s: "subseq z (take (e - pos) (drop pos w))"
    using s prefix_imp_subseq subseq_order.trans by blast
  have "length z \<le> e - pos" using list_emb_length [OF s] by simp
  then have "length out1 \<le> e" using z(2) assms(1-3) by (auto simp: turn_ok_def)
  then have "turn_ok sc1 w e out1" using z(1) assms(1,4) by (simp add: turn_ok_def)
  then show ?thesis using z s by auto
qed

lemma turn_pair_bounds: "turn_pair w pos = Some (p, e) \<Longrightarrow> pos \<le> p \<and> p < e \<and> (pos \<le> length w \<longrightarrow> e \<le> length w)"
  using find_closed_pair_bounds [of "drop pos w"] by (auto simp: turn_pair_def less_diff_conv)

lemma feed_turn_pair:
  assumes "\<not> ts_in_block sc" and "turn_pair w pos = Some (ps, pe)"
    and "\<And>p e. find_open_boundary w pos (ts_last_nl sc) = Some (p, e) \<Longrightarrow> ps \<le> p"
  shows "feed_turn sc w pos out = (case ts_emit sc w pos (ps - pos) out of
      None \<Rightarrow> Inl (None, sc) | Some (sc, out) \<Rightarrow> Inr (sc, pe, out))"
  using assms
  by (cases "find_open_boundary w pos (ts_last_nl sc)") (simp_all add: feed_turn_def Let_def split: prod.splits)

lemma feed_turn_open:
  assumes "\<not> ts_in_block sc" and "find_open_boundary w pos (ts_last_nl sc) = Some (p, e)"
    and "\<And>ps pe. turn_pair w pos = Some (ps, pe) \<Longrightarrow> p < ps"
  shows "feed_turn sc w pos out = (case ts_emit sc w pos (p - pos) out of
      None \<Rightarrow> Inl (None, sc) | Some (sc, out) \<Rightarrow> Inr (sc\<lparr>ts_in_block := True\<rparr>, e, out))"
proof (cases "turn_pair w pos")
  case None
  then show ?thesis using assms(1,2) None by (simp add: feed_turn_def Let_def)
next
  case (Some pp)
  obtain ps pe where pp: "pp = (ps, pe)" by (cases pp)
  then have "\<not> ps \<le> p" using assms(3) Some by fastforce
  then show ?thesis using assms(1,2) Some unfolding pp by (simp add: feed_turn_def Let_def)
qed

lemma feed_turn_plain:
  assumes "\<not> ts_in_block sc" and "turn_pair w pos = None" and "find_open_boundary w pos (ts_last_nl sc) = None"
    and "emit = length w - pos - max_partial_suffix (drop pos w)"
  shows "feed_turn sc w pos out = (case ts_emit sc w pos emit out of
      None \<Rightarrow> Inl (None, sc) | Some (sc, out) \<Rightarrow> Inl (ts_result out, sc\<lparr>ts_buf := drop (pos + emit) w\<rparr>))"
  unfolding assms(4) using assms(1-3) by (simp add: feed_turn_def Let_def)

lemma feed_turn_in_block:
  "ts_in_block sc \<Longrightarrow> feed_turn sc w pos out = (case find_close w pos of
      None \<Rightarrow> Inl (ts_result out, sc\<lparr>ts_buf := drop (length w - max_partial_suffix (drop pos w)) w\<rparr>)
    | Some (cp, ce) \<Rightarrow> Inr (sc\<lparr>ts_in_block := False\<rparr>, ce, out))"
  by (simp add: feed_turn_def Let_def split: option.split)

text \<open>So a turn outside a block is one of three.\<close>

lemma feed_turn_outside_cases:
  assumes "\<not> ts_in_block sc"
  obtains (skip) q e b where "pos \<le> q" "q < e" "pos \<le> length w \<Longrightarrow> e \<le> length w"
      "feed_turn sc w pos out = (case ts_emit sc w pos (q - pos) out of
         None \<Rightarrow> Inl (None, sc) | Some (sc, out) \<Rightarrow> Inr (sc\<lparr>ts_in_block := b\<rparr>, e, out))"
  | (plain) emit where "emit = length w - pos - max_partial_suffix (drop pos w)"
      "feed_turn sc w pos out = (case ts_emit sc w pos emit out of
         None \<Rightarrow> Inl (None, sc) | Some (sc, out) \<Rightarrow> Inl (ts_result out, sc\<lparr>ts_buf := drop (pos + emit) w\<rparr>))"
proof -
  let ?o = "find_open_boundary w pos (ts_last_nl sc)"
  have same: "(case ts_emit sc w pos n out of None \<Rightarrow> Inl (None, sc) | Some (sc, out) \<Rightarrow> Inr (sc, e, out)) =
      (case ts_emit sc w pos n out of
         None \<Rightarrow> Inl (None, sc) | Some (sc, out) \<Rightarrow> Inr (sc\<lparr>ts_in_block := False\<rparr>, e, out))" for n e
    using assms by (auto simp: ts_emit_def Let_def)
  consider (1) ps pe where "turn_pair w pos = Some (ps, pe)" "\<And>p e. ?o = Some (p, e) \<Longrightarrow> ps \<le> p"
    | (2) p e where "?o = Some (p, e)" "\<And>ps pe. turn_pair w pos = Some (ps, pe) \<Longrightarrow> p < ps"
    | (3) "turn_pair w pos = None" "?o = None"
    by (cases "turn_pair w pos"; cases ?o) (auto simp: not_le [symmetric])
  then show thesis
  proof cases
    case 1
    show thesis
      by (rule skip [of ps pe False]) (use turn_pair_bounds [OF 1(1)] feed_turn_pair [OF assms 1] same in auto)
  next
    case 2
    show thesis
      by (rule skip [of p e True]) (use find_open_boundary_bounds [OF 2(1)] feed_turn_open [OF assms 2] in auto)
  next
    case 3
    show thesis by (rule plain [OF refl feed_turn_plain [OF assms 3 refl]])
  qed
qed

lemma feed_turn_Inr:
  assumes ok: "turn_ok sc w pos out" and "pos < length w" and t: "feed_turn sc w pos out = Inr (sc1, e, out1)"
  shows "turn_ok sc1 w e out1 \<and> pos < e \<and> ts_out_cap sc1 = ts_out_cap sc \<and>
    (\<exists>z. out1 = out @ z \<and> subseq z (take (e - pos) (drop pos w)))"
proof (cases "ts_in_block sc")
  case True
  then obtain cp where "find_close w pos = Some (cp, e)" "sc1 = sc\<lparr>ts_in_block := False\<rparr>" "out1 = out"
    using t by (auto simp: feed_turn_in_block split: option.splits)
  then show ?thesis using ok find_close_bounds [of w pos cp e] by (auto simp: turn_ok_def)
next
  case False
  then show ?thesis
  proof (cases rule: feed_turn_outside_cases [of sc pos w out])
    case (skip q e' b)
    obtain sc2 out2 where e2: "ts_emit sc w pos (q - pos) out = Some (sc2, out2)"
      using t skip(4) by (auto split: option.splits)
    then have "sc1 = sc2\<lparr>ts_in_block := b\<rparr>" "e = e'" "out1 = out2" using t skip(4) by simp_all
    then show ?thesis using emit_then [OF ok skip(1,2) _ e2] skip assms(2) by (auto simp: turn_ok_def)
  next
    case (plain emit)
    then show ?thesis using t by (auto split: option.splits)
  qed
qed

lemma feed_turn_Inl:
  assumes ok: "turn_ok sc w pos out" and "pos < length w" and t: "feed_turn sc w pos out = Inl (r, sc1)"
  shows "\<exists>z. r = ts_result (out @ z) \<and> subseq (z @ ts_buf sc1) (drop pos w) \<and> held_prefix (ts_buf sc1) \<and>
    ts_out_cap sc1 = ts_out_cap sc"
proof (cases "ts_in_block sc")
  case True
  let ?m = "max_partial_suffix (drop pos w)"
  have "?m \<le> length w - pos" using max_partial_suffix_spec(1) [of "drop pos w"] by simp
  then have d: "drop (length w - ?m) w = drop (length (drop pos w) - ?m) (drop pos w)" using assms(2) by simp
  have r: "r = ts_result out" "sc1 = sc\<lparr>ts_buf := drop (length w - ?m) w\<rparr>"
    using True t by (auto simp: feed_turn_in_block split: option.splits)
  have "suffix (drop (length w - ?m) w) (drop pos w)" unfolding d by (rule suffix_drop)
  then have "subseq (drop (length w - ?m) w) (drop pos w)" by (rule suffix_imp_subseq)
  moreover have "held_prefix (drop (length w - ?m) w)" unfolding d by (rule max_partial_suffix_spec(2))
  ultimately show ?thesis using r by (auto intro!: exI [of _ "[]"])
next
  case False
  then show ?thesis
  proof (cases rule: feed_turn_outside_cases [of sc pos w out])
    case (skip q e b)
    have "pos + (q - pos) \<le> length w" using skip assms(2) by simp
    from ts_emit_ok [OF ok this] show ?thesis using t skip(4) by auto
  next
    case (plain emit)
    let ?m = "max_partial_suffix (drop pos w)"
    have m: "?m \<le> length w - pos" using max_partial_suffix_spec(1) [of "drop pos w"] by simp
    have "pos + emit \<le> length w" using plain(1) assms(2) by simp
    from ts_emit_ok [OF ok this] obtain z nl where
      e: "ts_emit sc w pos emit out = Some (sc\<lparr>ts_last_nl := nl\<rparr>, out @ z)" and
      s: "subseq z (take emit (drop pos w))" by blast
    have r: "r = ts_result (out @ z)" "sc1 = sc\<lparr>ts_last_nl := nl, ts_buf := drop (pos + emit) w\<rparr>"
      using t plain(2) e by simp_all
    have d: "drop (pos + emit) w = drop (length (drop pos w) - ?m) (drop pos w)"
      using m plain(1) assms(2) by (simp add: add.commute)
    have "subseq (z @ drop emit (drop pos w)) (take emit (drop pos w) @ drop emit (drop pos w))"
      using s by (intro list_emb_append_mono) simp_all
    then have "subseq (z @ drop (pos + emit) w) (drop pos w)"
      unfolding append_take_drop_id by (simp add: add.commute)
    moreover have "held_prefix (drop (pos + emit) w)" unfolding d by (rule max_partial_suffix_spec(2))
    ultimately show ?thesis using r by auto
  qed
qed

lemma held_prefix_Nil [simp]: "held_prefix []"
  unfolding held_prefix_def by (rule bexI [of _ "''<think>''"]) (simp_all add: strict_prefix_def OPEN_TAGS_LOWER_code)

lemma feed_loop_ok:
  assumes "turn_ok sc w pos out" and "length w - pos < fuel"
  shows "\<exists>z r sc1. feed_loop fuel sc w pos out = (r, sc1) \<and> r = ts_result (out @ z) \<and>
    subseq (z @ ts_buf sc1) (drop pos w) \<and> held_prefix (ts_buf sc1) \<and> ts_out_cap sc1 = ts_out_cap sc"
  using assms
proof (induction fuel arbitrary: sc pos out)
  case (Suc fuel)
  show ?case
  proof (cases "pos < length w")
    case True
    show ?thesis
    proof (cases "feed_turn sc w pos out")
      case (Inl r)
      then show ?thesis using feed_turn_Inl [OF Suc.prems(1) True] True by (cases r) fastforce
    next
      case (Inr s)
      obtain sc1 e out1 where s: "s = (sc1, e, out1)" by (cases s)
      from feed_turn_Inr [OF Suc.prems(1) True Inr [unfolded s]] obtain z where
        n: "turn_ok sc1 w e out1" "pos < e" "ts_out_cap sc1 = ts_out_cap sc" "out1 = out @ z"
          "subseq z (take (e - pos) (drop pos w))" by blast
      have "length w - e < fuel" using n(2) Suc.prems(2) True by simp
      from Suc.IH [OF n(1) this] obtain y r sc2 where
        y: "feed_loop fuel sc1 w e out1 = (r, sc2)" "r = ts_result (out1 @ y)"
          "subseq (y @ ts_buf sc2) (drop e w)" "held_prefix (ts_buf sc2)" "ts_out_cap sc2 = ts_out_cap sc1"
        by blast
      have "take (e - pos) (drop pos w) @ drop e w = drop pos w"
        using append_take_drop_id [of "e - pos" "drop pos w"] n(2) by simp
      then have "subseq (z @ y @ ts_buf sc2) (drop pos w)"
        using list_emb_append_mono [OF n(5) y(3)] by simp
      then show ?thesis using y n True Inr s by (intro exI [of _ "z @ y"]) simp
    qed
  qed (auto intro!: exI [of _ "[]"])
qed simp

lemma feed_loop_fuel: 
  assumes "turn_ok sc w pos out" and "length w - pos < fuel"
  shows "feed_loop (fuel + k) sc w pos out = feed_loop fuel sc w pos out"
  using assms
proof (induction fuel arbitrary: sc pos out)
  case (Suc fuel)
  show ?case
  proof (cases "pos < length w \<and> (\<exists>s. feed_turn sc w pos out = Inr s)")
    case True
    then obtain sc1 e out1 where s: "feed_turn sc w pos out = Inr (sc1, e, out1)" by auto
    note n = feed_turn_Inr [OF Suc.prems(1) _ s]
    have "feed_loop (fuel + k) sc1 w e out1 = feed_loop fuel sc1 w e out1"
      using n True Suc.prems(2) by (intro Suc.IH) auto
    then show ?thesis using s by simp
  qed (auto split: sum.splits)
qed simp

section \<open>Reachable scrubbers\<close>

inductive ts_reach :: "think_scrubber \<Rightarrow> bool" where
  reach_new: "ts_reach think_scrubber_new"
| reach_reset: "ts_reach sc \<Longrightarrow> ts_reach (ts_reset sc)"
| reach_feed: "ts_reach sc \<Longrightarrow> ts_reach (snd (ts_feed sc delta))"
| reach_flush: "ts_reach sc \<Longrightarrow> ts_reach (snd (ts_flush sc))"

definition ts_inv :: "think_scrubber \<Rightarrow> bool" where
  "ts_inv sc \<longleftrightarrow> held_prefix (ts_buf sc) \<and> 0 < ts_out_cap sc"

definition ts_prepare :: "think_scrubber \<Rightarrow> string \<Rightarrow> think_scrubber" where
  "ts_prepare sc delta = grow_buf ((grow_work sc (length (ts_buf sc @ delta)))\<lparr>ts_buf := ts_buf sc @ delta\<rparr>) (length (ts_buf sc @ delta) + 1)"

lemma ts_feed_loop: "delta \<noteq> [] \<Longrightarrow>
    ts_feed sc delta = feed_loop (Suc (length (ts_buf sc @ delta))) (ts_prepare sc delta) (ts_buf sc @ delta) 0 []"
  by (simp add: ts_feed_def ts_prepare_def Let_def del: feed_loop.simps)

lemma grow_cap_enough: "0 < nc \<Longrightarrow> needed + 1 \<le> grow_cap nc needed"
  by (induction nc needed rule: grow_cap.induct) (subst grow_cap.simps, simp add: not_less)

lemma ts_prepare_fields [simp]:
  "ts_in_block (ts_prepare sc d) = ts_in_block sc" "ts_last_nl (ts_prepare sc d) = ts_last_nl sc"
  by (simp_all add: ts_prepare_def grow_buf_def grow_work_def)

lemma ts_prepare_ok: "0 < ts_out_cap sc \<Longrightarrow> turn_ok (ts_prepare sc d) (ts_buf sc @ d) 0 []"
  using grow_cap_enough [of "ts_out_cap sc" "length (ts_buf sc @ d) + 1"]
  by (simp add: ts_prepare_def turn_ok_def grow_buf_def grow_work_def)

lemma turn_ok_cap: "turn_ok sc w pos out \<Longrightarrow> 0 < ts_out_cap sc"
  by (simp add: turn_ok_def)

definition ts_text :: "string option \<Rightarrow> string" where
  "ts_text r = (case r of None \<Rightarrow> [] | Some s \<Rightarrow> s)"

lemma ts_text_result [simp]: "ts_text (ts_result s) = s"
  by (simp add: ts_text_def ts_result_def)

lemma ts_feed_ok:
  assumes "ts_inv sc" and "ts_feed sc d = (r, sc1)"
  shows "ts_inv sc1 \<and> subseq (ts_text r @ ts_buf sc1) (ts_buf sc @ d)"
proof (cases "d = []")
  case True
  then show ?thesis using assms by (auto simp: ts_feed_def ts_text_def)
next
  case False
  have ok: "turn_ok (ts_prepare sc d) (ts_buf sc @ d) 0 []" using assms(1) by (simp add: ts_inv_def ts_prepare_ok)
  have "length (ts_buf sc @ d) - 0 < Suc (length (ts_buf sc @ d))" by simp
  from feed_loop_ok [OF ok this] show ?thesis
    using assms(2) turn_ok_cap [OF ok] False by (auto simp: ts_feed_loop ts_inv_def)
qed

lemma ts_flush_ok:
  assumes "ts_inv sc" and "ts_flush sc = (r, sc1)"
  shows "ts_inv sc1 \<and> subseq (ts_text r) (ts_buf sc)"
proof -
  have "0 < grow_cap (ts_out_cap sc) n" if "0 < ts_out_cap sc" for n using grow_cap_enough [OF that, of n] by simp
  then show ?thesis using assms
    by (auto simp: ts_flush_def ts_inv_def ts_text_def Let_def grow_buf_def strip_orphan_subseq split: if_splits)
qed

lemma ts_reach_inv: "ts_reach sc \<Longrightarrow> ts_inv sc"
proof (induction rule: ts_reach.induct)
  case reach_new
  then show ?case by (simp add: ts_inv_def think_scrubber_new_def)
next
  case (reach_feed sc delta)
  then show ?case using ts_feed_ok [of sc delta] by (metis prod.collapse)
next
  case (reach_flush sc)
  then show ?case using ts_flush_ok [of sc] by (metis prod.collapse)
qed (simp add: ts_inv_def ts_reset_def)

fun ts_run :: "think_scrubber \<Rightarrow> string list \<Rightarrow> string" where
  "ts_run sc [] = ts_text (fst (ts_flush sc))"
| "ts_run sc (d # ds) = (let (r, sc1) = ts_feed sc d in ts_text r @ ts_run sc1 ds)"

lemma ts_run_subseq_lemma: "ts_inv sc \<Longrightarrow> subseq (ts_run sc ds) (ts_buf sc @ concat ds)"
proof (induction ds arbitrary: sc)
  case Nil
  then show ?case using ts_flush_ok [of sc] by (cases "ts_flush sc") auto
next
  case (Cons d ds)
  obtain r sc1 where f: "ts_feed sc d = (r, sc1)" by (cases "ts_feed sc d")
  from ts_feed_ok [OF Cons.prems f] have i: "ts_inv sc1" and s: "subseq (ts_text r @ ts_buf sc1) (ts_buf sc @ d)" by auto
  have "subseq (ts_text r @ ts_run sc1 ds) (ts_text r @ ts_buf sc1 @ concat ds)"
    using Cons.IH [OF i] by (intro list_emb_append_mono) simp_all
  also have "subseq \<dots> ((ts_buf sc @ d) @ concat ds)"
    using list_emb_append_mono [OF s, of "concat ds" "concat ds"] by simp
  finally show ?case using f by simp
qed

text \<open>C35. In every reachable state the held-back text is a proper prefix of one of the ten tags,
  so at most 22 characters of the model's answer are ever delayed, and the output buffer exists.\<close>

theorem ts_held_back_invariant:
  assumes "ts_reach sc"
  shows "(\<exists>t \<in> set (CLOSE_TAGS_LOWER @ OPEN_TAGS_LOWER). strict_prefix (map c_tolower (ts_buf sc)) t)
    \<and> length (ts_buf sc) \<le> 22 \<and> 0 < ts_out_cap sc"
  using ts_reach_inv [OF assms] held_prefix_length by (auto simp: ts_inv_def held_prefix_def)

lemma ts_held_back_invariant_witness:
  "length (ts_buf (snd (ts_feed think_scrubber_new ''a <thi''))) \<le> 22"
  using ts_held_back_invariant [OF reach_feed [OF reach_new, of "''a <thi''"]] by blast

text \<open>C30. The scrubber only ever removes text: whatever the deltas, the concatenation of all
  outputs, with the final flush, is a subsequence of the text held back followed by the deltas. No
  character is invented, repeated or moved.\<close>

theorem ts_output_subsequence:
  assumes "ts_reach sc"
  shows "subseq (ts_run sc ds) (ts_buf sc @ concat ds)"
  by (rule ts_run_subseq_lemma [OF ts_reach_inv [OF assms]])

lemma ts_output_subsequence_witness:
  "subseq (ts_run think_scrubber_new [''<thi'', ''nk>a</think> b'']) ''<think>a</think> b''"
  using ts_output_subsequence [OF reach_new, of "[''<thi'', ''nk>a</think> b'']"]
  by (simp add: think_scrubber_new_def)

text \<open>The loop of \<open>feed\<close> terminates: from a reachable state it returns within as many turns as
  the working text has characters plus one (more fuel changes nothing), and it never takes the
  return for an output that does not fit its buffer: the result is the emitted text, NULL only when
  that is empty.\<close>

theorem ts_feed_terminates:
  assumes "ts_reach sc" and "delta \<noteq> []"
  shows "feed_loop (Suc (length (ts_buf sc @ delta)) + k) (ts_prepare sc delta) (ts_buf sc @ delta) 0 [] = ts_feed sc delta
    \<and> (\<exists>z. fst (ts_feed sc delta) = ts_result z \<and> subseq z (ts_buf sc @ delta))"
proof
  have ok: "turn_ok (ts_prepare sc delta) (ts_buf sc @ delta) 0 []"
    using ts_reach_inv [OF assms(1)] by (simp add: ts_inv_def ts_prepare_ok)
  have l: "length (ts_buf sc @ delta) - 0 < Suc (length (ts_buf sc @ delta))" by simp
  show "feed_loop (Suc (length (ts_buf sc @ delta)) + k) (ts_prepare sc delta) (ts_buf sc @ delta) 0 [] = ts_feed sc delta"
    unfolding ts_feed_loop [OF assms(2)] by (rule feed_loop_fuel [OF ok l])
  from feed_loop_ok [OF ok l] obtain z r sc1 where e: "feed_loop (Suc (length (ts_buf sc @ delta)))
      (ts_prepare sc delta) (ts_buf sc @ delta) 0 [] = (r, sc1)" "r = ts_result z"
      and s: "subseq (z @ ts_buf sc1) (ts_buf sc @ delta)" unfolding drop_0 append_Nil by blast
  have "fst (ts_feed sc delta) = ts_result z" unfolding ts_feed_loop [OF assms(2)] e by simp
  moreover have "subseq z (ts_buf sc @ delta)"
    by (rule subseq_order.trans [OF prefix_imp_subseq s]) simp
  ultimately show "\<exists>z. fst (ts_feed sc delta) = ts_result z \<and> subseq z (ts_buf sc @ delta)" by blast
qed

lemma ts_feed_terminates_witness:
  "\<exists>z. fst (ts_feed think_scrubber_new ''a <b'') = ts_result z \<and> subseq z ''a <b''"
  using ts_feed_terminates [OF reach_new, of "''a <b''" 0] by (simp add: think_scrubber_new_def)

section \<open>A block split anywhere\<close>

text \<open>\<open>block i o c\<close>: \<open>o\<close> and \<open>c\<close> are the \<open>i\<close>-th open and close tag in some letter case.\<close>

definition tag_pair :: "nat \<Rightarrow> string \<Rightarrow> string \<Rightarrow> bool" where
  "tag_pair i op cl \<longleftrightarrow> i < 5 \<and> map c_tolower op = OPEN_TAGS_LOWER ! i \<and> map c_tolower cl = CLOSE_TAGS_LOWER ! i"

abbreviation plain_text :: "string \<Rightarrow> bool" where
  "plain_text s \<equiv> CHR ''<'' \<notin> set s"

lemma tag_at_plain: "t \<in> set all_tags \<Longrightarrow> plain_text (drop pos w) \<Longrightarrow> pos \<le> i \<Longrightarrow> \<not> tag_at w i t"
proof
  assume a: "t \<in> set all_tags" "plain_text (drop pos w)" "pos \<le> i" "tag_at w i t"
  from tag_at_first [OF a(4,1)] tags_shape [OF a(1)] have "i < length w" "w ! i = CHR ''<''" by auto
  then have "drop pos w ! (i - pos) = CHR ''<''" "i - pos < length (drop pos w)" using a(3) by auto
  with a(2) show False by (metis nth_mem)
qed

lemma close_tag_inj: "i < 5 \<Longrightarrow> j < 5 \<Longrightarrow> CLOSE_TAGS_LOWER ! i = CLOSE_TAGS_LOWER ! j \<longleftrightarrow> i = j"
  by (subst nth_eq_iff_index_eq) (simp_all add: CLOSE_TAGS_LOWER_code)

text \<open>The searches when no tag can match from \<open>pos\<close> on.\<close>

lemma fold_id: "(\<And>x. x \<in> set xs \<Longrightarrow> f x a = a) \<Longrightarrow> fold f xs a = a"
  by (induction xs) auto

definition no_tag :: "string list \<Rightarrow> string \<Rightarrow> nat \<Rightarrow> bool" where
  "no_tag ts w pos \<longleftrightarrow> (\<forall>q t. pos \<le> q \<longrightarrow> t \<in> set ts \<longrightarrow> \<not> tag_at w q t)"

definition one_tag :: "string list \<Rightarrow> string \<Rightarrow> nat \<Rightarrow> nat \<Rightarrow> bool" where
  "one_tag ts w pos p \<longleftrightarrow> pos \<le> p \<and> (\<forall>q t. pos \<le> q \<longrightarrow> t \<in> set ts \<longrightarrow> tag_at w q t \<longrightarrow> q = p)"

lemma no_tag_find:
  "no_tag OPEN_TAGS_LOWER w pos \<Longrightarrow> j < 5 \<Longrightarrow> find_tag_lower w pos (OPEN_TAGS_LOWER ! j) = None"
  "no_tag CLOSE_TAGS_LOWER w pos \<Longrightarrow> j < 5 \<Longrightarrow> find_tag_lower w pos (CLOSE_TAGS_LOWER ! j) = None"
  by (simp_all add: find_tag_lower_None no_tag_def)

lemma no_tag_mono: "no_tag ts w pos \<Longrightarrow> pos \<le> pos' \<Longrightarrow> no_tag ts w pos'"
  by (simp add: no_tag_def)

lemma no_tag_shift: "no_tag ts w pos \<Longrightarrow> no_tag ts (drop pos w) k"
  by (simp add: no_tag_def tag_at_shift)

lemma one_tag_find:
  "one_tag OPEN_TAGS_LOWER w pos p \<Longrightarrow> j < 5 \<Longrightarrow> tag_at w p (OPEN_TAGS_LOWER ! j) \<Longrightarrow>
    find_tag_lower w pos (OPEN_TAGS_LOWER ! j) = Some p"
  "one_tag CLOSE_TAGS_LOWER w pos p \<Longrightarrow> j < 5 \<Longrightarrow> tag_at w p (CLOSE_TAGS_LOWER ! j) \<Longrightarrow>
    find_tag_lower w pos (CLOSE_TAGS_LOWER ! j) = Some p"
  by (subst find_tag_lower_Some, simp, fastforce simp: one_tag_def)+

lemma one_tag_other:
  "one_tag OPEN_TAGS_LOWER w pos p \<Longrightarrow> i < 5 \<Longrightarrow> tag_at w p (OPEN_TAGS_LOWER ! i) \<Longrightarrow> j < 5 \<Longrightarrow> j \<noteq> i \<Longrightarrow>
    find_tag_lower w pos (OPEN_TAGS_LOWER ! j) = None"
  "one_tag CLOSE_TAGS_LOWER w pos p \<Longrightarrow> i < 5 \<Longrightarrow> tag_at w p (CLOSE_TAGS_LOWER ! i) \<Longrightarrow> j < 5 \<Longrightarrow> j \<noteq> i \<Longrightarrow>
    find_tag_lower w pos (CLOSE_TAGS_LOWER ! j) = None"
  using tag_unique [of w p "OPEN_TAGS_LOWER ! j" "OPEN_TAGS_LOWER ! i"] open_tag_inj
    tag_unique [of w p "CLOSE_TAGS_LOWER ! j" "CLOSE_TAGS_LOWER ! i"] close_tag_inj
  by (simp_all add: find_tag_lower_None one_tag_def) (metis length_tags nth_mem)+

lemma find_close_None: "no_tag CLOSE_TAGS_LOWER w pos \<Longrightarrow> find_close w pos = None"
  unfolding find_close_def by (intro fold_id) (simp add: close_step_def no_tag_find)

lemma turn_pair_None: "no_tag CLOSE_TAGS_LOWER w pos \<Longrightarrow> turn_pair w pos = None"
  unfolding turn_pair_def find_closed_pair_def
  by (simp, intro fold_id) (auto simp: closed_pair_step_def no_tag_find no_tag_shift split: option.split)

lemma find_open_None: "no_tag OPEN_TAGS_LOWER w pos \<Longrightarrow> find_open_boundary w pos nl = None"
  unfolding find_open_boundary_def by (intro fold_id) (simp add: open_step_def no_tag_find)

text \<open>The searches when exactly one tag can match.\<close>

lemma fold_single:
  assumes "i < (n :: nat)" and "\<And>j a. j < n \<Longrightarrow> j \<noteq> i \<Longrightarrow> f j a = a" 
  shows "fold f [0..<n] a = f i a"
proof -
  have "[0..<n] = [0..<i] @ i # [Suc i..<n]" using assms(1)
    by (metis le_add1 plus_nat.add_0 upt_add_eq_append upt_conv_Cons le_add_diff_inverse less_imp_le_nat)
  moreover have "fold f [0..<i] a = a" for a using assms by (intro fold_id) auto
  moreover have "fold f [Suc i..<n] a = a" for a using assms by (intro fold_id) auto
  ultimately show ?thesis by simp
qed

lemma find_close_single:
  assumes "i < 5" and "tag_at w p (CLOSE_TAGS_LOWER ! i)" and "one_tag CLOSE_TAGS_LOWER w pos p"
  shows "find_close w pos = Some (p, p + length (CLOSE_TAGS_LOWER ! i))"
proof -
  have "find_close w pos = close_step w pos i None" unfolding find_close_def
    by (intro fold_single [OF assms(1)]) (simp add: close_step_def one_tag_other(2) [OF assms(3,1,2)])
  then show ?thesis using assms by (simp add: close_step_def one_tag_find)
qed

lemma find_open_single:
  assumes "i < 5" and "tag_at w p (OPEN_TAGS_LOWER ! i)" and "one_tag OPEN_TAGS_LOWER w pos p" and "is_boundary w p nl"
  shows "find_open_boundary w pos nl = Some (p, p + length (OPEN_TAGS_LOWER ! i))"
proof -
  have "find_open_boundary w pos nl = open_step w pos nl i None" unfolding find_open_boundary_def
    by (intro fold_single [OF assms(1)]) (simp add: open_step_def one_tag_other(1) [OF assms(3,1,2)])
  then show ?thesis using assms by (simp add: open_step_def one_tag_find)
qed

lemma find_closed_pair_single:
  assumes "i < 5" and "tag_at w p (OPEN_TAGS_LOWER ! i)" and "tag_at w q (CLOSE_TAGS_LOWER ! i)"
    and "one_tag OPEN_TAGS_LOWER w 0 p" and "one_tag CLOSE_TAGS_LOWER w (p + length (OPEN_TAGS_LOWER ! i)) q"
  shows "find_closed_pair w = Some (p, q + length (CLOSE_TAGS_LOWER ! i))"
proof -
  have "find_closed_pair w = closed_pair_step w i None" unfolding find_closed_pair_def
    by (intro fold_single [OF assms(1)]) (simp add: closed_pair_step_def one_tag_other(1) [OF assms(4,1,2)])
  then show ?thesis using assms by (simp add: closed_pair_step_def one_tag_find Let_def)
qed

text \<open>Where tags can match in a text built from plain stretches, whole tags and a held prefix.\<close>

lemma tag_at_append: "length a \<le> q \<Longrightarrow> tag_at (a @ w) q t \<longleftrightarrow> tag_at w (q - length a) t"
  by (simp add: tag_at_def)

lemma tag_at_after_plain:
  "plain_text b \<Longrightarrow> t \<in> set all_tags \<Longrightarrow> tag_at (b @ w) q t \<longleftrightarrow> length b \<le> q \<and> tag_at w (q - length b) t"
proof (cases "length b \<le> q")
  case False
  assume a: "plain_text b" "t \<in> set all_tags"
  have "(b @ w) ! q \<noteq> CHR ''<''" using False a(1) by (simp add: nth_append) (metis not_le nth_mem)
  then show ?thesis using False tag_at_first [OF _ a(2)] by blast
qed (simp add: tag_at_append)

lemma tag_at_held: "held_prefix u \<Longrightarrow> t \<in> set all_tags \<Longrightarrow> \<not> tag_at u q t"
proof
  assume a: "held_prefix u" "t \<in> set all_tags" "tag_at u q t"
  from tag_at_first [OF a(3,2)] tags_shape [OF a(2)] have f: "q < length u" "u ! q = CHR ''<''" by auto
  have "q = 0"
  proof (rule ccontr)
    assume "q \<noteq> 0"
    then have "u ! q = tl u ! (q - 1)" "q - 1 < length (tl u)" using f(1) by (simp_all add: nth_tl)
    then have "CHR ''<'' \<in> set (tl u)" using f(2) by (metis nth_mem)
    moreover have "u \<noteq> []" using f(1) by auto
    ultimately show False using held_prefix_lt [OF a(1)] by blast
  qed
  with a(3) have p: "prefix t (map c_tolower u)" by (simp add: tag_at_prefix)
  from a(1) obtain s where s: "s \<in> set all_tags" "strict_prefix (map c_tolower u) s" by (auto simp: held_prefix_def)
  from p s(2) have "strict_prefix t s" by (metis prefix_order.le_less_trans)
  with tags_prefix_free [OF a(2) s(1)] show False by (simp add: strict_prefix_def)
qed

lemma tag_at_whole:
  assumes "map c_tolower g = T" and "T \<in> set all_tags" and "t \<in> set all_tags"
  shows "tag_at (g @ w) q t \<longleftrightarrow> (q = 0 \<and> t = T) \<or> (length g \<le> q \<and> tag_at w (q - length g) t)"
proof -
  have l: "length g = length T" using assms(1) by auto
  have T: "tag_at (g @ w) 0 T" using assms(1) by (auto simp: tag_at_prefix)
  have pos: "0 < length g" using l tags_shape [OF assms(2)] by auto
  consider "q = 0" | "0 < q" "q < length g" | "length g \<le> q" by linarith
  then show ?thesis
  proof cases
    case 1
    then show ?thesis using T tag_unique [OF _ T assms(3,2)] pos by auto
  next
    case 2
    have "(g @ w) ! q \<noteq> CHR ''<''" using tag_at_rest [OF T assms(2) 2(1)] 2 l by simp
    then show ?thesis using 2 tag_at_first [OF _ assms(3)] by auto
  qed (use pos in \<open>auto simp: tag_at_append\<close>)
qed

lemma tag_at_Nil: "t \<in> set all_tags \<Longrightarrow> \<not> tag_at [] q t"
  by (rule tag_at_held [OF held_prefix_Nil])

lemma tag_at_plain_text: "plain_text b \<Longrightarrow> t \<in> set all_tags \<Longrightarrow> \<not> tag_at b q t"
  using tag_at_after_plain [of b t "[]" q] tag_at_Nil by simp

lemma tag_at_hold: "plain_text b \<Longrightarrow> held_prefix u \<Longrightarrow> t \<in> set all_tags \<Longrightarrow> \<not> tag_at (b @ u) q t"
  by (simp add: tag_at_after_plain tag_at_held)

lemma open_not_close: "i < 5 \<Longrightarrow> t \<in> set CLOSE_TAGS_LOWER \<Longrightarrow> t \<noteq> OPEN_TAGS_LOWER ! i"
proof -
  have "list_all (\<lambda>s. list_all (\<lambda>t. t \<noteq> s) CLOSE_TAGS_LOWER) OPEN_TAGS_LOWER" by code_simp
  then show "i < 5 \<Longrightarrow> t \<in> set CLOSE_TAGS_LOWER \<Longrightarrow> t \<noteq> OPEN_TAGS_LOWER ! i" by (auto simp only: list_all_iff length_tags nth_mem)
qed

lemma no_tag_drop: "no_tag ts w pos \<longleftrightarrow> no_tag ts (drop pos w) 0"
  by (auto simp: no_tag_def tag_at_shift) (metis le_add_diff_inverse)

lemma all_tags_cases: "t \<in> set CLOSE_TAGS_LOWER \<Longrightarrow> t \<in> set all_tags" "t \<in> set OPEN_TAGS_LOWER \<Longrightarrow> t \<in> set all_tags"
  by simp_all

lemma no_tag_hold: "plain_text b \<Longrightarrow> held_prefix u \<Longrightarrow> drop pos w = b @ u \<Longrightarrow> set ts \<subseteq> set all_tags \<Longrightarrow> no_tag ts w pos"
  by (subst no_tag_drop) (use tag_at_hold in \<open>fastforce simp: no_tag_def\<close>)

lemma no_tag_plain: "plain_text (drop pos w) \<Longrightarrow> set ts \<subseteq> set all_tags \<Longrightarrow> no_tag ts w pos"
  using no_tag_hold [of "drop pos w" "[]" pos w ts] by simp

section \<open>The loop on each kind of text\<close>

lemma loop_plain:
  assumes "turn_ok sc w pos out" and "0 < fuel" and "\<not> ts_in_block sc" and "plain_text (drop pos w)"
  shows "\<exists>nl. feed_loop fuel sc w pos out = (ts_result (out @ drop pos w), sc\<lparr>ts_last_nl := nl, ts_buf := []\<rparr>)"
proof (cases "pos < length w")
  case True
  have s: "strip_orphan (drop pos w) (Suc (length w - pos)) = drop pos w"
    by (rule strip_orphan_plain [OF assms(4)]) simp
  have "feed_turn sc w pos out = (case ts_emit sc w pos (length w - pos - max_partial_suffix (drop pos w)) out of
      None \<Rightarrow> Inl (None, sc) | Some (sc, out) \<Rightarrow>
        Inl (ts_result out, sc\<lparr>ts_buf := drop (pos + (length w - pos - max_partial_suffix (drop pos w))) w\<rparr>))"
    by (intro feed_turn_plain [OF assms(3) turn_pair_None find_open_None refl] no_tag_plain [OF assms(4)]) auto
  also have "\<dots> = Inl (ts_result (out @ drop pos w), sc\<lparr>ts_last_nl := last w = CHR 10, ts_buf := []\<rparr>)"
    using True assms(1) by (auto simp: max_partial_suffix_plain [OF assms(4)] ts_emit_def Let_def s turn_ok_def)
  finally show ?thesis using True assms(2) by (cases fuel) auto
next
  case False
  then show ?thesis using assms(2) by (cases fuel) (auto intro: exI [of _ "ts_last_nl sc"])
qed

lemma loop_hold:
  assumes "pos \<le> length w" and "0 < fuel" and "ts_in_block sc" and "drop pos w = b @ u" "plain_text b" "held_prefix u"
  shows "feed_loop fuel sc w pos out = (ts_result out, sc\<lparr>ts_buf := u\<rparr>)"
proof (cases "pos < length w")
  case True
  have m: "max_partial_suffix (drop pos w) = length u" by (simp add: assms(4) max_partial_suffix_append [OF assms(5,6)])
  have "length w = pos + length b + length u" using arg_cong [OF assms(4), of length] True by simp
  then have "drop (length w - length u) w = drop (length b) (drop pos w)" by (simp add: add.commute)
  then have d: "drop (length w - length u) w = u" by (simp add: assms(4))
  have "find_close w pos = None" by (intro find_close_None no_tag_hold [OF assms(5,6,4)]) auto
  then have "feed_turn sc w pos out = Inl (ts_result out, sc\<lparr>ts_buf := u\<rparr>)"
    using feed_turn_in_block [OF assms(3)] by (simp add: m d)
  then show ?thesis using True assms(2) by (cases fuel) auto
next
  case False
  then have "u = []" using assms(4) by simp
  then show ?thesis using False assms(2) by (cases fuel) auto
qed

lemma loop_close:
  assumes ok: "turn_ok sc w pos out" and f: "length w - pos < fuel" and "ts_in_block sc"
    and d: "drop pos w = b @ cl @ r" and "plain_text b" "plain_text r"
    and i: "i < 5" "map c_tolower cl = CLOSE_TAGS_LOWER ! i"
  shows "\<exists>nl. feed_loop fuel sc w pos out = (ts_result (out @ r), sc\<lparr>ts_in_block := False, ts_last_nl := nl, ts_buf := []\<rparr>)"
proof -
  let ?p = "pos + length b"
  have mem: "CLOSE_TAGS_LOWER ! i \<in> set all_tags" using i(1) by simp
  have l: "length (CLOSE_TAGS_LOWER ! i) = length cl" "6 < length cl"
    using i(2) tags_shape [OF mem] by (metis length_map)+
  have at: "tag_at w (pos + q) t \<longleftrightarrow> q = length b \<and> t = CLOSE_TAGS_LOWER ! i" if "t \<in> set all_tags" for q t
    using that assms(5,6) tag_at_whole [OF i(2) mem that] tag_at_plain_text [OF assms(6) that]
    by (auto simp: tag_at_shift [symmetric] d tag_at_after_plain)
  have "one_tag CLOSE_TAGS_LOWER w pos ?p"
    unfolding one_tag_def using at by (auto simp: all_tags_cases) (metis all_tags_cases(1) le_add_diff_inverse)
  with find_close_single [OF i(1) _ this] at [OF mem] l
  have fc: "find_close w pos = Some (?p, ?p + length cl)" by simp
  have lw: "length w = pos + length b + length cl + length r"
    using arg_cong [OF d, of length] ok l(2) by (simp add: turn_ok_def)
  then have pw: "pos < length w" using l(2) by linarith
  obtain g where g: "fuel = Suc g" using f by (cases fuel) auto
  have t: "feed_turn sc w pos out = Inr (sc\<lparr>ts_in_block := False\<rparr>, ?p + length cl, out)"
    using feed_turn_in_block [OF assms(3)] fc by simp
  have "drop (?p + length cl) w = drop (length b + length cl) (drop pos w)" by (simp add: add.commute add.left_commute)
  then have dr: "drop (?p + length cl) w = r" by (simp add: d)
  have "turn_ok (sc\<lparr>ts_in_block := False\<rparr>) w (?p + length cl) out" using feed_turn_Inr [OF ok pw t] by simp
  then have "\<exists>nl. feed_loop g (sc\<lparr>ts_in_block := False\<rparr>) w (?p + length cl) out =
      (ts_result (out @ r), sc\<lparr>ts_in_block := False, ts_last_nl := nl, ts_buf := []\<rparr>)"
    using loop_plain [of "sc\<lparr>ts_in_block := False\<rparr>" w "?p + length cl" out g] f g lw l(2) assms(6) dr by simp
  then show ?thesis using t g pw by simp
qed

section \<open>The run over all deltas\<close>

lemma ts_run_Nil_delta: "ts_run sc ([] # ds) = ts_run sc ds"
  by (simp add: ts_feed_def ts_text_def)

lemma ts_run_feed: "d \<noteq> [] \<Longrightarrow> ts_feed sc d = (r, sc1) \<Longrightarrow> ts_run sc (d # ds) = ts_text r @ ts_run sc1 ds"
  by simp

lemma run_plain:
  "0 < ts_out_cap sc \<Longrightarrow> \<not> ts_in_block sc \<Longrightarrow> ts_buf sc = [] \<Longrightarrow> plain_text (concat ds) \<Longrightarrow> ts_run sc ds = concat ds"
proof (induction ds arbitrary: sc)
  case Nil
  then show ?case by (simp add: ts_flush_def ts_text_def)
next
  case (Cons d ds)
  show ?case
  proof (cases "d = []")
    case True
    then show ?thesis using Cons by (simp add: ts_run_Nil_delta del: ts_run.simps)
  next
    case False
    have ok: "turn_ok (ts_prepare sc d) d 0 []" using ts_prepare_ok [OF Cons.prems(1), of d] Cons.prems(3) by simp
    from loop_plain [OF ok, of "Suc (length d)"] Cons.prems False obtain nl where
      f: "ts_feed sc d = (ts_result d, (ts_prepare sc d)\<lparr>ts_last_nl := nl, ts_buf := []\<rparr>)"
      by (auto simp: ts_feed_loop simp del: feed_loop.simps)
    have "ts_run ((ts_prepare sc d)\<lparr>ts_last_nl := nl, ts_buf := []\<rparr>) ds = concat ds"
      using Cons.prems turn_ok_cap [OF ok] by (intro Cons.IH) simp_all
    then show ?thesis by (simp add: ts_run_feed [OF False f] del: ts_run.simps)
  qed
qed

text \<open>A proper prefix of plain text and a tag, and what is left of it.\<close>

lemma prefix_cases:
  assumes "w @ y = x @ z"
  obtains (short) v where "x = w @ v" "v \<noteq> []" "y = v @ z" | (long) r where "w = x @ r" "z = r @ y"
proof (cases "length x \<le> length w")
  case True
  have "take (length x) w = x" "drop (length x) w @ y = z"
    using arg_cong [OF assms, of "take (length x)"] arg_cong [OF assms, of "drop (length x)"] True by simp_all
  then show thesis by (intro long [of "drop (length x) w"]) (metis append_take_drop_id, simp)
next
  case False
  have "take (length w) x = w" "drop (length w) x @ z = y"
    using arg_cong [OF assms, of "take (length w)"] arg_cong [OF assms, of "drop (length w)"] False by simp_all
  then show thesis using False by (intro short [of "drop (length w) x"]) (metis append_take_drop_id, simp_all)
qed

lemma split_hold:
  assumes "plain_text b" and "t \<in> set all_tags" and "map c_tolower g = t" and "b @ g = w @ v" and "v \<noteq> []"
  shows "\<exists>b1 u b2. w = b1 @ u \<and> plain_text b1 \<and> held_prefix u \<and> plain_text b2 \<and> u @ v = b2 @ g"
proof -
  consider (plain) k where "b = w @ k" "v = k @ g" | (cut) u where "w = b @ u" "g = u @ v"
    using assms(4) by (auto simp: append_eq_append_conv2)
  then show ?thesis
  proof cases
    case plain
    then show ?thesis using assms(1) by (intro exI [of _ w] exI [of _ "[]"] exI [of _ k]) auto
  next
    case cut
    have "strict_prefix (map c_tolower u) t" using cut(2) assms(3,5) by (auto simp: strict_prefix_def)
    then have "held_prefix u" using assms(2) by (auto simp: held_prefix_def)
    then show ?thesis using cut assms(1) by (intro exI [of _ b] exI [of _ u] exI [of _ "[]"]) auto
  qed
qed

lemma run_in_block:
  assumes "i < 5" "map c_tolower cl = CLOSE_TAGS_LOWER ! i" "plain_text rest"
  shows "0 < ts_out_cap sc \<Longrightarrow> ts_in_block sc \<Longrightarrow> ts_buf sc @ concat ds = body @ cl @ rest \<Longrightarrow> plain_text body \<Longrightarrow>
    held_prefix (ts_buf sc) \<Longrightarrow> ts_run sc ds = rest"
proof (induction ds arbitrary: sc body)
  case Nil
  have mem: "CLOSE_TAGS_LOWER ! i \<in> set all_tags" using assms(1) by simp
  have "tag_at (body @ cl @ rest) (length body) (CLOSE_TAGS_LOWER ! i)"
    using tag_at_whole [OF assms(2) mem mem] Nil(4) mem by (simp add: tag_at_after_plain)
  then have False using tag_at_held [OF Nil(5) mem] Nil(3) by simp
  then show ?case ..
next
  case (Cons d ds)
  show ?case
  proof (cases "d = []")
    case True
    then show ?thesis using Cons by (simp add: ts_run_Nil_delta del: ts_run.simps)
  next
    case False
    let ?w = "ts_buf sc @ d" and ?sc = "ts_prepare sc d"
    have mem: "CLOSE_TAGS_LOWER ! i \<in> set all_tags" using assms(1) by simp
    have ok: "turn_ok ?sc ?w 0 []" by (rule ts_prepare_ok [OF Cons.prems(1)])
    have ib: "ts_in_block ?sc" using Cons.prems(2) by simp
    have "?w @ concat ds = (body @ cl) @ rest" using Cons.prems(3) by simp
    then show ?thesis
    proof (cases rule: prefix_cases)
      case (short v)
      from split_hold [OF Cons.prems(4) mem assms(2) short(1,2)] obtain b1 u b2 where
        h: "?w = b1 @ u" "plain_text b1" "held_prefix u" "plain_text b2" "u @ v = b2 @ cl" by blast
      have "ts_feed sc d = (ts_result [], ?sc\<lparr>ts_buf := u\<rparr>)"
        unfolding ts_feed_loop [OF False] by (rule loop_hold [OF _ _ ib _ h(2,3)]) (use h(1) in simp_all)
      moreover have "ts_run (?sc\<lparr>ts_buf := u\<rparr>) ds = rest"
        using Cons.prems turn_ok_cap [OF ok] h short(3) by (intro Cons.IH [of _ b2]) simp_all
      ultimately show ?thesis by (simp add: ts_run_feed [OF False] del: ts_run.simps)
    next
      case (long r)
      have pr: "plain_text r" "plain_text (concat ds)" using long(2) assms(3) by auto
      have d0: "drop 0 ?w = body @ cl @ r" using long(1) by simp
      have f: "length ?w - 0 < Suc (length ?w)" by simp
      from loop_close [OF ok f ib d0 Cons.prems(4) pr(1) assms(1,2)] obtain nl where
        e: "ts_feed sc d = (ts_result r, ?sc\<lparr>ts_in_block := False, ts_last_nl := nl, ts_buf := []\<rparr>)"
        unfolding ts_feed_loop [OF False] by auto
      have "ts_run (?sc\<lparr>ts_in_block := False, ts_last_nl := nl, ts_buf := []\<rparr>) ds = concat ds"
        using turn_ok_cap [OF ok] pr by (intro run_plain) simp_all
      then show ?thesis using long(2) by (simp add: ts_run_feed [OF False e] del: ts_run.simps)
    qed
  qed
qed

text \<open>The first feed that meets the opening tag.\<close>

lemma tag_positions_open:
  assumes "i < 5" "map c_tolower opn = OPEN_TAGS_LOWER ! i"
  shows "length (OPEN_TAGS_LOWER ! i) = length opn" "6 < length opn"
    "t \<in> set all_tags \<Longrightarrow> tag_at (opn @ v) q t \<longleftrightarrow> (q = 0 \<and> t = OPEN_TAGS_LOWER ! i) \<or> (length opn \<le> q \<and> tag_at v (q - length opn) t)"
proof -
  have mem: "OPEN_TAGS_LOWER ! i \<in> set all_tags" using assms(1) by simp
  show l: "length (OPEN_TAGS_LOWER ! i) = length opn" using assms(2) by (metis length_map)
  show "6 < length opn" using l tags_shape [OF mem] by simp
  show "t \<in> set all_tags \<Longrightarrow> tag_at (opn @ v) q t \<longleftrightarrow> (q = 0 \<and> t = OPEN_TAGS_LOWER ! i) \<or> (length opn \<le> q \<and> tag_at v (q - length opn) t)"
    by (rule tag_at_whole [OF assms(2) mem])
qed

lemma feed_open_part:
  assumes "turn_ok sc w 0 []" and "\<not> ts_in_block sc" and "w \<noteq> []" and "held_prefix w"
  shows "feed_loop (Suc (length w)) sc w 0 [] = (ts_result [], sc\<lparr>ts_buf := w\<rparr>)"
proof -
  have d: "drop 0 w = [] @ w" by simp
  have m: "max_partial_suffix w = length w" using max_partial_suffix_append [of "[]" w] assms(4) by simp
  have "feed_turn sc w 0 [] = (case ts_emit sc w 0 (length w - 0 - max_partial_suffix (drop 0 w)) [] of
      None \<Rightarrow> Inl (None, sc) | Some (sc, out) \<Rightarrow>
        Inl (ts_result out, sc\<lparr>ts_buf := drop (0 + (length w - 0 - max_partial_suffix (drop 0 w))) w\<rparr>))"
    by (intro feed_turn_plain [OF assms(2) turn_pair_None find_open_None refl] no_tag_hold [OF _ assms(4) d]) auto
  then show ?thesis using assms(3) by (simp add: m ts_emit_def)
qed

lemma feed_open_hold:
  assumes ok: "turn_ok sc w 0 []" and "\<not> ts_in_block sc" and "ts_last_nl sc"
    and i: "i < 5" "map c_tolower opn = OPEN_TAGS_LOWER ! i"
    and w: "w = opn @ b @ u" "plain_text b" "held_prefix u"
  shows "feed_loop (Suc (length w)) sc w 0 [] = (ts_result [], sc\<lparr>ts_in_block := True, ts_buf := u\<rparr>)"
proof -
  note op = tag_positions_open [OF i]
  have at: "tag_at w q t \<longleftrightarrow> q = 0 \<and> t = OPEN_TAGS_LOWER ! i" if "t \<in> set all_tags" for q t
    using op(3) [OF that] tag_at_hold [OF w(2,3) that] by (simp add: w(1))
  have nc: "no_tag CLOSE_TAGS_LOWER w 0" using at all_tags_cases open_not_close [OF i(1)] by (auto simp: no_tag_def)
  have oo: "one_tag OPEN_TAGS_LOWER w 0 0" using at all_tags_cases by (auto simp: one_tag_def)
  have fo: "find_open_boundary w 0 (ts_last_nl sc) = Some (0, length opn)"
    using find_open_single [OF i(1) _ oo] at i(1) assms(3) op(1) by (simp add: is_boundary_def)
  have "feed_turn sc w 0 [] = Inr (sc\<lparr>ts_in_block := True\<rparr>, length opn, [])"
    using feed_turn_open [OF assms(2) fo] turn_pair_None [OF nc] by (simp add: ts_emit_def)
  moreover have "feed_loop (length w) (sc\<lparr>ts_in_block := True\<rparr>) w (length opn) [] =
      (ts_result [], sc\<lparr>ts_in_block := True, ts_buf := u\<rparr>)"
    using loop_hold [of "length opn" w "length w" "sc\<lparr>ts_in_block := True\<rparr>" b u "[]"] w op(2)
    by (cases opn) simp_all
  moreover have "0 < length w" using op(2) w(1) by (cases opn) simp_all
  ultimately show ?thesis by simp
qed

lemma feed_open_whole:
  assumes ok: "turn_ok sc w 0 []" and "\<not> ts_in_block sc" and "ts_last_nl sc"
    and i: "i < 5" "map c_tolower opn = OPEN_TAGS_LOWER ! i" "map c_tolower cl = CLOSE_TAGS_LOWER ! i"
    and w: "w = opn @ body @ cl @ r" "plain_text body" "plain_text r"
  shows "\<exists>nl. feed_loop (Suc (length w)) sc w 0 [] = (ts_result r, sc\<lparr>ts_last_nl := nl, ts_buf := []\<rparr>)"
proof -
  note op = tag_positions_open [OF i(1,2)]
  have mem: "CLOSE_TAGS_LOWER ! i \<in> set all_tags" "OPEN_TAGS_LOWER ! i \<in> set all_tags" using i(1) by simp_all
  have lc: "length (CLOSE_TAGS_LOWER ! i) = length cl" using i(3) by (metis length_map)
  let ?q = "length opn + length body"
  have at: "tag_at w q t \<longleftrightarrow> q = 0 \<and> t = OPEN_TAGS_LOWER ! i \<or> q = ?q \<and> t = CLOSE_TAGS_LOWER ! i"
    if "t \<in> set all_tags" for q t
    using op(3) [OF that] tag_at_whole [OF i(3) mem(1) that] tag_at_plain_text [OF w(3) that] that
    by (auto simp: w(1) tag_at_after_plain [OF w(2) that])
  have ne: "OPEN_TAGS_LOWER ! i \<noteq> CLOSE_TAGS_LOWER ! i" using open_not_close [OF i(1)] i(1) by (metis length_tags(2) nth_mem)
  have oc: "one_tag CLOSE_TAGS_LOWER w (length opn) ?q" using at all_tags_cases op(2) by (fastforce simp: one_tag_def)
  have oo: "one_tag OPEN_TAGS_LOWER w 0 0"
    unfolding one_tag_def using at all_tags_cases open_not_close ne i(1)
    by (metis length_tags(1,2) in_set_conv_nth le_refl nth_mem)
  have fo: "find_open_boundary w 0 (ts_last_nl sc) = Some (0, length opn)"
    using find_open_single [OF i(1) _ oo] at [OF mem(2)] assms(3) op(1) by (simp add: is_boundary_def)
  have "find_closed_pair w = Some (0, ?q + length (CLOSE_TAGS_LOWER ! i))"
    using at mem op(1) by (intro find_closed_pair_single [OF i(1) _ _ oo]) (auto simp: oc)
  then have tp: "turn_pair w 0 = Some (0, ?q + length cl)" by (simp add: turn_pair_def lc)
  have t: "feed_turn sc w 0 [] = Inr (sc, ?q + length cl, [])"
    using feed_turn_pair [OF assms(2) tp] fo by (simp add: ts_emit_def)
  have lw: "0 < length w" using op(2) w(1) by (cases opn) simp_all
  have "turn_ok sc w (?q + length cl) []" using feed_turn_Inr [OF ok lw t] by simp
  from loop_plain [OF this lw assms(2)] have "\<exists>nl. feed_loop (length w) sc w (?q + length cl) [] =
      (ts_result r, sc\<lparr>ts_last_nl := nl, ts_buf := []\<rparr>)" using w by simp
  then show ?thesis using t lw by simp
qed

lemma run_from_open:
  assumes i: "i < 5" "map c_tolower opn = OPEN_TAGS_LOWER ! i" "map c_tolower cl = CLOSE_TAGS_LOWER ! i"
    and p: "plain_text body" "plain_text rest"
  shows "0 < ts_out_cap sc \<Longrightarrow> \<not> ts_in_block sc \<Longrightarrow> ts_last_nl sc \<Longrightarrow> ts_buf sc @ concat ds = opn @ body @ cl @ rest \<Longrightarrow>
    held_prefix (ts_buf sc) \<Longrightarrow> ts_run sc ds = rest"
proof (induction ds arbitrary: sc)
  case Nil
  have mem: "OPEN_TAGS_LOWER ! i \<in> set all_tags" using i(1) by simp
  have "tag_at (opn @ body @ cl @ rest) 0 (OPEN_TAGS_LOWER ! i)" using tag_positions_open(3) [OF i(1,2) mem] by simp
  then have False using tag_at_held [OF Nil(5) mem] Nil(4) by simp
  then show ?case ..
next
  case (Cons d ds)
  show ?case
  proof (cases "d = []")
    case True
    then show ?thesis using Cons by (simp add: ts_run_Nil_delta del: ts_run.simps)
  next
    case False
    let ?w = "ts_buf sc @ d" and ?sc = "ts_prepare sc d"
    have mem: "OPEN_TAGS_LOWER ! i \<in> set all_tags" "CLOSE_TAGS_LOWER ! i \<in> set all_tags" using i(1) by simp_all
    have ok: "turn_ok ?sc ?w 0 []" by (rule ts_prepare_ok [OF Cons.prems(1)])
    have nb: "\<not> ts_in_block ?sc" "ts_last_nl ?sc" using Cons.prems(2,3) by simp_all
    have "?w @ concat ds = opn @ (body @ cl @ rest)" using Cons.prems(4) by simp
    then show ?thesis
    proof (cases rule: prefix_cases)
      case (short v)
      then have "held_prefix ?w" unfolding held_prefix_def using i(2) mem(1)
        by (intro bexI [OF _ mem(1)]) (auto simp: strict_prefix_def simp flip: i(2))
      then have "ts_feed sc d = (ts_result [], ?sc\<lparr>ts_buf := ?w\<rparr>)"
        unfolding ts_feed_loop [OF False] using False by (intro feed_open_part [OF ok nb(1)]) simp_all
      moreover have "ts_run (?sc\<lparr>ts_buf := ?w\<rparr>) ds = rest"
        using Cons.prems turn_ok_cap [OF ok] nb \<open>held_prefix ?w\<close> by (intro Cons.IH) simp_all
      ultimately show ?thesis by (simp add: ts_run_feed [OF False] del: ts_run.simps)
    next
      case (long v)
      from long(2) have "v @ concat ds = (body @ cl) @ rest" by simp
      then show ?thesis
      proof (cases rule: prefix_cases)
        case (short y)
        from split_hold [OF p(1) mem(2) i(3) short(1,2)] obtain b1 u b2 where
          h: "v = b1 @ u" "plain_text b1" "held_prefix u" "plain_text b2" "u @ y = b2 @ cl" by blast
        have "ts_feed sc d = (ts_result [], ?sc\<lparr>ts_in_block := True, ts_buf := u\<rparr>)"
          unfolding ts_feed_loop [OF False]
          by (rule feed_open_hold [OF ok nb i(1,2) _ h(2,3)]) (use long(1) h(1) in simp)
        moreover have "ts_run (?sc\<lparr>ts_in_block := True, ts_buf := u\<rparr>) ds = rest"
          using turn_ok_cap [OF ok] h short(3) by (intro run_in_block [OF i(1,3) p(2), of _ _ b2]) simp_all
        ultimately show ?thesis by (simp add: ts_run_feed [OF False] del: ts_run.simps)
      next
        case long': (long r)
        have pr: "plain_text r" "plain_text (concat ds)" using long'(2) p(2) by auto
        have wr: "?w = opn @ body @ cl @ r" using long(1) long'(1) by simp
        from feed_open_whole [OF ok nb i wr p(1) pr(1)] obtain nl where
          e: "ts_feed sc d = (ts_result r, ?sc\<lparr>ts_last_nl := nl, ts_buf := []\<rparr>)"
          unfolding ts_feed_loop [OF False] by blast
        have "ts_run (?sc\<lparr>ts_last_nl := nl, ts_buf := []\<rparr>) ds = concat ds"
          using turn_ok_cap [OF ok] pr nb by (intro run_plain) simp_all
        then show ?thesis using long'(2) by (simp add: ts_run_feed [OF False e] del: ts_run.simps)
      qed
    qed
  qed
qed

text \<open>C15. A reasoning block at the very start of a stream disappears however the stream cuts it. The
  scrubber is fresh, its first text is the \<open>i\<close>-th opening tag in any letter case, then
  a body, the partner closing tag and a rest, and neither the body nor the rest holds another
  \<open><\<close>. Then for every way to split this into deltas, down to single characters and
  through the middle of the tags, the outputs and the final flush are exactly the rest; so for these
  texts feeding in pieces is equivalent to feeding at once. For a pair after visible text it is not
  (\<open>ts_split_pair_leaks\<close>).\<close>

theorem ts_block_stripped:
  assumes "i < 5" and "map c_tolower opn = OPEN_TAGS_LOWER ! i" and "map c_tolower cl = CLOSE_TAGS_LOWER ! i"
    and "CHR ''<'' \<notin> set body" and "CHR ''<'' \<notin> set rest"
    and "concat ds = opn @ body @ cl @ rest"
  shows "ts_run think_scrubber_new ds = rest \<and> ts_run think_scrubber_new [opn @ body @ cl @ rest] = rest"
proof -
  have "ts_run think_scrubber_new es = rest" if "concat es = opn @ body @ cl @ rest" for es
    by (rule run_from_open [OF assms(1-5)]) (use that in \<open>simp_all add: think_scrubber_new_def\<close>)
  then show ?thesis using assms(6) by (simp del: ts_run.simps)
qed

lemma ts_block_stripped_witness:
  "ts_run think_scrubber_new [''<Th'', ''INK>a'', ''</thin'', ''k> yes''] = '' yes''"
proof -
  have o: "map c_tolower ''<ThINK>'' = OPEN_TAGS_LOWER ! 0" and c: "map c_tolower ''</think>'' = CLOSE_TAGS_LOWER ! 0"
    by code_simp+
  show ?thesis
    using ts_block_stripped [OF _ o c, of "''a''" "'' yes''" "[''<Th'', ''INK>a'', ''</thin'', ''k> yes'']"]
    by (simp del: ts_run.simps)
qed

section \<open>A pair that is not at a boundary\<close>

lemma close_tag_here_tag: "close_tag_here w = Some t \<Longrightarrow> t \<in> set CLOSE_TAGS_LOWER \<and> tag_at w 0 t"
  by (auto simp: close_tag_here_def find_Some_iff split: if_splits)

lemma c_tolower_slash: "c_tolower c = CHR ''/'' \<Longrightarrow> c = CHR ''/''"
proof -
  assume a: "c_tolower c = CHR ''/''"
  show "c = CHR ''/''"
  proof (cases "65 \<le> (of_char c :: int) \<and> (of_char c :: int) \<le> 90")
    case True
    then have "(of_char (c_tolower c) :: int) = of_char c + 32" by (simp add: c_tolower_def)
    with a True show ?thesis by simp
  qed (use a in \<open>auto simp: c_tolower_def split: if_splits\<close>)
qed

lemma close_tags_shape: "i < 5 \<Longrightarrow> \<exists>u. CLOSE_TAGS_LOWER ! i = CHR ''<'' # CHR ''/'' # u"
proof -
  have "list_all (\<lambda>t. take 2 t = ''</'') CLOSE_TAGS_LOWER" by code_simp
  then have "i < 5 \<Longrightarrow> take 2 (CLOSE_TAGS_LOWER ! i) = ''</''" by (simp only: list_all_iff length_tags nth_mem)
  then show "i < 5 \<Longrightarrow> ?thesis" by (metis append_Cons append_Nil append_take_drop_id)
qed

lemma close_tag_here_whole:
  assumes "i < 5" and "map c_tolower cl = CLOSE_TAGS_LOWER ! i"
  shows "close_tag_here (cl @ r) = Some (CLOSE_TAGS_LOWER ! i)"
proof -
  have mem: "CLOSE_TAGS_LOWER ! i \<in> set all_tags" using assms(1) by simp
  have at: "tag_at (cl @ r) 0 (CLOSE_TAGS_LOWER ! i)" using tag_at_whole [OF assms(2) mem mem] by simp
  obtain u where u: "CLOSE_TAGS_LOWER ! i = CHR ''<'' # CHR ''/'' # u" using close_tags_shape [OF assms(1)] by blast
  then obtain x y z where "cl = x # y # z" "c_tolower x = CHR ''<''" "c_tolower y = CHR ''/''"
    using assms(2) by (auto simp: map_eq_Cons_conv)
  then have two: "take 2 (cl @ r) = ''</''" using c_tolower_slash by simp
  let ?P = "\<lambda>t. length t \<le> length (cl @ r) \<and> tag_at (cl @ r) 0 t"
  have "find ?P CLOSE_TAGS_LOWER \<noteq> None"
    using at assms(1) tag_at_first [OF at mem] by (auto simp: find_None_iff)
  then obtain t where t: "find ?P CLOSE_TAGS_LOWER = Some t" by blast
  then have "t \<in> set CLOSE_TAGS_LOWER" "tag_at (cl @ r) 0 t" by (auto simp: find_Some_iff)
  then have "t = CLOSE_TAGS_LOWER ! i" using tag_unique [OF _ at _ mem] by simp
  then show ?thesis using t two by (simp add: close_tag_here_def)
qed

lemma strip_orphan_loop_no_tag:
  "no_tag CLOSE_TAGS_LOWER w 0 \<Longrightarrow> length out + length w < cap \<Longrightarrow> strip_orphan_loop w cap out = out @ w"
proof (induction w arbitrary: out)
  case (Cons c w)
  have "no_tag CLOSE_TAGS_LOWER w 0" using no_tag_shift [OF Cons.prems(1) [THEN no_tag_mono, of 1], of 0]
    by simp
  moreover have "close_tag_here (c # w) = None"
    using close_tag_here_tag [of "c # w"] Cons.prems(1) by (auto simp: no_tag_def intro: ccontr)
  ultimately show ?case using Cons by (simp add: strip_orphan_loop_Cons)
qed simp

abbreviation skip_blanks :: "string \<Rightarrow> string" where
  "skip_blanks \<equiv> dropWhile (\<lambda>c. blank_char c \<or> c = CHR 10)"

lemma strip_orphan_loop_close:
  assumes "i < 5" and "map c_tolower cl = CLOSE_TAGS_LOWER ! i" and "plain_text r"
  shows "plain_text b \<Longrightarrow> length out + length (b @ cl @ r) < cap \<Longrightarrow>
    strip_orphan_loop (b @ cl @ r) cap out = out @ b @ skip_blanks r"
proof (induction b arbitrary: out)
  case Nil
  have l: "length (CLOSE_TAGS_LOWER ! i) = length cl" using assms(2) by (metis length_map)
  have "cl \<noteq> []" using l close_tags_shape [OF assms(1)] by auto
  then obtain x y where xy: "cl @ r = x # y" by (cases cl) auto
  have "plain_text (skip_blanks r)" using assms(3) by (meson set_dropWhileD)
  moreover have "length (skip_blanks r) \<le> length r" by (rule length_dropWhile_le)
  ultimately have "strip_orphan_loop (skip_blanks r) cap out = out @ skip_blanks r"
    using Nil by (intro strip_orphan_loop_plain) auto
  moreover have "strip_orphan_loop (cl @ r) cap out = strip_orphan_loop (skip_blanks (drop (length cl) (cl @ r))) cap out"
    using strip_orphan_loop_Cons [of x y cap out] close_tag_here_whole [OF assms(1,2), of r] l by (simp add: xy)
  ultimately show ?case by simp
next
  case (Cons c b)
  then have "close_tag_here (c # b @ cl @ r) = None" by (auto simp: close_tag_here_def)
  then show ?case using Cons by (simp add: strip_orphan_loop_Cons)
qed

lemma max_partial_suffix_tag:
  assumes "plain_text b" and "plain_text r" and mem: "T \<in> set all_tags" and g: "map c_tolower g = T"
  shows "max_partial_suffix (b @ g @ r) = 0"
proof (rule ccontr)
  let ?w = "b @ g @ r" and ?m = "max_partial_suffix (b @ g @ r)"
  let ?k = "length ?w - ?m"
  assume "?m \<noteq> 0"
  note spec = max_partial_suffix_spec(1,2) [of ?w]
  have l: "length T = length g" using g by auto
  have k: "?k < length ?w" using spec(1) \<open>?m \<noteq> 0\<close> by linarith
  have at: "tag_at ?w (length b) T"
    using tag_at_after_plain [OF assms(1) mem] tag_at_whole [OF g mem mem, of r 0] by simp
  show False
  proof (cases "?k \<le> length b")
    case True
    then have "tag_at (drop ?k ?w) (length b - ?k) T"
      using at unfolding tag_at_shift by (simp only: le_add_diff_inverse)
    then show False using tag_at_held [OF spec(2) mem] by blast
  next
    case False
    have "drop ?k ?w \<noteq> []" using k unfolding drop_eq_Nil by linarith
    from held_prefix_lt [OF spec(2) this] have lt: "?w ! ?k = CHR ''<''" using hd_drop_conv_nth [OF k] by metis
    show False
    proof (cases "?k < length b + length g")
      case True
      have "?w ! (length b + (?k - length b)) \<noteq> CHR ''<''"
        using False True l by (intro tag_at_rest [OF at mem]) linarith+
      moreover have "length b + (?k - length b) = ?k" using False by linarith
      ultimately show False using lt by metis
    next
      case far: False
      then obtain j where j: "?k = length b + (length g + j)" by (metis add.assoc le_Suc_ex not_less)
      have "j < length r" using k unfolding j by simp
      moreover have "?w ! (length b + (length g + j)) = r ! j" by (simp add: nth_append)
      ultimately show False using lt assms(2) unfolding j by (metis nth_mem)
    qed
  qed
qed

lemma turn_pair_no_open: "no_tag OPEN_TAGS_LOWER w pos \<Longrightarrow> turn_pair w pos = None"
  unfolding turn_pair_def find_closed_pair_def
  by (simp, intro fold_id) (auto simp: closed_pair_step_def no_tag_find no_tag_shift split: option.split)

lemma not_boundary:
  assumes "CHR 10 \<notin> set b" and "c \<in> set b" and "\<not> blank_char c"
  shows "\<not> is_boundary (b @ v) (length b) nl"
proof -
  have n: "\<not> ((b @ v) ! i = CHR 10)" if "i < length b" for i using that assms(1) by (simp add: nth_append) (metis nth_mem)
  then have "find (\<lambda>i. (b @ v) ! i = CHR 10) (rev [0..<length b]) = None" by (simp add: find_None_iff)
  moreover obtain i where "i < length b" "b ! i = c" using assms(2) by (auto simp: in_set_conv_nth)
  moreover have "b \<noteq> []" using assms(2) by auto
  moreover have "c \<noteq> CHR 10" using assms(1,2) by metis
  ultimately show ?thesis using assms(3) by (auto simp: is_boundary_def nth_append intro!: bexI [of _ i])
qed

lemma open_at_no_boundary:
  assumes "one_tag OPEN_TAGS_LOWER w 0 p" and "\<not> is_boundary w p nl"
  shows "find_open_boundary w 0 nl = None"
  unfolding find_open_boundary_def
proof (intro fold_id)
  fix j assume j: "j \<in> set [0..<5::nat]"
  have "q = p" if "find_tag_lower w 0 (OPEN_TAGS_LOWER ! j) = Some q" for q
    using find_tag_lower_bounds [OF that] j assms(1) unfolding one_tag_def
    by (metis atLeastLessThan_iff atLeastLessThan_upt le0 length_tags(1) nth_mem)
  then show "open_step w 0 nl j None = None" using assms(2) by (auto simp: open_step_def split: option.split)
qed

lemma ts_run_one: "ts_run sc [d] = ts_text (fst (ts_feed sc d)) @ ts_text (fst (ts_flush (snd (ts_feed sc d))))"
  by (simp add: split_def Let_def)

lemma ts_run_two: "ts_run sc [d, e] = ts_text (fst (ts_feed sc d)) @ ts_run (snd (ts_feed sc d)) [e]"
  by (simp add: split_def Let_def)

text \<open>A pair after visible text, in one delta and cut after the opening tag.\<close>

lemma ts_pair_whole:
  assumes "i < 5" and "map c_tolower opn = OPEN_TAGS_LOWER ! i" and "map c_tolower cl = CLOSE_TAGS_LOWER ! i"
    and "CHR ''<'' \<notin> set b" and "CHR ''<'' \<notin> set body" and "CHR ''<'' \<notin> set rest"
    and "CHR 10 \<notin> set b" and "c \<in> set b" and "\<not> blank_char c"
  shows "ts_run think_scrubber_new [b @ opn @ body @ cl @ rest] = b @ rest"
proof -
  note op = tag_positions_open [OF assms(1,2)]
  have mem: "CLOSE_TAGS_LOWER ! i \<in> set all_tags" "OPEN_TAGS_LOWER ! i \<in> set all_tags" using assms(1) by simp_all
  have lc: "length (CLOSE_TAGS_LOWER ! i) = length cl" using assms(3) by (metis length_map)
  have bne: "b \<noteq> []" using assms(8) by auto
  let ?w = "b @ opn @ body @ cl @ rest" and ?q = "length b + length opn + length body"
  let ?sc = "ts_prepare think_scrubber_new ?w"
  have at: "tag_at ?w q t \<longleftrightarrow> q = length b \<and> t = OPEN_TAGS_LOWER ! i \<or> q = ?q \<and> t = CLOSE_TAGS_LOWER ! i"
    if "t \<in> set all_tags" for q t
    using op(3) [OF that] tag_at_whole [OF assms(3) mem(1) that] tag_at_plain_text [OF assms(6) that]
    by (auto simp: tag_at_after_plain [OF assms(4) that] tag_at_after_plain [OF assms(5) that])
  have ne: "OPEN_TAGS_LOWER ! i \<noteq> CLOSE_TAGS_LOWER ! i"
    using open_not_close [OF assms(1)] assms(1) by (metis length_tags(2) nth_mem)
  have oc: "one_tag CLOSE_TAGS_LOWER ?w (length b + length opn) ?q"
    using at all_tags_cases op(2) by (fastforce simp: one_tag_def)
  have oo: "one_tag OPEN_TAGS_LOWER ?w 0 (length b)"
    unfolding one_tag_def using at all_tags_cases open_not_close ne assms(1)
    by (metis length_tags(1,2) in_set_conv_nth le0 nth_mem)
  have nf: "find_open_boundary ?w 0 nl = None" for nl
    by (rule open_at_no_boundary [OF oo not_boundary [OF assms(7-9)]])
  have "find_closed_pair ?w = Some (length b, ?q + length (CLOSE_TAGS_LOWER ! i))"
    using at mem op(1) oc by (intro find_closed_pair_single [OF assms(1) _ _ oo]) auto
  then have tp: "turn_pair ?w 0 = Some (length b, ?q + length cl)" by (simp add: turn_pair_def lc)
  have ok: "turn_ok ?sc ?w 0 []" using ts_prepare_ok [of think_scrubber_new ?w] by (simp add: think_scrubber_new_def)
  have nb: "\<not> ts_in_block ?sc" by (simp add: think_scrubber_new_def)
  have em: "ts_emit ?sc ?w 0 (length b) [] = Some (?sc\<lparr>ts_last_nl := last b = CHR 10\<rparr>, b)"
    using ok bne by (simp add: ts_emit_def Let_def strip_orphan_plain [OF assms(4)] turn_ok_def)
  have t: "feed_turn ?sc ?w 0 [] = Inr (?sc\<lparr>ts_last_nl := last b = CHR 10\<rparr>, ?q + length cl, b)"
    using feed_turn_pair [OF nb tp] nf em by simp
  have lw: "0 < length ?w" using bne by simp
  have ok2: "turn_ok (?sc\<lparr>ts_last_nl := last b = CHR 10\<rparr>) ?w (?q + length cl) b" using feed_turn_Inr [OF ok lw t] by simp
  from loop_plain [OF ok2 lw] nb assms(6) obtain nl where
    "feed_loop (length ?w) (?sc\<lparr>ts_last_nl := last b = CHR 10\<rparr>) ?w (?q + length cl) b =
     (ts_result (b @ rest), ?sc\<lparr>ts_last_nl := nl, ts_buf := []\<rparr>)" by auto
  then have "feed_loop (Suc (length ?w)) ?sc ?w 0 [] = (ts_result (b @ rest), ?sc\<lparr>ts_last_nl := nl, ts_buf := []\<rparr>)"
    using t lw by simp
  moreover have "ts_feed think_scrubber_new ?w = feed_loop (Suc (length ?w)) ?sc ?w 0 []"
    using ts_feed_loop [of ?w think_scrubber_new] bne by (simp add: think_scrubber_new_def)
  ultimately have "ts_feed think_scrubber_new ?w = (ts_result (b @ rest), ?sc\<lparr>ts_last_nl := nl, ts_buf := []\<rparr>)" by simp
  then show ?thesis unfolding ts_run_one using nb by (simp add: ts_flush_def ts_text_def ts_result_def)
qed

lemma ts_pair_cut:
  assumes "i < 5" and "map c_tolower opn = OPEN_TAGS_LOWER ! i" and "map c_tolower cl = CLOSE_TAGS_LOWER ! i"
    and "CHR ''<'' \<notin> set b" and "CHR ''<'' \<notin> set body" and "CHR ''<'' \<notin> set rest"
    and "CHR 10 \<notin> set b" and "c \<in> set b" and "\<not> blank_char c"
  shows "ts_run think_scrubber_new [b @ opn, body @ cl @ rest] = b @ opn @ body @ skip_blanks rest"
proof -
  note op = tag_positions_open [OF assms(1,2)]
  have mem: "CLOSE_TAGS_LOWER ! i \<in> set all_tags" "OPEN_TAGS_LOWER ! i \<in> set all_tags" using assms(1) by simp_all
  have lc: "length (CLOSE_TAGS_LOWER ! i) = length cl" using assms(3) by (metis length_map)
  have bne: "b \<noteq> []" using assms(8) by auto
  let ?w = "b @ opn" and ?v = "body @ cl @ rest"
  let ?sc = "ts_prepare think_scrubber_new ?w"
  have at: "tag_at ?w q t \<longleftrightarrow> q = length b \<and> t = OPEN_TAGS_LOWER ! i" if "t \<in> set all_tags" for q t
    using op(3) [OF that, of "[]"] tag_at_Nil [OF that] by (auto simp: tag_at_after_plain [OF assms(4) that])
  have nc: "no_tag CLOSE_TAGS_LOWER ?w 0" using at all_tags_cases open_not_close [OF assms(1)] by (auto simp: no_tag_def)
  have oo: "one_tag OPEN_TAGS_LOWER ?w 0 (length b)" using at all_tags_cases by (auto simp: one_tag_def)
  have nf: "find_open_boundary ?w 0 nl = None" for nl
    by (rule open_at_no_boundary [OF oo not_boundary [OF assms(7-9)]])
  have ok: "turn_ok ?sc ?w 0 []" using ts_prepare_ok [of think_scrubber_new ?w] by (simp add: think_scrubber_new_def)
  have nb: "\<not> ts_in_block ?sc" by (simp add: think_scrubber_new_def)
  have m: "max_partial_suffix ?w = 0" using max_partial_suffix_tag [OF assms(4) _ mem(2) assms(2), of "[]"] by simp
  have st: "strip_orphan ?w (Suc (length ?w)) = ?w"
    using strip_orphan_loop_no_tag [OF nc, of "[]"] by (simp add: strip_orphan_def)
  have "feed_turn ?sc ?w 0 [] = (case ts_emit ?sc ?w 0 (length ?w) [] of
    None \<Rightarrow> Inl (None, ?sc) | Some (sc, out) \<Rightarrow> Inl (ts_result out, sc\<lparr>ts_buf := drop (0 + length ?w) ?w\<rparr>))"
    by (rule feed_turn_plain [OF nb turn_pair_None [OF nc] nf]) (simp add: m)
  also have "\<dots> = Inl (ts_result ?w, ?sc\<lparr>ts_last_nl := last ?w = CHR 10, ts_buf := []\<rparr>)"
    using bne ok st by (auto simp: ts_emit_def Let_def turn_ok_def)
  finally have "ts_feed think_scrubber_new ?w = (ts_result ?w, ?sc\<lparr>ts_last_nl := last ?w = CHR 10, ts_buf := []\<rparr>)"
    using ts_feed_loop [of ?w think_scrubber_new] bne by (simp add: think_scrubber_new_def)
  then obtain sc1 where f1: "ts_feed think_scrubber_new ?w = (ts_result ?w, sc1)" "ts_buf sc1 = []" "\<not> ts_in_block sc1"
    using nb by simp
  have cap: "0 < ts_out_cap sc1"
    using ts_feed_ok [OF ts_reach_inv [OF reach_new] f1(1)] by (simp add: ts_inv_def)
  have ok2: "turn_ok (ts_prepare sc1 ?v) ?v 0 []" using ts_prepare_ok [OF cap, of ?v] f1(2) by simp
  have atv: "tag_at ?v q t \<longleftrightarrow> q = length body \<and> t = CLOSE_TAGS_LOWER ! i" if "t \<in> set all_tags" for q t
    using tag_at_whole [OF assms(3) mem(1) that] tag_at_plain_text [OF assms(6) that]
    by (auto simp: tag_at_after_plain [OF assms(5) that])
  let ?sv = "ts_prepare sc1 ?v"
  have nov: "no_tag OPEN_TAGS_LOWER ?v 0"
    unfolding no_tag_def using atv all_tags_cases(2) open_not_close assms(1)
    by (metis in_set_conv_nth length_tags(1,2) nth_mem)
  have nbv: "\<not> ts_in_block ?sv" using f1(3) by simp
  have clne: "cl \<noteq> []" using lc tags_shape [OF mem(1)] by auto
  have mv: "max_partial_suffix ?v = 0" by (rule max_partial_suffix_tag [OF assms(5,6) mem(1) assms(3)])
  have stv: "strip_orphan ?v (Suc (length ?v)) = body @ skip_blanks rest"
    using strip_orphan_loop_close [OF assms(1,3,6,5), of "[]"] by (simp add: strip_orphan_def)
  have lsv: "length (body @ skip_blanks rest) \<le> length ?v" using length_dropWhile_le [of _ rest] by (simp add: trans_le_add2)
  have "feed_turn ?sv ?v 0 [] = (case ts_emit ?sv ?v 0 (length ?v) [] of
    None \<Rightarrow> Inl (None, ?sv) | Some (sc, out) \<Rightarrow> Inl (ts_result out, sc\<lparr>ts_buf := drop (0 + length ?v) ?v\<rparr>))"
    by (rule feed_turn_plain [OF nbv turn_pair_no_open [OF nov] find_open_None [OF nov]]) (simp add: mv)
  moreover obtain nl where "ts_emit ?sv ?v 0 (length ?v) [] = Some (?sv\<lparr>ts_last_nl := nl\<rparr>, body @ skip_blanks rest)"
    using clne ok2 lsv stv by (simp add: ts_emit_def Let_def turn_ok_def)
  ultimately have "feed_turn ?sv ?v 0 [] = Inl (ts_result (body @ skip_blanks rest), ?sv\<lparr>ts_last_nl := nl, ts_buf := []\<rparr>)"
    by simp
  then have fv: "ts_feed sc1 ?v = (ts_result (body @ skip_blanks rest), ?sv\<lparr>ts_last_nl := nl, ts_buf := []\<rparr>)"
    using ts_feed_loop [of ?v sc1] f1(2) clne by simp
  show ?thesis unfolding ts_run_two ts_run_one f1(1) fst_conv snd_conv fv ts_text_result
    using nbv by (simp add: ts_flush_def ts_text_def)
qed

text \<open>The rule that closed pairs are always removed does not survive streaming. A pair that follows
  visible text on its line is removed when it arrives in one delta; when the same text is cut after
  the opening tag, the tag and the whole body reach the output, and blanks after the pair are lost.\<close>

theorem ts_split_pair_leaks:
  assumes "i < 5" and "map c_tolower opn = OPEN_TAGS_LOWER ! i" and "map c_tolower cl = CLOSE_TAGS_LOWER ! i"
    and "CHR ''<'' \<notin> set b" and "CHR ''<'' \<notin> set body" and "CHR ''<'' \<notin> set rest"
    and "CHR 10 \<notin> set b" and "c \<in> set b" and "\<not> blank_char c"
  shows "ts_run think_scrubber_new [b @ opn @ body @ cl @ rest] = b @ rest
    \<and> ts_run think_scrubber_new [b @ opn, body @ cl @ rest] = b @ opn @ body @ skip_blanks rest"
  using ts_pair_whole [OF assms] ts_pair_cut [OF assms] by simp

lemma ts_split_pair_leaks_witness:
  "ts_run think_scrubber_new [''x <think>secret</think> y''] = ''x  y''
   \<and> ts_run think_scrubber_new [''x <think>'', ''secret</think> y''] = ''x <think>secrety''"
proof -
  have o: "map c_tolower ''<think>'' = OPEN_TAGS_LOWER ! 0" and c: "map c_tolower ''</think>'' = CLOSE_TAGS_LOWER ! 0"
    by code_simp+
  show ?thesis
    using ts_split_pair_leaks [OF _ o c, of "''x ''" "''secret''" "'' y''" "CHR ''x''"]
    by (simp add: blank_char_def del: ts_run.simps)
qed

end
