(* ===== verification/WubuBits.thy ===== *)
theory WubuBits
  imports Slermes_Prelude
begin

text \<open>
  \<^verbatim>\<open>lib/libwubuoffice/src/wubuzip\<close>: the LSB-first bit reader (\<open>bit.c\<close>), the bit writer
  (\<open>bitw.c\<close>), the little-endian helpers (\<open>io_le.h\<close>, the \<open>putle\<close> functions of \<open>zip.c\<close>) and the
  CRC-32 of \<open>crc.c\<close>. Bytes are 8-bit words, the two bit buffers keep their widths (32 and 64),
  counters and positions are naturals. The writer's buffer is the list of the bytes written;
  its allocations succeed, so the -1 that remains is the one of \<open>align\<close> and \<open>byte\<close>.
\<close>

section \<open>Bit reader\<close>

record bitreader =
  br_data :: "u8 list"
  br_bytepos :: nat
  br_bitbuf :: u32
  br_bitcnt :: nat

definition bit_init :: "u8 list \<Rightarrow> bitreader" where
  "bit_init data = \<lparr>br_data = data, br_bytepos = 0, br_bitbuf = 0, br_bitcnt = 0\<rparr>"

function bit_fill :: "bitreader \<Rightarrow> nat \<Rightarrow> bitreader" where
  "bit_fill b n =
     (if br_bitcnt b < n then
        if br_bytepos b \<ge> length (br_data b) then
          bit_fill (b\<lparr>br_bitbuf := br_bitbuf b OR 0, br_bitcnt := br_bitcnt b + 8\<rparr>) n
        else
          bit_fill (b\<lparr>br_bitbuf := br_bitbuf b OR push_bit (br_bitcnt b) (ucast (br_data b ! br_bytepos b)),
            br_bytepos := br_bytepos b + 1, br_bitcnt := br_bitcnt b + 8\<rparr>) n
      else b)"
  by pat_completeness auto
termination by (relation "measure (\<lambda>(b, n). n - br_bitcnt b)") auto

declare bit_fill.simps [simp del]

definition bit_get :: "bitreader \<Rightarrow> nat \<Rightarrow> u32 \<times> bitreader" where
  "bit_get b n =
     (let b = bit_fill b n;
          v = br_bitbuf b AND (push_bit n 1 - 1)
      in (v, b\<lparr>br_bitbuf := drop_bit n (br_bitbuf b), br_bitcnt := br_bitcnt b - n\<rparr>))"

definition bit_align :: "bitreader \<Rightarrow> bitreader" where
  "bit_align b = b\<lparr>br_bitbuf := 0, br_bitcnt := 0\<rparr>"

section \<open>Bit writer\<close>

record bitwriter =
  bw_p :: "u8 list"
  bw_bitbuf :: u64
  bw_bitcnt :: nat

definition bitw_init :: bitwriter where
  "bitw_init = \<lparr>bw_p = [], bw_bitbuf = 0, bw_bitcnt = 0\<rparr>"

function bitw_flush :: "bitwriter \<Rightarrow> bitwriter" where
  "bitw_flush w =
     (if bw_bitcnt w \<ge> 8 then
        bitw_flush (w\<lparr>bw_p := bw_p w @ [ucast (bw_bitbuf w AND 0xFF)],
          bw_bitbuf := drop_bit 8 (bw_bitbuf w), bw_bitcnt := bw_bitcnt w - 8\<rparr>)
      else w)"
  by pat_completeness auto
termination by (relation "measure bw_bitcnt") auto

declare bitw_flush.simps [simp del]

definition bitw_put :: "bitwriter \<Rightarrow> u32 \<Rightarrow> nat \<Rightarrow> bitwriter" where
  "bitw_put w v n =
     bitw_flush (w\<lparr>bw_bitbuf := bw_bitbuf w OR push_bit (bw_bitcnt w) (ucast (v AND (push_bit n 1 - 1))),
       bw_bitcnt := bw_bitcnt w + n\<rparr>)"

definition bitw_align :: "bitwriter \<Rightarrow> bitwriter option" where
  "bitw_align w =
     (if bw_bitcnt w > 0 then
        if bw_bitcnt w > 7 then None
        else Some (w\<lparr>bw_p := bw_p w @ [ucast (bw_bitbuf w AND 0xFF)], bw_bitbuf := 0, bw_bitcnt := 0\<rparr>)
      else Some w)"

definition bitw_byte :: "bitwriter \<Rightarrow> u8 \<Rightarrow> bitwriter option" where
  "bitw_byte w b =
     (if bw_bitcnt w \<noteq> 0 then
        if bw_bitcnt w \<ge> 8 then None
        else map_option (\<lambda>w. w\<lparr>bw_p := bw_p w @ [b]\<rparr>) (bitw_align w)
      else Some (w\<lparr>bw_p := bw_p w @ [b]\<rparr>))"

definition bitw_finish :: "bitwriter \<Rightarrow> u8 list option" where
  "bitw_finish w = map_option bw_p (bitw_align w)"

section \<open>Little-endian fields\<close>

text \<open>The two readers take the buffer and an offset that the caller has checked.\<close>

definition rd16 :: "u8 list \<Rightarrow> nat \<Rightarrow> u16" where
  "rd16 p i = ucast (p ! i) OR push_bit 8 (ucast (p ! (i + 1)))"

definition rd32 :: "u8 list \<Rightarrow> nat \<Rightarrow> u32" where
  "rd32 p i = ucast (p ! i) OR push_bit 8 (ucast (p ! (i + 1))) OR push_bit 16 (ucast (p ! (i + 2)))
     OR push_bit 24 (ucast (p ! (i + 3)))"

definition putle16 :: "u16 \<Rightarrow> u8 list" where
  "putle16 v = [ucast (v AND 0xFF), ucast (drop_bit 8 v AND 0xFF)]"

definition putle32 :: "u32 \<Rightarrow> u8 list" where
  "putle32 v = [ucast (v AND 0xFF), ucast (drop_bit 8 v AND 0xFF), ucast (drop_bit 16 v AND 0xFF),
     ucast (drop_bit 24 v AND 0xFF)]"

section \<open>CRC-32\<close>

definition crc_step :: "u32 \<Rightarrow> u32" where
  "crc_step c = (if c AND 1 \<noteq> 0 then 0xEDB88320 XOR drop_bit 1 c else drop_bit 1 c)"

definition build_crc :: "u32 list" where
  "build_crc = map (\<lambda>i. (crc_step ^^ 8) (of_nat i)) [0..<256]"

definition crc_byte :: "u32 list \<Rightarrow> u8 \<Rightarrow> u32 \<Rightarrow> u32" where
  "crc_byte crc_table p c = crc_table ! unat ((c XOR ucast p) AND 0xFF) XOR drop_bit 8 c"

definition wubuzip_crc32 :: "u8 list \<Rightarrow> u32" where
  "wubuzip_crc32 data = fold (crc_byte build_crc) data 0xFFFFFFFF XOR 0xFFFFFFFF"

end
