(* ===== verification/WubuHuffman.thy ===== *)
theory WubuHuffman
  imports WubuBits
begin

text \<open>
  \<^verbatim>\<open>lib/libwubuoffice/src/wubuzip\<close>: the Huffman tables of the DEFLATE codec. The decoder's table
  and its walk (\<open>huffman.c\<close>), the fixed code lengths (\<open>fixed.c\<close>), the canonical codes the
  encoder derives from given lengths (\<open>fixedcode.c\<close>), the two generators the dynamic blocks call
  (\<open>canon.c\<close>, \<open>limitcode.c\<close>). Arrays are lists; counts, codes and lengths are naturals with the
  truncation to \<open>uint16_t\<close>, \<open>uint32_t\<close> or \<open>uint64_t\<close> written out where a value could exceed it.
  \<open>qsort\<close> leaves the order of equal elements open, so it is an argument of \<open>limit_lengths\<close>.
\<close>

section \<open>Decoder table\<close>

record huff =
  hf_cnt :: "nat list"
  hf_sym :: "nat list"

definition huff_new :: huff where
  "huff_new = \<lparr>hf_cnt = replicate 16 0, hf_sym = replicate 288 0\<rparr>"

text \<open>Codes per length; length 0 means unused.\<close>

definition count_lengths :: "nat list \<Rightarrow> nat \<Rightarrow> nat list" where
  "count_lengths lengths n =
     (fold (\<lambda>i cnt. cnt[lengths ! i := cnt ! (lengths ! i) + 1]) [0..<n] (replicate 16 0))[0 := 0]"

definition left_step :: "nat list \<Rightarrow> nat \<Rightarrow> int option \<Rightarrow> int option" where
  "left_step cnt len left =
     (case left of None \<Rightarrow> None
      | Some l \<Rightarrow> let l = l * 2 - int (cnt ! len) in if l < 0 then None else Some l)"

definition huff_left :: "nat list \<Rightarrow> int option" where
  "huff_left cnt = fold (left_step cnt) [1..<16] (Some 1)"

definition huff_offs :: "nat list \<Rightarrow> nat list" where
  "huff_offs cnt = fold (\<lambda>len offs. offs[len + 1 := offs ! len + cnt ! len]) [1..<15] (replicate 16 0)"

definition sym_step :: "nat list \<Rightarrow> nat \<Rightarrow> nat list \<times> nat list \<Rightarrow> nat list \<times> nat list" where
  "sym_step lengths i st =
     (case st of (offs, symb) \<Rightarrow>
        let len = lengths ! i in
        if len \<noteq> 0 then (offs[len := offs ! len + 1], symb[offs ! len := i mod 65536]) else (offs, symb))"

text \<open>None is the -1 of an invalid code; \<open>h\<close> is the old contents of the table.\<close>

definition huff_build :: "huff \<Rightarrow> nat list \<Rightarrow> nat \<Rightarrow> huff option" where
  "huff_build h lengths n =
     (let cnt = count_lengths lengths n in
      case huff_left cnt of
        None \<Rightarrow> None
      | Some left \<Rightarrow>
          if left \<noteq> 0 \<and> (n = 0 \<or> left \<noteq> 1) then None
          else let (_, symb) = fold (sym_step lengths) [0..<n] (huff_offs cnt, hf_sym h)
               in Some \<lparr>hf_cnt = cnt, hf_sym = symb\<rparr>)"

text \<open>The walk: one bit per length; None is the -1 after fifteen bits.\<close>

fun huff_walk :: "nat list \<Rightarrow> huff \<Rightarrow> bitreader \<Rightarrow> int \<Rightarrow> int \<Rightarrow> int \<Rightarrow> nat option \<times> bitreader" where
  "huff_walk [] h b code first index = (None, b)"
| "huff_walk (len # lens) h b code first index =
     (let (v, b) = bit_get b 1;
          code = code OR uint v;
          count = int (hf_cnt h ! len)
      in if code - first < count then (Some (hf_sym h ! nat (index + (code - first))), b)
         else huff_walk lens h b (code * 2) ((first + count) * 2) (index + count))"

definition huff_decode :: "bitreader \<Rightarrow> huff \<Rightarrow> nat option \<times> bitreader" where
  "huff_decode b h = huff_walk [1..<16] h b 0 0 0"

section \<open>Fixed code\<close>

definition fixed_litlen :: "nat list" where
  "fixed_litlen = replicate 144 8 @ replicate 112 9 @ replicate 24 7 @ replicate 8 8"

definition fixed_dist :: "nat list" where
  "fixed_dist = replicate 32 5"

text \<open>The first code of each length, then the codes in symbol order.\<close>

definition first_codes :: "nat list \<Rightarrow> nat list" where
  "first_codes cnt =
     fold (\<lambda>i c. c[i := ((c ! (i - 1) + cnt ! (i - 1)) * 2) mod 65536]) [1..<16] (replicate 16 0)"

definition code_step :: "nat list \<Rightarrow> nat \<Rightarrow> nat list \<times> nat list \<Rightarrow> nat list \<times> nat list" where
  "code_step lengths i st =
     (case st of (c, code) \<Rightarrow>
        let L = lengths ! i in
        if L = 0 then (c, code[i := 0])
        else (c[L := (c ! L + 1) mod 65536], code[i := c ! L]))"

definition build_codes :: "nat list \<Rightarrow> nat \<Rightarrow> nat list" where
  "build_codes lengths n =
     snd (fold (code_step lengths) [0..<n] (first_codes (count_lengths lengths n), replicate n 0))"

text \<open>The four output arrays: codes and lengths of the literal/length and of the distance code.\<close>

definition fixed_code_init :: "(nat list \<times> nat list) \<times> nat list \<times> nat list" where
  "fixed_code_init =
     ((build_codes fixed_litlen 288, fixed_litlen), build_codes fixed_dist 32, fixed_dist)"

section \<open>\<open>canon.c\<close>\<close>

record huff_node =
  nd_freq :: nat
  nd_symbol :: int
  nd_parent :: int

definition node_cmp :: "huff_node \<Rightarrow> huff_node \<Rightarrow> int" where
  "node_cmp x y =
     (if nd_freq x \<noteq> nd_freq y then (if nd_freq x > nd_freq y then 1 else -1)
      else if nd_symbol x > nd_symbol y then 1 else -1)"

definition canon_leaves :: "nat list \<Rightarrow> nat \<Rightarrow> huff_node list" where
  "canon_leaves freqs n =
     map (\<lambda>i. \<lparr>nd_freq = freqs ! i, nd_symbol = int i, nd_parent = -1\<rparr>) (filter (\<lambda>i. freqs ! i > 0) [0..<n])"

text \<open>The least active node other than \<open>skip\<close>; None is the -1 of the search.\<close>

definition least_step :: "huff_node list \<Rightarrow> nat option \<Rightarrow> nat \<Rightarrow> nat option \<Rightarrow> nat option" where
  "least_step nd skip i best =
     (if nd_parent (nd ! i) \<noteq> -1 \<or> Some i = skip then best
      else case best of None \<Rightarrow> Some i
           | Some a \<Rightarrow> if node_cmp (nd ! i) (nd ! a) < 0 then Some i else best)"

definition least_active :: "huff_node list \<Rightarrow> nat option \<Rightarrow> nat option" where
  "least_active nd skip = fold (least_step nd skip) [0..<length nd] None"

text \<open>One turn of the merging loop; None when no second active node is found.\<close>

definition canon_merge :: "huff_node list \<Rightarrow> huff_node list option" where
  "canon_merge nd =
     (case least_active nd None of
        None \<Rightarrow> None
      | Some a \<Rightarrow>
          (case least_active nd (Some a) of
             None \<Rightarrow> None
           | Some b \<Rightarrow>
               let nodes = length nd;
                   nd = nd[a := (nd ! a)\<lparr>nd_parent := int nodes\<rparr>];
                   nd = nd[b := (nd ! b)\<lparr>nd_parent := int nodes\<rparr>]
               in Some (nd @ [\<lparr>nd_freq = (nd_freq (nd ! a) + nd_freq (nd ! b)) mod 2 ^ 32,
                               nd_symbol = -1, nd_parent = -1\<rparr>])))"

text \<open>The nodes still to be merged; a turn has one less.\<close>

definition active_nodes :: "huff_node list \<Rightarrow> nat" where
  "active_nodes nd = length (filter (\<lambda>x. nd_parent x = -1) nd)"

lemma least_step_cases:
  "least_step nd skip i best = best \<or>
   (least_step nd skip i best = Some i \<and> nd_parent (nd ! i) = -1 \<and> Some i \<noteq> skip)"
  by (cases best) (auto simp: least_step_def)

lemma least_fold:
  "fold (least_step nd skip) xs best = Some a \<Longrightarrow>
    best = Some a \<or> (a \<in> set xs \<and> nd_parent (nd ! a) = -1 \<and> Some a \<noteq> skip)"
proof (induction xs arbitrary: best)
  case (Cons x xs)
  from Cons.prems have "fold (least_step nd skip) xs (least_step nd skip x best) = Some a" by simp
  from Cons.IH [OF this] least_step_cases [of nd skip x best] show ?case by auto
qed simp

lemma least_active_Some:
  "least_active nd skip = Some a \<Longrightarrow> a < length nd \<and> nd_parent (nd ! a) = -1 \<and> Some a \<noteq> skip"
  unfolding least_active_def by (drule least_fold) auto

lemma mark_active:
  assumes "a < length nd" and "nd_parent (nd ! a) = -1"
  shows "active_nodes (nd[a := (nd ! a)\<lparr>nd_parent := int k\<rparr>]) = active_nodes nd - 1" and "0 < active_nodes nd"
proof -
  have p: "\<not> nd_parent ((nd ! a)\<lparr>nd_parent := int k\<rparr>) = -1" by simp
  show "active_nodes (nd[a := (nd ! a)\<lparr>nd_parent := int k\<rparr>]) = active_nodes nd - 1" "0 < active_nodes nd"
    unfolding active_nodes_def by (rule length_filter_update_drop [OF assms p])+
qed

lemma canon_merge_cases:
  assumes "canon_merge nd = Some nd1"
  obtains a b f where "least_active nd None = Some a" "least_active nd (Some a) = Some b" "nd_parent f = -1"
    "nd1 = (nd[a := (nd ! a)\<lparr>nd_parent := int (length nd)\<rparr>])
       [b := (nd[a := (nd ! a)\<lparr>nd_parent := int (length nd)\<rparr>] ! b)\<lparr>nd_parent := int (length nd)\<rparr>] @ [f]"
proof (cases "least_active nd None")
  case None
  then show thesis using assms by (simp only: canon_merge_def option.case option.distinct)
next
  case (Some a)
  show thesis
  proof (cases "least_active nd (Some a)")
    case None
    then show thesis using assms Some by (simp only: canon_merge_def option.case option.distinct)
  next
    case b: (Some b)
    show thesis
      by (rule that [OF Some b _ sym [OF assms [unfolded canon_merge_def Let_def Some b option.case option.inject]]]) simp
  qed
qed

lemma canon_merge_active:
  assumes "canon_merge nd = Some nd1"
  shows "active_nodes nd1 < active_nodes nd" and "length nd1 = Suc (length nd)"
proof -
  obtain a b f where a: "least_active nd None = Some a" and b: "least_active nd (Some a) = Some b"
    and f: "nd_parent f = -1" and e: "nd1 = (nd[a := (nd ! a)\<lparr>nd_parent := int (length nd)\<rparr>])
       [b := (nd[a := (nd ! a)\<lparr>nd_parent := int (length nd)\<rparr>] ! b)\<lparr>nd_parent := int (length nd)\<rparr>] @ [f]"
    using canon_merge_cases [OF assms] by blast
  define x where "x = nd[a := (nd ! a)\<lparr>nd_parent := int (length nd)\<rparr>]"
  note A = least_active_Some [OF a] and B = least_active_Some [OF b]
  have x: "active_nodes x = active_nodes nd - 1" "0 < active_nodes nd"
    unfolding x_def using mark_active [of a nd] A by (simp_all only: simp_thms)
  have xb: "b < length x" "nd_parent (x ! b) = -1" using A B by (auto simp: x_def nth_list_update_if)
  have "nd1 = x[b := (x ! b)\<lparr>nd_parent := int (length nd)\<rparr>] @ [f]" by (simp only: e x_def)
  then have "active_nodes nd1 = active_nodes (x[b := (x ! b)\<lparr>nd_parent := int (length nd)\<rparr>]) + 1"
    using f by (simp add: active_nodes_def)
  also have "\<dots> = active_nodes x - 1 + 1" by (simp only: mark_active(1) [OF xb])
  finally show "active_nodes nd1 < active_nodes nd" using x mark_active(2) [OF xb] by linarith
  show "length nd1 = Suc (length nd)" unfolding e by (simp only: length_append length_list_update list.size)
qed

text \<open>\<open>while (nodes > 1)\<close>; a turn that fails ends the function with -1.\<close>

function canon_loop :: "huff_node list \<Rightarrow> huff_node list option" where
  "canon_loop nd =
     (if length nd > 1 then
        (case canon_merge nd of None \<Rightarrow> None | Some nd \<Rightarrow> canon_loop nd)
      else Some nd)"
  by pat_completeness auto
termination by (relation "measure active_nodes") (simp_all add: canon_merge_active(1))

declare canon_loop.simps [simp del]

fun canon_depth :: "nat \<Rightarrow> huff_node list \<Rightarrow> nat \<Rightarrow> nat" where
  "canon_depth 0 nd cur = 0"
| "canon_depth (Suc fuel) nd cur =
     (if nd_parent (nd ! cur) \<noteq> -1 then Suc (canon_depth fuel nd (nat (nd_parent (nd ! cur)))) else 0)"

text \<open>The return value, the codes and the lengths left in the output arrays.\<close>

definition wubuzip_canon :: "nat list \<Rightarrow> nat \<Rightarrow> nat \<Rightarrow> int \<times> nat list \<times> nat list" where
  "wubuzip_canon freqs n maxlen =
     (let leaves = canon_leaves freqs n; zeros = replicate n 0 in
      if leaves = [] then (0, zeros, zeros)
      else if length leaves = 1 then
        (0, zeros, zeros[nat (nd_symbol (leaves ! 0)) := 1])
      else case canon_loop leaves of
        None \<Rightarrow> (-1, zeros, zeros)
      | Some nd \<Rightarrow>
          let depths = map (\<lambda>i. canon_depth (length nd) nd i) [0..<length leaves];
              len = fold (\<lambda>i len. len[nat (nd_symbol (leaves ! i)) := depths ! i mod 256]) [0..<length leaves] zeros
          in if fold max depths 0 > maxlen then (-1, zeros, len)
             else (0, build_codes len n, len))"

section \<open>\<open>limitcode.c\<close>\<close>

definition WBITS_NWORDS :: nat where
  "WBITS_NWORDS = 10"

definition bset :: "u32 list \<Rightarrow> nat \<Rightarrow> u32 list" where
  "bset b i = b[i div 32 := b ! (i div 32) OR push_bit (i mod 32) 1]"

definition bget :: "u32 list \<Rightarrow> nat \<Rightarrow> bool" where
  "bget b i \<longleftrightarrow> drop_bit (i mod 32) (b ! (i div 32)) AND 1 \<noteq> 0"

definition bor :: "u32 list \<Rightarrow> u32 list \<Rightarrow> u32 list" where
  "bor d s = map (\<lambda>i. d ! i OR s ! i) [0..<WBITS_NWORDS]"

record coin =
  cn_w :: nat
  cn_bits :: "u32 list"

text \<open>Pack the coins two by two; an odd one stays as it is.\<close>

fun package :: "coin list \<Rightarrow> coin list" where
  "package (x # y # cs) =
     \<lparr>cn_w = (cn_w x + cn_w y) mod 2 ^ 64, cn_bits = bor (bor (replicate WBITS_NWORDS 0) (cn_bits x)) (cn_bits y)\<rparr>
     # package cs"
| "package cs = cs"

definition limit_level :: "(coin list \<Rightarrow> coin list) \<Rightarrow> coin list \<Rightarrow> nat \<Rightarrow> coin list \<Rightarrow> coin list" where
  "limit_level qs orig lvl lst = package (qs lst) @ orig"

text \<open>One value of the outer \<open>L\<close>: the levels, then the boundary coin's symbols are counted.\<close>

definition limit_count :: "(coin list \<Rightarrow> coin list) \<Rightarrow> coin list \<Rightarrow> nat \<Rightarrow> nat \<Rightarrow> nat list \<Rightarrow> nat list" where
  "limit_count qs orig nsym L lcount =
     (let lst = qs (fold (limit_level qs orig) [1..<Suc L] orig); bnd = 2 * (nsym - 1)
      in if bnd < length lst
         then map (\<lambda>s. if bget (cn_bits (lst ! bnd)) s then lcount ! s + 1 else lcount ! s) [0..<nsym]
         else lcount)"

definition limit_clamp :: "nat \<Rightarrow> nat \<Rightarrow> nat" where
  "limit_clamp maxlen L = (let L = (if L < 1 then 1 else L) in if L > maxlen then maxlen else L)"

text \<open>The return value and the lengths.\<close>

definition limit_lengths :: "(coin list \<Rightarrow> coin list) \<Rightarrow> nat list \<Rightarrow> nat \<Rightarrow> nat \<Rightarrow> int \<times> nat list" where
  "limit_lengths qs freqs n maxlen =
     (let zeros = replicate n 0; idx = filter (\<lambda>i. freqs ! i > 0) [0..<n]; nsym = length idx in
      if nsym = 0 then (0, zeros)
      else if nsym = 1 then (0, zeros[idx ! 0 := 1])
      else if maxlen < 1 then (-1, zeros)
      else if n > WBITS_NWORDS * 32 then (-1, zeros)
      else
        let orig = qs (map (\<lambda>s. \<lparr>cn_w = freqs ! (idx ! s), cn_bits = bset (replicate WBITS_NWORDS 0) s\<rparr>) [0..<nsym]);
            lcount = fold (limit_count qs orig nsym) [1..<Suc maxlen] (replicate nsym 0)
        in (0, fold (\<lambda>s len. len[idx ! s := limit_clamp maxlen (lcount ! s)]) [0..<nsym] zeros))"

end
