(* ===== verification/WubuLz77.thy ===== *)
theory WubuLz77
  imports Slermes_Prelude
begin

text \<open>
  \<^verbatim>\<open>lib/libwubuoffice/src/wubuzip/lz77.c\<close>: the hash-chain matcher with lazy evaluation that
  turns a block of bytes into literals and back references. The two arrays are functions from an
  index; \<open>malloc\<close> leaves \<open>chain\<close> uninitialised, but only entries that were written are read, so its
  initial value is immaterial. Allocations succeed.
\<close>

definition LZ_WIN :: int where "LZ_WIN = 32768"
definition LZ_NICE :: nat where "LZ_NICE = 258"
definition LZ_CHAIN :: nat where "LZ_CHAIN = 256"

text \<open>The token: the \<open>kind\<close> field selects the variant.\<close>

datatype lz_tok = Literal u8 | Match (tok_len: nat) (tok_dist: nat)

definition hash3 :: "u8 list \<Rightarrow> nat \<Rightarrow> nat" where
  "hash3 p i =
     (let h = (0 :: u32);
          h = (h * 2654435761) XOR ucast (p ! i);
          h = (h * 2654435761) XOR ucast (p ! (i + 1));
          h = (h * 2654435761) XOR ucast (p ! (i + 2))
      in unat (drop_bit 17 h AND 32767))"

text \<open>The length of the common run at two positions, at most \<open>m\<close>.\<close>

fun match_run :: "u8 list \<Rightarrow> nat \<Rightarrow> nat \<Rightarrow> nat \<Rightarrow> nat" where
  "match_run inp j pos 0 = 0"
| "match_run inp j pos (Suc m) = (if inp ! j = inp ! pos then Suc (match_run inp (Suc j) (Suc pos) m) else 0)"

text \<open>The walk along the chain; the first argument is the number of candidates left.\<close>

fun longest_loop :: "nat \<Rightarrow> u8 list \<Rightarrow> (nat \<Rightarrow> int) \<Rightarrow> nat \<Rightarrow> int \<Rightarrow> nat \<Rightarrow> nat \<Rightarrow> nat \<times> nat" where
  "longest_loop 0 inp chain pos cand best best_dist = (best, best_dist)"
| "longest_loop (Suc steps) inp chain pos cand best best_dist =
     (if cand \<ge> 0 then
        let j = nat cand in
        if int pos - cand > LZ_WIN then (best, best_dist)
        else if inp ! j = inp ! pos then
          let maxrun = (if length inp - pos > LZ_NICE then LZ_NICE else length inp - pos);
              run = match_run inp j pos maxrun
          in if run > best then
               if run \<ge> LZ_NICE then (run, pos - j)
               else longest_loop steps inp chain pos (chain j) run (pos - j)
             else longest_loop steps inp chain pos (chain j) best best_dist
        else longest_loop steps inp chain pos (chain j) best best_dist
      else (best, best_dist))"

definition longest :: "u8 list \<Rightarrow> (nat \<Rightarrow> int) \<Rightarrow> (nat \<Rightarrow> int) \<Rightarrow> nat \<Rightarrow> nat \<times> nat" where
  "longest inp head chain pos = longest_loop LZ_CHAIN inp chain pos (head (hash3 inp pos)) 0 0"

text \<open>The state of \<open>wubuzip_lz_parse\<close>.\<close>

record lz =
  lz_tok :: "lz_tok list"
  lz_head :: "nat \<Rightarrow> int"
  lz_chain :: "nat \<Rightarrow> int"
  lz_pos :: nat

definition push_tok :: "lz \<Rightarrow> lz_tok \<Rightarrow> lz" where
  "push_tok z t = z\<lparr>lz_tok := lz_tok z @ [t]\<rparr>"

definition lz_insert :: "u8 list \<Rightarrow> lz \<Rightarrow> nat \<Rightarrow> lz" where
  "lz_insert inp z p =
     (if p + 3 \<le> length inp then
        let h = hash3 inp p in z\<lparr>lz_chain := (lz_chain z)(p := lz_head z h), lz_head := (lz_head z)(h := int p)\<rparr>
      else z)"

text \<open>The position advances over \<open>l\<close> bytes, each entered in the hash chain.\<close>

definition lz_advance :: "u8 list \<Rightarrow> nat \<Rightarrow> lz \<Rightarrow> lz" where
  "lz_advance inp l z =
     (let pos = lz_pos z; z = fold (\<lambda>k z. lz_insert inp z (pos + k)) [0..<l] z in z\<lparr>lz_pos := pos + l\<rparr>)"

text \<open>One turn of the loop.\<close>

definition lz_step :: "u8 list \<Rightarrow> lz \<Rightarrow> lz" where
  "lz_step inp z =
     (let pos = lz_pos z; in_len = length inp in
      if in_len - pos < 3 then (push_tok z (Literal (inp ! pos)))\<lparr>lz_pos := pos + 1\<rparr>
      else
        let (l1, d1) = longest inp (lz_head z) (lz_chain z) pos;
            (l2, d2) = (if l1 \<ge> 3 \<and> pos + 1 < in_len - 2 then longest inp (lz_head z) (lz_chain z) (pos + 1) else (0, 0))
        in if l1 \<ge> 3 \<and> l1 \<ge> l2 then lz_advance inp l1 (push_tok z (Match (l1 mod 65536) (d1 mod 65536)))
           else if l2 \<ge> 3 then
             let z = lz_advance inp 1 (push_tok z (Literal (inp ! pos)))
             in lz_advance inp l2 (push_tok z (Match (l2 mod 65536) (d2 mod 65536)))
           else lz_advance inp 1 (push_tok z (Literal (inp ! pos))))"

lemma lz_advance_pos [simp]: "lz_pos (lz_advance inp l z) = lz_pos z + l"
  by (simp add: lz_advance_def Let_def)

lemma push_tok_pos [simp]: "lz_pos (push_tok z t) = lz_pos z"
  by (simp add: push_tok_def)

lemma lz_step_pos: "lz_pos z < lz_pos (lz_step inp z)"
  by (simp add: lz_step_def Let_def split: prod.split)

function lz_loop :: "u8 list \<Rightarrow> lz \<Rightarrow> lz" where
  "lz_loop inp z = (if lz_pos z < length inp then lz_loop inp (lz_step inp z) else z)"
  by pat_completeness auto
termination
  by (relation "measure (\<lambda>(inp, z). length inp - lz_pos z)") (auto intro: diff_less_mono2 lz_step_pos)

declare lz_loop.simps [simp del]

definition lz_init :: lz where
  "lz_init = \<lparr>lz_tok = [], lz_head = (\<lambda>_. -1), lz_chain = (\<lambda>_. -1), lz_pos = 0\<rparr>"

definition wubuzip_lz_parse :: "u8 list \<Rightarrow> lz_tok list" where
  "wubuzip_lz_parse inp = lz_tok (lz_loop inp lz_init)"

end
