(* ===== verification/WubuFlate.thy ===== *)
theory WubuFlate
  imports WubuHuffman WubuLz77
begin

text \<open>
  \<^verbatim>\<open>lib/libwubuoffice/src/wubuzip\<close>: the DEFLATE codec. \<open>block.c\<close> decodes one compressed block,
  \<open>inflate.c\<close> a stream of blocks, \<open>deflate.c\<close> chooses a method per block of at most 32768 bytes
  and emits it. The decoder's \<open>for (;;)\<close> need not end (past its input the reader feeds zeros), so it
  takes fuel; None is the lack of it, and the result inside is the return code with the state.
  The tables a block builds start from arbitrary contents that are never read; \<open>huff_new\<close>
  stands for them. Allocations succeed.
\<close>

section \<open>Length and distance symbols\<close>

definition len_base :: "nat list" where
  "len_base = [3,4,5,6,7,8,9,10,11,13,15,17,19,23,27,31,35,43,51,59,67,83,99,115,131,163,195,227,258]"

definition len_extra :: "nat list" where
  "len_extra = [0,0,0,0,0,0,0,0,1,1,1,1,2,2,2,2,3,3,3,3,4,4,4,4,5,5,5,5,0]"

definition dist_base :: "nat list" where
  "dist_base = [1,2,3,4,5,7,9,13,17,25,33,49,65,97,129,193,257,385,513,769,
     1025,1537,2049,3073,4097,6145,8193,12289,16385,24577]"

definition dist_extra :: "nat list" where
  "dist_extra = [0,0,0,0,1,1,2,2,3,3,4,4,5,5,6,6,7,7,8,8,9,9,10,10,11,11,12,12,13,13]"

definition in_class :: "nat list \<Rightarrow> nat list \<Rightarrow> nat \<Rightarrow> nat \<Rightarrow> bool" where
  "in_class base extra x k \<longleftrightarrow> base ! k \<le> x \<and> x \<le> base ! k + 2 ^ (extra ! k) - 1"

definition len_sym :: "nat \<Rightarrow> nat" where
  "len_sym len = (case find (in_class len_base len_extra len) [0..<29] of Some k \<Rightarrow> k | None \<Rightarrow> 28)"

definition dist_sym :: "nat \<Rightarrow> nat" where
  "dist_sym dist = (case find (in_class dist_base dist_extra dist) [0..<30] of Some k \<Rightarrow> k | None \<Rightarrow> 29)"

section \<open>Decoding a block\<close>

fun block_copy :: "nat \<Rightarrow> nat \<Rightarrow> u8 list \<Rightarrow> u8 list" where
  "block_copy 0 distance out = out"
| "block_copy (Suc n) distance out = block_copy n distance (out @ [out ! (length out - distance)])"

fun block_decode :: "nat \<Rightarrow> huff \<Rightarrow> huff \<Rightarrow> bitreader \<Rightarrow> u8 list \<Rightarrow> (int \<times> bitreader \<times> u8 list) option" where
  "block_decode 0 lit dist b out = None"
| "block_decode (Suc fuel) lit dist b out =
     (case huff_decode b lit of
        (None, b) \<Rightarrow> Some (-1, b, out)
      | (Some s, b) \<Rightarrow>
          if s = 256 then Some (0, b, out)
          else if s < 256 then block_decode fuel lit dist b (out @ [of_nat s])
          else if s - 257 \<ge> 29 then Some (-1, b, out)
          else
            let (x, b) = bit_get b (len_extra ! (s - 257));
                len = len_base ! (s - 257) + unat x
            in case huff_decode b dist of
                 (None, b) \<Rightarrow> Some (-1, b, out)
               | (Some ds, b) \<Rightarrow>
                   if ds \<ge> 30 then Some (-1, b, out)
                   else
                     let (y, b) = bit_get b (dist_extra ! ds);
                         distance = dist_base ! ds + unat y
                     in if distance > length out then Some (-1, b, out)
                        else block_decode fuel lit dist b (block_copy len distance out))"

definition CL_ORD :: "nat list" where
  "CL_ORD = [16,17,18,0,8,7,9,6,10,5,11,4,12,3,13,2,14,1,15]"

fun read_cl_lens :: "nat list \<Rightarrow> bitreader \<Rightarrow> nat list \<Rightarrow> nat list \<times> bitreader" where
  "read_cl_lens [] b cl_len = (cl_len, b)"
| "read_cl_lens (o1 # os) b cl_len =
     (let (v, b) = bit_get b 3 in read_cl_lens os b (cl_len[o1 := unat v]))"

text \<open>The run-length decoder of the code lengths; None is an error. The array filled so far is the
  list, \<open>rep\<close> stops at the end of the array.\<close>

function read_lengths :: "bitreader \<Rightarrow> huff \<Rightarrow> nat \<Rightarrow> nat list \<Rightarrow> nat list option \<times> bitreader" where
  "read_lengths b clh n lengths =
     (if length lengths < n then
        (case huff_decode b clh of
           (None, b) \<Rightarrow> (None, b)
         | (Some s, b) \<Rightarrow>
             let i = length lengths in
             if s < 16 then read_lengths b clh n (lengths @ [s])
             else if s = 16 then
               if i = 0 then (None, b)
               else let (x, b) = bit_get b 2
                    in read_lengths b clh n (lengths @ replicate (min (unat x + 3) (n - i)) (lengths ! (i - 1)))
             else if s = 17 then
               let (x, b) = bit_get b 3 in read_lengths b clh n (lengths @ replicate (min (unat x + 3) (n - i)) 0)
             else if s = 18 then
               let (x, b) = bit_get b 7 in read_lengths b clh n (lengths @ replicate (min (unat x + 11) (n - i)) 0)
             else (None, b))
      else (Some lengths, b))"
  by pat_completeness auto
termination by (relation "measure (\<lambda>(b, clh, n, lengths). n - length lengths)") auto

declare read_lengths.simps [simp del]

definition block_dynamic :: "nat \<Rightarrow> bitreader \<Rightarrow> u8 list \<Rightarrow> (int \<times> bitreader \<times> u8 list) option" where
  "block_dynamic fuel b out =
     (let (x, b) = bit_get b 5; hlit = unat x + 257;
          (x, b) = bit_get b 5; hdist = unat x + 1;
          (x, b) = bit_get b 4; hclen = unat x + 4;
          (cl_len, b) = read_cl_lens (take hclen CL_ORD) b (replicate 19 0)
      in case huff_build huff_new cl_len 19 of
           None \<Rightarrow> Some (-1, b, out)
         | Some clh \<Rightarrow>
             (case read_lengths b clh (hlit + hdist) [] of
                (None, b) \<Rightarrow> Some (-1, b, out)
              | (Some lengths, b) \<Rightarrow>
                  (case huff_build huff_new lengths hlit of
                     None \<Rightarrow> Some (-1, b, out)
                   | Some lit \<Rightarrow>
                       (case huff_build huff_new (drop hlit lengths) hdist of
                          None \<Rightarrow> Some (-1, b, out)
                        | Some dist \<Rightarrow> block_decode fuel lit dist b out))))"

section \<open>\<open>inflate.c\<close>\<close>

definition inflate_stored :: "bitreader \<Rightarrow> u8 list \<Rightarrow> int \<times> bitreader \<times> u8 list" where
  "inflate_stored b out =
     (let b = bit_align b; inp = br_data b in
      if br_bytepos b + 4 > length inp then (-1, b, out)
      else let len = unat (rd16 inp (br_bytepos b)); start = br_bytepos b + 4 in
        if start + len > length inp then (-1, b, out)
        else (0, b\<lparr>br_bytepos := start + len\<rparr>, out @ take len (drop start inp)))"

definition inflate_fixed :: "nat \<Rightarrow> bitreader \<Rightarrow> u8 list \<Rightarrow> (int \<times> bitreader \<times> u8 list) option" where
  "inflate_fixed fuel b out =
     (case (huff_build huff_new fixed_litlen 288, huff_build huff_new fixed_dist 32) of
        (Some lit, Some dist) \<Rightarrow> block_decode fuel lit dist b out
      | _ \<Rightarrow> Some (-1, b, out))"

text \<open>The loop over blocks; the first argument is what is left of the guard of a million blocks.
  The result is None when fuel runs out, and inside it the output or the failure.\<close>

fun inflate_loop :: "nat \<Rightarrow> nat \<Rightarrow> bitreader \<Rightarrow> u8 list \<Rightarrow> u8 list option option" where
  "inflate_loop 0 fuel b out = Some None"
| "inflate_loop (Suc guard) fuel b out =
     (let (bfinal, b) = bit_get b 1;
          (btype, b) = bit_get b 2;
          r = (if btype = 0 then Some (inflate_stored b out)
               else if btype = 1 then inflate_fixed fuel b out
               else if btype = 2 then block_dynamic fuel b out
               else Some (-1, b, out))
      in case r of
           None \<Rightarrow> None
         | Some (rc, b, out) \<Rightarrow>
             if rc \<noteq> 0 then Some None
             else if bfinal \<noteq> 0 then Some (Some out)
             else inflate_loop guard fuel b out)"

definition INFLATE_GUARD :: nat where
  "INFLATE_GUARD = 1000000"

definition wubuzip_inflate :: "nat \<Rightarrow> u8 list \<Rightarrow> bool \<Rightarrow> u8 list option option" where
  "wubuzip_inflate fuel inp with_zlib_header =
     (let b = bit_init inp;
          b = (if with_zlib_header then snd (bit_get (snd (bit_get b 8)) 8) else b)
      in inflate_loop INFLATE_GUARD fuel b [])"

section \<open>\<open>deflate.c\<close>\<close>

definition put_code :: "bitwriter \<Rightarrow> nat \<Rightarrow> nat \<Rightarrow> bitwriter" where
  "put_code w v n = fold (\<lambda>k w. bitw_put w (drop_bit k (of_nat v) AND 1) 1) (rev [0..<n]) w"

text \<open>\<open>while (i + run < n && lens[i + run] == v && run < limit) run++\<close>\<close>

function run_length :: "nat list \<Rightarrow> nat \<Rightarrow> nat \<Rightarrow> nat \<Rightarrow> nat \<Rightarrow> nat \<Rightarrow> nat" where
  "run_length lens n i v limit run =
     (if i + run < n \<and> lens ! (i + run) = v \<and> run < limit then run_length lens n i v limit (run + 1) else run)"
  by pat_completeness auto
termination by (relation "measure (\<lambda>(lens, n, i, v, limit, run). limit - run)") auto

declare run_length.simps [simp del]

lemma run_length_pos: "0 < run \<Longrightarrow> 0 < run_length lens n i v limit run"
  by (induction lens n i v limit run rule: run_length.induct) (subst run_length.simps, simp)

function emit_lengths :: "bitwriter \<Rightarrow> nat list \<Rightarrow> nat \<Rightarrow> nat list \<Rightarrow> nat list \<Rightarrow> nat \<Rightarrow> bitwriter" where
  "emit_lengths w lens n clcode cllen i =
     (if i < n then
        let v = lens ! i in
        if v = 0 then
          let run = run_length lens n i 0 138 1;
              w = (if run \<ge> 11 then bitw_put (put_code w (clcode ! 18) (cllen ! 18)) (of_nat (run - 11)) 7
                   else if run \<ge> 3 then bitw_put (put_code w (clcode ! 17) (cllen ! 17)) (of_nat (run - 3)) 3
                   else put_code w (clcode ! 0) (cllen ! 0))
          in emit_lengths w lens n clcode cllen (i + run)
        else
          let w = put_code w (clcode ! v) (cllen ! v);
              run = run_length lens n i v 6 1
          in if run \<ge> 3 then
               emit_lengths (bitw_put (put_code w (clcode ! 16) (cllen ! 16)) (of_nat (run - 3)) 2) lens n clcode cllen (i + run)
             else emit_lengths w lens n clcode cllen (i + 1)
      else w)"
  by pat_completeness auto
termination
  by (relation "measure (\<lambda>(w, lens, n, clcode, cllen, i). n - i)") (auto simp: run_length_pos intro: diff_less_mono2)

declare emit_lengths.simps [simp del]

definition cost_token :: "nat list \<Rightarrow> nat list \<Rightarrow> lz_tok \<Rightarrow> nat" where
  "cost_token lit_len dist_len t =
     (case t of
        Literal c \<Rightarrow> lit_len ! unat c
      | Match len dist \<Rightarrow>
          lit_len ! (257 + len_sym len) + len_extra ! len_sym len
          + dist_len ! dist_sym dist + dist_extra ! dist_sym dist)"

definition cost_tokens :: "lz_tok list \<Rightarrow> nat list \<Rightarrow> nat list \<Rightarrow> nat" where
  "cost_tokens tok lit_len dist_len = fold (\<lambda>t bits. bits + cost_token lit_len dist_len t) tok 0"

text \<open>One token under the given codes; the same lines emit it in a fixed and in a dynamic block.\<close>

definition emit_token :: "nat list \<Rightarrow> nat list \<Rightarrow> nat list \<Rightarrow> nat list \<Rightarrow> lz_tok \<Rightarrow> bitwriter \<Rightarrow> bitwriter" where
  "emit_token lc ll dc dl t w =
     (case t of
        Literal c \<Rightarrow> put_code w (lc ! unat c) (ll ! unat c)
      | Match len dist \<Rightarrow>
          let ls = len_sym len; lsym = 257 + ls;
              w = put_code w (lc ! lsym) (ll ! lsym);
              w = (if len_extra ! ls \<noteq> 0 then bitw_put w (of_nat (len - len_base ! ls)) (len_extra ! ls) else w);
              dsym = dist_sym dist;
              w = put_code w (dc ! dsym) (dl ! dsym)
          in if dist_extra ! dsym \<noteq> 0 then bitw_put w (of_nat (dist - dist_base ! dsym)) (dist_extra ! dsym) else w)"

text \<open>\<open>lfreq\<close>, \<open>dfreq\<close>, \<open>maxlit\<close>, \<open>maxdist\<close> over the tokens; a length or distance outside every
  class counts for symbol 0.\<close>

definition freq_token :: "lz_tok \<Rightarrow> nat list \<times> nat list \<times> nat \<times> nat \<Rightarrow> nat list \<times> nat list \<times> nat \<times> nat" where
  "freq_token t st =
     (case st of (lfreq, dfreq, maxlit, maxdist) \<Rightarrow>
       (case t of
          Literal c \<Rightarrow> (lfreq[unat c := lfreq ! unat c + 1], dfreq, max maxlit (unat c), maxdist)
        | Match len dist \<Rightarrow>
            let lsym = (case find (in_class len_base len_extra len) [0..<29] of Some k \<Rightarrow> 257 + k | None \<Rightarrow> 0);
                dsym = (case find (in_class dist_base dist_extra dist) [0..<30] of Some k \<Rightarrow> k | None \<Rightarrow> 0)
            in (lfreq[lsym := lfreq ! lsym + 1], dfreq[dsym := dfreq ! dsym + 1], max maxlit lsym, max maxdist dsym)))"

text \<open>The frequencies with the end of block counted, then \<open>hlit\<close> and \<open>hdist\<close>.\<close>

definition token_freqs :: "lz_tok list \<Rightarrow> nat list \<times> nat list \<times> nat \<times> nat" where
  "token_freqs tok =
     (let (lfreq, dfreq, maxlit, maxdist) = fold freq_token tok (replicate 288 0, replicate 32 0, 255, 0);
          lfreq = lfreq[256 := lfreq ! 256 + 1];
          hlit = (if maxlit + 1 < 257 then 257 else maxlit + 1);
          hdist = (if maxdist + 1 < 1 then 1 else maxdist + 1)
      in (lfreq, dfreq, hlit, hdist))"

definition emit_tokens :: "nat list \<Rightarrow> nat list \<Rightarrow> nat list \<Rightarrow> nat list \<Rightarrow> lz_tok list \<Rightarrow> bitwriter \<Rightarrow> bitwriter" where
  "emit_tokens lc ll dc dl tok w = put_code (fold (emit_token lc ll dc dl) tok w) (lc ! 256) (ll ! 256)"

definition emit_fixed :: "bitwriter \<Rightarrow> lz_tok list \<Rightarrow> bitwriter" where
  "emit_fixed w tok = (let ((lc, ll), dc, dl) = fixed_code_init in emit_tokens lc ll dc dl tok w)"

text \<open>\<open>canon\<close> on the pattern of used symbols; its return value is ignored.\<close>

definition recode :: "nat list \<Rightarrow> nat \<Rightarrow> nat \<Rightarrow> nat list \<times> nat list" where
  "recode len n maxlen = snd (wubuzip_canon (map (\<lambda>i. if len ! i \<noteq> 0 then 1 else 0) [0..<n]) n maxlen)"

function trim_hclen :: "nat list \<Rightarrow> nat \<Rightarrow> nat" where
  "trim_hclen cllen hclen =
     (if hclen \<ge> 4 \<and> cllen ! (CL_ORD ! hclen) = 0 then trim_hclen cllen (hclen - 1) else hclen)"
  by pat_completeness auto
termination by (relation "measure snd") auto

declare trim_hclen.simps [simp del]

definition emit_dynamic :: "(coin list \<Rightarrow> coin list) \<Rightarrow> bitwriter \<Rightarrow> lz_tok list \<Rightarrow> bitwriter option" where
  "emit_dynamic qs w tok =
     (let (lfreq, dfreq, hlit, hdist) = token_freqs tok;
          (rl, llen) = limit_lengths qs lfreq hlit 15;
          (rd, dlen) = limit_lengths qs dfreq hdist 15
      in if rl \<noteq> 0 \<or> rd \<noteq> 0 then None
      else
        let (lcode, llen) = recode llen hlit 15;
            (dcode, dlen) = recode dlen hdist 15;
            comb = take hlit llen @ take hdist dlen;
            clfreq = fold (\<lambda>i f. f[comb ! i := f ! (comb ! i) + 1]) [0..<hlit + hdist] (replicate 19 0);
            (rc, cllen) = limit_lengths qs clfreq 19 7
        in if rc \<noteq> 0 then None
        else
          let (clcode, cllen) = recode cllen 19 7;
              w = bitw_put w (of_nat (hlit - 257)) 5;
              w = bitw_put w (of_nat (hdist - 1)) 5;
              hclen = trim_hclen cllen 18;
              w = bitw_put w (of_nat (hclen - 3)) 4;
              w = fold (\<lambda>i w. bitw_put w (of_nat (cllen ! (CL_ORD ! i))) 3) [0..<Suc hclen] w;
              w = emit_lengths w comb (hlit + hdist) clcode cllen 0
          in Some (emit_tokens lcode llen dcode dlen tok w))"

fun emit_bytes :: "u8 list \<Rightarrow> bitwriter \<Rightarrow> bitwriter option" where
  "emit_bytes [] w = Some w"
| "emit_bytes (c # cs) w = (case bitw_byte w c of None \<Rightarrow> None | Some w \<Rightarrow> emit_bytes cs w)"

definition emit_stored :: "bitwriter \<Rightarrow> u8 list \<Rightarrow> bitwriter option" where
  "emit_stored w blk =
     (let w = (case bitw_align w of None \<Rightarrow> w | Some w \<Rightarrow> w);
          n = (of_nat (length blk) :: u32)
      in emit_bytes ([ucast (n AND 0xFF), ucast (drop_bit 8 n AND 0xFF),
           ucast (NOT n AND 0xFF), ucast (drop_bit 8 (NOT n) AND 0xFF)] @ blk) w)"

text \<open>\<open>emit_block\<close> on the bytes of its block.\<close>

definition emit_block :: "(coin list \<Rightarrow> coin list) \<Rightarrow> bitwriter \<Rightarrow> u8 list \<Rightarrow> bool \<Rightarrow> nat \<Rightarrow> bitwriter option" where
  "emit_block qs w blk bfinal m =
     (if blk = [] then
        let w = bitw_put w (of_bool bfinal) 1; w = bitw_put w 1 2;
            ((lc, ll), dc, dl) = fixed_code_init
        in Some (put_code w (lc ! 256) (ll ! 256))
      else
        let w = bitw_put w (of_bool bfinal) 1; w = bitw_put w (of_nat m AND 3) 2 in
        if m = 0 then emit_stored w blk
        else let tok = wubuzip_lz_parse blk in
          if m = 1 then Some (emit_fixed w tok) else emit_dynamic qs w tok)"

definition best_method :: "(coin list \<Rightarrow> coin list) \<Rightarrow> u8 list \<Rightarrow> nat" where
  "best_method qs blk =
     (if blk = [] then 1
      else
        let tok = wubuzip_lz_parse blk;
            stored_cost = 3 + 32 + 32 + 8 * length blk;
            ((lc, ll), dc, dl) = fixed_code_init;
            fixed_cost = 3 + cost_tokens tok ll dl + ll ! 256;
            (lfreq, dfreq, hlit, hdist) = token_freqs tok;
            llen = snd (limit_lengths qs lfreq hlit 15);
            dlen = snd (limit_lengths qs dfreq hdist 15);
            dyn_cost = 3 + 5 + 5 + 4 + (cost_tokens tok llen dlen + llen ! 256) + (hlit + hdist) * 2
        in if stored_cost \<le> fixed_cost \<and> stored_cost \<le> dyn_cost then 0
           else if dyn_cost \<le> fixed_cost then 2 else 1)"

definition BLK_SIZE :: nat where
  "BLK_SIZE = 32768"

function deflate_loop :: "(coin list \<Rightarrow> coin list) \<Rightarrow> u8 list \<Rightarrow> nat \<Rightarrow> bitwriter \<Rightarrow> bitwriter option" where
  "deflate_loop qs inp s w =
     (if s < length inp then
        let e = (if s + BLK_SIZE > length inp then length inp else s + BLK_SIZE);
            blk = take (e - s) (drop s inp)
        in case emit_block qs w blk (e = length inp) (best_method qs blk) of
             None \<Rightarrow> None
           | Some w \<Rightarrow> deflate_loop qs inp e w
      else Some w)"
  by pat_completeness auto
termination by (relation "measure (\<lambda>(qs, inp, s, w). length inp - s)") (auto simp: BLK_SIZE_def)

declare deflate_loop.simps [simp del]

definition wubuzip_deflate :: "(coin list \<Rightarrow> coin list) \<Rightarrow> u8 list \<Rightarrow> u8 list option" where
  "wubuzip_deflate qs inp =
     (case (if inp = [] then emit_block qs bitw_init [] True 1 else deflate_loop qs inp 0 bitw_init) of
        None \<Rightarrow> None
      | Some w \<Rightarrow> bitw_finish w)"

end
