(* ===== verification/WubuZip.thy ===== *)
theory WubuZip
  imports WubuFlate
begin

text \<open>
  \<^verbatim>\<open>lib/libwubuoffice/src/wubuzip/zip.c\<close> and \<^verbatim>\<open>reader.c\<close>: the ZIP writer and reader. The output
  \<open>FILE\<close> is the list of the bytes written so far with the number of bytes it can hold, so that a
  short \<open>fwrite\<close> is a branch of the model; \<open>ftell\<close> is the length of the list. Names are the
  bytes before the terminating NUL. Sizes, offsets and counts keep their widths (32 and 16 bits).
  The reader works on the bytes of the file; a read that the code makes past the end of its buffer,
  undefined in C, is the outcome \<open>Overread\<close>, and \<open>NoFuel\<close> is the lack of fuel of the decoder.
  Allocations and \<open>fflush\<close> succeed.
\<close>

section \<open>The output file\<close>

record zip_file =
  zf_bytes :: "u8 list"
  zf_room :: nat

definition fwrite :: "zip_file \<Rightarrow> u8 list \<Rightarrow> bool \<times> zip_file" where
  "fwrite f bs =
     (let k = min (length bs) (zf_room f - length (zf_bytes f))
      in (k = length bs, f\<lparr>zf_bytes := zf_bytes f @ take k bs\<rparr>))"

definition ftell :: "zip_file \<Rightarrow> nat" where
  "ftell f = length (zf_bytes f)"

section \<open>\<open>zip.c\<close>\<close>

record zip_cd =
  cd_name :: "u8 list"
  cd_crc :: u32
  cd_size :: u32
  cd_comp_size :: u32
  cd_off :: u32
  cd_method :: u16

record zip_writer =
  zw_out :: zip_file
  zw_count :: u16
  zw_cds :: "zip_cd list"

definition wubuzip_create :: "zip_file \<Rightarrow> zip_writer" where
  "wubuzip_create out = \<lparr>zw_out = out, zw_count = 0, zw_cds = []\<rparr>"

definition entry_name :: "u8 list \<Rightarrow> u8 list" where
  "entry_name name = (if name \<noteq> [] \<and> hd name = 0x2F then tl name else name)"

definition local_header :: "u16 \<Rightarrow> u32 \<Rightarrow> u32 \<Rightarrow> u32 \<Rightarrow> u16 \<Rightarrow> u8 list" where
  "local_header method crc payload_size sz nl =
     putle32 0x04034b50 @ putle16 20 @ putle16 0 @ putle16 method @ putle16 0 @ putle16 0 @
     putle32 crc @ putle32 payload_size @ putle32 sz @ putle16 nl @ putle16 0"

text \<open>The array of directory records: the slot \<open>count\<close> is written, the count is 16 bits wide.\<close>

definition push_cd :: "zip_writer \<Rightarrow> zip_cd \<Rightarrow> zip_writer" where
  "push_cd z e =
     (let i = unat (zw_count z)
      in z\<lparr>zw_cds := (if i < length (zw_cds z) then (zw_cds z)[i := e] else zw_cds z @ [e]),
           zw_count := zw_count z + 1\<rparr>)"

definition write_entry :: "zip_writer \<Rightarrow> u8 list \<Rightarrow> u8 list \<Rightarrow> u16 \<Rightarrow> u8 list \<Rightarrow> int \<times> zip_writer" where
  "write_entry z name data method payload =
     (let n = entry_name name;
          sz = of_nat (length data); payload_size = of_nat (length payload);
          crc = wubuzip_crc32 data;
          off = ftell (zw_out z);
          nl = of_nat (length n) :: u16;
          (ok1, f) = fwrite (zw_out z) (local_header method crc payload_size sz nl)
      in if \<not> ok1 then (-1, z\<lparr>zw_out := f\<rparr>)
         else let (ok2, f) = fwrite f (take (unat nl) n)
         in if \<not> ok2 then (-1, z\<lparr>zw_out := f\<rparr>)
         else let (ok3, f) = (if payload_size \<noteq> 0 then fwrite f (take (unat payload_size) payload) else (True, f))
         in if \<not> ok3 then (-1, z\<lparr>zw_out := f\<rparr>)
         else (0, push_cd (z\<lparr>zw_out := f\<rparr>)
                \<lparr>cd_name = n, cd_crc = crc, cd_size = sz, cd_comp_size = payload_size,
                 cd_off = of_nat off, cd_method = method\<rparr>))"

definition wubuzip_add :: "zip_writer \<Rightarrow> u8 list \<Rightarrow> u8 list \<Rightarrow> int \<times> zip_writer" where
  "wubuzip_add z name data = write_entry z name data 0 data"

definition wubuzip_add_deflated ::
    "(coin list \<Rightarrow> coin list) \<Rightarrow> zip_writer \<Rightarrow> u8 list \<Rightarrow> u8 list \<Rightarrow> int \<times> zip_writer" where
  "wubuzip_add_deflated qs z name data =
     (if length data = 0 then write_entry z name data 0 data
      else case wubuzip_deflate qs data of
             None \<Rightarrow> (-1, z)
           | Some packed \<Rightarrow>
               if length packed \<ge> length data then write_entry z name data 0 data
               else write_entry z name data 8 packed)"

definition central_header :: "zip_cd \<Rightarrow> u8 list" where
  "central_header e =
     putle32 0x02014b50 @ putle16 20 @ putle16 20 @ putle16 0 @ putle16 (cd_method e) @ putle16 0 @ putle16 0 @
     putle32 (cd_crc e) @ putle32 (cd_comp_size e) @ putle32 (cd_size e) @ putle16 (of_nat (length (cd_name e))) @
     putle16 0 @ putle16 0 @ putle16 0 @ putle16 0 @ putle32 0 @ putle32 (cd_off e)"

fun write_directory :: "zip_cd list \<Rightarrow> zip_file \<Rightarrow> u32 \<Rightarrow> (bool \<times> u32) \<times> zip_file" where
  "write_directory [] f dir_size = ((True, dir_size), f)"
| "write_directory (e # es) f dir_size =
     (let nl = of_nat (length (cd_name e)) :: u16;
          (ok1, f) = fwrite f (central_header e)
      in if \<not> ok1 then ((False, dir_size), f)
         else let (ok2, f) = fwrite f (take (unat nl) (cd_name e))
         in if \<not> ok2 then ((False, dir_size), f)
         else write_directory es f (dir_size + (46 + ucast nl)))"

definition end_record :: "u16 \<Rightarrow> u32 \<Rightarrow> u32 \<Rightarrow> u8 list" where
  "end_record count dir_size dir_off =
     putle32 0x06054b50 @ putle16 0 @ putle16 0 @ putle16 count @ putle16 count @ putle32 dir_size @
     putle32 dir_off @ putle16 0"

definition wubuzip_finalize :: "zip_writer \<Rightarrow> int \<times> zip_file" where
  "wubuzip_finalize z =
     (let dir_off = ftell (zw_out z);
          ((ok1, dir_size), f) = write_directory (take (unat (zw_count z)) (zw_cds z)) (zw_out z) 0
      in if \<not> ok1 then (-1, f)
         else let (ok2, f) = fwrite f (end_record (zw_count z) dir_size (of_nat dir_off))
         in if \<not> ok2 then (-1, f) else (0, f))"

section \<open>\<open>reader.c\<close>\<close>

datatype 'a outcome = Result 'a | Overread | NoFuel

record zip_entry =
  ze_name :: "u8 list option"
  ze_method :: u32
  ze_comp_size :: u32
  ze_uncomp_size :: u32
  ze_crc :: u32
  ze_local_off :: u32

record zip_archive =
  za_data :: "u8 list"
  za_entries :: "zip_entry list"
  za_n :: nat

definition zero_entry :: zip_entry where
  "zero_entry = \<lparr>ze_name = None, ze_method = 0, ze_comp_size = 0, ze_uncomp_size = 0, ze_crc = 0, ze_local_off = 0\<rparr>"

text \<open>The signature test; the reads are inside the buffer where it is used.\<close>

definition sig_at :: "u8 list \<Rightarrow> nat \<Rightarrow> u8 \<Rightarrow> u8 \<Rightarrow> bool" where
  "sig_at data i a b \<longleftrightarrow> data ! i = 0x50 \<and> data ! (i + 1) = 0x4B \<and> data ! (i + 2) = a \<and> data ! (i + 3) = b"

fun find_eocd :: "u8 list \<Rightarrow> nat \<Rightarrow> nat option" where
  "find_eocd data 0 = (if 22 \<le> length data \<and> sig_at data 0 5 6 then Some 0 else None)"
| "find_eocd data (Suc i) =
     (if Suc i + 22 \<le> length data \<and> sig_at data (Suc i) 5 6 then Some (Suc i) else find_eocd data i)"

text \<open>One directory record at \<open>p\<close>, its 46 bytes being inside the buffer; the name is copied whole.\<close>

definition read_entry :: "u8 list \<Rightarrow> nat \<Rightarrow> (zip_entry \<times> nat) outcome" where
  "read_entry data p =
     (let nl = unat (rd16 data (p + 28)); el = unat (rd16 data (p + 30)); cl = unat (rd16 data (p + 32))
      in if p + 46 + nl > length data then Overread
         else Result (\<lparr>ze_name = Some (take nl (drop (p + 46) data)),
                       ze_method = ucast (rd16 data (p + 10)), ze_comp_size = rd32 data (p + 20),
                       ze_uncomp_size = rd32 data (p + 24), ze_crc = rd32 data (p + 16),
                       ze_local_off = rd32 data (p + 42)\<rparr>,
                      p + 46 + nl + el + cl))"

text \<open>The loop over \<open>n\<close> records from number \<open>i\<close> on; a record that starts too near the end closes the
  list, one without its signature is an error.\<close>

function open_loop :: "nat \<Rightarrow> nat \<Rightarrow> zip_archive \<Rightarrow> (int \<times> zip_archive) outcome" where
  "open_loop i p z =
     (if i < za_n z then
        if p + 46 > length (za_data z) then Result (0, z\<lparr>za_n := i\<rparr>)
        else if \<not> sig_at (za_data z) p 1 2 then Result (-1, z)
        else case read_entry (za_data z) p of
               Overread \<Rightarrow> Overread
             | NoFuel \<Rightarrow> NoFuel
             | Result (e, p) \<Rightarrow> open_loop (i + 1) p (z\<lparr>za_entries := (za_entries z)[i := e]\<rparr>)
      else Result (0, z))"
  by pat_completeness auto
termination by (relation "measure (\<lambda>(i, p, z). za_n z - i)") auto

declare open_loop.simps [simp del]

definition wubuzip_open :: "u8 list \<Rightarrow> (int \<times> zip_archive) outcome" where
  "wubuzip_open data =
     (let z = \<lparr>za_data = data, za_entries = [], za_n = 0\<rparr>;
          start = (if length data > 22 then length data - 22 else 0)
      in case find_eocd data start of
           None \<Rightarrow> Result (-1, z)
         | Some eocd \<Rightarrow>
             let dir_off = unat (rd32 data (eocd + 16)); n = unat (rd16 data (eocd + 10))
             in open_loop 0 dir_off (z\<lparr>za_entries := replicate (if n \<noteq> 0 then n else 1) zero_entry, za_n := n\<rparr>))"

definition wubuzip_count :: "zip_archive \<Rightarrow> nat" where
  "wubuzip_count z = za_n z"

text \<open>\<open>strcmp\<close> sees the stored bytes up to their first NUL; a NULL name is a bad read.\<close>

definition cbytes :: "u8 list \<Rightarrow> u8 list" where
  "cbytes buf = takeWhile (\<lambda>c. c \<noteq> 0) buf"

definition wubuzip_name :: "zip_archive \<Rightarrow> nat \<Rightarrow> u8 list option" where
  "wubuzip_name z i = map_option cbytes (ze_name (za_entries z ! i))"

fun find_from :: "zip_entry list \<Rightarrow> nat \<Rightarrow> u8 list \<Rightarrow> nat option outcome" where
  "find_from [] i name = Result None"
| "find_from (e # es) i name =
     (case ze_name e of
        None \<Rightarrow> Overread
      | Some n \<Rightarrow> if cbytes n = name then Result (Some i) else find_from es (i + 1) name)"

definition wubuzip_find :: "zip_archive \<Rightarrow> u8 list \<Rightarrow> nat option outcome" where
  "wubuzip_find z name = find_from (take (za_n z) (za_entries z)) 0 name"

text \<open>The result is None for -1. The first guard is computed in 32 bits, as in the code.\<close>

definition wubuzip_extract :: "nat \<Rightarrow> zip_archive \<Rightarrow> nat \<Rightarrow> u8 list option outcome" where
  "wubuzip_extract fuel z i =
     (let e = za_entries z ! i; data = za_data z; lh = unat (ze_local_off e)
      in if unat (ze_local_off e + 30) > length data then Result None
         else if lh + 30 > length data then Overread
         else let nl = unat (rd16 data (lh + 26)); el = unat (rd16 data (lh + 28));
                  start = lh + 30 + nl + el
         in if start + unat (ze_comp_size e) > length data then Result None
         else if ze_method e = 0 then
           (if start + unat (ze_uncomp_size e) > length data then Overread
            else Result (Some (take (unat (ze_uncomp_size e)) (drop start data))))
         else if ze_method e = 8 then
           (case wubuzip_inflate fuel (take (unat (ze_comp_size e)) (drop start data)) False of
              None \<Rightarrow> NoFuel
            | Some r \<Rightarrow> Result r)
         else Result None)"

end
