(* ===== verification/WubuBits_Correct.thy ===== *)
theory WubuBits_Correct
  imports WubuBits
begin

text \<open>
  The bit reader and writer as lists of bits: what \<open>bit_get\<close> takes from the front of the bits not yet
  read, what \<open>bitw_put\<close> appends to the bits written, the alignment of both, the little-endian
  fields, and the CRC-32 against the remainder of a polynomial division over GF(2).
\<close>

section \<open>Bit lists\<close>

definition byte_bits :: "u8 \<Rightarrow> bool list" where
  "byte_bits x = map (bit x) [0..<8]"

definition word_bits :: "nat \<Rightarrow> 'a :: len word \<Rightarrow> bool list" where
  "word_bits n v = map (bit v) [0..<n]"

lemma length_byte_bits [simp]: "length (byte_bits x) = 8"
  by (simp add: byte_bits_def)

lemma length_word_bits [simp]: "length (word_bits n v) = n"
  by (simp add: word_bits_def)

lemma word_bits_eqI: "n \<le> LENGTH('a) \<Longrightarrow> (\<And>k. k \<ge> n \<Longrightarrow> \<not> bit v k) \<Longrightarrow> (\<And>k. k \<ge> n \<Longrightarrow> \<not> bit w k) \<Longrightarrow>
    word_bits n v = word_bits n w \<Longrightarrow> v = (w :: 'a :: len word)"
  by (rule bit_word_eqI) (auto simp: word_bits_def map_eq_conv not_le [symmetric])

lemma map_upt_add: "map f [0..<m + n] = map f [0..<m] @ map (\<lambda>k. f (m + k)) [0..<n]"
  by (induction n) simp_all

section \<open>The reader\<close>

definition br_bits :: "bitreader \<Rightarrow> bool list" where
  "br_bits b = word_bits (br_bitcnt b) (br_bitbuf b) @ concat (map byte_bits (drop (br_bytepos b) (br_data b)))"

definition br_clean :: "bitreader \<Rightarrow> bool" where
  "br_clean b \<longleftrightarrow> (\<forall>k \<ge> br_bitcnt b. \<not> bit (br_bitbuf b) k) \<and> br_bytepos b \<le> length (br_data b)"

text \<open>Between two reads fewer than eight bits are buffered.\<close>

definition br_ok :: "bitreader \<Rightarrow> bool" where
  "br_ok b \<longleftrightarrow> br_clean b \<and> br_bitcnt b < 8"

lemma br_ok_init [simp]: "br_ok (bit_init data)"
  by (simp add: br_ok_def br_clean_def bit_init_def)

lemma br_bits_init [simp]: "br_bits (bit_init data) = concat (map byte_bits data)"
  by (simp add: br_bits_def bit_init_def word_bits_def)

lemma word_bits_or_byte:
  assumes "\<forall>k \<ge> c. \<not> bit (v :: u32) k" and "c < 25"
  shows "word_bits (c + 8) (v OR push_bit c (ucast x)) = word_bits c v @ byte_bits (x :: u8)"
    and "\<forall>k \<ge> c + 8. \<not> bit (v OR push_bit c (ucast x)) k"
proof -
  have l: "map (bit (v OR push_bit c (ucast x))) [0..<c] = map (bit v) [0..<c]"
    by (auto simp: bit_simps)
  have r: "map (\<lambda>k. bit (v OR push_bit c (ucast x)) (c + k)) [0..<8] = map (bit x) [0..<8]"
    using assms by (auto simp: bit_simps)
  show "word_bits (c + 8) (v OR push_bit c (ucast x)) = word_bits c v @ byte_bits x"
    unfolding word_bits_def byte_bits_def map_upt_add l r ..
  show "\<forall>k \<ge> c + 8. \<not> bit (v OR push_bit c (ucast x)) k"
    using assms by (auto simp: bit_simps dest: bit_imp_le_length)
qed

lemma word_bits_more:
  assumes "\<forall>k \<ge> c. \<not> bit v k"
  shows "word_bits (c + n) v = word_bits c v @ replicate n False"
proof -
  have "map (\<lambda>k. bit v (c + k)) [0..<n] = replicate n False"
    using assms by (intro nth_equalityI) auto
  then show ?thesis by (simp only: word_bits_def map_upt_add)
qed

text \<open>Filling appends bytes of the input, or zeros once it is used up.\<close>

lemma bit_fill_spec:
  assumes "br_clean b" and "n \<le> 25"
  shows "br_clean (bit_fill b n) \<and> n \<le> br_bitcnt (bit_fill b n) \<and> br_data (bit_fill b n) = br_data b
    \<and> (br_bitcnt b < n + 8 \<longrightarrow> br_bitcnt (bit_fill b n) < n + 8)
    \<and> (\<exists>k. br_bits (bit_fill b n) = br_bits b @ replicate k False \<and> (n \<le> length (br_bits b) \<longrightarrow> k = 0))"
  using assms
proof (induction b n rule: bit_fill.induct)
  case (1 b n)
  show ?case
  proof (cases "br_bitcnt b < n")
    case False
    then show ?thesis using 1(3) by (subst (1 2 3 4 5) bit_fill.simps) (auto intro!: exI [of _ 0])
  next
    case lt: True
    show ?thesis
    proof (cases "br_bytepos b \<ge> length (br_data b)")
      case True
      let ?b = "b\<lparr>br_bitbuf := br_bitbuf b OR 0, br_bitcnt := br_bitcnt b + 8\<rparr>"
      have e: "bit_fill b n = bit_fill ?b n" using lt True by (subst bit_fill.simps) simp
      have c: "br_clean ?b" using 1(3) by (auto simp: br_clean_def)
      have bits: "br_bits ?b = br_bits b @ replicate 8 False"
        using 1(3) True word_bits_more [of "br_bitcnt b" "br_bitbuf b" 8] by (simp add: br_bits_def br_clean_def)
      have l: "length (br_bits b) < n" using lt True by (simp add: br_bits_def)
      from 1(1) [OF lt True c 1(4)] obtain k where
        k: "br_clean (bit_fill ?b n)" "n \<le> br_bitcnt (bit_fill ?b n)" "br_data (bit_fill ?b n) = br_data b"
          "br_bitcnt (bit_fill ?b n) < n + 8" "br_bits (bit_fill ?b n) = br_bits ?b @ replicate k False"
        using lt by auto
      have "br_bits (bit_fill ?b n) = br_bits b @ replicate (8 + k) False" by (simp only: k(5) bits append_assoc replicate_add)
      then show ?thesis unfolding e using k l by (metis not_le)
    next
      case False
      let ?b = "b\<lparr>br_bitbuf := br_bitbuf b OR push_bit (br_bitcnt b) (ucast (br_data b ! br_bytepos b)),
            br_bytepos := br_bytepos b + 1, br_bitcnt := br_bitcnt b + 8\<rparr>"
      have e: "bit_fill b n = bit_fill ?b n" using lt False by (subst bit_fill.simps) simp
      have lo: "\<forall>k \<ge> br_bitcnt b. \<not> bit (br_bitbuf b) k" "br_bitcnt b < 25" using 1(3,4) lt by (auto simp: br_clean_def)
      note w = word_bits_or_byte [OF lo, of "br_data b ! br_bytepos b"]
      have c: "br_clean ?b" using w(2) False by (simp add: br_clean_def)
      have bits: "br_bits ?b = br_bits b"
        using False w(1) by (simp add: br_bits_def Cons_nth_drop_Suc [symmetric])
      from 1(2) [OF lt False c 1(4)] obtain k where
        k: "br_clean (bit_fill ?b n)" "n \<le> br_bitcnt (bit_fill ?b n)" "br_data (bit_fill ?b n) = br_data ?b"
          "br_bitcnt ?b < n + 8 \<longrightarrow> br_bitcnt (bit_fill ?b n) < n + 8"
          "br_bits (bit_fill ?b n) = br_bits ?b @ replicate k False" "n \<le> length (br_bits ?b) \<longrightarrow> k = 0" by blast
      have "br_data ?b = br_data b" "br_bitcnt ?b < n + 8" using lt by simp_all
      then show ?thesis unfolding e using k unfolding bits by metis
    qed
  qed
qed

lemma mask_bits: "n < 32 \<Longrightarrow> bit ((v :: u32) AND (2 ^ n - 1)) k \<longleftrightarrow> k < n \<and> bit v k"
  by (auto simp: bit_simps simp flip: mask_eq_exp_minus_1)

lemma bit_get_spec:
  assumes "br_ok b" and "n \<le> 25"
  shows "\<exists>k. br_ok (snd (bit_get b n)) \<and> br_data (snd (bit_get b n)) = br_data b
    \<and> br_bits (snd (bit_get b n)) = drop n (br_bits b @ replicate k False)
    \<and> word_bits n (fst (bit_get b n)) = take n (br_bits b @ replicate k False)
    \<and> (\<forall>j \<ge> n. \<not> bit (fst (bit_get b n)) j) \<and> n \<le> length (br_bits b) + k
    \<and> (n \<le> length (br_bits b) \<longrightarrow> k = 0)"
proof -
  let ?f = "bit_fill b n"
  have c: "br_clean b" "br_bitcnt b < n + 8" using assms(1) by (auto simp: br_ok_def)
  from bit_fill_spec [OF c(1) assms(2)] c(2) obtain k where
    f: "br_clean ?f" "n \<le> br_bitcnt ?f" "br_data ?f = br_data b" "br_bitcnt ?f < n + 8"
      "br_bits ?f = br_bits b @ replicate k False" "n \<le> length (br_bits b) \<longrightarrow> k = 0"
    by blast
  obtain m where m: "br_bitcnt ?f = n + m" using f(2) by (metis le_iff_add)
  have s: "word_bits (n + m) (br_bitbuf ?f) = word_bits n (br_bitbuf ?f) @ word_bits m (drop_bit n (br_bitbuf ?f))"
    by (simp add: word_bits_def map_upt_add bit_drop_bit_eq comp_def)
  have v: "word_bits n (br_bitbuf ?f AND (2 ^ n - 1)) = word_bits n (br_bitbuf ?f)"
    using assms(2) by (simp add: word_bits_def mask_bits)
  have t: "take n (br_bits ?f) = word_bits n (br_bitbuf ?f)" by (simp add: br_bits_def m s)
  have d: "drop n (br_bits ?f) = word_bits m (drop_bit n (br_bitbuf ?f)) @
      concat (map byte_bits (drop (br_bytepos ?f) (br_data ?f)))"
    by (simp add: br_bits_def m s)
  have ok: "br_ok (snd (bit_get b n))"
    using f(1,2,4) m by (auto simp: br_ok_def br_clean_def bit_get_def Let_def bit_simps)
  have "br_bits (snd (bit_get b n)) = drop n (br_bits ?f)"
    by (simp add: d) (simp add: br_bits_def bit_get_def Let_def m)
  moreover have "word_bits n (fst (bit_get b n)) = take n (br_bits ?f)" by (simp add: bit_get_def Let_def t v)
  moreover have "\<not> bit (fst (bit_get b n)) j" if "j \<ge> n" for j
    using assms(2) that by (simp add: bit_get_def Let_def mask_bits)
  moreover have "n \<le> length (br_bits ?f)" by (simp add: br_bits_def m)
  ultimately show ?thesis using ok f(3,5,6)
    by (intro exI [of _ k]) (auto simp: bit_get_def Let_def)
qed

text \<open>The case that decoders rely on: enough input is left.\<close>

lemma bit_get_enough:
  assumes "br_ok b" and "n \<le> 25" and "br_bits b = word_bits n v @ rest" and "\<forall>j \<ge> n. \<not> bit (v :: u32) j"
  shows "\<exists>b1. bit_get b n = (v, b1) \<and> br_ok b1 \<and> br_bits b1 = rest \<and> br_data b1 = br_data b"
proof -
  have "n \<le> length (br_bits b)" by (simp add: assms(3))
  with bit_get_spec [OF assms(1,2)] have
    g: "br_ok (snd (bit_get b n))" "br_bits (snd (bit_get b n)) = rest" "br_data (snd (bit_get b n)) = br_data b"
      "word_bits n (fst (bit_get b n)) = word_bits n v" "\<forall>j \<ge> n. \<not> bit (fst (bit_get b n)) j"
    by (auto simp: assms(3))
  have "fst (bit_get b n) = v" using assms(2,4) g(4,5) by (intro word_bits_eqI [of n]) auto
  then show ?thesis using g by (intro exI [of _ "snd (bit_get b n)"]) (metis prod.collapse)
qed

section \<open>The writer\<close>

definition bw_bits :: "bitwriter \<Rightarrow> bool list" where
  "bw_bits w = concat (map byte_bits (bw_p w)) @ word_bits (bw_bitcnt w) (bw_bitbuf w)"

definition bw_clean :: "bitwriter \<Rightarrow> bool" where
  "bw_clean w \<longleftrightarrow> (\<forall>k \<ge> bw_bitcnt w. \<not> bit (bw_bitbuf w) k)"

definition bw_ok :: "bitwriter \<Rightarrow> bool" where
  "bw_ok w \<longleftrightarrow> bw_clean w \<and> bw_bitcnt w < 8"

lemma bw_ok_init [simp]: "bw_ok bitw_init" "bw_bits bitw_init = []"
  by (simp_all add: bw_ok_def bw_clean_def bitw_init_def bw_bits_def word_bits_def)

lemma low_byte_bit: "bit (0xFF :: u16) k \<longleftrightarrow> k < 8" "bit (0xFF :: u32) k \<longleftrightarrow> k < 8" "bit (0xFF :: u8) k \<longleftrightarrow> k < 8"
    "bit (0xFF :: int) k \<longleftrightarrow> k < 8"
  using bit_mask_iff [of 8 k, where 'a = int] bit_mask_iff [of 8 k, where 'a = u8] bit_mask_iff [of 8 k, where 'a = u16] bit_mask_iff [of 8 k, where 'a = u32] by (auto simp: mask_numeral)

lemma byte_bits_ucast: "byte_bits (ucast (v AND 0xFF)) = word_bits 8 (v :: u64)"
  by (auto simp: byte_bits_def word_bits_def bit_ucast_iff bit_and_iff low_byte_bit)

lemma bitw_flush_spec:
  "bw_clean w \<Longrightarrow> bw_ok (bitw_flush w) \<and> bw_bits (bitw_flush w) = bw_bits w"
proof (induction w rule: bitw_flush.induct)
  case (1 w)
  show ?case
  proof (cases "bw_bitcnt w \<ge> 8")
    case True
    let ?w = "w\<lparr>bw_p := bw_p w @ [ucast (bw_bitbuf w AND 0xFF)],
          bw_bitbuf := drop_bit 8 (bw_bitbuf w), bw_bitcnt := bw_bitcnt w - 8\<rparr>"
    have e: "bitw_flush w = bitw_flush ?w" using True by (subst bitw_flush.simps) simp
    have c: "bw_clean ?w" using 1(2) by (auto simp: bw_clean_def bit_simps)
    obtain m where m: "bw_bitcnt w = 8 + m" using True by (metis le_iff_add)
    have "bw_bits ?w = bw_bits w"
      by (simp add: bw_bits_def byte_bits_ucast m word_bits_def map_upt_add bit_drop_bit_eq comp_def)
    then show ?thesis using 1(1) [OF True c] by (simp only: e)
  next
    case False
    then show ?thesis using 1(2) by (subst (1 2) bitw_flush.simps) (simp add: bw_ok_def)
  qed
qed

lemma mask_bits64: "n < 32 \<Longrightarrow> bit (ucast ((v :: u32) AND (2 ^ n - 1)) :: u64) k \<longleftrightarrow> k < n \<and> bit v k"
  by (auto simp: bit_ucast_iff mask_bits dest: bit_imp_le_length)

lemma bitw_put_spec:
  assumes "bw_ok w" and "n \<le> 25"
  shows "bw_ok (bitw_put w v n)" and "bw_bits (bitw_put w v n) = bw_bits w @ word_bits n v"
proof -
  let ?x = "ucast (v AND (2 ^ n - 1)) :: u64"
  let ?w = "w\<lparr>bw_bitbuf := bw_bitbuf w OR push_bit (bw_bitcnt w) ?x, bw_bitcnt := bw_bitcnt w + n\<rparr>"
  have lo: "\<forall>k \<ge> bw_bitcnt w. \<not> bit (bw_bitbuf w) k" "bw_bitcnt w < 8" using assms(1) by (auto simp: bw_ok_def bw_clean_def)
  have x: "bit ?x k \<longleftrightarrow> k < n \<and> bit v k" for k using assms(2) by (simp add: mask_bits64)
  have c: "bw_clean ?w"
    using lo x by (auto simp: bw_clean_def bit_or_iff bit_push_bit_iff)
  have l: "map (bit (bw_bitbuf w OR push_bit (bw_bitcnt w) ?x)) [0..<bw_bitcnt w] = map (bit (bw_bitbuf w)) [0..<bw_bitcnt w]"
    by (auto simp: bit_or_iff bit_push_bit_iff)
  have r: "map (\<lambda>k. bit (bw_bitbuf w OR push_bit (bw_bitcnt w) ?x) (bw_bitcnt w + k)) [0..<n] = map (bit v) [0..<n]"
    using lo assms(2) x by (auto simp: bit_or_iff bit_push_bit_iff)
  have "bw_bits ?w = bw_bits w @ word_bits n v"
    by (simp add: bw_bits_def word_bits_def map_upt_add l r)
  moreover have "bitw_put w v n = bitw_flush ?w" by (simp add: bitw_put_def)
  ultimately show "bw_ok (bitw_put w v n)" "bw_bits (bitw_put w v n) = bw_bits w @ word_bits n v"
    using bitw_flush_spec [OF c] by simp_all
qed

text \<open>Aligning pads with zeros to the next byte.\<close>

definition pad_bits :: "nat \<Rightarrow> bool list" where
  "pad_bits c = (if c = 0 then [] else replicate (8 - c) False)"

lemma bitw_align_spec:
  assumes "bw_ok w"
  shows "\<exists>w1. bitw_align w = Some w1 \<and> bw_ok w1 \<and> bw_bitcnt w1 = 0 \<and>
    bw_bits w1 = bw_bits w @ pad_bits (bw_bitcnt w) \<and> (bw_bitcnt w = 0 \<longrightarrow> w1 = w)"
proof (cases "bw_bitcnt w = 0")
  case True
  then show ?thesis using assms by (simp add: bitw_align_def pad_bits_def)
next
  case False
  obtain m where m: "8 = bw_bitcnt w + m" using assms by (metis bw_ok_def less_imp_le le_iff_add)
  have "word_bits 8 (bw_bitbuf w) = word_bits (bw_bitcnt w) (bw_bitbuf w) @ replicate m False"
    unfolding m using assms by (intro word_bits_more) (simp add: bw_ok_def bw_clean_def)
  then show ?thesis using False assms m
    by (auto simp: bitw_align_def bw_ok_def bw_clean_def bw_bits_def byte_bits_ucast pad_bits_def word_bits_def)
qed

lemma bitw_byte_aligned:
  "bw_ok w \<Longrightarrow> bw_bitcnt w = 0 \<Longrightarrow> \<exists>w1. bitw_byte w b = Some w1 \<and> bw_ok w1 \<and> bw_bitcnt w1 = 0 \<and> bw_p w1 = bw_p w @ [b]"
  by (simp add: bitw_byte_def bw_ok_def bw_clean_def)

lemma bw_bits_aligned: "bw_bitcnt w = 0 \<Longrightarrow> bw_bits w = concat (map byte_bits (bw_p w))"
  by (simp add: bw_bits_def word_bits_def)

lemma bitw_finish_spec:
  assumes "bw_ok w"
  shows "\<exists>p. bitw_finish w = Some p \<and> concat (map byte_bits p) = bw_bits w @ pad_bits (bw_bitcnt w)"
  using bitw_align_spec [OF assms] bw_bits_aligned by (fastforce simp: bitw_finish_def)

lemma length_bw_bits: "length (bw_bits w) = 8 * length (bw_p w) + bw_bitcnt w"
  by (simp add: bw_bits_def length_concat comp_def sum_list_triv)

section \<open>Little-endian fields\<close>

lemma byte_of_bit:
  "bit (ucast (ucast (drop_bit s v AND 0xFF) :: u8) :: u16) j \<longleftrightarrow> j < 8 \<and> bit (v :: u16) (s + j)"
  "bit (ucast (ucast (drop_bit s w AND 0xFF) :: u8) :: u32) j \<longleftrightarrow> j < 8 \<and> bit (w :: u32) (s + j)"
  by (auto simp: bit_ucast_iff bit_and_iff bit_drop_bit_eq low_byte_bit)

lemma field_bit:
  "bit (push_bit s (ucast (ucast (drop_bit s v AND 0xFF) :: u8) :: u16)) n \<longleftrightarrow> s \<le> n \<and> n < s + 8 \<and> bit (v :: u16) n"
  "bit (push_bit s (ucast (ucast (drop_bit s w AND 0xFF) :: u8) :: u32)) n \<longleftrightarrow> s \<le> n \<and> n < s + 8 \<and> bit (w :: u32) n"
  by (auto simp: bit_push_bit_iff byte_of_bit dest: bit_imp_le_length)

lemma rd16_putle16 [simp]: "rd16 (a @ putle16 v @ r) (length a) = v"
proof -
  have "rd16 (a @ putle16 v @ r) (length a) =
      ucast (ucast (v AND 0xFF) :: u8) OR push_bit 8 (ucast (ucast (drop_bit 8 v AND 0xFF) :: u8))"
    by (simp add: rd16_def putle16_def nth_append)
  also have "\<dots> = v"
  proof (rule bit_word_eqI)
    fix n assume "n < LENGTH(16)"
    then show "bit (ucast (ucast (v AND 0xFF) :: u8) OR push_bit 8 (ucast (ucast (drop_bit 8 v AND 0xFF) :: u8)) :: u16) n = bit v n"
      using byte_of_bit(1) [of 0 v n] field_bit(1) [of 8 v n] by (auto simp: bit_or_iff)
  qed
  finally show ?thesis .
qed

lemma rd32_putle32 [simp]: "rd32 (a @ putle32 v @ r) (length a) = v"
proof -
  have "rd32 (a @ putle32 v @ r) (length a) =
      ucast (ucast (v AND 0xFF) :: u8) OR push_bit 8 (ucast (ucast (drop_bit 8 v AND 0xFF) :: u8))
      OR push_bit 16 (ucast (ucast (drop_bit 16 v AND 0xFF) :: u8)) OR push_bit 24 (ucast (ucast (drop_bit 24 v AND 0xFF) :: u8))"
    by (simp add: rd32_def putle32_def nth_append)
  also have "\<dots> = v"
  proof (rule bit_word_eqI)
    fix n assume "n < LENGTH(32)"
    then show "bit (ucast (ucast (v AND 0xFF) :: u8) OR push_bit 8 (ucast (ucast (drop_bit 8 v AND 0xFF) :: u8))
      OR push_bit 16 (ucast (ucast (drop_bit 16 v AND 0xFF) :: u8)) OR push_bit 24 (ucast (ucast (drop_bit 24 v AND 0xFF) :: u8)) :: u32) n = bit v n"
      using byte_of_bit(2) [of 0 v n] field_bit(2) [of 8 v n] field_bit(2) [of 16 v n] field_bit(2) [of 24 v n]
      by (auto simp: bit_or_iff)
  qed
  finally show ?thesis .
qed

lemma length_putle [simp]: "length (putle16 v) = 2" "length (putle32 w) = 4"
  by (simp_all add: putle16_def putle32_def)

section \<open>The CRC table\<close>

lemma crc_step_xor: "crc_step (a XOR b) = crc_step a XOR crc_step b"
proof -
  have o: "c AND 1 \<noteq> 0 \<longleftrightarrow> bit c 0" for c :: u32 by (simp add: and_one_eq odd_iff_mod_2_eq_one bit_0)
  have "bit (a XOR b) 0 \<longleftrightarrow> bit a 0 \<noteq> bit b 0" by (simp add: bit_simps)
  moreover have "drop_bit 1 (a XOR b) = drop_bit 1 a XOR drop_bit 1 b" by (simp add: drop_bit_xor)
  ultimately show ?thesis unfolding crc_step_def o
    by (cases "bit a 0"; cases "bit b 0") (simp_all add: xor.assoc xor.left_commute xor.commute)
qed

lemma crc_steps_xor: "(crc_step ^^ n) (a XOR b) = (crc_step ^^ n) a XOR (crc_step ^^ n) b"
  by (induction n) (simp_all add: crc_step_xor)

text \<open>Zero low bits are shifted out.\<close>

lemma crc_steps_zero: "(\<And>k. k < n \<Longrightarrow> \<not> bit c k) \<Longrightarrow> (crc_step ^^ n) c = drop_bit n c"
proof (induction n arbitrary: c)
  case (Suc n)
  have s: "crc_step c = drop_bit 1 c" using Suc.prems [of 0] by (simp add: crc_step_def and_one_eq bit_0 even_iff_mod_2_eq_zero)
  have "(crc_step ^^ n) (drop_bit 1 c) = drop_bit n (drop_bit 1 c)"
    using Suc.prems by (intro Suc.IH) (simp add: bit_drop_bit_eq)
  then show ?case by (simp add: s funpow_swap1 [symmetric] del: funpow.simps(2)) (simp add: funpow_Suc_right s del: funpow.simps)
qed simp

lemma crc_table_nth: "k < 256 \<Longrightarrow> build_crc ! k = (crc_step ^^ 8) (of_nat k)"
  by (simp add: build_crc_def)

text \<open>One table look-up is eight steps of the polynomial division.\<close>

lemma crc_byte_steps: "crc_byte build_crc p c = (crc_step ^^ 8) (c XOR ucast p)"
proof -
  let ?x = "c XOR ucast p :: u32"
  have lo: "unat (?x AND 0xFF) < 256"
  proof -
    have "?x AND 0xFF = take_bit 8 ?x" by (simp add: take_bit_eq_mask mask_numeral)
    then have "unat (?x AND 0xFF) = take_bit 8 (unat ?x)" by (simp only: unsigned_take_bit_eq)
    then show ?thesis by (simp add: take_bit_eq_mod)
  qed
  have split: "?x = (?x AND 0xFF) XOR push_bit 8 (drop_bit 8 ?x)"
  proof (rule bit_word_eqI)
    fix n assume "n < LENGTH(32)"
    show "bit ?x n = bit ((?x AND 0xFF) XOR push_bit 8 (drop_bit 8 ?x)) n"
      by (cases "n < 8") (auto simp: bit_xor_iff bit_and_iff low_byte_bit bit_push_bit_iff bit_drop_bit_eq dest: bit_imp_le_length)
  qed
  have hi: "(crc_step ^^ 8) (push_bit 8 (drop_bit 8 ?x)) = drop_bit 8 (push_bit 8 (drop_bit 8 ?x))"
    by (rule crc_steps_zero) (auto simp: bit_push_bit_iff bit_xor_iff)
  have dp: "drop_bit 8 (push_bit 8 (drop_bit 8 ?x)) = drop_bit 8 c"
    by (rule bit_word_eqI)
      (auto simp: bit_push_bit_iff bit_drop_bit_eq bit_xor_iff bit_ucast_iff dest: bit_imp_le_length)
  have "(crc_step ^^ 8) ?x = (crc_step ^^ 8) (?x AND 0xFF) XOR drop_bit 8 c"
    by (subst split, subst crc_steps_xor, subst hi, subst dp) (rule refl)
  also have "\<dots> = crc_byte build_crc p c"
    using crc_table_nth [OF lo] by (simp add: crc_byte_def)
  finally show ?thesis ..
qed

section \<open>CRC-32 as a polynomial division\<close>

text \<open>The generator polynomial of CRC-32 (IEEE 802.3), coefficients from the highest degree down.\<close>

definition crc32_generator :: "bool list" where
  "crc32_generator = map (\<lambda>k. k \<in> {32, 26, 23, 22, 16, 12, 11, 10, 8, 7, 5, 4, 2, 1, 0 :: nat}) (rev [0..<33])"

text \<open>Addition of a polynomial to the leading coefficients, and the remainder of the division by the
  generator: long division over GF(2).\<close>

fun add_leading :: "bool list \<Rightarrow> bool list \<Rightarrow> bool list" where
  "add_leading (a # as) (b # bs) = (a \<noteq> b) # add_leading as bs"
| "add_leading as bs = bs"

lemma length_add_leading [simp]: "length (add_leading as bs) = length bs"
  by (induction as bs rule: add_leading.induct) auto

fun gf2_rem :: "bool list \<Rightarrow> bool list" where
  "gf2_rem [] = []"
| "gf2_rem (c # cs) = (if length cs < 32 then c # cs
     else gf2_rem (if c then add_leading (tl crc32_generator) cs else cs))"

declare gf2_rem.simps(2) [simp del]

text \<open>The remainder that the CRC is defined by: the message with the low bit of every byte first, 32
  zeros appended, the first 32 bits complemented.\<close>

definition message_bits :: "u8 list \<Rightarrow> bool list" where
  "message_bits data = concat (map (\<lambda>p. map (bit p) [0..<8]) data)"

definition crc32_remainder :: "u8 list \<Rightarrow> bool list" where
  "crc32_remainder data = gf2_rem (add_leading (replicate 32 True) (message_bits data @ replicate 32 False))"

text \<open>The register as a polynomial: bit 0 holds the coefficient of the highest degree.\<close>

definition reg_poly :: "u32 \<Rightarrow> bool list" where
  "reg_poly c = map (bit c) [0..<32]"

lemma length_reg_poly [simp]: "length (reg_poly c) = 32"
  by (simp add: reg_poly_def)

lemma nth_add_leading:
  "i < length bs \<Longrightarrow> add_leading as bs ! i = (if i < length as then as ! i \<noteq> bs ! i else bs ! i)"
proof (induction as bs arbitrary: i rule: add_leading.induct)
  case (1 a as b bs)
  then show ?case by (cases i) auto
qed auto

lemma reg_poly_xor: "reg_poly (a XOR b) = add_leading (reg_poly a) (reg_poly b)"
  by (rule nth_equalityI) (auto simp: reg_poly_def nth_add_leading bit_simps)

lemma add_leading_assoc: "length as \<le> length bs \<Longrightarrow> add_leading (add_leading as bs) cs = add_leading as (add_leading bs cs)"
  by (rule nth_equalityI) (auto simp: nth_add_leading)

text \<open>The constant of the code is the generator without its leading coefficient, reflected.\<close>

lemma reg_poly_constant: "reg_poly 0xEDB88320 = tl crc32_generator"
  by code_simp

lemma nth_tl_reg_poly: "i < 31 \<Longrightarrow> tl (reg_poly c) ! i = bit c (Suc i)"
  using nth_tl [of i "reg_poly c"] by (simp add: reg_poly_def del: upt.simps)

lemma reg_poly_shift: "add_leading (reg_poly (drop_bit 1 c)) xs = add_leading (tl (reg_poly c)) xs"
proof (rule nth_equalityI)
  fix i assume "i < length (add_leading (reg_poly (drop_bit 1 c)) xs)"
  then have "i < length xs" by simp
  then show "add_leading (reg_poly (drop_bit 1 c)) xs ! i = add_leading (tl (reg_poly c)) xs ! i"
    using nth_tl_reg_poly [of i c] bit_imp_le_length [of c 32]
    by (cases "i < 31"; cases "i = 31") (auto simp: nth_add_leading reg_poly_def bit_drop_bit_eq)
qed simp

text \<open>One step of the register is one step of the division.\<close>

lemma crc_step_division:
  assumes "31 < length bs"
  shows "gf2_rem (add_leading (reg_poly c) (b # bs)) = gf2_rem (add_leading (reg_poly (crc_step (c XOR of_bool b))) bs)"
proof -
  let ?d = "c XOR of_bool b :: u32"
  have r: "reg_poly c = bit c 0 # tl (reg_poly c)" by (simp add: reg_poly_def upt_rec [of 0])
  have b0: "bit ?d 0 \<longleftrightarrow> bit c 0 \<noteq> b" by (cases b) (auto simp: bit_simps)
  have sh: "drop_bit 1 ?d = drop_bit 1 c" by (cases b) (simp_all add: drop_bit_xor)
  have st: "crc_step ?d = (if bit c 0 \<noteq> b then 0xEDB88320 XOR drop_bit 1 c else drop_bit 1 c)"
    using b0 sh by (auto simp: crc_step_def and_one_eq bit_0 odd_iff_mod_2_eq_one)
  have "gf2_rem (add_leading (reg_poly c) (b # bs)) =
      gf2_rem (if bit c 0 \<noteq> b then add_leading (tl crc32_generator) (add_leading (tl (reg_poly c)) bs) else add_leading (tl (reg_poly c)) bs)"
    using assms by (subst r) (simp add: gf2_rem.simps(2))
  also have "\<dots> = gf2_rem (add_leading (reg_poly (crc_step ?d)) bs)"
    unfolding st reg_poly_constant [symmetric] reg_poly_shift [symmetric]
    by (simp add: reg_poly_xor add_leading_assoc)
  finally show ?thesis .
qed

lemma division_of_bits:
  "gf2_rem (add_leading (reg_poly c) (bs @ replicate 32 False)) = reg_poly (fold (\<lambda>b c. crc_step (c XOR of_bool b)) bs c)"
proof (induction bs arbitrary: c)
  case Nil
  have z: "add_leading (reg_poly c) (replicate 32 False) = reg_poly c"
    by (rule nth_equalityI) (auto simp: nth_add_leading)
  have "reg_poly c = bit c 0 # tl (reg_poly c)" by (simp add: reg_poly_def upt_rec [of 0])
  then have "gf2_rem (reg_poly c) = reg_poly c"
    using gf2_rem.simps(2) [of "bit c 0" "tl (reg_poly c)"] by (simp add: reg_poly_def)
  then show ?case using z by simp
next
  case (Cons b bs)
  then show ?case by (simp add: crc_step_division)
qed

text \<open>Eight steps after adding a byte are eight steps that each add a bit.\<close>

lemma word_split: "w = take_bit k w XOR push_bit k (drop_bit k w)" for w :: u32
  by (rule bit_word_eqI) (auto simp: bit_simps)

lemma drop_push_drop: "drop_bit k (push_bit k (drop_bit k w)) = drop_bit k w" for w :: u32
  by (rule bit_word_eqI) (auto simp: bit_simps dest: bit_imp_le_length)

lemma crc_steps_shift: "(crc_step ^^ k) (push_bit k (drop_bit k w)) = drop_bit k w"
  by (subst crc_steps_zero) (simp_all add: bit_push_bit_iff drop_push_drop)

lemma crc_step_low: "crc_step (c XOR w) = crc_step (c XOR of_bool (bit w 0)) XOR drop_bit 1 w"
proof -
  have t: "take_bit 1 w = of_bool (bit w 0)" by (simp add: bit_0 take_bit_Suc odd_iff_mod_2_eq_one)
  have "crc_step (c XOR w) = crc_step ((c XOR take_bit 1 w) XOR push_bit 1 (drop_bit 1 w))"
    using word_split [of w 1] by (metis xor.assoc)
  also have "\<dots> = crc_step (c XOR take_bit 1 w) XOR drop_bit 1 w"
    using crc_steps_shift [of 1 w] by (simp only: crc_step_xor funpow.simps o_apply id_apply One_nat_def)
  finally show ?thesis unfolding t .
qed

lemma crc_steps_bits:
  "(\<And>k. n \<le> k \<Longrightarrow> \<not> bit w k) \<Longrightarrow>
    (crc_step ^^ n) (c XOR w) = fold (\<lambda>b c. crc_step (c XOR of_bool b)) (map (bit w) [0..<n]) c"
proof (induction n arbitrary: c w)
  case 0
  then have "w = 0" by (intro bit_word_eqI) simp
  then show ?case by simp
next
  case (Suc n)
  have u: "map (bit w) [0..<Suc n] = bit w 0 # map (bit (drop_bit 1 w)) [0..<n]"
    by (rule nth_equalityI) (auto simp: nth_Cons' bit_drop_bit_eq simp del: upt_Suc)
  have "(crc_step ^^ Suc n) (c XOR w) = (crc_step ^^ n) (crc_step (c XOR of_bool (bit w 0)) XOR drop_bit 1 w)"
    unfolding funpow_Suc_right o_apply crc_step_low [of c w] ..
  also have "\<dots> = fold (\<lambda>b c. crc_step (c XOR of_bool b)) (map (bit (drop_bit 1 w)) [0..<n]) (crc_step (c XOR of_bool (bit w 0)))"
    using Suc.prems by (intro Suc.IH) (simp add: bit_drop_bit_eq)
  finally show ?case unfolding u fold.simps o_apply .
qed

lemma crc_byte_bits: "crc_byte build_crc p c = fold (\<lambda>b c. crc_step (c XOR of_bool b)) (map (bit p) [0..<8]) c"
proof -
  have m: "map (bit (ucast p :: u32)) [0..<8] = map (bit p) [0..<8]" by (auto simp: bit_ucast_iff)
  have "(crc_step ^^ 8) (c XOR ucast p) = fold (\<lambda>b c. crc_step (c XOR of_bool b)) (map (bit (ucast p :: u32)) [0..<8]) c"
    by (rule crc_steps_bits) (auto simp: bit_ucast_iff dest: bit_imp_le_length)
  then show ?thesis unfolding m by (simp only: crc_byte_steps)
qed

lemma crc_register: "fold (crc_byte build_crc) data c = fold (\<lambda>b c. crc_step (c XOR of_bool b)) (message_bits data) c"
  by (induction data arbitrary: c) (simp_all add: message_bits_def crc_byte_bits)

lemma reg_poly_mask: "reg_poly 0xFFFFFFFF = replicate 32 True"
  by code_simp

text \<open>The check value of the CRC-32 catalogue, for the digits 1 to 9: the definition is the standard one.\<close>

lemma crc32_check_value:
  "crc32_remainder [0x31, 0x32, 0x33, 0x34, 0x35, 0x36, 0x37, 0x38, 0x39] = map Not (map (bit (0xCBF43926 :: u32)) [0..<32])"
  by code_simp

text \<open>C39. The table-driven routine computes CRC-32 (IEEE 802.3) on every input: the bits of its result
  are the complement of the remainder of the message, as a polynomial over GF(2) with its first 32
  coefficients complemented and 32 zeros appended, divided by the standard generator. The reference
  shares nothing with the code: it divides bit lists, and gives the catalogued check value.\<close>

theorem wubuzip_crc32_division:
  "map (bit (wubuzip_crc32 data)) [0..<32] = map Not (crc32_remainder data)"
proof -
  have n: "reg_poly (c XOR 0xFFFFFFFF) = map Not (reg_poly c)" for c
    unfolding reg_poly_xor reg_poly_mask by (rule nth_equalityI) (auto simp: nth_add_leading)
  have "crc32_remainder data = reg_poly (fold (crc_byte build_crc) data 0xFFFFFFFF)"
    unfolding crc32_remainder_def reg_poly_mask [symmetric] division_of_bits crc_register ..
  then show ?thesis using n by (simp add: wubuzip_crc32_def reg_poly_def)
qed

end
