(* ===== verification/WubuHuffman_Correct.thy ===== *)
theory WubuHuffman_Correct
  imports WubuBits_Correct WubuHuffman
begin

text \<open>
  Canonical Huffman codes: the counting construction of \<open>huff_build\<close> and the code numbers of
  \<open>build_codes\<close> agree on one closed form, so the decoder reads back every symbol; the codes the
  decoder refuses; the failure of the merging loop of \<open>canon.c\<close>; the lengths \<open>limitcode.c\<close> returns.
\<close>

section \<open>Canonical codes\<close>

text \<open>The numbers the two tables are built from: symbols per length, first code and first index of a
  length, and the rank of a symbol among those of its length.\<close>

definition len_count :: "nat list \<Rightarrow> nat \<Rightarrow> nat \<Rightarrow> nat" where
  "len_count ls n l = (if l = 0 then 0 else length (filter (\<lambda>i. ls ! i = l) [0..<n]))"

fun first_code :: "nat list \<Rightarrow> nat \<Rightarrow> nat \<Rightarrow> nat" where
  "first_code ls n 0 = 0"
| "first_code ls n (Suc l) = (first_code ls n l + len_count ls n l) * 2"

fun first_index :: "nat list \<Rightarrow> nat \<Rightarrow> nat \<Rightarrow> nat" where
  "first_index ls n 0 = 0"
| "first_index ls n (Suc l) = first_index ls n l + len_count ls n l"

definition rank_of :: "nat list \<Rightarrow> nat \<Rightarrow> nat" where
  "rank_of ls i = length (filter (\<lambda>j. ls ! j = ls ! i) [0..<i])"

definition canonical_code :: "nat list \<Rightarrow> nat \<Rightarrow> nat \<Rightarrow> nat" where
  "canonical_code ls n i = first_code ls n (ls ! i) + rank_of ls i"

text \<open>The lengths a table is made from: at most 15 each, the space of codes not exceeded.\<close>

definition code_lengths :: "nat list \<Rightarrow> nat \<Rightarrow> bool" where
  "code_lengths ls n \<longleftrightarrow> (\<forall>i < n. ls ! i \<le> 15) \<and> (\<forall>l \<le> 15. first_code ls n l + len_count ls n l \<le> 2 ^ l)"

lemma fold_inc_nth:
  "(\<And>i. i \<in> set xs \<Longrightarrow> ls ! i < length c) \<Longrightarrow>
    length (fold (\<lambda>i cnt. cnt[ls ! i := cnt ! (ls ! i) + (1::nat)]) xs c) = length c \<and>
    (l < length c \<longrightarrow> fold (\<lambda>i cnt. cnt[ls ! i := cnt ! (ls ! i) + 1]) xs c ! l = c ! l + length (filter (\<lambda>i. ls ! i = l) xs))"
proof (induction xs arbitrary: c)
  case (Cons x xs)
  have "\<And>i. i \<in> set xs \<Longrightarrow> ls ! i < length (c[ls ! x := c ! (ls ! x) + 1])" using Cons.prems by simp
  from Cons.IH [OF this] Cons.prems [of x] show ?case by (auto simp: nth_list_update_if)
qed simp

lemma count_lengths_nth:
  assumes "\<forall>i < n. ls ! i \<le> 15"
  shows "length (count_lengths ls n) = 16" and "l < 16 \<Longrightarrow> count_lengths ls n ! l = len_count ls n l"
proof -
  have b: "\<And>i. i \<in> set [0..<n] \<Longrightarrow> ls ! i < length (replicate 16 (0 :: nat))" using assms by (auto intro: le_less_trans [of _ 15])
  note f = fold_inc_nth [of "[0..<n]", OF b]
  show "length (count_lengths ls n) = 16" using f by (simp add: count_lengths_def)
  show "l < 16 \<Longrightarrow> count_lengths ls n ! l = len_count ls n l"
    using f [of l] by (simp add: count_lengths_def len_count_def nth_list_update_if)
qed

text \<open>The \<open>left\<close> loop accepts exactly the lengths within the code space.\<close>

lemma left_fold_None: "fold (left_step cnt) xs None = None"
  by (induction xs) (simp_all add: left_step_def)

lemma huff_left_spec:
  assumes "\<forall>i < n. ls ! i \<le> 15" and "m \<le> 15"
  shows "fold (left_step (count_lengths ls n)) [1..<Suc m] (Some 1) =
    (if \<forall>l \<le> m. first_code ls n l + len_count ls n l \<le> 2 ^ l
     then Some (2 ^ m - int (first_code ls n m + len_count ls n m)) else None)"
  using assms(2)
proof (induction m)
  case 0
  then show ?case by (simp add: len_count_def)
next
  case (Suc m)
  let ?g = "\<lambda>l. first_code ls n l + len_count ls n l"
  have cnt: "count_lengths ls n ! Suc m = len_count ls n (Suc m)" using Suc.prems by (intro count_lengths_nth [OF assms(1)]) simp
  have split: "[1..<Suc (Suc m)] = [1..<Suc m] @ [Suc m]" by simp
  show ?case
  proof (cases "\<forall>l \<le> m. ?g l \<le> 2 ^ l")
    case True
    have "fold (left_step (count_lengths ls n)) [1..<Suc (Suc m)] (Some 1) =
        left_step (count_lengths ls n) (Suc m) (Some (2 ^ m - int (?g m)))"
      unfolding split fold_append comp_def using Suc True by simp
    also have "\<dots> = (let l = 2 ^ Suc m - int (?g (Suc m)) in if l < 0 then None else Some l)"
      by (simp add: left_step_def cnt Let_def algebra_simps)
    finally have e: "fold (left_step (count_lengths ls n)) [1..<Suc (Suc m)] (Some 1) =
        (let l = 2 ^ Suc m - int (?g (Suc m)) in if l < 0 then None else Some l)" .
    have "(2 ^ Suc m - int (?g (Suc m)) < 0) = (\<not> ?g (Suc m) \<le> 2 ^ Suc m)"
      using of_nat_le_iff [of "?g (Suc m)" "2 ^ Suc m", where 'a = int] by auto
    then show ?thesis unfolding e Let_def using True by (simp add: le_Suc_eq all_conj_distrib del: first_code.simps)
  next
    case False
    have "fold (left_step (count_lengths ls n)) [1..<Suc (Suc m)] (Some 1) = None"
    proof -
      have "fold (left_step (count_lengths ls n)) [1..<Suc m] (Some 1) = None" using Suc.IH Suc.prems False by (simp del: upt_Suc)
      then show ?thesis unfolding split fold_append comp_def by (simp only:) (simp add: left_step_def)
    qed
    moreover have "\<not> (\<forall>l \<le> Suc m. ?g l \<le> 2 ^ l)" using False le_SucI by blast
    ultimately show ?thesis by (simp only: if_False)
  qed
qed

lemma huff_left_Some: "\<forall>i < n. ls ! i \<le> 15 \<Longrightarrow> huff_left (count_lengths ls n) = Some left \<Longrightarrow> code_lengths ls n"
  using huff_left_spec [of n ls 15] by (auto simp: huff_left_def code_lengths_def split: if_splits simp del: upt_Suc)

text \<open>Codes of one length fit in that many bits.\<close>

lemma rank_less: "i < n \<Longrightarrow> ls ! i \<noteq> 0 \<Longrightarrow> rank_of ls i < len_count ls n (ls ! i)"
proof -
  assume i: "i < n" "ls ! i \<noteq> 0"
  have "[0..<n] = [0..<i] @ i # [Suc i..<n]" using i(1)
    by (metis le_add1 plus_nat.add_0 upt_add_eq_append upt_conv_Cons le_add_diff_inverse less_imp_le_nat)
  then show ?thesis using i(2) by (simp add: rank_of_def len_count_def)
qed

lemma canonical_code_bound:
  assumes "code_lengths ls n" and "i < n" and "ls ! i \<noteq> 0"
  shows "canonical_code ls n i < 2 ^ (ls ! i)"
    and "canonical_code ls n i - first_code ls n (ls ! i) < len_count ls n (ls ! i)"
proof -
  have r: "rank_of ls i < len_count ls n (ls ! i)" by (rule rank_less [OF assms(2,3)])
  have l: "ls ! i \<le> 15" "first_code ls n (ls ! i) + len_count ls n (ls ! i) \<le> 2 ^ (ls ! i)"
    using assms(1,2) by (auto simp: code_lengths_def)
  show "canonical_code ls n i < 2 ^ (ls ! i)" using r l(2) unfolding canonical_code_def by linarith
  show "canonical_code ls n i - first_code ls n (ls ! i) < len_count ls n (ls ! i)" using r by (simp add: canonical_code_def)
qed

text \<open>The encoder's codes.\<close>

lemma first_codes_nth:
  assumes "code_lengths ls n" and "m \<le> 15"
  defines "fc \<equiv> fold (\<lambda>i c. c[i := ((c ! (i - 1) + count_lengths ls n ! (i - 1)) * 2) mod 65536]) [1..<Suc m] (replicate 16 0)"
  shows "length fc = 16 \<and> (\<forall>l \<le> m. fc ! l = first_code ls n l)"
  using assms(2) unfolding fc_def
proof (induction m)
  case (Suc m)
  let ?f = "\<lambda>i c. c[i := ((c ! (i - 1) + count_lengths ls n ! (i - 1)) * 2) mod 65536]"
  let ?c = "fold ?f [1..<Suc m] (replicate 16 0)"
  have IH: "length ?c = 16" "\<forall>l \<le> m. ?c ! l = first_code ls n l" using Suc by simp_all
  have cl: "count_lengths ls n ! m = len_count ls n m"
    using assms(1) Suc.prems by (intro count_lengths_nth) (auto simp: code_lengths_def)
  have "first_code ls n m + len_count ls n m \<le> 2 ^ m" using assms(1) Suc.prems by (simp add: code_lengths_def)
  also have "\<dots> \<le> 2 ^ 14" using Suc.prems by (intro power_increasing) simp_all
  finally have small: "(first_code ls n m + len_count ls n m) * 2 < 65536" by simp
  have "fold ?f [1..<Suc (Suc m)] (replicate 16 0) = ?f (Suc m) ?c" by simp
  also have "\<dots> = ?c[Suc m := first_code ls n (Suc m)]" using IH cl small by simp
  finally show ?case using IH Suc.prems by (auto simp: nth_list_update_if le_Suc_eq simp del: upt_Suc)
qed (simp add: nth_Cons')

lemma code_fold:
  assumes ok: "code_lengths ls n" and "k \<le> n"
  shows "\<exists>c code. fold (code_step ls) [0..<k] (first_codes (count_lengths ls n), replicate n 0) = (c, code)
    \<and> length c = 16 \<and> length code = n
    \<and> (\<forall>l. 0 < l \<longrightarrow> l < 16 \<longrightarrow> c ! l = first_code ls n l + length (filter (\<lambda>j. ls ! j = l) [0..<k]))
    \<and> (\<forall>i < k. ls ! i \<noteq> 0 \<longrightarrow> code ! i = canonical_code ls n i)"
  using assms(2)
proof (induction k)
  case 0
  have "length (first_codes (count_lengths ls n)) = 16 \<and> (\<forall>l \<le> 15. first_codes (count_lengths ls n) ! l = first_code ls n l)"
    using first_codes_nth [OF ok, of 15] by (simp add: first_codes_def del: upt_Suc)
  then show ?case by simp
next
  case (Suc k)
  then obtain c code where IH: "fold (code_step ls) [0..<k] (first_codes (count_lengths ls n), replicate n 0) = (c, code)"
      "length c = 16" "length code = n"
      "\<forall>l. 0 < l \<longrightarrow> l < 16 \<longrightarrow> c ! l = first_code ls n l + length (filter (\<lambda>j. ls ! j = l) [0..<k])"
      "\<forall>i < k. ls ! i \<noteq> 0 \<longrightarrow> code ! i = canonical_code ls n i" by auto
  let ?L = "ls ! k"
  have L: "?L \<le> 15" using ok Suc.prems by (simp add: code_lengths_def)
  show ?case
  proof (cases "?L = 0")
    case True
    then have "code_step ls k (c, code) = (c, code[k := 0])" by (simp add: code_step_def)
    then show ?thesis using IH Suc.prems True by (auto simp: nth_list_update_if less_Suc_eq)
  next
    case False
    have cL: "c ! ?L = canonical_code ls n k" using IH(4) False L by (simp add: canonical_code_def rank_of_def)
    have "canonical_code ls n k < 2 ^ ?L" using canonical_code_bound(1) [OF ok _ False] Suc.prems by simp
    also have "\<dots> \<le> 2 ^ 15" using L by (intro power_increasing) simp_all
    finally have small: "c ! ?L + 1 < 65536" using cL by simp
    have st: "code_step ls k (c, code) = (c[?L := c ! ?L + 1], code[k := c ! ?L])"
      using False small by (simp add: code_step_def Let_def)
    show ?thesis using IH st cL L False Suc.prems by (auto simp: nth_list_update_if less_Suc_eq)
  qed
qed

lemma build_codes_canonical:
  assumes "code_lengths ls n" and "i < n" and "ls ! i \<noteq> 0"
  shows "build_codes ls n ! i = canonical_code ls n i"
proof -
  obtain c code where "fold (code_step ls) [0..<n] (first_codes (count_lengths ls n), replicate n 0) = (c, code)"
    "\<forall>i < n. ls ! i \<noteq> 0 \<longrightarrow> code ! i = canonical_code ls n i"
    using code_fold [OF assms(1), of n] by auto
  then show ?thesis using assms(2,3) by (simp add: build_codes_def)
qed

section \<open>The decoder's symbol table\<close>

lemma first_index_filter: "first_index ls n l = length (filter (\<lambda>i. 0 < ls ! i \<and> ls ! i < l) [0..<n])"
proof (induction l)
  case (Suc l)
  have "length (filter (\<lambda>i. 0 < ls ! i \<and> ls ! i < Suc l) xs) =
      length (filter (\<lambda>i. 0 < ls ! i \<and> ls ! i < l) xs) + (if l = 0 then 0 else length (filter (\<lambda>i. ls ! i = l) xs))" for xs
    by (induction xs) (auto simp: less_Suc_eq)
  then show ?case by (simp add: Suc len_count_def)
qed simp

lemma first_index_le: "first_index ls n l \<le> n"
  by (metis first_index_filter length_filter_le length_upt diff_zero)

lemma first_index_mono: "l \<le> m \<Longrightarrow> first_index ls n l \<le> first_index ls n m"
  by (induction m) (auto simp: le_Suc_eq)

definition sym_index :: "nat list \<Rightarrow> nat \<Rightarrow> nat \<Rightarrow> nat" where
  "sym_index ls n i = first_index ls n (ls ! i) + rank_of ls i"

lemma sym_index_bound:
  assumes "i < n" and "ls ! i \<noteq> 0"
  shows "sym_index ls n i < first_index ls n (Suc (ls ! i))" and "sym_index ls n i < n"
proof -
  show "sym_index ls n i < first_index ls n (Suc (ls ! i))" using rank_less [OF assms] by (simp add: sym_index_def)
  then show "sym_index ls n i < n" using first_index_le [of ls n "Suc (ls ! i)"] by linarith
qed

lemma rank_strict: "i < k \<Longrightarrow> ls ! i = ls ! k \<Longrightarrow> rank_of ls i < rank_of ls k"
proof -
  assume i: "i < k" "ls ! i = ls ! k"
  have "[0..<k] = [0..<i] @ i # [Suc i..<k]" using i(1)
    by (metis le_add1 plus_nat.add_0 upt_add_eq_append upt_conv_Cons le_add_diff_inverse less_imp_le_nat)
  then show ?thesis using i(2) by (simp add: rank_of_def)
qed

lemma sym_index_inj:
  assumes "i < k" and "k < n" and "ls ! i \<noteq> 0" and "ls ! k \<noteq> 0"
  shows "sym_index ls n i \<noteq> sym_index ls n k"
proof -
  consider "ls ! i = ls ! k" | "Suc (ls ! i) \<le> ls ! k" | "Suc (ls ! k) \<le> ls ! i" by linarith
  then show ?thesis
  proof cases
    case 1
    then show ?thesis using rank_strict [OF assms(1) 1] by (simp add: sym_index_def)
  next
    case 2
    then show ?thesis using sym_index_bound(1) [of i n ls] assms first_index_mono [OF 2, of ls n] by (simp add: sym_index_def)
  next
    case 3
    then show ?thesis using sym_index_bound(1) [of k n ls] assms first_index_mono [OF 3, of ls n] by (simp add: sym_index_def)
  qed
qed

lemma huff_offs_nth:
  assumes "\<forall>i < n. ls ! i \<le> 15" and "m \<le> 14"
  shows "length (fold (\<lambda>len offs. offs[len + 1 := offs ! len + count_lengths ls n ! len]) [1..<Suc m] (replicate 16 0)) = 16 \<and>
    (\<forall>l \<le> Suc m. fold (\<lambda>len offs. offs[len + 1 := offs ! len + count_lengths ls n ! len]) [1..<Suc m] (replicate 16 0) ! l = first_index ls n l)"
  using assms(2)
proof (induction m)
  case 0
  have "(replicate 16 0 :: nat list) ! l = first_index ls n l" if "l \<le> Suc 0" for l
    using that by (cases l) (auto simp: len_count_def nth_Cons')
  then show ?case by simp
next
  case (Suc m)
  have cl: "count_lengths ls n ! Suc m = len_count ls n (Suc m)" using Suc.prems by (intro count_lengths_nth [OF assms(1)]) simp
  let ?f = "\<lambda>len offs. offs[len + 1 := offs ! len + count_lengths ls n ! len]"
  let ?o = "fold ?f [1..<Suc m] (replicate 16 0)"
  have split: "fold ?f [1..<Suc (Suc m)] (replicate 16 0) = ?f (Suc m) ?o" by simp
  have IH: "length ?o = 16" "\<forall>l \<le> Suc m. ?o ! l = first_index ls n l" using Suc by simp_all
  have "?f (Suc m) ?o = ?o[Suc (Suc m) := first_index ls n (Suc (Suc m))]" using IH(2) cl by simp
  then show ?case unfolding split using IH Suc.prems by (auto simp: nth_list_update_if le_Suc_eq)
qed

lemma sym_fold:
  assumes ok: "\<forall>i < n. ls ! i \<le> 15" and "n \<le> length s" and "n \<le> 65536" and "k \<le> n"
  shows "\<exists>offs symb. fold (sym_step ls) [0..<k] (huff_offs (count_lengths ls n), s) = (offs, symb)
    \<and> length offs = 16 \<and> length symb = length s
    \<and> (\<forall>l. 0 < l \<longrightarrow> l < 16 \<longrightarrow> offs ! l = first_index ls n l + length (filter (\<lambda>j. ls ! j = l) [0..<k]))
    \<and> (\<forall>i < k. ls ! i \<noteq> 0 \<longrightarrow> symb ! sym_index ls n i = i)"
  using assms(4)
proof (induction k)
  case 0
  then show ?case using huff_offs_nth [OF ok, of 14] by (simp add: huff_offs_def less_Suc_eq_le del: upt_Suc)
next
  case (Suc k)
  then obtain offs symb where IH: "fold (sym_step ls) [0..<k] (huff_offs (count_lengths ls n), s) = (offs, symb)"
      "length offs = 16" "length symb = length s"
      "\<forall>l. 0 < l \<longrightarrow> l < 16 \<longrightarrow> offs ! l = first_index ls n l + length (filter (\<lambda>j. ls ! j = l) [0..<k])"
      "\<forall>i < k. ls ! i \<noteq> 0 \<longrightarrow> symb ! sym_index ls n i = i" by auto
  have L: "ls ! k \<le> 15" and kn: "k < n" using ok Suc.prems by simp_all
  show ?case
  proof (cases "ls ! k = 0")
    case True
    then have "sym_step ls k (offs, symb) = (offs, symb)" by (simp add: sym_step_def)
    then show ?thesis using IH True by (auto simp: less_Suc_eq)
  next
    case False
    have oL: "offs ! (ls ! k) = sym_index ls n k" using IH(4) False L by (simp add: sym_index_def rank_of_def)
    have b: "sym_index ls n k < length s" using sym_index_bound(2) [of k n ls] False kn assms(2) by simp
    have st: "sym_step ls k (offs, symb) = (offs[ls ! k := offs ! (ls ! k) + 1], symb[sym_index ls n k := k])"
      using False kn assms(3) oL by (simp add: sym_step_def Let_def)
    have old: "\<forall>i < k. ls ! i \<noteq> 0 \<longrightarrow> sym_index ls n i \<noteq> sym_index ls n k" using sym_index_inj [of _ k n ls] kn False by blast
    let ?o = "offs[ls ! k := offs ! (ls ! k) + 1]" and ?s = "symb[sym_index ls n k := k]"
    have e: "fold (sym_step ls) [0..<Suc k] (huff_offs (count_lengths ls n), s) = (?o, ?s)" using IH(1) st by simp
    have o: "\<forall>l. 0 < l \<longrightarrow> l < 16 \<longrightarrow> ?o ! l = first_index ls n l + length (filter (\<lambda>j. ls ! j = l) [0..<Suc k])"
      using IH(2,4) by (simp add: nth_list_update_if)
    have y: "\<forall>i < Suc k. ls ! i \<noteq> 0 \<longrightarrow> ?s ! sym_index ls n i = i"
      using IH(3,5) old b by (auto simp: nth_list_update_if less_Suc_eq)
    show ?thesis using e o y IH(2,3) by (intro exI [of _ ?o] exI [of _ ?s]) (simp only: length_list_update simp_thms)
  qed
qed

text \<open>A table that \<open>huff_build\<close> accepts describes its lengths.\<close>

definition huff_table :: "huff \<Rightarrow> nat list \<Rightarrow> nat \<Rightarrow> bool" where
  "huff_table h ls n \<longleftrightarrow> code_lengths ls n \<and> (\<forall>l < 16. hf_cnt h ! l = len_count ls n l)
     \<and> (\<forall>i < n. ls ! i \<noteq> 0 \<longrightarrow> hf_sym h ! sym_index ls n i = i)"

lemma huff_build_table:
  assumes "huff_build h ls n = Some h1" and "\<forall>i < n. ls ! i \<le> 15" and "n \<le> length (hf_sym h)" and "n \<le> 65536"
  shows "huff_table h1 ls n \<and> length (hf_sym h1) = length (hf_sym h)"
proof -
  obtain left where l: "huff_left (count_lengths ls n) = Some left"
    using assms(1) by (auto simp: huff_build_def Let_def split: option.splits)
  obtain offs symb where s: "fold (sym_step ls) [0..<n] (huff_offs (count_lengths ls n), hf_sym h) = (offs, symb)"
    "length symb = length (hf_sym h)" "\<forall>i < n. ls ! i \<noteq> 0 \<longrightarrow> symb ! sym_index ls n i = i"
    using sym_fold [OF assms(2-4), of n] by auto
  have "h1 = \<lparr>hf_cnt = count_lengths ls n, hf_sym = symb\<rparr>"
    using assms(1) l s(1) by (simp add: huff_build_def Let_def split: if_splits)
  then show ?thesis using s huff_left_Some [OF assms(2) l] count_lengths_nth [OF assms(2)] by (simp add: huff_table_def)
qed

section \<open>The walk\<close>

text \<open>A code as it stands in the stream: most significant bit first.\<close>

definition code_bits :: "nat \<Rightarrow> nat \<Rightarrow> bool list" where
  "code_bits v L = map (bit v) (rev [0..<L])"

lemma code_bits_Suc: "code_bits v (Suc L) = bit v L # code_bits v L"
  by (simp add: code_bits_def)

lemma code_bits_0 [simp]: "code_bits v 0 = []"
  by (simp add: code_bits_def)

lemma length_code_bits [simp]: "length (code_bits v L) = L"
  by (simp add: code_bits_def)

lemma first_code_grows: "(first_code ls n l + len_count ls n l) * 2 ^ (Suc k) \<le> first_code ls n (l + Suc k)"
proof (induction k)
  case (Suc k)
  have "(first_code ls n l + len_count ls n l) * 2 ^ Suc (Suc k) = (first_code ls n l + len_count ls n l) * 2 ^ Suc k * 2"
    by (simp add: algebra_simps)
  also have "\<dots> \<le> first_code ls n (l + Suc k) * 2" using Suc by (intro mult_right_mono) auto
  also have "\<dots> \<le> (first_code ls n (l + Suc k) + len_count ls n (l + Suc k)) * 2" by simp
  finally show ?case by simp
qed simp

lemma bit_get_one:
  assumes "br_ok b" and "br_bits b = x # rest"
  shows "\<exists>b1. bit_get b 1 = (of_bool x, b1) \<and> br_ok b1 \<and> br_bits b1 = rest \<and> br_data b1 = br_data b"
proof -
  have "br_bits b = word_bits 1 (of_bool x :: u32) @ rest" using assms(2) by (simp add: word_bits_def bit_0)
  moreover have "\<forall>j \<ge> 1. \<not> bit (of_bool x :: u32) j" by (cases x) (auto simp: bit_1_iff)
  ultimately show ?thesis using bit_get_enough [OF assms(1), of 1 "of_bool x" rest] by simp
qed

lemma div_pow_Suc: "v div 2 ^ k = 2 * (v div 2 ^ Suc k) + of_bool (bit v k)" for v :: nat
proof -
  have "v div 2 ^ k = 2 * ((v div 2 ^ k) div 2) + (v div 2 ^ k) mod 2" by simp
  also have "(v div 2 ^ k) div 2 = v div 2 ^ Suc k" by (metis div_mult2_eq mult.commute power_Suc)
  also have "(v div 2 ^ k) mod 2 = of_bool (bit v k)" by (simp add: bit_iff_odd mod2_eq_if)
  finally show ?thesis .
qed

lemma int_or_bit: "(2 * int a) OR uint (of_bool x :: u32) = int (2 * a + of_bool x)"
proof (cases x)
  case True
  have "(2 * int a) OR 1 = 2 * int a + 1" by (simp add: or_one_eq)
  then show ?thesis using True by simp
qed simp

lemma huff_walk_code:
  assumes tab: "\<forall>l < 16. hf_cnt h ! l = len_count ls n l"
    and v: "first_code ls n L \<le> v" "v - first_code ls n L < len_count ls n L" "v < 2 ^ L" "L \<le> 15"
  shows "d < L \<Longrightarrow> br_ok b \<Longrightarrow> br_bits b = code_bits v (Suc d) @ rest \<Longrightarrow>
    \<exists>b1. huff_walk [L - d..<16] h b (2 * int (v div 2 ^ Suc d)) (int (first_code ls n (L - d))) (int (first_index ls n (L - d))) =
      (Some (hf_sym h ! (first_index ls n L + (v - first_code ls n L))), b1)
    \<and> br_ok b1 \<and> br_bits b1 = rest \<and> br_data b1 = br_data b"
proof (induction d arbitrary: b)
  case 0
  have up: "[L - 0..<16] = L # [Suc L..<16]" using v(4) by (simp add: upt_conv_Cons)
  from 0(3) have "br_bits b = bit v 0 # rest" by (simp add: code_bits_Suc)
  from bit_get_one [OF 0(2) this] obtain b1 where
    g: "bit_get b 1 = (of_bool (bit v 0), b1)" "br_ok b1" "br_bits b1 = rest" "br_data b1 = br_data b" by blast
  have c: "(2 * int (v div 2 ^ Suc 0)) OR uint (of_bool (bit v 0) :: u32) = int v"
    unfolding int_or_bit div_pow_Suc [of v 0, symmetric] by simp
  have t: "int v - int (first_code ls n L) < int (hf_cnt h ! L)" using tab v by simp
  have i: "nat (int (first_index ls n L) + (int v - int (first_code ls n L))) = first_index ls n L + (v - first_code ls n L)"
    using v(1) by simp
  have "huff_walk (L # [Suc L..<16]) h b (2 * int (v div 2 ^ Suc 0)) (int (first_code ls n L)) (int (first_index ls n L)) =
      (Some (hf_sym h ! (first_index ls n L + (v - first_code ls n L))), b1)"
    unfolding huff_walk.simps g(1) Let_def prod.case c using t by (simp only: if_True i)
  then show ?case unfolding up using g by (simp del: huff_walk.simps)
next
  case (Suc d)
  let ?l = "L - Suc d"
  have up: "[?l..<16] = ?l # [L - d..<16]" using v(4) Suc.prems(1) by (simp add: upt_conv_Cons Suc_diff_Suc)
  from Suc.prems(3) have "br_bits b = bit v (Suc d) # (code_bits v (Suc d) @ rest)" by (simp add: code_bits_Suc)
  from bit_get_one [OF Suc.prems(2) this] obtain b1 where
    g: "bit_get b 1 = (of_bool (bit v (Suc d)), b1)" "br_ok b1" "br_bits b1 = code_bits v (Suc d) @ rest" "br_data b1 = br_data b" by blast
  have c: "(2 * int (v div 2 ^ Suc (Suc d))) OR uint (of_bool (bit v (Suc d)) :: u32) = int (v div 2 ^ Suc d)"
    unfolding int_or_bit div_pow_Suc [of v "Suc d", symmetric] ..
  have Lsum: "L = ?l + Suc d" using Suc.prems(1) by simp
  have "(first_code ls n ?l + len_count ls n ?l) * 2 ^ Suc d \<le> v"
    using first_code_grows [of ls n ?l d] v(1) Lsum by simp
  then have "first_code ls n ?l + len_count ls n ?l \<le> v div 2 ^ Suc d" by (simp add: less_eq_div_iff_mult_less_eq)
  moreover have "hf_cnt h ! ?l = len_count ls n ?l" using tab v(4) by simp
  ultimately have t: "\<not> int (v div 2 ^ Suc d) - int (first_code ls n ?l) < int (hf_cnt h ! ?l)" by linarith
  have nx: "Suc ?l = L - d" using Suc.prems(1) by simp
  have f: "(int (first_code ls n ?l) + int (hf_cnt h ! ?l)) * 2 = int (first_code ls n (L - d))"
    "int (first_index ls n ?l) + int (hf_cnt h ! ?l) = int (first_index ls n (L - d))"
    using tab v(4) by (simp_all flip: nx)
  have e: "huff_walk (?l # [L - d..<16]) h b (2 * int (v div 2 ^ Suc (Suc d))) (int (first_code ls n ?l)) (int (first_index ls n ?l)) =
      huff_walk [L - d..<16] h b1 (int (v div 2 ^ Suc d) * 2) (int (first_code ls n (L - d))) (int (first_index ls n (L - d)))"
    unfolding huff_walk.simps g(1) Let_def prod.case c using t by (simp only: if_False f)
  show ?case unfolding up e
    using Suc.IH [OF _ g(2,3)] Suc.prems(1) g(4) by (simp add: mult.commute)
qed

lemma huff_decode_code:
  assumes "huff_table h ls n" and "i < n" and "ls ! i \<noteq> 0" and "br_ok b"
    and "br_bits b = code_bits (build_codes ls n ! i) (ls ! i) @ rest"
  shows "\<exists>b1. huff_decode b h = (Some i, b1) \<and> br_ok b1 \<and> br_bits b1 = rest \<and> br_data b1 = br_data b"
proof -
  let ?L = "ls ! i" and ?v = "canonical_code ls n i"
  have ok: "code_lengths ls n" and cnt: "\<forall>l < 16. hf_cnt h ! l = len_count ls n l" and
    sy: "hf_sym h ! sym_index ls n i = i"
    using assms(1-3) by (auto simp: huff_table_def)
  have L: "?L \<le> 15" using ok assms(2) by (simp add: code_lengths_def)
  obtain d where d: "?L = Suc d" using assms(3) by (cases ?L) auto
  note b = canonical_code_bound [OF ok assms(2,3)]
  have v: "first_code ls n ?L \<le> ?v" by (simp add: canonical_code_def)
  have bits: "br_bits b = code_bits ?v (Suc d) @ rest"
    using assms(5) build_codes_canonical [OF ok assms(2,3)] d by simp
  have z: "?v div 2 ^ Suc d = 0" using b(1) unfolding d by simp
  have one: "first_code ls n (Suc 0) = 0" "first_index ls n (Suc 0) = 0" by (simp_all add: len_count_def)
  have i: "first_index ls n ?L + (?v - first_code ls n ?L) = sym_index ls n i" by (simp add: sym_index_def canonical_code_def)
  have s: "?L - d = Suc 0" using d by simp
  show ?thesis
    using huff_walk_code [OF cnt v b(2,1) L _ assms(4) bits] d
    unfolding huff_decode_def s one z i sy by simp
qed

text \<open>C22. The canonical code is decoded to the symbol it encodes, for every table that
  \<open>huff_build\<close> accepts and the codes \<open>build_codes\<close> derives from the same lengths: after the bits
  of a symbol's code, most significant first, the decoder returns the symbol and leaves exactly
  the bits that follow.\<close>

theorem huff_code_roundtrip:
  assumes "huff_build h ls n = Some h1" and "\<forall>i < n. ls ! i \<le> 15" and "n \<le> length (hf_sym h)" and "n \<le> 65536"
    and "i < n" and "ls ! i \<noteq> 0"
    and "br_ok b" and "br_bits b = code_bits (build_codes ls n ! i) (ls ! i) @ rest"
  shows "\<exists>b1. huff_decode b h1 = (Some i, b1) \<and> br_ok b1 \<and> br_bits b1 = rest"
  using huff_decode_code [OF huff_build_table [OF assms(1-4), THEN conjunct1] assms(5-7)] assms(8) by blast

section \<open>The fixed tables\<close>

lemma length_fixed [simp]: "length fixed_litlen = 288" "length fixed_dist = 32"
  by (simp_all add: fixed_litlen_def fixed_dist_def)

lemma fixed_litlen_values: "i < 288 \<Longrightarrow> fixed_litlen ! i \<in> {7, 8, 9}"
  by (auto simp: fixed_litlen_def nth_append)

lemma fixed_dist_values: "i < 32 \<Longrightarrow> fixed_dist ! i = 5"
  by (simp add: fixed_dist_def)

lemma filter_upt_split: "length (filter P [0..<a + b]) = length (filter P [0..<a]) + length (filter (\<lambda>i. P (a + i)) [0..<b])"
  by (induction b) auto

lemma count_lengths_fixed:
  "count_lengths fixed_litlen 288 = [0, 0, 0, 0, 0, 0, 0, 24, 152, 112, 0, 0, 0, 0, 0, 0]"
  "count_lengths fixed_dist 32 = [0, 0, 0, 0, 0, 32, 0, 0, 0, 0, 0, 0, 0, 0, 0, 0]"
  by code_simp+

lemma huff_build_fixed:
  "\<exists>h1. huff_build h fixed_litlen 288 = Some h1" "\<exists>h1. huff_build h fixed_dist 32 = Some h1"
  unfolding huff_build_def Let_def count_lengths_fixed
  by (simp_all add: huff_left_def left_step_def upt_rec split: prod.splits)

lemma fixed_tables:
  assumes "288 \<le> length (hf_sym h)"
  shows "\<exists>h1. huff_build h fixed_litlen 288 = Some h1 \<and> huff_table h1 fixed_litlen 288 \<and> length (hf_sym h1) = length (hf_sym h)"
    and "\<exists>h1. huff_build h fixed_dist 32 = Some h1 \<and> huff_table h1 fixed_dist 32 \<and> length (hf_sym h1) = length (hf_sym h)"
proof -
  obtain h1 where h1: "huff_build h fixed_litlen 288 = Some h1" using huff_build_fixed(1) by blast
  moreover have "\<forall>i < 288. fixed_litlen ! i \<le> 15" using fixed_litlen_values by fastforce
  ultimately show "\<exists>h1. huff_build h fixed_litlen 288 = Some h1 \<and> huff_table h1 fixed_litlen 288 \<and> length (hf_sym h1) = length (hf_sym h)"
    using huff_build_table [OF h1] assms by auto
next
  obtain h1 where h1: "huff_build h fixed_dist 32 = Some h1" using huff_build_fixed(2) by blast
  moreover have "\<forall>i < 32. fixed_dist ! i \<le> 15" using fixed_dist_values by simp
  ultimately show "\<exists>h1. huff_build h fixed_dist 32 = Some h1 \<and> huff_table h1 fixed_dist 32 \<and> length (hf_sym h1) = length (hf_sym h)"
    using huff_build_table [OF h1] assms by auto
qed

lemma huff_code_roundtrip_witness:
  "\<exists>h1 b1. huff_build huff_new fixed_dist 32 = Some h1 \<and>
    huff_decode (bit_init [0x18]) h1 = (Some 3, b1) \<and> br_bits b1 = [False, False, False]"
proof -
  obtain h1 where h1: "huff_build huff_new fixed_dist 32 = Some h1" using huff_build_fixed(2) by blast
  have tab: "code_lengths fixed_dist 32" using huff_build_table [OF h1] fixed_dist_values by (simp add: huff_new_def huff_table_def)
  have lc: "len_count fixed_dist 32 l = (if l = 5 then 32 else 0)" for l
    by (auto simp: len_count_def fixed_dist_values filter_empty_conv)
  have "filter (\<lambda>j. fixed_dist ! j = fixed_dist ! 3) [0..<3] = [0..<3]" by (simp add: fixed_dist_values)
  moreover have five: "5 = Suc (Suc (Suc (Suc (Suc (0 :: nat)))))" by simp
  have "first_code fixed_dist 32 (Suc (Suc (Suc (Suc (Suc 0))))) = 0" by (simp add: lc)
  then have "first_code fixed_dist 32 5 = 0" by (simp only: five)
  ultimately have "canonical_code fixed_dist 32 3 = 3"
    by (simp add: canonical_code_def rank_of_def fixed_dist_values)
  then have c: "build_codes fixed_dist 32 ! 3 = 3" using build_codes_canonical [OF tab, of 3] by (simp add: fixed_dist_values)
  have bits: "br_bits (bit_init [0x18]) = code_bits (build_codes fixed_dist 32 ! 3) (fixed_dist ! 3) @ [False, False, False]"
    unfolding c by (simp add: byte_bits_def code_bits_def fixed_dist_values upt_rec bit_0)
  show ?thesis
    using huff_code_roundtrip [OF h1 _ _ _ _ _ br_ok_init bits] fixed_dist_values h1 by (auto simp: huff_new_def)
qed

section \<open>The generators of dynamic codes\<close>

text \<open>The merging loop only grows its array, so it can only end in failure.\<close>

lemma canon_loop_fails: "1 < length nd \<Longrightarrow> canon_loop nd = None"
proof (induction nd rule: canon_loop.induct)
  case (1 nd)
  show ?case
  proof (cases "canon_merge nd")
    case None
    then show ?thesis using 1(2) by (subst canon_loop.simps) simp
  next
    case (Some nd1)
    have "1 < length nd1" using canon_merge_active(2) [OF Some] 1(2) by linarith
    then have "canon_loop nd1 = None" by (rule 1(1) [OF 1(2) Some])
    then show ?thesis using 1(2) Some by (subst canon_loop.simps) simp
  qed
qed

text \<open>\<open>wubuzip_canon\<close> fails on every alphabet with two or more used symbols: the loop runs while
  more than one node exists, but merging never removes one, so it ends in the branch for a
  malformed tree. It returns -1 and leaves all codes and all lengths zero.\<close>

lemma canon_always_fails:
  assumes "2 \<le> length (filter (\<lambda>i. freqs ! i > 0) [0..<n])"
  shows "wubuzip_canon freqs n maxlen = (-1, replicate n 0, replicate n 0)"
proof -
  have l: "length (canon_leaves freqs n) = length (filter (\<lambda>i. freqs ! i > 0) [0..<n])" by (simp add: canon_leaves_def)
  have "canon_loop (canon_leaves freqs n) = None" using assms l by (intro canon_loop_fails) simp
  moreover have "canon_leaves freqs n \<noteq> []" "length (canon_leaves freqs n) \<noteq> 1" using assms l by auto
  ultimately show ?thesis by (simp add: wubuzip_canon_def Let_def)
qed

lemma canon_always_fails_witness: "wubuzip_canon [5, 1, 3] 3 15 = (-1, [0, 0, 0], [0, 0, 0])"
  using canon_always_fails [of "[5, 1, 3]" 3 15] by (simp add: upt_rec numeral_3_eq_3)

text \<open>The decoder rejects the two incomplete codes that DEFLATE allows and encoders emit for a
  block with at most one distance: no code at all, and a single code of one bit.\<close>

lemma huff_build_rejects_sparse:
  "huff_build h (replicate n 0) n = None \<and> (n > 0 \<longrightarrow> huff_build h ((replicate n 0)[0 := 1]) n = None)"
proof -
  have cz: "count_lengths (replicate n 0) n = replicate 16 0"
  proof (rule nth_equalityI)
    show "length (count_lengths (replicate n 0) n) = length (replicate 16 0)" by (simp add: count_lengths_nth)
    fix i assume "i < length (count_lengths (replicate n 0) n)"
    then have i: "i < 16" by (simp add: count_lengths_nth)
    have "count_lengths (replicate n 0) n ! i = len_count (replicate n 0) n i" using i by (intro count_lengths_nth) simp_all
    also have "\<dots> = 0" by (auto simp: len_count_def filter_empty_conv)
    finally show "count_lengths (replicate n 0) n ! i = replicate 16 0 ! i" using i by simp
  qed
  have z: "huff_build h (replicate n 0) n = None"
    unfolding huff_build_def Let_def cz by (simp add: huff_left_def left_step_def upt_rec nth_Cons')
  have "huff_build h ((replicate n 0)[0 := 1]) n = None" if n: "n > 0"
  proof -
    let ?ls = "(replicate n 0)[0 := 1] :: nat list"
    have b: "\<forall>i < n. ?ls ! i \<le> 15" by (simp add: nth_list_update_if)
    have "filter (\<lambda>i. ?ls ! i = l) [0..<n] = (if l = 1 then [0] else [])" if "l \<noteq> 0" for l
    proof -
      have "[0..<n] = 0 # [1..<n]" using n by (simp add: upt_conv_Cons)
      moreover have "filter (\<lambda>i. ?ls ! i = l) [1..<n] = []" using that by (auto simp: filter_empty_conv nth_list_update_if)
      ultimately show ?thesis using n by (simp add: nth_list_update_if)
    qed
    then have lc: "len_count ?ls n l = (if l = 1 then 1 else 0)" for l by (simp add: len_count_def)
    have co: "count_lengths ?ls n = (replicate 16 0)[1 := 1]"
    proof (rule nth_equalityI)
      show "length (count_lengths ?ls n) = length ((replicate 16 0)[1 := 1 :: nat])" using count_lengths_nth(1) [OF b] by simp
      fix i assume "i < length (count_lengths ?ls n)"
      then show "count_lengths ?ls n ! i = ((replicate 16 0)[1 := 1]) ! i"
        using count_lengths_nth [OF b] lc by (simp add: nth_list_update_if)
    qed
    show ?thesis unfolding huff_build_def Let_def co by (simp add: huff_left_def left_step_def upt_rec nth_Cons')
  qed
  with z show ?thesis by blast
qed

lemma huff_build_rejects_sparse_witness: "huff_build huff_new [1, 0, 0] 3 = None"
  using huff_build_rejects_sparse [of huff_new 3] by (simp add: numeral_3_eq_3)

text \<open>The package-merge lists of two equally frequent symbols.\<close>

definition coin_A :: coin where "coin_A = \<lparr>cn_w = 1, cn_bits = bset (replicate WBITS_NWORDS 0) 0\<rparr>"
definition coin_B :: coin where "coin_B = \<lparr>cn_w = 1, cn_bits = bset (replicate WBITS_NWORDS 0) 1\<rparr>"
definition coin_AB :: coin where "coin_AB = hd (package [coin_A, coin_B])"

lemma coins_w [simp]: "cn_w coin_A = 1" "cn_w coin_B = 1" "cn_w coin_AB = 2"
  by (simp_all add: coin_A_def coin_B_def coin_AB_def)

lemma package_AB: "package (coin_A # coin_B # xs) = coin_AB # package xs"
  by (simp add: coin_AB_def)

lemma coin_AB_bits: "bget (cn_bits coin_AB) 0" "bget (cn_bits coin_AB) (Suc 0)"
  by (simp_all add: coin_AB_def coin_A_def coin_B_def bget_def bor_def bset_def WBITS_NWORDS_def)

lemma limit_levels_two:
  assumes "m < 100"
  shows "\<exists>x. cn_w x = 2 * Suc m \<and>
    fold (limit_level (sort_key cn_w) [coin_A, coin_B]) [1..<Suc (Suc (Suc m))] [coin_A, coin_B] = [coin_AB, x, coin_A, coin_B]"
  using assms
proof (induction m)
  case 0
  show ?case by (simp add: limit_level_def package_AB del: package.simps(1))
next
  case (Suc m)
  then obtain x where x: "cn_w x = 2 * Suc m"
    "fold (limit_level (sort_key cn_w) [coin_A, coin_B]) [1..<Suc (Suc (Suc m))] [coin_A, coin_B] = [coin_AB, x, coin_A, coin_B]"
    by auto
  have s: "sort_key cn_w [coin_AB, x, coin_A, coin_B] = [coin_A, coin_B, coin_AB, x]" using x(1) by simp
  have split: "[1..<Suc (Suc (Suc (Suc m)))] = [1..<Suc (Suc (Suc m))] @ [Suc (Suc (Suc m))]" by simp
  have "fold (limit_level (sort_key cn_w) [coin_A, coin_B]) [1..<Suc (Suc (Suc (Suc m)))] [coin_A, coin_B] =
      limit_level (sort_key cn_w) [coin_A, coin_B] (Suc (Suc (Suc m))) [coin_AB, x, coin_A, coin_B]"
    unfolding split fold_append comp_def using x(2) by simp
  then show ?case using x(1) Suc.prems unfolding limit_level_def s package_AB by simp
qed

lemma limit_boundary_two:
  assumes "1 \<le> L" and "L \<le> 100"
  shows "\<exists>zs. sort_key cn_w (fold (limit_level (sort_key cn_w) [coin_A, coin_B]) [1..<Suc L] [coin_A, coin_B]) = coin_A # coin_B # coin_AB # zs"
proof (cases "L = 1")
  case True
  then show ?thesis by (simp add: limit_level_def package_AB del: package.simps(1))
next
  case False
  then obtain m where m: "L = Suc (Suc m)" using assms(1) by (metis One_nat_def Suc_le_D not0_implies_Suc le_0_eq)
  then obtain x where x: "cn_w x = 2 * Suc m"
    "fold (limit_level (sort_key cn_w) [coin_A, coin_B]) [1..<Suc L] [coin_A, coin_B] = [coin_AB, x, coin_A, coin_B]"
    using limit_levels_two [of m] assms(2) by auto
  show ?thesis unfolding x(2) using x(1) by simp
qed

lemma limit_counts_two:
  "m \<le> 100 \<Longrightarrow> fold (limit_count (sort_key cn_w) [coin_A, coin_B] 2) [1..<Suc m] (replicate 2 0) = [m, m]"
proof (induction m)
  case (Suc m)
  obtain zs where z: "sort_key cn_w (fold (limit_level (sort_key cn_w) [coin_A, coin_B]) [1..<Suc (Suc m)] [coin_A, coin_B]) =
      coin_A # coin_B # coin_AB # zs" using limit_boundary_two [of "Suc m"] Suc.prems by auto
  have split: "[1..<Suc (Suc m)] = [1..<Suc m] @ [Suc m]" by simp
  have "fold (limit_count (sort_key cn_w) [coin_A, coin_B] 2) [1..<Suc (Suc m)] (replicate 2 0) =
      limit_count (sort_key cn_w) [coin_A, coin_B] 2 (Suc m) [m, m]"
    unfolding split fold_append comp_def using Suc by simp
  also have "\<dots> = [Suc m, Suc m]" unfolding limit_count_def Let_def z
    by (simp add: coin_AB_bits upt_rec)
  finally show ?case .
qed (simp add: numeral_2_eq_2)

text \<open>The length-limited generator is not optimal, as its comment claims: for every limit, two
  equally frequent symbols both get the longest length allowed, where one bit each would do.\<close>

lemma limit_lengths_not_optimal:
  assumes "1 \<le> maxlen" and "maxlen \<le> 15"
  shows "limit_lengths (sort_key cn_w) [1, 1] 2 maxlen = (0, [maxlen, maxlen])"
proof -
  have f: "filter (\<lambda>i. ([1, 1] :: nat list) ! i > 0) [0..<2] = [0, 1]" by (simp add: upt_rec)
  have o: "sort_key cn_w (map (\<lambda>s. \<lparr>cn_w = ([1, 1] :: nat list) ! ([0, 1] ! s), cn_bits = bset (replicate WBITS_NWORDS 0) s\<rparr>) [0..<2]) =
      [coin_A, coin_B]" by (simp add: upt_rec coin_A_def coin_B_def)
  have c: "limit_clamp maxlen maxlen = maxlen" using assms by (simp add: limit_clamp_def)
  have n: "length [0, 1 :: nat] = 2" by simp
  have k: "fold (limit_count (sort_key cn_w) [coin_A, coin_B] 2) [1..<Suc maxlen] (replicate 2 0) = [maxlen, maxlen]"
    using limit_counts_two [of maxlen] assms(2) by simp
  show ?thesis using assms(1)
    unfolding limit_lengths_def Let_def f n o k by (simp add: c upt_rec WBITS_NWORDS_def numeral_2_eq_2)
qed

lemma limit_lengths_not_optimal_witness: "limit_lengths (sort_key cn_w) [1, 1] 2 15 = (0, [15, 15])"
  using limit_lengths_not_optimal [of 15] by simp

end
