(* ===== verification/WubuLz77_Correct.thy ===== *)
theory WubuLz77_Correct
  imports WubuLz77 WubuFlate
begin

text \<open>
  The LZ77 matcher: expanding the tokens it returns gives the input back, every match refers to bytes
  already written, at most 32768 back and from 3 to 258 long.
\<close>

section \<open>What tokens mean\<close>

fun lz_copy :: "nat \<Rightarrow> nat \<Rightarrow> u8 list \<Rightarrow> u8 list" where
  "lz_copy 0 d out = out"
| "lz_copy (Suc l) d out = lz_copy l d (out @ [out ! (length out - d)])"

fun lz_expand1 :: "lz_tok \<Rightarrow> u8 list \<Rightarrow> u8 list" where
  "lz_expand1 (Literal c) out = out @ [c]"
| "lz_expand1 (Match l d) out = lz_copy l d out"

definition lz_expand :: "lz_tok list \<Rightarrow> u8 list \<Rightarrow> u8 list" where
  "lz_expand ts out = fold lz_expand1 ts out"

text \<open>A token that DEFLATE can encode, after \<open>n\<close> bytes of output.\<close>

fun tok_ok :: "nat \<Rightarrow> lz_tok \<Rightarrow> bool" where
  "tok_ok n (Literal c) \<longleftrightarrow> True"
| "tok_ok n (Match l d) \<longleftrightarrow> 3 \<le> l \<and> l \<le> 258 \<and> 1 \<le> d \<and> d \<le> 32768 \<and> d \<le> n"

fun tok_size :: "lz_tok \<Rightarrow> nat" where
  "tok_size (Literal c) = 1"
| "tok_size (Match l d) = l"

fun toks_ok :: "nat \<Rightarrow> lz_tok list \<Rightarrow> bool" where
  "toks_ok n [] \<longleftrightarrow> True"
| "toks_ok n (t # ts) \<longleftrightarrow> tok_ok n t \<and> toks_ok (n + tok_size t) ts"

lemma toks_ok_append: "toks_ok n (ts @ us) \<longleftrightarrow> toks_ok n ts \<and> toks_ok (n + sum_list (map tok_size ts)) us"
  by (induction ts arbitrary: n) (auto simp: add.assoc)

lemma length_lz_copy [simp]: "length (lz_copy l d out) = length out + l"
  by (induction l d out rule: lz_copy.induct) auto

lemma length_lz_expand1 [simp]: "length (lz_expand1 t out) = length out + tok_size t"
  by (cases t) auto

lemma lz_expand_append: "lz_expand (ts @ us) out = lz_expand us (lz_expand ts out)"
  by (simp add: lz_expand_def)

lemma length_lz_expand: "length (lz_expand ts out) = length out + sum_list (map tok_size ts)"
  by (induction ts arbitrary: out) (simp_all add: lz_expand_def)

section \<open>The matcher\<close>

lemma match_run_spec:
  "match_run inp j pos m \<le> m \<and> (\<forall>k < match_run inp j pos m. inp ! (j + k) = inp ! (pos + k))"
proof (induction inp j pos m rule: match_run.induct)
  case (2 inp j pos m)
  show ?case
  proof (cases "inp ! j = inp ! pos")
    case True
    have "inp ! (j + k) = inp ! (pos + k)" if "k < Suc (match_run inp (Suc j) (Suc pos) m)" for k
      using 2 [OF True] that True by (cases k) auto
    then show ?thesis using 2 [OF True] True by simp
  qed simp
qed simp

definition match_ok :: "u8 list \<Rightarrow> nat \<Rightarrow> nat \<Rightarrow> nat \<Rightarrow> bool" where
  "match_ok inp pos l d \<longleftrightarrow> l = 0 \<or> (l \<le> 258 \<and> l \<le> length inp - pos \<and> 1 \<le> d \<and> d \<le> 32768 \<and> d \<le> pos \<and>
     (\<forall>k < l. inp ! (pos - d + k) = inp ! (pos + k)))"

lemma longest_loop_ok:
  assumes "\<forall>j. chain j < int pos"
  shows "cand < int pos \<Longrightarrow> match_ok inp pos best bd \<Longrightarrow>
    (case longest_loop steps inp chain pos cand best bd of (l, d) \<Rightarrow> match_ok inp pos l d)"
proof (induction steps arbitrary: cand best bd)
  case (Suc steps)
  show ?case
  proof (cases "cand < 0 \<or> int pos - cand > LZ_WIN")
    case True
    then show ?thesis using Suc.prems(2) by auto
  next
    case False
    let ?j = "nat cand"
    let ?m = "if length inp - pos > LZ_NICE then LZ_NICE else length inp - pos"
    let ?run = "match_run inp ?j pos ?m"
    have c: "0 \<le> cand" "int pos - cand \<le> 32768" using False by (auto simp: LZ_WIN_def)
    have ch: "chain ?j < int pos" using assms by blast
    have j: "?j < pos" "pos - ?j \<le> 32768" using c Suc.prems(1) by linarith+
    have r: "match_ok inp pos ?run (pos - ?j)"
      using match_run_spec [of inp ?j pos ?m] j by (auto simp: match_ok_def LZ_NICE_def split: if_splits)
    have e: "longest_loop (Suc steps) inp chain pos cand best bd =
        (if inp ! ?j = inp ! pos then
           if ?run > best then
             if ?run \<ge> LZ_NICE then (?run, pos - ?j) else longest_loop steps inp chain pos (chain ?j) ?run (pos - ?j)
           else longest_loop steps inp chain pos (chain ?j) best bd
         else longest_loop steps inp chain pos (chain ?j) best bd)"
      using False by (simp only: longest_loop.simps Let_def not_le not_less de_Morgan_disj if_True) (simp add: Let_def)
    define run where "run = ?run"
    note e = e [folded run_def] and r = r [folded run_def]
    show ?thesis unfolding e using Suc.IH [OF ch Suc.prems(2)] Suc.IH [OF ch r] r by auto
  qed
qed simp

lemma longest_ok:
  assumes "\<forall>h. head h < int pos" and "\<forall>j. chain j < int pos" and "longest inp head chain pos = (l, d)"
  shows "match_ok inp pos l d"
  using longest_loop_ok [OF assms(2), of "head (hash3 inp pos)" inp 0 0 LZ_CHAIN] assms(1,3)
  by (simp add: longest_def match_ok_def)

lemma lz_copy_match:
  assumes "pos + l \<le> length inp" and "1 \<le> d" and "d \<le> pos" and "\<forall>k < l. inp ! (pos - d + k) = inp ! (pos + k)"
  shows "lz_copy l d (take pos inp) = take (pos + l) inp"
proof -
  have "m \<le> l \<Longrightarrow> lz_copy (l - m) d (take (pos + m) inp) = take (pos + l) inp" for m
  proof (induction "l - m" arbitrary: m)
    case (Suc x)
    then obtain y where y: "l - m = Suc y" "l - Suc m = y" by (metis Suc_diff_Suc diff_Suc_Suc zero_less_Suc zero_less_diff less_Suc_eq_0_disj)
    have m: "m < l" "Suc m \<le> l" using Suc.hyps(2) by auto
    have "take (pos + m) inp ! (length (take (pos + m) inp) - d) = inp ! (pos - d + m)"
      using assms m by (simp add: min_absorb2 min_absorb1 add.commute)
    also have "\<dots> = inp ! (pos + m)" using assms(4) m by simp
    finally have "take (pos + m) inp @ [take (pos + m) inp ! (length (take (pos + m) inp) - d)] = take (pos + Suc m) inp"
      using assms(1) m by (simp add: take_Suc_conv_app_nth)
    then show ?case using Suc.hyps(1) [of "Suc m"] Suc.hyps(2) y m by simp
  qed simp
  from this [of 0] show ?thesis by simp
qed

section \<open>The parser\<close>

definition lz_chains_ok :: "lz \<Rightarrow> bool" where
  "lz_chains_ok z \<longleftrightarrow> (\<forall>h. lz_head z h < int (lz_pos z)) \<and> (\<forall>j. lz_chain z j < int (lz_pos z))"

definition lz_inv :: "u8 list \<Rightarrow> lz \<Rightarrow> bool" where
  "lz_inv inp z \<longleftrightarrow> lz_pos z \<le> length inp \<and> lz_expand (lz_tok z) [] = take (lz_pos z) inp \<and> toks_ok 0 (lz_tok z) \<and> lz_chains_ok z"

lemma lz_insert_fields [simp]: "lz_tok (lz_insert inp z p) = lz_tok z" "lz_pos (lz_insert inp z p) = lz_pos z"
  by (simp_all add: lz_insert_def Let_def)

lemma lz_inserts_ok:
  "(\<forall>h. lz_head z h < int (pos + n)) \<Longrightarrow> (\<forall>j. lz_chain z j < int (pos + n)) \<Longrightarrow>
    let z1 = fold (\<lambda>k z. lz_insert inp z (pos + k)) [0..<n] z in
    lz_tok z1 = lz_tok z \<and> (\<forall>h. lz_head z1 h < int (pos + n)) \<and> (\<forall>j. lz_chain z1 j < int (pos + n))"
proof -
  assume a: "\<forall>h. lz_head z h < int (pos + n)" "\<forall>j. lz_chain z j < int (pos + n)"
  have "m \<le> n \<Longrightarrow> let z1 = fold (\<lambda>k z. lz_insert inp z (pos + k)) [0..<m] z in
    lz_tok z1 = lz_tok z \<and> (\<forall>h. lz_head z1 h < int (pos + n)) \<and> (\<forall>j. lz_chain z1 j < int (pos + n))" for m
  proof (induction m)
    case (Suc m)
    then show ?case by (simp add: Let_def) (auto simp: lz_insert_def Let_def)
  qed (use a in simp)
  then show ?thesis by blast
qed

lemma lz_advance_ok:
  assumes "lz_chains_ok z"
  shows "lz_tok (lz_advance inp l z) = lz_tok z \<and> lz_chains_ok (lz_advance inp l z)"
proof -
  have "\<forall>h. lz_head z h < int (lz_pos z + l)" "\<forall>j. lz_chain z j < int (lz_pos z + l)"
    using assms by (auto simp: lz_chains_ok_def intro: less_le_trans)
  from lz_inserts_ok [OF this, of inp] show ?thesis
    by (simp add: lz_advance_def Let_def lz_chains_ok_def)
qed

lemma push_tok_fields [simp]:
  "lz_tok (push_tok z t) = lz_tok z @ [t]" "lz_chains_ok (push_tok z t) = lz_chains_ok z"
  by (simp_all add: push_tok_def lz_chains_ok_def)

text \<open>Pushing a token that describes the coming bytes and advancing over them keeps the invariant.\<close>

lemma lz_emit:
  assumes inv: "lz_inv inp z" and t: "tok_ok (lz_pos z) t" and e: "lz_expand1 t (take (lz_pos z) inp) = take (lz_pos z + tok_size t) inp"
    and l: "lz_pos z + tok_size t \<le> length inp"
  shows "lz_inv inp (lz_advance inp (tok_size t) (push_tok z t))"
proof -
  have c: "lz_chains_ok (push_tok z t)" using inv by (simp add: lz_inv_def)
  have s: "sum_list (map tok_size (lz_tok z)) = lz_pos z"
    using length_lz_expand [of "lz_tok z" "[]"] inv by (simp add: lz_inv_def)
  have "lz_expand (lz_tok z @ [t]) [] = take (lz_pos z + tok_size t) inp"
    using inv e by (simp add: lz_expand_append) (simp add: lz_expand_def lz_inv_def)
  then show ?thesis
    using lz_advance_ok [OF c, of inp "tok_size t"] inv t l s by (simp add: lz_inv_def toks_ok_append)
qed

lemma lz_emit_literal:
  "lz_inv inp z \<Longrightarrow> lz_pos z < length inp \<Longrightarrow> lz_inv inp (lz_advance inp 1 (push_tok z (Literal (inp ! lz_pos z))))"
  using lz_emit [of inp z "Literal (inp ! lz_pos z)"] by (simp add: take_Suc_conv_app_nth)

lemma lz_emit_match:
  assumes "lz_inv inp z" and "match_ok inp (lz_pos z) l d" and "3 \<le> l"
  shows "lz_inv inp (lz_advance inp l (push_tok z (Match (l mod 65536) (d mod 65536))))"
proof -
  have m: "l \<le> 258" "l \<le> length inp - lz_pos z" "1 \<le> d" "d \<le> 32768" "d \<le> lz_pos z"
    "\<forall>k < l. inp ! (lz_pos z - d + k) = inp ! (lz_pos z + k)" using assms(2,3) by (auto simp: match_ok_def)
  have p: "lz_pos z + l \<le> length inp" using m(2) assms(1) by (auto simp: lz_inv_def)
  have "l mod 65536 = l" "d mod 65536 = d" using m by simp_all
  then show ?thesis using lz_emit [OF assms(1), of "Match l d"] m assms(3) p lz_copy_match [OF p m(3,5,6)] by simp
qed

lemma lz_step_inv:
  assumes inv: "lz_inv inp z" and p: "lz_pos z < length inp"
  shows "lz_inv inp (lz_step inp z)"
proof (cases "length inp - lz_pos z < 3")
  case True
  have "lz_step inp z = (push_tok z (Literal (inp ! lz_pos z)))\<lparr>lz_pos := lz_pos z + 1\<rparr>" using True by (simp add: lz_step_def Let_def)
  also have "\<dots> = lz_advance inp 1 (push_tok z (Literal (inp ! lz_pos z)))"
    using True p by (simp add: lz_advance_def lz_insert_def Let_def)
  finally show ?thesis using lz_emit_literal [OF inv p] by simp
next
  case False
  obtain l1 d1 where m1: "longest inp (lz_head z) (lz_chain z) (lz_pos z) = (l1, d1)" by fastforce
  obtain l2 d2 where m2: "(if l1 \<ge> 3 \<and> lz_pos z + 1 < length inp - 2 then longest inp (lz_head z) (lz_chain z) (lz_pos z + 1) else (0, 0)) = (l2, d2)"
    by fastforce
  have c: "\<forall>h. lz_head z h < int (lz_pos z)" "\<forall>j. lz_chain z j < int (lz_pos z)"
    using inv by (auto simp: lz_inv_def lz_chains_ok_def)
  then have c1: "\<forall>h. lz_head z h < int (lz_pos z + 1)" "\<forall>j. lz_chain z j < int (lz_pos z + 1)" by (auto intro: less_trans)
  have ok1: "match_ok inp (lz_pos z) l1 d1" by (rule longest_ok [OF c m1])
  have ok2: "match_ok inp (lz_pos z + 1) l2 d2"
    using m2 longest_ok [OF c1] by (auto simp: match_ok_def split: if_splits)
  have st: "lz_step inp z = (if l1 \<ge> 3 \<and> l1 \<ge> l2 then lz_advance inp l1 (push_tok z (Match (l1 mod 65536) (d1 mod 65536)))
           else if l2 \<ge> 3 then
             lz_advance inp l2 (push_tok (lz_advance inp 1 (push_tok z (Literal (inp ! lz_pos z)))) (Match (l2 mod 65536) (d2 mod 65536)))
           else lz_advance inp 1 (push_tok z (Literal (inp ! lz_pos z))))"
    using False m1 m2 by (simp add: lz_step_def Let_def)
  have lit: "lz_inv inp (lz_advance inp 1 (push_tok z (Literal (inp ! lz_pos z))))" by (rule lz_emit_literal [OF inv p])
  show ?thesis unfolding st using lz_emit_match [OF inv ok1] lz_emit_match [OF lit, of l2 d2] ok2 lit by simp
qed

lemma lz_loop_inv: "lz_inv inp z \<Longrightarrow> lz_inv inp (lz_loop inp z) \<and> lz_pos (lz_loop inp z) = length inp"
proof (induction inp z rule: lz_loop.induct)
  case (1 inp z)
  show ?case
  proof (cases "lz_pos z < length inp")
    case True
    then show ?thesis using 1(1) [OF True lz_step_inv [OF 1(2) True]] by (subst (1 2) lz_loop.simps) simp
  next
    case False
    then show ?thesis using 1(2) by (subst (1 2) lz_loop.simps) (simp add: lz_inv_def)
  qed
qed

lemma lz_parse_ok: "lz_expand (wubuzip_lz_parse inp) [] = inp \<and> toks_ok 0 (wubuzip_lz_parse inp)"
proof -
  have "lz_inv inp lz_init" by (simp add: lz_inv_def lz_init_def lz_expand_def lz_chains_ok_def)
  from lz_loop_inv [OF this] show ?thesis by (simp add: wubuzip_lz_parse_def lz_inv_def)
qed

text \<open>C18. The LZ77 parse of any input expands back to the input, and every token of it is one that
  DEFLATE can carry: lengths from 3 to 258, distances from 1 to 32768 and within the output so far.
  The hash chains and the lazy match only choose tokens, they cannot make one wrong.\<close>

theorem lz_parse_roundtrip: "lz_expand (wubuzip_lz_parse inp) [] = inp \<and> toks_ok 0 (wubuzip_lz_parse inp)"
  by (rule lz_parse_ok)

end
