(* ===== verification/WubuFlate_Correct.thy ===== *)
theory WubuFlate_Correct
  imports WubuHuffman_Correct WubuLz77_Correct
begin

text \<open>
  The codec: symbol classes, the bits of a token and of a block, the decoder run on them, and the
  round trip of whole streams; then dynamic blocks, whose codes are empty, and what the decoder does
  past the end of its input.
\<close>

section \<open>Symbol classes\<close>

text \<open>Consecutive classes leave no gap.\<close>

lemma class_exists:
  assumes "base ! 0 \<le> x" and "\<forall>k < m. base ! Suc k = base ! k + 2 ^ (extra ! k)" and "x < base ! m + 2 ^ (extra ! m)"
  shows "\<exists>k \<le> m. in_class base extra x k"
  using assms(2,3)
proof (induction m)
  case 0
  then show ?case using assms(1) by (auto simp: in_class_def)
next
  case (Suc m)
  show ?case
  proof (cases "x < base ! m + 2 ^ (extra ! m)")
    case True
    have "\<forall>k < m. base ! Suc k = base ! k + 2 ^ (extra ! k)" using Suc.prems(1) by simp
    from Suc.IH [OF this True] show ?thesis using le_SucI by blast
  next
    case False
    then have "base ! Suc m \<le> x" using Suc.prems(1) by simp
    then show ?thesis using Suc.prems(2) by (intro exI [of _ "Suc m"]) (auto simp: in_class_def)
  qed
qed

lemma len_classes: "\<forall>k < 27. len_base ! Suc k = len_base ! k + 2 ^ (len_extra ! k)"
proof -
  have "list_all (\<lambda>k. len_base ! Suc k = len_base ! k + 2 ^ (len_extra ! k)) [0..<27]"
    by (simp add: len_base_def len_extra_def upt_rec)
  then show ?thesis by (simp add: list_all_iff)
qed

lemma dist_classes: "\<forall>k < 29. dist_base ! Suc k = dist_base ! k + 2 ^ (dist_extra ! k)"
proof -
  have "list_all (\<lambda>k. dist_base ! Suc k = dist_base ! k + 2 ^ (dist_extra ! k)) [0..<29]"
    by (simp add: dist_base_def dist_extra_def upt_rec)
  then show ?thesis by (simp add: list_all_iff)
qed

lemma find_exists: "\<exists>k < n. P k \<Longrightarrow> \<exists>k. find P [0..<n] = Some k \<and> k < n \<and> P k"
  by (cases "find P [0..<n]") (auto simp: find_None_iff find_Some_iff)

lemma find_append_Some: "find P xs = Some y \<Longrightarrow> find P (xs @ ys) = Some y"
  by (induction xs) (auto split: if_splits)

lemma len_sym_class:
  assumes "3 \<le> l" and "l \<le> 258"
  shows "len_sym l \<le> 27 \<and> in_class len_base len_extra l (len_sym l)"
proof -
  have "len_base ! 0 \<le> l" "l < len_base ! 27 + 2 ^ (len_extra ! 27)" using assms by (simp_all add: len_base_def len_extra_def)
  then obtain k where k: "k \<le> 27" "in_class len_base len_extra l k" using class_exists [OF _ len_classes] by blast
  obtain j where j: "find (in_class len_base len_extra l) [0..<28] = Some j" "j < 28" "in_class len_base len_extra l j"
  proof -
    have "\<exists>k < 28. in_class len_base len_extra l k" using k by (intro exI [of _ k]) simp
    from find_exists [OF this] show thesis using that by blast
  qed
  have "[0..<29] = [0..<28] @ [28]" by (simp add: upt_rec)
  then have "find (in_class len_base len_extra l) [0..<29] = Some j" using find_append_Some [OF j(1)] by simp
  then show ?thesis using j by (simp add: len_sym_def)
qed

lemma dist_sym_class:
  assumes "1 \<le> d" and "d \<le> 32768"
  shows "dist_sym d < 30 \<and> in_class dist_base dist_extra d (dist_sym d)"
proof -
  have "dist_base ! 0 \<le> d" "d < dist_base ! 29 + 2 ^ (dist_extra ! 29)" using assms by (simp_all add: dist_base_def dist_extra_def)
  then obtain k where k: "k \<le> 29" "in_class dist_base dist_extra d k" using class_exists [OF _ dist_classes] by blast
  obtain j where "find (in_class dist_base dist_extra d) [0..<30] = Some j" "j < 30" "in_class dist_base dist_extra d j"
  proof -
    have "\<exists>k < 30. in_class dist_base dist_extra d k" using k by (intro exI [of _ k]) simp
    from find_exists [OF this] show thesis using that by blast
  qed
  then show ?thesis by (simp add: dist_sym_def)
qed

lemma len_extra_small: "k < 29 \<Longrightarrow> len_extra ! k \<le> 5"
proof -
  have "list_all (\<lambda>k. len_extra ! k \<le> 5) [0..<29]" by (simp add: len_extra_def upt_rec)
  then show "k < 29 \<Longrightarrow> len_extra ! k \<le> 5" by (simp add: list_all_iff)
qed

lemma dist_extra_small: "k < 30 \<Longrightarrow> dist_extra ! k \<le> 13"
proof -
  have "list_all (\<lambda>k. dist_extra ! k \<le> 13) [0..<30]" by (simp add: dist_extra_def upt_rec)
  then show "k < 30 \<Longrightarrow> dist_extra ! k \<le> 13" by (simp add: list_all_iff)
qed

section \<open>The bits of a token\<close>

lemma put_code_bits:
  assumes "bw_ok w" and "n \<le> 32"
  shows "bw_ok (put_code w v n) \<and> bw_bits (put_code w v n) = bw_bits w @ code_bits v n"
  using assms
proof (induction n arbitrary: w)
  case 0
  then show ?case by (simp add: put_code_def)
next
  case (Suc n)
  let ?x = "drop_bit n (of_nat v) AND 1 :: u32"
  have x: "word_bits 1 ?x = [bit v n]"
    using Suc.prems(2) by (simp add: word_bits_def bit_simps)
  have s: "put_code w v (Suc n) = put_code (bitw_put w ?x 1) v n" by (simp add: put_code_def)
  have w: "bw_ok (bitw_put w ?x 1)" "bw_bits (bitw_put w ?x 1) = bw_bits w @ [bit v n]"
    using bitw_put_spec [OF Suc.prems(1), of 1 ?x] x by simp_all
  show ?case unfolding s using Suc.IH [OF w(1)] Suc.prems(2) w(2) by (simp add: code_bits_Suc)
qed

definition token_bits :: "nat list \<Rightarrow> nat list \<Rightarrow> nat list \<Rightarrow> nat list \<Rightarrow> lz_tok \<Rightarrow> bool list" where
  "token_bits lc ll dc dl t =
     (case t of
        Literal c \<Rightarrow> code_bits (lc ! unat c) (ll ! unat c)
      | Match len dist \<Rightarrow>
          code_bits (lc ! (257 + len_sym len)) (ll ! (257 + len_sym len))
          @ word_bits (len_extra ! len_sym len) (of_nat (len - len_base ! len_sym len) :: u32)
          @ code_bits (dc ! dist_sym dist) (dl ! dist_sym dist)
          @ word_bits (dist_extra ! dist_sym dist) (of_nat (dist - dist_base ! dist_sym dist) :: u32))"

lemma put_extra_bits:
  assumes "bw_ok w" and "n \<le> 25"
  shows "bw_ok (if n \<noteq> 0 then bitw_put w v n else w) \<and>
    bw_bits (if n \<noteq> 0 then bitw_put w v n else w) = bw_bits w @ word_bits n v"
  using bitw_put_spec [OF assms, of v] assms(1) by (simp add: word_bits_def)

lemma emit_token_bits:
  assumes "bw_ok w" and "tok_ok m t" and "\<forall>i < 286. ll ! i \<le> 15" and "\<forall>i < 30. dl ! i \<le> 15"
  shows "bw_ok (emit_token lc ll dc dl t w) \<and> bw_bits (emit_token lc ll dc dl t w) = bw_bits w @ token_bits lc ll dc dl t"
proof (cases t)
  case (Literal c)
  have "unat c < 256" using unsigned_less [of c, where 'a = nat] by simp
  then have "ll ! unat c \<le> 32" using assms(3) [rule_format, of "unat c"] by simp
  then show ?thesis using put_code_bits [OF assms(1)] Literal by (simp add: emit_token_def token_bits_def)
next
  case (Match len dist)
  then have m: "3 \<le> len" "len \<le> 258" "1 \<le> dist" "dist \<le> 32768" using assms(2) by auto
  define ls where "ls = len_sym len"
  define ds where "ds = dist_sym dist"
  have ls: "ls < 29" using len_sym_class [OF m(1,2)] by (simp add: ls_def)
  have ds: "ds < 30" using dist_sym_class [OF m(3,4)] by (simp add: ds_def)
  have lb: "ll ! (257 + ls) \<le> 32" "dl ! ds \<le> 32" using assms(3) [rule_format, of "257 + ls"] assms(4) [rule_format, of ds] ls ds by auto
  have eb: "len_extra ! ls \<le> 25" "dist_extra ! ds \<le> 25" using len_extra_small [OF ls] dist_extra_small [OF ds] by auto
  define w1 where "w1 = put_code w (lc ! (257 + ls)) (ll ! (257 + ls))"
  define w2 where "w2 = (if len_extra ! ls \<noteq> 0 then bitw_put w1 (of_nat (len - len_base ! ls)) (len_extra ! ls) else w1)"
  define w3 where "w3 = put_code w2 (dc ! ds) (dl ! ds)"
  define w4 where "w4 = (if dist_extra ! ds \<noteq> 0 then bitw_put w3 (of_nat (dist - dist_base ! ds)) (dist_extra ! ds) else w3)"
  have 1: "bw_ok w1 \<and> bw_bits w1 = bw_bits w @ code_bits (lc ! (257 + ls)) (ll ! (257 + ls))"
    unfolding w1_def by (rule put_code_bits [OF assms(1) lb(1)])
  have 2: "bw_ok w2 \<and> bw_bits w2 = bw_bits w1 @ word_bits (len_extra ! ls) (of_nat (len - len_base ! ls) :: u32)"
    unfolding w2_def by (rule put_extra_bits [OF _ eb(1)]) (use 1 in simp)
  have 3: "bw_ok w3 \<and> bw_bits w3 = bw_bits w2 @ code_bits (dc ! ds) (dl ! ds)"
    unfolding w3_def by (rule put_code_bits [OF _ lb(2)]) (use 2 in simp)
  have 4: "bw_ok w4 \<and> bw_bits w4 = bw_bits w3 @ word_bits (dist_extra ! ds) (of_nat (dist - dist_base ! ds) :: u32)"
    unfolding w4_def by (rule put_extra_bits [OF _ eb(2)]) (use 3 in simp)
  have "emit_token lc ll dc dl t w = w4"
    unfolding w4_def w3_def w2_def w1_def ls_def ds_def Match emit_token_def lz_tok.case Let_def ..
  then show ?thesis using 1 2 3 4 by (simp add: Match token_bits_def ls_def ds_def)
qed

section \<open>A compressed block comes back\<close>

lemma block_copy_lz_copy: "block_copy n d out = lz_copy n d out"
  by (induction n d out rule: block_copy.induct) simp_all

text \<open>A pair of codes whose tables decode every symbol that a token can use.\<close>

definition codec_tables :: "huff \<Rightarrow> nat list \<Rightarrow> nat \<Rightarrow> huff \<Rightarrow> nat list \<Rightarrow> nat \<Rightarrow> bool" where
  "codec_tables lit ll nl dist dl nd \<longleftrightarrow> huff_table lit ll nl \<and> huff_table dist dl nd \<and> 286 \<le> nl \<and> 30 \<le> nd \<and>
     (\<forall>i < 286. ll ! i \<noteq> 0) \<and> (\<forall>i < 30. dl ! i \<noteq> 0)"

lemma extra_get:
  assumes "br_ok b" and "br_bits b = word_bits n (of_nat x :: u32) @ rest" and "x < 2 ^ n" and "n \<le> 13"
  shows "\<exists>b1 v. bit_get b n = (v, b1) \<and> unat v = x \<and> br_ok b1 \<and> br_bits b1 = rest \<and> br_data b1 = br_data b"
proof -
  have "x < 2 ^ 13" using assms(3,4) by (meson less_le_trans one_le_numeral power_increasing)
  then have x: "unat (of_nat x :: u32) = x" by (simp add: unsigned_of_nat take_bit_nat_eq_self)
  have "\<not> bit (of_nat x :: u32) j" if "j \<ge> n" for j
  proof -
    have "x < 2 ^ j" using assms(3) that by (meson less_le_trans one_le_numeral power_increasing)
    then have "\<not> bit x j" by (simp add: bit_iff_odd)
    then show ?thesis by (simp add: bit_simps)
  qed
  with bit_get_enough [OF assms(1) _ assms(2)] assms(4) x show ?thesis by auto
qed

lemma in_class_extra: "in_class base extra x k \<Longrightarrow> x - base ! k < 2 ^ (extra ! k) \<and> base ! k + (x - base ! k) = x"
  unfolding in_class_def using zero_less_power [of "2 :: nat" "extra ! k"] by linarith

lemma block_decode_token:
  assumes tab: "codec_tables lit ll nl dist dl nd" and "tok_ok (length out) t" and "br_ok b"
    and "br_bits b = token_bits (build_codes ll nl) ll (build_codes dl nd) dl t @ rest"
  shows "\<exists>b1. block_decode (Suc fuel) lit dist b out = block_decode fuel lit dist b1 (lz_expand1 t out)
    \<and> br_ok b1 \<and> br_bits b1 = rest \<and> br_data b1 = br_data b"
proof (cases t)
  case (Literal c)
  have c: "unat c < 256" using unsigned_less [of c, where 'a = nat] by simp
  have "br_bits b = code_bits (build_codes ll nl ! unat c) (ll ! unat c) @ rest" using assms(4) Literal by (simp add: token_bits_def)
  then obtain b1 where "huff_decode b lit = (Some (unat c), b1)" "br_ok b1" "br_bits b1 = rest" "br_data b1 = br_data b"
    using huff_decode_code [of lit ll nl "unat c" b rest] tab c assms(3) by (auto simp: codec_tables_def)
  then show ?thesis using Literal c by (intro exI [of _ b1]) simp
next
  case (Match l d)
  then have m: "3 \<le> l" "l \<le> 258" "1 \<le> d" "d \<le> 32768" "d \<le> length out" using assms(2) by auto
  define ls where "ls = len_sym l"
  define ds where "ds = dist_sym d"
  have ls: "ls < 29" "in_class len_base len_extra l ls" using len_sym_class [OF m(1,2)] by (simp_all add: ls_def)
  have ds: "ds < 30" "in_class dist_base dist_extra d ds" using dist_sym_class [OF m(3,4)] by (simp_all add: ds_def)
  note lx = in_class_extra [OF ls(2)] and dx = in_class_extra [OF ds(2)]
  have b0: "br_bits b = code_bits (build_codes ll nl ! (257 + ls)) (ll ! (257 + ls))
      @ (word_bits (len_extra ! ls) (of_nat (l - len_base ! ls) :: u32)
      @ (code_bits (build_codes dl nd ! ds) (dl ! ds) @ (word_bits (dist_extra ! ds) (of_nat (d - dist_base ! ds) :: u32) @ rest)))"
    using assms(4) Match by (simp add: token_bits_def ls_def ds_def)
  have t1: "huff_table lit ll nl" "257 + ls < nl" "ll ! (257 + ls) \<noteq> 0"
    using tab ls(1) by (auto simp: codec_tables_def)
  have t2: "huff_table dist dl nd" "ds < nd" "dl ! ds \<noteq> 0" using tab ds(1) by (auto simp: codec_tables_def)
  obtain b1 where h1: "huff_decode b lit = (Some (257 + ls), b1)" "br_ok b1" "br_data b1 = br_data b"
    and r1: "br_bits b1 = word_bits (len_extra ! ls) (of_nat (l - len_base ! ls) :: u32)
      @ (code_bits (build_codes dl nd ! ds) (dl ! ds) @ (word_bits (dist_extra ! ds) (of_nat (d - dist_base ! ds) :: u32) @ rest))"
    using huff_decode_code [OF t1 assms(3) b0] by blast
  have e13: "len_extra ! ls \<le> 13" using len_extra_small [OF ls(1)] by simp
  obtain b2 x where h2: "bit_get b1 (len_extra ! ls) = (x, b2)" "unat x = l - len_base ! ls" "br_ok b2" "br_data b2 = br_data b1"
    and r2: "br_bits b2 = code_bits (build_codes dl nd ! ds) (dl ! ds) @ (word_bits (dist_extra ! ds) (of_nat (d - dist_base ! ds) :: u32) @ rest)"
    using extra_get [OF h1(2) r1 conjunct1 [OF lx] e13] by blast
  obtain b3 where h3: "huff_decode b2 dist = (Some ds, b3)" "br_ok b3" "br_data b3 = br_data b2"
    and r3: "br_bits b3 = word_bits (dist_extra ! ds) (of_nat (d - dist_base ! ds) :: u32) @ rest"
    using huff_decode_code [OF t2 h2(3) r2] by blast
  obtain b4 y where h4: "bit_get b3 (dist_extra ! ds) = (y, b4)" "unat y = d - dist_base ! ds" "br_ok b4" "br_data b4 = br_data b3" "br_bits b4 = rest"
    using extra_get [OF h3(2) r3 conjunct1 [OF dx] dist_extra_small [OF ds(1)]] by blast
  have "block_decode (Suc fuel) lit dist b out = block_decode fuel lit dist b4 (block_copy l d out)"
    using h1 h2 h3 h4 ls(1) ds(1) lx dx m(5) by simp
  then show ?thesis using h1 h2 h3 h4 Match by (auto simp: block_copy_lz_copy)
qed

lemma block_decode_tokens:
  assumes tab: "codec_tables lit ll nl dist dl nd" 
  shows "toks_ok (length out) ts \<Longrightarrow> br_ok b \<Longrightarrow> length ts < fuel \<Longrightarrow>
    br_bits b = concat (map (token_bits (build_codes ll nl) ll (build_codes dl nd) dl) ts)
      @ code_bits (build_codes ll nl ! 256) (ll ! 256) @ rest \<Longrightarrow>
    \<exists>b1. block_decode fuel lit dist b out = Some (0, b1, lz_expand ts out) \<and> br_ok b1 \<and> br_bits b1 = rest \<and> br_data b1 = br_data b"
proof (induction ts arbitrary: out b fuel)
  case Nil
  then obtain g where g: "fuel = Suc g" by (cases fuel) auto
  obtain b1 where "huff_decode b lit = (Some 256, b1)" "br_ok b1" "br_bits b1 = rest" "br_data b1 = br_data b"
    using huff_decode_code [of lit ll nl 256 b rest] tab Nil by (auto simp: codec_tables_def)
  then show ?case by (simp add: g lz_expand_def)
next
  case (Cons t ts)
  then obtain g where g: "fuel = Suc g" by (cases fuel) auto
  have bits: "br_bits b = token_bits (build_codes ll nl) ll (build_codes dl nd) dl t @
     (concat (map (token_bits (build_codes ll nl) ll (build_codes dl nd) dl) ts) @ code_bits (build_codes ll nl ! 256) (ll ! 256) @ rest)"
    using Cons.prems(4) by simp
  have t: "tok_ok (length out) t" using Cons.prems(1) by simp
  from block_decode_token [OF tab t Cons.prems(2) bits, of g] obtain b1 where
    b1: "block_decode (Suc g) lit dist b out = block_decode g lit dist b1 (lz_expand1 t out)" "br_ok b1"
      "br_bits b1 = concat (map (token_bits (build_codes ll nl) ll (build_codes dl nd) dl) ts) @ code_bits (build_codes ll nl ! 256) (ll ! 256) @ rest"
      "br_data b1 = br_data b" by blast
  have "toks_ok (length (lz_expand1 t out)) ts" using Cons.prems(1) by simp
  from Cons.IH [OF this b1(2) _ b1(3), of g] Cons.prems(3) g b1(1,4) show ?case by (simp add: lz_expand_def)
qed

lemma emit_tokens_bits:
  assumes "\<forall>i < 286. ll ! i \<le> 15" and "\<forall>i < 30. dl ! i \<le> 15"
  shows "toks_ok m ts \<Longrightarrow> bw_ok w \<Longrightarrow> bw_ok (emit_tokens lc ll dc dl ts w) \<and>
    bw_bits (emit_tokens lc ll dc dl ts w) = bw_bits w @ concat (map (token_bits lc ll dc dl) ts) @ code_bits (lc ! 256) (ll ! 256)"
proof (induction ts arbitrary: w m)
  case Nil
  have "ll ! 256 \<le> 32" using assms(1) [rule_format, of 256] by simp
  then show ?case using put_code_bits [OF Nil(2)] by (simp add: emit_tokens_def)
next
  case (Cons t ts)
  have "bw_ok (emit_token lc ll dc dl t w) \<and> bw_bits (emit_token lc ll dc dl t w) = bw_bits w @ token_bits lc ll dc dl t"
    using Cons.prems by (intro emit_token_bits [OF _ _ assms]) auto
  then show ?case using Cons.IH [of "m + tok_size t" "emit_token lc ll dc dl t w"] Cons.prems(1) by (simp add: emit_tokens_def)
qed

section \<open>Blocks\<close>

lemma fixed_codec_tables:
  "\<exists>lit dist. huff_build huff_new fixed_litlen 288 = Some lit \<and> huff_build huff_new fixed_dist 32 = Some dist \<and>
     codec_tables lit fixed_litlen 288 dist fixed_dist 32"
proof -
  have "288 \<le> length (hf_sym huff_new)" by (simp add: huff_new_def)
  from fixed_tables [OF this] obtain lit dist where
    "huff_build huff_new fixed_litlen 288 = Some lit" "huff_table lit fixed_litlen 288"
    "huff_build huff_new fixed_dist 32 = Some dist" "huff_table dist fixed_dist 32" by blast
  moreover have "fixed_litlen ! i \<noteq> 0" if "i < 286" for i using fixed_litlen_values [of i] that by auto
  moreover have "fixed_dist ! i \<noteq> 0" if "i < 30" for i using fixed_dist_values [of i] that by simp
  ultimately show ?thesis by (auto simp: codec_tables_def)
qed

lemma fixed_small: "\<forall>i < 286. fixed_litlen ! i \<le> 15" "\<forall>i < 30. fixed_dist ! i \<le> 15"
proof -
  have "fixed_litlen ! i \<le> 15" if "i < 286" for i using fixed_litlen_values [of i] that by auto
  then show "\<forall>i < 286. fixed_litlen ! i \<le> 15" by blast
  show "\<forall>i < 30. fixed_dist ! i \<le> 15" using fixed_dist_values by simp
qed

definition fixed_bits :: "lz_tok list \<Rightarrow> bool list" where
  "fixed_bits ts = concat (map (token_bits (build_codes fixed_litlen 288) fixed_litlen (build_codes fixed_dist 32) fixed_dist) ts)
     @ code_bits (build_codes fixed_litlen 288 ! 256) (fixed_litlen ! 256)"

lemma emit_fixed_bits:
  "toks_ok m ts \<Longrightarrow> bw_ok w \<Longrightarrow> bw_ok (emit_fixed w ts) \<and> bw_bits (emit_fixed w ts) = bw_bits w @ fixed_bits ts"
  using emit_tokens_bits [OF fixed_small] by (simp add: emit_fixed_def fixed_code_init_def fixed_bits_def)

lemma inflate_fixed_ok:
  assumes "toks_ok (length out) ts" and "br_ok b" and "length ts < fuel" and "br_bits b = fixed_bits ts @ rest"
  shows "\<exists>b1. inflate_fixed fuel b out = Some (0, b1, lz_expand ts out) \<and> br_ok b1 \<and> br_bits b1 = rest"
proof -
  obtain lit dist where t: "huff_build huff_new fixed_litlen 288 = Some lit" "huff_build huff_new fixed_dist 32 = Some dist"
     "codec_tables lit fixed_litlen 288 dist fixed_dist 32" using fixed_codec_tables by blast
  have "br_bits b = concat (map (token_bits (build_codes fixed_litlen 288) fixed_litlen (build_codes fixed_dist 32) fixed_dist) ts)
      @ code_bits (build_codes fixed_litlen 288 ! 256) (fixed_litlen ! 256) @ rest" using assms(4) by (simp add: fixed_bits_def)
  from block_decode_tokens [OF t(3) assms(1-3) this] show ?thesis by (auto simp: inflate_fixed_def t(1,2))
qed

text \<open>Stored blocks: the writer's padding is what the reader throws away.\<close>

lemma byte_bits_inj: "byte_bits x = byte_bits y \<Longrightarrow> x = y"
  by (rule bit_word_eqI) (simp add: byte_bits_def)

lemma bytes_prefix:
  "concat (map byte_bits xs) = concat (map byte_bits us) @ rest \<Longrightarrow>
    \<exists>ys. xs = us @ ys \<and> rest = concat (map byte_bits ys)"
proof (induction us arbitrary: xs)
  case (Cons u us)
  then obtain x xs1 where xs: "xs = x # xs1" by (cases xs) (auto dest: arg_cong [of _ _ length])
  have "byte_bits x = byte_bits u" "concat (map byte_bits xs1) = concat (map byte_bits us) @ rest"
    using Cons.prems unfolding xs by (simp_all add: append_eq_append_conv)
  then show ?case using Cons.IH byte_bits_inj xs by auto
qed simp

lemma emit_bytes_spec:
  "bw_ok w \<Longrightarrow> bw_bitcnt w = 0 \<Longrightarrow> \<exists>w1. emit_bytes cs w = Some w1 \<and> bw_ok w1 \<and> bw_bits w1 = bw_bits w @ concat (map byte_bits cs)"
proof (induction cs arbitrary: w)
  case (Cons c cs)
  from bitw_byte_aligned [OF Cons.prems, of c] obtain w1 where
    w1: "bitw_byte w c = Some w1" "bw_ok w1" "bw_bitcnt w1 = 0" "bw_p w1 = bw_p w @ [c]" by blast
  from Cons.IH [OF w1(2,3)] obtain w2 where
    w2: "emit_bytes cs w1 = Some w2" "bw_ok w2" "bw_bits w2 = bw_bits w1 @ concat (map byte_bits cs)" by blast
  have "bw_bits w1 = bw_bits w @ byte_bits c"
    using w1(3,4) Cons.prems(2) by (simp add: bw_bits_aligned)
  then show ?case using w1 w2 by simp
qed simp

definition stored_bytes :: "u8 list \<Rightarrow> u8 list" where
  "stored_bytes blk = (let n = (of_nat (length blk) :: u32) in
     [ucast (n AND 0xFF), ucast (drop_bit 8 n AND 0xFF), ucast (NOT n AND 0xFF), ucast (drop_bit 8 (NOT n) AND 0xFF)] @ blk)"

lemma length_stored_bytes [simp]: "length (stored_bytes blk) = length blk + 4"
  by (simp add: stored_bytes_def Let_def)

lemma emit_stored_spec:
  assumes "bw_ok w"
  shows "\<exists>w1. emit_stored w blk = Some w1 \<and> bw_ok w1 \<and>
    bw_bits w1 = bw_bits w @ pad_bits (bw_bitcnt w) @ concat (map byte_bits (stored_bytes blk))"
proof -
  obtain w0 where w0: "bitw_align w = Some w0" "bw_ok w0" "bw_bitcnt w0 = 0" "bw_bits w0 = bw_bits w @ pad_bits (bw_bitcnt w)"
    using bitw_align_spec [OF assms] by blast
  obtain w1 where "emit_bytes (stored_bytes blk) w0 = Some w1" "bw_ok w1" "bw_bits w1 = bw_bits w0 @ concat (map byte_bits (stored_bytes blk))"
    using emit_bytes_spec [OF w0(2,3)] by blast
  then show ?thesis using w0 by (simp add: emit_stored_def stored_bytes_def Let_def del: emit_bytes.simps)
qed

lemma stored_length_field:
  assumes "length blk < 65536" and "data = a @ stored_bytes blk @ ys"
  shows "unat (rd16 data (length a)) = length blk"
proof -
  let ?n = "of_nat (length blk) :: u32" and ?m = "of_nat (length blk) :: u16"
  have n: "bit ?n k \<longleftrightarrow> bit (length blk) k" if "k < 16" for k using that by (simp add: bit_simps)
  have m: "bit ?m k \<longleftrightarrow> bit (length blk) k" if "k < 16" for k using that by (simp add: bit_simps)
  have 1: "ucast (?n AND 0xFF) = (ucast (?m AND 0xFF) :: u8)"
    by (rule bit_word_eqI) (use n m in \<open>auto simp: bit_ucast_iff bit_and_iff low_byte_bit\<close>)
  have 2: "ucast (drop_bit 8 ?n AND 0xFF) = (ucast (drop_bit 8 ?m AND 0xFF) :: u8)"
    by (rule bit_word_eqI) (use n m in \<open>auto simp: bit_ucast_iff bit_and_iff low_byte_bit bit_drop_bit_eq\<close>)
  have "data = a @ putle16 ?m @ (drop 2 (stored_bytes blk) @ ys)"
    using assms(2) 1 2 by (simp add: stored_bytes_def putle16_def Let_def)
  then have "rd16 data (length a) = ?m" by simp
  moreover have "unat ?m = length blk" using assms(1) by (simp add: unsigned_of_nat take_bit_nat_eq_self)
  ultimately show ?thesis by simp
qed

lemma length_br_bits: "length (br_bits b) = br_bitcnt b + 8 * (length (br_data b) - br_bytepos b)"
  by (simp add: br_bits_def length_concat comp_def sum_list_triv)

lemma length_bytes_bits: "length (concat (map byte_bits cs)) = 8 * length cs"
  by (simp add: length_concat comp_def sum_list_triv)

lemma inflate_stored_ok:
  assumes "br_ok b" and "br_bits b = pad @ concat (map byte_bits (stored_bytes blk)) @ rest"
    and "length pad < 8" and "8 dvd length rest" and "length blk < 65536"
  shows "\<exists>b1. inflate_stored b out = (0, b1, out @ blk) \<and> br_ok b1 \<and> br_bits b1 = rest"
proof -
  obtain k where k: "length rest = 8 * k" using assms(4) by (auto elim: dvdE)
  have "length (br_bits b) = length pad + 8 * (length blk + 4 + k)"
    unfolding assms(2) length_append length_bytes_bits k by simp
  then have "length (br_bits b) mod 8 = length pad" using assms(3) by (simp only: mod_mult_self2 mod_less)
  moreover have "length (br_bits b) mod 8 = br_bitcnt b" using assms(1) by (simp add: length_br_bits br_ok_def)
  ultimately have bc: "br_bitcnt b = length pad" by simp
  have "concat (map byte_bits (drop (br_bytepos b) (br_data b))) = concat (map byte_bits (stored_bytes blk)) @ rest"
    using arg_cong [OF assms(2), of "drop (length pad)"] by (simp add: br_bits_def bc [symmetric])
  from bytes_prefix [OF this] obtain ys where
    ys: "drop (br_bytepos b) (br_data b) = stored_bytes blk @ ys" "rest = concat (map byte_bits ys)" by blast
  let ?a = "take (br_bytepos b) (br_data b)"
  have pos: "br_bytepos b \<le> length (br_data b)" using assms(1) by (simp add: br_ok_def br_clean_def)
  have data: "br_data b = ?a @ stored_bytes blk @ ys" using append_take_drop_id [of "br_bytepos b" "br_data b"] ys(1) by simp
  have la: "length ?a = br_bytepos b" using pos by simp
  have len: "length (br_data b) = br_bytepos b + (length blk + 4) + length ys"
    using arg_cong [OF data, of length] la by simp
  have n: "unat (rd16 (br_data b) (br_bytepos b)) = length blk"
    using stored_length_field [OF assms(5) data] la by simp
  have "drop (br_bytepos b + 4) (br_data b) = drop 4 (stored_bytes blk @ ys)" using ys(1) by (metis add.commute drop_drop)
  then have d: "take (length blk) (drop (br_bytepos b + 4) (br_data b)) = blk" by (simp add: stored_bytes_def Let_def)
  have "drop (br_bytepos b + 4 + length blk) (br_data b) = drop (length (stored_bytes blk)) (stored_bytes blk @ ys)"
    using ys(1) by (metis add.assoc add.commute drop_drop length_stored_bytes)
  then have e: "drop (br_bytepos b + 4 + length blk) (br_data b) = ys" by simp
  let ?b = "(bit_align b)\<lparr>br_bytepos := br_bytepos b + 4 + length blk\<rparr>"
  have "inflate_stored b out = (0, ?b, out @ blk)"
    using len n d by (simp add: inflate_stored_def bit_align_def Let_def)
  moreover have "br_ok ?b" using len by (simp add: br_ok_def br_clean_def bit_align_def)
  moreover have "br_bits ?b = rest" using e by (simp add: br_bits_def bit_align_def word_bits_def ys(2))
  ultimately show ?thesis by blast
qed

section \<open>One block through both codecs\<close>

text \<open>\<open>block_code n X f blk\<close>: after \<open>n\<close> bits, the bits \<open>X\<close> are a block that inflates to \<open>blk\<close>, the last
  one if \<open>f\<close>.\<close>

definition block_code :: "nat \<Rightarrow> bool list \<Rightarrow> bool \<Rightarrow> u8 list \<Rightarrow> bool" where
  "block_code n X f blk \<longleftrightarrow> (\<forall>b out rest guard fuel. br_ok b \<longrightarrow> br_bits b = X @ rest \<longrightarrow> 8 dvd n + length X + length rest \<longrightarrow>
     32769 \<le> fuel \<longrightarrow>
     (\<exists>b1. inflate_loop (Suc guard) fuel b out = (if f then Some (Some (out @ blk)) else inflate_loop guard fuel b1 (out @ blk))
        \<and> br_ok b1 \<and> br_bits b1 = rest))"

lemma header_bits: "word_bits 1 (of_bool f :: u32) = [f]" "word_bits 2 (of_nat 0 AND 3 :: u32) = [False, False]"
    "word_bits 2 (of_nat 1 AND 3 :: u32) = [True, False]" "word_bits 2 (1 :: u32) = [True, False]"
  by (simp_all add: word_bits_def bit_0 upt_rec bit_1_iff)

lemma get_header:
  assumes "br_ok b" and "br_bits b = [f, t, False] @ Y"
  shows "\<exists>b1 b2. bit_get b 1 = (of_bool f, b1) \<and> bit_get b1 2 = (of_bool t, b2) \<and> br_ok b2 \<and> br_bits b2 = Y"
proof -
  have "br_bits b = f # ([t, False] @ Y)" using assms(2) by simp
  from bit_get_one [OF assms(1) this] obtain b1 where
    b1: "bit_get b 1 = (of_bool f, b1)" "br_ok b1" "br_bits b1 = [t, False] @ Y" by blast
  have "word_bits 2 (of_bool t :: u32) = [t, False]" by (cases t) (simp_all add: word_bits_def bit_0 upt_rec bit_1_iff)
  then have "br_bits b1 = word_bits 2 (of_bool t :: u32) @ Y" using b1(3) by simp
  moreover have "\<forall>j \<ge> 2. \<not> bit (of_bool t :: u32) j" by (cases t) (auto simp: bit_1_iff)
  ultimately show ?thesis using bit_get_enough [OF b1(2), of 2 "of_bool t" Y] b1(1) by auto
qed

text \<open>A block decodes the same after any earlier output.\<close>

lemma lz_copy_pre: "d \<le> length out \<Longrightarrow> 1 \<le> d \<Longrightarrow> lz_copy l d (pre @ out) = pre @ lz_copy l d out"
proof (induction l arbitrary: out)
  case (Suc l)
  have "(pre @ out) ! (length (pre @ out) - d) = out ! (length out - d)"
  proof -
    have "length (pre @ out) - d = length pre + (length out - d)" using Suc.prems by simp
    then show ?thesis by (simp only: nth_append_length_plus)
  qed
  then show ?case using Suc.IH [of "out @ [out ! (length out - d)]"] Suc.prems by simp
qed simp

lemma lz_expand_pre: "toks_ok (length out) ts \<Longrightarrow> lz_expand ts (pre @ out) = pre @ lz_expand ts out"
proof (induction ts arbitrary: out)
  case (Cons t ts)
  have "lz_expand1 t (pre @ out) = pre @ lz_expand1 t out"
    using Cons.prems by (cases t) (simp_all add: lz_copy_pre)
  then show ?case using Cons.IH [of "lz_expand1 t out"] Cons.prems by (simp add: lz_expand_def)
qed (simp add: lz_expand_def)

lemma toks_ok_mono: "toks_ok n ts \<Longrightarrow> n \<le> m \<Longrightarrow> toks_ok m ts"
proof (induction ts arbitrary: n m)
  case (Cons t ts)
  have "tok_ok m t" using Cons.prems by (cases t) auto
  then show ?case using Cons.IH [of "n + tok_size t" "m + tok_size t"] Cons.prems by simp
qed simp

lemma toks_ok_length: "toks_ok n ts \<Longrightarrow> length ts \<le> sum_list (map tok_size ts)"
proof (induction ts arbitrary: n)
  case (Cons t ts)
  have "1 \<le> tok_size t" using Cons.prems by (cases t) auto
  then show ?case using Cons.IH [of "n + tok_size t"] Cons.prems by simp
qed simp

lemma block_code_fixed:
  assumes "toks_ok 0 ts" and "lz_expand ts [] = blk" and "length ts \<le> 32768"
  shows "block_code n ([f, True, False] @ fixed_bits ts) f blk"
  unfolding block_code_def
proof (intro allI impI)
  fix b rest guard fuel and out :: "u8 list"
  assume b: "br_ok b" "br_bits b = ([f, True, False] @ fixed_bits ts) @ rest" and fuel: "32769 \<le> (fuel :: nat)"
  have "br_bits b = [f, True, False] @ (fixed_bits ts @ rest)" using b(2) by simp
  from get_header [OF b(1) this] obtain b1 b2 where
    h: "bit_get b 1 = (of_bool f, b1)" "bit_get b1 2 = (of_bool True, b2)" "br_ok b2" "br_bits b2 = fixed_bits ts @ rest" by blast
  have "toks_ok (length out) ts" "length ts < fuel" using toks_ok_mono [OF assms(1)] assms(3) fuel by auto
  from inflate_fixed_ok [OF this(1) h(3) this(2) h(4)] obtain b3 where
    i: "inflate_fixed fuel b2 out = Some (0, b3, lz_expand ts out)" "br_ok b3" "br_bits b3 = rest" by blast
  have e: "lz_expand ts out = out @ blk" using lz_expand_pre [of "[]" ts out] assms(1,2) by simp
  show "\<exists>b1. inflate_loop (Suc guard) fuel b out = (if f then Some (Some (out @ blk)) else inflate_loop guard fuel b1 (out @ blk))
        \<and> br_ok b1 \<and> br_bits b1 = rest"
    using h i e by (intro exI [of _ b3]) (simp add: Let_def)
qed

lemma block_code_stored:
  assumes "length pad < 8" and "8 dvd n + 3 + length pad" and "length blk < 65536"
  shows "block_code n ([f, False, False] @ pad @ concat (map byte_bits (stored_bytes blk))) f blk"
  unfolding block_code_def
proof (intro allI impI)
  fix b rest guard fuel and out :: "u8 list"
  assume b: "br_ok b" "br_bits b = ([f, False, False] @ pad @ concat (map byte_bits (stored_bytes blk))) @ rest"
    and al: "8 dvd n + length ([f, False, False] @ pad @ concat (map byte_bits (stored_bytes blk))) + length rest"
    and fuel: "32769 \<le> (fuel :: nat)"
  have "br_bits b = [f, False, False] @ (pad @ concat (map byte_bits (stored_bytes blk)) @ rest)" using b(2) by simp
  from get_header [OF b(1) this] obtain b1 b2 where
    h: "bit_get b 1 = (of_bool f, b1)" "bit_get b1 2 = (of_bool False, b2)" "br_ok b2"
      "br_bits b2 = pad @ concat (map byte_bits (stored_bytes blk)) @ rest" by blast
  have eq: "n + length ([f, False, False] @ pad @ concat (map byte_bits (stored_bytes blk))) + length rest =
      (n + 3 + length pad + 8 * (length blk + 4)) + length rest"
    unfolding length_append length_bytes_bits by simp
  have "8 dvd (n + 3 + length pad + 8 * (length blk + 4)) + length rest" using al unfolding eq .
  moreover have "8 dvd n + 3 + length pad + 8 * (length blk + 4)" by (rule dvd_add [OF assms(2)]) simp
  ultimately have "8 dvd length rest" by (simp add: dvd_add_right_iff)
  from inflate_stored_ok [OF h(3,4) assms(1) this assms(3), of out] obtain b3 where
    i: "inflate_stored b2 out = (0, b3, out @ blk)" "br_ok b3" "br_bits b3 = rest" by blast
  show "\<exists>b1. inflate_loop (Suc guard) fuel b out = (if f then Some (Some (out @ blk)) else inflate_loop guard fuel b1 (out @ blk))
        \<and> br_ok b1 \<and> br_bits b1 = rest"
    using h i by (intro exI [of _ b3]) (simp add: Let_def)
qed

lemma put_header:
  assumes "bw_ok w"
  shows "bw_ok (bitw_put (bitw_put w (of_bool f) 1) v 2)"
    and "bw_bits (bitw_put (bitw_put w (of_bool f) 1) v 2) = bw_bits w @ [f] @ word_bits 2 v"
  using bitw_put_spec [OF assms, of 1 "of_bool f"] bitw_put_spec [of "bitw_put w (of_bool f) 1" 2 v]
  by (simp_all add: header_bits [unfolded One_nat_def])

lemma emit_block_ok:
  assumes "bw_ok w" and "m = 0 \<or> m = 1" and "length blk \<le> 32768"
  shows "\<exists>w1 X. emit_block qs w blk f m = Some w1 \<and> bw_ok w1 \<and> bw_bits w1 = bw_bits w @ X \<and> block_code (length (bw_bits w)) X f blk"
proof -
  let ?w1 = "bitw_put (bitw_put w (of_bool f) 1) 1 2"
  have ok1: "bw_ok ?w1" and bits1: "bw_bits ?w1 = bw_bits w @ [f, True, False]"
    using put_header [OF assms(1), of f 1] by (simp_all add: header_bits)
  consider (empty) "blk = []" | (stored) "blk \<noteq> []" "m = 0" | (fixed) "blk \<noteq> []" "m = 1" using assms(2) by blast
  then show ?thesis
  proof cases
    case empty
    have "emit_block qs w blk f m = Some (emit_fixed ?w1 [])"
      using empty by (simp add: emit_block_def emit_fixed_def emit_tokens_def fixed_code_init_def Let_def)
    moreover have "block_code (length (bw_bits w)) ([f, True, False] @ fixed_bits []) f []"
      by (rule block_code_fixed) (simp_all add: lz_expand_def)
    ultimately show ?thesis using emit_fixed_bits [of 0 "[]", OF _ ok1] bits1 empty by auto
  next
    case fixed
    let ?ts = "wubuzip_lz_parse blk"
    have ts: "lz_expand ?ts [] = blk" "toks_ok 0 ?ts" using lz_parse_ok by auto
    have "length ?ts \<le> length blk" using toks_ok_length [OF ts(2)] length_lz_expand [of ?ts "[]"] ts(1) by simp
    then have l: "length ?ts \<le> 32768" using assms(3) by simp
    have "emit_block qs w blk f m = Some (emit_fixed ?w1 ?ts)" using fixed by (simp add: emit_block_def Let_def)
    then show ?thesis using emit_fixed_bits [OF ts(2) ok1] bits1 block_code_fixed [OF ts(2,1) l, of "length (bw_bits w)" f] by auto
  next
    case stored
    let ?w0 = "bitw_put (bitw_put w (of_bool f) 1) 0 2"
    have w0: "bw_ok ?w0" "bw_bits ?w0 = bw_bits w @ [f, False, False]"
      using put_header [OF assms(1), of f 0] by (simp_all add: word_bits_def upt_rec)
    obtain w2 where w2: "emit_stored ?w0 blk = Some w2" "bw_ok w2"
        "bw_bits w2 = bw_bits ?w0 @ pad_bits (bw_bitcnt ?w0) @ concat (map byte_bits (stored_bytes blk))"
      using emit_stored_spec [OF w0(1)] by blast
    let ?pad = "pad_bits (bw_bitcnt ?w0)"
    have c: "bw_bitcnt ?w0 < 8" using w0(1) by (simp add: bw_ok_def)
    have p: "length ?pad < 8" by (simp add: pad_bits_def)
    have "length (bw_bits w) + 3 = 8 * length (bw_p ?w0) + bw_bitcnt ?w0"
      using length_bw_bits [of ?w0] unfolding w0(2) by simp
    moreover have "8 dvd bw_bitcnt ?w0 + length ?pad" using c by (simp add: pad_bits_def)
    ultimately have "8 dvd length (bw_bits w) + 3 + length ?pad" by (simp only: add.assoc) simp
    from block_code_stored [OF p this, of blk f] have
      "block_code (length (bw_bits w)) ([f, False, False] @ ?pad @ concat (map byte_bits (stored_bytes blk))) f blk"
      using assms(3) by simp
    moreover have "emit_block qs w blk f m = Some w2" using stored w2(1) by (simp add: emit_block_def)
    ultimately show ?thesis using w2(2,3) w0(2) by auto
  qed
qed

section \<open>Whole streams\<close>

lemma deflate_loop_ok:
  assumes "\<forall>s. 32768 dvd s \<longrightarrow> s < length inp \<longrightarrow> best_method qs (take 32768 (drop s inp)) \<noteq> 2"
  shows "32768 dvd s \<Longrightarrow> s < length inp \<Longrightarrow> bw_ok w \<Longrightarrow>
    \<exists>w1 X. deflate_loop qs inp s w = Some w1 \<and> bw_ok w1 \<and> bw_bits w1 = bw_bits w @ X \<and>
      (\<forall>b out rest guard fuel. br_ok b \<longrightarrow> br_bits b = X @ rest \<longrightarrow> 8 dvd length (bw_bits w) + length X + length rest \<longrightarrow>
         32769 \<le> fuel \<longrightarrow> length inp - s \<le> 32768 * guard \<longrightarrow>
         inflate_loop guard fuel b out = Some (Some (out @ drop s inp)))"
proof (induction "length inp - s" arbitrary: s w rule: less_induct)
  case less
  let ?e = "if s + BLK_SIZE > length inp then length inp else s + BLK_SIZE"
  let ?blk = "take (?e - s) (drop s inp)"
  have e: "s < ?e" "?e \<le> length inp" "?e - s \<le> 32768" using less.prems(2) by (auto simp: BLK_SIZE_def)
  have blk: "?blk = take 32768 (drop s inp)" using less.prems(2) by (auto simp: BLK_SIZE_def)
  have m: "best_method qs ?blk = 0 \<or> best_method qs ?blk = 1"
  proof -
    have "best_method qs ?blk \<noteq> 2" using assms less.prems(1,2) unfolding blk by blast
    moreover have "best_method qs b \<in> {0, 1, 2}" for b
      by (simp add: best_method_def Let_def split: prod.split)
    ultimately show ?thesis by blast
  qed
  have lb: "length ?blk \<le> 32768" using e by simp
  from emit_block_ok [OF less.prems(3) m lb, of qs "?e = length inp"] obtain w1 X where
    w1: "emit_block qs w ?blk (?e = length inp) (best_method qs ?blk) = Some w1" "bw_ok w1" "bw_bits w1 = bw_bits w @ X"
      and bc: "block_code (length (bw_bits w)) X (?e = length inp) ?blk" by blast
  have step: "deflate_loop qs inp s w = deflate_loop qs inp ?e w1"
    using less.prems(2) w1(1) by (subst deflate_loop.simps) (simp add: Let_def)
  have dr: "?blk @ drop ?e inp = drop s inp"
    using e(1) append_take_drop_id [of "?e - s" "drop s inp"] by simp
  show ?case
  proof (cases "?e = length inp")
    case True
    have d: "deflate_loop qs inp ?e w1 = Some w1" using True by (subst deflate_loop.simps) simp
    have b: "?blk = drop s inp" using dr True by simp
    have "inflate_loop guard fuel b out = Some (Some (out @ drop s inp))"
      if c: "br_ok b" "br_bits b = X @ rest" "8 dvd length (bw_bits w) + length X + length rest" "32769 \<le> fuel" "length inp - s \<le> 32768 * guard"
      for b out rest guard fuel
    proof -
      obtain g where "guard = Suc g" using c(5) less.prems(2) by (cases guard) auto
      then show ?thesis using bc c True b unfolding block_code_def by metis
    qed
    then show ?thesis unfolding step d using w1 by blast
  next
    case False
    then have e2: "?e < length inp" "?e = s + 32768" using e by (auto simp: BLK_SIZE_def)
    have dv: "32768 dvd ?e" using less.prems(1) e2(2) by simp
    from less.hyps [OF _ dv e2(1) w1(2)] e obtain w2 Y where
      w2: "deflate_loop qs inp ?e w1 = Some w2" "bw_ok w2" "bw_bits w2 = bw_bits w1 @ Y" and
      IH: "\<forall>b out rest guard fuel. br_ok b \<longrightarrow> br_bits b = Y @ rest \<longrightarrow> 8 dvd length (bw_bits w1) + length Y + length rest \<longrightarrow>
         32769 \<le> fuel \<longrightarrow> length inp - ?e \<le> 32768 * guard \<longrightarrow>
         inflate_loop guard fuel b out = Some (Some (out @ drop ?e inp))"
      by (metis diff_less_mono2 less.prems(2))
    have "inflate_loop guard fuel b out = Some (Some (out @ drop s inp))"
      if c: "br_ok b" "br_bits b = (X @ Y) @ rest" "8 dvd length (bw_bits w) + length (X @ Y) + length rest" "32769 \<le> fuel"
        "length inp - s \<le> 32768 * guard" for b out rest guard fuel
    proof -
      obtain g where g: "guard = Suc g" using c(5) less.prems(2) by (cases guard) auto
      have b2: "br_bits b = X @ (Y @ rest)" using c(2) by simp
      have l2: "8 dvd length (bw_bits w) + length X + length (Y @ rest)" using c(3) by (simp add: add.assoc)
      from bc [unfolded block_code_def, rule_format, OF c(1) b2 l2 c(4), of g out] False obtain b1 where
        b1: "inflate_loop guard fuel b out = inflate_loop g fuel b1 (out @ ?blk)" "br_ok b1" "br_bits b1 = Y @ rest"
        unfolding g by auto
      have "inflate_loop g fuel b1 (out @ ?blk) = Some (Some ((out @ ?blk) @ drop ?e inp))"
      proof (rule IH [rule_format, OF b1(2,3) _ c(4)])
        show "8 dvd length (bw_bits w1) + length Y + length rest" using l2 w1(3) by (simp add: add.assoc)
        show "length inp - ?e \<le> 32768 * g" using c(5) e2 g by auto
      qed
      then show ?thesis using b1(1) dr by simp
    qed
    then show ?thesis unfolding step using w1 w2 by (intro exI [of _ w2] exI [of _ "X @ Y"]) auto
  qed
qed

text \<open>C4. What \<open>wubuzip_deflate\<close> writes, \<open>wubuzip_inflate\<close> reads back, for every input in which no
  block is given the dynamic method: the encoder succeeds, and with 32769 turns per block the decoder
  returns exactly the input. The method may be stored or fixed per block, the reader and the writer
  agree on the byte alignment between them, and the sizes go up to the decoder's guard of a
  million blocks.\<close>

theorem deflate_inflate:
  assumes "\<forall>s. 32768 dvd s \<longrightarrow> s < length inp \<longrightarrow> best_method qs (take 32768 (drop s inp)) \<noteq> 2"
    and "length inp \<le> 32768 * 1000000" and "32769 \<le> fuel"
  shows "\<exists>z. wubuzip_deflate qs inp = Some z \<and> wubuzip_inflate fuel z False = Some (Some inp)"
proof -
  have run: "\<exists>z. bitw_finish w1 = Some z \<and> wubuzip_inflate fuel z False = Some (Some inp)"
    if "bw_ok w1" and "bw_bits w1 = X"
      and ok: "\<And>b rest. br_ok b \<Longrightarrow> br_bits b = X @ rest \<Longrightarrow> 8 dvd length X + length rest \<Longrightarrow>
        inflate_loop INFLATE_GUARD fuel b [] = Some (Some inp)" for w1 X
  proof -
    obtain z where z: "bitw_finish w1 = Some z" "concat (map byte_bits z) = X @ pad_bits (bw_bitcnt w1)"
      using bitw_finish_spec [OF \<open>bw_ok w1\<close>] \<open>bw_bits w1 = X\<close> by blast
    have "8 dvd length X + length (pad_bits (bw_bitcnt w1))"
      using arg_cong [OF z(2), of length] length_bytes_bits [of z] by (metis dvd_triv_left length_append)
    then have "inflate_loop INFLATE_GUARD fuel (bit_init z) [] = Some (Some inp)"
      using z(2) by (intro ok [of _ "pad_bits (bw_bitcnt w1)"]) simp_all
    then show ?thesis using z(1) by (simp add: wubuzip_inflate_def)
  qed
  show ?thesis
  proof (cases "inp = []")
    case True
    obtain w1 X where w: "emit_block qs bitw_init [] True 1 = Some w1" "bw_ok w1" "bw_bits w1 = X" "block_code 0 X True []"
      using emit_block_ok [of bitw_init 1 "[]" qs True] by auto
    have g: "INFLATE_GUARD = Suc 999999" by (simp add: INFLATE_GUARD_def)
    have "inflate_loop INFLATE_GUARD fuel b [] = Some (Some inp)" 
      if "br_ok b" "br_bits b = X @ rest" "8 dvd length X + length rest" for b rest
      using w(4) [unfolded block_code_def, rule_format, of b rest fuel 999999 "[]"] that assms(3) True g by auto
    from run [OF w(2,3) this] show ?thesis using True w(1) by (simp add: wubuzip_deflate_def)
  next
    case False
    have p: "0 < length inp" using False by simp
    obtain w1 X where w: "deflate_loop qs inp 0 bitw_init = Some w1" "bw_ok w1" "bw_bits w1 = bw_bits bitw_init @ X" and
      r: "\<forall>b out rest guard fuel. br_ok b \<longrightarrow> br_bits b = X @ rest \<longrightarrow> 8 dvd length (bw_bits bitw_init) + length X + length rest \<longrightarrow>
         32769 \<le> fuel \<longrightarrow> length inp - 0 \<le> 32768 * guard \<longrightarrow> inflate_loop guard fuel b out = Some (Some (out @ drop 0 inp))"
      using deflate_loop_ok [OF assms(1) dvd_0_right p bw_ok_init(1)] by blast
    have x: "bw_bits w1 = X" using w(3) by simp
    have "inflate_loop INFLATE_GUARD fuel b [] = Some (Some inp)"
      if "br_ok b" "br_bits b = X @ rest" "8 dvd length X + length rest" for b rest
      using r [rule_format, OF that(1,2) _ assms(3), of INFLATE_GUARD "[]"] that(3) assms(2) by (simp add: INFLATE_GUARD_def)
    from run [OF w(2) x this] show ?thesis using False w(1) by (simp add: wubuzip_deflate_def)
  qed
qed

text \<open>The dynamic method is never chosen for a block whose fixed cost is small: its header alone is
  estimated at more than 500 bits.\<close>

lemma best_method_small:
  assumes "blk \<noteq> []" and "3 + cost_tokens (wubuzip_lz_parse blk) fixed_litlen fixed_dist + 7 < 533"
  shows "best_method qs blk \<noteq> 2"
proof -
  let ?tok = "wubuzip_lz_parse blk"
  obtain lf df hl hd1 where t: "token_freqs ?tok = (lf, df, hl, hd1)" by (metis prod_cases4)
  have h: "257 \<le> hl" "1 \<le> hd1" using t by (auto simp: token_freqs_def Let_def split: prod.splits if_splits)
  have l: "fixed_litlen ! 256 = 7" by (simp add: fixed_litlen_def nth_append)
  have "\<not> 3 + 5 + 5 + 4 + (cost_tokens ?tok x y + x ! 256) + (hl + hd1) * 2 \<le> 3 + cost_tokens ?tok fixed_litlen fixed_dist + fixed_litlen ! 256" for x y
  proof -
    have "533 \<le> 17 + (hl + hd1) * 2" using h by simp
    then show ?thesis using assms(2) unfolding l by simp
  qed
  then show ?thesis unfolding best_method_def fixed_code_init_def Let_def t prod.case using assms(1) by simp
qed

lemma deflate_inflate_witness:
  "\<exists>z. wubuzip_deflate (sort_key cn_w) [97, 98] = Some z \<and> wubuzip_inflate 40000 z False = Some (Some [97, 98])"
proof -
  have p: "wubuzip_lz_parse [97, 98] = [Literal 97, Literal 98]"
    by (simp add: wubuzip_lz_parse_def lz_loop.simps lz_init_def lz_step_def push_tok_def)
  have "fixed_litlen ! 97 = 8" "fixed_litlen ! 98 = 8" by (simp_all add: fixed_litlen_def nth_append)
  then have m: "best_method (sort_key cn_w) [97, 98] \<noteq> 2"
    by (intro best_method_small) (simp_all add: p cost_tokens_def cost_token_def)
  have "best_method (sort_key cn_w) (take 32768 (drop s [97, 98])) \<noteq> 2" if "32768 dvd s" "s < length [97 :: u8, 98]" for s
  proof -
    have "s = 0" using that by (cases "s = 0") (auto dest: dvd_imp_le)
    then show ?thesis using m by simp
  qed
  then show ?thesis by (intro deflate_inflate) simp_all
qed

section \<open>Dynamic blocks\<close>

lemma fold_update_nth:
  "distinct (map idx xs) \<Longrightarrow> (\<forall>s \<in> set xs. idx s < length len) \<Longrightarrow>
    length (fold (\<lambda>s len. len[idx s := f s]) xs len) = length len \<and>
    (\<forall>i. (i \<notin> idx ` set xs \<longrightarrow> fold (\<lambda>s len. len[idx s := f s]) xs len ! i = len ! i)) \<and>
    (\<forall>s \<in> set xs. fold (\<lambda>s len. len[idx s := f s]) xs len ! idx s = f s)"
proof (induction xs arbitrary: len)
  case (Cons x xs)
  let ?l = "len[idx x := f x]"
  have IH: "length (fold (\<lambda>s len. len[idx s := f s]) xs ?l) = length ?l"
    "\<forall>i. (i \<notin> idx ` set xs \<longrightarrow> fold (\<lambda>s len. len[idx s := f s]) xs ?l ! i = ?l ! i)"
    "\<forall>s \<in> set xs. fold (\<lambda>s len. len[idx s := f s]) xs ?l ! idx s = f s"
    using Cons.IH [of ?l] Cons.prems by auto
  have nx: "idx x \<notin> idx ` set xs" using Cons.prems(1) by simp
  then have "fold (\<lambda>s len. len[idx s := f s]) xs ?l ! idx x = f x" using IH(2) Cons.prems(2) by simp
  then show ?case using IH by auto
qed simp

text \<open>The lengths the generator returns: zero for unused symbols, from 1 to the limit for used ones.\<close>

lemma limit_lengths_spec:
  assumes "1 \<le> maxlen" and "n \<le> 320"
  shows "\<exists>len. limit_lengths qs freqs n maxlen = (0, len) \<and> length len = n \<and>
    (\<forall>i < n. if freqs ! i > 0 then 1 \<le> len ! i \<and> len ! i \<le> maxlen else len ! i = 0)"
proof -
  define idx where "idx = filter (\<lambda>i. freqs ! i > 0) [0..<n]"
  have mem: "i \<in> set idx \<longleftrightarrow> i < n \<and> freqs ! i > 0" for i by (auto simp: idx_def)
  have dist: "distinct idx" by (simp add: idx_def)
  consider (none) "length idx = 0" | (single) "length idx = 1" | (many) "2 \<le> length idx" by linarith
  then show ?thesis
  proof cases
    case none
    then have "freqs ! i = 0" if "i < n" for i using mem [of i] that by auto
    moreover have "limit_lengths qs freqs n maxlen = (0, replicate n 0)"
      using none by (simp add: limit_lengths_def idx_def [symmetric])
    ultimately show ?thesis by simp
  next
    case single
    then obtain j where j: "idx = [j]" by (metis One_nat_def length_0_conv length_Suc_conv)
    have "freqs ! i > 0 \<longleftrightarrow> i = j" if "i < n" for i using mem [of i] j that by simp
    moreover have "limit_lengths qs freqs n maxlen = (0, (replicate n 0)[j := 1])"
      using j by (simp add: limit_lengths_def idx_def [symmetric])
    moreover have "j < n" using mem [of j] j by simp
    ultimately show ?thesis using assms(1) by (simp add: nth_list_update_if)
  next
    case many
    define f where "f = (\<lambda>s. limit_clamp maxlen (fold (limit_count qs (qs (map (\<lambda>s. \<lparr>cn_w = freqs ! (idx ! s),
        cn_bits = bset (replicate WBITS_NWORDS 0) s\<rparr>) [0..<length idx])) (length idx)) [1..<Suc maxlen] (replicate (length idx) 0) ! s))"
    have e: "limit_lengths qs freqs n maxlen = (0, fold (\<lambda>s len. len[idx ! s := f s]) [0..<length idx] (replicate n 0))"
      using many assms by (simp add: limit_lengths_def idx_def [symmetric] f_def Let_def WBITS_NWORDS_def del: upt_Suc)
    have d: "distinct (map ((!) idx) [0..<length idx])" using dist by (simp add: map_nth)
    have r: "(!) idx ` set [0..<length idx] = set idx" by (metis list.set_map map_nth)
    have b: "\<forall>s \<in> set [0..<length idx]. idx ! s < length (replicate n (0 :: nat))" using mem nth_mem by fastforce
    note u = fold_update_nth [OF d b, of f]
    have fb: "1 \<le> f s \<and> f s \<le> maxlen" for s using assms(1) by (auto simp: f_def limit_clamp_def Let_def)
    have "if freqs ! i > 0 then 1 \<le> lens ! i \<and> lens ! i \<le> maxlen else lens ! i = 0"
      if i: "i < n" "lens = fold (\<lambda>s len. len[idx ! s := f s]) [0..<length idx] (replicate n 0)" for i lens
    proof (cases "freqs ! i > 0")
      case True
      then obtain s where "s < length idx" "idx ! s = i" using mem [of i] i(1) by (auto simp: in_set_conv_nth)
      then have "lens ! i = f s" using u i(2) by auto
      then show ?thesis using True fb by simp
    next
      case False
      then have "i \<notin> (!) idx ` set [0..<length idx]" unfolding r using mem by simp
      then show ?thesis using u i False by simp
    qed
    note P = this [OF _ refl]
    have "length (fold (\<lambda>s len. len[idx ! s := f s]) [0..<length idx] (replicate n 0)) = n" using u by simp
    with e P show ?thesis by blast
  qed
qed

text \<open>The length-limited generator always answers within the limits it was given: unused symbols
  get no code, used symbols a length from 1 to the limit, whatever the order in which the sorting
  function leaves coins of equal weight.\<close>

lemma limit_lengths_bounds:
  assumes "1 \<le> maxlen" and "n \<le> 320"
  shows "\<exists>len. limit_lengths qs freqs n maxlen = (0, len) \<and> length len = n \<and>
    (\<forall>i < n. if freqs ! i > 0 then 1 \<le> len ! i \<and> len ! i \<le> maxlen else len ! i = 0)"
  by (rule limit_lengths_spec [OF assms])

lemma limit_lengths_bounds_witness:
  "\<exists>len. limit_lengths (sort_key cn_w) [4, 0, 1] 3 7 = (0, len) \<and> length len = 3"
  using limit_lengths_bounds [of 7 3 "sort_key cn_w" "[4, 0, 1]"] by auto

text \<open>The pattern of used symbols is all that \<open>recode\<close> looks at; two or more of them leave no code.\<close>

lemma recode_many:
  assumes "2 \<le> length (filter (\<lambda>i. len ! i \<noteq> 0) [0..<n])"
  shows "recode len n maxlen = (replicate n 0, replicate n 0)"
proof -
  let ?w = "map (\<lambda>i. if len ! i \<noteq> 0 then 1 else 0 :: nat) [0..<n]"
  have "filter (\<lambda>i. ?w ! i > 0) [0..<n] = filter (\<lambda>i. len ! i \<noteq> 0) [0..<n]" by (rule filter_cong) auto
  then have l: "length (canon_leaves ?w n) = length (filter (\<lambda>i. len ! i \<noteq> 0) [0..<n])" by (simp add: canon_leaves_def)
  have "canon_loop (canon_leaves ?w n) = None" using assms l by (intro canon_loop_fails) simp
  moreover have "canon_leaves ?w n \<noteq> []" "length (canon_leaves ?w n) \<noteq> 1" using assms l by auto
  ultimately show ?thesis by (simp add: recode_def wubuzip_canon_def Let_def)
qed

lemma recode_none:
  assumes "\<forall>i < n. len ! i = 0"
  shows "recode len n maxlen = (replicate n 0, replicate n 0)"
proof -
  have "canon_leaves (map (\<lambda>i. if len ! i \<noteq> 0 then 1 else 0) [0..<n]) n = []"
    using assms by (simp add: canon_leaves_def filter_empty_conv)
  then show ?thesis by (simp add: recode_def wubuzip_canon_def Let_def)
qed

lemma freq_literals:
  "fold freq_token (map Literal cs) (lf, df, ml, md) =
     (fold (\<lambda>c lf. lf[unat c := lf ! unat c + 1]) cs lf, df, fold (\<lambda>c m. max m (unat c)) cs ml, md)"
  by (induction cs arbitrary: lf ml) (simp_all add: freq_token_def)

lemma fold_max_bytes: "fold (\<lambda>c m. max m (unat c)) cs (255 :: nat) = 255" for cs :: "u8 list"
proof (induction cs)
  case (Cons c cs)
  have "unat c < 256" using unsigned_less [of c, where 'a = nat] by simp
  then have "max 255 (unat c) = (255 :: nat)" by simp
  then show ?case using Cons by simp
qed simp

abbreviation inc_bytes :: "u8 list \<Rightarrow> nat list \<Rightarrow> nat list" where
  "inc_bytes \<equiv> fold (\<lambda>c lf. lf[unat c := lf ! unat c + 1])"

lemma length_inc_bytes: "length (inc_bytes cs lf) = length lf"
  by (induction cs arbitrary: lf) simp_all

lemma inc_bytes_mono: "lf ! i \<le> inc_bytes cs lf ! i"
proof (induction cs arbitrary: lf)
  case (Cons c cs)
  have "lf ! i \<le> lf[unat c := lf ! unat c + 1] ! i" by (auto simp: nth_list_update_if)
  also have "\<dots> \<le> inc_bytes cs (lf[unat c := lf ! unat c + 1]) ! i" by (rule Cons.IH)
  finally show ?case by simp
qed simp

lemma inc_bytes_pos: "c \<in> set cs \<Longrightarrow> unat c < length lf \<Longrightarrow> 0 < inc_bytes cs lf ! unat c"
proof (induction cs arbitrary: lf)
  case (Cons d cs)
  show ?case
  proof (cases "c \<in> set cs")
    case True
    then show ?thesis using Cons.IH Cons.prems(2) by simp
  next
    case False
    then have "0 < lf[unat d := lf ! unat d + 1] ! unat c" using Cons.prems by simp
    also have "\<dots> \<le> inc_bytes cs (lf[unat d := lf ! unat d + 1]) ! unat c" by (rule inc_bytes_mono)
    finally show ?thesis by simp
  qed
qed simp

lemma emit_token_no_codes:
  "emit_token (replicate m 0) (replicate m 0) dc dl (Literal c) w = w" if "256 \<le> m"
proof -
  have "unat c < m" using unsigned_less [of c, where 'a = nat] that by simp
  then show ?thesis by (simp add: emit_token_def put_code_def)
qed

lemma emit_literals_no_codes:
  assumes "257 \<le> m"
  shows "emit_tokens (replicate m 0) (replicate m 0) dc dl (map Literal cs) w = w"
proof -
  have "fold (emit_token (replicate m 0) (replicate m 0) dc dl) (map Literal cs) w = w"
    using assms by (induction cs) (simp_all add: emit_token_no_codes)
  then show ?thesis using assms by (simp add: emit_tokens_def put_code_def)
qed

lemma limit_lengths_obtain:
  assumes "1 \<le> maxlen" and "n \<le> 320"
  obtains len where "limit_lengths qs freqs n maxlen = (0, len)"
    and "\<And>i. i < n \<Longrightarrow> 0 < freqs ! i \<Longrightarrow> len ! i \<noteq> 0" and "\<And>i. i < n \<Longrightarrow> freqs ! i = 0 \<Longrightarrow> len ! i = 0"
proof -
  obtain len where l: "limit_lengths qs freqs n maxlen = (0, len)"
    "\<forall>i < n. if freqs ! i > 0 then 1 \<le> len ! i \<and> len ! i \<le> maxlen else len ! i = 0"
    using limit_lengths_spec [OF assms, of qs freqs] by blast
  show thesis
  proof (rule that [OF l(1)])
    show "len ! i \<noteq> 0" if "i < n" "0 < freqs ! i" for i
      using l(2) [rule_format, OF that(1)] that(2) by simp
    show "len ! i = 0" if "i < n" "freqs ! i = 0" for i
      using l(2) [rule_format, OF that(1)] that(2) by simp
  qed
qed

lemma two_used:
  assumes "i < n" "j < n" "i \<noteq> j" "P i" "P j"
  shows "2 \<le> length (filter P [0..<n])"
proof -
  have "{i, j} \<subseteq> set (filter P [0..<n])" using assms by auto
  then have "card {i, j} \<le> length (filter P [0..<n])"
    by (metis List.finite_set card_length card_mono le_trans)
  then show ?thesis using assms(3) by simp
qed

lemma dynamic_codes_empty:
  assumes "cs \<noteq> []"
  shows "\<exists>lf df. token_freqs (map Literal cs) = (lf, df, 257, 1) \<and>
    (\<exists>ll. limit_lengths qs lf 257 15 = (0, ll) \<and> recode ll 257 15 = (replicate 257 0, replicate 257 0)) \<and>
    (\<exists>dl. limit_lengths qs df 1 15 = (0, dl) \<and> recode dl 1 15 = (replicate 1 0, replicate 1 0))"
proof -
  let ?base = "inc_bytes cs (replicate 288 0)"
  let ?lf = "?base[256 := ?base ! 256 + 1]"
  have tf: "token_freqs (map Literal cs) = (?lf, replicate 32 0, 257, 1)"
    by (simp add: token_freqs_def freq_literals fold_max_bytes)
  obtain c where c: "c \<in> set cs" using assms by (cases cs) auto
  have uc: "unat c < 256" using unsigned_less [of c, where 'a = nat] by simp
  have "length ?base = 288" unfolding length_inc_bytes by simp
  moreover have "0 < ?base ! unat c" by (rule inc_bytes_pos [OF c]) (use uc in simp)
  ultimately have p: "?lf ! unat c > 0" "?lf ! 256 > 0" using uc by (simp_all only: nth_list_update_if) simp_all
  have "1 \<le> (15 :: nat)" "257 \<le> (320 :: nat)" by simp_all
  from limit_lengths_obtain [OF this] obtain ll where ll: "limit_lengths qs ?lf 257 15 = (0, ll)"
      "\<And>i. i < 257 \<Longrightarrow> 0 < ?lf ! i \<Longrightarrow> ll ! i \<noteq> 0" by blast
  have "ll ! unat c \<noteq> 0" using ll(2) [OF _ p(1)] uc by simp
  moreover have "ll ! 256 \<noteq> 0" using ll(2) [OF _ p(2)] by simp
  ultimately have "2 \<le> length (filter (\<lambda>i. ll ! i \<noteq> 0) [0..<257])" using uc by (intro two_used [of "unat c" 257 256]) auto
  from recode_many [OF this] have rl: "recode ll 257 15 = (replicate 257 0, replicate 257 0)" .
  have "1 \<le> (15 :: nat)" "1 \<le> (320 :: nat)" by simp_all
  from limit_lengths_obtain [OF this] obtain dl where dl: "limit_lengths qs (replicate 32 0) 1 15 = (0, dl)"
      "\<And>i. i < 1 \<Longrightarrow> replicate 32 (0 :: nat) ! i = 0 \<Longrightarrow> dl ! i = 0" by blast
  have "recode dl 1 15 = (replicate 1 0, replicate 1 0)" using dl(2) [of 0] by (intro recode_none) simp
  then show ?thesis using tf ll(1) rl dl(1) by blast
qed

text \<open>A dynamic block does not contain its data. For literals the emitted bits are the same
  whatever the bytes are and however many: with the end-of-block symbol at least two symbols are
  used, the canonical codes are then never assigned, and every symbol is written with zero bits.\<close>

theorem dynamic_block_loses_data:
  assumes "cs \<noteq> []" and "ds \<noteq> []"
  shows "emit_dynamic qs w (map Literal cs) = emit_dynamic qs w (map Literal ds)"
proof -
  obtain lf df ll dl where c: "token_freqs (map Literal cs) = (lf, df, 257, 1)" "limit_lengths qs lf 257 15 = (0, ll)"
      "recode ll 257 15 = (replicate 257 0, replicate 257 0)" "limit_lengths qs df 1 15 = (0, dl)"
      "recode dl 1 15 = (replicate 1 0, replicate 1 0)"
    using dynamic_codes_empty [OF assms(1), of qs] by blast
  obtain lf' df' ll' dl' where d: "token_freqs (map Literal ds) = (lf', df', 257, 1)" "limit_lengths qs lf' 257 15 = (0, ll')"
      "recode ll' 257 15 = (replicate 257 0, replicate 257 0)" "limit_lengths qs df' 1 15 = (0, dl')"
      "recode dl' 1 15 = (replicate 1 0, replicate 1 0)"
    using dynamic_codes_empty [OF assms(2), of qs] by blast
  have e: "emit_tokens (replicate 257 0) (replicate 257 0) x y (map Literal zs) v = v" for x y zs v
    by (rule emit_literals_no_codes) simp
  show ?thesis unfolding emit_dynamic_def c d Let_def prod.case e ..
qed

lemma dynamic_block_loses_data_witness:
  "emit_dynamic (sort_key cn_w) bitw_init [Literal 1] = emit_dynamic (sort_key cn_w) bitw_init [Literal 2, Literal 3]"
  using dynamic_block_loses_data [of "[1]" "[2, 3]"] by simp

text \<open>The run-length coder of code lengths drops entries: two zeros at the end are written exactly
  as one, for every code of the code lengths.\<close>

lemma emit_lengths_drops_zero:
  "emit_lengths w [0, 0] 2 clcode cllen 0 = emit_lengths w [0] 1 clcode cllen 0"
proof -
  have r: "run_length [0, 0] (Suc (Suc 0)) 0 0 138 (Suc 0) = 2" "run_length [0] (Suc 0) 0 0 138 (Suc 0) = 1"
    by (simp_all add: run_length.simps)
  have "emit_lengths w [0, 0] 2 clcode cllen 0 = emit_lengths (put_code w (clcode ! 0) (cllen ! 0)) [0, 0] 2 clcode cllen 2"
    by (subst emit_lengths.simps) (simp add: r Let_def numeral_2_eq_2)
  also have "\<dots> = put_code w (clcode ! 0) (cllen ! 0)" by (subst emit_lengths.simps) simp
  also have "\<dots> = emit_lengths (put_code w (clcode ! 0) (cllen ! 0)) [0] 1 clcode cllen 1"
    by (subst emit_lengths.simps) simp
  also have "\<dots> = emit_lengths w [0] 1 clcode cllen 0"
    by (subst (2) emit_lengths.simps) (simp add: r Let_def)
  finally show ?thesis .
qed

section \<open>Past the end of the input\<close>

text \<open>A reader that only has zero bits left; past its end it goes on delivering them.\<close>

definition only_zeros :: "bitreader \<Rightarrow> bool" where
  "only_zeros b \<longleftrightarrow> br_ok b \<and> set (br_bits b) \<subseteq> {False}"

lemma zeros_get:
  assumes "only_zeros b"
  shows "fst (bit_get b 1) = 0 \<and> only_zeros (snd (bit_get b 1))"
proof -
  have ok: "br_ok b" and z: "set (br_bits b) \<subseteq> {False}" using assms by (simp_all add: only_zeros_def)
  obtain k where k: "br_ok (snd (bit_get b 1))" "br_bits (snd (bit_get b 1)) = drop 1 (br_bits b @ replicate k False)"
    "word_bits 1 (fst (bit_get b 1)) = take 1 (br_bits b @ replicate k False)"
    using bit_get_spec [OF ok, of 1] by auto
  have s: "set (br_bits b @ replicate k False) \<subseteq> {False}" using z by auto
  have "fst (bit_get b 1) = fst (bit_get b 1) AND 1" by (simp add: bit_get_def Let_def)
  moreover have "\<not> bit (fst (bit_get b 1)) 0"
  proof -
    have "set (word_bits 1 (fst (bit_get b 1))) \<subseteq> {False}" unfolding k(3) by (rule subset_trans [OF set_take_subset s])
    then show ?thesis by (simp add: word_bits_def)
  qed
  ultimately have "fst (bit_get b 1) = 0" by (metis and_one_eq bit_0 even_iff_mod_2_eq_zero)
  moreover have "only_zeros (snd (bit_get b 1))"
    using k(1,2) s set_drop_subset [of 1 "br_bits b @ replicate k False"] by (auto simp: only_zeros_def)
  ultimately show ?thesis ..
qed

lemma zeros_walk:
  "only_zeros b \<Longrightarrow> only_zeros c \<Longrightarrow> only_zeros (snd (huff_walk lens h b code first index)) \<and>
    fst (huff_walk lens h b code first index) = fst (huff_walk lens h c code first index)"
proof (induction lens arbitrary: b c code first index)
  case (Cons l lens)
  obtain x where x: "bit_get b 1 = (0, x)" "only_zeros x" using zeros_get [OF Cons.prems(1)] by (metis prod.collapse)
  obtain y where y: "bit_get c 1 = (0, y)" "only_zeros y" using zeros_get [OF Cons.prems(2)] by (metis prod.collapse)
  show ?case using Cons.IH [OF x(2) y(2)] x y by (simp add: Let_def)
qed simp

text \<open>A block that is cut off inside its data is not an error. When the symbol whose code is all
  zeros is a literal and only zero bits are left, the decoding loop appends that literal for ever: no
  number of turns is enough, so the function never returns (until the output buffer cannot grow).\<close>

theorem truncated_block_never_returns:
  assumes "only_zeros b" and "fst (huff_decode b lit) = Some s" and "s < 256"
  shows "block_decode fuel lit dist b out = None"
  using assms(1,2)
proof (induction fuel arbitrary: b out)
  case (Suc fuel)
  obtain c where c: "huff_decode b lit = (Some s, c)" using Suc.prems(2) by (metis prod.collapse)
  have z: "only_zeros c" using zeros_walk [OF Suc.prems(1) Suc.prems(1)] c unfolding huff_decode_def by (metis snd_conv)
  have "fst (huff_decode c lit) = Some s"
    using zeros_walk [OF z Suc.prems(1)] c unfolding huff_decode_def by (metis fst_conv)
  then show ?case using Suc.IH [OF z] c assms(3) by simp
qed simp

lemma truncated_block_never_returns_witness:
  "\<forall>fuel. block_decode fuel \<lparr>hf_cnt = (replicate 16 0)[1 := 2], hf_sym = [65, 256]\<rparr> huff_new (bit_init []) [] = None"
proof
  fix fuel
  let ?lit = "\<lparr>hf_cnt = (replicate 16 0)[1 := 2], hf_sym = [65, 256]\<rparr>"
  have z: "only_zeros (bit_init [])" by (simp add: only_zeros_def)
  obtain c where c: "bit_get (bit_init []) 1 = (0, c)" using zeros_get [OF z] by (metis prod.collapse)
  have "[1..<16] = (1 :: nat) # [2..<16]" by (simp add: upt_rec)
  then have "fst (huff_decode (bit_init []) ?lit) = Some 65" using c by (simp add: huff_decode_def)
  then show "block_decode fuel ?lit huff_new (bit_init []) [] = None"
    by (rule truncated_block_never_returns [OF z]) simp
qed

end
