(* ===== verification/WubuZip_Correct.thy ===== *)
theory WubuZip_Correct
  imports WubuZip WubuFlate_Correct
begin

text \<open>
  The ZIP archive: the fields of the headers read back, the files the writer leaves, the reader run on
  them; the archive round trip through writer, deflate, inflate and reader; and the reads of
  \<open>extract\<close> that can leave the file.
\<close>

section \<open>Reading fields back\<close>

lemma rd_shift: "rd16 (a @ b) (length a + k) = rd16 b k" "rd32 (a @ b) (length a + k) = rd32 b k"
  by (simp_all add: rd16_def rd32_def nth_append)

lemma rd_skip:
  "2 \<le> i \<Longrightarrow> rd16 (putle16 v @ r) i = rd16 r (i - 2)" "4 \<le> i \<Longrightarrow> rd16 (putle32 w @ r) i = rd16 r (i - 4)"
  "2 \<le> i \<Longrightarrow> rd32 (putle16 v @ r) i = rd32 r (i - 2)" "4 \<le> i \<Longrightarrow> rd32 (putle32 w @ r) i = rd32 r (i - 4)"
  using rd_shift(1) [of "putle16 v" r "i - 2"] rd_shift(1) [of "putle32 w" r "i - 4"]
    rd_shift(2) [of "putle16 v" r "i - 2"] rd_shift(2) [of "putle32 w" r "i - 4"]
  by (simp_all only: length_putle le_add_diff_inverse)

lemma rd_here: "rd16 (putle16 v @ r) 0 = v" "rd32 (putle32 w @ r) 0 = w"
  using rd16_putle16 [of "[]" v r] rd32_putle32 [of "[]" w r] by simp_all

lemmas rd_simps = rd_skip rd_here

lemma length_headers [simp]:
  "length (local_header m c p s nl) = 30" "length (central_header e) = 46" "length (end_record n s f) = 22"
  by (simp_all add: local_header_def central_header_def end_record_def)

lemma local_header_fields:
  "rd16 (local_header m c p s nl @ r) 26 = nl" "rd16 (local_header m c p s nl @ r) 28 = 0"
  by (simp_all add: local_header_def rd_simps)

lemma central_header_fields:
  "rd16 (central_header e @ r) 10 = cd_method e" "rd32 (central_header e @ r) 16 = cd_crc e"
  "rd32 (central_header e @ r) 20 = cd_comp_size e" "rd32 (central_header e @ r) 24 = cd_size e"
  "rd16 (central_header e @ r) 28 = of_nat (length (cd_name e))" "rd16 (central_header e @ r) 30 = 0"
  "rd16 (central_header e @ r) 32 = 0" "rd32 (central_header e @ r) 42 = cd_off e"
  by (simp_all add: central_header_def rd_simps)

lemma end_record_fields:
  "rd16 (end_record n s f) 10 = n" "rd32 (end_record n s f) 16 = f"
  by (simp_all add: end_record_def rd_simps)

lemma sig_shift: "sig_at (a @ b) (length a) x y = sig_at b 0 x y"
  by (simp add: sig_at_def nth_append numeral_2_eq_2)

lemma sig_central: "sig_at (central_header e @ r) 0 1 2"
  by (simp add: sig_at_def central_header_def putle32_def)

lemma sig_end: "sig_at (end_record n s f) 0 5 6"
  by (simp add: sig_at_def end_record_def putle32_def)

lemma find_eocd_end: "find_eocd (a @ end_record n s f) (length a) = Some (length a)"
proof (cases "length a")
  case 0
  then show ?thesis using sig_end [of n s f] by simp
next
  case (Suc k)
  then show ?thesis using sig_end [of n s f] sig_shift [of a "end_record n s f" 5 6] by simp
qed

text \<open>The loop of the reader over directory records that the writer has written.\<close>

definition dir_record :: "zip_cd \<Rightarrow> u8 list" where
  "dir_record e = central_header e @ cd_name e"

definition entry_of :: "zip_cd \<Rightarrow> zip_entry" where
  "entry_of e = \<lparr>ze_name = Some (cd_name e), ze_method = ucast (cd_method e), ze_comp_size = cd_comp_size e,
     ze_uncomp_size = cd_size e, ze_crc = cd_crc e, ze_local_off = cd_off e\<rparr>"

lemma read_entry_written:
  assumes "length (cd_name e) < 65536"
  shows "read_entry (pre @ dir_record e @ r) (length pre) = Result (entry_of e, length pre + length (dir_record e))"
proof -
  have n: "unat (of_nat (length (cd_name e)) :: u16) = length (cd_name e)" using assms by (simp add: unat_of_nat take_bit_nat_eq_self)
  have d: "drop (length pre + 46) (pre @ central_header e @ cd_name e @ r) = cd_name e @ r" by simp
  show ?thesis
    by (simp add: read_entry_def dir_record_def rd_shift central_header_fields n d entry_of_def Let_def)
qed

lemma open_loop_written:
  "\<forall>e \<in> set es. length (cd_name e) < 65536 \<Longrightarrow> za_data z = pre @ concat (map dir_record es) @ r \<Longrightarrow>
    za_n z = i + length es \<Longrightarrow> length (za_entries z) = k \<Longrightarrow> i + length es \<le> k \<Longrightarrow>
    open_loop i (length pre) z =
      Result (0, z\<lparr>za_entries := take i (za_entries z) @ map entry_of es @ drop (i + length es) (za_entries z)\<rparr>)"
proof (induction es arbitrary: i z pre)
  case Nil
  then show ?case by (subst open_loop.simps) simp
next
  case (Cons e es)
  let ?z = "z\<lparr>za_entries := (za_entries z)[i := entry_of e]\<rparr>"
  have d: "za_data z = pre @ dir_record e @ concat (map dir_record es) @ r" using Cons.prems(2) by simp
  have sg: "sig_at (za_data z) (length pre) 1 2"
    unfolding d sig_shift by (simp add: dir_record_def sig_central)
  have l: "\<not> length pre + 46 > length (za_data z)" by (simp add: d dir_record_def)
  have re: "read_entry (za_data z) (length pre) = Result (entry_of e, length pre + length (dir_record e))"
    unfolding d by (rule read_entry_written) (use Cons.prems(1) in simp)
  have i: "i < za_n z" using Cons.prems(3) by simp
  have "open_loop i (length pre) z = open_loop (i + 1) (length pre + length (dir_record e)) ?z"
    by (subst open_loop.simps) (simp add: i l sg re)
  also have "\<dots> = Result (0, ?z\<lparr>za_entries := take (i + 1) (za_entries ?z) @ map entry_of es
      @ drop (i + 1 + length es) (za_entries ?z)\<rparr>)"
    using Cons.IH [of ?z "pre @ dir_record e" "i + 1"] Cons.prems d by simp
  also have "\<dots> = Result (0, z\<lparr>za_entries := take i (za_entries z) @ map entry_of (e # es)
      @ drop (i + length (e # es)) (za_entries z)\<rparr>)"
    using Cons.prems(4,5) by (simp add: take_Suc_conv_app_nth)
  finally show ?case .
qed

text \<open>Opening a file made of anything, the directory and the end record.\<close>

lemma open_written:
  assumes "\<forall>e \<in> set es. length (cd_name e) < 65536" and "length es < 65536" and "length body < 2 ^ 32"
  shows "\<exists>z. wubuzip_open (body @ concat (map dir_record es) @ end_record (of_nat (length es)) s (of_nat (length body))) = Result (0, z)
    \<and> za_data z = body @ concat (map dir_record es) @ end_record (of_nat (length es)) s (of_nat (length body))
    \<and> za_n z = length es \<and> take (length es) (za_entries z) = map entry_of es"
proof -
  let ?a = "body @ concat (map dir_record es)"
  let ?er = "end_record (of_nat (length es)) s (of_nat (length body))"
  let ?F = "?a @ ?er"
  have start: "(if length ?F > 22 then length ?F - 22 else 0) = length ?a" by simp
  have n: "unat (of_nat (length es) :: u16) = length es" using assms(2) by (simp add: unat_of_nat take_bit_nat_eq_self)
  have o: "unat (of_nat (length body) :: u32) = length body" using assms(3) by (simp add: unat_of_nat take_bit_nat_eq_self)
  have r: "rd16 ?F (length ?a + 10) = of_nat (length es)" "rd32 ?F (length ?a + 16) = of_nat (length body)"
    unfolding rd_shift by (simp_all only: end_record_fields)
  let ?z = "\<lparr>za_data = ?F, za_entries = replicate (if length es \<noteq> 0 then length es else 1) zero_entry, za_n = length es\<rparr>"
  have e: "wubuzip_open ?F = open_loop 0 (length body) ?z"
    unfolding wubuzip_open_def Let_def start find_eocd_end r option.case by (simp add: n o)
  have l: "open_loop 0 (length body) ?z = Result (0, ?z\<lparr>za_entries := take 0 (za_entries ?z) @ map entry_of es
      @ drop (0 + length es) (za_entries ?z)\<rparr>)"
    by (rule open_loop_written [where r = ?er]) (use assms(1) in auto)
  show ?thesis using e l by simp
qed

section \<open>What the writer leaves in the file\<close>

text \<open>The payload of an entry: the data itself, or a stream that inflates to it.\<close>

definition payload_of :: "u16 \<Rightarrow> u8 list \<Rightarrow> u8 list \<Rightarrow> bool" where
  "payload_of m packed data \<longleftrightarrow> (m = 0 \<and> packed = data) \<or>
     (m = 8 \<and> (\<forall>fuel \<ge> 32769. wubuzip_inflate fuel packed False = Some (Some data)))"

definition entry_in :: "u8 list \<Rightarrow> zip_cd \<Rightarrow> u8 list \<Rightarrow> u8 list \<Rightarrow> bool" where
  "entry_in bytes e n data \<longleftrightarrow> (\<exists>pre packed post.
     bytes = pre @ local_header (cd_method e) (cd_crc e) (cd_comp_size e) (cd_size e) (of_nat (length n)) @ n @ packed @ post
     \<and> cd_off e = of_nat (length pre) \<and> cd_comp_size e = of_nat (length packed) \<and> cd_size e = of_nat (length data)
     \<and> cd_name e = n \<and> length n < 65536 \<and> payload_of (cd_method e) packed data)"

lemma entry_in_append: "entry_in bytes e n data \<Longrightarrow> entry_in (bytes @ later) e n data"
  unfolding entry_in_def by (metis append.assoc)

definition writer_ok :: "zip_writer \<Rightarrow> (u8 list \<times> u8 list) list \<Rightarrow> bool" where
  "writer_ok z items \<longleftrightarrow> length (zw_cds z) = length items \<and> zw_count z = of_nat (length items) \<and> length items < 65536 \<and>
     (\<forall>i < length items. entry_in (zf_bytes (zw_out z)) (zw_cds z ! i) (fst (items ! i)) (snd (items ! i)))"

lemma writer_ok_create: "writer_ok (wubuzip_create f) []"
  by (simp add: writer_ok_def wubuzip_create_def)

lemma fwrite_ok: "fwrite f bs = (True, f1) \<Longrightarrow> zf_bytes f1 = zf_bytes f @ bs"
  by (auto simp: fwrite_def Let_def)

lemma write_entry_bytes:
  assumes "write_entry z name data m payload = (0, z1)" and "length (entry_name name) < 65536"
    and "length payload < 2 ^ 32"
  shows "\<exists>e. z1 = push_cd (z\<lparr>zw_out := zw_out z1\<rparr>) e \<and> zf_bytes (zw_out z1) = zf_bytes (zw_out z) @
      local_header m (cd_crc e) (cd_comp_size e) (cd_size e) (of_nat (length (entry_name name))) @ entry_name name @ payload
    \<and> e = \<lparr>cd_name = entry_name name, cd_crc = wubuzip_crc32 data, cd_size = of_nat (length data),
        cd_comp_size = of_nat (length payload), cd_off = of_nat (length (zf_bytes (zw_out z))), cd_method = m\<rparr>"
proof -
  let ?n = "entry_name name"
  have nl: "unat (of_nat (length ?n) :: u16) = length ?n" using assms(2) by (simp add: unat_of_nat take_bit_nat_eq_self)
  have pl: "unat (of_nat (length payload) :: u32) = length payload" using assms(3) by (simp add: unat_of_nat take_bit_nat_eq_self)
  have p0: "(of_nat (length payload) :: u32) = 0 \<longleftrightarrow> payload = []"
  proof
    assume "(of_nat (length payload) :: u32) = 0"
    then have "unat (of_nat (length payload) :: u32) = 0" by simp
    then show "payload = []" unfolding pl by simp
  qed simp
  let ?lh = "local_header m (wubuzip_crc32 data) (of_nat (length payload)) (of_nat (length data)) (of_nat (length ?n))"
  let ?cd = "\<lparr>cd_name = ?n, cd_crc = wubuzip_crc32 data, cd_size = of_nat (length data),
        cd_comp_size = of_nat (length payload), cd_off = of_nat (length (zf_bytes (zw_out z))), cd_method = m\<rparr>"
  obtain ok1 f1 where f1: "fwrite (zw_out z) ?lh = (ok1, f1)" by (metis prod.collapse)
  obtain ok2 f2 where f2: "fwrite f1 ?n = (ok2, f2)" by (metis prod.collapse)
  obtain ok3 f3 where f3: "(if payload \<noteq> [] then fwrite f2 payload else (True, f2)) = (ok3, f3)" by (metis prod.collapse)
  have w: "write_entry z name data m payload =
      (if \<not> ok1 then (-1, z\<lparr>zw_out := f1\<rparr>) else if \<not> ok2 then (-1, z\<lparr>zw_out := f2\<rparr>) else if \<not> ok3 then (-1, z\<lparr>zw_out := f3\<rparr>)
       else (0, push_cd (z\<lparr>zw_out := f3\<rparr>) ?cd))"
    unfolding write_entry_def Let_def f1 prod.case nl take_all [OF order_refl] f2 pl p0 f3 ftell_def by (rule refl)
  have z1: "ok1" "ok2" "ok3" "z1 = push_cd (z\<lparr>zw_out := f3\<rparr>) ?cd"
    using assms(1) unfolding w by (simp_all split: if_splits)
  have "zf_bytes f3 = zf_bytes f2 @ payload" using f3 z1(3) fwrite_ok by (cases "payload = []") simp_all
  moreover have "zf_bytes f2 = zf_bytes f1 @ ?n" using f2 z1(2) fwrite_ok by simp
  moreover have "zf_bytes f1 = zf_bytes (zw_out z) @ ?lh" using f1 z1(1) fwrite_ok by simp
  ultimately have "zf_bytes f3 = zf_bytes (zw_out z) @ ?lh @ ?n @ payload" by simp
  moreover have "zw_out z1 = f3" unfolding z1(4) by (simp add: push_cd_def Let_def)
  ultimately show ?thesis using z1(4) by (intro exI [of _ ?cd]) simp
qed

lemma write_entry_ok:
  assumes w: "writer_ok z items" and e: "write_entry z name data m payload = (0, z1)"
    and l: "length (entry_name name) < 65536" "length payload < 2 ^ 32" "length items + 1 < 65536"
    and p: "payload_of m payload data"
  shows "writer_ok z1 (items @ [(entry_name name, data)])"
proof -
  let ?n = "entry_name name"
  obtain e where z1: "z1 = push_cd (z\<lparr>zw_out := zw_out z1\<rparr>) e" and b: "zf_bytes (zw_out z1) = zf_bytes (zw_out z) @
      local_header m (cd_crc e) (cd_comp_size e) (cd_size e) (of_nat (length ?n)) @ ?n @ payload"
    and e: "e = \<lparr>cd_name = ?n, cd_crc = wubuzip_crc32 data, cd_size = of_nat (length data),
        cd_comp_size = of_nat (length payload), cd_off = of_nat (length (zf_bytes (zw_out z))), cd_method = m\<rparr>"
    using write_entry_bytes [OF e l(1,2)] by blast
  have len: "length (zw_cds z) = length items" "zw_count z = of_nat (length items)" "length items < 65536"
    and old: "\<forall>i < length items. entry_in (zf_bytes (zw_out z)) (zw_cds z ! i) (fst (items ! i)) (snd (items ! i))"
    using w by (simp_all add: writer_ok_def)
  have c: "unat (of_nat (length items) :: u16) = length items" using len(3) by (simp add: unat_of_nat take_bit_nat_eq_self)
  have cds: "zw_cds z1 = zw_cds z @ [e]" "zw_count z1 = of_nat (length (items @ [(?n, data)]))"
    by (subst z1, simp add: push_cd_def Let_def len c)+
  have new: "entry_in (zf_bytes (zw_out z1)) e ?n data"
    unfolding entry_in_def
    by (rule exI [of _ "zf_bytes (zw_out z)"], rule exI [of _ payload], rule exI [of _ "[]"]) (use b e l p in simp)
  have "entry_in (zf_bytes (zw_out z1)) (zw_cds z1 ! i) (fst ((items @ [(?n, data)]) ! i)) (snd ((items @ [(?n, data)]) ! i))"
    if "i < length (items @ [(?n, data)])" for i
  proof (cases "i < length items")
    case True
    then show ?thesis using old entry_in_append by (simp add: cds nth_append len b)
  next
    case False
    then have "i = length items" using that by simp
    then show ?thesis using new by (simp add: cds nth_append len)
  qed
  then show ?thesis using cds len l(3) by (simp add: writer_ok_def)
qed

text \<open>The precondition of a deflated entry: no block of the data takes the dynamic method.\<close>

definition no_dynamic :: "(coin list \<Rightarrow> coin list) \<Rightarrow> u8 list \<Rightarrow> bool" where
  "no_dynamic qs data \<longleftrightarrow> (\<forall>s. 32768 dvd s \<longrightarrow> s < length data \<longrightarrow> best_method qs (take 32768 (drop s data)) \<noteq> 2)"

lemma deflate_payload:
  assumes "no_dynamic qs data" and "length data < 2 ^ 32"
  shows "\<exists>packed. wubuzip_deflate qs data = Some packed \<and> payload_of 8 packed data"
proof -
  have "length data \<le> 32768 * 1000000" using assms(2) by simp
  note d = deflate_inflate [OF assms(1) [unfolded no_dynamic_def] this]
  obtain packed where "wubuzip_deflate qs data = Some packed" using d [of 32769] by auto
  moreover have "wubuzip_inflate fuel packed False = Some (Some data)" if "32769 \<le> fuel" for fuel
    using d [OF that] calculation by auto
  ultimately show ?thesis by (auto simp: payload_of_def)
qed

text \<open>One archive: entries added in order, each stored or deflated, as long as the calls succeed.\<close>

type_synonym zip_item = "bool \<times> u8 list \<times> u8 list"

fun zip_build :: "(coin list \<Rightarrow> coin list) \<Rightarrow> zip_writer \<Rightarrow> zip_item list \<Rightarrow> zip_writer option" where
  "zip_build qs z [] = Some z"
| "zip_build qs z ((d, n, x) # items) =
     (let (rc, z) = (if d then wubuzip_add_deflated qs z n x else wubuzip_add z n x)
      in if rc \<noteq> 0 then None else zip_build qs z items)"

definition item_ok :: "(coin list \<Rightarrow> coin list) \<Rightarrow> zip_item \<Rightarrow> bool" where
  "item_ok qs it = (case it of (d, n, x) \<Rightarrow>
     0 \<notin> set n \<and> length n < 65536 \<and> length x < 2 ^ 32 \<and> (d \<longrightarrow> no_dynamic qs x))"

lemma length_entry_name: "length (entry_name n) \<le> length n"
  by (simp add: entry_name_def)

lemma zip_add_ok:
  assumes w: "writer_ok z items" and i: "item_ok qs (d, n, x)" and l: "length items + 1 < 65536"
    and e: "(if d then wubuzip_add_deflated qs z n x else wubuzip_add z n x) = (0, z1)"
  shows "writer_ok z1 (items @ [(entry_name n, x)])"
proof -
  have n: "length (entry_name n) < 65536" "length x < 2 ^ 32" "d \<Longrightarrow> no_dynamic qs x"
    using i length_entry_name [of n] by (auto simp: item_ok_def)
  have store: "writer_ok z1 (items @ [(entry_name n, x)])" if "write_entry z n x 0 x = (0, z1)"
    by (rule write_entry_ok [OF w that n(1,2) l]) (simp add: payload_of_def)
  show ?thesis
  proof (cases "d \<and> x \<noteq> []")
    case False
    then have "write_entry z n x 0 x = (0, z1)" using e by (auto simp: wubuzip_add_def wubuzip_add_deflated_def split: if_splits)
    then show ?thesis by (rule store)
  next
    case True
    obtain packed where p: "wubuzip_deflate qs x = Some packed" "payload_of 8 packed x"
      using deflate_payload n True by blast
    show ?thesis
    proof (cases "length packed \<ge> length x")
      case True
      then have "write_entry z n x 0 x = (0, z1)" using e p \<open>d \<and> x \<noteq> []\<close> by (simp add: wubuzip_add_deflated_def)
      then show ?thesis by (rule store)
    next
      case False
      then have w1: "write_entry z n x 8 packed = (0, z1)" using e p True by (simp add: wubuzip_add_deflated_def)
      have "length packed < 2 ^ 32" using False n(2) by linarith
      from write_entry_ok [OF w w1 n(1) this l p(2)] show ?thesis .
    qed
  qed
qed

lemma zip_build_ok:
  "zip_build qs z its = Some z1 \<Longrightarrow> writer_ok z items \<Longrightarrow> \<forall>it \<in> set its. item_ok qs it \<Longrightarrow>
    length items + length its < 65536 \<Longrightarrow> writer_ok z1 (items @ map (\<lambda>(d, n, x). (entry_name n, x)) its)"
proof (induction its arbitrary: z items)
  case (Cons it its)
  obtain d n x where it: "it = (d, n, x)" by (metis prod_cases3)
  obtain rc z2 where a: "(if d then wubuzip_add_deflated qs z n x else wubuzip_add z n x) = (rc, z2)" by (metis prod.collapse)
  then have rc: "rc = 0" "zip_build qs z2 its = Some z1" using Cons.prems(1) by (auto simp: it split: if_splits)
  have "writer_ok z2 (items @ [(entry_name n, x)])"
    by (rule zip_add_ok [OF Cons.prems(2), of qs d]) (use Cons.prems(3,4) a rc in \<open>simp_all add: it\<close>)
  from Cons.IH [OF rc(2) this] Cons.prems(3,4) show ?case by (simp add: it)
qed simp

section \<open>The archive read back\<close>

lemma entry_in_name: "entry_in bytes e n x \<Longrightarrow> cd_name e = n \<and> length (cd_name e) < 65536"
  by (auto simp: entry_in_def)

lemma extract_written:
  assumes e: "entry_in (za_data z) e n x" and l: "length (za_data z) < 2 ^ 32" "length x < 2 ^ 32"
    and z: "za_entries z ! i = entry_of e" and fuel: "32769 \<le> fuel"
  shows "wubuzip_extract fuel z i = Result (Some x)"
proof -
  obtain pre packed post where d: "za_data z = pre @ local_header (cd_method e) (cd_crc e) (cd_comp_size e) (cd_size e)
        (of_nat (length n)) @ n @ packed @ post" and o: "cd_off e = of_nat (length pre)" and
      c: "cd_comp_size e = of_nat (length packed)" and s: "cd_size e = of_nat (length x)" and nl: "length n < 65536" and
      p: "payload_of (cd_method e) packed x"
    using e unfolding entry_in_def by blast
  let ?lh = "local_header (cd_method e) (cd_crc e) (cd_comp_size e) (cd_size e) (of_nat (length n))"
  have len: "length (za_data z) = length pre + 30 + length n + length packed + length post" by (simp add: d)
  have "cd_off e + 30 = of_nat (length pre + 30)" by (simp add: o)
  then have "unat (cd_off e + 30) = unat (of_nat (length pre + 30) :: u32)" by (rule arg_cong)
  also have "\<dots> = length pre + 30" using len l(1) by (simp only: unat_of_nat) simp
  finally have g: "unat (cd_off e + 30) = length pre + 30" "unat (cd_off e) = length pre"
    using len l(1) by (simp_all add: o unat_of_nat take_bit_nat_eq_self)
  have f: "unat (rd16 (za_data z) (length pre + 26)) = length n" "rd16 (za_data z) (length pre + 28) = 0"
    using nl by (simp_all add: d rd_shift local_header_fields unat_of_nat take_bit_nat_eq_self)
  have cs: "unat (cd_comp_size e) = length packed" "unat (cd_size e) = length x"
    using len l by (simp_all add: c s unat_of_nat take_bit_nat_eq_self)
  have dr: "drop (length pre + 30 + length n) (za_data z) = packed @ post" by (simp add: d)
  have m: "(ucast m :: u32) = 0 \<longleftrightarrow> m = 0" "(ucast m :: u32) = 8 \<longleftrightarrow> m = 8" for m :: u16
  proof -
    have "uint m < 2 ^ 16" using unsigned_less [of m, where 'a = int] by simp
    then have "uint (ucast m :: u32) = uint m" by (simp add: unsigned_ucast_eq take_bit_int_eq_self)
    then show "(ucast m :: u32) = 0 \<longleftrightarrow> m = 0" "(ucast m :: u32) = 8 \<longleftrightarrow> m = 8"
      by (simp_all add: word_uint_eq_iff)
  qed
  have x: "wubuzip_extract fuel z i =
     (if cd_method e = 0 then
        if length pre + 30 + length n + length x > length (za_data z) then Overread else Result (Some (take (length x) (packed @ post)))
      else if cd_method e = 8 then
        case wubuzip_inflate fuel packed False of None \<Rightarrow> NoFuel | Some r \<Rightarrow> Result r
      else Result None)"
    using len by (simp add: wubuzip_extract_def z entry_of_def g f cs dr m Let_def)
  show ?thesis using p fuel len unfolding x payload_of_def by auto
qed

lemma find_from_index:
  "\<forall>e \<in> set es. \<exists>n. ze_name e = Some n \<Longrightarrow> i < length es \<Longrightarrow> ze_name (es ! i) = Some n \<Longrightarrow>
    \<forall>j < i. ze_name (es ! j) \<noteq> Some n \<Longrightarrow> \<forall>e \<in> set es. \<forall>n. ze_name e = Some n \<longrightarrow> cbytes n = n \<Longrightarrow>
    find_from es k n = Result (Some (k + i))"
proof (induction es arbitrary: i k)
  case (Cons e es)
  obtain m where m: "ze_name e = Some m" "cbytes m = m" using Cons.prems(1,5) by auto
  show ?case
  proof (cases i)
    case 0
    then show ?thesis using Cons.prems(3) m by simp
  next
    case (Suc j)
    have "m \<noteq> n" using Cons.prems(4) Suc m(1) by auto
    moreover have "find_from es (Suc k) n = Result (Some (Suc k + j))"
      using Cons.prems Suc by (intro Cons.IH) auto
    ultimately show ?thesis using m Suc by simp
  qed
qed simp

lemma write_directory_ok:
  "write_directory es f s = ((True, s1), f1) \<Longrightarrow> \<forall>e \<in> set es. length (cd_name e) < 65536 \<Longrightarrow>
    zf_bytes f1 = zf_bytes f @ concat (map dir_record es)"
proof (induction es arbitrary: f s)
  case (Cons e es)
  have nl: "unat (of_nat (length (cd_name e)) :: u16) = length (cd_name e)"
    using Cons.prems(2) by (simp add: unat_of_nat take_bit_nat_eq_self)
  obtain ok1 g1 where g1: "fwrite f (central_header e) = (ok1, g1)" by (metis prod.collapse)
  obtain ok2 g2 where g2: "fwrite g1 (cd_name e) = (ok2, g2)" by (metis prod.collapse)
  have ok: "ok1" "ok2" and r: "write_directory es g2 (s + (46 + ucast (of_nat (length (cd_name e)) :: u16))) = ((True, s1), f1)"
    using Cons.prems(1) by (simp_all add: g1 g2 nl Let_def split: if_splits)
  have "zf_bytes f1 = zf_bytes g2 @ concat (map dir_record es)" by (rule Cons.IH [OF r]) (use Cons.prems(2) in simp)
  moreover have "zf_bytes g2 = zf_bytes f @ dir_record e"
    using fwrite_ok g1 g2 ok by (simp add: dir_record_def)
  ultimately show ?case by simp
qed simp

lemma finalize_ok:
  assumes w: "writer_ok z items" and f: "wubuzip_finalize z = (0, f1)"
  shows "\<exists>s. zf_bytes f1 = zf_bytes (zw_out z) @ concat (map dir_record (zw_cds z)) @
    end_record (of_nat (length (zw_cds z))) s (of_nat (length (zf_bytes (zw_out z))))"
    and "\<forall>e \<in> set (zw_cds z). length (cd_name e) < 65536"
proof -
  have len: "length (zw_cds z) = length items" "zw_count z = of_nat (length items)" "length items < 65536"
    and en: "\<forall>i < length items. entry_in (zf_bytes (zw_out z)) (zw_cds z ! i) (fst (items ! i)) (snd (items ! i))"
    using w by (simp_all add: writer_ok_def)
  show nm: "\<forall>e \<in> set (zw_cds z). length (cd_name e) < 65536"
    using en len(1) entry_in_name by (metis in_set_conv_nth)
  have c: "unat (zw_count z) = length (zw_cds z)" using len by (simp add: unat_of_nat take_bit_nat_eq_self)
  obtain ok1 s g1 where g1: "write_directory (zw_cds z) (zw_out z) 0 = ((ok1, s), g1)" by (metis prod.collapse)
  obtain ok2 g2 where g2: "fwrite g1 (end_record (zw_count z) s (of_nat (length (zf_bytes (zw_out z))))) = (ok2, g2)" by (metis prod.collapse)
  have "ok1" "ok2" "g2 = f1"
    using f by (auto simp: wubuzip_finalize_def Let_def c g1 g2 ftell_def split: if_splits)
  then have "zf_bytes f1 = zf_bytes (zw_out z) @ concat (map dir_record (zw_cds z)) @
    end_record (zw_count z) s (of_nat (length (zf_bytes (zw_out z))))"
    using fwrite_ok g2 write_directory_ok [of "zw_cds z" "zw_out z" 0 s g1] g1 nm by simp
  then show "\<exists>s. zf_bytes f1 = zf_bytes (zw_out z) @ concat (map dir_record (zw_cds z)) @
    end_record (of_nat (length (zw_cds z))) s (of_nat (length (zf_bytes (zw_out z))))" using len by auto
qed

lemma cbytes_id: "0 \<notin> set n \<Longrightarrow> cbytes n = n"
  by (simp add: cbytes_def takeWhile_eq_all_conv) (metis)

lemma set_entry_name: "set (entry_name n) \<subseteq> set n"
  by (auto simp: entry_name_def dest: list.set_sel(2))

text \<open>C10. The archive round trip, for entries that are stored, or deflated without the dynamic block
  method. Whatever such entries are added to a file that may already hold other bytes: when every
  call returns 0, opening the file lists exactly the entries in order under their names (without the
  leading slash), \<open>find\<close> gives the first entry of a name, and \<open>extract\<close>
  returns the data that was added. The success of the calls alone is not enough: data for which
  \<open>best_method\<close> chooses the dynamic method for some block (\<open>no_dynamic\<close>
  fails) is written without an error and lost. The other bounds are those of the format: fewer than
  65536 entries, names without NUL below 64 KiB, data and the whole file below \<open>2 ^ 32\<close>
  bytes. The fuel is more than the 32768 rounds the decoder needs for a block.\<close>

theorem archive_roundtrip:
  assumes "zip_build qs (wubuzip_create f) items = Some z" and "wubuzip_finalize z = (0, f1)"
    and "\<forall>it \<in> set items. item_ok qs it" and "length items < 65536" and "length (zf_bytes f1) < 2 ^ 32"
    and "32769 \<le> fuel"
  shows "\<exists>ar. wubuzip_open (zf_bytes f1) = Result (0, ar) \<and> wubuzip_count ar = length items \<and>
    (\<forall>i < length items. case items ! i of (d, n, x) \<Rightarrow>
       wubuzip_name ar i = Some (entry_name n) \<and> wubuzip_extract fuel ar i = Result (Some x) \<and>
       ((\<forall>j < i. entry_name (fst (snd (items ! j))) \<noteq> entry_name n) \<longrightarrow> wubuzip_find ar (entry_name n) = Result (Some i)))"
proof -
  let ?its = "map (\<lambda>(d, n, x). (entry_name n, x)) items"
  have w: "writer_ok z ?its"
    using zip_build_ok [OF assms(1) writer_ok_create assms(3)] assms(4) by simp
  then have len: "length (zw_cds z) = length items" and
    en: "\<forall>i < length items. entry_in (zf_bytes (zw_out z)) (zw_cds z ! i) (fst (?its ! i)) (snd (?its ! i))"
    by (simp_all add: writer_ok_def)
  obtain s where F: "zf_bytes f1 = zf_bytes (zw_out z) @ concat (map dir_record (zw_cds z)) @
    end_record (of_nat (length (zw_cds z))) s (of_nat (length (zf_bytes (zw_out z))))"
    using finalize_ok(1) [OF w assms(2)] by blast
  note nm = finalize_ok(2) [OF w assms(2)]
  have lb: "length (zf_bytes (zw_out z)) < 2 ^ 32" using assms(5) unfolding F by simp
  obtain ar where ar: "wubuzip_open (zf_bytes f1) = Result (0, ar)" "za_data ar = zf_bytes f1" "za_n ar = length items"
      "take (length items) (za_entries ar) = map entry_of (zw_cds z)"
    using open_written [OF nm _ lb, of s] assms(4) len unfolding F by auto
  have ei: "za_entries ar ! i = entry_of (zw_cds z ! i)" if "i < length items" for i
    using ar(4) that len by (metis nth_map nth_take)
  have P: "case items ! i of (d, n, x) \<Rightarrow>
       wubuzip_name ar i = Some (entry_name n) \<and> wubuzip_extract fuel ar i = Result (Some x) \<and>
       ((\<forall>j < i. entry_name (fst (snd (items ! j))) \<noteq> entry_name n) \<longrightarrow> wubuzip_find ar (entry_name n) = Result (Some i))"
    if i: "i < length items" for i
  proof -
    obtain d n x where it: "items ! i = (d, n, x)" by (metis prod_cases3)
    have ok: "item_ok qs (d, n, x)" using assms(3) nth_mem [OF i] it by metis
    have nz: "cbytes (entry_name n) = entry_name n" "length x < 2 ^ 32"
      using ok set_entry_name [of n] by (auto simp: item_ok_def intro: cbytes_id)
    have e: "entry_in (zf_bytes (zw_out z)) (zw_cds z ! i) (entry_name n) x" using en i it by auto
    have ed: "entry_in (za_data ar) (zw_cds z ! i) (entry_name n) x"
      unfolding ar(2) F by (rule entry_in_append [OF e])
    have x: "wubuzip_extract fuel ar i = Result (Some x)"
      by (rule extract_written [OF ed _ nz(2) ei [OF i] assms(6)]) (use assms(5) ar(2) in simp)
    have names: "cd_name (zw_cds z ! j) = entry_name (fst (snd (items ! j)))" if "j < length items" for j
      using en [rule_format, OF that] entry_in_name that by (auto split: prod.splits)
    have nn: "wubuzip_name ar i = Some (entry_name n)"
      using names [OF i] it nz(1) by (simp add: wubuzip_name_def ei [OF i] entry_of_def)
    have "wubuzip_find ar (entry_name n) = Result (Some (0 + i))"
      if u: "\<forall>j < i. entry_name (fst (snd (items ! j))) \<noteq> entry_name n"
      unfolding wubuzip_find_def ar(3,4)
    proof (rule find_from_index)
      show "\<forall>e \<in> set (map entry_of (zw_cds z)). \<forall>m. ze_name e = Some m \<longrightarrow> cbytes m = m"
      proof (intro ballI allI impI)
        fix e m assume "e \<in> set (map entry_of (zw_cds z))" "ze_name e = Some m"
        then obtain j where j: "j < length items" "m = cd_name (zw_cds z ! j)"
          using len by (auto simp: in_set_conv_nth entry_of_def)
        obtain d' n' x' where it': "items ! j = (d', n', x')" by (metis prod_cases3)
        have "item_ok qs (d', n', x')" using assms(3) nth_mem [OF j(1)] it' by metis
        then show "cbytes m = m" using names [OF j(1)] j(2) it' set_entry_name [of n'] by (auto simp: item_ok_def intro: cbytes_id)
      qed
      show "\<forall>j < i. ze_name (map entry_of (zw_cds z) ! j) \<noteq> Some (entry_name n)"
        using u i names len by (simp add: entry_of_def)
    qed (use i len names it in \<open>auto simp: entry_of_def\<close>)
    then show ?thesis using it nn x by simp
  qed
  show ?thesis using ar(1,3) P by (intro exI [of _ ar]) (simp add: wubuzip_count_def)
qed

lemma fwrite_room: "length (zf_bytes f) + length bs \<le> zf_room f \<Longrightarrow> fwrite f bs = (True, f\<lparr>zf_bytes := zf_bytes f @ bs\<rparr>)"
  by (simp add: fwrite_def Let_def)

lemma archive_roundtrip_witness:
  "\<exists>f1 ar. wubuzip_open f1 = Result (0, ar) \<and> wubuzip_count ar = 1 \<and> wubuzip_name ar 0 = Some [0x61] \<and>
    wubuzip_extract 40000 ar 0 = Result (Some [1, 2]) \<and> wubuzip_find ar [0x61] = Result (Some 0)"
proof -
  let ?f = "\<lparr>zf_bytes = [], zf_room = 1000\<rparr>" and ?items = "[(False, [0x2F, 0x61], [1, 2])] :: zip_item list"
  have n: "entry_name [0x2F, 0x61] = [0x61]" by (simp add: entry_name_def)
  obtain z where z: "zip_build (sort_key cn_w) (wubuzip_create ?f) ?items = Some z" "length (zf_bytes (zw_out z)) = 33"
      "zf_room (zw_out z) = 1000" "unat (zw_count z) = 1" "\<exists>e. zw_cds z = [e] \<and> cd_name e = [0x61]"
    by (simp add: wubuzip_create_def wubuzip_add_def write_entry_def Let_def n fwrite_room push_cd_def)
  then obtain e where e: "zw_cds z = [e]" "cd_name e = [0x61]" by blast
  have fin: "fst (wubuzip_finalize z) = 0 \<and> length (zf_bytes (snd (wubuzip_finalize z))) = 102"
    using z(2-4) e by (simp add: wubuzip_finalize_def Let_def fwrite_room ftell_def)
  then obtain f1 where f1: "wubuzip_finalize z = (0, f1)" "length (zf_bytes f1) = 102" by (metis prod.collapse)
  have "\<exists>ar. wubuzip_open (zf_bytes f1) = Result (0, ar) \<and> wubuzip_count ar = length ?items \<and>
    (\<forall>i < length ?items. case ?items ! i of (d, n, x) \<Rightarrow>
       wubuzip_name ar i = Some (entry_name n) \<and> wubuzip_extract 40000 ar i = Result (Some x) \<and>
       ((\<forall>j < i. entry_name (fst (snd (?items ! j))) \<noteq> entry_name n) \<longrightarrow> wubuzip_find ar (entry_name n) = Result (Some i)))"
    by (rule archive_roundtrip [OF z(1) f1(1)]) (simp_all add: item_ok_def f1(2))
  then show ?thesis using n by auto
qed

section \<open>Reads outside the file\<close>

text \<open>Extraction stays inside the file for every archive whose entry has a local offset that
  leaves room for a header in 32 bits and, when stored, does not claim more data than it occupies.\<close>

theorem extract_in_bounds:
  assumes "unat (ze_local_off (za_entries z ! i)) + 30 < 2 ^ 32"
    and "ze_method (za_entries z ! i) = 0 \<longrightarrow> ze_uncomp_size (za_entries z ! i) \<le> ze_comp_size (za_entries z ! i)"
  shows "wubuzip_extract fuel z i \<noteq> Overread"
proof -
  let ?e = "za_entries z ! i"
  have "ze_local_off ?e + 30 = of_nat (unat (ze_local_off ?e) + 30)" by simp
  then have "unat (ze_local_off ?e + 30) = unat (of_nat (unat (ze_local_off ?e) + 30) :: u32)" by (rule arg_cong)
  also have "\<dots> = unat (ze_local_off ?e) + 30" using assms(1) by (simp only: unat_of_nat) simp
  finally have g: "unat (ze_local_off ?e + 30) = unat (ze_local_off ?e) + 30" .
  have "ze_method ?e = 0 \<Longrightarrow> unat (ze_uncomp_size ?e) \<le> unat (ze_comp_size ?e)" using assms(2) by (simp add: word_le_nat_alt)
  then show ?thesis by (auto simp: wubuzip_extract_def Let_def g split: option.splits)
qed

lemma extract_in_bounds_witness:
  "wubuzip_extract 5 \<lparr>za_data = [1, 2, 3], za_entries = [zero_entry], za_n = 1\<rparr> 0 \<noteq> Overread"
  by (rule extract_in_bounds) (simp_all add: zero_entry_def)

text \<open>Nothing checks the second condition. A file that is well-formed but for the uncompressed
  size of one stored entry is opened with 0, and extracting the entry reads past the end of the file:
  only the compressed size is compared with what is there.\<close>

theorem crafted_size_overreads:
  assumes "cd_method e = 0" and "cd_off e = 0" and "cd_comp_size e = 0" and "length (cd_name e) < 65536"
    and "file = local_header 0 (cd_crc e) 0 (cd_size e) (of_nat (length (cd_name e))) @ cd_name e @ dir_record e
      @ end_record 1 s (of_nat (30 + length (cd_name e)))"
    and "length file < unat (cd_size e)"
  shows "\<exists>z. wubuzip_open file = Result (0, z) \<and> wubuzip_count z = 1 \<and> wubuzip_extract fuel z 0 = Overread"
proof -
  let ?lh = "local_header 0 (cd_crc e) 0 (cd_size e) (of_nat (length (cd_name e)))"
  let ?body = "?lh @ cd_name e"
  have F: "file = ?body @ concat (map dir_record [e]) @ end_record (of_nat (length [e])) s (of_nat (length ?body))"
    by (simp add: assms(5))
  obtain z where z: "wubuzip_open file = Result (0, z)" "za_data z = file" "za_n z = 1" "take 1 (za_entries z) = [entry_of e]"
    using open_written [of "[e]" ?body s] assms(4) unfolding F by auto
  have e0: "za_entries z ! 0 = entry_of e" using z(4) by (cases "za_entries z") simp_all
  have len: "length file = 98 + 2 * length (cd_name e)" by (simp add: assms(5) dir_record_def)
  have f: "unat (rd16 file 26) = length (cd_name e)" "rd16 file 28 = 0"
    using assms(4) by (simp_all add: assms(5) local_header_fields unat_of_nat take_bit_nat_eq_self)
  have "wubuzip_extract fuel z 0 = Overread"
    using assms(1,2,3,6) by (simp add: wubuzip_extract_def e0 entry_of_def z(2) Let_def f len)
  then show ?thesis using z by (auto simp: wubuzip_count_def)
qed

lemma crafted_size_overreads_witness:
  "\<exists>file z. length file = 100 \<and> wubuzip_open file = Result (0, z) \<and> wubuzip_extract 1 z 0 = Overread"
proof -
  let ?e = "\<lparr>cd_name = [0x61], cd_crc = 0, cd_size = 1000, cd_comp_size = 0, cd_off = 0, cd_method = 0\<rparr>"
  let ?file = "local_header 0 (cd_crc ?e) 0 (cd_size ?e) (of_nat (length (cd_name ?e))) @ cd_name ?e @ dir_record ?e
      @ end_record 1 47 (of_nat (30 + length (cd_name ?e)))"
  have l: "length ?file = 100" by (simp add: dir_record_def)
  have "\<exists>z. wubuzip_open ?file = Result (0, z) \<and> wubuzip_count z = 1 \<and> wubuzip_extract 1 z 0 = Overread"
    by (rule crafted_size_overreads [OF _ _ _ _ refl]) (simp_all add: dir_record_def)
  then show ?thesis using l by blast
qed

end
