(* ===== verification/Cron.thy ===== *)
theory Cron
  imports Slermes_Prelude
begin

text \<open>
  \<^verbatim>\<open>lib/libcron/cron.c\<close>: the cron expression parser, the matching of a time, the search of the next
  matching time, and the description. A field is its 60 flags and the wildcard flag. C ints are
  integers; the one addition that can overflow, in the loop over a step, has the outcome \<open>Overflow\<close>, and
  a write outside a flag array has the outcome \<open>Out_Of_Bounds\<close>. The
  division of negative ints truncates, as in C. \<open>mktime\<close> followed by \<open>localtime_r\<close> depends on the time
  zone of the host and is the parameter \<open>norm\<close> of the search: None is the failure -1 of \<open>mktime\<close>,
  which leaves its argument alone. Allocations succeed; \<open>strdup\<close> copies.
\<close>

section \<open>Library calls\<close>

definition c_quot :: "int \<Rightarrow> int \<Rightarrow> int" where
  "c_quot a b = (if a \<ge> 0 then a div b else - ((- a) div b))"

definition c_rem :: "int \<Rightarrow> int \<Rightarrow> int" where
  "c_rem a b = a - b * c_quot a b"

definition c_isalpha :: "char \<Rightarrow> bool" where
  "c_isalpha c \<longleftrightarrow> 97 \<le> (of_char (c_tolower c) :: int) \<and> (of_char (c_tolower c) :: int) \<le> 122"

text \<open>\<open>atoi\<close>: \<open>strtol\<close> converted to a 32-bit int.\<close>

definition c_atoi :: "string \<Rightarrow> int" where
  "c_atoi s = (fst (c_strtol 10 s) + 2147483648) mod 4294967296 - 2147483648"

text \<open>The tokens that repeated \<open>strtok_r\<close> calls return: maximal runs of other characters.\<close>

function c_tokens :: "string \<Rightarrow> string \<Rightarrow> string list" where
  "c_tokens delims s =
     (let t = dropWhile (\<lambda>c. c \<in> set delims) s
      in if t = [] then []
         else takeWhile (\<lambda>c. c \<notin> set delims) t # c_tokens delims (dropWhile (\<lambda>c. c \<notin> set delims) t))"
  by pat_completeness auto
termination
proof (relation "measure (\<lambda>(delims, s). length s)", goal_cases)
  case (2 delims s t)
  then have "hd t \<notin> set delims" by (metis hd_dropWhile)
  moreover obtain a as where t: "t = a # as" using 2(2) by (metis list.exhaust)
  ultimately have "length (dropWhile (\<lambda>c. c \<notin> set delims) t) < length t"
    using length_dropWhile_le [of "\<lambda>c. c \<notin> set delims" as] by (simp add: le_imp_less_Suc)
  also have "\<dots> \<le> length s" using 2 by (simp add: length_dropWhile_le)
  finally show ?case by simp
qed simp

declare c_tokens.simps [simp del]

section \<open>Fields\<close>

definition MAX_BITS :: nat where
  "MAX_BITS = 60"

record cron_field =
  cf_bits :: "bool list"
  cf_any :: bool

record cron_expr =
  ce_minute :: cron_field
  ce_hour :: cron_field
  ce_dom :: cron_field
  ce_month :: cron_field
  ce_dow :: cron_field
  ce_raw :: string

definition name_index :: "string list \<Rightarrow> string \<Rightarrow> int option" where
  "name_index names s = map_option int (find (\<lambda>i. map c_tolower s = names ! i) [0..<length names])"

definition month_name_to_num :: "string \<Rightarrow> int" where
  "month_name_to_num s =
     (case name_index [''jan'',''feb'',''mar'',''apr'',''may'',''jun'',''jul'',''aug'',''sep'',''oct'',''nov'',''dec''] s of
        Some i \<Rightarrow> i + 1 | None \<Rightarrow> -1)"

definition dow_name_to_num :: "string \<Rightarrow> int" where
  "dow_name_to_num s =
     (case name_index [''sun'',''mon'',''tue'',''wed'',''thu'',''fri'',''sat''] s of Some i \<Rightarrow> i | None \<Rightarrow> -1)"

definition days_in_month :: "int \<Rightarrow> int \<Rightarrow> int" where
  "days_in_month mon year_full =
     (if mon = 2 then
        if (c_rem year_full 4 = 0 \<and> c_rem year_full 100 \<noteq> 0) \<or> c_rem year_full 400 = 0 then 29 else 28
      else if mon \<in> {4, 6, 9, 11} then 30 else 31)"

definition wday_for :: "int \<Rightarrow> int \<Rightarrow> int \<Rightarrow> int" where
  "wday_for year_full mon mday =
     (let y = (if mon < 3 then year_full - 1 else year_full)
      in c_rem (y + c_quot y 4 - c_quot y 100 + c_quot y 400 + [0, 3, 2, 5, 0, 3, 5, 1, 4, 6, 2, 4] ! nat (mon - 1) + mday) 7)"

section \<open>Parsing\<close>

text \<open>The parser's outcome: a result, the return value false, or one of the two kinds of undefined
  behaviour.\<close>

datatype 'a parse_result = Parsed 'a | Rejected | Overflow | Out_Of_Bounds

fun parse_bind :: "'a parse_result \<Rightarrow> ('a \<Rightarrow> 'b parse_result) \<Rightarrow> 'b parse_result" where
  "parse_bind (Parsed x) f = f x"
| "parse_bind Rejected f = Rejected"
| "parse_bind Overflow f = Overflow"
| "parse_bind Out_Of_Bounds f = Out_Of_Bounds"

definition empty_field :: cron_field where
  "empty_field = \<lparr>cf_bits = replicate MAX_BITS False, cf_any = False\<rparr>"

definition set_bit_at :: "int \<Rightarrow> int \<Rightarrow> bool list \<Rightarrow> bool list parse_result" where
  "set_bit_at lo i bits =
     (if 0 \<le> i - lo \<and> i - lo < int (length bits) then Parsed (bits[nat (i - lo) := True]) else Out_Of_Bounds)"

text \<open>\<open>for (i = min; i <= max; i += step)\<close> with a positive step.\<close>

function set_steps :: "int \<Rightarrow> int \<Rightarrow> int \<Rightarrow> int \<Rightarrow> bool list \<Rightarrow> bool list parse_result" where
  "set_steps i lo hi step bits =
     (if i \<le> hi \<and> 0 < step then
        (case set_bit_at lo i bits of
           Parsed bits \<Rightarrow>
             if i + step > 2147483647 then Overflow
             else set_steps (i + step) lo hi step bits
         | r \<Rightarrow> r)
      else Parsed bits)"
  by pat_completeness auto
termination by (relation "measure (\<lambda>(i, lo, hi, step, bits). nat (hi + 1 - i))") auto

declare set_steps.simps [simp del]

text \<open>The loop over a range.\<close>

fun set_range :: "int \<Rightarrow> int list \<Rightarrow> bool list \<Rightarrow> bool list parse_result" where
  "set_range lo [] bits = Parsed bits"
| "set_range lo (i # is) bits = parse_bind (set_bit_at lo i bits) (set_range lo is)"

text \<open>A name of a month or a day of the week; -1 for neither.\<close>

definition name_value :: "string \<Rightarrow> int" where
  "name_value s = (let v = month_name_to_num s in if v < 0 then dow_name_to_num s else v)"

definition starts_alpha :: "string \<Rightarrow> bool" where
  "starts_alpha s \<longleftrightarrow> s \<noteq> [] \<and> c_isalpha (hd s)"

text \<open>One element of the comma-separated list.\<close>

definition parse_item :: "int \<Rightarrow> int \<Rightarrow> string \<Rightarrow> bool list \<Rightarrow> bool list parse_result" where
  "parse_item lo hi tok bits =
     (if CHR ''-'' \<in> set tok then
        let start_str = takeWhile (\<lambda>c. c \<noteq> CHR ''-'') tok;
            end_str = tl (dropWhile (\<lambda>c. c \<noteq> CHR ''-'') tok);
            named = starts_alpha start_str;
            start_val = (if named then name_value start_str else c_atoi start_str);
            end_val = (if named then name_value end_str else c_atoi end_str)
        in if named \<and> (start_val < 0 \<or> end_val < 0) then Rejected
           else let (start_val, end_val) = (if start_val > end_val then (end_val, start_val) else (start_val, end_val))
           in if start_val < lo \<or> end_val > hi then Rejected
              else set_range lo [start_val..end_val] bits
      else
        let named = starts_alpha tok;
            val = (if named then name_value tok else c_atoi tok)
        in if named \<and> val < 0 then Rejected
           else if val < lo \<or> val > hi then Rejected
           else set_bit_at lo val bits)"

fun parse_items :: "int \<Rightarrow> int \<Rightarrow> string list \<Rightarrow> bool list \<Rightarrow> bool list parse_result" where
  "parse_items lo hi [] bits = Parsed bits"
| "parse_items lo hi (tok # toks) bits = parse_bind (parse_item lo hi tok bits) (parse_items lo hi toks)"

definition parse_field :: "string \<Rightarrow> int \<Rightarrow> int \<Rightarrow> cron_field parse_result" where
  "parse_field str lo hi =
     (if str = [] then Rejected
      else if str = ''*'' then Parsed (empty_field\<lparr>cf_any := True\<rparr>)
      else if take 2 str = ''*/'' then
        let step = c_atoi (drop 2 str)
        in if step \<le> 0 then Rejected
           else parse_bind (set_steps lo lo hi step (cf_bits empty_field)) (\<lambda>bits. Parsed (empty_field\<lparr>cf_bits := bits\<rparr>))
      else
        parse_bind (parse_items lo hi (c_tokens '','' (c_trunc 64 str)) (cf_bits empty_field))
          (\<lambda>bits. Parsed (empty_field\<lparr>cf_bits := bits\<rparr>)))"

definition cron_specials :: "(string \<times> string) list" where
  "cron_specials =
     [(''@yearly'', ''0 0 1 1 *''), (''@annually'', ''0 0 1 1 *''), (''@monthly'', ''0 0 1 * *''),
      (''@weekly'', ''0 0 * * 0''), (''@daily'', ''0 0 * * *''), (''@hourly'', ''0 * * * *'')]"

definition is_special :: "string \<Rightarrow> string option" where
  "is_special expr =
     (case map_of cron_specials expr of
        Some cron \<Rightarrow> Some cron
      | None \<Rightarrow>
          if take 7 expr = ''@every '' then
            let (val, rest) = c_strtol 10 (drop 7 expr)
            in if val > 0 \<and> val \<le> 1000000 then
                 let rest = dropWhile (\<lambda>c. c = CHR '' '') rest
                 in if rest = [] \<or> hd rest = CHR ''m'' then Some (''*/'' @ c_dec val @ '' * * * *'')
                    else if hd rest = CHR ''h'' then Some (''0 */'' @ c_dec val @ '' * * *'')
                    else None
               else None
          else None)"

text \<open>The five fields in turn, and the error message (\<open>Inl\<close>) when one of them is rejected.\<close>

definition parse_fields :: "string list \<Rightarrow> string \<Rightarrow> cron_expr parse_result" where
  "parse_fields fs raw =
     parse_bind (parse_field (fs ! 0) 0 59) (\<lambda>minute.
     parse_bind (parse_field (fs ! 1) 0 23) (\<lambda>hour.
     parse_bind (parse_field (fs ! 2) 1 31) (\<lambda>mday.
     parse_bind (parse_field (fs ! 3) 1 12) (\<lambda>month.
     parse_bind (parse_field (fs ! 4) 0 6) (\<lambda>dow.
       Parsed \<lparr>ce_minute = minute, ce_hour = hour, ce_dom = mday, ce_month = month, ce_dow = dow, ce_raw = raw\<rparr>)))))"

definition cron_parse :: "string \<Rightarrow> (string + cron_expr) parse_result" where
  "cron_parse expr =
     (let actual = (case is_special expr of Some s \<Rightarrow> s | None \<Rightarrow> expr);
          fields = take 5 (c_tokens [CHR '' '', CHR 0x09] (c_trunc 128 actual))
      in if length fields < 5 then Parsed (Inl ''Need 5 fields (min hour dom month dow)'')
         else case parse_fields fields (c_trunc 128 expr) of
           Parsed c \<Rightarrow> Parsed (Inr c)
         | Rejected \<Rightarrow> Parsed (Inl ''Invalid field value'')
         | Overflow \<Rightarrow> Overflow
         | Out_Of_Bounds \<Rightarrow> Out_Of_Bounds)"

section \<open>Matching\<close>

text \<open>\<open>struct tm\<close>\<close>

record tm =
  tm_sec :: int
  tm_min :: int
  tm_hour :: int
  tm_mday :: int
  tm_mon :: int
  tm_year :: int
  tm_wday :: int
  tm_yday :: int
  tm_isdst :: int

definition field_match :: "cron_field \<Rightarrow> int \<Rightarrow> int \<Rightarrow> bool" where
  "field_match f val lo =
     (if cf_any f then True
      else let idx = val - lo
           in if idx < 0 \<or> idx \<ge> int MAX_BITS then False else cf_bits f ! nat idx)"

definition day_match :: "cron_expr \<Rightarrow> int \<Rightarrow> int \<Rightarrow> bool" where
  "day_match cron mday wday =
     (let dom_match = field_match (ce_dom cron) mday 1;
          dow_match = field_match (ce_dow cron) wday 0
      in if \<not> cf_any (ce_dom cron) \<and> \<not> cf_any (ce_dow cron) then dom_match \<or> dow_match
         else if \<not> cf_any (ce_dom cron) then dom_match
         else if \<not> cf_any (ce_dow cron) then dow_match
         else True)"

definition cron_match :: "cron_expr \<Rightarrow> tm \<Rightarrow> bool" where
  "cron_match cron t \<longleftrightarrow>
     day_match cron (tm_mday t) (tm_wday t) \<and> field_match (ce_minute cron) (tm_min t) 0
     \<and> field_match (ce_hour cron) (tm_hour t) 0 \<and> field_match (ce_month cron) (tm_mon t + 1) 1"

section \<open>The next matching time\<close>

fun first_some :: "('a \<Rightarrow> 'b option) \<Rightarrow> 'a list \<Rightarrow> 'b option" where
  "first_some f [] = None"
| "first_some f (x # xs) = (case f x of None \<Rightarrow> first_some f xs | Some y \<Rightarrow> Some y)"

text \<open>The loops from the inside out; None is \<open>continue\<close>.\<close>

definition next_minute :: "(tm \<Rightarrow> tm option) \<Rightarrow> cron_expr \<Rightarrow> tm \<Rightarrow> int \<Rightarrow> int \<Rightarrow> int \<Rightarrow> int \<Rightarrow> int \<Rightarrow> tm option" where
  "next_minute norm cron from year mon mday hour mi =
     (if \<not> field_match (ce_minute cron) mi 0 then None
      else if year = tm_year from \<and> mon - 1 = tm_mon from \<and> mday = tm_mday from \<and> hour = tm_hour from \<and> mi \<le> tm_min from then None
      else norm (from\<lparr>tm_sec := 0, tm_isdst := -1, tm_year := year, tm_mon := mon - 1, tm_mday := mday,
                      tm_hour := hour, tm_min := mi\<rparr>))"

definition next_hour :: "(tm \<Rightarrow> tm option) \<Rightarrow> cron_expr \<Rightarrow> tm \<Rightarrow> int \<Rightarrow> int \<Rightarrow> int \<Rightarrow> int \<Rightarrow> tm option" where
  "next_hour norm cron from year mon mday hour =
     (if \<not> field_match (ce_hour cron) hour 0 then None
      else if year = tm_year from \<and> mon - 1 = tm_mon from \<and> mday = tm_mday from \<and> hour < tm_hour from then None
      else first_some (next_minute norm cron from year mon mday hour) [0..59])"

definition next_day_of :: "(tm \<Rightarrow> tm option) \<Rightarrow> cron_expr \<Rightarrow> tm \<Rightarrow> int \<Rightarrow> int \<Rightarrow> int \<Rightarrow> tm option" where
  "next_day_of norm cron from year mon mday =
     (if year = tm_year from \<and> mon - 1 = tm_mon from \<and> mday < tm_mday from then None
      else if \<not> day_match cron mday (wday_for (year + 1900) mon mday) then None
      else first_some (next_hour norm cron from year mon mday) [0..23])"

definition next_month :: "(tm \<Rightarrow> tm option) \<Rightarrow> cron_expr \<Rightarrow> tm \<Rightarrow> int \<Rightarrow> int \<Rightarrow> tm option" where
  "next_month norm cron from year mon =
     (if \<not> field_match (ce_month cron) mon 1 then None
      else if year = tm_year from \<and> mon - 1 < tm_mon from then None
      else first_some (next_day_of norm cron from year mon) [1..days_in_month mon (year + 1900)])"

definition cron_next :: "(tm \<Rightarrow> tm option) \<Rightarrow> cron_expr \<Rightarrow> tm \<Rightarrow> tm option" where
  "cron_next norm cron from =
     first_some (\<lambda>year. first_some (next_month norm cron from year) [1..12]) [tm_year from..199]"

section \<open>Description\<close>

definition fmt_02d :: "int \<Rightarrow> string" where
  "fmt_02d i = (let s = c_dec i in if length s < 2 then ''0'' @ s else s)"

definition first_bit :: "cron_field \<Rightarrow> int" where
  "first_bit f = (if cf_bits f ! 0 then 1 else 0)"

definition cron_describe :: "cron_expr \<Rightarrow> string" where
  "cron_describe cron =
     (let m = cf_any (ce_minute cron); h = cf_any (ce_hour cron);
          rest = cf_any (ce_dom cron) \<and> cf_any (ce_month cron) \<and> cf_any (ce_dow cron)
      in c_trunc 256
        (if m \<and> h \<and> rest then ''Every minute''
         else if m \<and> \<not> h \<and> rest then ''Every minute past hour '' @ c_dec (first_bit (ce_hour cron))
         else if \<not> m \<and> \<not> h \<and> rest then
           ''At '' @ fmt_02d (first_bit (ce_hour cron)) @ '':'' @ fmt_02d (first_bit (ce_minute cron)) @ '' every day''
         else ''Cron: '' @ ce_raw cron))"

end
