(* ===== verification/Cron_Correct.thy ===== *)
theory Cron_Correct
  imports Cron "HOL-Library.Product_Lexorder"
begin

text \<open>
  The cron component: the weekday formula against counting days through the calendar, the five nested
  loops of the search as one search for the least good slot, the exactness of \<open>cron_next\<close>, the type of
  parsed expressions, and the accepted expressions that mean something else.
\<close>

section \<open>The weekday\<close>

text \<open>The Gregorian calendar, written independently of the code: the leap years, the table of the
  month lengths, and the day after a day.\<close>

definition leap_year :: "int \<Rightarrow> bool" where
  "leap_year y \<longleftrightarrow> (y mod 4 = 0 \<and> y mod 100 \<noteq> 0) \<or> y mod 400 = 0"

definition month_length :: "int \<Rightarrow> int \<Rightarrow> int" where
  "month_length y m = [31, if leap_year y then 29 else 28, 31, 30, 31, 30, 31, 31, 30, 31, 30, 31] ! nat (m - 1)"

type_synonym date = "int \<times> int \<times> int"

definition next_date :: "date \<Rightarrow> date" where
  "next_date = (\<lambda>(y, m, d). if d < month_length y m then (y, m, d + 1) else if m < 12 then (y, m + 1, 1) else (y + 1, 1, 1))"

definition date_ok :: "date \<Rightarrow> bool" where
  "date_ok = (\<lambda>(y, m, d). 1 \<le> y \<and> 1 \<le> m \<and> m \<le> 12 \<and> 1 \<le> d \<and> d \<le> month_length y m)"

text \<open>The date \<open>n\<close> days after 1970-01-01.\<close>

definition nth_date :: "nat \<Rightarrow> date" where
  "nth_date n = (next_date ^^ n) (1970, 1, 1)"

lemma c_quot_nonneg [simp]: "0 \<le> a \<Longrightarrow> c_quot a b = a div b"
  by (simp add: c_quot_def)

lemma c_rem_nonneg [simp]: "0 \<le> a \<Longrightarrow> c_rem a b = a mod b"
  by (simp add: c_rem_def minus_mult_div_eq_mod)

definition leap_days :: "int \<Rightarrow> int" where
  "leap_days y = y + y div 4 - y div 100 + y div 400"

lemma leap_days_nonneg: "0 \<le> y \<Longrightarrow> 0 \<le> leap_days y"
proof -
  assume "0 \<le> y"
  then have "y div 100 \<le> y div 4" "0 \<le> y div 400" by (simp_all add: zdiv_mono2)
  with \<open>0 \<le> y\<close> show ?thesis by (simp add: leap_days_def)
qed

lemma div_pred:
  assumes "0 < (k :: int)"
  shows "y div k = (y - 1) div k + (if y mod k = 0 then 1 else 0)"
proof (cases "(y - 1) mod k + 1 = k")
  case True
  have "k * ((y - 1) div k) + (y - 1) mod k = y - 1" by (rule mult_div_mod_eq)
  then have y: "y = k * ((y - 1) div k + 1) + 0" using True unfolding distrib_left by linarith
  then show ?thesis using assms int_div_pos_eq [OF y] int_mod_pos_eq [OF y] by simp
next
  case False
  have y: "y = k * ((y - 1) div k) + ((y - 1) mod k + 1)" by simp
  have "(y - 1) mod k < k" "0 \<le> (y - 1) mod k" using assms by simp_all
  then have m: "0 \<le> (y - 1) mod k + 1" "(y - 1) mod k + 1 < k" using False by linarith+
  then show ?thesis using \<open>0 \<le> (y - 1) mod k\<close> int_div_pos_eq [OF y m] int_mod_pos_eq [OF y m] by simp
qed

lemma leap_days_step: "leap_days y = leap_days (y - 1) + 1 + (if leap_year y then 1 else 0)"
proof -
  have "y mod 100 = y mod 400 mod 100" "y mod 4 = y mod 100 mod 4" by (simp_all add: mod_mod_cancel)
  then have c: "y mod 400 = 0 \<Longrightarrow> y mod 100 = 0" "y mod 100 = 0 \<Longrightarrow> y mod 4 = 0" by simp_all
  have d: "y div 4 = (y - 1) div 4 + (if y mod 4 = 0 then 1 else 0)"
    "y div 100 = (y - 1) div 100 + (if y mod 100 = 0 then 1 else 0)"
    "y div 400 = (y - 1) div 400 + (if y mod 400 = 0 then 1 else 0)" by (rule div_pred, simp)+
  show ?thesis unfolding leap_days_def d leap_year_def using c by (simp split: if_splits)
qed

definition month_key :: "int \<Rightarrow> int" where
  "month_key m = [0, 3, 2, 5, 0, 3, 5, 1, 4, 6, 2, 4] ! nat (m - 1)"

lemma wday_for_eq:
  assumes "1 \<le> y" and "1 \<le> d" and "1 \<le> m" and "m \<le> 12"
  shows "wday_for y m d = (leap_days (if m < 3 then y - 1 else y) + month_key m + d) mod 7"
proof -
  have "m \<in> {1, 2, 3, 4, 5, 6, 7, 8, 9, 10, 11, 12}" using assms(3,4) by simp presburger
  then have "0 \<le> month_key m" by (auto simp: month_key_def)
  then have "0 \<le> leap_days (if m < 3 then y - 1 else y) + month_key m + d"
    using assms leap_days_nonneg [of "y - 1"] leap_days_nonneg [of y] by auto
  then show ?thesis using assms by (simp add: wday_for_def Let_def leap_days_def month_key_def)
qed

lemma month_cases: "1 \<le> m \<Longrightarrow> m \<le> 12 \<Longrightarrow> m \<in> {1, 2, 3, 4, 5, 6, 7, 8, 9, 10, 11, 12 :: int}"
  by simp presburger

lemma month_length_eq:
  "1 \<le> m \<Longrightarrow> m \<le> 12 \<Longrightarrow>
    month_length y m = (if m = 2 then if leap_year y then 29 else 28 else if m \<in> {4, 6, 9, 11} then 30 else 31)"
  by (drule (1) month_cases) (elim insertE emptyE, simp_all add: month_length_def)

lemma month_length_pos: "1 \<le> m \<Longrightarrow> m \<le> 12 \<Longrightarrow> 28 \<le> month_length y m \<and> month_length y m \<le> 31"
  by (simp add: month_length_eq)

text \<open>The month lengths of the code are those of the calendar.\<close>

lemma days_in_month_calendar: "1 \<le> y \<Longrightarrow> 1 \<le> m \<Longrightarrow> m \<le> 12 \<Longrightarrow> days_in_month m y = month_length y m"
  by (simp add: days_in_month_def month_length_eq leap_year_def)

lemma date_ok_next: "date_ok x \<Longrightarrow> date_ok (next_date x)"
  by (cases x) (auto simp: date_ok_def next_date_def month_length_eq)

text \<open>The month table counts the days of the months before, modulo 7.\<close>

lemma month_key_step:
  "1 \<le> m \<Longrightarrow> m < 12 \<Longrightarrow> m \<noteq> 2 \<Longrightarrow> 1 \<le> y \<Longrightarrow> (month_key (m + 1) + 1) mod 7 = (month_key m + month_length y m + 1) mod 7"
proof -
  assume m: "1 \<le> m" "m < 12" "m \<noteq> 2" and y: "1 \<le> y"
  have "m \<in> {1, 3, 4, 5, 6, 7, 8, 9, 10, 11}" using m by simp presburger
  then show ?thesis using y by (elim insertE emptyE) (simp_all add: month_length_eq month_key_def)
qed

lemma add_mod_cong: "a mod 7 = b mod 7 \<Longrightarrow> (l + a) mod 7 = (l + b) mod (7 :: int)"
  by (rule mod_add_cong) simp_all

lemma wday_next:
  assumes "date_ok (y, m, d)" and "next_date (y, m, d) = (y1, m1, d1)"
  shows "wday_for y1 m1 d1 = (wday_for y m d + 1) mod 7"
proof -
  have ok: "1 \<le> y" "1 \<le> m" "m \<le> 12" "1 \<le> d" "d \<le> month_length y m" using assms(1) by (simp_all add: date_ok_def)
  let ?L = "leap_days (if m < 3 then y - 1 else y)"
  have w: "(wday_for y m d + 1) mod 7 = (?L + (month_key m + d + 1)) mod 7"
    using ok by (simp add: wday_for_eq mod_add_left_eq add.assoc)
  show ?thesis
  proof (cases "d < month_length y m")
    case True
    then have "y1 = y" "m1 = m" "d1 = d + 1" using assms(2) by (auto simp: next_date_def)
    then show ?thesis unfolding w using ok by (simp add: wday_for_eq add.assoc)
  next
    case False
    then have d: "d = month_length y m" using ok by simp
    consider "m = 12" | "m = 2" | "m < 12" "m \<noteq> 2" using ok by linarith
    then show ?thesis
    proof cases
      case 1
      then have e: "y1 = y + 1" "m1 = 1" "d1 = 1" using assms(2) False by (auto simp: next_date_def)
      have "(1 :: int) mod 7 = (month_key m + d + 1) mod 7" using 1 d ok by (simp add: month_length_eq month_key_def)
      from add_mod_cong [OF this, of ?L] show ?thesis unfolding w using ok 1 e by (simp add: wday_for_eq month_key_def)
    next
      case 2
      then have e: "y1 = y" "m1 = 3" "d1 = 1" using assms(2) False by (auto simp: next_date_def)
      have "wday_for y1 m1 d1 = (leap_days (y - 1) + (1 + (if leap_year y then 1 else 0) + 2 + 1)) mod 7"
        using ok e leap_days_step [of y] by (simp add: wday_for_eq month_key_def add.assoc)
      also have "\<dots> = (leap_days (y - 1) + (month_key m + d + 1)) mod 7"
        by (rule add_mod_cong) (use 2 d ok in \<open>simp add: month_length_eq month_key_def\<close>)
      finally show ?thesis unfolding w using 2 by simp
    next
      case 3
      then have e: "y1 = y" "m1 = m + 1" "d1 = 1" using assms(2) False by (auto simp: next_date_def)
      have "wday_for y1 m1 d1 = (?L + (month_key (m + 1) + 1)) mod 7"
        using ok e 3 by (simp add: wday_for_eq add.assoc)
      also have "\<dots> = (?L + (month_key m + d + 1)) mod 7"
        using add_mod_cong [OF month_key_step [OF ok(2) 3(1,2) ok(1)]] d by simp
      finally show ?thesis unfolding w .
    qed
  qed
qed

lemma nth_date_ok: "date_ok (nth_date n)"
proof (induction n)
  case 0
  show ?case by (simp add: nth_date_def date_ok_def month_length_def)
next
  case (Suc n)
  then show ?case using date_ok_next by (simp add: nth_date_def)
qed

text \<open>The weekday formula agrees with counting days: walking through the calendar from Thursday,
  1 January 1970, the formula gives the weekday of every date.\<close>

lemma wday_counts_days:
  "case nth_date n of (y, m, d) \<Rightarrow> wday_for y m d = (4 + int n) mod 7"
proof (induction n)
  case 0
  show ?case by (simp add: nth_date_def wday_for_def)
next
  case (Suc n)
  obtain y m d where n: "nth_date n = (y, m, d)" by (metis prod_cases3)
  obtain y1 m1 d1 where s: "next_date (y, m, d) = (y1, m1, d1)" by (metis prod_cases3)
  have "nth_date (Suc n) = (y1, m1, d1)" using n s by (simp add: nth_date_def)
  moreover have "wday_for y1 m1 d1 = (wday_for y m d + 1) mod 7"
    using wday_next [OF _ s] nth_date_ok [of n] n by simp
  ultimately show ?case using Suc.IH n by simp presburger
qed

section \<open>The search\<close>

text \<open>A search over a range of integers: it finds the least one for which the body answers.\<close>

lemma first_some_None: "first_some f xs = None \<longleftrightarrow> (\<forall>x \<in> set xs. f x = None)"
  by (induction xs) (auto split: option.splits)

lemma first_some_upto:
  "first_some f [a..b] = Some r \<longleftrightarrow> (\<exists>i. a \<le> i \<and> i \<le> b \<and> f i = Some r \<and> (\<forall>j. a \<le> j \<and> j < i \<longrightarrow> f j = None))"
proof (induction a b rule: upto.induct)
  case (1 a b)
  show ?case
  proof (cases "a \<le> b")
    case False
    then show ?thesis by (auto simp: upto.simps)
  next
    case le: True
    show ?thesis
    proof (cases "f a")
      case None
      have "(\<exists>i. a + 1 \<le> i \<and> i \<le> b \<and> f i = Some r \<and> (\<forall>j. a + 1 \<le> j \<and> j < i \<longrightarrow> f j = None)) \<longleftrightarrow>
        (\<exists>i. a \<le> i \<and> i \<le> b \<and> f i = Some r \<and> (\<forall>j. a \<le> j \<and> j < i \<longrightarrow> f j = None))"
      proof (intro iffI; elim exE conjE)
        fix i assume i: "a + 1 \<le> i" "i \<le> b" "f i = Some r" "\<forall>j. a + 1 \<le> j \<and> j < i \<longrightarrow> f j = None"
        have "f j = None" if "a \<le> j" "j < i" for j using i(4) None that by (cases "j = a") auto
        then show "\<exists>i. a \<le> i \<and> i \<le> b \<and> f i = Some r \<and> (\<forall>j. a \<le> j \<and> j < i \<longrightarrow> f j = None)" using i by (intro exI [of _ i]) auto
      next
        fix i assume i: "a \<le> i" "i \<le> b" "f i = Some r" "\<forall>j. a \<le> j \<and> j < i \<longrightarrow> f j = None"
        then have "i \<noteq> a" using None by auto
        then show "\<exists>i. a + 1 \<le> i \<and> i \<le> b \<and> f i = Some r \<and> (\<forall>j. a + 1 \<le> j \<and> j < i \<longrightarrow> f j = None)" using i by (intro exI [of _ i]) auto
      qed
      then show ?thesis using 1 [OF le] le None by (simp add: upto.simps [of a b])
    next
      case (Some y)
      have "i = a" if "a \<le> i" "\<forall>j. a \<le> j \<and> j < i \<longrightarrow> f j = None" for i
        using that Some by (cases "a < i") auto
      then have "(\<exists>i. a \<le> i \<and> i \<le> b \<and> f i = Some r \<and> (\<forall>j. a \<le> j \<and> j < i \<longrightarrow> f j = None)) \<longleftrightarrow> f a = Some r"
        using le by auto
      then show ?thesis using le Some by (simp add: upto.simps [of a b])
    qed
  qed
qed

text \<open>A result that answers a question about a set of candidates: None when none is good, otherwise the
  value of the least good one. Searching a range of blocks that are in order answers for their union.\<close>

definition answers :: "('s :: linorder \<Rightarrow> bool) \<Rightarrow> ('s \<Rightarrow> 'r option) \<Rightarrow> 's set \<Rightarrow> 'r option \<Rightarrow> bool" where
  "answers good val S res \<longleftrightarrow>
     (case res of None \<Rightarrow> \<forall>s \<in> S. \<not> good s
      | Some r \<Rightarrow> \<exists>s \<in> S. good s \<and> val s = Some r \<and> (\<forall>t \<in> S. good t \<longrightarrow> s \<le> t))"

lemma answers_first_some:
  assumes body: "\<And>i. a \<le> i \<Longrightarrow> i \<le> b \<Longrightarrow> answers good val (S i) (f i)"
    and ord: "\<And>i j s t. i < j \<Longrightarrow> s \<in> S i \<Longrightarrow> t \<in> S j \<Longrightarrow> s \<le> t"
  shows "answers good val (\<Union>i \<in> {a..b}. S i) (first_some f [a..b])"
proof (cases "first_some f [a..b]")
  case None
  then have "f i = None" if "a \<le> i" "i \<le> b" for i using that by (simp add: first_some_None)
  then have "\<forall>s \<in> S i. \<not> good s" if "a \<le> i" "i \<le> b" for i using body [OF that] that by (simp add: answers_def)
  then show ?thesis using None by (auto simp: answers_def)
next
  case (Some r)
  then obtain i where i: "a \<le> i" "i \<le> b" "f i = Some r" "\<forall>j. a \<le> j \<and> j < i \<longrightarrow> f j = None"
    by (auto simp: first_some_upto)
  obtain s where s: "s \<in> S i" "good s" "val s = Some r" "\<forall>t \<in> S i. good t \<longrightarrow> s \<le> t"
    using body [OF i(1,2)] i(3) by (auto simp: answers_def)
  have "s \<le> t" if t: "t \<in> S j" "good t" "a \<le> j" "j \<le> b" for t j
  proof (cases j i rule: linorder_cases)
    case less
    then have "f j = None" using i(4) t(3) by simp
    then have "\<forall>s \<in> S j. \<not> good s" using body [OF t(3,4)] by (simp add: answers_def)
    then show ?thesis using t by auto
  qed (use s t ord in auto)
  then have "\<forall>t \<in> (\<Union>i \<in> {a..b}. S i). good t \<longrightarrow> s \<le> t" by auto
  moreover have "s \<in> (\<Union>i \<in> {a..b}. S i)" using s(1) i(1,2) by auto
  ultimately show ?thesis using Some s(2,3) unfolding answers_def by auto
qed

lemma answers_guard: "(\<And>s. s \<in> S \<Longrightarrow> good s \<Longrightarrow> c) \<Longrightarrow> (c \<Longrightarrow> answers good val S res) \<Longrightarrow> answers good val S (if \<not> c then None else res)"
  by (auto simp: answers_def)

text \<open>The slots of the five loops: year since 1900, month from 1, day, hour, minute.\<close>

type_synonym slot = "int \<times> int \<times> int \<times> int \<times> int"

definition slot_match :: "cron_expr \<Rightarrow> slot \<Rightarrow> bool" where
  "slot_match cron = (\<lambda>(y, m, d, h, mi). field_match (ce_month cron) m 1 \<and> day_match cron d (wday_for (y + 1900) m d)
     \<and> field_match (ce_hour cron) h 0 \<and> field_match (ce_minute cron) mi 0)"

definition slot_of :: "tm \<Rightarrow> slot" where
  "slot_of t = (tm_year t, tm_mon t + 1, tm_mday t, tm_hour t, tm_min t)"

definition slot_good :: "cron_expr \<Rightarrow> tm \<Rightarrow> slot \<Rightarrow> bool" where
  "slot_good cron fr s \<longleftrightarrow> slot_match cron s \<and> slot_of fr < s"

definition slot_tm :: "tm \<Rightarrow> slot \<Rightarrow> tm" where
  "slot_tm fr = (\<lambda>(y, m, d, h, mi).
     fr\<lparr>tm_sec := 0, tm_isdst := -1, tm_year := y, tm_mon := m - 1, tm_mday := d, tm_hour := h, tm_min := mi\<rparr>)"

definition hour_slots :: "int \<Rightarrow> int \<Rightarrow> int \<Rightarrow> int \<Rightarrow> slot set" where
  "hour_slots y m d h = (\<Union>mi \<in> {0..59}. {(y, m, d, h, mi)})"

definition day_slots :: "int \<Rightarrow> int \<Rightarrow> int \<Rightarrow> slot set" where
  "day_slots y m d = (\<Union>h \<in> {0..23}. hour_slots y m d h)"

definition month_slots :: "int \<Rightarrow> int \<Rightarrow> slot set" where
  "month_slots y m = (\<Union>d \<in> {1..days_in_month m (y + 1900)}. day_slots y m d)"

definition year_slots :: "int \<Rightarrow> slot set" where
  "year_slots y = (\<Union>m \<in> {1..12}. month_slots y m)"

lemmas slots_defs = hour_slots_def day_slots_def month_slots_def year_slots_def

lemma after_guards:
  fixes y m d h mi fy fm fd fh fi :: int
  assumes "fy \<le> y" "\<not> (y = fy \<and> m - 1 < fm)" "\<not> (y = fy \<and> m - 1 = fm \<and> d < fd)" "\<not> (y = fy \<and> m - 1 = fm \<and> d = fd \<and> h < fh)"
  shows "(fy, fm + 1, fd, fh, fi) < (y, m, d, h, mi) \<longleftrightarrow> \<not> (y = fy \<and> m - 1 = fm \<and> d = fd \<and> h = fh \<and> mi \<le> fi)"
  unfolding less_prod_simp using assms
  by (cases "y = fy"; cases "m - 1 = fm"; cases "d = fd"; cases "h = fh"; simp; linarith)

lemma slot_good_year:
  assumes "slot_good cron fr (y, m, d, h, mi)"
  shows "\<not> (y = tm_year fr \<and> m - 1 < tm_mon fr)" "\<not> (y = tm_year fr \<and> m - 1 = tm_mon fr \<and> d < tm_mday fr)"
    "\<not> (y = tm_year fr \<and> m - 1 = tm_mon fr \<and> d = tm_mday fr \<and> h < tm_hour fr)"
  using assms by (auto simp: slot_good_def slot_of_def)


lemma slot_good_match:
  assumes "slot_good cron fr (y, m, d, h, mi)"
  shows "field_match (ce_month cron) m 1" "day_match cron d (wday_for (y + 1900) m d)" "field_match (ce_hour cron) h 0"
  using assms by (auto simp: slot_good_def slot_match_def)

text \<open>The loops from the inside out, for a \<open>norm\<close> that does not fail on the slots searched.\<close>

lemma next_minute_answers:
  assumes norm: "norm (slot_tm fr (y, m, d, h, mi)) \<noteq> None"
    and "tm_year fr \<le> y" and m: "field_match (ce_month cron) m 1" "\<not> (y = tm_year fr \<and> m - 1 < tm_mon fr)"
    and d: "\<not> (y = tm_year fr \<and> m - 1 = tm_mon fr \<and> d < tm_mday fr)" "day_match cron d (wday_for (y + 1900) m d)"
    and h: "field_match (ce_hour cron) h 0" "\<not> (y = tm_year fr \<and> m - 1 = tm_mon fr \<and> d = tm_mday fr \<and> h < tm_hour fr)"
  shows "answers (slot_good cron fr) (\<lambda>s. norm (slot_tm fr s)) {(y, m, d, h, mi)} (next_minute norm cron fr y m d h mi)"
proof -
  note g = after_guards [OF assms(2) m(2) d(1) h(2), of "tm_min fr" mi]
  have s: "slot_good cron fr (y, m, d, h, mi) \<longleftrightarrow> field_match (ce_minute cron) mi 0 \<and>
      \<not> (y = tm_year fr \<and> m - 1 = tm_mon fr \<and> d = tm_mday fr \<and> h = tm_hour fr \<and> mi \<le> tm_min fr)"
    unfolding slot_good_def slot_match_def slot_of_def prod.case g using m(1) d(2) h(1) by blast
  have e: "next_minute norm cron fr y m d h mi = (if slot_good cron fr (y, m, d, h, mi) then norm (slot_tm fr (y, m, d, h, mi)) else None)"
    unfolding s next_minute_def slot_tm_def prod.case by simp
  show ?thesis using norm unfolding e answers_def by (auto split: option.split)
qed

lemma guard_if: "(if a then None else if b then None else r) = (if \<not> (\<not> a \<and> \<not> b) then None else r)"
  by simp

lemma next_hour_answers:
  assumes norm: "\<And>s. s \<in> hour_slots y m d h \<Longrightarrow> norm (slot_tm fr s) \<noteq> None"
    and y: "tm_year fr \<le> y" and m: "field_match (ce_month cron) m 1" "\<not> (y = tm_year fr \<and> m - 1 < tm_mon fr)"
    and d: "\<not> (y = tm_year fr \<and> m - 1 = tm_mon fr \<and> d < tm_mday fr)" "day_match cron d (wday_for (y + 1900) m d)"
  shows "answers (slot_good cron fr) (\<lambda>s. norm (slot_tm fr s)) (hour_slots y m d h) (next_hour norm cron fr y m d h)"
  unfolding next_hour_def guard_if
proof (rule answers_guard)
  show "\<not> \<not> field_match (ce_hour cron) h 0 \<and> \<not> (y = tm_year fr \<and> m - 1 = tm_mon fr \<and> d = tm_mday fr \<and> h < tm_hour fr)"
    if "s \<in> hour_slots y m d h" "slot_good cron fr s" for s
    using that slot_good_year slot_good_match by (fastforce simp: hour_slots_def)
next
  assume h: "\<not> \<not> field_match (ce_hour cron) h 0 \<and> \<not> (y = tm_year fr \<and> m - 1 = tm_mon fr \<and> d = tm_mday fr \<and> h < tm_hour fr)"
  show "answers (slot_good cron fr) (\<lambda>s. norm (slot_tm fr s)) (hour_slots y m d h) (first_some (next_minute norm cron fr y m d h) [0..59])"
    unfolding hour_slots_def
    by (rule answers_first_some, rule next_minute_answers [where norm = norm and fr = fr, OF norm y m d]) (use h in \<open>auto simp: hour_slots_def\<close>)
qed

lemma next_day_answers:
  assumes norm: "\<And>s. s \<in> day_slots y m d \<Longrightarrow> norm (slot_tm fr s) \<noteq> None"
    and y: "tm_year fr \<le> y" and m: "field_match (ce_month cron) m 1" "\<not> (y = tm_year fr \<and> m - 1 < tm_mon fr)"
  shows "answers (slot_good cron fr) (\<lambda>s. norm (slot_tm fr s)) (day_slots y m d) (next_day_of norm cron fr y m d)"
  unfolding next_day_of_def guard_if
proof (rule answers_guard)
  show "\<not> (y = tm_year fr \<and> m - 1 = tm_mon fr \<and> d < tm_mday fr) \<and> \<not> \<not> day_match cron d (wday_for (y + 1900) m d)"
    if "s \<in> day_slots y m d" "slot_good cron fr s" for s
    using that slot_good_year slot_good_match by (fastforce simp: slots_defs)
next
  assume d: "\<not> (y = tm_year fr \<and> m - 1 = tm_mon fr \<and> d < tm_mday fr) \<and> \<not> \<not> day_match cron d (wday_for (y + 1900) m d)"
  show "answers (slot_good cron fr) (\<lambda>s. norm (slot_tm fr s)) (day_slots y m d) (first_some (next_hour norm cron fr y m d) [0..23])"
    unfolding day_slots_def
    by (rule answers_first_some, rule next_hour_answers [where norm = norm and fr = fr, OF norm y m]) (use d in \<open>auto simp: hour_slots_def day_slots_def\<close>)
qed

lemma next_month_answers:
  assumes norm: "\<And>s. s \<in> month_slots y m \<Longrightarrow> norm (slot_tm fr s) \<noteq> None" and y: "tm_year fr \<le> y"
  shows "answers (slot_good cron fr) (\<lambda>s. norm (slot_tm fr s)) (month_slots y m) (next_month norm cron fr y m)"
  unfolding next_month_def guard_if
proof (rule answers_guard)
  show "\<not> \<not> field_match (ce_month cron) m 1 \<and> \<not> (y = tm_year fr \<and> m - 1 < tm_mon fr)"
    if "s \<in> month_slots y m" "slot_good cron fr s" for s
    using that slot_good_year slot_good_match by (fastforce simp: slots_defs)
next
  assume m: "\<not> \<not> field_match (ce_month cron) m 1 \<and> \<not> (y = tm_year fr \<and> m - 1 < tm_mon fr)"
  show "answers (slot_good cron fr) (\<lambda>s. norm (slot_tm fr s)) (month_slots y m)
      (first_some (next_day_of norm cron fr y m) [1..days_in_month m (y + 1900)])"
    unfolding month_slots_def
    by (rule answers_first_some, rule next_day_answers [where norm = norm and fr = fr, OF norm y]) (use m in \<open>auto simp: slots_defs\<close>)
qed

lemma cron_next_answers:
  assumes norm: "\<And>s y. tm_year fr \<le> y \<Longrightarrow> y \<le> 199 \<Longrightarrow> s \<in> year_slots y \<Longrightarrow> norm (slot_tm fr s) \<noteq> None"
  shows "answers (slot_good cron fr) (\<lambda>s. norm (slot_tm fr s)) (\<Union>y \<in> {tm_year fr..199}. year_slots y) (cron_next norm cron fr)"
  unfolding cron_next_def
proof (rule answers_first_some)
  fix y assume y: "tm_year fr \<le> y" "y \<le> 199"
  show "answers (slot_good cron fr) (\<lambda>s. norm (slot_tm fr s)) (year_slots y) (first_some (next_month norm cron fr y) [1..12])"
    unfolding year_slots_def
    by (rule answers_first_some, rule next_month_answers [where norm = norm and fr = fr, OF norm [OF y] y(1)]) (auto simp: slots_defs)
qed (auto simp: slots_defs)

section \<open>The minutes of the calendar\<close>

text \<open>Minute \<open>k\<close> counted from 1970-01-01 00:00: its date, hour and minute, and its weekday, which is
  found by counting days from a Thursday.\<close>

definition minute_fields :: "nat \<Rightarrow> tm \<Rightarrow> bool" where
  "minute_fields k t \<longleftrightarrow> (tm_year t + 1900, tm_mon t + 1, tm_mday t) = nth_date (k div 1440)
     \<and> tm_hour t = int (k div 60 mod 24) \<and> tm_min t = int (k mod 60)"

definition shows_minute :: "nat \<Rightarrow> tm \<Rightarrow> bool" where
  "shows_minute k t \<longleftrightarrow> minute_fields k t \<and> tm_wday t = (4 + int (k div 1440)) mod 7"

text \<open>\<open>mktime\<close> and \<open>localtime_r\<close> in a zone with a fixed offset: a time given by the fields of a minute
  of the calendar up to the end of 2099, whatever its weekday says, comes back as that minute, with the
  right weekday.\<close>

definition fixed_offset :: "(tm \<Rightarrow> tm option) \<Rightarrow> bool" where
  "fixed_offset norm \<longleftrightarrow> (\<forall>k t. minute_fields k t \<and> tm_sec t = 0 \<and> tm_year t \<le> 199 \<longrightarrow>
     (\<exists>r. norm t = Some r \<and> shows_minute k r \<and> tm_sec r = 0))"

lemma nth_date_Suc: "nth_date (Suc n) = next_date (nth_date n)"
  by (simp add: nth_date_def)

lemma next_date_greater: "date_ok x \<Longrightarrow> x < next_date x"
  by (cases x) (auto simp: date_ok_def next_date_def)

lemma nth_date_less: "i < j \<Longrightarrow> nth_date i < nth_date j"
  by (rule lift_Suc_mono_less [of nth_date]) (simp_all add: nth_date_Suc next_date_greater nth_date_ok)

lemma nth_date_onto:
  "date_ok (y, m, d) \<Longrightarrow> 1970 \<le> y \<Longrightarrow> \<exists>n. nth_date n = (y, m, d)"
proof (induction "nat ((y - 1970) * 372 + (m - 1) * 31 + d)" arbitrary: y m d rule: less_induct)
  case less
  note ok = less.prems [unfolded date_ok_def prod.case]
  have step: "\<exists>n. nth_date n = (y, m, d)"
    if pre: "date_ok (y', m', d')" "1970 \<le> y'" "next_date (y', m', d') = (y, m, d)"
      "(y' - 1970) * 372 + (m' - 1) * 31 + d' < (y - 1970) * 372 + (m - 1) * 31 + d" for y' m' d'
  proof -
    have "0 \<le> (y' - 1970) * 372 + (m' - 1) * 31 + d'" using pre(1,2) by (auto simp: date_ok_def)
    then have "nat ((y' - 1970) * 372 + (m' - 1) * 31 + d') < nat ((y - 1970) * 372 + (m - 1) * 31 + d)"
      using pre(4) by linarith
    then obtain n where "nth_date n = (y', m', d')" using less.hyps pre(1,2) by blast
    then show ?thesis using pre(3) nth_date_Suc [of n] by metis
  qed
  consider "1 < d" | "d = 1" "1 < m" | "d = 1" "m = 1" "1970 < y" | "d = 1" "m = 1" "y = 1970" using ok by linarith
  then show ?case
  proof cases
    case 1
    then show ?thesis using ok by (intro step [of y m "d - 1"]) (auto simp: date_ok_def next_date_def)
  next
    case 2
    then have "28 \<le> month_length y (m - 1)" "month_length y (m - 1) \<le> 31" using ok month_length_pos [of "m - 1" y] by auto
    then show ?thesis using ok 2
      by (intro step [of y "m - 1" "month_length y (m - 1)"]) (auto simp: date_ok_def next_date_def algebra_simps)
  next
    case 3
    then show ?thesis by (intro step [of "y - 1" 12 31]) (auto simp: date_ok_def next_date_def month_length_eq)
  next
    case 4
    then show ?thesis by (intro exI [of _ 0]) (simp add: nth_date_def)
  qed
qed

text \<open>The slots of the search are the minutes of the calendar, in order.\<close>

definition minute_slot :: "nat \<Rightarrow> slot" where
  "minute_slot k = (case nth_date (k div 1440) of (y, m, d) \<Rightarrow> (y - 1900, m, d, int (k div 60 mod 24), int (k mod 60)))"

lemma minute_fields_slot: "minute_fields k t \<longleftrightarrow> slot_of t = minute_slot k"
  by (auto simp: minute_fields_def slot_of_def minute_slot_def split: prod.splits)

lemma clock_split: "k = k div 1440 * 1440 + k div 60 mod 24 * 60 + k mod (60 :: nat)"
proof -
  have "k div 1440 = k div 60 div 24" by (simp add: div_mult2_eq [symmetric])
  moreover have "k div 60 = k div 60 div 24 * 24 + k div 60 mod 24" by (rule div_mult_mod_eq [symmetric])
  moreover have "k = k div 60 * 60 + k mod 60" by (rule div_mult_mod_eq [symmetric])
  ultimately show ?thesis by linarith
qed

lemma clock_less:
  assumes "j < k" and "j div 1440 = k div (1440 :: nat)"
  shows "j div 60 mod 24 < k div 60 mod 24 \<or> j div 60 mod 24 = k div 60 mod 24 \<and> j mod 60 < k mod 60"
proof -
  have "j mod 60 < 60" "k mod 60 < 60" by simp_all
  then show ?thesis using assms clock_split [of j] clock_split [of k] by linarith
qed

lemma minute_slot_less:
  assumes "j < k"
  shows "minute_slot j < minute_slot k"
proof (cases "j div 1440 = k div 1440")
  case True
  then show ?thesis using clock_less [OF assms True] unfolding minute_slot_def True
    by (auto simp: less_prod_simp split: prod.split)
next
  case False
  then have "j div 1440 < k div 1440" using div_le_mono [of j k 1440] assms by simp
  then have "nth_date (j div 1440) < nth_date (k div 1440)" by (rule nth_date_less)
  then show ?thesis unfolding minute_slot_def by (auto simp: less_prod_simp split: prod.split)
qed

lemma minute_slot_less_iff [simp]: "minute_slot j < minute_slot k \<longleftrightarrow> j < k"
  using minute_slot_less [of j k] minute_slot_less [of k j] by (cases j k rule: linorder_cases) auto

lemma minute_slot_le_iff [simp]: "minute_slot j \<le> minute_slot k \<longleftrightarrow> j \<le> k"
  by (simp add: linorder_not_less [symmetric])

lemma nth_date_year: "nth_date n = (y, m, d) \<Longrightarrow> 1970 \<le> y"
  using nth_date_less [of 0 n] by (cases n) (auto simp: nth_date_def)

lemma minute_slot_valid: "minute_slot k \<in> year_slots (fst (minute_slot k))"
proof -
  obtain y m d where n: "nth_date (k div 1440) = (y, m, d)" by (metis prod_cases3)
  have "date_ok (y, m, d)" using nth_date_ok [of "k div 1440"] n by simp
  moreover have "int (k div 60 mod 24) \<le> 23" "int (k mod 60) \<le> 59" by simp_all
  ultimately show ?thesis
    using n by (simp add: minute_slot_def slots_defs date_ok_def days_in_month_calendar)
qed

lemma clock_parts:
  assumes "a < 24" and "b < (60 :: nat)"
  shows "(n * 1440 + a * 60 + b) div 1440 = n" "(n * 1440 + a * 60 + b) div 60 mod 24 = a" "(n * 1440 + a * 60 + b) mod 60 = b"
proof -
  have e: "n * 1440 + a * 60 + b = (n * 24 + a) * 60 + b" by simp
  have d: "(n * 1440 + a * 60 + b) div 60 = n * 24 + a" unfolding e using assms(2) by (subst div_mult_self3) auto
  show "(n * 1440 + a * 60 + b) div 60 mod 24 = a" unfolding d using assms(1) by simp
  show "(n * 1440 + a * 60 + b) mod 60 = b" unfolding e using assms(2) by (subst mod_mult_self3) auto
  have "(n * 1440 + a * 60 + b) div 60 div 24 = n" unfolding d using assms(1) by simp
  then show "(n * 1440 + a * 60 + b) div 1440 = n" by (simp add: div_mult2_eq [symmetric])
qed

lemma slot_minute:
  assumes "(y, m, d, h, mi) \<in> year_slots y'" and "70 \<le> y'"
  shows "\<exists>k. minute_slot k = (y, m, d, h, mi)"
proof -
  have s: "y = y'" "1 \<le> m" "m \<le> 12" "1 \<le> d" "d \<le> days_in_month m (y + 1900)" "0 \<le> h" "h \<le> 23" "0 \<le> mi" "mi \<le> 59"
    using assms(1) by (auto simp: slots_defs)
  then have "date_ok (y + 1900, m, d)" using assms(2) by (simp add: date_ok_def days_in_month_calendar)
  then obtain n where n: "nth_date n = (y + 1900, m, d)" using nth_date_onto [of "y + 1900"] s(1) assms(2) by auto
  define k where "k = n * 1440 + nat h * 60 + nat mi"
  have "k div 1440 = n" "k div 60 mod 24 = nat h" "k mod 60 = nat mi"
    unfolding k_def using s clock_parts [of "nat h" "nat mi" n] by auto
  then show ?thesis using n s by (intro exI [of _ k]) (simp add: minute_slot_def)
qed

lemma match_minute: "shows_minute k t \<Longrightarrow> cron_match cron t \<longleftrightarrow> slot_match cron (minute_slot k)"
  using wday_counts_days [of "k div 1440"]
  by (auto simp: shows_minute_def minute_fields_def cron_match_def slot_match_def minute_slot_def split: prod.splits)

section \<open>The next matching time\<close>

lemma slot_of_slot_tm: "slot_of (slot_tm fr s) = s" "tm_sec (slot_tm fr s) = 0" "tm_year (slot_tm fr s) = fst s"
  by (cases s; simp add: slot_of_def slot_tm_def)+

lemma fixed_offset_slot:
  assumes "fixed_offset norm" and "fst (minute_slot k) \<le> 199"
  shows "\<exists>r. norm (slot_tm fr (minute_slot k)) = Some r \<and> shows_minute k r \<and> tm_sec r = 0"
  using assms by (simp add: fixed_offset_def minute_fields_slot slot_of_slot_tm)

text \<open>The slots searched from minute \<open>k0\<close> on are the minutes of the years searched, and the search
  answers for them.\<close>

lemma cron_next_minutes:
  assumes norm: "fixed_offset norm" and fr: "minute_fields k0 fr"
  shows "answers (slot_good cron fr) (\<lambda>s. norm (slot_tm fr s))
      {minute_slot k | k. tm_year fr \<le> fst (minute_slot k) \<and> fst (minute_slot k) \<le> 199} (cron_next norm cron fr)"
proof -
  have y70: "70 \<le> tm_year fr"
    using nth_date_year [of "k0 div 1440" "tm_year fr + 1900" "tm_mon fr + 1" "tm_mday fr"] fr by (simp add: minute_fields_def)
  have min: "\<exists>k. s = minute_slot k \<and> fst s = y" if y: "s \<in> year_slots y" "tm_year fr \<le> y" for s y
  proof -
    obtain y' m d h mi where s: "s = (y', m, d, h, mi)" by (metis prod_cases5)
    obtain k where "minute_slot k = s" using slot_minute [of y' m d h mi y] y y70 s by auto
    moreover have "fst s = y" using y(1) by (auto simp: slots_defs)
    ultimately show ?thesis by blast
  qed
  have e: "(\<Union>y \<in> {tm_year fr..199}. year_slots y) = {minute_slot k | k. tm_year fr \<le> fst (minute_slot k) \<and> fst (minute_slot k) \<le> 199}"
  proof (intro equalityI subsetI)
    fix s assume "s \<in> (\<Union>y \<in> {tm_year fr..199}. year_slots y)"
    then obtain y where "s \<in> year_slots y" "tm_year fr \<le> y" "y \<le> 199" by auto
    then show "s \<in> {minute_slot k | k. tm_year fr \<le> fst (minute_slot k) \<and> fst (minute_slot k) \<le> 199}"
      using min [of s y] by blast
  next
    fix s assume "s \<in> {minute_slot k | k. tm_year fr \<le> fst (minute_slot k) \<and> fst (minute_slot k) \<le> 199}"
    then obtain k where "s = minute_slot k" "tm_year fr \<le> fst (minute_slot k)" "fst (minute_slot k) \<le> 199" by blast
    then show "s \<in> (\<Union>y \<in> {tm_year fr..199}. year_slots y)"
      using minute_slot_valid [of k] by (intro UN_I [of "fst (minute_slot k)"]) simp_all
  qed
  have "norm (slot_tm fr s) \<noteq> None" if s: "tm_year fr \<le> y" "y \<le> 199" "s \<in> year_slots y" for s y
  proof -
    obtain k where k: "s = minute_slot k" "fst s = y" using min [OF s(3,1)] by blast
    then show ?thesis using fixed_offset_slot [OF norm, of k fr] s(2) by auto
  qed
  then show ?thesis unfolding e [symmetric] by (rule cron_next_answers)
qed

lemma good_minute:
  "minute_fields k0 fr \<Longrightarrow> slot_good cron fr (minute_slot k) \<longleftrightarrow> k0 < k \<and> slot_match cron (minute_slot k)"
  by (auto simp: slot_good_def minute_fields_slot)

lemma later_year:
  assumes "k0 < k" and "minute_fields k0 fr"
  shows "tm_year fr \<le> fst (minute_slot k)"
proof -
  have "slot_of fr < minute_slot k" using minute_slot_less [OF assms(1)] assms(2) by (simp add: minute_fields_slot)
  then show ?thesis by (cases "minute_slot k") (auto simp: slot_of_def)
qed

lemma shows_year: "shows_minute k t \<Longrightarrow> tm_year t = fst (minute_slot k)"
  by (auto simp: shows_minute_def minute_fields_slot slot_of_def dest: sym)

text \<open>C13. The search is exact. Given the time of minute \<open>k0\<close> of the calendar (counted from 1970), in a
  zone with a fixed offset, it returns the first later minute that matches the expression, with its
  date, weekday, hour and minute and with second 0; when it returns nothing, no later minute up to the
  end of 2099 matches. The calendar (month lengths, leap years, weekdays counted from a known day) is
  written independently of the code's tables.\<close>

theorem cron_next_exact:
  assumes "fixed_offset norm" and "minute_fields k0 fr"
  shows "case cron_next norm cron fr of
      Some out \<Rightarrow> \<exists>k > k0. shows_minute k out \<and> tm_sec out = 0 \<and> tm_year out \<le> 199 \<and> cron_match cron out \<and>
        (\<forall>j t. k0 < j \<and> j < k \<and> shows_minute j t \<longrightarrow> \<not> cron_match cron t)
    | None \<Rightarrow> \<forall>j t. k0 < j \<and> shows_minute j t \<and> tm_year t \<le> 199 \<longrightarrow> \<not> cron_match cron t"
proof (cases "cron_next norm cron fr")
  case None
  have "\<not> cron_match cron t" if t: "k0 < j" "shows_minute j t" "tm_year t \<le> 199" for j t
  proof -
    let ?S = "{minute_slot k | k. tm_year fr \<le> fst (minute_slot k) \<and> fst (minute_slot k) \<le> 199}"
    have "\<forall>s \<in> ?S. \<not> slot_good cron fr s"
      using cron_next_minutes [OF assms, of cron] unfolding answers_def None option.case .
    moreover have "minute_slot j \<in> ?S" using later_year [OF t(1) assms(2)] shows_year [OF t(2)] t(3) by auto
    ultimately have "\<not> slot_good cron fr (minute_slot j)" by blast
    then show ?thesis using good_minute [OF assms(2)] match_minute [OF t(2)] t(1) by simp
  qed
  then show ?thesis unfolding None option.case by blast
next
  case (Some out)
  let ?S = "{minute_slot k | k. tm_year fr \<le> fst (minute_slot k) \<and> fst (minute_slot k) \<le> 199}"
  obtain s where s: "s \<in> ?S" "slot_good cron fr s" "norm (slot_tm fr s) = Some out" "\<forall>t \<in> ?S. slot_good cron fr t \<longrightarrow> s \<le> t"
    using cron_next_minutes [OF assms, of cron] unfolding answers_def Some option.case by blast
  then obtain k where sk: "s = minute_slot k" "fst (minute_slot k) \<le> 199" by blast
  note k = sk(2) s(2,3) [unfolded sk(1)]
  have least: "k \<le> j" if j: "tm_year fr \<le> fst (minute_slot j)" "fst (minute_slot j) \<le> 199" "slot_good cron fr (minute_slot j)" for j
  proof -
    have "minute_slot j \<in> ?S" using j(1,2) by blast
    then have "minute_slot k \<le> minute_slot j" using s(4) j(3) sk(1) by blast
    then show ?thesis by simp
  qed
  have out: "shows_minute k out" "tm_sec out = 0" using fixed_offset_slot [OF assms(1) k(1), of fr] k(3) by auto
  have "\<not> cron_match cron t" if t: "k0 < j" "j < k" "shows_minute j t" for j t
  proof
    assume "cron_match cron t"
    then have "slot_good cron fr (minute_slot j)" using good_minute [OF assms(2)] t(1) match_minute [OF t(3)] by simp
    moreover have "fst (minute_slot j) \<le> fst (minute_slot k)"
      using minute_slot_less [OF t(2)] by (cases "minute_slot j"; cases "minute_slot k") auto
    ultimately show False using least [of j] later_year [OF t(1) assms(2)] k(1) t(2) by auto
  qed
  then show ?thesis
    using Some out k good_minute [OF assms(2)] match_minute [OF out(1)] shows_year [OF out(1)] by auto
qed

text \<open>The witness: UTC, the minute before the 29th of February 2024, and an expression that always
  matches. The zone's weekday is that of the code's formula, which counts days.\<close>

definition utc_norm :: "tm \<Rightarrow> tm option" where
  "utc_norm t = Some (t\<lparr>tm_wday := wday_for (tm_year t + 1900) (tm_mon t + 1) (tm_mday t)\<rparr>)"

lemma utc_norm_ok: "fixed_offset utc_norm"
  unfolding fixed_offset_def
proof (intro allI impI; elim conjE)
  fix k t assume t: "minute_fields k t" "tm_sec t = 0"
  then have "wday_for (tm_year t + 1900) (tm_mon t + 1) (tm_mday t) = (4 + int (k div 1440)) mod 7"
    using wday_counts_days [of "k div 1440"] by (auto simp: minute_fields_def split: prod.splits)
  then show "\<exists>r. utc_norm t = Some r \<and> shows_minute k r \<and> tm_sec r = 0"
    using t by (simp add: utc_norm_def shows_minute_def minute_fields_def)
qed

lemma cron_next_exact_witness:
  "\<exists>cron fr out k. minute_fields 1439 fr \<and> cron_next utc_norm cron fr = Some out \<and> 1439 < k \<and> shows_minute k out \<and> cron_match cron out"
proof -
  let ?any = "empty_field\<lparr>cf_any := True\<rparr>"
  let ?c = "\<lparr>ce_minute = ?any, ce_hour = ?any, ce_dom = ?any, ce_month = ?any, ce_dow = ?any, ce_raw = ''* * * * *''\<rparr>"
  let ?fr = "\<lparr>tm_sec = 0, tm_min = 59, tm_hour = 23, tm_mday = 1, tm_mon = 0, tm_year = 70, tm_wday = 4, tm_yday = 0, tm_isdst = 0\<rparr>"
  let ?t = "?fr\<lparr>tm_min := 0, tm_hour := 0, tm_mday := 2, tm_wday := 5\<rparr>"
  have m: "cron_match ?c t" for t by (simp add: cron_match_def day_match_def field_match_def Let_def)
  have f: "minute_fields 1439 ?fr" by (simp add: minute_fields_def nth_date_def)
  have t: "shows_minute 1440 ?t" by (simp add: shows_minute_def minute_fields_def nth_date_def next_date_def month_length_def)
  note X = cron_next_exact [OF utc_norm_ok f, of ?c]
  show ?thesis
  proof (cases "cron_next utc_norm ?c ?fr")
    case None
    have "(1439 :: nat) < 1440 \<and> shows_minute 1440 ?t \<and> tm_year ?t \<le> 199" using t by simp
    then have False using X m [of ?t] unfolding None option.case by blast
    then show ?thesis ..
  next
    case (Some out)
    obtain k where "1439 < k" "shows_minute k out" "cron_match ?c out" using X unfolding Some option.case by blast
    then show ?thesis using Some f by blast
  qed
qed

section \<open>Parsing\<close>

















section \<open>Decimal numbers and \<open>strtol\<close>\<close>

lemma digit_char:
  assumes "0 \<le> (d :: int)" and "d < 10"
  shows "c_digit_val (char_of (48 + d)) = d" "\<not> c_isspace (char_of (48 + d))"
    "char_of (48 + d) \<noteq> CHR ''-''" "char_of (48 + d) \<noteq> CHR ''+''" "char_of (48 + d) \<noteq> CHR '' ''" "char_of (48 + d) \<noteq> CHR 0x09"
proof -
  have o: "(of_char (char_of (48 + d)) :: int) = 48 + d" using assms by simp
  have t: "c_tolower (char_of (48 + d)) = char_of (48 + d)" using o assms by (simp add: c_tolower_def)
  show "c_digit_val (char_of (48 + d)) = d" using o assms by (simp add: c_digit_val_def t)
  show "\<not> c_isspace (char_of (48 + d))" using o assms by (simp add: c_isspace_def)
  show "char_of (48 + d) \<noteq> CHR ''-''" "char_of (48 + d) \<noteq> CHR ''+''" "char_of (48 + d) \<noteq> CHR '' ''" "char_of (48 + d) \<noteq> CHR 0x09"
    using o assms by (auto dest: arg_cong [where f = "of_char :: char \<Rightarrow> int"])
qed

lemma c_udec_chars: "0 \<le> i \<Longrightarrow> c \<in> set (c_udec i) \<Longrightarrow> \<exists>d :: int. 0 \<le> d \<and> d < 10 \<and> c = char_of (48 + d)"
proof (induction i rule: c_udec.induct)
  case (1 i)
  show ?case
  proof (cases "i < 10")
    case True
    then show ?thesis using 1(2,3) by (subst (asm) c_udec.simps) auto
  next
    case False
    then have "c \<in> set (c_udec (i div 10)) \<or> c = char_of (48 + i mod 10)" using 1(3) by (subst (asm) c_udec.simps) auto
    then show ?thesis using 1(1) [OF False] 1(2) by (auto intro: exI [of _ "i mod 10"])
  qed
qed

lemma c_udec_value: "0 \<le> i \<Longrightarrow> fold (\<lambda>c v. v * 10 + c_digit_val c) (c_udec i) 0 = i"
proof (induction i rule: c_udec.induct)
  case (1 i)
  show ?case
  proof (cases "i < 10")
    case True
    then show ?thesis using 1(2) by (subst c_udec.simps) (simp add: digit_char)
  next
    case False
    then show ?thesis using 1(1) [OF False] 1(2) by (subst c_udec.simps) (simp add: digit_char)
  qed
qed

lemma c_udec_nonempty: "c_udec i \<noteq> []"
  by (subst c_udec.simps) simp

lemma c_strtol_dec:
  assumes "0 \<le> i" and "i < 2 ^ 63" and "r = [] \<or> 10 \<le> c_digit_val (hd r)"
  shows "c_strtol 10 (c_dec i @ r) = (i, r)"
proof -
  have ch: "c_digit_val c < 10 \<and> \<not> c_isspace c \<and> c \<noteq> CHR ''-'' \<and> c \<noteq> CHR ''+''" if "c \<in> set (c_udec i)" for c
    using c_udec_chars [OF assms(1) that] digit_char by (metis (full_types))
  obtain c cs where u: "c_udec i = c # cs" using c_udec_nonempty by (meson neq_Nil_conv)
  have c: "c_digit_val c < 10" "\<not> c_isspace c" "c \<noteq> CHR ''-''" "c \<noteq> CHR ''+''" using ch [of c] u by simp_all
  have tw: "takeWhile (\<lambda>c. c_digit_val c < 10) (c_udec i @ r) = c_udec i"
    using ch assms(3) by (cases r) (auto simp: takeWhile_append2)
  have d: "c_dec i = c_udec i" using assms(1) by (simp add: c_dec_def)
  have sp: "dropWhile c_isspace (c_udec i @ r) = c_udec i @ r" using c(2) u by simp
  have hd0: "(c_udec i @ r) ! 0 = c" using u by simp
  show ?thesis
    unfolding d c_strtol_def Let_def sp hd0 using c(3,4) assms(1,2) c_udec_nonempty [of i]
    by (simp add: tw c_udec_value)
qed

section \<open>Expressions that mean something else\<close>

lemma c_atoi_dec: "0 \<le> i \<Longrightarrow> i < 2 ^ 31 \<Longrightarrow> c_atoi (c_dec i) = i"
  using c_strtol_dec [of i "[]"] by (simp add: c_atoi_def)

lemma c_dec_word:
  assumes "0 \<le> i"
  shows "\<forall>c \<in> set (c_dec i). c \<noteq> CHR '' '' \<and> c \<noteq> CHR 0x09" and "length (c_dec i) = length (c_udec i)"
proof -
  show "\<forall>c \<in> set (c_dec i). c \<noteq> CHR '' '' \<and> c \<noteq> CHR 0x09"
  proof
    fix c assume "c \<in> set (c_dec i)"
    then have "c \<in> set (c_udec i)" using assms by (simp add: c_dec_def)
    from c_udec_chars [OF assms this] obtain d :: int where d: "0 \<le> d" "d < 10" "c = char_of (48 + d)" by blast
    show "c \<noteq> CHR '' '' \<and> c \<noteq> CHR 0x09" using digit_char(5) [OF d(1,2)] digit_char(6) [OF d(1,2)] unfolding d(3) ..
  qed
  show "length (c_dec i) = length (c_udec i)" using assms by (simp add: c_dec_def)
qed

lemma c_udec_length: "0 \<le> i \<Longrightarrow> i < 10 ^ Suc n \<Longrightarrow> length (c_udec i) \<le> Suc n"
proof (induction n arbitrary: i)
  case 0
  then show ?case by (subst c_udec.simps) simp
next
  case (Suc n)
  have "length (c_udec (i div 10)) \<le> Suc n" using Suc.prems by (intro Suc.IH) auto
  then show ?case by (subst c_udec.simps) simp
qed

lemma c_tokens_word:
  assumes "w \<noteq> []" and "\<forall>c \<in> set w. c \<notin> set delims" and "r = [] \<or> hd r \<in> set delims"
  shows "c_tokens delims (w @ r) = w # c_tokens delims r"
proof -
  have d: "dropWhile (\<lambda>c. c \<in> set delims) (w @ r) = w @ r" using assms(1,2) by (cases w) auto
  have t: "takeWhile (\<lambda>c. c \<notin> set delims) (w @ r) = w" "dropWhile (\<lambda>c. c \<notin> set delims) (w @ r) = r"
    using assms(2,3) by (cases r; simp add: takeWhile_append2 dropWhile_append2)+
  show ?thesis using assms(1) by (subst c_tokens.simps) (simp only: Let_def d t append_is_Nil_conv if_False simp_thms)
qed

lemma set_steps_first:
  "59 < n \<Longrightarrow> n \<le> 1000000 \<Longrightarrow> set_steps 0 0 59 n (cf_bits empty_field) = Parsed ((cf_bits empty_field)[0 := True])"
  by (subst set_steps.simps, subst set_steps.simps) (simp add: set_bit_at_def empty_field_def MAX_BITS_def)

definition hourly_minutes :: cron_field where
  "hourly_minutes = empty_field\<lparr>cf_bits := (cf_bits empty_field)[0 := True]\<rparr>"

lemma parse_step_long:
  assumes "60 \<le> n" and "n \<le> 1000000"
  shows "parse_field (''*/'' @ c_dec n) 0 59 = Parsed hourly_minutes"
proof -
  have "c_atoi (c_dec n) = n" using assms by (intro c_atoi_dec) auto
  then show ?thesis using assms by (simp add: parse_field_def set_steps_first hourly_minutes_def)
qed

definition every_field :: cron_field where
  "every_field = empty_field\<lparr>cf_any := True\<rparr>"

lemma parse_star: "parse_field ''*'' lo hi = Parsed every_field"
  by (simp add: parse_field_def every_field_def)

lemma stars_tokens: "c_tokens [CHR '' '', CHR 0x09] '' * * * *'' = [''*'', ''*'', ''*'', ''*'']"
  by code_simp

text \<open>The relative schedule \<open>@every\<close> is not relative. For every number of minutes from 60 on (90 minutes,
  2 days) the expression is accepted and fires at minute 0 of every hour, like \<open>@hourly\<close>.\<close>

theorem every_long_is_hourly:
  assumes "60 \<le> n" and "n \<le> 1000000"
  shows "cron_parse (''@every '' @ c_dec n @ ''m'') =
    Parsed (Inr \<lparr>ce_minute = hourly_minutes, ce_hour = every_field, ce_dom = every_field, ce_month = every_field,
      ce_dow = every_field, ce_raw = ''@every '' @ c_dec n @ ''m''\<rparr>)"
proof -
  have m: "c_digit_val CHR ''m'' = 22" by code_simp
  have st: "c_strtol 10 (c_dec n @ ''m'') = (n, ''m'')" by (rule c_strtol_dec) (use assms m in auto)
  have none: "map_of cron_specials (''@every '' @ c_dec n @ ''m'') = None" by (simp add: cron_specials_def)
  have sp: "is_special (''@every '' @ c_dec n @ ''m'') = Some (''*/'' @ c_dec n @ '' * * * *'')"
    unfolding is_special_def none using assms st by simp
  have l: "length (c_dec n) \<le> 7" using assms c_udec_length [of n 6] c_dec_word(2) [of n] by simp
  then have tr: "c_trunc 128 (''*/'' @ c_dec n @ '' * * * *'') = ''*/'' @ c_dec n @ '' * * * *''"
      "c_trunc 128 (''@every '' @ c_dec n @ ''m'') = ''@every '' @ c_dec n @ ''m''"
    by (simp_all add: c_trunc_def)
  have w: "c_tokens [CHR '' '', CHR 0x09] ((''*/'' @ c_dec n) @ '' * * * *'') = (''*/'' @ c_dec n) # [''*'', ''*'', ''*'', ''*'']"
    unfolding stars_tokens [symmetric] by (rule c_tokens_word) (use c_dec_word(1) [of n] assms in auto)
  show ?thesis
    unfolding cron_parse_def sp option.case tr Let_def using w parse_step_long [OF assms] parse_star by (simp add: parse_fields_def)
qed

lemma every_long_is_hourly_witness:
  "\<exists>c. cron_parse (''@every '' @ c_dec 90 @ ''m'') = Parsed (Inr c) \<and> ce_minute c = hourly_minutes \<and> ce_hour c = every_field"
  using every_long_is_hourly [of 90] by simp

text \<open>Equality of two accepted expressions but for the text they came from.\<close>

definition same_times :: "(string + cron_expr) parse_result \<Rightarrow> (string + cron_expr) parse_result \<Rightarrow> bool" where
  "same_times r s =
     (case (r, s) of (Parsed (Inr c), Parsed (Inr d)) \<Rightarrow> c\<lparr>ce_raw := []\<rparr> = d\<lparr>ce_raw := []\<rparr> | _ \<Rightarrow> False)"

text \<open>Accepted expressions that are misread: the step of a range is dropped, a range of days that
  wraps around the week is turned into its complement, a field of separators only is accepted and
  allows no value, and a step near the largest int overflows the loop variable.\<close>

theorem cron_misreads:
  "same_times (cron_parse ''0-30/5 * * * *'') (cron_parse ''0-30 * * * *'') \<and>
   same_times (cron_parse ''0 0 * * FRI-MON'') (cron_parse ''0 0 * * MON-FRI'') \<and>
   parse_field '','' 0 59 = Parsed empty_field \<and>
   cron_parse ''0 0 */2147483647 * *'' = Overflow"
proof (intro conjI)
  show "same_times (cron_parse ''0-30/5 * * * *'') (cron_parse ''0-30 * * * *'')" by code_simp
  show "same_times (cron_parse ''0 0 * * FRI-MON'') (cron_parse ''0 0 * * MON-FRI'')" by code_simp
  show "parse_field '','' 0 59 = Parsed empty_field" by code_simp
  show "cron_parse ''0 0 */2147483647 * *'' = Overflow" by code_simp
qed

text \<open>The description of a daily schedule only knows the hours and minutes 0 and 1: it prints flags.\<close>

lemma cron_describe_daily:
  assumes "\<not> cf_any (ce_minute c)" "\<not> cf_any (ce_hour c)" "cf_any (ce_dom c)" "cf_any (ce_month c)" "cf_any (ce_dow c)"
  shows "cron_describe c \<in> {''At 00:00 every day'', ''At 00:01 every day'', ''At 01:00 every day'', ''At 01:01 every day''}"
proof -
  have d: "c_dec 0 = ''0''" "c_dec 1 = ''1''" by (simp_all add: c_dec_def c_udec.simps char_of_def)
  show ?thesis using assms by (simp add: cron_describe_def first_bit_def fmt_02d_def d c_trunc_def)
qed

end
