(* ===== verification/FileState.thy ===== *)
theory FileState
  imports Hive Complex_Main
begin

text \<open>
  \<^verbatim>\<open>lib/libfilestate/file_state.c\<close>: the registry that keeps concurrent agents from overwriting each
  other's edits. The agents live in a hive of pointers; the objects they point to are in an explicit
  store (address to object), because the code changes an agent through the pointer it found. The
  arrays of paths, stamps, writers and locks are lists with their capacity. \<open>fs_mem\<close> holds the
  outcomes of the coming allocator calls of this file (empty: they succeed). Growing several arrays
  with \<open>realloc\<close> when only some of the calls succeed frees a block the state still points to: that
  undefined behaviour is the result None. Times are numbers that \<open>==\<close> and \<open><\<close> compare.

  What the code reads from outside is the argument \<open>env\<close>: the environment variable, the clock, and
  \<open>stat\<close>. Each function is what happens under the state lock; \<open>fs_check_stale\<close> has two such
  sections with the \<open>stat\<close> between them, so it takes the states at both.
\<close>

section \<open>State\<close>

record fs_stamp =
  st_mtime :: real
  st_read_ts :: real
  st_partial :: bool

record fs_agent =
  fa_task_id :: string
  fa_cap :: nat
  fa_paths :: "string list"
  fa_stamps :: "fs_stamp list"

record fs_writer =
  fw_path :: string
  fw_task_id :: string
  fw_ts :: real

record fs_lock =
  fl_path :: string
  fl_held :: bool

record fs_state =
  fs_agents :: "nat hive option"
  fs_store :: "nat \<Rightarrow> fs_agent option"
  fs_next :: nat
  fs_agent_count :: nat
  fs_writers :: "fs_writer list"
  fs_writers_cap :: nat
  fs_locks :: "fs_lock list"
  fs_locks_cap :: nat
  fs_initialized :: bool
  fs_mem :: "bool list"

record fs_env =
  env_disabled :: bool
  env_now :: real
  env_mtime :: "string \<Rightarrow> real option"

text \<open>The static initializers.\<close>

definition fs_start :: fs_state where
  "fs_start = \<lparr>fs_agents = None, fs_store = Map.empty, fs_next = 0, fs_agent_count = 0, fs_writers = [],
     fs_writers_cap = 0, fs_locks = [], fs_locks_cap = 0, fs_initialized = False, fs_mem = []\<rparr>"

definition fs_init :: "fs_state \<Rightarrow> fs_state" where
  "fs_init s =
     (if fs_initialized s then s
      else s\<lparr>fs_initialized := True, fs_agent_count := 0, fs_writers := [], fs_locks := []\<rparr>)"

section \<open>Agents\<close>

text \<open>The loop over the hive: the first agent with the task id. A cell of a live slot is a pointer.\<close>

fun find_agent_in :: "(nat \<Rightarrow> fs_agent option) \<Rightarrow> string \<Rightarrow> (hive_handle \<times> nat hive_cell) list \<Rightarrow> nat option" where
  "find_agent_in store task_id [] = None"
| "find_agent_in store task_id ((h, c) # cs) =
     (case c of
        User a \<Rightarrow> if map_option fa_task_id (store a) = Some task_id then Some a else find_agent_in store task_id cs
      | Link _ \<Rightarrow> find_agent_in store task_id cs)"

definition find_agent :: "fs_state \<Rightarrow> string \<Rightarrow> nat option" where
  "find_agent s task_id =
     (case fs_agents s of
        None \<Rightarrow> None
      | Some h \<Rightarrow> find_agent_in (fs_store s) task_id (hive_drain h (hive_iter_begin h)))"

definition new_agent :: "string \<Rightarrow> fs_agent" where
  "new_agent task_id = \<lparr>fa_task_id = c_trunc 64 task_id, fa_cap = 8, fa_paths = [], fa_stamps = []\<rparr>"

text \<open>The outer None is undefined behaviour, the inner one the NULL result. The address is fresh.\<close>

definition add_agent :: "fs_state \<Rightarrow> string \<Rightarrow> (nat option \<times> fs_state) option" where
  "add_agent s task_id =
     (let s = (if fs_agents s = None then s\<lparr>fs_agents := hive_new 4 []\<rparr> else s);
          (ok, mem) = c_alloc (fs_mem s)
      in if \<not> ok then Some (None, s\<lparr>fs_mem := mem\<rparr>)
         else let (ok1, mem) = c_alloc mem; (ok2, mem) = c_alloc mem; s = s\<lparr>fs_mem := mem\<rparr>
         in if \<not> ok1 \<or> \<not> ok2 then Some (None, s)
         else (case fs_agents s of
                 None \<Rightarrow> Some (None, s)
               | Some h \<Rightarrow>
                   (case hive_insert h (fs_next s) of
                      None \<Rightarrow> None
                    | Some (_, ok, h) \<Rightarrow>
                        if \<not> ok then Some (None, s\<lparr>fs_agents := Some h\<rparr>)
                        else Some (Some (fs_next s),
                               s\<lparr>fs_agents := Some h, fs_store := (fs_store s)(fs_next s \<mapsto> new_agent task_id),
                                 fs_next := fs_next s + 1, fs_agent_count := fs_agent_count s + 1\<rparr>))))"

text \<open>The index of the first equal path.\<close>

fun index_of :: "string \<Rightarrow> string list \<Rightarrow> nat option" where
  "index_of p [] = None"
| "index_of p (q # qs) = (if q = p then Some 0 else map_option Suc (index_of p qs))"

definition find_agent_path :: "fs_agent \<Rightarrow> string \<Rightarrow> nat option" where
  "find_agent_path a path = index_of path (fa_paths a)"

text \<open>\<open>k\<close> calls of \<open>realloc\<close>, all made before the test: every one succeeded, none did, or some did.\<close>

fun c_reallocs :: "nat \<Rightarrow> bool list \<Rightarrow> bool list \<times> bool list" where
  "c_reallocs 0 mem = ([], mem)"
| "c_reallocs (Suc k) mem = (let (ok, mem) = c_alloc mem; (oks, mem) = c_reallocs k mem in (ok # oks, mem))"

text \<open>The new capacity; None is the dangling array. Arrays that were NULL cannot dangle.\<close>

definition grow_arrays :: "nat \<Rightarrow> nat \<Rightarrow> nat \<Rightarrow> bool list \<Rightarrow> (nat \<times> bool list) option" where
  "grow_arrays k cap ncap mem =
     (let (oks, mem) = c_reallocs k mem
      in if list_all id oks then Some (ncap, mem)
         else if list_ex id oks \<and> cap \<noteq> 0 then None
         else Some (cap, mem))"

definition agent_grow :: "fs_agent \<Rightarrow> bool list \<Rightarrow> (fs_agent \<times> bool list) option" where
  "agent_grow a mem =
     (if length (fa_paths a) < fa_cap a then Some (a, mem)
      else map_option (\<lambda>(cap, mem). (a\<lparr>fa_cap := cap\<rparr>, mem)) (grow_arrays 2 (fa_cap a) (fa_cap a * 2) mem))"

text \<open>The index to write the stamp at; a new path gets a slot whose stamp the caller fills in.\<close>

definition agent_touch_path :: "fs_agent \<Rightarrow> string \<Rightarrow> bool list \<Rightarrow> (nat option \<times> fs_agent \<times> bool list) option" where
  "agent_touch_path a path mem =
     (case find_agent_path a path of
        Some i \<Rightarrow> Some (Some i, a, mem)
      | None \<Rightarrow> do {
          (a, mem) \<leftarrow> agent_grow a mem;
          Some (if length (fa_paths a) \<ge> fa_cap a then (None, a, mem)
                else (Some (length (fa_paths a)),
                      a\<lparr>fa_paths := fa_paths a @ [c_trunc 256 path],
                        fa_stamps := fa_stamps a @ [\<lparr>st_mtime = 0, st_read_ts = 0, st_partial = False\<rparr>]\<rparr>, mem)) })"

section \<open>Writers\<close>

definition find_writer :: "fs_state \<Rightarrow> string \<Rightarrow> nat option" where
  "find_writer s path = index_of path (map fw_path (fs_writers s))"

definition writers_grow :: "fs_state \<Rightarrow> fs_state option" where
  "writers_grow s =
     (if length (fs_writers s) < fs_writers_cap s then Some s
      else map_option (\<lambda>(cap, mem). s\<lparr>fs_writers_cap := cap, fs_mem := mem\<rparr>)
             (grow_arrays 3 (fs_writers_cap s) (if fs_writers_cap s \<noteq> 0 then fs_writers_cap s * 2 else 8) (fs_mem s)))"

definition writer_touch :: "fs_state \<Rightarrow> string \<Rightarrow> string \<Rightarrow> real \<Rightarrow> fs_state option" where
  "writer_touch s path task_id ts =
     (case find_writer s path of
        Some i \<Rightarrow>
          Some (s\<lparr>fs_writers := (fs_writers s)[i := (fs_writers s ! i)\<lparr>fw_task_id := c_trunc 64 task_id, fw_ts := ts\<rparr>]\<rparr>)
      | None \<Rightarrow> do {
          s \<leftarrow> writers_grow s;
          Some (if length (fs_writers s) \<ge> fs_writers_cap s then s
                else s\<lparr>fs_writers := fs_writers s @ [\<lparr>fw_path = c_trunc 256 path, fw_task_id = c_trunc 64 task_id, fw_ts = ts\<rparr>]\<rparr>) })"

section \<open>Recording reads and writes\<close>

text \<open>The stamp of a path, through the pointer to the agent.\<close>

definition set_stamp :: "fs_state \<Rightarrow> string \<Rightarrow> string \<Rightarrow> fs_stamp \<Rightarrow> fs_state option" where
  "set_stamp s task_id path stamp = do {
     (ptr, s) \<leftarrow> (case find_agent s task_id of Some p \<Rightarrow> Some (Some p, s) | None \<Rightarrow> add_agent s task_id);
     (case ptr of
        None \<Rightarrow> Some s
      | Some p \<Rightarrow> do {
          a \<leftarrow> fs_store s p;
          (i, a, mem) \<leftarrow> agent_touch_path a path (fs_mem s);
          let s = s\<lparr>fs_mem := mem\<rparr>;
          Some (case i of
                  None \<Rightarrow> s\<lparr>fs_store := (fs_store s)(p \<mapsto> a)\<rparr>
                | Some i \<Rightarrow> s\<lparr>fs_store := (fs_store s)(p \<mapsto> a\<lparr>fa_stamps := (fa_stamps a)[i := stamp]\<rparr>)\<rparr>) }) }"

text \<open>The modification time given by the caller, or the one of the file; None is the early return.\<close>

definition resolve_mtime :: "fs_env \<Rightarrow> string \<Rightarrow> real \<Rightarrow> real option" where
  "resolve_mtime env path mtime = (if mtime = 0 then env_mtime env path else Some mtime)"

definition fs_record_read :: "fs_env \<Rightarrow> fs_state \<Rightarrow> string \<Rightarrow> string \<Rightarrow> bool \<Rightarrow> real \<Rightarrow> fs_state option" where
  "fs_record_read env s task_id path partial mtime =
     (if env_disabled env \<or> path = [] then Some s
      else case resolve_mtime env path mtime of
             None \<Rightarrow> Some s
           | Some mt \<Rightarrow> set_stamp s task_id path \<lparr>st_mtime = mt, st_read_ts = env_now env, st_partial = partial\<rparr>)"

definition fs_note_write :: "fs_env \<Rightarrow> fs_state \<Rightarrow> string \<Rightarrow> string \<Rightarrow> real \<Rightarrow> fs_state option" where
  "fs_note_write env s task_id path mtime =
     (if env_disabled env \<or> path = [] then Some s
      else case resolve_mtime env path mtime of
             None \<Rightarrow> Some s
           | Some mt \<Rightarrow> do {
               s \<leftarrow> writer_touch s path task_id (env_now env);
               set_stamp s task_id path \<lparr>st_mtime = mt, st_read_ts = env_now env, st_partial = False\<rparr> })"

section \<open>The check before a write\<close>

definition agent_path_index :: "fs_state \<Rightarrow> string \<Rightarrow> string \<Rightarrow> (fs_agent \<times> nat) option" where
  "agent_path_index s task_id path = do {
     p \<leftarrow> find_agent s task_id;
     a \<leftarrow> fs_store s p;
     i \<leftarrow> find_agent_path a path;
     Some (a, i) }"

definition msg_sibling :: "string \<Rightarrow> string \<Rightarrow> string" where
  "msg_sibling path tid = c_trunc 512 (path @ '' was modified by sibling subagent '' @ tid
     @ [CHR '' '', CHR 0xE2, CHR 0x80, CHR 0x94] @ '' after this agent'' @ [CHR 0x27]
     @ ''s last read. Re-read before writing.'')"

definition msg_never_read :: "string \<Rightarrow> string \<Rightarrow> string" where
  "msg_never_read path tid = c_trunc 512 (path @ '' was modified by sibling subagent '' @ tid
     @ '' but this agent never read it. Read before writing to avoid overwriting.'')"

definition msg_modified :: string where
  "msg_modified = ''File was modified on disk since you last read it. Re-read before writing.''"

definition msg_partial :: string where
  "msg_partial = ''File was last read with offset/limit pagination (partial view). Re-read the whole file before overwriting.''"

definition msg_not_read :: string where
  "msg_not_read = ''File was not read by this agent. Read the file first to write an informed edit.''"

text \<open>The second section, after the \<open>stat\<close>: the message, or None for a safe write.\<close>

definition fs_verdict :: "fs_state \<Rightarrow> string \<Rightarrow> string \<Rightarrow> real \<Rightarrow> string option" where
  "fs_verdict s task_id path current_mtime =
     (let r = agent_path_index s task_id path; w = find_writer s path in
      case r of
        Some (a, i) \<Rightarrow>
          let stamp = fa_stamps a ! i;
              sibling = (case w of
                None \<Rightarrow> False
              | Some j \<Rightarrow> fw_task_id (fs_writers s ! j) \<noteq> task_id \<and> fw_ts (fs_writers s ! j) > st_read_ts stamp)
          in if sibling then Some (msg_sibling path (fw_task_id (fs_writers s ! the w)))
             else if current_mtime \<noteq> st_mtime stamp then Some msg_modified
             else if st_partial stamp then Some msg_partial
             else None
      | None \<Rightarrow>
          (case w of
             None \<Rightarrow> Some msg_not_read
           | Some j \<Rightarrow>
               if fw_task_id (fs_writers s ! j) \<noteq> task_id then Some (msg_never_read path (fw_task_id (fs_writers s ! j)))
               else Some msg_not_read))"

text \<open>\<open>s1\<close> and \<open>s2\<close> are the states at the two sections; other threads may act in between.\<close>

definition fs_check_stale :: "fs_env \<Rightarrow> fs_state \<Rightarrow> fs_state \<Rightarrow> string \<Rightarrow> string \<Rightarrow> string option" where
  "fs_check_stale env s1 s2 task_id path =
     (if env_disabled env \<or> path = [] then None
      else if agent_path_index s1 task_id path = None \<and> find_writer s1 path = None then None
      else case env_mtime env path of
             None \<Rightarrow> None
           | Some current_mtime \<Rightarrow> fs_verdict s2 task_id path current_mtime)"

section \<open>Path locks\<close>

text \<open>A mutex is held or not. Growing the array moves the mutexes, which is undefined while one is held.\<close>

datatype lock_result = LockUndefined | LockSkipped fs_state | LockBlocked fs_state | LockTaken fs_state

definition find_path_lock :: "fs_state \<Rightarrow> string \<Rightarrow> nat option" where
  "find_path_lock s path = index_of path (map fl_path (fs_locks s))"

definition path_locks_grow :: "fs_state \<Rightarrow> fs_state option" where
  "path_locks_grow s =
     (if length (fs_locks s) < fs_locks_cap s then Some s
      else if list_ex fl_held (fs_locks s) then None
      else map_option (\<lambda>(cap, mem). s\<lparr>fs_locks_cap := cap, fs_mem := mem\<rparr>)
             (grow_arrays 2 (fs_locks_cap s) (if fs_locks_cap s \<noteq> 0 then fs_locks_cap s * 2 else 8) (fs_mem s)))"

definition take_lock :: "fs_state \<Rightarrow> nat \<Rightarrow> lock_result" where
  "take_lock s i =
     (if fl_held (fs_locks s ! i) then LockBlocked s
      else LockTaken (s\<lparr>fs_locks := (fs_locks s)[i := (fs_locks s ! i)\<lparr>fl_held := True\<rparr>]\<rparr>))"

definition fs_lock_path :: "fs_state \<Rightarrow> string \<Rightarrow> lock_result" where
  "fs_lock_path s path =
     (if path = [] then LockSkipped s
      else case find_path_lock s path of
             Some i \<Rightarrow> take_lock s i
           | None \<Rightarrow>
               (case path_locks_grow s of
                  None \<Rightarrow> LockUndefined
                | Some s \<Rightarrow>
                    if length (fs_locks s) \<ge> fs_locks_cap s then LockSkipped s
                    else take_lock (s\<lparr>fs_locks := fs_locks s @ [\<lparr>fl_path = c_trunc 256 path, fl_held = False\<rparr>]\<rparr>)
                           (length (fs_locks s))))"

text \<open>Unlocking a mutex that is not held is undefined.\<close>

definition fs_unlock_path :: "fs_state \<Rightarrow> string \<Rightarrow> fs_state option" where
  "fs_unlock_path s path =
     (if path = [] then Some s
      else case find_path_lock s path of
             None \<Rightarrow> Some s
           | Some i \<Rightarrow>
               if \<not> fl_held (fs_locks s ! i) then None
               else Some (s\<lparr>fs_locks := (fs_locks s)[i := (fs_locks s ! i)\<lparr>fl_held := False\<rparr>]\<rparr>))"

section \<open>Queries and reset\<close>

definition FS_MAX_GLOBAL_WRITERS :: nat where
  "FS_MAX_GLOBAL_WRITERS = 64"

text \<open>The result has the paths and the task of the last one (empty: the memset). A path of the
  caller may be NULL.\<close>

fun writes_since_loop ::
    "string \<Rightarrow> real \<Rightarrow> string option list \<Rightarrow> fs_writer list \<Rightarrow> string \<times> string list \<Rightarrow> string \<times> string list" where
  "writes_since_loop exclude since ps [] r = r"
| "writes_since_loop exclude since ps (w # ws) (tid, out) =
     (if fw_task_id w = exclude \<or> fw_ts w < since \<or> Some (fw_path w) \<notin> set ps
      then writes_since_loop exclude since ps ws (tid, out)
      else if length out \<ge> FS_MAX_GLOBAL_WRITERS then (tid, out)
      else writes_since_loop exclude since ps ws (fw_task_id w, out @ [fw_path w]))"

definition fs_writes_since ::
    "fs_env \<Rightarrow> fs_state \<Rightarrow> string \<Rightarrow> real \<Rightarrow> string option list \<Rightarrow> (string \<times> string list) option" where
  "fs_writes_since env s exclude since ps =
     (if env_disabled env then None else Some (writes_since_loop exclude since ps (fs_writers s) ([], [])))"

text \<open>None leaves the output alone.\<close>

definition fs_known_reads :: "fs_env \<Rightarrow> fs_state \<Rightarrow> string \<Rightarrow> string list option" where
  "fs_known_reads env s task_id =
     (if env_disabled env then None
      else Some (case find_agent s task_id of
                   None \<Rightarrow> []
                 | Some p \<Rightarrow> (case fs_store s p of None \<Rightarrow> [] | Some a \<Rightarrow> fa_paths a)))"

text \<open>The loop of \<open>fs_clear\<close> erases the element the iterator has just returned. Freeing an object
  that is no longer in the store is undefined.\<close>

function clear_agents :: "nat hive \<Rightarrow> hive_iter \<Rightarrow> (nat \<Rightarrow> fs_agent option) \<Rightarrow> (nat hive \<times> (nat \<Rightarrow> fs_agent option)) option" where
  "clear_agents h it store =
     (case hive_iter_next h it of
        (None, _) \<Rightarrow> Some (h, store)
      | (Some (hnd, c), it') \<Rightarrow>
          (case c of
             Link _ \<Rightarrow> None
           | User p \<Rightarrow>
               if store p = None then None
               else clear_agents (snd (hive_erase h hnd)) it' (store(p := None))))"
  by pat_completeness auto
termination
  by (relation "measure (\<lambda>(h, it, store). it_remaining it)") (auto dest: hive_iter_next_remaining [OF sym])

declare clear_agents.simps [simp del]

text \<open>Destroying a mutex that is held is undefined as well.\<close>

definition fs_clear :: "fs_state \<Rightarrow> fs_state option" where
  "fs_clear s =
     (if list_ex fl_held (fs_locks s) then None else
      map_option (\<lambda>s. s\<lparr>fs_agent_count := 0, fs_writers := [], fs_locks := []\<rparr>)
       (case fs_agents s of
          None \<Rightarrow> Some s
        | Some h \<Rightarrow>
            (case clear_agents h (hive_iter_begin h) (fs_store s) of
               None \<Rightarrow> None
             | Some (h, store) \<Rightarrow> Some (s\<lparr>fs_agents := Some h, fs_store := store\<rparr>))))"

end
