(* ===== verification/FileState_Correct.thy ===== *)
theory FileState_Correct
  imports FileState Hive_Correct
begin

text \<open>
  Correctness of \<^verbatim>\<open>lib/libfilestate/file_state.c\<close> as a client of the hive, through the interpretation
  \<open>hs\<close> of \<open>handle_store\<close>. Under \<open>fs_ok\<close> the arrays, the hive of agents and the store of the objects
  it points to are two maps, \<open>fs_reads\<close> and \<open>fs_writes\<close>. A list of calls leaves exactly its history
  in them, and the check before a write is a decision on that history. Erasing behind the cursor
  does not disturb an iteration, so \<open>fs_clear\<close> frees everything once. Paths that do not fit the
  buffers are outside all of this.
\<close>

section \<open>Lists searched by key\<close>

lemma index_of_Some:
  "index_of k (map fst xs) = Some i \<Longrightarrow> i < length xs \<and> fst (xs ! i) = k \<and> map_of xs k = Some (snd (xs ! i))
     \<and> map_of (xs[i := (k, v)]) = (map_of xs)(k \<mapsto> v)"
  by (induction xs arbitrary: i) (auto split: if_splits simp: fun_eq_iff)

lemma index_of_None: "index_of k ks = None \<longleftrightarrow> k \<notin> set ks"
  by (induction ks) auto

lemma index_of_map_of: "index_of k (map fst xs) = None \<longleftrightarrow> map_of xs k = None"
  by (simp add: index_of_None map_of_eq_None_iff)

lemma map_of_snoc: "index_of k (map fst xs) = None \<Longrightarrow> map_of (xs @ [(k, v)]) = (map_of xs)(k \<mapsto> v)"
proof -
  assume "index_of k (map fst xs) = None"
  then have "map_of xs k = None" by (simp add: index_of_map_of)
  then show ?thesis by (auto simp: map_add_def fun_eq_iff split: option.splits)
qed

lemma grow_arrays_ok: "grow_arrays k cap ncap [] = Some (ncap, [])"
proof -
  have "\<exists>oks. c_reallocs k [] = (oks, []) \<and> list_all id oks"
    by (induction k) auto
  then show ?thesis by (auto simp: grow_arrays_def)
qed

section \<open>One agent\<close>

text \<open>What an agent has recorded: its stamps by path.\<close>

definition agent_stamps :: "fs_agent \<Rightarrow> string \<Rightarrow> fs_stamp option" where
  "agent_stamps a = map_of (zip (fa_paths a) (fa_stamps a))"

definition agent_ok :: "fs_agent \<Rightarrow> bool" where
  "agent_ok a \<longleftrightarrow> length (fa_stamps a) = length (fa_paths a) \<and> length (fa_paths a) \<le> fa_cap a \<and> 0 < fa_cap a"

lemma agent_ok_new [simp]: "agent_ok (new_agent t)" "agent_stamps (new_agent t) = Map.empty"
  "length t < 64 \<Longrightarrow> fa_task_id (new_agent t) = t"
  by (simp_all add: agent_ok_def new_agent_def agent_stamps_def)

lemma find_agent_path_stamps:
  assumes "agent_ok a"
  shows "find_agent_path a path = Some i \<Longrightarrow> agent_stamps a path = Some (fa_stamps a ! i)"
    "find_agent_path a path = None \<longleftrightarrow> agent_stamps a path = None"
proof -
  have z: "map fst (zip (fa_paths a) (fa_stamps a)) = fa_paths a" using assms by (simp add: agent_ok_def)
  show "find_agent_path a path = Some i \<Longrightarrow> agent_stamps a path = Some (fa_stamps a ! i)"
    using index_of_Some [of path "zip (fa_paths a) (fa_stamps a)" i] assms
    by (auto simp: z find_agent_path_def agent_stamps_def agent_ok_def)
  show "find_agent_path a path = None \<longleftrightarrow> agent_stamps a path = None"
    using index_of_map_of [of path "zip (fa_paths a) (fa_stamps a)"]
    by (simp add: z find_agent_path_def agent_stamps_def)
qed

lemma agent_touch_path_ok:
  assumes "agent_ok a" "length path < 256"
  obtains i a' where "agent_touch_path a path [] = Some (Some i, a', [])"
    "fa_task_id a' = fa_task_id a"
    "\<And>st. agent_ok (a'\<lparr>fa_stamps := (fa_stamps a')[i := st]\<rparr>)"
    "\<And>st. agent_stamps (a'\<lparr>fa_stamps := (fa_stamps a')[i := st]\<rparr>) = (agent_stamps a)(path \<mapsto> st)"
proof (cases "find_agent_path a path")
  case (Some i)
  have z: "map fst (zip (fa_paths a) (fa_stamps a)) = fa_paths a" using assms by (simp add: agent_ok_def)
  note ix = index_of_Some [of path "zip (fa_paths a) (fa_stamps a)" i]
  have len: "length (fa_stamps a) = length (fa_paths a)" using assms(1) by (simp add: agent_ok_def)
  have il: "i < length (fa_paths a)"
    using ix [of undefined] Some len by (simp add: z find_agent_path_def)
  then have "fa_paths a ! i = path"
    using ix [of undefined] Some len by (simp add: z find_agent_path_def)
  note il = il this
  have "zip (fa_paths a) ((fa_stamps a)[i := st]) = (zip (fa_paths a) (fa_stamps a))[i := (path, st)]" for st
    using zip_update [of "fa_paths a" i path "fa_stamps a" st] il list_update_id [of "fa_paths a" i] by simp
  then have "agent_stamps (a\<lparr>fa_stamps := (fa_stamps a)[i := st]\<rparr>) = (agent_stamps a)(path \<mapsto> st)" for st
    using ix [of st] Some by (simp add: agent_stamps_def z find_agent_path_def)
  then show ?thesis
    using Some assms by (intro that [of i a]) (simp_all add: agent_touch_path_def agent_ok_def)
next
  case None
  obtain cap where g: "agent_grow a [] = Some (a\<lparr>fa_cap := cap\<rparr>, [])" "length (fa_paths a) < cap"
  proof (cases "length (fa_paths a) < fa_cap a")
    case True
    then show ?thesis by (intro that [of "fa_cap a"]) (simp_all add: agent_grow_def)
  next
    case False
    then show ?thesis using assms(1)
      by (intro that [of "fa_cap a * 2"]) (auto simp: agent_grow_def grow_arrays_ok agent_ok_def)
  qed
  have z: "map fst (zip (fa_paths a) (fa_stamps a)) = fa_paths a" using assms by (simp add: agent_ok_def)
  let ?z = "\<lparr>st_mtime = 0, st_read_ts = 0, st_partial = False\<rparr>"
  let ?a = "a\<lparr>fa_cap := cap, fa_paths := fa_paths a @ [path], fa_stamps := fa_stamps a @ [?z]\<rparr>"
  have "agent_touch_path a path [] = Some (Some (length (fa_paths a)), ?a, [])"
    using None g assms(2) by (simp add: agent_touch_path_def)
  moreover have "agent_ok (?a\<lparr>fa_stamps := (fa_stamps ?a)[length (fa_paths a) := st]\<rparr>)" for st
    using assms(1) g(2) by (simp add: agent_ok_def)
  moreover have "agent_stamps (?a\<lparr>fa_stamps := (fa_stamps ?a)[length (fa_paths a) := st]\<rparr>) = (agent_stamps a)(path \<mapsto> st)" for st
    using map_of_snoc [of path "zip (fa_paths a) (fa_stamps a)" st] None assms(1)
    by (simp add: agent_stamps_def z find_agent_path_def agent_ok_def list_update_append)
  ultimately show ?thesis by (intro that [of "length (fa_paths a)" ?a]) simp_all
qed

section \<open>The registry\<close>

text \<open>The hive holds the address of every live agent once; no two agents have the same task.\<close>

definition fs_ok :: "fs_state \<Rightarrow> bool" where
  "fs_ok s \<longleftrightarrow>
     (case fs_agents s of
        None \<Rightarrow> fs_store s = Map.empty
      | Some h \<Rightarrow> hive_inv h \<and> hv_mem h = [] \<and> ran (hive_abs h) = Map.dom (fs_store s)
          \<and> inj_on (hive_abs h) (Map.dom (hive_abs h)))
     \<and> (\<forall>p a. fs_store s p = Some a \<longrightarrow> p < fs_next s \<and> agent_ok a)
     \<and> (\<forall>p q a b. fs_store s p = Some a \<and> fs_store s q = Some b \<and> fa_task_id a = fa_task_id b \<longrightarrow> p = q)
     \<and> length (fs_writers s) \<le> fs_writers_cap s \<and> length (fs_locks s) \<le> fs_locks_cap s"

lemma fs_ok_start: "fs_ok fs_start"
  by (simp add: fs_ok_def fs_start_def)

lemma find_agent_in_Some:
  "find_agent_in store t cs = Some p \<Longrightarrow> (\<exists>h. (h, User p) \<in> set cs) \<and> map_option fa_task_id (store p) = Some t"
  by (induction cs) (auto split: hive_cell.splits if_splits)

lemma find_agent_in_None:
  "find_agent_in store t cs = None \<Longrightarrow> (h, User p) \<in> set cs \<Longrightarrow> map_option fa_task_id (store p) \<noteq> Some t"
  by (induction cs) (auto split: hive_cell.splits if_splits)

lemma find_agent_iff:
  assumes "fs_ok s"
  shows "find_agent s t = Some p \<longleftrightarrow> (\<exists>a. fs_store s p = Some a \<and> fa_task_id a = t)"
proof (cases "fs_agents s")
  case None
  then show ?thesis using assms by (simp add: find_agent_def fs_ok_def)
next
  case (Some h)
  then have h: "hive_inv h" "ran (hive_abs h) = Map.dom (fs_store s)" using assms by (auto simp: fs_ok_def)
  have fa: "find_agent s t = find_agent_in (fs_store s) t (hive_items h)"
    using Some h(1) by (simp add: find_agent_def hive_drain_items)
  have fwd: "\<exists>a. fs_store s q = Some a \<and> fa_task_id a = t" if "find_agent s t = Some q" for q
    using find_agent_in_Some [of "fs_store s" t "hive_items h" q] that by (auto simp: fa)
  show ?thesis
  proof
    assume "\<exists>a. fs_store s p = Some a \<and> fa_task_id a = t"
    then obtain a where a: "fs_store s p = Some a" "fa_task_id a = t" by auto
    then obtain k where "hive_abs h k = Some p" using h(2) by (force simp: ran_def)
    then have "(k, User p) \<in> set (hive_items h)" using hive_items_iff [OF h(1)] by simp
    then have "find_agent s t \<noteq> None" using find_agent_in_None [of "fs_store s" t "hive_items h" k p] a by (auto simp: fa)
    then obtain q where q: "find_agent s t = Some q" by auto
    with fwd obtain b where "fs_store s q = Some b" "fa_task_id b = t" by auto
    then have "q = p" using a assms unfolding fs_ok_def by metis
    with q show "find_agent s t = Some p" by simp
  qed (rule fwd)
qed

text \<open>The abstract state: the stamp of each task and path, and the last writer of each path.\<close>

definition fs_reads :: "fs_state \<Rightarrow> string \<Rightarrow> string \<Rightarrow> fs_stamp option" where
  "fs_reads s t path = do { p \<leftarrow> find_agent s t; a \<leftarrow> fs_store s p; agent_stamps a path }"

definition fs_writes :: "fs_state \<Rightarrow> string \<Rightarrow> (string \<times> real) option" where
  "fs_writes s = map_of (map (\<lambda>w. (fw_path w, fw_task_id w, fw_ts w)) (fs_writers s))"

lemma fs_reads_at:
  assumes "fs_ok s" "fs_store s p = Some a"
  shows "fs_reads s (fa_task_id a) path = agent_stamps a path"
proof -
  have "find_agent s (fa_task_id a) = Some p" using find_agent_iff [OF assms(1)] assms(2) by simp
  then show ?thesis using assms(2) by (simp add: fs_reads_def)
qed

lemma fs_reads_none: "find_agent s t = None \<Longrightarrow> fs_reads s t path = None"
  by (simp add: fs_reads_def)

lemma fs_reads_store:
  assumes "fs_ok s" "fs_ok s'" "fs_store s' = (fs_store s)(p \<mapsto> a')" "\<And>a. fs_store s p = Some a \<Longrightarrow> fa_task_id a = fa_task_id a'"
  shows "fs_reads s' t path = (if t = fa_task_id a' then agent_stamps a' path else fs_reads s t path)"
proof (cases "t = fa_task_id a'")
  case True
  then show ?thesis using fs_reads_at [OF assms(2), of p a' path] assms(3) by simp
next
  case False
  have eq: "find_agent s' t = Some q \<longleftrightarrow> find_agent s t = Some q" for q
  proof (cases "q = p")
    case True
    have "\<not> (\<exists>a. fs_store s p = Some a \<and> fa_task_id a = t)" using False assms(4) by metis
    with True False show ?thesis
      by (simp add: find_agent_iff [OF assms(1)] find_agent_iff [OF assms(2)] assms(3))
  next
    case False
    then show ?thesis by (simp add: find_agent_iff [OF assms(1)] find_agent_iff [OF assms(2)] assms(3))
  qed
  have np: "find_agent s t \<noteq> Some p" using find_agent_iff [OF assms(1), of t p] assms(4) False by metis
  show ?thesis
  proof (cases "find_agent s t")
    case None
    then have "find_agent s' t = None" using eq by (cases "find_agent s' t") auto
    then show ?thesis using None False by (simp add: fs_reads_none)
  next
    case (Some q)
    then have "find_agent s' t = Some q" "q \<noteq> p" using eq np by auto
    then show ?thesis using Some False by (simp add: fs_reads_def assms(3))
  qed
qed

text \<open>What the steps on the agents leave alone.\<close>

definition same_rest :: "fs_state \<Rightarrow> fs_state \<Rightarrow> bool" where
  "same_rest s s' \<longleftrightarrow> fs_writers s' = fs_writers s \<and> fs_writers_cap s' = fs_writers_cap s
     \<and> fs_locks s' = fs_locks s \<and> fs_locks_cap s' = fs_locks_cap s \<and> fs_mem s' = fs_mem s"

lemma fs_ok_unique:
  "fs_ok s \<Longrightarrow> fs_store s p = Some a \<Longrightarrow> fs_store s q = Some b \<Longrightarrow> fa_task_id a = fa_task_id b \<Longrightarrow> p = q"
  unfolding fs_ok_def by metis

lemma hive_new_4: obtains h :: "nat hive" where "hive_new 4 [] = Some h" "hive_inv h" "hive_abs h = Map.empty" "hv_mem h = []"
proof -
  obtain h :: "nat hive" where h: "hive_new 4 [] = Some h" "hv_mem h = []"
    by (simp add: hive_new_def hive_block_new_def)
  then show ?thesis using hive_new_inv [OF h(1)] by (intro that [of h])
qed

text \<open>Inserting a fresh address keeps the hive and the store in step.\<close>

lemma fs_ok_insert:
  assumes "fs_ok s" "find_agent s t = None" "length t < 64"
    and h: "hive_inv h" "hv_mem h = []" "ran (hive_abs h) = Map.dom (fs_store s)" "inj_on (hive_abs h) (Map.dom (hive_abs h))"
    and h': "hive_inv h'" "hv_mem h' = []" "hive_abs h k = None" "hive_abs h' = (hive_abs h)(k \<mapsto> fs_next s)"
    and s': "fs_agents s' = Some h'" "fs_store s' = (fs_store s)(fs_next s \<mapsto> new_agent t)" "fs_next s' = fs_next s + 1"
      "same_rest s s'"
  shows "fs_ok s'" "fs_store s (fs_next s) = None"
proof -
  have old: "p < fs_next s \<and> agent_ok a" if "fs_store s p = Some a" for p a
    using assms(1) that by (auto simp: fs_ok_def)
  show fresh: "fs_store s (fs_next s) = None"
    using old [of "fs_next s"] by (cases "fs_store s (fs_next s)") auto
  have nt: "fa_task_id a \<noteq> t" if "fs_store s p = Some a" for p a
    using find_agent_iff [OF assms(1), of t p] assms(2) that by auto
  have rn: "ran (hive_abs h') = Map.dom (fs_store s')"
    using h(3) h'(3) by (simp add: h'(4) s'(2) ran_map_upd)
  have notin: "fs_next s \<notin> ran (hive_abs h)" using fresh by (simp add: h(3) domIff)
  have inj: "inj_on (hive_abs h') (Map.dom (hive_abs h'))"
    unfolding inj_on_def
  proof (intro ballI impI)
    fix x y assume xy: "x \<in> Map.dom (hive_abs h')" "y \<in> Map.dom (hive_abs h')" "hive_abs h' x = hive_abs h' y"
    have "hive_abs h z \<noteq> Some (fs_next s)" for z using notin by (auto simp: ran_def)
    then show "x = y" using xy h(4) h'(3)
      by (cases "x = k"; cases "y = k") (auto simp: h'(4) inj_on_def domIff)
  qed
  have st: "p < fs_next s' \<and> agent_ok a" if "fs_store s' p = Some a" for p a
    using old [of p a] that by (auto simp: s'(2,3) split: if_splits)
  have tid: "fa_task_id (new_agent t) = t" using assms(3) by simp
  have ds: "p = q" if "fs_store s' p = Some a" "fs_store s' q = Some b" "fa_task_id a = fa_task_id b" for p q a b
  proof -
    consider "p = fs_next s" "q = fs_next s" | "p \<noteq> fs_next s" "q \<noteq> fs_next s"
      | "p = fs_next s" "q \<noteq> fs_next s" | "p \<noteq> fs_next s" "q = fs_next s" by blast
    then show ?thesis
    proof cases
      case 2
      then show ?thesis using that fs_ok_unique [OF assms(1), of p a q b] by (simp add: s'(2))
    next
      case 3
      then have "fa_task_id b = t" using that tid by (simp add: s'(2))
      then show ?thesis using nt [of q b] that 3 by (simp add: s'(2))
    next
      case 4
      then have "fa_task_id a = t" using that tid by (simp add: s'(2))
      then show ?thesis using nt [of p a] that 4 by (simp add: s'(2))
    qed simp
  qed
  show "fs_ok s'"
    unfolding fs_ok_def s'(1) option.case
  proof (intro conjI)
    show "\<forall>p a. fs_store s' p = Some a \<longrightarrow> p < fs_next s' \<and> agent_ok a" using st by blast
    show "\<forall>p q a b. fs_store s' p = Some a \<and> fs_store s' q = Some b \<and> fa_task_id a = fa_task_id b \<longrightarrow> p = q"
      using ds by blast
    show "length (fs_writers s') \<le> fs_writers_cap s'" "length (fs_locks s') \<le> fs_locks_cap s'"
      using assms(1) s'(4) by (simp_all add: same_rest_def fs_ok_def)
  qed (rule h'(1,2) rn inj)+
qed

lemma add_agent_ok:
  assumes ok: "fs_ok s" "fs_mem s = []" "find_agent s t = None" "length t < 64"
  obtains p s' where "add_agent s t = Some (Some p, s')" "fs_ok s'"
    "fs_store s' = (fs_store s)(p \<mapsto> new_agent t)" "fs_store s p = None" "same_rest s s'"
proof -
  obtain h where h: "hive_inv h" "hv_mem h = []" "ran (hive_abs h) = Map.dom (fs_store s)" "inj_on (hive_abs h) (Map.dom (hive_abs h))"
    "(if fs_agents s = None then s\<lparr>fs_agents := hive_new 4 []\<rparr> else s) = s\<lparr>fs_agents := Some h\<rparr>"
  proof (cases "fs_agents s")
    case None
    obtain h :: "nat hive" where "hive_new 4 [] = Some h" "hive_inv h" "hive_abs h = Map.empty" "hv_mem h = []"
      by (rule hive_new_4)
    then show ?thesis using None ok(1) by (intro that [of h]) (simp_all add: fs_ok_def)
  next
    case (Some h)
    then show ?thesis using ok(1) by (intro that [of h]) (simp_all add: fs_ok_def)
  qed
  obtain k h' where i: "hive_insert h (fs_next s) = Some (k, True, h')" "hive_inv h'" "hv_mem h' = []"
    "hive_abs h k = None" "hive_abs h' = (hive_abs h)(k \<mapsto> fs_next s)"
    using h(2) by (rule_tac hive_insert_spec [OF h(1), of "fs_next s"]) auto
  define s' where "s' = s\<lparr>fs_agents := Some h', fs_store := (fs_store s)(fs_next s \<mapsto> new_agent t),
     fs_next := fs_next s + 1, fs_agent_count := fs_agent_count s + 1\<rparr>"
  have run: "add_agent s t = Some (Some (fs_next s), s')"
    unfolding add_agent_def h(5) using ok(2) i(1) by (simp add: s'_def)
  have s': "fs_agents s' = Some h'" "fs_store s' = (fs_store s)(fs_next s \<mapsto> new_agent t)" "fs_next s' = fs_next s + 1"
      "same_rest s s'" by (simp_all add: s'_def same_rest_def)
  note r = fs_ok_insert [OF ok(1,3,4) h(1-4) i(2-5) s']
  show ?thesis by (rule that [OF run r(1) s'(2) r(2) s'(4)])
qed

text \<open>Changing an agent in place.\<close>

lemma fs_ok_store:
  assumes "fs_ok s" "fs_store s p = Some a" "agent_ok a'" "fa_task_id a' = fa_task_id a"
  shows "fs_ok (s\<lparr>fs_mem := m, fs_store := (fs_store s)(p \<mapsto> a')\<rparr>)"
proof -
  have old: "q < fs_next s \<and> agent_ok b" if "fs_store s q = Some b" for q b
    using assms(1) that by (auto simp: fs_ok_def)
  note d = fs_ok_unique [OF assms(1)]
  have uq: "q = r" if "((fs_store s)(p \<mapsto> a')) q = Some b" "((fs_store s)(p \<mapsto> a')) r = Some c" "fa_task_id b = fa_task_id c" for q r b c
  proof -
    have "\<exists>b'. fs_store s q = Some b' \<and> fa_task_id b' = fa_task_id b" using that(1) assms(2,4)
      by (cases "q = p") auto
    moreover have "\<exists>c'. fs_store s r = Some c' \<and> fa_task_id c' = fa_task_id c" using that(2) assms(2,4)
      by (cases "r = p") auto
    ultimately obtain b' c' where bc: "fs_store s q = Some b'" "fa_task_id b' = fa_task_id b"
      "fs_store s r = Some c'" "fa_task_id c' = fa_task_id c" by blast
    show ?thesis by (rule d [OF bc(1,3)]) (simp add: bc that(3))
  qed
  have st: "q < fs_next s \<and> agent_ok b" if "((fs_store s)(p \<mapsto> a')) q = Some b" for q b
    using old [of p a] old [of q b] that assms(2,3) by (cases "q = p") auto
  have dm: "insert p (Map.dom (fs_store s)) = Map.dom (fs_store s)" using assms(2) by auto
  show ?thesis
    unfolding fs_ok_def
  proof (intro conjI)
    let ?s = "s\<lparr>fs_mem := m, fs_store := (fs_store s)(p \<mapsto> a')\<rparr>"
    show "case fs_agents ?s of None \<Rightarrow> fs_store ?s = Map.empty
      | Some h \<Rightarrow> hive_inv h \<and> hv_mem h = [] \<and> ran (hive_abs h) = Map.dom (fs_store ?s) \<and> inj_on (hive_abs h) (Map.dom (hive_abs h))"
      using assms(1,2) dm by (cases "fs_agents s") (simp_all add: fs_ok_def)
    show "\<forall>q b. fs_store ?s q = Some b \<longrightarrow> q < fs_next ?s \<and> agent_ok b" using st by simp
    show "\<forall>q r b c. fs_store ?s q = Some b \<and> fs_store ?s r = Some c \<and> fa_task_id b = fa_task_id c \<longrightarrow> q = r"
    proof (intro allI impI)
      fix q r b c
      assume "fs_store ?s q = Some b \<and> fs_store ?s r = Some c \<and> fa_task_id b = fa_task_id c"
      then show "q = r" by (intro uq [of q b r c]) simp_all
    qed
  qed (use assms(1) in \<open>simp_all add: fs_ok_def\<close>)
qed

lemma set_stamp_ok:
  assumes ok: "fs_ok s" "fs_mem s = []" and short: "length t < 64" "length path < 256"
  obtains s' where "set_stamp s t path st = Some s'" "fs_ok s'" "same_rest s s'"
    "fs_reads s' = (\<lambda>t' p'. if t' = t \<and> p' = path then Some st else fs_reads s t' p')"
proof -
  obtain p a s1 where f: "(case find_agent s t of Some p \<Rightarrow> Some (Some p, s) | None \<Rightarrow> add_agent s t) = Some (Some p, s1)"
    "fs_ok s1" "fs_store s1 p = Some a" "fa_task_id a = t" "same_rest s s1" "fs_reads s1 = fs_reads s"
  proof (cases "find_agent s t")
    case (Some p)
    then obtain a where "fs_store s p = Some a" "fa_task_id a = t" using find_agent_iff [OF ok(1)] by auto
    then show ?thesis using Some ok by (intro that [of p s a]) (simp_all add: same_rest_def)
  next
    case None
    obtain p s1 where a: "add_agent s t = Some (Some p, s1)" "fs_ok s1"
      "fs_store s1 = (fs_store s)(p \<mapsto> new_agent t)" "fs_store s p = None" "same_rest s s1"
      by (rule add_agent_ok [OF ok None short(1)])
    have "fs_reads s1 t' p' = fs_reads s t' p'" for t' p'
      using fs_reads_store [OF ok(1) a(2,3)] a(4) short(1) None by (simp add: fs_reads_none)
    then show ?thesis using None a short(1) by (intro that [of p s1 "new_agent t"]) (simp_all add: fun_eq_iff)
  qed
  have aok: "agent_ok a" using f(2,3) by (auto simp: fs_ok_def)
  have m: "fs_mem s1 = []" using f(5) ok(2) by (simp add: same_rest_def)
  obtain i a1 where t: "agent_touch_path a path [] = Some (Some i, a1, [])" "fa_task_id a1 = fa_task_id a"
    "agent_ok (a1\<lparr>fa_stamps := (fa_stamps a1)[i := st]\<rparr>)"
    "agent_stamps (a1\<lparr>fa_stamps := (fa_stamps a1)[i := st]\<rparr>) = (agent_stamps a)(path \<mapsto> st)"
    by (rule agent_touch_path_ok [OF aok short(2)]) metis
  define a2 where "a2 = a1\<lparr>fa_stamps := (fa_stamps a1)[i := st]\<rparr>"
  define s2 where "s2 = s1\<lparr>fs_mem := [], fs_store := (fs_store s1)(p \<mapsto> a2)\<rparr>"
  have run: "set_stamp s t path st = Some s2"
    unfolding set_stamp_def f(1) using f(3) m t(1) by (simp add: s2_def a2_def)
  have id2: "fa_task_id a2 = fa_task_id a" using t(2) by (simp add: a2_def)
  have ok2: "fs_ok s2" unfolding s2_def by (rule fs_ok_store [OF f(2,3) _ id2]) (use t(3) in \<open>simp add: a2_def\<close>)
  have st2: "fs_store s2 = (fs_store s1)(p \<mapsto> a2)" by (simp add: s2_def)
  have rd: "fs_reads s2 t' p' = (if t' = t \<and> p' = path then Some st else fs_reads s t' p')" for t' p'
  proof -
    have r: "fs_reads s2 t' p' = (if t' = fa_task_id a2 then agent_stamps a2 p' else fs_reads s1 t' p')"
      by (rule fs_reads_store [OF f(2) ok2 st2]) (use f(3) id2 in simp)
    then show ?thesis using t(4) f(4,6) id2 fs_reads_at [OF f(2,3), of p'] by (simp add: a2_def)
  qed
  show ?thesis
    by (rule that [OF run ok2]) (use f(5) m rd in \<open>auto simp: same_rest_def s2_def fun_eq_iff\<close>)
qed

section \<open>Writers\<close>

lemma find_writer_abs:
  "find_writer s path = Some j \<Longrightarrow> fs_writes s path = Some (fw_task_id (fs_writers s ! j), fw_ts (fs_writers s ! j))"
  "find_writer s path = None \<longleftrightarrow> fs_writes s path = None"
proof -
  let ?m = "map (\<lambda>w. (fw_path w, fw_task_id w, fw_ts w)) (fs_writers s)"
  have m: "map fst ?m = map fw_path (fs_writers s)" by simp
  show "find_writer s path = Some j \<Longrightarrow> fs_writes s path = Some (fw_task_id (fs_writers s ! j), fw_ts (fs_writers s ! j))"
  proof -
    assume a: "find_writer s path = Some j"
    then have "index_of path (map fst ?m) = Some j" by (simp only: m find_writer_def)
    then have "j < length ?m" "fs_writes s path = Some (snd (?m ! j))"
      using index_of_Some [of path ?m j undefined] by (simp_all only: fs_writes_def)
    then show ?thesis by simp
  qed
  show "find_writer s path = None \<longleftrightarrow> fs_writes s path = None"
    using index_of_map_of [of path ?m] by (simp only: m find_writer_def fs_writes_def)
qed

lemma writer_touch_ok:
  assumes ok: "fs_ok s" "fs_mem s = []" and short: "length t < 64" "length path < 256"
  obtains s' where "writer_touch s path t ts = Some s'" "fs_ok s'" "fs_mem s' = []" "fs_reads s' = fs_reads s"
    "fs_writes s' = (fs_writes s)(path \<mapsto> (t, ts))"
proof -
  let ?f = "\<lambda>w. (fw_path w, fw_task_id w, fw_ts w)"
  let ?m = "map ?f (fs_writers s)"
  have m: "map fst ?m = map fw_path (fs_writers s)" by simp
  have frame: "fs_ok (s\<lparr>fs_writers := ws, fs_writers_cap := c, fs_mem := []\<rparr>)"
    "fs_reads (s\<lparr>fs_writers := ws, fs_writers_cap := c, fs_mem := []\<rparr>) = fs_reads s" if "length ws \<le> c" for ws c
    using ok(1) that by (cases "fs_agents s"; simp add: fs_ok_def fs_reads_def find_agent_def fun_eq_iff)+
  show ?thesis
  proof (cases "find_writer s path")
    case (Some j)
    note ix = index_of_Some [of path ?m j "(t, ts)"]
    have j: "index_of path (map fst ?m) = Some j" using Some by (simp only: m find_writer_def)
    then have jl: "j < length (fs_writers s)" "fw_path (fs_writers s ! j) = path" using ix by auto
    let ?w = "(fs_writers s ! j)\<lparr>fw_task_id := t, fw_ts := ts\<rparr>"
    have s': "s\<lparr>fs_writers := (fs_writers s)[j := ?w]\<rparr> = s\<lparr>fs_writers := (fs_writers s)[j := ?w], fs_writers_cap := fs_writers_cap s, fs_mem := []\<rparr>"
      using ok(2) by simp
    have "map ?f ((fs_writers s)[j := ?w]) = ?m[j := (path, t, ts)]" using jl by (simp add: map_update)
    then have "fs_writes (s\<lparr>fs_writers := (fs_writers s)[j := ?w]\<rparr>) = (fs_writes s)(path \<mapsto> (t, ts))"
      using ix j by (simp add: fs_writes_def)
    moreover have "length ((fs_writers s)[j := ?w]) \<le> fs_writers_cap s" using ok(1) by (simp add: fs_ok_def)
    note fr = frame [OF this, folded s']
    ultimately show ?thesis using Some short ok(2)
      by (intro that [of "s\<lparr>fs_writers := (fs_writers s)[j := ?w]\<rparr>"]) (use fr in \<open>simp_all add: writer_touch_def\<close>)
  next
    case None
    obtain c where g: "writers_grow s = Some (s\<lparr>fs_writers_cap := c, fs_mem := []\<rparr>)" "length (fs_writers s) < c"
    proof (cases "length (fs_writers s) < fs_writers_cap s")
      case True
      then show ?thesis using ok(2) by (intro that [of "fs_writers_cap s"]) (simp_all add: writers_grow_def)
    next
      case False
      then show ?thesis using ok
        by (intro that [of "if fs_writers_cap s \<noteq> 0 then fs_writers_cap s * 2 else 8"])
           (simp_all add: writers_grow_def grow_arrays_ok fs_ok_def)
    qed
    let ?w = "\<lparr>fw_path = path, fw_task_id = t, fw_ts = ts\<rparr>"
    let ?s = "s\<lparr>fs_writers := fs_writers s @ [?w], fs_writers_cap := c, fs_mem := []\<rparr>"
    have "writer_touch s path t ts = Some ?s" using None g short by (simp add: writer_touch_def)
    moreover have "fs_writes ?s = (fs_writes s)(path \<mapsto> (t, ts))"
      using map_of_snoc [of path ?m "(t, ts)"] None by (simp only: m find_writer_def) (simp add: fs_writes_def)
    moreover have "fs_ok ?s" "fs_reads ?s = fs_reads s" using frame [of "fs_writers s @ [?w]" c] g(2) by simp_all
    ultimately show ?thesis by (intro that [of ?s]) simp_all
  qed
qed

section \<open>Erasing while iterating\<close>

text \<open>The positions from a cursor on; \<open>hive_from\<close> lists the live ones.\<close>

definition slot_at :: "nat \<Rightarrow> nat \<Rightarrow> hive_handle" where
  "slot_at bi s = \<lparr>hd_block = bi, hd_slot = s\<rparr>"

definition positions :: "'a hive \<Rightarrow> nat \<Rightarrow> nat \<Rightarrow> hive_handle list" where
  "positions h bi s = (if bi < length (hv_blocks h)
     then map (slot_at bi) [s..<hv_block_cap h]
        @ concat (map (\<lambda>bj. map (slot_at bj) [0..<hv_block_cap h]) [Suc bi..<length (hv_blocks h)])
     else [])"

lemma hive_block_from_get:
  assumes "hive_inv h" "bi < length (hv_blocks h)"
  shows "hive_block_from bi (hv_blocks h ! bi) s =
     map (\<lambda>k. (k, the (hive_get h k))) (filter (\<lambda>k. hive_get h k \<noteq> None) (map (slot_at bi) [s..<hv_block_cap h]))"
proof -
  let ?b = "hv_blocks h ! bi"
  have cap: "hb_cap ?b = hv_block_cap h" using hive_inv_block [OF assms] by (simp add: hive_block_inv_def)
  have get: "hive_get h (slot_at bi t) = (if hb_skip ?b ! t = 0 then None else Some (hb_slots ?b ! t))"
    if "t \<in> set [s..<hv_block_cap h]" for t
    using that assms(2) by (simp add: hive_get_def Let_def cap slot_at_def)
  have "filter (\<lambda>t. hive_get h (slot_at bi t) \<noteq> None) [s..<hv_block_cap h] = filter (\<lambda>t. hb_skip ?b ! t \<noteq> 0) [s..<hv_block_cap h]"
    by (rule filter_cong [OF refl]) (simp add: get)
  then show ?thesis
    by (simp add: hive_block_from_def filter_map o_def cap get slot_at_def [symmetric] del: not_None_eq cong: map_cong)
qed

lemma hive_from_positions:
  assumes "hive_inv h"
  shows "hive_from h bi s = map (\<lambda>k. (k, the (hive_get h k))) (filter (\<lambda>k. hive_get h k \<noteq> None) (positions h bi s))"
proof (cases "bi < length (hv_blocks h)")
  case True
  let ?f = "\<lambda>ks. map (\<lambda>k. (k, the (hive_get h k))) (filter (\<lambda>k. hive_get h k \<noteq> None) ks)"
  have "concat (map (\<lambda>bj. hive_block_from bj (hv_blocks h ! bj) 0) [Suc bi..<length (hv_blocks h)])
    = concat (map (\<lambda>bj. ?f (map (slot_at bj) [0..<hv_block_cap h])) [Suc bi..<length (hv_blocks h)])"
    by (rule arg_cong [of _ _ concat], rule map_cong [OF refl], rule hive_block_from_get [OF assms]) simp
  also have "\<dots> = ?f (concat (map (\<lambda>bj. map (slot_at bj) [0..<hv_block_cap h]) [Suc bi..<length (hv_blocks h)]))"
    by (simp only: filter_concat map_concat map_map o_def)
  finally show ?thesis using True
    by (simp only: hive_from_def positions_def if_True hive_block_from_get [OF assms] map_append filter_append)
qed (simp add: hive_from_def positions_def)

lemma distinct_positions: "distinct (positions h bi s)"
proof -
  have "distinct (concat (map (\<lambda>bj. map (slot_at bj) [0..<c]) [a..<n]))" for a n c
    by (induction n) (auto simp: distinct_map inj_on_def slot_at_def)
  then show ?thesis by (auto simp: positions_def distinct_map inj_on_def slot_at_def)
qed

lemma distinct_hive_from: "hive_inv h \<Longrightarrow> distinct (map fst (hive_from h bi s))"
  by (simp add: hive_from_positions o_def distinct_positions)

lemma hive_erase_shape:
  "hv_block_cap (snd (hive_erase h k)) = hv_block_cap h"
  "length (hv_blocks (snd (hive_erase h k))) = length (hv_blocks h)"
  by (simp_all add: hive_erase_def Let_def)

text \<open>Erasing an element the cursor has passed does not disturb what is left.\<close>

lemma hive_erase_behind:
  assumes inv: "hive_inv h" and k: "k \<notin> fst ` set (hive_from h bi s)"
  shows "hive_from (snd (hive_erase h k)) bi s = hive_from h bi s"
proof -
  let ?h = "snd (hive_erase h k)"
  have h': "hive_inv ?h" "hive_abs ?h = (hive_abs h)(k := None)" using hs.erase_ok [OF inv, of k] by auto
  have pos: "positions ?h bi s = positions h bi s" by (simp add: positions_def hive_erase_shape)
  have get: "hive_get ?h j = hive_get h j" if "j \<in> set (positions h bi s)" for j
  proof (cases "j = k")
    case True
    then have "hive_get h k = None"
      using k that unfolding hive_from_positions [OF inv] by (force simp: image_iff)
    then show ?thesis using True by (simp add: hive_get_abs [OF h'(1)] h'(2))
  next
    case False
    then show ?thesis by (simp add: hive_get_abs [OF h'(1)] hive_get_abs [OF inv] h'(2))
  qed
  have "filter (\<lambda>j. hive_get ?h j \<noteq> None) (positions h bi s) = filter (\<lambda>j. hive_get h j \<noteq> None) (positions h bi s)"
    by (rule filter_cong [OF refl]) (simp add: get)
  then show ?thesis
    unfolding hive_from_positions [OF h'(1)] hive_from_positions [OF inv] pos by (auto simp: get)
qed

lemma clear_agents_ok:
  assumes "hive_inv h" "it_remaining it = length (hive_from h (it_block it) (it_slot it))"
    and "\<And>k p. hive_abs h k = Some p \<Longrightarrow> (k, User p) \<in> set (hive_from h (it_block it) (it_slot it))"
    and "ran (hive_abs h) = Map.dom store" "inj_on (hive_abs h) (Map.dom (hive_abs h))"
  shows "\<exists>h'. clear_agents h it store = Some (h', Map.empty) \<and> hive_inv h' \<and> hive_abs h' = Map.empty \<and> hv_mem h' = hv_mem h"
  using assms
proof (induction "hive_from h (it_block it) (it_slot it)" arbitrary: h it store)
  case Nil
  then have "hive_abs h k = None" for k by (cases "hive_abs h k") auto
  then have e: "hive_abs h = Map.empty" by auto
  then have "store = Map.empty" using Nil(5) by (simp add: ran_def dom_def fun_eq_iff)
  then show ?case using Nil(1,2,3) e
    by (subst clear_agents.simps) (simp add: hive_iter_next_def)
next
  case (Cons x xs)
  obtain k c where x: "x = (k, c)" by (cases x)
  obtain it' where it': "hive_iter_next h it = (Some x, it')" "it_remaining it' = length xs"
    "hive_from h (it_block it') (it_slot it') = xs"
    using hive_iter_scan_spec [OF Cons(3), of "it_block it" "it_slot it" "it_remaining it"] Cons(4) Cons(2) [symmetric]
    by (auto simp: hive_iter_next_def)
  have "(k, c) \<in> set (hive_from h (it_block it) (it_slot it))" using Cons(2) [symmetric] x by simp
  then have "hive_get h k \<noteq> None" "c = the (hive_get h k)" unfolding hive_from_positions [OF Cons(3)] by auto
  then obtain p where p: "hive_abs h k = Some p" "c = User p" using hive_get_abs [OF Cons(3), of k] by auto
  have sp: "store p \<noteq> None" using Cons(6) p(1) by (auto simp: ran_def)
  let ?h = "snd (hive_erase h k)"
  have h': "hive_inv ?h" "hive_abs ?h = (hive_abs h)(k := None)" using hs.erase_ok [OF Cons(3), of k] by auto
  have m: "hv_mem ?h = hv_mem h" by (rule hive_erase_spec [OF Cons(3), of k]) simp
  have "distinct (map fst (x # xs))" using distinct_hive_from [OF Cons(3)] Cons(2) by metis
  then have kn: "k \<notin> fst ` set (hive_from h (it_block it') (it_slot it'))" using x it'(3) by simp
  have xs: "hive_from ?h (it_block it') (it_slot it') = xs"
    using hive_erase_behind [OF Cons(3) kn] it'(3) by simp
  have live: "(j, User q) \<in> set xs" if "hive_abs ?h j = Some q" for j q
    using Cons(5) [of j q] that Cons(2) [symmetric] x by (auto simp: h'(2) split: if_splits)
  have pk: "j = k" if "hive_abs h j = Some p" for j
    using Cons(7) p(1) that by (auto simp: inj_on_def domIff)
  have "ran ((hive_abs h)(k := None)) = ran (hive_abs h) - {p}"
  proof (rule set_eqI)
    fix q
    have "(\<exists>j. ((hive_abs h)(k := None)) j = Some q) \<longleftrightarrow> (\<exists>j. hive_abs h j = Some q) \<and> q \<noteq> p"
    proof
      assume "\<exists>j. ((hive_abs h)(k := None)) j = Some q"
      then obtain j where j: "hive_abs h j = Some q" "j \<noteq> k" by (auto split: if_splits)
      then show "(\<exists>j. hive_abs h j = Some q) \<and> q \<noteq> p" using pk [of j] by blast
    next
      assume "(\<exists>j. hive_abs h j = Some q) \<and> q \<noteq> p"
      then obtain j where j: "hive_abs h j = Some q" "q \<noteq> p" by blast
      then have "j \<noteq> k" using p(1) by auto
      with j show "\<exists>j. ((hive_abs h)(k := None)) j = Some q" by (intro exI [of _ j]) simp
    qed
    then show "q \<in> ran ((hive_abs h)(k := None)) \<longleftrightarrow> q \<in> ran (hive_abs h) - {p}" by (simp add: ran_def)
  qed
  then have rn: "ran (hive_abs ?h) = Map.dom (store(p := None))"
    unfolding h'(2) Cons(6) by (simp only: dom_fun_upd if_True simp_thms)
  have inj: "inj_on (hive_abs ?h) (Map.dom (hive_abs ?h))"
    using Cons(7) by (auto simp: h'(2) inj_on_def domIff split: if_splits)
  have "\<exists>h'. clear_agents ?h it' (store(p := None)) = Some (h', Map.empty) \<and> hive_inv h' \<and> hive_abs h' = Map.empty \<and> hv_mem h' = hv_mem ?h"
    by (rule Cons(1)) (use xs h'(1) it'(2) live rn inj in simp_all)
  then show ?case using it'(1) x p(2) sp m by (subst clear_agents.simps) simp
qed

lemma fs_clear_ok:
  assumes "fs_ok s" and free: "\<not> list_ex fl_held (fs_locks s)"
  shows "\<exists>s'. fs_clear s = Some s' \<and> fs_ok s' \<and> fs_store s' = Map.empty \<and> fs_writers s' = [] \<and> fs_locks s' = []
     \<and> fs_agent_count s' = 0 \<and> fs_mem s' = fs_mem s \<and> (\<forall>h. fs_agents s' = Some h \<longrightarrow> hive_abs h = Map.empty)"
proof (cases "fs_agents s")
  case None
  then show ?thesis using assms by (auto simp: fs_clear_def fs_ok_def)
next
  case (Some h)
  then have h: "hive_inv h" "hv_mem h = []" "ran (hive_abs h) = Map.dom (fs_store s)" "inj_on (hive_abs h) (Map.dom (hive_abs h))"
    using assms by (simp_all add: fs_ok_def)
  have beg: "it_remaining (hive_iter_begin h) = length (hive_from h (it_block (hive_iter_begin h)) (it_slot (hive_iter_begin h)))
     \<and> (hv_count h \<noteq> 0 \<longrightarrow> hive_from h (it_block (hive_iter_begin h)) (it_slot (hive_iter_begin h)) = hive_items h)"
  proof (cases "hv_count h = 0")
    case True
    then have "hive_items h = []" using length_hive_items [OF h(1)] by simp
    then show ?thesis using True
      by (simp add: hive_iter_begin_def hive_iter_seek.simps hive_from_0)
  next
    case False
    then show ?thesis using hive_iter_seek_spec [OF h(1), of "hv_count h" 0] length_hive_items [OF h(1)]
      by (simp add: hive_iter_begin_def hive_from_0)
  qed
  have live: "(k, User p) \<in> set (hive_from h (it_block (hive_iter_begin h)) (it_slot (hive_iter_begin h)))"
    if "hive_abs h k = Some p" for k p
  proof -
    have m: "(k, User p) \<in> set (hive_items h)" using hive_items_iff [OF h(1)] that by simp
    then have "hv_count h \<noteq> 0" using length_hive_items [OF h(1)] length_pos_if_in_set [OF m] by simp
    then show ?thesis using beg m by simp
  qed
  obtain h' where c: "clear_agents h (hive_iter_begin h) (fs_store s) = Some (h', Map.empty)" "hive_inv h'"
    "hive_abs h' = Map.empty" "hv_mem h' = []"
    using clear_agents_ok [OF h(1) conjunct1 [OF beg] live h(3,4)] h(2) by auto
  then show ?thesis using Some free by (simp add: fs_clear_def fs_ok_def)
qed

section \<open>Histories\<close>

text \<open>The calls the file tools make, each with the environment it runs in.\<close>

datatype fs_op = OpRead string string bool real | OpWrite string string real

fun fs_step :: "fs_env \<times> fs_op \<Rightarrow> fs_state \<Rightarrow> fs_state option" where
  "fs_step (env, OpRead t path partial mtime) s = fs_record_read env s t path partial mtime"
| "fs_step (env, OpWrite t path mtime) s = fs_note_write env s t path mtime"

fun fs_run :: "fs_state \<Rightarrow> (fs_env \<times> fs_op) list \<Rightarrow> fs_state option" where
  "fs_run s [] = Some s"
| "fs_run s (c # cs) = do { s \<leftarrow> fs_step c s; fs_run s cs }"

text \<open>What a call means: the task, the path, the stamp it leaves, and whether it is a write. A call
  with the guard off, an empty path or a file that cannot be examined means nothing.\<close>

fun fs_event :: "fs_env \<times> fs_op \<Rightarrow> (string \<times> string \<times> fs_stamp \<times> bool) option" where
  "fs_event (env, OpRead t path partial mtime) =
     (if env_disabled env \<or> path = [] then None
      else map_option (\<lambda>mt. (t, path, \<lparr>st_mtime = mt, st_read_ts = env_now env, st_partial = partial\<rparr>, False))
             (resolve_mtime env path mtime))"
| "fs_event (env, OpWrite t path mtime) =
     (if env_disabled env \<or> path = [] then None
      else map_option (\<lambda>mt. (t, path, \<lparr>st_mtime = mt, st_read_ts = env_now env, st_partial = False\<rparr>, True))
             (resolve_mtime env path mtime))"

text \<open>The last thing a task did with a path, and the last write to a path, of a list of calls.\<close>

definition last_touch :: "(fs_env \<times> fs_op) list \<Rightarrow> string \<Rightarrow> string \<Rightarrow> fs_stamp option" where
  "last_touch cs t path = map_option (\<lambda>(t', p, st, w). st)
     (find (\<lambda>(t', p, st, w). t' = t \<and> p = path) (rev (List.map_filter fs_event cs)))"

definition last_write :: "(fs_env \<times> fs_op) list \<Rightarrow> string \<Rightarrow> (string \<times> real) option" where
  "last_write cs path = map_option (\<lambda>(t', p, st, w). (t', st_read_ts st))
     (find (\<lambda>(t', p, st, w). p = path \<and> w) (rev (List.map_filter fs_event cs)))"

fun short_op :: "fs_op \<Rightarrow> bool" where
  "short_op (OpRead t path _ _) \<longleftrightarrow> length t < 64 \<and> length path < 256"
| "short_op (OpWrite t path _) \<longleftrightarrow> length t < 64 \<and> length path < 256"

lemma find_snoc: "find P (rev (xs @ [x])) = (if P x then Some x else find P (rev xs))"
  by simp

lemma map_filter_snoc: "List.map_filter f (xs @ [x]) = List.map_filter f xs @ (case f x of None \<Rightarrow> [] | Some y \<Rightarrow> [y])"
  by (induction xs) (auto simp: List.map_filter_simps split: option.splits)

lemma last_touch_snoc:
  "last_touch (cs @ [c]) = (case fs_event c of None \<Rightarrow> last_touch cs
     | Some (t, path, st, w) \<Rightarrow> (\<lambda>t' p'. if t' = t \<and> p' = path then Some st else last_touch cs t' p'))"
  by (auto simp: last_touch_def map_filter_snoc fun_eq_iff split: option.splits)

lemma last_write_snoc:
  "last_write (cs @ [c]) = (case fs_event c of None \<Rightarrow> last_write cs
     | Some (t, path, st, w) \<Rightarrow> if w then (last_write cs)(path \<mapsto> (t, st_read_ts st)) else last_write cs)"
  by (auto simp: last_write_def map_filter_snoc fun_eq_iff split: option.splits)

lemma same_rest_writes: "same_rest s s' \<Longrightarrow> fs_writes s' = fs_writes s"
  by (simp add: same_rest_def fs_writes_def)

lemma fs_step_ok:
  assumes ok: "fs_ok s" "fs_mem s = []" and short: "short_op (snd c)"
  shows "\<exists>s'. fs_step c s = Some s' \<and> fs_ok s' \<and> fs_mem s' = []
     \<and> fs_reads s' = (case fs_event c of None \<Rightarrow> fs_reads s
         | Some (t, path, st, w) \<Rightarrow> (\<lambda>t' p'. if t' = t \<and> p' = path then Some st else fs_reads s t' p'))
     \<and> fs_writes s' = (case fs_event c of None \<Rightarrow> fs_writes s
         | Some (t, path, st, w) \<Rightarrow> if w then (fs_writes s)(path \<mapsto> (t, st_read_ts st)) else fs_writes s)"
proof -
  obtain env op where c: "c = (env, op)" by (cases c)
  show ?thesis
  proof (cases op)
    case (OpRead t path partial mtime)
    have sh: "length t < 64" "length path < 256" using short by (simp_all add: c OpRead)
    show ?thesis
    proof (cases "fs_event c")
      case None
      then show ?thesis using ok by (auto simp: c OpRead fs_record_read_def split: if_splits)
    next
      case (Some e)
      then obtain mt where mt: "\<not> env_disabled env" "path \<noteq> []" "resolve_mtime env path mtime = Some mt"
        "e = (t, path, \<lparr>st_mtime = mt, st_read_ts = env_now env, st_partial = partial\<rparr>, False)"
        by (auto simp: c OpRead split: if_splits)
      obtain s' where s': "set_stamp s t path \<lparr>st_mtime = mt, st_read_ts = env_now env, st_partial = partial\<rparr> = Some s'"
        "fs_ok s'" "same_rest s s'"
        "fs_reads s' = (\<lambda>t' p'. if t' = t \<and> p' = path
            then Some \<lparr>st_mtime = mt, st_read_ts = env_now env, st_partial = partial\<rparr> else fs_reads s t' p')"
        by (rule set_stamp_ok [OF ok sh])
      have "fs_writes s' = fs_writes s" "fs_mem s' = []"
        using s'(3) ok by (auto simp: same_rest_writes same_rest_def)
      moreover have "fs_step c s = Some s'" using mt s'(1) by (simp add: c OpRead fs_record_read_def)
      ultimately show ?thesis
        unfolding Some mt(4) using s'(2,4) by simp
    qed
  next
    case (OpWrite t path mtime)
    have sh: "length t < 64" "length path < 256" using short by (simp_all add: c OpWrite)
    show ?thesis
    proof (cases "fs_event c")
      case None
      then show ?thesis using ok by (auto simp: c OpWrite fs_note_write_def split: if_splits)
    next
      case (Some e)
      then obtain mt where mt: "\<not> env_disabled env" "path \<noteq> []" "resolve_mtime env path mtime = Some mt"
        "e = (t, path, \<lparr>st_mtime = mt, st_read_ts = env_now env, st_partial = False\<rparr>, True)"
        by (auto simp: c OpWrite split: if_splits)
      obtain s1 where s1: "writer_touch s path t (env_now env) = Some s1" "fs_ok s1" "fs_mem s1 = []"
        "fs_reads s1 = fs_reads s" "fs_writes s1 = (fs_writes s)(path \<mapsto> (t, env_now env))"
        by (rule writer_touch_ok [OF ok sh])
      obtain s' where s': "set_stamp s1 t path \<lparr>st_mtime = mt, st_read_ts = env_now env, st_partial = False\<rparr> = Some s'"
        "fs_ok s'" "same_rest s1 s'"
        "fs_reads s' = (\<lambda>t' p'. if t' = t \<and> p' = path
            then Some \<lparr>st_mtime = mt, st_read_ts = env_now env, st_partial = False\<rparr> else fs_reads s1 t' p')"
        by (rule set_stamp_ok [OF s1(2,3) sh])
      have "fs_writes s' = fs_writes s1" "fs_mem s' = []"
        using s'(3) s1(3) by (auto simp: same_rest_writes same_rest_def)
      moreover have "fs_step c s = Some s'" using mt s1(1) s'(1) by (simp add: c OpWrite fs_note_write_def)
      ultimately show ?thesis
        unfolding Some mt(4) using s'(2) s'(4) [unfolded s1(4)] s1(5) by simp
    qed
  qed
qed

lemma fs_run_snoc: "fs_run s (cs @ [c]) = do { s \<leftarrow> fs_run s cs; fs_step c s }"
  by (induction cs arbitrary: s) (simp_all split: Option.bind_splits)

lemma fs_run_ok:
  "\<forall>c \<in> set cs. short_op (snd c) \<Longrightarrow>
   \<exists>s. fs_run fs_start cs = Some s \<and> fs_ok s \<and> fs_mem s = [] \<and> fs_reads s = last_touch cs \<and> fs_writes s = last_write cs"
proof (induction cs rule: rev_induct)
  case Nil
  have "fs_reads fs_start = last_touch []" "fs_writes fs_start = last_write []" "fs_mem fs_start = []"
    by (simp_all add: fun_eq_iff fs_reads_def fs_writes_def find_agent_def fs_start_def last_touch_def
        last_write_def List.map_filter_simps)
  then show ?case using fs_ok_start by simp
next
  case (snoc c cs)
  then obtain s where s: "fs_run fs_start cs = Some s" "fs_ok s" "fs_mem s = []" "fs_reads s = last_touch cs"
    "fs_writes s = last_write cs" by auto
  have "short_op (snd c)" using snoc(2) by simp
  from fs_step_ok [OF s(2,3) this, unfolded s(4,5)]
  show ?case by (simp add: s(1) fs_run_snoc last_touch_snoc last_write_snoc)
qed

section \<open>The check, on the abstract state\<close>

lemma agent_path_index_abs:
  assumes "fs_ok s"
  shows "agent_path_index s t path = Some (a, i) \<Longrightarrow> fs_reads s t path = Some (fa_stamps a ! i)"
    "agent_path_index s t path = None \<longleftrightarrow> fs_reads s t path = None"
proof -
  have ok: "agent_ok b" if "fs_store s p = Some b" for p b using assms that by (auto simp: fs_ok_def)
  show "agent_path_index s t path = Some (a, i) \<Longrightarrow> fs_reads s t path = Some (fa_stamps a ! i)"
    using ok find_agent_path_stamps(1)
    by (auto simp: agent_path_index_def fs_reads_def split: Option.bind_splits)
  show "agent_path_index s t path = None \<longleftrightarrow> fs_reads s t path = None"
  proof (cases "find_agent s t")
    case (Some p)
    then obtain b where b: "fs_store s p = Some b" using find_agent_iff [OF assms] by auto
    then show ?thesis using Some find_agent_path_stamps(2) [OF ok [OF b], of path]
      by (cases "find_agent_path b path") (simp_all add: agent_path_index_def fs_reads_def)
  qed (simp add: agent_path_index_def fs_reads_def)
qed

lemma fs_verdict_abs:
  assumes "fs_ok s"
  shows "fs_verdict s t path m =
    (case fs_reads s t path of
       Some st \<Rightarrow>
         (case fs_writes s path of
            Some (wt, ts) \<Rightarrow> if wt \<noteq> t \<and> st_read_ts st < ts then Some (msg_sibling path wt)
              else if m \<noteq> st_mtime st then Some msg_modified else if st_partial st then Some msg_partial else None
          | None \<Rightarrow> if m \<noteq> st_mtime st then Some msg_modified else if st_partial st then Some msg_partial else None)
     | None \<Rightarrow>
         (case fs_writes s path of
            Some (wt, ts) \<Rightarrow> if wt \<noteq> t then Some (msg_never_read path wt) else Some msg_not_read
          | None \<Rightarrow> Some msg_not_read))"
proof (cases "agent_path_index s t path")
  case None
  then have r: "fs_reads s t path = None" using agent_path_index_abs [OF assms] by simp
  show ?thesis
  proof (cases "find_writer s path")
    case nw: None
    then show ?thesis using None r find_writer_abs(2) [of s path] by (simp add: fs_verdict_def)
  next
    case (Some j)
    then show ?thesis using None r find_writer_abs(1) [OF Some] by (simp add: fs_verdict_def)
  qed
next
  case (Some ai)
  then obtain a i where ai: "agent_path_index s t path = Some (a, i)" by (cases ai) auto
  then have r: "fs_reads s t path = Some (fa_stamps a ! i)" using agent_path_index_abs [OF assms] by simp
  show ?thesis
  proof (cases "find_writer s path")
    case nw: None
    then show ?thesis using ai r find_writer_abs(2) [of s path] by (simp add: fs_verdict_def Let_def)
  next
    case (Some j)
    then show ?thesis using ai r find_writer_abs(1) [OF Some] by (simp add: fs_verdict_def Let_def)
  qed
qed

lemma fs_check_stale_abs:
  assumes "fs_ok s1" "fs_ok s2"
  shows "fs_check_stale env s1 s2 t path = None \<longleftrightarrow>
     env_disabled env \<or> path = [] \<or> fs_reads s1 t path = None \<and> fs_writes s1 path = None
     \<or> env_mtime env path = None
     \<or> (\<exists>st. fs_reads s2 t path = Some st \<and> env_mtime env path = Some (st_mtime st) \<and> \<not> st_partial st
          \<and> (\<forall>wt ts. fs_writes s2 path = Some (wt, ts) \<longrightarrow> wt = t \<or> ts \<le> st_read_ts st))"
proof -
  have g: "agent_path_index s1 t path = None \<and> find_writer s1 path = None \<longleftrightarrow> fs_reads s1 t path = None \<and> fs_writes s1 path = None"
    using agent_path_index_abs(2) [OF assms(1)] find_writer_abs(2) by simp
  show ?thesis
    unfolding fs_check_stale_def g
    by (cases "fs_reads s2 t path"; cases "fs_writes s2 path"; cases "env_mtime env path")
       (auto simp: fs_verdict_abs [OF assms(2)] not_less split: if_splits)
qed

section \<open>Long paths\<close>

text \<open>No stored path has 256 characters or more, whatever the memory does.\<close>

definition fs_short :: "fs_state \<Rightarrow> bool" where
  "fs_short s \<longleftrightarrow> (\<forall>p a. fs_store s p = Some a \<longrightarrow> (\<forall>q \<in> set (fa_paths a). length q < 256))
     \<and> (\<forall>w \<in> set (fs_writers s). length (fw_path w) < 256)"

lemma length_c_trunc_256 [simp]: "length (c_trunc 256 s) < 256"
  by (simp add: length_c_trunc)

lemma add_agent_short:
  assumes "add_agent s t = Some (ptr, s')" "fs_short s" shows "fs_short s'"
proof -
  have "fs_writers s' = fs_writers s \<and> (fs_store s' = fs_store s \<or> (\<exists>p. fs_store s' = (fs_store s)(p \<mapsto> new_agent t)))"
    using assms(1) by (auto simp: add_agent_def Let_def split: prod.splits if_splits option.splits)
  then show ?thesis using assms(2) by (auto simp: fs_short_def new_agent_def split: if_splits)
qed

lemma agent_touch_path_short:
  assumes "agent_touch_path a path mem = Some (i, a', mem')" "\<forall>q \<in> set (fa_paths a). length q < 256"
  shows "\<forall>q \<in> set (fa_paths a'). length q < 256"
  using assms by (auto simp: agent_touch_path_def agent_grow_def split: option.splits if_splits Option.bind_splits)

lemma set_stamp_short:
  assumes "set_stamp s t path st = Some s'" "fs_short s" shows "fs_short s'"
proof -
  obtain ptr s1 where p: "(case find_agent s t of Some p \<Rightarrow> Some (Some p, s) | None \<Rightarrow> add_agent s t) = Some (ptr, s1)"
    using assms(1) by (auto simp: set_stamp_def split: Option.bind_splits)
  then have s1: "fs_short s1" using assms(2) add_agent_short by (auto split: option.splits)
  show ?thesis
  proof (cases ptr)
    case None
    then show ?thesis using assms(1) p s1 by (simp add: set_stamp_def)
  next
    case (Some q)
    obtain a i a' mem where t: "fs_store s1 q = Some a" "agent_touch_path a path (fs_mem s1) = Some (i, a', mem)"
      using assms(1) p Some by (auto simp: set_stamp_def Let_def split: Option.bind_splits)
    then have s': "fs_writers s' = fs_writers s1 \<and> (\<exists>a2. fs_store s' = (fs_store s1)(q \<mapsto> a2) \<and> fa_paths a2 = fa_paths a')"
      using assms(1) p Some by (cases i) (auto simp: set_stamp_def Let_def)
    have "\<forall>q \<in> set (fa_paths a'). length q < 256"
      by (rule agent_touch_path_short [OF t(2)]) (use s1 t(1) in \<open>auto simp: fs_short_def\<close>)
    then show ?thesis using s1 s' by (auto simp: fs_short_def split: if_splits)
  qed
qed

lemma writer_touch_short:
  assumes "writer_touch s path t ts = Some s'" "fs_short s" shows "fs_short s'"
proof (cases "find_writer s path")
  case (Some j)
  then have s': "s' = s\<lparr>fs_writers := (fs_writers s)[j := (fs_writers s ! j)\<lparr>fw_task_id := c_trunc 64 t, fw_ts := ts\<rparr>]\<rparr>"
    using assms(1) by (simp add: writer_touch_def)
  have j: "j < length (fs_writers s)"
    using index_of_Some [of path "map (\<lambda>w. (fw_path w, ())) (fs_writers s)" j "()"] Some
    by (simp add: find_writer_def o_def)
  have sub: "set (fs_writers s') \<subseteq> insert ((fs_writers s ! j)\<lparr>fw_task_id := c_trunc 64 t, fw_ts := ts\<rparr>) (set (fs_writers s))"
    by (simp add: s' set_update_subset_insert)
  have "length (fw_path w) < 256" if "w \<in> set (fs_writers s')" for w
    using subsetD [OF sub that] assms(2) nth_mem [OF j] by (auto simp: fs_short_def)
  then show ?thesis using assms(2) by (simp add: fs_short_def s')
next
  case None
  then show ?thesis using assms
    by (auto simp: writer_touch_def writers_grow_def fs_short_def split: if_splits Option.bind_splits)
qed

lemma fs_step_short: "fs_step c s = Some s' \<Longrightarrow> fs_short s \<Longrightarrow> fs_short s'"
  by (cases "(c, s)" rule: fs_step.cases)
     (auto simp: fs_record_read_def fs_note_write_def split: if_splits option.splits Option.bind_splits
       intro: set_stamp_short writer_touch_short)

lemma fs_run_short: "fs_run s cs = Some s' \<Longrightarrow> fs_short s \<Longrightarrow> fs_short s'"
  by (induction cs arbitrary: s) (auto split: Option.bind_splits dest: fs_step_short)

lemma fs_short_start: "fs_short fs_start"
  by (simp add: fs_short_def fs_start_def)

lemma fs_short_unknown:
  assumes "fs_short s" "256 \<le> length path"
  shows "agent_path_index s t path = None" "find_writer s path = None"
proof -
  show "find_writer s path = None"
    using assms by (auto simp: find_writer_def index_of_None fs_short_def)
  show "agent_path_index s t path = None"
  proof (rule ccontr)
    assume "agent_path_index s t path \<noteq> None"
    then obtain p a where a: "fs_store s p = Some a" "find_agent_path a path \<noteq> None"
      by (auto simp: agent_path_index_def split: Option.bind_splits)
    then have "path \<in> set (fa_paths a)" using index_of_None by (auto simp: find_agent_path_def)
    then have "length path < 256" using assms(1) a(1) unfolding fs_short_def by blast
    then show False using assms(2) by simp
  qed
qed

section \<open>Path locks\<close>

lemma find_path_lock_update:
  "i < length (fs_locks s) \<Longrightarrow> fl_path l = fl_path (fs_locks s ! i) \<Longrightarrow>
   find_path_lock (s\<lparr>fs_locks := (fs_locks s)[i := l]\<rparr>) p = find_path_lock s p"
proof -
  assume a: "i < length (fs_locks s)" "fl_path l = fl_path (fs_locks s ! i)"
  have "map fl_path ((fs_locks s)[i := l]) = map fl_path ((fs_locks s)[i := fs_locks s ! i])"
    by (simp only: map_update a(2))
  then show ?thesis by (simp add: find_path_lock_def)
qed

lemma find_path_lock_Some: "find_path_lock s p = Some i \<Longrightarrow> i < length (fs_locks s) \<and> fl_path (fs_locks s ! i) = p"
proof -
  assume a: "find_path_lock s p = Some i"
  have m: "map fst (map (\<lambda>l. (fl_path l, ())) (fs_locks s)) = map fl_path (fs_locks s)" by simp
  have "index_of p (map fst (map (\<lambda>l. (fl_path l, ())) (fs_locks s))) = Some i" using a by (simp only: m find_path_lock_def)
  from index_of_Some [OF this, of "()"] show ?thesis by auto
qed

text \<open>A taken lock: the entry the path is found at is held.\<close>

lemma fs_lock_path_taken:
  assumes "fs_lock_path s path = LockTaken s'" "length path < 256"
  obtains i where "path \<noteq> []" "find_path_lock s' path = Some i" "i < length (fs_locks s')" "fl_held (fs_locks s' ! i)"
proof -
  have ne: "path \<noteq> []" using assms(1) by (auto simp: fs_lock_path_def)
  have tk: "find_path_lock s' path = Some i \<and> i < length (fs_locks s') \<and> fl_held (fs_locks s' ! i)"
    if t: "take_lock s1 i = LockTaken s'" "find_path_lock s1 path = Some i" for s1 i
  proof -
    have i: "i < length (fs_locks s1)" using find_path_lock_Some [OF t(2)] by simp
    have s': "s' = s1\<lparr>fs_locks := (fs_locks s1)[i := (fs_locks s1 ! i)\<lparr>fl_held := True\<rparr>]\<rparr>"
      using t(1) by (simp add: take_lock_def split: if_splits)
    show ?thesis using t(2) i find_path_lock_update [OF i, of "(fs_locks s1 ! i)\<lparr>fl_held := True\<rparr>" path]
      by (simp add: s')
  qed
  show ?thesis
  proof (cases "find_path_lock s path")
    case (Some i)
    then have "take_lock s i = LockTaken s'" using assms(1) ne by (simp add: fs_lock_path_def)
    from tk [OF this Some] show ?thesis using ne by (intro that) auto
  next
    case None
    then obtain s1 where g: "path_locks_grow s = Some s1"
      "take_lock (s1\<lparr>fs_locks := fs_locks s1 @ [\<lparr>fl_path = path, fl_held = False\<rparr>]\<rparr>) (length (fs_locks s1)) = LockTaken s'"
      using assms ne by (auto simp: fs_lock_path_def split: option.splits if_splits)
    have "fs_locks s1 = fs_locks s" using g(1) by (auto simp: path_locks_grow_def split: if_splits)
    then have "path \<notin> set (map fl_path (fs_locks s1))" using None by (simp add: find_path_lock_def index_of_None)
    moreover have "index_of p (ks @ [p]) = Some (length ks)" if "p \<notin> set ks" for p ks
      using that by (induction ks) auto
    ultimately have "find_path_lock (s1\<lparr>fs_locks := fs_locks s1 @ [\<lparr>fl_path = path, fl_held = False\<rparr>]\<rparr>) path = Some (length (fs_locks s1))"
      by (simp add: find_path_lock_def)
    from tk [OF g(2) this] show ?thesis using ne by (intro that) auto
  qed
qed

section \<open>Properties\<close>

text \<open>
  C6. After any sequence of reads and writes that the tools report with task ids of fewer than 64
  bytes and paths of fewer than 256 (\<open>short_op\<close>), starting from the static state with every
  allocation succeeding, the registry holds exactly the history: for every task and path the
  stamp of the last thing that task did with it, and for every path its last writer. The growing
  arrays, the hive of agents and the pointers into it add up to two maps. Longer names are stored
  truncated and the registry is then not the history (\<open>long_path_unguarded\<close>).
\<close>

theorem registry_refines_history:
  assumes "\<forall>c \<in> set cs. short_op (snd c)"
  shows "\<exists>s. fs_run fs_start cs = Some s \<and> fs_ok s \<and> fs_reads s = last_touch cs \<and> fs_writes s = last_write cs"
  using fs_run_ok [OF assms] by blast

definition demo_env :: "real \<Rightarrow> fs_env" where
  "demo_env now = \<lparr>env_disabled = False, env_now = now, env_mtime = (\<lambda>_. Some 7)\<rparr>"

definition demo_calls :: "string \<Rightarrow> (fs_env \<times> fs_op) list" where
  "demo_calls path = [(demo_env 1, OpRead ''A'' path False 0), (demo_env 2, OpWrite ''B'' path 0)]"

lemma demo_history:
  assumes "path \<noteq> []"
  shows "last_touch (demo_calls path) ''A'' path = Some \<lparr>st_mtime = 7, st_read_ts = 1, st_partial = False\<rparr>"
    "last_write (demo_calls path) path = Some (''B'', 2)"
  using assms by (simp_all add: last_touch_def last_write_def demo_calls_def demo_env_def resolve_mtime_def
      List.map_filter_simps)

theorem registry_refines_history_witness:
  "\<exists>s. fs_run fs_start (demo_calls ''f.c'') = Some s \<and> fs_writes s ''f.c'' = Some (''B'', 2)
     \<and> map_option st_read_ts (fs_reads s ''A'' ''f.c'') = Some 1"
  using registry_refines_history [of "demo_calls ''f.c''"] demo_history [of "''f.c''"]
  by (auto simp: demo_calls_def)

text \<open>
  C5. The check before a write, with other agents free to act while it examines the file, after a
  history of reads and writes with task ids of fewer than 64 bytes and paths of fewer than 256
  (\<open>short_op\<close>) and with every allocation succeeding. (For a longer path the guard does not work,
  see \<open>long_path_unguarded\<close>.) It lets the write pass exactly when the guard is off or
  the path empty, when nobody had touched the path when the check began, when there is no file, or
  when this task's last stamp has the file's modification time, was a full read or its own write,
  and no other task wrote the path later. Otherwise it returns a warning.
\<close>

theorem stale_check_exact:
  assumes "\<forall>c \<in> set (cs @ ds). short_op (snd c)"
    and "fs_run fs_start cs = Some s1" "fs_run s1 ds = Some s2"
  shows "fs_check_stale env s1 s2 t path = None \<longleftrightarrow>
     env_disabled env \<or> path = []
     \<or> last_touch cs t path = None \<and> last_write cs path = None
     \<or> env_mtime env path = None
     \<or> (\<exists>st. last_touch (cs @ ds) t path = Some st \<and> env_mtime env path = Some (st_mtime st) \<and> \<not> st_partial st
          \<and> (\<forall>wt ts. last_write (cs @ ds) path = Some (wt, ts) \<longrightarrow> wt = t \<or> ts \<le> st_read_ts st))"
proof -
  have app: "fs_run s (as @ bs) = do { s \<leftarrow> fs_run s as; fs_run s bs }" for s as bs
    by (induction as arbitrary: s) (simp_all split: Option.bind_splits)
  have 1: "fs_ok s1" "fs_reads s1 = last_touch cs" "fs_writes s1 = last_write cs"
    using fs_run_ok [of cs] assms by auto
  have 2: "fs_ok s2" "fs_reads s2 = last_touch (cs @ ds)" "fs_writes s2 = last_write (cs @ ds)"
    using fs_run_ok [of "cs @ ds"] assms by (auto simp: app)
  show ?thesis unfolding fs_check_stale_abs [OF 1(1) 2(1)] 1(2,3) 2(2,3) ..
qed

theorem stale_check_exact_witness:
  "\<exists>s. fs_run fs_start (demo_calls ''f.c'') = Some s \<and> fs_check_stale (demo_env 3) s s ''A'' ''f.c'' \<noteq> None"
proof -
  have sh: "\<forall>c \<in> set (demo_calls ''f.c''). short_op (snd c)" by (simp add: demo_calls_def)
  obtain s where s: "fs_run fs_start (demo_calls ''f.c'') = Some s" using fs_run_ok [OF sh] by blast
  have "fs_check_stale (demo_env 3) s s ''A'' ''f.c'' \<noteq> None"
    using stale_check_exact [of "demo_calls ''f.c''" "[]" s s "demo_env 3" "''A''" "''f.c''"] sh s
      demo_history [of "''f.c''"] by (simp add: demo_env_def)
  with s show ?thesis by blast
qed

text \<open>
  \<open>fs_clear\<close> erases from the hive while it iterates over it, which the iterator
  tolerates: when no path lock is held, every agent is freed exactly once, none is left, and the registry is as good as new.
\<close>

lemma fs_clear_frees_all:
  assumes "fs_ok s" and "\<not> list_ex fl_held (fs_locks s)"
  shows "\<exists>s'. fs_clear s = Some s' \<and> fs_ok s' \<and> fs_store s' = Map.empty \<and> fs_agent_count s' = 0
     \<and> (\<forall>h. fs_agents s' = Some h \<longrightarrow> hive_drain h (hive_iter_begin h) = [])
     \<and> (\<forall>t path. fs_reads s' t path = None \<and> fs_writes s' path = None)"
proof -
  obtain s' where s': "fs_clear s = Some s'" "fs_ok s'" "fs_store s' = Map.empty" "fs_writers s' = []" "fs_agent_count s' = 0"
    "\<And>h. fs_agents s' = Some h \<Longrightarrow> hive_abs h = Map.empty"
    using fs_clear_ok [OF assms] by auto
  have "hive_drain h (hive_iter_begin h) = []" if h: "fs_agents s' = Some h" for h
  proof -
    have inv: "hive_inv h" using s'(2) h by (simp add: fs_ok_def)
    have "x \<notin> set (hive_items h)" for x using hive_items_iff [OF inv] s'(6) [OF h] by (cases x) simp
    then have "hive_items h = []" by (cases "hive_items h") auto
    then show ?thesis by (simp add: hive_drain_items [OF inv])
  qed
  moreover have "fs_reads s' t path = None" for t path
    using s'(3) by (simp add: fs_reads_def split: Option.bind_splits)
  ultimately show ?thesis using s' by (simp add: fs_writes_def)
qed

text \<open>
  Taking the lock of a path that fits the buffer excludes everybody else from it until it
  is released, after which it can be taken again; the release is of a lock that is held.
\<close>

theorem path_lock_excludes:
  assumes "fs_lock_path s path = LockTaken s'" "length path < 256"
  shows "fs_lock_path s' path = LockBlocked s'
    \<and> (\<exists>s1 s2. fs_unlock_path s' path = Some s1 \<and> fs_lock_path s1 path = LockTaken s2)"
proof -
  obtain i where i: "path \<noteq> []" "find_path_lock s' path = Some i" "i < length (fs_locks s')" "fl_held (fs_locks s' ! i)"
    by (rule fs_lock_path_taken [OF assms])
  let ?l = "(fs_locks s' ! i)\<lparr>fl_held := False\<rparr>"
  have "find_path_lock (s'\<lparr>fs_locks := (fs_locks s')[i := ?l]\<rparr>) path = Some i"
    using i find_path_lock_update [OF i(3), of ?l path] by simp
  then show ?thesis using i by (simp add: fs_lock_path_def fs_unlock_path_def take_lock_def)
qed

theorem path_lock_excludes_witness:
  "\<exists>s'. fs_lock_path fs_start ''a.c'' = LockTaken s' \<and> fs_lock_path s' ''a.c'' = LockBlocked s'"
proof -
  obtain s' where s': "fs_lock_path fs_start ''a.c'' = LockTaken s'"
    by (simp add: fs_lock_path_def fs_start_def find_path_lock_def path_locks_grow_def grow_arrays_ok take_lock_def)
  from path_lock_excludes [OF this] show ?thesis using s' by simp
qed

text \<open>
  A path of 256 characters or more is stored cut off and never found again. Whatever was read
  or written, and whatever the memory did, the check lets every write to it pass. Its lock excludes
  nobody: the next call does not find the mutex and makes another, and the release does nothing.
\<close>

theorem long_path_unguarded:
  assumes "256 \<le> length path" "fs_run fs_start cs = Some s1"
  shows "fs_check_stale env s1 s2 t path = None
    \<and> (\<forall>s s'. (\<forall>l \<in> set (fs_locks s). length (fl_path l) < 256) \<and> fs_lock_path s path = LockTaken s'
         \<longrightarrow> fs_unlock_path s' path = Some s' \<and> fs_lock_path s' path \<noteq> LockBlocked s')"
proof -
  have "fs_check_stale env s1 s2 t path = None"
    using fs_short_unknown [OF fs_run_short [OF assms(2) fs_short_start] assms(1)]
    by (simp add: fs_check_stale_def)
  moreover have "fs_unlock_path s' path = Some s' \<and> fs_lock_path s' path \<noteq> LockBlocked s'"
    if short: "\<forall>l \<in> set (fs_locks s). length (fl_path l) < 256" and t: "fs_lock_path s path = LockTaken s'" for s s'
  proof -
    have none: "find_path_lock u path = None" if "\<forall>l \<in> set (fs_locks u). length (fl_path l) < 256" for u
      using that assms(1) by (auto simp: find_path_lock_def index_of_None)
    obtain s0 where g: "path_locks_grow s = Some s0"
      "take_lock (s0\<lparr>fs_locks := fs_locks s0 @ [\<lparr>fl_path = c_trunc 256 path, fl_held = False\<rparr>]\<rparr>) (length (fs_locks s0)) = LockTaken s'"
      using t none [OF short] by (auto simp: fs_lock_path_def split: option.splits if_splits)
    have "fs_locks s0 = fs_locks s" using g(1) by (auto simp: path_locks_grow_def split: if_splits)
    then have l: "fs_locks s' = fs_locks s @ [\<lparr>fl_path = c_trunc 256 path, fl_held = True\<rparr>]"
      using g(2) by (auto simp: take_lock_def)
    then have n: "find_path_lock s' path = None" using short by (intro none) auto
    then show ?thesis
      by (auto simp: fs_lock_path_def fs_unlock_path_def take_lock_def nth_append split: option.splits)
  qed
  ultimately show ?thesis by blast
qed

theorem long_path_unguarded_witness:
  "\<exists>s. fs_run fs_start (demo_calls (replicate 256 (CHR ''x''))) = Some s
     \<and> fs_check_stale (demo_env 3) s s ''A'' (replicate 256 (CHR ''x'')) = None"
proof -
  have "fs_run fs_start (demo_calls (replicate 256 (CHR ''x''))) \<noteq> None" by code_simp
  then obtain s where s: "fs_run fs_start (demo_calls (replicate 256 (CHR ''x''))) = Some s" by auto
  with long_path_unguarded [OF _ s, of "replicate 256 (CHR ''x'')" "demo_env 3" s "''A''"] show ?thesis by simp
qed

end
