(* ===== verification/Base64.thy ===== *)
theory Base64
  imports Slermes_Prelude
begin

text \<open>
  \<^verbatim>\<open>lib/libbase64/base64.c\<close>: RFC 4648 encoding and decoding, standard and URL-safe. Data are lists
  of bytes, encoded text is a string; the code's \<open>unsigned\<close> and \<open>int\<close> values of one byte or one
  sextet are integers that stay far below their width. A NULL argument has no counterpart, and the
  allocations succeed.
\<close>

section \<open>Tables\<close>

definition ENC_TABLE :: string where
  "ENC_TABLE = ''ABCDEFGHIJKLMNOPQRSTUVWXYZabcdefghijklmnopqrstuvwxyz0123456789+/''"

definition DEC_TABLE :: "int list" where
  "DEC_TABLE = [
    - 1, - 1, - 1, - 1, - 1, - 1, - 1, - 1, - 1, - 1, - 1, - 1, - 1, - 1, - 1, - 1,
    - 1, - 1, - 1, - 1, - 1, - 1, - 1, - 1, - 1, - 1, - 1, - 1, - 1, - 1, - 1, - 1,
    - 1, - 1, - 1, - 1, - 1, - 1, - 1, - 1, - 1, - 1, - 1, 62, - 1, - 1, - 1, 63,
    52, 53, 54, 55, 56, 57, 58, 59, 60, 61, - 1, - 1, - 1, 0, - 1, - 1,
    - 1, 0, 1, 2, 3, 4, 5, 6, 7, 8, 9, 10, 11, 12, 13, 14,
    15, 16, 17, 18, 19, 20, 21, 22, 23, 24, 25, - 1, - 1, - 1, - 1, - 1,
    - 1, 26, 27, 28, 29, 30, 31, 32, 33, 34, 35, 36, 37, 38, 39, 40,
    41, 42, 43, 44, 45, 46, 47, 48, 49, 50, 51, - 1, - 1, - 1, - 1, - 1,
    - 1, - 1, - 1, - 1, - 1, - 1, - 1, - 1, - 1, - 1, - 1, - 1, - 1, - 1, - 1, - 1,
    - 1, - 1, - 1, - 1, - 1, - 1, - 1, - 1, - 1, - 1, - 1, - 1, - 1, - 1, - 1, - 1,
    - 1, - 1, - 1, - 1, - 1, - 1, - 1, - 1, - 1, - 1, - 1, - 1, - 1, - 1, - 1, - 1,
    - 1, - 1, - 1, - 1, - 1, - 1, - 1, - 1, - 1, - 1, - 1, - 1, - 1, - 1, - 1, - 1,
    - 1, - 1, - 1, - 1, - 1, - 1, - 1, - 1, - 1, - 1, - 1, - 1, - 1, - 1, - 1, - 1,
    - 1, - 1, - 1, - 1, - 1, - 1, - 1, - 1, - 1, - 1, - 1, - 1, - 1, - 1, - 1, - 1,
    - 1, - 1, - 1, - 1, - 1, - 1, - 1, - 1, - 1, - 1, - 1, - 1, - 1, - 1, - 1, - 1,
    - 1, - 1, - 1, - 1, - 1, - 1, - 1, - 1, - 1, - 1, - 1, - 1, - 1, - 1, - 1, - 1]"

definition enc_char :: "int \<Rightarrow> char" where
  "enc_char i = ENC_TABLE ! nat i"

definition dec_char :: "char \<Rightarrow> int" where
  "dec_char c = DEC_TABLE ! of_char c"

section \<open>Sizes\<close>

definition base64_encoded_len :: "nat \<Rightarrow> nat" where
  "base64_encoded_len data_len = (data_len + 2) div 3 * 4 + 1"

definition base64_decoded_len :: "nat \<Rightarrow> nat" where
  "base64_decoded_len encoded_len = (encoded_len div 4 + 1) * 3 + 1"

section \<open>Encoding\<close>

text \<open>The loop over full blocks, and the remaining one or two bytes.\<close>

fun enc_loop :: "u8 list \<Rightarrow> string" where
  "enc_loop [] = []"
| "enc_loop [x] =
     (let a = uint x
      in [enc_char (drop_bit 2 a), enc_char (push_bit 4 (a AND 3)), CHR ''='', CHR ''='' ])"
| "enc_loop [x, y] =
     (let a = uint x; b = uint y
      in [enc_char (drop_bit 2 a), enc_char (push_bit 4 (a AND 3) OR drop_bit 4 b),
          enc_char (push_bit 2 (b AND 15)), CHR ''=''])"
| "enc_loop (x # y # z # zs) =
     (let a = uint x; b = uint y; c = uint z
      in enc_char (drop_bit 2 a) # enc_char (push_bit 4 (a AND 3) OR drop_bit 4 b)
         # enc_char (push_bit 2 (b AND 15) OR drop_bit 6 c) # enc_char (c AND 63) # enc_loop zs)"

definition base64_encode_nopad :: "u8 list \<Rightarrow> string" where
  "base64_encode_nopad data = enc_loop data"

definition base64_encode :: "u8 list \<Rightarrow> string" where
  "base64_encode data = base64_encode_nopad data"

section \<open>Decoding\<close>

text \<open>The bytes of a quad; None is the result -1.\<close>

definition decode_quad :: "char \<Rightarrow> char \<Rightarrow> char \<Rightarrow> char \<Rightarrow> u8 list option" where
  "decode_quad q0 q1 q2 q3 =
     (let v0 = dec_char q0; v1 = dec_char q1
      in if v0 < 0 \<or> v1 < 0 then None
         else let out0 = word_of_int (push_bit 2 v0 OR drop_bit 4 v1)
         in if q2 = CHR ''='' then Some [out0]
            else let v2 = dec_char q2
            in if v2 < 0 then None
               else let out1 = word_of_int (push_bit 4 v1 OR drop_bit 2 v2)
               in if q3 = CHR ''='' then Some [out0, out1]
                  else let v3 = dec_char q3
                  in if v3 < 0 then None
                     else Some [out0, out1, word_of_int (push_bit 6 v2 OR v3)])"

definition url_norm :: "char \<Rightarrow> char" where
  "url_norm c = (if c = CHR ''-'' then CHR ''+'' else if c = CHR ''_'' then CHR ''/'' else c)"

text \<open>The loop over the quads of the padded text, whose length is a multiple of four.\<close>

fun dec_quads :: "string \<Rightarrow> u8 list option" where
  "dec_quads (a # b # c # d # cs) =
     (case decode_quad (url_norm a) (url_norm b) (url_norm c) (url_norm d) of
        None \<Rightarrow> None
      | Some block \<Rightarrow> map_option ((@) block) (dec_quads cs))"
| "dec_quads _ = Some []"

definition pad_len :: "nat \<Rightarrow> nat" where
  "pad_len len = (if len mod 4 \<noteq> 0 then (len div 4 + 1) * 4 else len)"

definition base64_decode :: "string \<Rightarrow> u8 list option" where
  "base64_decode encoded =
     (if encoded = [] then Some []
      else dec_quads (encoded @ replicate (pad_len (length encoded) - length encoded) (CHR ''='')))"

section \<open>URL-safe text\<close>

definition url_char :: "char \<Rightarrow> char" where
  "url_char c = (if c = CHR ''+'' then CHR ''-'' else if c = CHR ''/'' then CHR ''_'' else c)"

definition strip_eq :: "string \<Rightarrow> string" where
  "strip_eq s = rev (dropWhile (\<lambda>c. c = CHR ''='') (rev s))"

definition base64url_encode :: "u8 list \<Rightarrow> string" where
  "base64url_encode data = map url_char (strip_eq (base64_encode data))"

definition base64url_decode :: "string \<Rightarrow> u8 list option" where
  "base64url_decode encoded = base64_decode encoded"

section \<open>Validation\<close>

fun valid_loop :: "string \<Rightarrow> bool \<Rightarrow> bool" where
  "valid_loop [] pad \<longleftrightarrow> True"
| "valid_loop (c # cs) pad \<longleftrightarrow>
     (if c = CHR ''='' then valid_loop cs True
      else \<not> pad \<and> \<not> (dec_char c < 0 \<and> c \<noteq> CHR ''-'' \<and> c \<noteq> CHR ''_'') \<and> valid_loop cs pad)"

definition base64_is_valid :: "string \<Rightarrow> bool" where
  "base64_is_valid encoded \<longleftrightarrow> encoded \<noteq> [] \<and> length encoded mod 4 = 0 \<and> valid_loop encoded False"

end
