(* ===== verification/Base64_Correct.thy ===== *)
theory Base64_Correct
  imports Base64
begin

text \<open>
  Correctness of \<^verbatim>\<open>lib/libbase64/base64.c\<close>: the tables are inverse to each other, the shifts and masks
  are the division of three bytes into four sextets, and so decoding undoes encoding.
\<close>

section \<open>The tables\<close>

lemma ENC_TABLE_length: "length ENC_TABLE = 64"
  by (simp add: ENC_TABLE_def)

lemma dec_enc_table: "map dec_char ENC_TABLE = map int [0..<64]"
  by (simp add: ENC_TABLE_def dec_char_def DEC_TABLE_def upt_rec)

lemma enc_table_chars:
  "list_all (\<lambda>c. url_norm c = c \<and> url_norm (url_char c) = c \<and> c \<noteq> CHR ''='' \<and> url_char c \<noteq> CHR ''='') ENC_TABLE"
  by (simp add: ENC_TABLE_def url_norm_def url_char_def)

lemma enc_char_facts:
  assumes "0 \<le> i" "i < 64"
  shows "dec_char (enc_char i) = i" "url_norm (enc_char i) = enc_char i"
    "url_norm (url_char (enc_char i)) = enc_char i" "enc_char i \<noteq> CHR ''=''" "url_char (enc_char i) \<noteq> CHR ''=''"
proof -
  have n: "nat i < length ENC_TABLE" "nat i < 64" using assms by (simp_all add: ENC_TABLE_length)
  have "map dec_char ENC_TABLE ! nat i = map int [0..<64] ! nat i" by (simp only: dec_enc_table)
  then show "dec_char (enc_char i) = i" using n assms(1) by (simp add: enc_char_def)
  have "enc_char i \<in> set ENC_TABLE" using nth_mem [OF n(1)] by (simp add: enc_char_def)
  then show "url_norm (enc_char i) = enc_char i" "url_norm (url_char (enc_char i)) = enc_char i"
    "enc_char i \<noteq> CHR ''=''" "url_char (enc_char i) \<noteq> CHR ''=''"
    using enc_table_chars by (simp_all add: list_all_iff)
qed

lemma url_eq_facts [simp]: "url_norm (CHR ''='') = CHR ''=''" "url_char (CHR ''='') = CHR ''=''"
  by (simp_all add: url_norm_def url_char_def)

section \<open>Sextets\<close>

text \<open>The shifts and masks as arithmetic.\<close>

lemma sextets:
  assumes "0 \<le> a" "a < 256" "0 \<le> b" "b < 256" "0 \<le> c" "c < 256"
  shows "drop_bit 2 a = a div 4" "push_bit 4 (a AND 3) = a mod 4 * 16"
    "push_bit 4 (a AND 3) OR drop_bit 4 b = a mod 4 * 16 + b div 16"
    "push_bit 2 (b AND 15) = b mod 16 * 4"
    "push_bit 2 (b AND 15) OR drop_bit 6 c = b mod 16 * 4 + c div 64"
    "c AND 63 = (c :: int) mod 64"
proof -
  have m: "x AND 3 = x mod 4" "x AND 15 = x mod 16" "x AND 63 = x mod 64" for x :: int
    using take_bit_eq_mask [of 2 x] take_bit_eq_mask [of 4 x] take_bit_eq_mask [of 6 x]
    by (simp_all add: take_bit_eq_mod mask_eq_exp_minus_1)
  show "drop_bit 2 a = a div 4" "c AND 63 = c mod 64" by (simp_all add: drop_bit_eq_div m)
  show "push_bit 4 (a AND 3) = a mod 4 * 16" "push_bit 2 (b AND 15) = b mod 16 * 4"
    by (simp_all add: push_bit_eq_mult m)
  show "push_bit 4 (a AND 3) OR drop_bit 4 b = a mod 4 * 16 + b div 16"
    using push_or [of "b div 16" 4 "a mod 4"] assms by (simp add: m drop_bit_eq_div)
  show "push_bit 2 (b AND 15) OR drop_bit 6 c = b mod 16 * 4 + c div 64"
    using push_or [of "c div 64" 2 "b mod 16"] assms by (simp add: m drop_bit_eq_div)
qed

lemma octets:
  assumes "0 \<le> v0" "v0 < 64" "0 \<le> v1" "v1 < 64" "0 \<le> v2" "v2 < 64" "0 \<le> v3" "v3 < (64 :: int)"
  shows "push_bit 2 v0 OR drop_bit 4 v1 = v0 * 4 + v1 div 16"
    "push_bit 4 v1 OR drop_bit 2 v2 = v1 * 16 + v2 div 4"
    "push_bit 6 v2 OR v3 = v2 * 64 + v3"
  using push_or [of "v1 div 16" 2 v0] push_or [of "v2 div 4" 4 v1] push_or [of v3 6 v2] assms
  by (simp_all add: drop_bit_eq_div)

section \<open>One block\<close>

definition enc_ok :: "char \<Rightarrow> bool" where
  "enc_ok c \<longleftrightarrow> (\<exists>i. 0 \<le> i \<and> i < 64 \<and> c = enc_char i)"

lemma word_of_uint: "word_of_int (v :: int) = (x :: u8) \<longleftrightarrow> v mod 256 = uint x"
  by (simp add: word_uint_eq_iff uint_word_of_int)

lemma uint_u8: "0 \<le> uint (x :: u8)" "uint (x :: u8) < 256"
  using uint_ge_0 [of x] uint_bounded [of x] by simp_all

lemma bytes_back:
  assumes "0 \<le> a" "a < 256" "0 \<le> b" "b < 256" "0 \<le> c" "c < (256 :: int)"
  shows "(a div 4 * 4 + (a mod 4 * 16 + b div 16) div 16) mod 256 = a"
    "((a mod 4 * 16 + b div 16) * 16 + (b mod 16 * 4 + c div 64) div 4) mod 256 = b"
    "((b mod 16 * 4 + c div 64) * 64 + c mod 64) mod 256 = c"
    "a div 4 * 4 + (a mod 4 * 16) div 16 = a"
    "((a mod 4 * 16 + b div 16) * 16 + (b mod 16 * 4) div 4) mod 256 = b"
proof -
  have m: "(p * 16 + q) div 16 = p" if "0 \<le> q" "q < 16" for p q :: int
    using that div_mult_self3 [of 16 p q] by (simp add: add.commute)
  have m4: "(p * 4 + q) div 4 = p" if "0 \<le> q" "q < 4" for p q :: int
    using that div_mult_self3 [of 4 p q] by (simp add: add.commute)
  have b16: "0 \<le> b div 16" "b div 16 < 16" and c64: "0 \<le> c div 64" "c div 64 < 4" using assms by simp_all
  have ab: "x div 4 * 4 + x mod 4 = x" "x div 16 * 16 + x mod 16 = x" "x div 64 * 64 + x mod 64 = x" for x :: int by simp_all
  show "(a div 4 * 4 + (a mod 4 * 16 + b div 16) div 16) mod 256 = a"
    using assms by (simp only: m [OF b16] ab) simp
  show "a div 4 * 4 + (a mod 4 * 16) div 16 = a" by simp
  have "((a mod 4 * 16 + b div 16) * 16 + b mod 16) mod 256 = (a mod 4 * 256 + (b div 16 * 16 + b mod 16)) mod 256"
    by (simp only: ring_distribs mult.assoc) simp
  also have "\<dots> = b" using assms unfolding ab by simp
  finally have bb: "((a mod 4 * 16 + b div 16) * 16 + b mod 16) mod 256 = b" .
  show "((a mod 4 * 16 + b div 16) * 16 + (b mod 16 * 4 + c div 64) div 4) mod 256 = b"
    using bb by (simp only: m4 [OF c64])
  show "((a mod 4 * 16 + b div 16) * 16 + (b mod 16 * 4) div 4) mod 256 = b" using bb by simp
  have "((b mod 16 * 4 + c div 64) * 64 + c mod 64) mod 256 = (b mod 16 * 256 + (c div 64 * 64 + c mod 64)) mod 256"
    by (simp only: ring_distribs mult.assoc) simp
  also have "\<dots> = c" using assms unfolding ab by simp
  finally show "((b mod 16 * 4 + c div 64) * 64 + c mod 64) mod 256 = c" .
qed

lemma six_ranges:
  assumes "0 \<le> a" "a < 256" "0 \<le> b" "b < (256 :: int)"
  shows "0 \<le> a div 4" "a div 4 < 64" "0 \<le> a mod 4 * 16 + b div 16" "a mod 4 * 16 + b div 16 < 64"
    "0 \<le> b mod 16 * 4 + a div 64" "b mod 16 * 4 + a div 64 < 64" "0 \<le> a mod 64" "a mod 64 < 64"
    "0 \<le> a mod 4 * 16" "a mod 4 * 16 < 64" "0 \<le> a mod 16 * 4" "a mod 16 * 4 < 64"
proof -
  have "0 \<le> b div 16" "b div 16 < 16" "0 \<le> a div 64" "a div 64 < 4" "0 \<le> a mod 4" "a mod 4 < 4"
    "0 \<le> b mod 16" "b mod 16 < 16" "0 \<le> a mod 16" "a mod 16 < 16"
    using assms by simp_all
  then show "0 \<le> a div 4" "a div 4 < 64" "0 \<le> a mod 4 * 16 + b div 16" "a mod 4 * 16 + b div 16 < 64"
    "0 \<le> b mod 16 * 4 + a div 64" "b mod 16 * 4 + a div 64 < 64" "0 \<le> a mod 64" "a mod 64 < 64"
    "0 \<le> a mod 4 * 16" "a mod 4 * 16 < 64" "0 \<le> a mod 16 * 4" "a mod 16 * 4 < 64"
    using assms by simp_all
qed

lemma decode_quad_3:
  assumes "0 \<le> v0" "v0 < 64" "0 \<le> v1" "v1 < 64" "0 \<le> v2" "v2 < 64" "0 \<le> v3" "v3 < 64"
  shows "decode_quad (enc_char v0) (enc_char v1) (enc_char v2) (enc_char v3)
      = Some [word_of_int (v0 * 4 + v1 div 16), word_of_int (v1 * 16 + v2 div 4), word_of_int (v2 * 64 + v3)]"
    "decode_quad (enc_char v0) (enc_char v1) (enc_char v2) (CHR ''='')
      = Some [word_of_int (v0 * 4 + v1 div 16), word_of_int (v1 * 16 + v2 div 4)]"
    "decode_quad (enc_char v0) (enc_char v1) (CHR ''='') (CHR ''='') = Some [word_of_int (v0 * 4 + v1 div 16)]"
  using assms by (simp_all add: decode_quad_def enc_char_facts octets)

lemma enc_loop_arith:
  "enc_loop [x] = [enc_char (uint x div 4), enc_char (uint x mod 4 * 16), CHR ''='', CHR ''='']"
  "enc_loop [x, y] = [enc_char (uint x div 4), enc_char (uint x mod 4 * 16 + uint y div 16), enc_char (uint y mod 16 * 4), CHR ''='']"
  "enc_loop (x # y # z # zs) = enc_char (uint x div 4) # enc_char (uint x mod 4 * 16 + uint y div 16)
     # enc_char (uint y mod 16 * 4 + uint z div 64) # enc_char (uint z mod 64) # enc_loop zs"
  using sextets [OF uint_u8 [of x] uint_u8 [of y] uint_u8 [of z]] sextets [OF uint_u8 [of x] uint_u8 [of x] uint_u8 [of x]]
    sextets [OF uint_u8 [of x] uint_u8 [of y] uint_u8 [of y]]
  by (simp_all only: enc_loop.simps Let_def)

text \<open>The text of the encoder, for a map \<open>u\<close> of the letters that the decoder undoes.\<close>

lemma dec_enc_loop:
  assumes "\<And>i. 0 \<le> i \<Longrightarrow> i < 64 \<Longrightarrow> url_norm (u (enc_char i)) = enc_char i" "u (CHR ''='') = CHR ''=''"
  shows "dec_quads (map u (enc_loop xs)) = Some xs"
proof (induction xs rule: enc_loop.induct)
  case 1
  show ?case by simp
next
  case (2 x)
  have r: "0 \<le> uint x div 4" "uint x div 4 < 64" "0 \<le> uint x mod 4 * 16" "uint x mod 4 * 16 < 64"
    using six_ranges(1,2,9,10) [OF uint_u8 [of x] uint_u8 [of x]] .
  have w: "word_of_int (uint x div 4 * 4 + (uint x mod 4 * 16) div 16) = x"
    by (subst bytes_back(4) [OF uint_u8 [of x] uint_u8 [of x] uint_u8 [of x]]) simp
  have q: "decode_quad (enc_char (uint x div 4)) (enc_char (uint x mod 4 * 16)) (CHR ''='') (CHR ''='') = Some [x]"
    using decode_quad_3(3) [of "uint x div 4" "uint x mod 4 * 16" 0 0] r by (simp only: w)
  have "dec_quads (map u (enc_loop [x])) = (case decode_quad (enc_char (uint x div 4)) (enc_char (uint x mod 4 * 16))
      (CHR ''='') (CHR ''='') of None \<Rightarrow> None | Some block \<Rightarrow> map_option ((@) block) (dec_quads []))"
    by (simp only: enc_loop_arith(1) list.map dec_quads.simps(1) assms(1) [OF r(1,2)] assms(1) [OF r(3,4)] assms(2) url_eq_facts)
  then show ?case unfolding q by simp
next
  case (3 x y)
  note r = six_ranges(1-4) [OF uint_u8 [of x] uint_u8 [of y]] six_ranges(11,12) [OF uint_u8 [of y] uint_u8 [of y]]
  note w = word_of_uint [THEN iffD2, OF bytes_back(1) [OF uint_u8 [of x] uint_u8 [of y] uint_u8 [of y]]]
    word_of_uint [THEN iffD2, OF bytes_back(5) [OF uint_u8 [of x] uint_u8 [of y] uint_u8 [of y]]]
  have q: "decode_quad (enc_char (uint x div 4)) (enc_char (uint x mod 4 * 16 + uint y div 16))
      (enc_char (uint y mod 16 * 4)) (CHR ''='') = Some [x, y]"
    using decode_quad_3(2) [OF r, of 0] by (simp only: w)
  have "dec_quads (map u (enc_loop [x, y])) = (case decode_quad (enc_char (uint x div 4))
      (enc_char (uint x mod 4 * 16 + uint y div 16)) (enc_char (uint y mod 16 * 4)) (CHR ''='')
      of None \<Rightarrow> None | Some block \<Rightarrow> map_option ((@) block) (dec_quads []))"
    by (simp only: enc_loop_arith(2) list.map dec_quads.simps(1) assms(1) [OF r(1,2)] assms(1) [OF r(3,4)]
        assms(1) [OF r(5,6)] assms(2) url_eq_facts)
  then show ?case unfolding q by simp
next
  case (4 x y z zs)
  note r = six_ranges(1-4) [OF uint_u8 [of x] uint_u8 [of y]] six_ranges(5-8) [OF uint_u8 [of z] uint_u8 [of y]]
  note w = bytes_back(1-3) [OF uint_u8 [of x] uint_u8 [of y] uint_u8 [of z], THEN word_of_uint [THEN iffD2]]
  have q: "decode_quad (enc_char (uint x div 4)) (enc_char (uint x mod 4 * 16 + uint y div 16))
      (enc_char (uint y mod 16 * 4 + uint z div 64)) (enc_char (uint z mod 64)) = Some [x, y, z]"
    using decode_quad_3(1) [OF r] by (simp only: w)
  have "dec_quads (map u (enc_loop (x # y # z # zs))) = (case decode_quad (enc_char (uint x div 4))
      (enc_char (uint x mod 4 * 16 + uint y div 16)) (enc_char (uint y mod 16 * 4 + uint z div 64)) (enc_char (uint z mod 64))
      of None \<Rightarrow> None | Some block \<Rightarrow> map_option ((@) block) (dec_quads (map u (enc_loop zs))))"
    by (simp only: enc_loop_arith(3) list.map dec_quads.simps(1) assms(1) [OF r(1,2)] assms(1) [OF r(3,4)]
        assms(1) [OF r(5,6)] assms(1) [OF r(7,8)])
  moreover have "dec_quads (map u (enc_loop zs)) = Some zs" by (rule 4) simp_all
  ultimately show ?case unfolding q by simp
qed

lemma length_enc_loop: "length (enc_loop xs) = (length xs + 2) div 3 * 4"
proof (induction xs rule: enc_loop.induct)
  case (4 x y z zs)
  have "length (enc_loop zs) = (length zs + 2) div 3 * 4" by (rule 4) simp_all
  moreover have "(3 + length zs + 2) div 3 = (length zs + 2) div 3 + 1"
    using div_add_self1 [of 3 "length zs + 2"] by (simp only: add.assoc)
  ultimately show ?case by (simp add: Let_def)
qed (simp_all add: Let_def)

section \<open>Padding\<close>

lemma enc_okI: "0 \<le> i \<Longrightarrow> i < 64 \<Longrightarrow> enc_ok (enc_char i)"
  by (auto simp: enc_ok_def)

lemma enc_ok_facts: "enc_ok c \<Longrightarrow> c \<noteq> CHR ''='' \<and> url_char c \<noteq> CHR ''='' \<and> 0 \<le> dec_char c"
  using enc_char_facts by (auto simp: enc_ok_def)

lemma enc_loop_core:
  "\<exists>core k. enc_loop xs = core @ replicate k (CHR ''='') \<and> k \<le> 2
     \<and> (\<forall>c \<in> set core. enc_ok c)"
proof (induction xs rule: enc_loop.induct)
  case 1
  show ?case by (intro exI [of _ "[]"] exI [of _ 0]) simp
next
  case (2 x)
  note r = six_ranges [OF uint_u8 [of x] uint_u8 [of x]]
  show ?case
    by (intro exI [of _ "[enc_char (uint x div 4), enc_char (uint x mod 4 * 16)]"] exI [of _ 2])
       (simp add: enc_loop_arith(1) numeral_2_eq_2 enc_okI r del: enc_loop.simps)
next
  case (3 x y)
  note r = six_ranges [OF uint_u8 [of x] uint_u8 [of y]] six_ranges [OF uint_u8 [of y] uint_u8 [of y]]
  show ?case
    by (intro exI [of _ "[enc_char (uint x div 4), enc_char (uint x mod 4 * 16 + uint y div 16), enc_char (uint y mod 16 * 4)]"] exI [of _ 1])
       (simp add: enc_loop_arith(2) enc_okI r del: enc_loop.simps)
next
  case (4 x y z zs)
  note r = six_ranges [OF uint_u8 [of x] uint_u8 [of y]] six_ranges [OF uint_u8 [of z] uint_u8 [of y]]
  obtain core k where ih: "enc_loop zs = core @ replicate k (CHR ''='')" "k \<le> 2"
    "\<forall>c \<in> set core. enc_ok c" using 4 by blast
  let ?c = "[enc_char (uint x div 4), enc_char (uint x mod 4 * 16 + uint y div 16),
     enc_char (uint y mod 16 * 4 + uint z div 64), enc_char (uint z mod 64)]"
  have "\<forall>c \<in> set (?c @ core). enc_ok c"
    using ih(3) by (simp add: enc_okI r)
  then show ?case using ih(1,2)
    by (intro exI [of _ "?c @ core"] exI [of _ k]) (simp only: enc_loop_arith(3) append.simps simp_thms)
qed

lemma strip_eq_core: "CHR ''='' \<notin> set core \<Longrightarrow> strip_eq (core @ replicate k (CHR ''='')) = core"
proof -
  assume n: "CHR ''='' \<notin> set core"
  have "dropWhile (\<lambda>c. c = CHR ''='') (replicate k (CHR ''='') @ ds) = dropWhile (\<lambda>c. c = CHR ''='') ds" for ds
    by (induction k) simp_all
  moreover have "dropWhile (\<lambda>c. c = CHR ''='') (rev core) = rev core"
  proof (cases "rev core")
    case (Cons c cs)
    then have "c \<in> set core" by (metis list.set_intros(1) set_rev)
    then have "c \<noteq> CHR ''=''" using n by auto
    then show ?thesis using Cons by simp
  qed simp
  ultimately show ?thesis by (simp add: strip_eq_def)
qed

lemma base64_decode_quads:
  assumes "(length s + k) mod 4 = 0" "k \<le> 3" "s \<noteq> []"
  shows "base64_decode s = dec_quads (s @ replicate k (CHR ''=''))"
proof -
  have "pad_len (length s) - length s = k"
    using assms(1,2) unfolding pad_len_def by (cases "length s mod 4 = 0") presburger+
  then show ?thesis using assms(3) by (simp add: base64_decode_def)
qed

lemma url_char_safe: "url_char c \<noteq> CHR ''+'' \<and> url_char c \<noteq> CHR ''/''"
  by (simp add: url_char_def)

lemma base64_url_core:
  obtains core k where "base64_encode xs = core @ replicate k (CHR ''='')" "base64url_encode xs = map url_char core"
    "CHR ''='' \<notin> set core" "CHR ''='' \<notin> set (map url_char core)" "k \<le> 2" "(length core + k) mod 4 = 0"
    "\<forall>c \<in> set core. enc_ok c"
proof -
  obtain core k where c: "enc_loop xs = core @ replicate k (CHR ''='')" "k \<le> 2"
    "\<forall>c \<in> set core. enc_ok c" using enc_loop_core by blast
  have n: "CHR ''='' \<notin> set core" "CHR ''='' \<notin> set (map url_char core)"
    using c(3) enc_ok_facts by fastforce+
  have "length core + k = (length xs + 2) div 3 * 4" using length_enc_loop [of xs] c(1) by simp
  then show ?thesis
    using c n strip_eq_core [OF n(1), of k]
    by (intro that [of core k]) (simp_all add: base64_encode_def base64_encode_nopad_def base64url_encode_def)
qed

section \<open>Validation\<close>

lemma dec_char_eq: "dec_char (CHR ''='') = 0" "dec_char (CHR ''+'') = 62" "dec_char (CHR ''/'') = 63"
  by (simp_all add: dec_char_def DEC_TABLE_def)

lemma valid_loop_core:
  "(\<forall>c \<in> set core. c \<noteq> CHR ''='' \<and> 0 \<le> dec_char c) \<Longrightarrow> valid_loop (core @ replicate k (CHR ''='')) False"
proof (induction core)
  case Nil
  have "valid_loop (replicate k (CHR ''='')) p" for p by (induction k arbitrary: p) simp_all
  then show ?case by simp
qed (simp add: not_less)

lemma valid_loop_chars: "valid_loop s pad \<Longrightarrow> \<forall>c \<in> set s. 0 \<le> dec_char (url_norm c)"
  by (induction s pad rule: valid_loop.induct)
     (auto simp: dec_char_eq url_norm_def not_less split: if_splits)

lemma dec_quads_total:
  "\<forall>c \<in> set s. 0 \<le> dec_char (url_norm c) \<Longrightarrow> \<exists>xs. dec_quads s = Some xs \<and> length xs \<le> length s div 4 * 3"
proof (induction s rule: dec_quads.induct)
  case (1 a b c d cs)
  have "\<exists>block. decode_quad (url_norm a) (url_norm b) (url_norm c) (url_norm d) = Some block \<and> length block \<le> 3"
    using 1(2) by (simp add: decode_quad_def Let_def not_less)
  then obtain block where b: "decode_quad (url_norm a) (url_norm b) (url_norm c) (url_norm d) = Some block" "length block \<le> 3" by blast
  then obtain xs where "dec_quads cs = Some xs" "length xs \<le> length cs div 4 * 3" using 1 by auto
  moreover have "(4 + length cs) div 4 = length cs div 4 + 1" by simp
  ultimately show ?case using b by (simp add: add.commute)
qed simp_all


section \<open>Properties\<close>

text \<open>
  C33. Decoding undoes encoding for every byte sequence, in the standard and in the URL-safe
  alphabet, where the encoder drops the padding and the decoder restores it. The sizes the helpers
  announce are kept, an encoding of any data is valid, and every valid text decodes.
\<close>

theorem base64_roundtrip:
  "base64_decode (base64_encode xs) = Some xs \<and> base64url_decode (base64url_encode xs) = Some xs
   \<and> length (base64_encode xs) + 1 = base64_encoded_len (length xs)
   \<and> set (base64url_encode xs) \<inter> {CHR ''+'', CHR ''/'', CHR ''=''} = {}
   \<and> (xs \<noteq> [] \<longrightarrow> base64_is_valid (base64_encode xs))
   \<and> (\<forall>s. base64_is_valid s \<longrightarrow> (\<exists>ys. base64_decode s = Some ys \<and> length ys < base64_decoded_len (length s)))"
proof -
  obtain core k where c: "base64_encode xs = core @ replicate k (CHR ''='')" "base64url_encode xs = map url_char core"
    "CHR ''='' \<notin> set core" "CHR ''='' \<notin> set (map url_char core)" "k \<le> 2" "(length core + k) mod 4 = 0"
    "\<forall>c \<in> set core. enc_ok c"
    by (rule base64_url_core)
  have len: "length (base64_encode xs) = (length xs + 2) div 3 * 4"
    using length_enc_loop [of xs] by (simp add: base64_encode_def base64_encode_nopad_def)
  have 1: "dec_quads (base64_encode xs) = Some xs"
    using dec_enc_loop [of id xs] enc_char_facts(2) by (simp add: base64_encode_def base64_encode_nopad_def)
  have 2: "dec_quads (map url_char core @ replicate k (CHR ''='')) = Some xs"
    using dec_enc_loop [of url_char xs] enc_char_facts(3) c(1)
    by (simp add: base64_encode_def base64_encode_nopad_def)
  have d1: "base64_decode (base64_encode xs) = Some xs"
    using base64_decode_quads [of "base64_encode xs" 0] 1 len
    by (cases "base64_encode xs = []") (simp_all add: base64_decode_def)
  have d2: "base64url_decode (base64url_encode xs) = Some xs"
  proof (cases "core = []")
    case True
    then have "k = 0" using c(5,6) by simp
    then show ?thesis using True c(2) 2 by (simp add: base64url_decode_def base64_decode_def)
  next
    case False
    then show ?thesis
      using base64_decode_quads [of "map url_char core" k] c(2,5,6) 2 by (simp add: base64url_decode_def)
  qed
  have "base64_is_valid (base64_encode xs)" if "xs \<noteq> []"
  proof -
    have "valid_loop (base64_encode xs) False"
      unfolding c(1) by (rule valid_loop_core) (use c(7) enc_ok_facts in blast)
    moreover have "base64_encode xs \<noteq> []" using 1 that by auto
    ultimately show ?thesis using len by (simp add: base64_is_valid_def)
  qed
  moreover have "\<exists>ys. base64_decode s = Some ys \<and> length ys < base64_decoded_len (length s)" if "base64_is_valid s" for s
  proof -
    have s: "s \<noteq> []" "length s mod 4 = 0" "\<forall>c \<in> set s. 0 \<le> dec_char (url_norm c)"
      using that valid_loop_chars by (auto simp: base64_is_valid_def)
    from dec_quads_total [OF s(3)] show ?thesis
      using base64_decode_quads [of s 0] s(1,2) by (auto simp: base64_decoded_len_def)
  qed
  moreover have "set (base64url_encode xs) \<inter> {CHR ''+'', CHR ''/'', CHR ''=''} = {}"
    using c(4) url_char_safe unfolding c(2) by fastforce
  ultimately show ?thesis using d1 d2 len by (simp add: base64_encoded_len_def)
qed

theorem base64_roundtrip_witness:
  "base64_is_valid (base64_encode [0xFF, 0x00]) \<and> base64_decode (base64_encode [0xFF, 0x00]) = Some [0xFF, 0x00]
   \<and> (\<exists>ys. base64_decode (base64_encode [0xFF, 0x00]) = Some ys \<and> length ys < base64_decoded_len (length (base64_encode [0xFF, 0x00])))"
  using base64_roundtrip [of "[0xFF, 0x00]"] by blast

end
