(* ===== verification/Protobuf.thy ===== *)
theory Protobuf
  imports Slermes_Prelude
begin

text \<open>
  \<^verbatim>\<open>lib/libprotobuf/protobuf.c\<close>: the protobuf wire format. A buffer to read is its list of bytes; a
  pointer into it is an offset. A write is the list of the bytes written so far, with the size of
  the buffer as its bound; None is the result -1. The results 0 and NULL of the readers are None as
  well. The conversions to \<open>int\<close> and \<open>uint32_t\<close> are written out; NULL arguments have no counterpart.
\<close>

section \<open>Wire types\<close>

definition PB_WIRE_VARINT :: int where "PB_WIRE_VARINT = 0"
definition PB_WIRE_FIXED64 :: int where "PB_WIRE_FIXED64 = 1"
definition PB_WIRE_LENDELIM :: int where "PB_WIRE_LENDELIM = 2"
definition PB_WIRE_FIXED32 :: int where "PB_WIRE_FIXED32 = 5"

lemmas pb_wires = PB_WIRE_VARINT_def PB_WIRE_FIXED64_def PB_WIRE_LENDELIM_def PB_WIRE_FIXED32_def

text \<open>\<open>(int)x\<close> of a 64-bit value.\<close>

definition c_int :: "u64 \<Rightarrow> int" where
  "c_int x = sint (ucast x :: 32 word)"

section \<open>Decoding\<close>

text \<open>The loop of \<open>pb_decode_varint\<close>: at most ten bytes. The value and the number of bytes.\<close>

fun decode_varint_loop :: "u8 list \<Rightarrow> nat \<Rightarrow> u64 \<Rightarrow> nat \<Rightarrow> nat \<Rightarrow> (u64 \<times> nat) option" where
  "decode_varint_loop [] i result shift fuel = None"
| "decode_varint_loop (byte # bs) i result shift 0 = None"
| "decode_varint_loop (byte # bs) i result shift (Suc fuel) =
     (let result = result OR push_bit shift (ucast (byte AND 0x7F))
      in if byte AND 0x80 = 0 then Some (result, i + 1)
         else decode_varint_loop bs (i + 1) result (shift + 7) fuel)"

definition pb_decode_varint :: "u8 list \<Rightarrow> (u64 \<times> nat) option" where
  "pb_decode_varint buf = decode_varint_loop buf 0 0 0 10"

text \<open>The tag number, the wire type and the number of bytes.\<close>

definition pb_parse_tag :: "u8 list \<Rightarrow> (u32 \<times> int \<times> nat) option" where
  "pb_parse_tag buf =
     map_option (\<lambda>(value, n). (ucast (drop_bit 3 value), uint (value AND 7), n)) (pb_decode_varint buf)"

text \<open>The result is the \<open>int\<close>; 0 and below stop the caller. A sum above \<open>INT_MAX\<close> is undefined
  behaviour; the model keeps the exact sum, which ends the caller's loop like a wrapped one.\<close>

definition pb_skip_field :: "u8 list \<Rightarrow> int \<Rightarrow> int" where
  "pb_skip_field buf wire_type =
     (if wire_type = PB_WIRE_VARINT then (case pb_decode_varint buf of None \<Rightarrow> 0 | Some (_, n) \<Rightarrow> int n)
      else if wire_type = PB_WIRE_FIXED64 then 8
      else if wire_type = PB_WIRE_FIXED32 then 4
      else if wire_type = PB_WIRE_LENDELIM
           then (case pb_decode_varint buf of None \<Rightarrow> 0 | Some (len, n) \<Rightarrow> int n + c_int len)
      else 0)"

text \<open>The \<open>switch\<close> of \<open>pb_find_field\<close> on the field found at \<open>offset\<close>: where its data is and the
  length reported for it.\<close>

definition field_data :: "u8 list \<Rightarrow> nat \<Rightarrow> int \<Rightarrow> (nat \<times> nat) option" where
  "field_data buf offset wire =
     (if wire = PB_WIRE_VARINT then map_option (\<lambda>(v, m). (offset, m)) (pb_decode_varint (drop offset buf))
      else if wire = PB_WIRE_FIXED64 then Some (offset, 8)
      else if wire = PB_WIRE_FIXED32 then Some (offset, 4)
      else if wire = PB_WIRE_LENDELIM
           then map_option (\<lambda>(len, m). (offset + m, unat len)) (pb_decode_varint (drop offset buf))
      else None)"

function find_field_loop :: "u8 list \<Rightarrow> u32 \<Rightarrow> int \<Rightarrow> nat \<Rightarrow> (nat \<times> nat) option" where
  "find_field_loop buf target_tag target_wire offset =
     (if offset < length buf then
        case pb_parse_tag (drop offset buf) of
          None \<Rightarrow> None
        | Some (tag, wire, n) \<Rightarrow>
            let offset' = offset + n
            in if tag = target_tag \<and> wire = target_wire then field_data buf offset' wire
               else let skipped = pb_skip_field (drop offset' buf) wire
               in if skipped \<le> 0 then None
                  else find_field_loop buf target_tag target_wire (offset' + nat skipped)
      else None)"
  by pat_completeness auto
termination by (relation "measure (\<lambda>(buf, t, w, offset). length buf - offset)") auto

declare find_field_loop.simps [simp del]

definition pb_find_field :: "u8 list \<Rightarrow> u32 \<Rightarrow> int \<Rightarrow> (nat \<times> nat) option" where
  "pb_find_field buf target_tag target_wire = find_field_loop buf target_tag target_wire 0"

definition pb_read_varint :: "u8 list \<Rightarrow> u32 \<Rightarrow> u64 option" where
  "pb_read_varint buf tag =
     (case pb_find_field buf tag PB_WIRE_VARINT of
        None \<Rightarrow> None
      | Some (data, _) \<Rightarrow> map_option fst (pb_decode_varint (drop data buf)))"

definition pb_read_delimited :: "u8 list \<Rightarrow> u32 \<Rightarrow> (nat \<times> nat) option" where
  "pb_read_delimited buf tag = pb_find_field buf tag PB_WIRE_LENDELIM"

section \<open>Encoding\<close>

function pb_varint_size :: "u64 \<Rightarrow> nat" where
  "pb_varint_size value = (let value = drop_bit 7 value in if value \<noteq> 0 then 1 + pb_varint_size value else 1)"
  by pat_completeness auto
termination
proof (relation "measure unat")
  fix v x :: u64
  assume x: "x = drop_bit 7 v" "x \<noteq> 0"
  have "unat x = unat v div 128" by (simp only: x(1) unat_drop_bit_eq) (simp add: drop_bit_eq_div)
  moreover have "unat x \<noteq> 0" using x(2) by (simp add: unat_eq_zero)
  ultimately show "(x, v) \<in> measure unat" by (simp add: div_less_dividend)
qed simp

text \<open>The \<open>do\<close> loop of \<open>pb_encode_varint\<close>, with the bytes left in the buffer.\<close>

function encode_varint_loop :: "nat \<Rightarrow> u64 \<Rightarrow> u8 list option" where
  "encode_varint_loop room value =
     (if room = 0 then None
      else let byte = ucast (value AND 0x7F); value = drop_bit 7 value
      in if value \<noteq> 0 then map_option ((#) (byte OR 0x80)) (encode_varint_loop (room - 1) value)
         else Some [byte])"
  by pat_completeness auto
termination by (relation "measure fst") auto

declare pb_varint_size.simps [simp del] encode_varint_loop.simps [simp del]

definition pb_encode_varint :: "nat \<Rightarrow> u64 \<Rightarrow> u8 list option" where
  "pb_encode_varint buf_len value = encode_varint_loop buf_len value"

definition pb_encode_tag :: "nat \<Rightarrow> u32 \<Rightarrow> int \<Rightarrow> u8 list option" where
  "pb_encode_tag buf_len tag_no wire_type =
     pb_encode_varint buf_len (push_bit 3 (ucast tag_no) OR word_of_int wire_type)"

definition pb_encode_varint_field :: "nat \<Rightarrow> u32 \<Rightarrow> u64 \<Rightarrow> u8 list option" where
  "pb_encode_varint_field buf_len tag_no value = do {
     t \<leftarrow> pb_encode_tag buf_len tag_no PB_WIRE_VARINT;
     v \<leftarrow> pb_encode_varint (buf_len - length t) value;
     Some (t @ v) }"

definition pb_encode_delimited_field :: "nat \<Rightarrow> u32 \<Rightarrow> u8 list \<Rightarrow> u8 list option" where
  "pb_encode_delimited_field buf_len tag_no data = do {
     t \<leftarrow> pb_encode_tag buf_len tag_no PB_WIRE_LENDELIM;
     n \<leftarrow> pb_encode_varint (buf_len - length t) (of_nat (length data));
     if length t + length n + length data > buf_len then None else Some (t @ n @ data) }"

definition pb_encode_fixed32_field :: "nat \<Rightarrow> u32 \<Rightarrow> u32 \<Rightarrow> u8 list option" where
  "pb_encode_fixed32_field buf_len tag_no value = do {
     t \<leftarrow> pb_encode_tag buf_len tag_no PB_WIRE_FIXED32;
     if length t + 4 > buf_len then None
     else Some (t @ [ucast (value AND 0xFF), ucast (drop_bit 8 value AND 0xFF), ucast (drop_bit 16 value AND 0xFF),
                     ucast (drop_bit 24 value)]) }"

end
