(* ===== verification/Protobuf_Correct.thy ===== *)
theory Protobuf_Correct
  imports Protobuf
begin

text \<open>
  Correctness of \<^verbatim>\<open>lib/libprotobuf/protobuf.c\<close>: a varint reads back whatever follows it, a field the
  encoders write has a shape the readers recognise (\<open>pb_shape\<close>), and so a scan of a message finds the
  first field of a tag and type. What the scan does not check is the last property.
\<close>

section \<open>Varints\<close>

lemma masks: "(127 :: 'a :: len word) = mask 7" "(7 :: 'a :: len word) = mask 3"
  by (simp_all add: mask_eq_exp_minus_1)

lemma u8_and_128: "(x :: u8) AND 128 = 0 \<longleftrightarrow> \<not> bit x 7"
  using bit_iff_and_push_bit_not_eq_0 [of x 7] by (simp add: push_bit_eq_mult)

lemma bit_128: "bit (128 :: 'a :: len word) n \<longleftrightarrow> n = 7 \<and> 7 < LENGTH('a)"
  using bit_exp_iff [of 7 n, where 'a = "'a word"] by auto

lemma varint_byte:
  fixes v :: u64
  shows "ucast ((ucast (v AND 127) :: u8) AND 127) = v AND 127"
    "ucast (((ucast (v AND 127) :: u8) OR 128) AND 127) = v AND 127"
    "\<not> bit (ucast (v AND 127) :: u8) 7" "bit ((ucast (v AND 127) :: u8) OR 128) 7"
proof -
  show low: "ucast ((ucast (v AND 127) :: u8) AND 127) = v AND 127"
    by (rule bit_word_eqI) (auto simp: masks bit_simps)
  have "((ucast (v AND 127) :: u8) OR 128) AND 127 = ucast (v AND 127) AND 127"
    by (simp add: bit.conj_disj_distrib2)
  then show "ucast (((ucast (v AND 127) :: u8) OR 128) AND 127) = v AND 127" by (simp only: low)
  show "\<not> bit (ucast (v AND 127) :: u8) 7" "bit ((ucast (v AND 127) :: u8) OR 128) 7"
    by (auto simp: masks bit_simps bit_128)
qed

lemma split_7: "push_bit s (v AND 127) OR push_bit (s + 7) (drop_bit 7 v) = push_bit s (v :: u64)"
proof (rule bit_word_eqI)
  fix n assume "n < LENGTH(64)"
  show "bit (push_bit s (v AND 127) OR push_bit (s + 7) (drop_bit 7 v)) n \<longleftrightarrow> bit (push_bit s v) n"
  proof (cases "s \<le> n \<and> 7 \<le> n - s")
    case True
    then have "7 + (n - (s + 7)) = n - s" by arith
    then show ?thesis using True by (auto simp: masks bit_simps)
  qed (auto simp: masks bit_simps)
qed

lemma drop_7_bound: "unat (v :: u64) < 2 ^ (7 * Suc k) \<Longrightarrow> unat (drop_bit 7 v) < 2 ^ (7 * k)"
proof -
  assume "unat v < 2 ^ (7 * Suc k)"
  then have "unat v < 128 * 2 ^ (7 * k)" by (simp add: power_add)
  then have "unat v div 128 < 2 ^ (7 * k)" by (simp add: less_mult_imp_div_less mult.commute)
  moreover have "unat (drop_bit 7 v) = unat v div 128" by (simp only: unat_drop_bit_eq) (simp add: drop_bit_eq_div)
  ultimately show ?thesis by simp
qed

lemma decode_encode_loop:
  "encode_varint_loop room v = Some enc \<Longrightarrow> unat v < 2 ^ (7 * fuel) \<Longrightarrow> 0 < fuel \<Longrightarrow>
   decode_varint_loop (enc @ rest) i r s fuel = Some (r OR push_bit s v, i + length enc) \<and> length enc \<le> fuel"
proof (induction room v arbitrary: enc i r s fuel rule: encode_varint_loop.induct)
  case (1 room v)
  obtain k where k: "fuel = Suc k" using 1(4) by (cases fuel) auto
  have room: "room \<noteq> 0" using 1(2) by (subst (asm) encode_varint_loop.simps) (simp split: if_splits)
  show ?case
  proof (cases "drop_bit 7 v = 0")
    case True
    then have enc: "enc = [ucast (v AND 127)]"
      using 1(2) room by (subst (asm) encode_varint_loop.simps) (simp add: Let_def)
    have "push_bit s v = push_bit s (v AND 127)" using split_7 [of s v] True by simp
    then show ?thesis using enc k by (simp add: u8_and_128 varint_byte)
  next
    case False
    then obtain enc' where enc: "enc = (ucast (v AND 127) OR 128) # enc'" "encode_varint_loop (room - 1) (drop_bit 7 v) = Some enc'"
      using 1(2) room by (subst (asm) encode_varint_loop.simps) (auto simp: Let_def)
    have b: "unat (drop_bit 7 v) < 2 ^ (7 * k)" using 1(3) k by (intro drop_7_bound) simp
    then have "0 < k" using False by (cases k) (auto simp: unat_eq_zero)
    then have ih: "decode_varint_loop (enc' @ rest) (i + 1) (r OR push_bit s (v AND 127)) (s + 7) k
        = Some ((r OR push_bit s (v AND 127)) OR push_bit (s + 7) (drop_bit 7 v), i + 1 + length enc') \<and> length enc' \<le> k"
      by (intro 1(1) [OF room refl refl False enc(2) b])
    have "(r OR push_bit s (v AND 127)) OR push_bit (s + 7) (drop_bit 7 v) = r OR push_bit s v"
      using split_7 [of s v] by (simp only: or.assoc)
    then show ?thesis using ih enc(1) k by (simp add: u8_and_128 varint_byte Let_def)
  qed
qed

lemma decode_encode_varint:
  assumes "pb_encode_varint room v = Some enc"
  shows "pb_decode_varint (enc @ rest) = Some (v, length enc)" "length enc \<le> 10" "enc \<noteq> []"
proof -
  have "unat v < 2 ^ (7 * 10)" by (rule less_le_trans [OF unsigned_less]) simp
  from decode_encode_loop [OF assms [unfolded pb_encode_varint_def] this, of rest 0 0 0]
  show d: "pb_decode_varint (enc @ rest) = Some (v, length enc)" and "length enc \<le> 10" by (simp_all add: pb_decode_varint_def)
  from decode_encode_loop [OF assms [unfolded pb_encode_varint_def] \<open>unat v < 2 ^ (7 * 10)\<close>, of "[]" 0 0 0]
  show "enc \<noteq> []" by (auto simp: numeral_eq_Suc)
qed

lemma encode_varint_size:
  "encode_varint_loop room v = (if pb_varint_size v \<le> room then encode_varint_loop (pb_varint_size v) v else None)
   \<and> 0 < pb_varint_size v \<and> (\<exists>enc. encode_varint_loop (pb_varint_size v) v = Some enc \<and> length enc = pb_varint_size v)"
proof (induction v arbitrary: room rule: pb_varint_size.induct)
  case (1 v)
  show ?case
  proof (cases "drop_bit 7 v = 0")
    case True
    then have "pb_varint_size v = 1" by (subst pb_varint_size.simps) simp
    then show ?thesis using True by (subst (1 2 3) encode_varint_loop.simps) (simp add: Let_def)
  next
    case False
    note ih = 1 [OF refl False]
    have sz: "pb_varint_size v = 1 + pb_varint_size (drop_bit 7 v)" using False by (subst pb_varint_size.simps) simp
    obtain enc where enc: "encode_varint_loop (pb_varint_size (drop_bit 7 v)) (drop_bit 7 v) = Some enc"
      "length enc = pb_varint_size (drop_bit 7 v)" using ih by blast
    have step: "encode_varint_loop n v = (if n = 0 then None
        else map_option ((#) (ucast (v AND 127) OR 128)) (encode_varint_loop (n - 1) (drop_bit 7 v)))" for n
      using False by (subst encode_varint_loop.simps) (simp add: Let_def)
    show ?thesis
    proof (intro conjI)
      show "encode_varint_loop room v = (if pb_varint_size v \<le> room then encode_varint_loop (pb_varint_size v) v else None)"
        using ih [of "room - 1", THEN conjunct1] enc(1) by (cases room) (simp_all add: step sz)
    qed (use enc in \<open>simp_all add: step sz\<close>)
  qed
qed

section \<open>Fields and messages\<close>

text \<open>What the encoders can write, and a message: the calls one after the other in one buffer.\<close>

datatype pb_field = PVarint u32 u64 | PBytes u32 "u8 list" | PFixed32 u32 u32

fun pb_tag :: "pb_field \<Rightarrow> u32" where
  "pb_tag (PVarint t _) = t" | "pb_tag (PBytes t _) = t" | "pb_tag (PFixed32 t _) = t"

fun pb_wire :: "pb_field \<Rightarrow> int" where
  "pb_wire (PVarint _ _) = PB_WIRE_VARINT"
| "pb_wire (PBytes _ _) = PB_WIRE_LENDELIM"
| "pb_wire (PFixed32 _ _) = PB_WIRE_FIXED32"

fun pb_write :: "nat \<Rightarrow> pb_field \<Rightarrow> u8 list option" where
  "pb_write room (PVarint t v) = pb_encode_varint_field room t v"
| "pb_write room (PBytes t bs) = pb_encode_delimited_field room t bs"
| "pb_write room (PFixed32 t v) = pb_encode_fixed32_field room t v"

fun pb_message :: "nat \<Rightarrow> pb_field list \<Rightarrow> u8 list option" where
  "pb_message room [] = Some []"
| "pb_message room (f # fs) = do { bs \<leftarrow> pb_write room f; ms \<leftarrow> pb_message (room - length bs) fs; Some (bs @ ms) }"

text \<open>The bytes a reader should be given for a field.\<close>

definition le32 :: "u32 \<Rightarrow> u8 list" where
  "le32 v = [ucast (v AND 0xFF), ucast (drop_bit 8 v AND 0xFF), ucast (drop_bit 16 v AND 0xFF), ucast (drop_bit 24 v)]"

fun pb_payload :: "pb_field \<Rightarrow> u8 list" where
  "pb_payload (PVarint t v) = the (encode_varint_loop (pb_varint_size v) v)"
| "pb_payload (PBytes t bs) = bs"
| "pb_payload (PFixed32 t v) = le32 v"

fun pb_small :: "pb_field \<Rightarrow> bool" where
  "pb_small (PBytes t bs) \<longleftrightarrow> length bs < 2 ^ 31"
| "pb_small _ \<longleftrightarrow> True"

lemma encode_varint_the: "pb_encode_varint room v = Some enc \<Longrightarrow> encode_varint_loop (pb_varint_size v) v = Some enc"
  using encode_varint_size [of room v] by (simp add: pb_encode_varint_def split: if_splits)

lemma tag_back:
  fixes t :: u32
  assumes "w \<in> {0, 1, 2, 5}"
  shows "ucast (drop_bit 3 (push_bit 3 (ucast t) OR word_of_int w :: u64)) = t"
    "uint ((push_bit 3 (ucast t) OR word_of_int w :: u64) AND 7) = w"
proof -
  have z: "drop_bit 3 (word_of_int w :: u64) = 0" "(word_of_int w :: u64) AND 7 = word_of_int w" "uint (word_of_int w :: u64) = w"
    using assms by auto
  have d: "drop_bit 3 (push_bit 3 (ucast t) OR word_of_int w :: u64) = ucast t"
    unfolding drop_bit_or z(1) by (rule bit_word_eqI) (auto simp: bit_simps dest: bit_imp_le_length)
  show "ucast (drop_bit 3 (push_bit 3 (ucast t) OR word_of_int w :: u64)) = t"
    unfolding d by (rule bit_word_eqI) (auto simp: bit_simps)
  have "push_bit 3 (ucast t) AND 7 = (0 :: u64)"
    unfolding masks by (rule bit_word_eqI) (auto simp: bit_simps)
  then show "uint ((push_bit 3 (ucast t) OR word_of_int w :: u64) AND 7) = w"
    by (simp only: bit.conj_disj_distrib2 z or.left_neutral)
qed

lemma parse_tag_back:
  assumes "pb_encode_tag room t w = Some enc" "w \<in> {0, 1, 2, 5}"
  shows "pb_parse_tag (enc @ rest) = Some (t, w, length enc)" "enc \<noteq> []" "length enc \<le> 10"
  using decode_encode_varint(1) [OF assms(1) [unfolded pb_encode_tag_def], of rest] tag_back [OF assms(2), of t]
    decode_encode_varint(2,3) [OF assms(1) [unfolded pb_encode_tag_def]]
  by (simp_all add: pb_parse_tag_def)

lemma c_int_small: "n < 2 ^ 31 \<Longrightarrow> c_int (of_nat n) = int n"
proof -
  assume n: "n < 2 ^ 31"
  then have "uint (ucast (of_nat n :: u64) :: 32 word) = int n"
    by (simp add: uint_word_of_int take_bit_eq_mod unsigned_ucast_eq unsigned_of_nat)
  then have "sint (ucast (of_nat n :: u64) :: 32 word) = int n"
    using n by (simp add: sint_uint signed_take_bit_int_eq_self)
  then show ?thesis by (simp add: c_int_def)
qed

text \<open>The shape of what is written: the tag, and a body that the readers recognise.\<close>

definition pb_shape :: "pb_field \<Rightarrow> u8 list \<Rightarrow> u8 list \<Rightarrow> u8 list \<Rightarrow> bool" where
  "pb_shape f bs t h \<longleftrightarrow> bs = t @ h @ pb_payload f \<and> t \<noteq> [] \<and> 0 < length h + length (pb_payload f)
     \<and> (\<forall>rest. pb_parse_tag (bs @ rest) = Some (pb_tag f, pb_wire f, length t)
          \<and> pb_skip_field (h @ pb_payload f @ rest) (pb_wire f) = int (length h + length (pb_payload f))
          \<and> (\<forall>pre. field_data (pre @ h @ pb_payload f @ rest) (length pre) (pb_wire f) =
               Some (length pre + length h, length (pb_payload f))))"

lemma pb_write_shape:
  assumes "pb_write room f = Some bs" "pb_small f" shows "\<exists>t h. pb_shape f bs t h"
proof (cases f)
  case (PVarint n v)
  obtain t enc where w: "pb_encode_tag room n PB_WIRE_VARINT = Some t"
    "pb_encode_varint (room - length t) v = Some enc" "bs = t @ enc"
    using assms(1) PVarint by (auto simp: pb_encode_varint_field_def split: Option.bind_splits)
  note tg = parse_tag_back [OF w(1), unfolded pb_wires, simplified]
  have "pb_shape f bs t []"
    using tg decode_encode_varint [OF w(2)]
    by (auto simp: pb_shape_def w(3) encode_varint_the [OF w(2)] pb_skip_field_def field_data_def pb_wires PVarint)
  then show ?thesis by blast
next
  case (PBytes n data)
  obtain t enc where w: "pb_encode_tag room n PB_WIRE_LENDELIM = Some t"
    "pb_encode_varint (room - length t) (of_nat (length data)) = Some enc" "bs = t @ enc @ data"
    using assms(1) PBytes by (auto simp: pb_encode_delimited_field_def split: Option.bind_splits if_splits)
  have l: "length data < 2 ^ 31" using assms(2) PBytes by simp
  have u: "unat (of_nat (length data) :: u64) = length data" using l by (simp add: unat_of_nat)
  note tg = parse_tag_back [OF w(1), unfolded pb_wires, simplified]
  have "pb_shape f bs t enc"
    using tg decode_encode_varint [OF w(2)] c_int_small [OF l] u
    by (auto simp: pb_shape_def w(3) pb_skip_field_def field_data_def pb_wires PBytes)
  then show ?thesis by blast
next
  case (PFixed32 n v)
  obtain t where w: "pb_encode_tag room n PB_WIRE_FIXED32 = Some t" "bs = t @ le32 v"
    using assms(1) PFixed32 by (auto simp: pb_encode_fixed32_field_def le32_def split: Option.bind_splits if_splits)
  note tg = parse_tag_back [OF w(1), unfolded pb_wires, simplified]
  have "pb_shape f bs t []"
    using tg by (auto simp: pb_shape_def w(2) pb_skip_field_def field_data_def pb_wires PFixed32 le32_def)
  then show ?thesis by blast
qed

lemma pb_encode_varint_room: "pb_encode_varint room v = Some enc \<Longrightarrow> length enc \<le> room"
  using encode_varint_size [of room v] by (auto simp: pb_encode_varint_def split: if_splits)

lemma pb_write_room: "pb_write room f = Some bs \<Longrightarrow> length bs \<le> room"
  by (cases f)
     (auto simp: pb_encode_varint_field_def pb_encode_delimited_field_def pb_encode_fixed32_field_def pb_encode_tag_def
       split: Option.bind_splits if_splits dest!: pb_encode_varint_room)

lemma pb_message_room: "pb_message room fs = Some ms \<Longrightarrow> length ms \<le> room"
proof (induction fs arbitrary: room ms)
  case (Cons f fs)
  obtain bs rest where w: "pb_write room f = Some bs" "pb_message (room - length bs) fs = Some rest" "ms = bs @ rest"
    using Cons(2) by (auto split: Option.bind_splits)
  show ?case using pb_write_room [OF w(1)] Cons(1) [OF w(2)] w(3) by simp
qed simp

text \<open>Scanning a message that starts after \<open>pre\<close>.\<close>

definition pb_first :: "pb_field list \<Rightarrow> u32 \<Rightarrow> int \<Rightarrow> u8 list option" where
  "pb_first fs tag wire = map_option pb_payload (find (\<lambda>f. pb_tag f = tag \<and> pb_wire f = wire) fs)"

lemma find_field_message:
  assumes "pb_message room fs = Some ms" "\<forall>f \<in> set fs. pb_small f"
  shows "case find_field_loop (pre @ ms) tag wire (length pre) of
      None \<Rightarrow> pb_first fs tag wire = None
    | Some (off, n) \<Rightarrow> off + n \<le> length (pre @ ms) \<and> pb_first fs tag wire = Some (take n (drop off (pre @ ms)))"
  using assms
proof (induction fs arbitrary: room ms pre)
  case Nil
  then show ?case by (subst find_field_loop.simps) (simp add: pb_first_def)
next
  case (Cons f fs)
  obtain bs rest where w: "pb_write room f = Some bs" "pb_message (room - length bs) fs = Some rest" "ms = bs @ rest"
    using Cons(2) by (auto split: Option.bind_splits)
  obtain t h where "pb_shape f bs t h" using pb_write_shape [OF w(1)] Cons(3) by auto
  then have sh: "bs = t @ h @ pb_payload f" "t \<noteq> []" "0 < length h + length (pb_payload f)"
    "pb_parse_tag (bs @ rest) = Some (pb_tag f, pb_wire f, length t)"
    "pb_skip_field (h @ pb_payload f @ rest) (pb_wire f) = int (length h + length (pb_payload f))"
    "field_data ((pre @ t) @ h @ pb_payload f @ rest) (length (pre @ t)) (pb_wire f) =
       Some (length (pre @ t) + length h, length (pb_payload f))"
    unfolding pb_shape_def by blast+
  have buf: "pre @ ms = (pre @ t) @ h @ pb_payload f @ rest" by (simp add: w(3) sh(1))
  have d1: "drop (length pre) (pre @ ms) = bs @ rest" by (simp add: w(3))
  have d2: "drop (length pre + length t) (pre @ ms) = h @ pb_payload f @ rest" unfolding buf by simp
  have lt: "length pre < length (pre @ ms)" using sh(1,2) w(3) by simp
  show ?case
  proof (cases "pb_tag f = tag \<and> pb_wire f = wire")
    case True
    then have "find_field_loop (pre @ ms) tag wire (length pre) = Some (length (pre @ t) + length h, length (pb_payload f))"
      using lt sh(6) d1 unfolding buf by (subst find_field_loop.simps) (simp add: sh(4) [unfolded sh(1), simplified])
    moreover have "take (length (pb_payload f)) (drop (length (pre @ t) + length h) (pre @ ms)) = pb_payload f"
      unfolding buf by simp
    ultimately show ?thesis using True by (simp add: pb_first_def buf)
  next
    case False
    have pos: "0 < int (length h + length (pb_payload f))" using sh(3) by linarith
    have "find_field_loop (pre @ ms) tag wire (length pre) =
        find_field_loop (pre @ ms) tag wire (length pre + length t + nat (int (length h + length (pb_payload f))))"
      by (subst find_field_loop.simps) (use lt d1 d2 sh(4,5) False pos in \<open>auto simp: Let_def not_le\<close>)
    also have "\<dots> = find_field_loop ((pre @ bs) @ rest) tag wire (length (pre @ bs))"
      by (simp add: w(3) sh(1) add.assoc nat_int_add)
    finally have e: "find_field_loop (pre @ ms) tag wire (length pre) = find_field_loop ((pre @ bs) @ rest) tag wire (length (pre @ bs))" .
    have p1: "pb_first (f # fs) tag wire = pb_first fs tag wire" using False by (auto simp: pb_first_def)
    have p2: "pre @ ms = (pre @ bs) @ rest" by (simp add: w(3))
    show ?thesis unfolding e unfolding p1 p2 by (rule Cons(1) [OF w(2)]) (use Cons(3) in simp)
  qed
qed


lemma pb_encode_10: "\<exists>enc. pb_encode_varint 10 v = Some enc"
proof -
  obtain enc where e: "encode_varint_loop (pb_varint_size v) v = Some enc" "length enc = pb_varint_size v"
    using encode_varint_size [of 0 v] by blast
  have "length enc \<le> 10" by (rule decode_encode_varint(2) [unfolded pb_encode_varint_def, OF e(1)])
  then show ?thesis using encode_varint_size [of 10 v] e by (simp add: pb_encode_varint_def)
qed

section \<open>Properties\<close>

text \<open>
  C29. A message is what the encoders write into one buffer, call after call, with blocks of less
  than 2 GB; it fits the buffer. For every tag and wire type \<open>pb_find_field\<close> reports a range inside
  the message that holds the data of the first field with that tag and type, past fields of any
  kind, and nothing when there is none; \<open>pb_read_varint\<close> reads back the value.
\<close>

theorem protobuf_roundtrip:
  assumes "pb_message room fs = Some ms" "\<forall>f \<in> set fs. pb_small f"
  shows "length ms \<le> room
    \<and> (case pb_find_field ms tag wire of
         None \<Rightarrow> pb_first fs tag wire = None
       | Some (off, n) \<Rightarrow> off + n \<le> length ms \<and> pb_first fs tag wire = Some (take n (drop off ms)))
    \<and> pb_read_varint ms tag =
        (case find (\<lambda>f. pb_tag f = tag \<and> pb_wire f = PB_WIRE_VARINT) fs of Some (PVarint _ v) \<Rightarrow> Some v | _ \<Rightarrow> None)"
proof -
  note ff = find_field_message [OF assms, where pre = "[]", unfolded append_Nil list.size]
  have rd: "pb_read_varint ms tag =
      (case find (\<lambda>f. pb_tag f = tag \<and> pb_wire f = PB_WIRE_VARINT) fs of Some (PVarint _ v) \<Rightarrow> Some v | _ \<Rightarrow> None)"
  proof (cases "pb_find_field ms tag PB_WIRE_VARINT")
    case None
    then have "pb_first fs tag PB_WIRE_VARINT = None" using ff [of tag PB_WIRE_VARINT] by (simp add: pb_find_field_def)
    then show ?thesis using None by (simp add: pb_read_varint_def pb_first_def)
  next
    case (Some on)
    obtain off n where on: "on = (off, n)" by (cases on)
    have fst: "pb_first fs tag PB_WIRE_VARINT = Some (take n (drop off ms))"
      using ff [of tag PB_WIRE_VARINT] Some on by (simp add: pb_find_field_def)
    then obtain f where f: "find (\<lambda>f. pb_tag f = tag \<and> pb_wire f = PB_WIRE_VARINT) fs = Some f"
      "pb_payload f = take n (drop off ms)" by (auto simp: pb_first_def)
    have "pb_wire f = PB_WIRE_VARINT" using f(1) by (auto simp: find_Some_iff)
    then obtain t v where v: "f = PVarint t v" by (cases f) (simp_all add: pb_wires)
    obtain enc where enc: "encode_varint_loop (pb_varint_size v) v = Some enc" using encode_varint_size [of 0 v] by blast
    have tk: "enc @ drop n (drop off ms) = drop off ms"
      using append_take_drop_id [of n "drop off ms"] f(2) v enc by simp
    have "pb_decode_varint (drop off ms) = Some (v, length enc)"
      using decode_encode_varint(1) [OF enc [folded pb_encode_varint_def], of "drop n (drop off ms)"] unfolding tk .
    then show ?thesis using Some on f(1) v by (simp add: pb_read_varint_def)
  qed
  show ?thesis
    by (intro conjI pb_message_room [OF assms(1)] rd) (unfold pb_find_field_def, rule ff)
qed

definition demo_message :: "u8 list" where
  "demo_message = [0x08, 0x96, 0x01, 0x12, 0x02, 0x68, 0x69, 0x1D, 0x01, 0x02, 0x00, 0x00]"

theorem protobuf_roundtrip_witness:
  "pb_message 12 [PVarint 1 150, PBytes 2 [0x68, 0x69], PFixed32 3 0x201] = Some demo_message
   \<and> pb_read_varint demo_message 1 = Some 150 \<and> pb_read_varint demo_message 2 = None"
proof -
  have m: "pb_message 12 [PVarint 1 150, PBytes 2 [0x68, 0x69], PFixed32 3 0x201] = Some demo_message"
    by code_simp
  show ?thesis
    using protobuf_roundtrip [OF m, of 1 0] protobuf_roundtrip [OF m, of 2 0] m by (simp add: pb_wires)
qed

text \<open>
  On input that no encoder wrote the reported range is not checked: whatever 64-bit length
  follows the tag of a length-delimited field is handed to the caller, and the last bytes of a
  fixed-width field need not be there.
\<close>

theorem find_field_unchecked_length:
  "\<exists>t n. pb_encode_tag 10 tag PB_WIRE_LENDELIM = Some t \<and> pb_encode_varint 10 len = Some n
     \<and> pb_read_delimited (t @ n) tag = Some (length (t @ n), unat len)
   \<and> (\<exists>t. pb_encode_tag 10 tag PB_WIRE_FIXED64 = Some t
     \<and> pb_find_field (t @ [b]) tag PB_WIRE_FIXED64 = Some (length t, 8))"
proof -
  obtain t n where t: "pb_encode_tag 10 tag PB_WIRE_LENDELIM = Some t" and n: "pb_encode_varint 10 len = Some n"
    using pb_encode_10 unfolding pb_encode_tag_def by metis
  obtain t' where t': "pb_encode_tag 10 tag PB_WIRE_FIXED64 = Some t'"
    using pb_encode_10 unfolding pb_encode_tag_def by metis
  note pt = parse_tag_back(1,2) [OF t, unfolded pb_wires, simplified] parse_tag_back(1,2) [OF t', unfolded pb_wires, simplified]
  have "pb_decode_varint n = Some (len, length n)" using decode_encode_varint(1) [OF n, of "[]"] by simp
  then have "pb_read_delimited (t @ n) tag = Some (length (t @ n), unat len)"
    using pt by (simp add: pb_read_delimited_def pb_find_field_def find_field_loop.simps [of "t @ n"] pb_wires field_data_def)
  moreover have "pb_find_field (t' @ [b]) tag PB_WIRE_FIXED64 = Some (length t', 8)"
    using pt by (simp add: pb_find_field_def find_field_loop.simps [of "t' @ [b]"] pb_wires field_data_def)
  ultimately show ?thesis using t n t' by blast
qed

end
