(* ===== verification/Csv.thy ===== *)
theory Csv
  imports Slermes_Prelude
begin

text \<open>
  \<^verbatim>\<open>lib/libcsv/csv.c\<close>: the CSV writer and reader. The file of a writer is the text written so far; the
  source of a reader, a file or a string, is the text still to be read. Fields are C strings; a
  NULL field is None. A pointer into a line is the rest of the line. The \<open>pos < cap - 1\<close> tests of
  the parser never fail, because a field is never longer than the line, and allocations succeed;
  opening and closing files has no counterpart.
\<close>

definition CSV_MAX_FIELDS :: nat where "CSV_MAX_FIELDS = 256"
definition CSV_MAX_LINE :: nat where "CSV_MAX_LINE = 65536"

abbreviation QUOTE :: char where "QUOTE \<equiv> CHR 0x22"
abbreviation LF :: char where "LF \<equiv> CHR 0x0A"
abbreviation CR :: char where "CR \<equiv> CHR 0x0D"

definition csv_blank :: "char \<Rightarrow> bool" where
  "csv_blank c \<longleftrightarrow> c = CHR '' '' \<or> c = CHR 0x09"

datatype csv_quote_mode = QUOTE_MINIMAL | QUOTE_ALL | QUOTE_NONNUMERIC | QUOTE_NONE

section \<open>Quoting\<close>

text \<open>What \<open>strtod\<close> reads to the end: white space, a sign, and a decimal or hexadecimal number with
  an optional exponent, an infinity or a NaN.\<close>

fun c_exponent :: "string \<Rightarrow> string \<Rightarrow> bool" where
  "c_exponent e [] \<longleftrightarrow> True"
| "c_exponent e (c # cs) \<longleftrightarrow> c_tolower c \<in> set e
     \<and> (let ds = (if cs \<noteq> [] \<and> (cs ! 0 = CHR ''+'' \<or> cs ! 0 = CHR ''-'') then drop 1 cs else cs)
        in ds \<noteq> [] \<and> list_all c_isdigit ds)"

definition c_mantissa :: "(char \<Rightarrow> bool) \<Rightarrow> string \<Rightarrow> string \<Rightarrow> bool" where
  "c_mantissa digit e s \<longleftrightarrow>
     (let a = takeWhile digit s; r = dropWhile digit s;
          b = (if r \<noteq> [] \<and> r ! 0 = CHR ''.'' then takeWhile digit (drop 1 r) else []);
          r = (if r \<noteq> [] \<and> r ! 0 = CHR ''.'' then dropWhile digit (drop 1 r) else r)
      in a @ b \<noteq> [] \<and> c_exponent e r)"

definition strtod_all :: "string \<Rightarrow> bool" where
  "strtod_all s \<longleftrightarrow>
     (let t = dropWhile c_isspace s;
          t = (if t \<noteq> [] \<and> (t ! 0 = CHR ''-'' \<or> t ! 0 = CHR ''+'') then drop 1 t else t);
          l = map c_tolower t
      in c_mantissa c_isdigit ''e'' t
         \<or> (take 2 l = ''0x'' \<and> c_mantissa (\<lambda>c. c_digit_val c < 16) ''p'' (drop 2 t))
         \<or> l = ''inf'' \<or> l = ''infinity'' \<or> l = ''nan''
         \<or> (take 4 l = ''nan('' \<and> length l > 4 \<and> last l = CHR '')''
            \<and> list_all (\<lambda>c. c_digit_val c < 36 \<or> c = CHR ''_'') (drop 4 (butlast l))))"

definition field_is_numeric :: "string \<Rightarrow> bool" where
  "field_is_numeric field \<longleftrightarrow> field \<noteq> [] \<and> strtod_all field"

definition csv_special :: "char \<Rightarrow> string \<Rightarrow> bool" where
  "csv_special delimiter field \<longleftrightarrow> list_ex (\<lambda>c. c = QUOTE \<or> c = delimiter \<or> c = LF \<or> c = CR) field"

fun double_quotes :: "string \<Rightarrow> string" where
  "double_quotes [] = []"
| "double_quotes (c # cs) = (if c = QUOTE then [QUOTE, c] else [c]) @ double_quotes cs"

definition csv_escape_field :: "string option \<Rightarrow> char \<Rightarrow> csv_quote_mode \<Rightarrow> string option" where
  "csv_escape_field field delimiter mode =
     (let field = (case field of None \<Rightarrow> [] | Some s \<Rightarrow> s);
          special = csv_special delimiter field;
          quoted = QUOTE # double_quotes field @ [QUOTE]
      in case mode of
           QUOTE_ALL \<Rightarrow> Some quoted
         | QUOTE_NONNUMERIC \<Rightarrow> Some (if \<not> field_is_numeric field then quoted else field)
         | QUOTE_NONE \<Rightarrow> if special then None else Some field
         | QUOTE_MINIMAL \<Rightarrow> Some (if special then quoted else field))"

section \<open>Writer\<close>

record csv_writer =
  cw_out :: string
  cw_delimiter :: char
  cw_quote_mode :: csv_quote_mode

definition csv_writer_open :: "char \<Rightarrow> csv_writer" where
  "csv_writer_open delimiter = \<lparr>cw_out = [], cw_delimiter = delimiter, cw_quote_mode = QUOTE_MINIMAL\<rparr>"

definition csv_writer_set_quote_mode :: "csv_writer \<Rightarrow> csv_quote_mode \<Rightarrow> csv_writer" where
  "csv_writer_set_quote_mode w mode = w\<lparr>cw_quote_mode := mode\<rparr>"

definition write_escaped_field :: "string option \<Rightarrow> char \<Rightarrow> csv_quote_mode \<Rightarrow> string" where
  "write_escaped_field field delimiter mode =
     (case csv_escape_field field delimiter mode of
        None \<Rightarrow> (case field of None \<Rightarrow> [] | Some s \<Rightarrow> s)
      | Some esc \<Rightarrow> esc)"

text \<open>The loop over the fields: the result, and the text it has written when it stops.\<close>

fun write_fields :: "char \<Rightarrow> csv_quote_mode \<Rightarrow> nat \<Rightarrow> string option list \<Rightarrow> bool \<times> string" where
  "write_fields delimiter mode i [] = (True, [])"
| "write_fields delimiter mode i (f # fs) =
     (let sep = (if i > 0 then [delimiter] else [])
      in if mode = QUOTE_NONE \<and> csv_escape_field f delimiter QUOTE_NONE = None then (False, sep)
         else let (ok, out) = write_fields delimiter mode (Suc i) fs
              in (ok, sep @ write_escaped_field f delimiter mode @ out))"

definition csv_writer_write_row :: "csv_writer \<Rightarrow> string option list \<Rightarrow> bool \<times> csv_writer" where
  "csv_writer_write_row w fs =
     (let (ok, out) = write_fields (cw_delimiter w) (cw_quote_mode w) 0 fs
      in if ok then (True, w\<lparr>cw_out := cw_out w @ out @ [LF]\<rparr>) else (False, w\<lparr>cw_out := cw_out w @ out\<rparr>))"

section \<open>Reader\<close>

record csv_reader =
  cr_data :: string
  cr_delimiter :: char
  cr_row_number :: nat

definition csv_reader_open :: "string \<Rightarrow> char \<Rightarrow> csv_reader" where
  "csv_reader_open data delimiter = \<lparr>cr_data = data, cr_delimiter = delimiter, cr_row_number = 0\<rparr>"

text \<open>The loop of \<open>read_line_string\<close> and of \<open>read_line_file\<close>: the line with its newline, and the rest
  of the source. \<open>room\<close> is what is left of the line buffer.\<close>

fun read_line_loop :: "nat \<Rightarrow> bool \<Rightarrow> string \<Rightarrow> string \<times> string" where
  "read_line_loop 0 in_quotes data = ([], data)"
| "read_line_loop (Suc room) in_quotes [] = ([], [])"
| "read_line_loop (Suc room) in_quotes (c # cs) =
     (if c = LF \<and> \<not> in_quotes then ([c], cs)
      else let (line, rest) = read_line_loop room (if c = QUOTE then \<not> in_quotes else in_quotes) cs
           in (c # line, rest))"

definition strip_eol :: "string \<Rightarrow> string" where
  "strip_eol line = rev (dropWhile (\<lambda>c. c = LF \<or> c = CR) (rev line))"

text \<open>None is the result false.\<close>

definition csv_read_next_line :: "csv_reader \<Rightarrow> string option \<times> csv_reader" where
  "csv_read_next_line r =
     (if cr_data r = [] then (None, r)
      else let (line, rest) = read_line_loop (CSV_MAX_LINE - 1) False (cr_data r);
               line = strip_eol line; r = r\<lparr>cr_data := rest\<rparr>
           in if line = [] then (None, r) else (Some line, r))"

text \<open>The inside of a quoted field: its text and what follows the closing quote.\<close>

fun quoted_field :: "string \<Rightarrow> string \<times> string" where
  "quoted_field [] = ([], [])"
| "quoted_field [c] = (if c = QUOTE then ([], []) else ([c], []))"
| "quoted_field (c # d # cs) =
     (if c = QUOTE then (if d = QUOTE then (let (buf, p) = quoted_field cs in (QUOTE # buf, p)) else ([], d # cs))
      else (let (buf, p) = quoted_field (d # cs) in (c # buf, p)))"

definition plain_char :: "char \<Rightarrow> char \<Rightarrow> bool" where
  "plain_char delimiter c \<longleftrightarrow> c \<noteq> delimiter \<and> c \<noteq> LF \<and> c \<noteq> CR"

text \<open>One turn of the loop of \<open>parse_csv_line\<close>: a field and what is left of the line.\<close>

definition parse_one :: "char \<Rightarrow> string \<Rightarrow> string \<times> string" where
  "parse_one delimiter p =
     (let (buf, p) = (if p \<noteq> [] \<and> p ! 0 = QUOTE
                      then let (buf, q) = quoted_field (drop 1 p) in (buf, dropWhile csv_blank q)
                      else (takeWhile (plain_char delimiter) p, dropWhile (plain_char delimiter) p))
      in (buf, if p \<noteq> [] \<and> p ! 0 = delimiter then dropWhile csv_blank (drop 1 p) else p))"

text \<open>The loop; \<open>room\<close> is \<open>CSV_MAX_FIELDS - count\<close>.\<close>

fun parse_fields :: "char \<Rightarrow> nat \<Rightarrow> string \<Rightarrow> string list" where
  "parse_fields delimiter 0 p = []"
| "parse_fields delimiter (Suc room) p =
     (if p = [] then [] else let (buf, p) = parse_one delimiter p in buf # parse_fields delimiter room p)"

definition parse_csv_line :: "string \<Rightarrow> char \<Rightarrow> string list" where
  "parse_csv_line line delimiter = parse_fields delimiter CSV_MAX_FIELDS line"

text \<open>The parser sees the line buffer as a C string.\<close>

definition csv_reader_read_row :: "csv_reader \<Rightarrow> string list option \<times> csv_reader" where
  "csv_reader_read_row r =
     (case csv_read_next_line r of
        (None, r) \<Rightarrow> (None, r)
      | (Some line, r) \<Rightarrow>
          (Some (parse_csv_line (c_str line) (cr_delimiter r)), r\<lparr>cr_row_number := cr_row_number r + 1\<rparr>))"

section \<open>String helpers\<close>

definition csv_escape :: "string option \<Rightarrow> char \<Rightarrow> string" where
  "csv_escape field delimiter =
     (case field of
        None \<Rightarrow> []
      | Some f \<Rightarrow> if csv_special delimiter f then QUOTE # double_quotes f @ [QUOTE] else f)"

definition csv_unescape :: "string option \<Rightarrow> char \<Rightarrow> string" where
  "csv_unescape field delimiter =
     (case field of
        None \<Rightarrow> []
      | Some f \<Rightarrow> if f = [] \<or> f ! 0 \<noteq> QUOTE then f
                  else if length f < 2 then f
                  else fst (quoted_field (drop 1 f)))"

definition csv_parse_line :: "string \<Rightarrow> char \<Rightarrow> string list" where
  "csv_parse_line line delimiter = parse_csv_line line delimiter"

end
