(* ===== verification/Csv_Correct.thy ===== *)
theory Csv_Correct
  imports Csv
begin

text \<open>
  Correctness of \<^verbatim>\<open>lib/libcsv/csv.c\<close>: the text of a field is parsed back to the field, a row of such
  texts to its fields, and a line with balanced quotes is read up to its own newline; so a written
  row reads back. The conditions the default mode needs are not met by every row.
\<close>

section \<open>One field\<close>

text \<open>A delimiter that is neither a quote, an end of line nor a blank.\<close>

definition good_delim :: "char \<Rightarrow> bool" where
  "good_delim d \<longleftrightarrow> d \<noteq> QUOTE \<and> d \<noteq> LF \<and> d \<noteq> CR \<and> \<not> csv_blank d \<and> d \<noteq> CHR 0x00"

lemma double_quotes_append: "double_quotes (xs @ ys) = double_quotes xs @ double_quotes ys"
  by (induction xs) auto

lemma quoted_field_back:
  "q = [] \<or> q ! 0 \<noteq> QUOTE \<Longrightarrow> quoted_field (double_quotes f @ QUOTE # q) = (f, q)"
proof (induction f)
  case Nil
  then show ?case by (cases q) auto
next
  case (Cons c cs)
  show ?case
  proof (cases "c = QUOTE")
    case True
    then show ?thesis using Cons by simp
  next
    case False
    obtain d ds where "double_quotes cs @ QUOTE # q = d # ds" by (cases "double_quotes cs @ QUOTE # q") auto
    then show ?thesis using Cons False by simp
  qed
qed

text \<open>A field as it stands in a row: quoted, or raw without special characters.\<close>

definition field_text :: "char \<Rightarrow> string \<Rightarrow> string \<Rightarrow> bool" where
  "field_text d f t \<longleftrightarrow> t = QUOTE # double_quotes f @ [QUOTE] \<or> t = f \<and> \<not> csv_special d f"

lemma parse_one_quoted:
  assumes "good_delim d"
  shows "parse_one d (QUOTE # double_quotes f @ [QUOTE]) = (f, [])"
    "parse_one d (QUOTE # double_quotes f @ QUOTE # d # p) = (f, dropWhile csv_blank p)"
  using assms quoted_field_back [of "[]" f] quoted_field_back [of "d # p" f]
  by (simp_all add: parse_one_def good_delim_def)

lemma plain_raw: "\<not> csv_special d f \<Longrightarrow> \<forall>c \<in> set f. plain_char d c \<and> c \<noteq> QUOTE"
  by (auto simp: csv_special_def plain_char_def list_ex_iff)

lemma parse_one_raw:
  assumes "good_delim d" "\<not> csv_special d f"
  shows "parse_one d f = (f, [])" "parse_one d (f @ d # p) = (f, dropWhile csv_blank p)"
proof -
  note pl = plain_raw [OF assms(2)]
  have nd: "\<not> plain_char d d" by (simp add: plain_char_def)
  have tw: "takeWhile (plain_char d) f = f" "dropWhile (plain_char d) f = []"
    "takeWhile (plain_char d) (f @ d # p) = f" "dropWhile (plain_char d) (f @ d # p) = d # p"
    using pl nd by simp_all
  have q: "\<not> (f \<noteq> [] \<and> f ! 0 = QUOTE)" using pl by (cases f) auto
  show "parse_one d f = (f, [])" using q tw(1,2) by (auto simp: parse_one_def)
  have "(f @ d # p) ! 0 \<noteq> QUOTE" using pl assms(1) by (cases f) (auto simp: good_delim_def)
  then show "parse_one d (f @ d # p) = (f, dropWhile csv_blank p)"
    using tw(3,4) by (simp add: parse_one_def)
qed

lemma parse_one_text:
  assumes "good_delim d" "field_text d f t"
  shows "parse_one d t = (f, [])" "parse_one d (t @ d # p) = (f, dropWhile csv_blank p)"
  using assms parse_one_quoted [OF assms(1), of f] parse_one_raw [OF assms(1), of f] by (auto simp: field_text_def)

section \<open>One row\<close>

text \<open>A row: the texts of its fields. A raw field that is not the first must not start with a blank,
  and a raw last field must not be empty.\<close>

fun join_row :: "char \<Rightarrow> string list \<Rightarrow> string" where
  "join_row d [] = []"
| "join_row d [t] = t"
| "join_row d (t # ts) = t @ d # join_row d ts"

lemma parse_fields_Nil [simp]: "parse_fields d room [] = []"
  by (cases room) simp_all

lemma join_row_start:
  assumes "good_delim d" "t = [] \<or> \<not> csv_blank (t ! 0)" "last (t # ts) \<noteq> []"
  shows "dropWhile csv_blank (join_row d (t # ts)) = join_row d (t # ts) \<and> join_row d (t # ts) \<noteq> []"
  using assms by (cases ts; cases t) (auto simp: good_delim_def)

lemma parse_fields_back:
  assumes "good_delim d"
  shows "list_all2 (field_text d) fs ts \<Longrightarrow> ts \<noteq> [] \<Longrightarrow> length ts \<le> room
    \<Longrightarrow> \<forall>t \<in> set (tl ts). t = [] \<or> \<not> csv_blank (t ! 0) \<Longrightarrow> last ts \<noteq> [] \<Longrightarrow> parse_fields d room (join_row d ts) = fs"
proof (induction ts arbitrary: fs room rule: induct_list012)
  case (2 t)
  then obtain f where f: "fs = [f]" "field_text d f t" by (auto simp: list_all2_Cons2)
  obtain r where "room = Suc r" using 2 by (cases room) auto
  then show ?case using f 2 parse_one_text(1) [OF assms f(2)] by simp
next
  case (3 t t' ts)
  obtain f fs' where f: "fs = f # fs'" "field_text d f t" "list_all2 (field_text d) fs' (t' # ts)"
    using 3(3) by (auto simp: list_all2_Cons2)
  obtain r where r: "room = Suc r" "length (t' # ts) \<le> r" using 3(5) by (cases room) auto
  have st: "dropWhile csv_blank (join_row d (t' # ts)) = join_row d (t' # ts) \<and> join_row d (t' # ts) \<noteq> []"
    by (rule join_row_start [OF assms]) (use 3(6,7) in auto)
  have "parse_fields d r (join_row d (t' # ts)) = fs'"
    by (rule 3(2) [OF f(3) _ r(2)]) (use 3(6,7) in auto)
  moreover have "parse_one d (join_row d (t # t' # ts)) = (f, join_row d (t' # ts))"
    using parse_one_text(2) [OF assms f(2), of "join_row d (t' # ts)"] st by simp
  ultimately show ?case using f(1) r(1) by simp
qed simp

text \<open>A line is read as far as its newline, whatever its quoted fields contain.\<close>

fun balanced :: "bool \<Rightarrow> string \<Rightarrow> bool option" where
  "balanced q [] = Some q"
| "balanced q (c # cs) = (if c = LF \<and> \<not> q then None else balanced (if c = QUOTE then \<not> q else q) cs)"

lemma balanced_append: "balanced q (xs @ ys) = (case balanced q xs of None \<Rightarrow> None | Some q' \<Rightarrow> balanced q' ys)"
  by (induction q xs rule: balanced.induct) auto

lemma balanced_raw: "\<forall>c \<in> set f. c \<noteq> QUOTE \<and> c \<noteq> LF \<Longrightarrow> balanced False f = Some False"
  by (induction f) auto

lemma balanced_doubled: "balanced True (double_quotes f) = Some True"
  by (induction f) auto

lemma balanced_text: "good_delim d \<Longrightarrow> field_text d f t \<Longrightarrow> balanced False t = Some False"
  using plain_raw [of d f] balanced_raw [of f]
  by (auto simp: field_text_def balanced_append balanced_doubled plain_char_def)

lemma balanced_row: "good_delim d \<Longrightarrow> list_all2 (field_text d) fs ts \<Longrightarrow> balanced False (join_row d ts) = Some False"
proof (induction ts arbitrary: fs rule: induct_list012)
  case (3 t t' ts)
  obtain f fs' where f: "field_text d f t" "list_all2 (field_text d) fs' (t' # ts)" using 3(4) by (auto simp: list_all2_Cons2)
  show ?case using 3(2) [OF 3(3) f(2)] balanced_text [OF 3(3) f(1)] 3(3)
    by (simp add: balanced_append good_delim_def)
qed (auto simp: list_all2_Cons2 balanced_text)

lemma read_line_back:
  "balanced q line = Some False \<Longrightarrow> length line < room \<Longrightarrow> read_line_loop room q (line @ LF # rest) = (line @ [LF], rest)"
proof (induction line arbitrary: q room)
  case Nil
  then show ?case by (cases room) auto
next
  case (Cons c cs)
  obtain r where "room = Suc r" using Cons(3) by (cases room) auto
  then show ?case using Cons by (auto split: if_splits)
qed

lemma strip_eol_row: "line \<noteq> [] \<Longrightarrow> last line \<noteq> LF \<Longrightarrow> last line \<noteq> CR \<Longrightarrow> strip_eol (line @ [LF]) = line"
proof -
  assume a: "line \<noteq> []" "last line \<noteq> LF" "last line \<noteq> CR"
  obtain xs x where x: "line = xs @ [x]" using a(1) by (cases line rule: rev_cases) auto
  then show ?thesis using a(2,3) by (simp add: strip_eol_def)
qed

lemma last_text: "field_text d f t \<Longrightarrow> t \<noteq> [] \<Longrightarrow> last t \<noteq> LF \<and> last t \<noteq> CR"
proof -
  assume a: "field_text d f t" "t \<noteq> []"
  show ?thesis
  proof (cases "t = QUOTE # double_quotes f @ [QUOTE]")
    case False
    then have "t = f" "\<not> csv_special d f" using a(1) by (auto simp: field_text_def)
    then have "plain_char d (last t)" using plain_raw [of d f] last_in_set [OF a(2)] by auto
    then show ?thesis by (simp add: plain_char_def)
  qed simp
qed

lemma last_row: "ts \<noteq> [] \<Longrightarrow> last ts \<noteq> [] \<Longrightarrow> last (join_row d ts) = last (last ts) \<and> join_row d ts \<noteq> []"
  by (induction ts rule: induct_list012) auto

section \<open>Writing\<close>

lemma write_fields_join:
  "mode \<noteq> QUOTE_NONE \<Longrightarrow> write_fields d mode i (map Some fs) =
     (True, (if i > 0 \<and> fs \<noteq> [] then [d] else []) @ join_row d (map (\<lambda>f. write_escaped_field (Some f) d mode) fs))"
proof (induction fs arbitrary: i rule: induct_list012)
  case (3 f f' fs)
  show ?case using 3(2) [of "Suc i"] 3(3) by simp
qed simp_all

lemma write_escaped_text:
  "mode \<noteq> QUOTE_NONE \<Longrightarrow> (mode = QUOTE_NONNUMERIC \<longrightarrow> field_is_numeric f \<longrightarrow> \<not> csv_special d f)
   \<Longrightarrow> field_text d f (write_escaped_field (Some f) d mode)"
  by (cases mode) (auto simp: write_escaped_field_def csv_escape_field_def field_text_def Let_def)

text \<open>Reading a row that stands in the source.\<close>

lemma csv_read_row_text:
  assumes d: "good_delim d" and ts: "list_all2 (field_text d) fs ts" "ts \<noteq> []" "length ts \<le> 256"
    "\<forall>t \<in> set (tl ts). t = [] \<or> \<not> csv_blank (t ! 0)" "last ts \<noteq> []"
    and nul: "CHR 0x00 \<notin> set (join_row d ts)" and len: "length (join_row d ts) < 65535"
  shows "csv_reader_read_row \<lparr>cr_data = join_row d ts @ LF # rest, cr_delimiter = d, cr_row_number = n\<rparr> =
     (Some fs, \<lparr>cr_data = rest, cr_delimiter = d, cr_row_number = n + 1\<rparr>)"
proof -
  let ?line = "join_row d ts"
  have l: "last ?line = last (last ts)" "?line \<noteq> []" using last_row [OF ts(2,5)] by auto
  have tl: "length fs = length ts" by (rule list_all2_lengthD [OF ts(1)])
  have "field_text d (fs ! (length ts - 1)) (last ts)"
    using list_all2_nthD2 [OF ts(1), of "length ts - 1"] ts(2) by (simp add: last_conv_nth)
  then have e: "last ?line \<noteq> LF" "last ?line \<noteq> CR" using last_text ts(5) l(1) by auto
  have r: "read_line_loop 65535 False (?line @ LF # rest) = (?line @ [LF], rest)"
    by (rule read_line_back [OF balanced_row [OF d ts(1)] len])
  have c: "c_str ?line = ?line" using nul unfolding c_str_def takeWhile_eq_all_conv by metis
  have p: "parse_csv_line ?line d = fs"
    unfolding parse_csv_line_def by (rule parse_fields_back [OF d ts(1,2)]) (use ts in \<open>simp_all add: CSV_MAX_FIELDS_def\<close>)
  show ?thesis
    using r strip_eol_row [OF l(2) e] l(2) c p
    by (simp add: csv_reader_read_row_def csv_read_next_line_def CSV_MAX_LINE_def)
qed

lemma nul_join:
  "d \<noteq> CHR 0x00 \<Longrightarrow> \<forall>t \<in> set ts. CHR 0x00 \<notin> set t \<Longrightarrow> CHR 0x00 \<notin> set (join_row d ts)"
  by (induction ts rule: induct_list012) auto

lemma nul_text: "field_text d f t \<Longrightarrow> CHR 0x00 \<notin> set f \<Longrightarrow> CHR 0x00 \<notin> set t"
proof -
  assume a: "field_text d f t" "CHR 0x00 \<notin> set f"
  have "set (double_quotes f) = set f" by (induction f) auto
  then show ?thesis using a by (auto simp: field_text_def)
qed

text \<open>The texts the writer puts into a row.\<close>

definition row_texts :: "char \<Rightarrow> csv_quote_mode \<Rightarrow> string list \<Rightarrow> string list" where
  "row_texts d mode fs = map (\<lambda>f. write_escaped_field (Some f) d mode) fs"

text \<open>The string helpers undo each other.\<close>

lemma csv_unescape_escape: "csv_unescape (Some (csv_escape (Some f) d)) d = f"
  using quoted_field_back [of "[]" f] plain_raw [of d f]
  by (cases f) (auto simp: csv_escape_def csv_unescape_def)

text \<open>A carriage return in an unquoted field stops the parser where it stands: it fills the row with
  empty fields.\<close>

lemma parse_fields_stuck: "d \<noteq> CR \<Longrightarrow> parse_fields d room (CR # p) = replicate room []"
  by (induction room) (simp_all add: parse_one_def plain_char_def)

section \<open>Properties\<close>

text \<open>C34. A written row reads back as the fields it was written from, and the rest of the source is left
  for the next call; quotes, delimiters and line ends inside fields are no exception. The
  conditions: the delimiter is neither a blank nor a tab (\<open>good_delim\<close>; after either
  the reader skips blanks, so a tab-separated row loses its empty fields, see
  \<open>csv_tab_loses_empty\<close>), nor a quote, a line end or NUL; the mode is not
  \<open>QUOTE_NONE\<close>; the row has between 1 and 256 fields without NUL, and its text has
  fewer than 65535 bytes; in the mode \<open>QUOTE_NONNUMERIC\<close> no field that
  \<open>strtod\<close> accepts holds a special character; and unless every field is quoted
  (\<open>QUOTE_ALL\<close>), the text of the last field is not empty and no text but the first
  starts with a blank.\<close>

theorem csv_row_roundtrip:
  assumes d: "good_delim (cw_delimiter w)" and mode: "cw_quote_mode w \<noteq> QUOTE_NONE"
    and fs: "fs \<noteq> []" "length fs \<le> CSV_MAX_FIELDS" "\<forall>f \<in> set fs. CHR 0x00 \<notin> set f"
      "\<forall>f \<in> set fs. cw_quote_mode w = QUOTE_NONNUMERIC \<longrightarrow> field_is_numeric f \<longrightarrow> \<not> csv_special (cw_delimiter w) f"
    and raw: "cw_quote_mode w = QUOTE_ALL \<or> last (row_texts (cw_delimiter w) (cw_quote_mode w) fs) \<noteq> []
      \<and> (\<forall>t \<in> set (tl (row_texts (cw_delimiter w) (cw_quote_mode w) fs)). t = [] \<or> \<not> csv_blank (t ! 0))"
    and len: "length (join_row (cw_delimiter w) (row_texts (cw_delimiter w) (cw_quote_mode w) fs)) < CSV_MAX_LINE - 1"
  shows "\<exists>row. csv_writer_write_row w (map Some fs) = (True, w\<lparr>cw_out := cw_out w @ row\<rparr>)
     \<and> (\<forall>rest n. csv_reader_read_row \<lparr>cr_data = row @ rest, cr_delimiter = cw_delimiter w, cr_row_number = n\<rparr> =
          (Some fs, \<lparr>cr_data = rest, cr_delimiter = cw_delimiter w, cr_row_number = n + 1\<rparr>))"
proof -
  let ?d = "cw_delimiter w" and ?m = "cw_quote_mode w"
  let ?ts = "row_texts ?d ?m fs"
  have w: "csv_writer_write_row w (map Some fs) = (True, w\<lparr>cw_out := cw_out w @ (join_row ?d ?ts @ [LF])\<rparr>)"
    using write_fields_join [OF mode, of ?d 0 fs] by (simp add: csv_writer_write_row_def row_texts_def)
  have tx: "field_text ?d f (write_escaped_field (Some f) ?d ?m)" if "f \<in> set fs" for f
    using write_escaped_text [OF mode, of f ?d] fs(4) that by blast
  then have all: "list_all2 (field_text ?d) fs ?ts"
    by (simp add: row_texts_def list_all2_map2 list_all2_same)
  have ne: "?ts \<noteq> []" "length ?ts \<le> 256" using fs(1,2) by (simp_all add: row_texts_def CSV_MAX_FIELDS_def)
  have quoted: "\<exists>r. t = QUOTE # r" if "?m = QUOTE_ALL" "t \<in> set ?ts" for t
    using that by (auto simp: row_texts_def write_escaped_field_def csv_escape_field_def Let_def)
  have 1: "last ?ts \<noteq> []" using raw quoted [of "last ?ts"] last_in_set [OF ne(1)] by auto
  have 2: "\<forall>t \<in> set (tl ?ts). t = [] \<or> \<not> csv_blank (t ! 0)"
    using raw quoted list.set_sel(2) [OF ne(1)] by (fastforce simp: csv_blank_def)
  have "CHR 0x00 \<notin> set (write_escaped_field (Some f) ?d ?m)" if "f \<in> set fs" for f
    using nul_text [OF tx [OF that]] fs(3) that by blast
  then have "\<forall>t \<in> set ?ts. CHR 0x00 \<notin> set t" by (simp add: row_texts_def)
  then have nul: "CHR 0x00 \<notin> set (join_row ?d ?ts)" using d by (intro nul_join) (simp_all add: good_delim_def)
  have len': "length (join_row ?d ?ts) < 65535" using len by (simp add: CSV_MAX_LINE_def)
  show ?thesis
    using w csv_read_row_text [OF d all ne 2 1 nul len'] by (intro exI [of _ "join_row ?d ?ts @ [LF]"]) simp
qed

definition demo_row :: "string list" where
  "demo_row = [''a'', ''b,'' @ [QUOTE, LF], [], ''d'']"

theorem csv_row_roundtrip_witness:
  "\<exists>row. csv_writer_write_row (csv_writer_open (CHR '','')) (map Some demo_row) =
       (True, (csv_writer_open (CHR '',''))\<lparr>cw_out := row\<rparr>)
     \<and> fst (csv_reader_read_row (csv_reader_open (row @ ''x'') (CHR '',''))) = Some demo_row"
proof -
  let ?w = "csv_writer_open (CHR '','')"
  have w: "cw_delimiter ?w = CHR '',''" "cw_quote_mode ?w = QUOTE_MINIMAL" "cw_out ?w = []"
    by (simp_all add: csv_writer_open_def)
  have t: "row_texts (CHR '','') QUOTE_MINIMAL demo_row = [''a'', [QUOTE] @ ''b,'' @ [QUOTE, QUOTE, LF, QUOTE], [], ''d'']"
    by (simp add: row_texts_def demo_row_def write_escaped_field_def csv_escape_field_def csv_special_def)
  have "\<exists>row. csv_writer_write_row ?w (map Some demo_row) = (True, ?w\<lparr>cw_out := cw_out ?w @ row\<rparr>)
     \<and> (\<forall>rest n. csv_reader_read_row \<lparr>cr_data = row @ rest, cr_delimiter = cw_delimiter ?w, cr_row_number = n\<rparr> =
          (Some demo_row, \<lparr>cr_data = rest, cr_delimiter = cw_delimiter ?w, cr_row_number = n + 1\<rparr>))"
    by (rule csv_row_roundtrip)
       (simp_all add: w t good_delim_def csv_blank_def CSV_MAX_FIELDS_def CSV_MAX_LINE_def, simp_all add: demo_row_def)
  then show ?thesis by (auto simp: w csv_reader_open_def)
qed

text \<open>
  What the default mode loses. A row of one empty field is a blank line, which the reader
  reports as the end of the file although rows follow; an empty last field disappears, and a
  blank at the start of a later field is gone.
\<close>

theorem csv_default_mode_loses:
  assumes "good_delim d" "\<not> csv_special d f" "f \<noteq> []" "\<not> csv_blank (f ! 0)" "CHR 0x00 \<notin> set f"
    "length f < 1000" "csv_blank b"
  shows "snd (csv_writer_write_row (csv_writer_open d) [Some []]) = (csv_writer_open d)\<lparr>cw_out := [LF]\<rparr>
   \<and> fst (csv_reader_read_row (csv_reader_open (LF # rest) d)) = None
   \<and> snd (csv_writer_write_row (csv_writer_open d) [Some f, Some []]) = (csv_writer_open d)\<lparr>cw_out := f @ [d, LF]\<rparr>
   \<and> fst (csv_reader_read_row (csv_reader_open (f @ d # LF # rest) d)) = Some [f]
   \<and> snd (csv_writer_write_row (csv_writer_open d) [Some f, Some (b # f)]) = (csv_writer_open d)\<lparr>cw_out := f @ d # b # f @ [LF]\<rparr>
   \<and> fst (csv_reader_read_row (csv_reader_open (f @ d # b # f @ LF # rest) d)) = Some [f, f]"
proof -
  have b: "b \<noteq> QUOTE" "b \<noteq> LF" "b \<noteq> CR" "b \<noteq> d" "b \<noteq> CHR 0x00" using assms(1,7) by (auto simp: csv_blank_def good_delim_def)
  have sp: "\<not> csv_special d []" "\<not> csv_special d (b # f)" using assms(2) b by (simp_all add: csv_special_def)
  have row: "csv_writer_write_row (csv_writer_open d) (map Some fs) = (True, (csv_writer_open d)\<lparr>cw_out := join_row d fs @ [LF]\<rparr>)"
    if "\<forall>g \<in> set fs. \<not> csv_special d g" for fs
  proof -
    have "map (\<lambda>f. write_escaped_field (Some f) d QUOTE_MINIMAL) fs = fs"
      using that by (intro map_idI) (simp add: write_escaped_field_def csv_escape_field_def)
    then show ?thesis
      using write_fields_join [of QUOTE_MINIMAL d 0 fs] by (simp add: csv_writer_write_row_def csv_writer_open_def)
  qed
  have raw: "\<forall>c \<in> set f. plain_char d c \<and> c \<noteq> QUOTE" by (rule plain_raw [OF assms(2)])
  have read: "fst (csv_reader_read_row (csv_reader_open (line @ LF # rest) d)) = Some (parse_fields d 256 line)"
    if l: "line \<noteq> []" "last line \<noteq> LF" "last line \<noteq> CR" "balanced False line = Some False" "length line < 65535"
      "CHR 0x00 \<notin> set line" for line
  proof -
    have c: "c_str line = line" using l(6) unfolding c_str_def takeWhile_eq_all_conv by metis
    show ?thesis
      using read_line_back [OF l(4,5), of rest] strip_eol_row [OF l(1,2,3)] l(1) c
      by (simp add: csv_reader_read_row_def csv_read_next_line_def CSV_MAX_LINE_def csv_reader_open_def
          parse_csv_line_def CSV_MAX_FIELDS_def)
  qed
  have bal: "balanced False f = Some False" using raw by (intro balanced_raw) (auto simp: plain_char_def)
  have dd: "d \<noteq> QUOTE" "d \<noteq> LF" "d \<noteq> CR" "d \<noteq> CHR 0x00" using assms(1) by (auto simp: good_delim_def)
  have lf: "last f \<noteq> LF" "last f \<noteq> CR" using raw last_in_set [OF assms(3)] by (auto simp: plain_char_def)
  have f0: "\<exists>c cs. f = c # cs \<and> \<not> csv_blank c" using assms(3,4) by (cases f) auto
  have p1: "parse_one d (f @ [d]) = (f, [])" "parse_one d (f @ d # b # f) = (f, f)" "parse_one d f = (f, [])"
    using parse_one_raw(1) [OF assms(1,2)] parse_one_raw(2) [OF assms(1,2), of "[]"]
      parse_one_raw(2) [OF assms(1,2), of "b # f"] f0 assms(7) by auto
  have "fst (csv_reader_read_row (csv_reader_open ((f @ [d]) @ LF # rest) d)) = Some (parse_fields d 256 (f @ [d]))"
    by (rule read) (use bal dd assms(5,6) in \<open>simp_all add: balanced_append\<close>)
  moreover have "fst (csv_reader_read_row (csv_reader_open ((f @ d # b # f) @ LF # rest) d)) = Some (parse_fields d 256 (f @ d # b # f))"
    by (rule read) (use bal dd b lf assms(3,5,6) in \<open>simp_all add: balanced_append\<close>)
  moreover have "parse_fields d 256 (f @ [d]) = [f]" "parse_fields d 256 (f @ d # b # f) = [f, f]"
    using p1 assms(3) by (simp_all add: numeral_eq_Suc)
  moreover have "fst (csv_reader_read_row (csv_reader_open (LF # rest) d)) = None"
    using read_line_back [of False "[]" 65535 rest]
    by (simp add: csv_reader_read_row_def csv_read_next_line_def csv_reader_open_def CSV_MAX_LINE_def strip_eol_def)
  ultimately show ?thesis
    using row [of "[[]]"] row [of "[f, []]"] row [of "[f, b # f]"] sp assms(2) by simp
qed

theorem csv_default_mode_loses_witness:
  "fst (csv_reader_read_row (csv_reader_open ([LF] @ ''a,b'') (CHR '',''))) = None
   \<and> fst (csv_reader_read_row (csv_reader_open (''a,'' @ [LF]) (CHR '',''))) = Some [''a'']"
  using csv_default_mode_loses [of "CHR '',''" "''a''" "CHR '' ''" "''a,b''"]
    csv_default_mode_loses [of "CHR '',''" "''a''" "CHR '' ''" "[]"]
  by (simp add: good_delim_def csv_special_def csv_blank_def)

text \<open>With TAB as the delimiter, which the interface documents, the blanks skipped after a delimiter
  include the next delimiter: an empty field between two others is gone.\<close>

lemma csv_tab_loses_empty:
  "snd (csv_writer_write_row (csv_writer_open (CHR 0x09)) [Some ''a'', Some [], Some ''b'']) =
     (csv_writer_open (CHR 0x09))\<lparr>cw_out := [CHR ''a'', CHR 0x09, CHR 0x09, CHR ''b'', LF]\<rparr>"
  "parse_csv_line [CHR ''a'', CHR 0x09, CHR 0x09, CHR ''b''] (CHR 0x09) = [''a'', ''b'']"
  by code_simp+

end
