(* ===== verification/Difflib.thy ===== *)
theory Difflib
  imports Complex_Main Slermes_Prelude "HOL-Library.Product_Lexorder"
begin

text \<open>
  \<^verbatim>\<open>lib/libdifflib/difflib.c\<close>: similarity ratios and diffs of texts. A \<open>char *\<close> that may be NULL is an
  optional string, an array of strings is a list, and the cursors are natural numbers; the allocations
  succeed and texts are shorter than \<open>2 ^ 31\<close> bytes, so that the cursors fit an \<open>int\<close>. The number of
  context lines is any \<open>int\<close>: the two computations with it that can overflow (undefined behaviour)
  have the value None, and so has the diff. The quotients of the
  ratios, which the code computes in double precision, are exact rationals here: comparing two of them
  gives the same answer as long as the product of their denominators stays below \<open>2 ^ 53\<close>. The two
  copies of a loop for characters and for lines are one polymorphic definition.
\<close>

section \<open>Lines\<close>

definition MAX_LINES :: nat where "MAX_LINES = 2048"

text \<open>The \<open>strtok_r\<close> loop: separators are skipped first, so a token is never empty.\<close>

primrec split_loop :: "nat \<Rightarrow> string \<Rightarrow> string list" where
  "split_loop 0 s = []"
| "split_loop (Suc k) s =
     (let t = dropWhile (\<lambda>c. c = CHR 0x0A) s
      in if t = [] then []
         else takeWhile (\<lambda>c. c \<noteq> CHR 0x0A) t # split_loop k (dropWhile (\<lambda>c. c \<noteq> CHR 0x0A) t))"

definition split_lines :: "string option \<Rightarrow> nat \<Rightarrow> string list" where
  "split_lines text max_n = (case text of None \<Rightarrow> [] | Some t \<Rightarrow> if t = [] then [] else split_loop max_n t)"

section \<open>Longest common subsequence in two rows\<close>

definition LCS_MAX :: nat where "LCS_MAX = 256"

definition lcs_cell :: "'a \<Rightarrow> 'a list \<Rightarrow> nat list \<Rightarrow> nat \<Rightarrow> nat list \<Rightarrow> nat list" where
  "lcs_cell x b prev j cur =
     cur[j + 1 := (if x = b ! j then prev ! j + 1
                    else if prev ! (j + 1) > cur ! j then prev ! (j + 1) else cur ! j)]"

definition lcs_row :: "'a list \<Rightarrow> 'a list \<Rightarrow> nat \<Rightarrow> nat \<Rightarrow> nat list \<times> nat list \<Rightarrow> nat list \<times> nat list" where
  "lcs_row a b n i rows =
     (case rows of (prev, cur) \<Rightarrow> (fold (lcs_cell (a ! i) b prev) [0..<n] cur, prev))"

definition lcs_rows :: "'a list \<Rightarrow> 'a list \<Rightarrow> nat" where
  "lcs_rows a b =
     (let m = (if length a > LCS_MAX then LCS_MAX else length a);
          n = (if length b > LCS_MAX then LCS_MAX else length b)
      in fst (fold (lcs_row a b n) [0..<m] (replicate (n + 1) 0, replicate (n + 1) 0)) ! n)"

definition lcs_length :: "string list \<Rightarrow> string list \<Rightarrow> nat" where
  "lcs_length a b = lcs_rows a b"

section \<open>Similarity of texts\<close>

definition difflib_ratio :: "string option \<Rightarrow> string option \<Rightarrow> rat" where
  "difflib_ratio oa ob =
     (case (oa, ob) of
        (None, None) \<Rightarrow> 1
      | (None, Some _) \<Rightarrow> 0
      | (Some _, None) \<Rightarrow> 0
      | (Some a, Some b) \<Rightarrow>
          if a = b then 1
          else if CHR 0x0A \<notin> set a \<and> CHR 0x0A \<notin> set b then
            let na = length a; nb = length b
            in if na = 0 \<and> nb = 0 then 1
               else if na = 0 \<or> nb = 0 then 0
               else let lcs = lcs_rows a b
                    in if na + nb > 0 then 2 * of_nat lcs / of_nat (na + nb) else 1
          else
            let la = split_lines oa MAX_LINES; lb = split_lines ob MAX_LINES;
                na = length la; nb = length lb
            in if na = 0 \<and> nb = 0 then 1
               else if na = 0 \<or> nb = 0 then 0
               else let lcs = lcs_length la lb
                    in if na + nb > 0 then 2 * of_nat lcs / of_nat (na + nb) else 1)"

section \<open>Unified diff: the table and the matching\<close>

text \<open>The table is one array of \<open>unsigned short\<close>, row after row of width \<open>W\<close>, filled from the
  last row and column backwards.\<close>

definition dp_cell :: "string list \<Rightarrow> string list \<Rightarrow> nat \<Rightarrow> nat \<Rightarrow> nat list \<Rightarrow> nat list" where
  "dp_cell la lb i j dp =
     (let W = length lb + 1
      in if la ! i = lb ! j then dp[i * W + j := (dp ! ((i + 1) * W + j + 1) + 1) mod 2 ^ 16]
         else let d = dp ! ((i + 1) * W + j); r = dp ! (i * W + j + 1)
              in dp[i * W + j := (if d > r then d else r)])"

definition dp_table :: "string list \<Rightarrow> string list \<Rightarrow> nat list" where
  "dp_table la lb =
     fold (\<lambda>i. fold (dp_cell la lb i) (rev [0..<length lb])) (rev [0..<length la])
          (replicate ((length la + 1) * (length lb + 1)) 0)"

function match_walk ::
    "string list \<Rightarrow> string list \<Rightarrow> nat list \<Rightarrow> nat \<Rightarrow> nat \<Rightarrow> int list \<Rightarrow> int list" where
  "match_walk la lb dp i j mt =
     (if i < length la \<and> j < length lb
      then if la ! i = lb ! j then match_walk la lb dp (i + 1) (j + 1) (mt[i := int j])
           else if dp ! ((i + 1) * (length lb + 1) + j) \<ge> dp ! (i * (length lb + 1) + j + 1)
           then match_walk la lb dp (i + 1) j mt
           else match_walk la lb dp i (j + 1) mt
      else mt)"
  by pat_completeness auto
termination by (relation "measure (\<lambda>(la, lb, dp, i, j, mt). (length la - i) + (length lb - j))") auto

declare match_walk.simps [simp del]

definition match_lines :: "string list \<Rightarrow> string list \<Rightarrow> int list" where
  "match_lines la lb = match_walk la lb (dp_table la lb) 0 0 (replicate (length la) (- 1))"

section \<open>Unified diff: the hunks\<close>

text \<open>One item per line of output.\<close>

datatype ud_item =
    UHead
  | UHunk nat nat nat nat
  | UCtx string
  | UDel string
  | UIns string

text \<open>The cursor loops over equal lines, up to a bound on the first cursor.\<close>

function equal_run :: "int list \<Rightarrow> nat \<Rightarrow> nat \<Rightarrow> nat \<Rightarrow> nat \<times> nat" where
  "equal_run mt bound i j =
     (if i < bound \<and> mt ! i = int j then equal_run mt bound (i + 1) (j + 1) else (i, j))"
  by pat_completeness auto
termination by (relation "measure (\<lambda>(mt, bound, i, j). bound - i)") auto

declare equal_run.simps [simp del]

lemma equal_run_le: "equal_run mt bound i j = (i', j') \<Longrightarrow> i \<le> i' \<and> j \<le> j' \<and> (i < bound \<and> mt ! i = int j \<longrightarrow> i < i' \<and> j < j')"
proof (induction mt bound i j rule: equal_run.induct)
  case (1 mt bound i j)
  show ?case
  proof (cases "i < bound \<and> mt ! i = int j")
    case True
    then have "equal_run mt bound (i + 1) (j + 1) = (i', j')"
      using "1.prems" by (simp add: equal_run.simps [of mt bound i j])
    from "1.IH" [OF True this] show ?thesis by auto
  next
    case False
    then show ?thesis using "1.prems" by (auto simp: equal_run.simps [of mt bound i j])
  qed
qed

text \<open>The changed region of a hunk: the cursors at its end, and after its last change. \<open>2 * context_lines\<close>
  is computed in an int: None when it overflows.\<close>

function ud_consume ::
    "int list \<Rightarrow> nat \<Rightarrow> nat \<Rightarrow> int \<Rightarrow> nat \<Rightarrow> nat \<Rightarrow> nat \<Rightarrow> nat \<Rightarrow> (nat \<times> nat \<times> nat \<times> nat) option" where
  "ud_consume mt na nb ctx ci cj last_i last_j =
     (if ci < na \<or> cj < nb
      then if ci < na \<and> mt ! ci = int cj
           then case equal_run mt na ci cj of (run_i, run_j) \<Rightarrow>
                  if run_i \<ge> na \<and> run_j \<ge> nb then Some (ci, cj, last_i, last_j)
                  else if 2 * ctx > 2147483647 then None
                  else if int (run_i - ci) > 2 * ctx then Some (ci, cj, last_i, last_j)
                  else ud_consume mt na nb ctx run_i run_j last_i last_j
           else if ci < na \<and> (mt ! ci < 0 \<or> mt ! ci < int cj)
           then ud_consume mt na nb ctx (ci + 1) cj (ci + 1) cj
           else if cj < nb
           then ud_consume mt na nb ctx ci (cj + 1) ci (cj + 1)
           else ud_consume mt na nb ctx (ci + 1) cj (ci + 1) cj
      else Some (ci, cj, last_i, last_j))"
  by pat_completeness auto
termination
  by (relation "measure (\<lambda>(mt, na, nb, ctx, ci, cj, li, lj). (na - ci) + (nb - cj))")
     (auto dest!: equal_run_le [OF sym])

declare ud_consume.simps [simp del]

definition hunk_start :: "int \<Rightarrow> nat \<Rightarrow> nat \<Rightarrow> nat" where
  "hunk_start ctx eq_start_i i =
     (let had_equal = i > eq_start_i;
          h = int i - ctx;
          h = (if h < int eq_start_i \<and> had_equal
               then if int i - ctx < int eq_start_i then if int i - ctx > 0 then int i - ctx else 0
                    else h
               else h);
          h = (if h < 0 then 0 else h);
          h = (if \<not> had_equal then int i else h)
      in nat h)"

text \<open>The body of a hunk.\<close>

function ud_emit ::
    "string list \<Rightarrow> string list \<Rightarrow> int list \<Rightarrow> nat \<Rightarrow> nat \<Rightarrow> nat \<Rightarrow> nat \<Rightarrow> ud_item list" where
  "ud_emit la lb mt hunk_end_i hunk_end_j ei ej =
     (if ei < hunk_end_i \<or> ej < hunk_end_j
      then if ei < length la \<and> ei < hunk_end_i \<and> mt ! ei = int ej
           then UCtx (la ! ei) # ud_emit la lb mt hunk_end_i hunk_end_j (ei + 1) (ej + 1)
           else if ei < hunk_end_i \<and> ei < length la
                   \<and> (mt ! ei < 0 \<or> mt ! ei \<ge> int hunk_end_j \<or> mt ! ei > int ej)
           then if mt ! ei < 0 \<or> mt ! ei \<ge> int hunk_end_j
                then UDel (la ! ei) # ud_emit la lb mt hunk_end_i hunk_end_j (ei + 1) ej
                else UIns (lb ! ej) # ud_emit la lb mt hunk_end_i hunk_end_j ei (ej + 1)
           else if ej < hunk_end_j \<and> ej < length lb
           then UIns (lb ! ej) # ud_emit la lb mt hunk_end_i hunk_end_j ei (ej + 1)
           else if ei < hunk_end_i \<and> ei < length la
           then UDel (la ! ei) # ud_emit la lb mt hunk_end_i hunk_end_j (ei + 1) ej
           else []
      else [])"
  by pat_completeness auto
termination by (relation "measure (\<lambda>(la, lb, mt, hei, hej, ei, ej). (hei - ei) + (hej - ej))") auto

declare ud_emit.simps [simp del]

text \<open>The sum \<open>last_change_i + context_lines\<close> is an int too.\<close>

definition ud_hunk :: "string list \<Rightarrow> string list \<Rightarrow> int list \<Rightarrow> int \<Rightarrow> nat \<Rightarrow> nat \<Rightarrow> nat \<Rightarrow> nat \<Rightarrow> nat \<Rightarrow> ud_item list option" where
  "ud_hunk la lb mt ctx hunk_ai i j last_i last_j =
     (if int last_i + ctx > 2147483647 then None else
      let hunk_bj = j - (i - hunk_ai);
          hunk_end_i = fst (equal_run mt (min (length la) (nat (int last_i + ctx))) last_i last_j);
          hunk_end_j = last_j + (hunk_end_i - last_i);
          alen = hunk_end_i - hunk_ai;
          blen = hunk_end_j - hunk_bj;
          astart = (if alen > 0 then hunk_ai + 1 else hunk_ai);
          bstart = (if blen > 0 then hunk_bj + 1 else hunk_bj)
      in Some (UHunk astart alen bstart blen # ud_emit la lb mt hunk_end_i hunk_end_j hunk_ai hunk_bj))"

lemma ud_consume_le: "ud_consume mt na nb ctx ci cj li lj = Some (ci', cj', li', lj') \<Longrightarrow> ci \<le> ci' \<and> cj \<le> cj'"
proof (induction mt na nb ctx ci cj li lj rule: ud_consume.induct)
  case (1 mt na nb ctx ci cj li lj)
  note prem = "1.prems" [unfolded ud_consume.simps [of mt na nb ctx ci cj li lj]]
  obtain x y where run: "equal_run mt na ci cj = (x, y)" by fastforce
  show ?case
    using prem run "1.IH" equal_run_le [OF run] by (auto split: if_splits)
qed

lemma ud_consume_progress:
  assumes "ud_consume mt na nb ctx i j i j = Some (ci, cj, li, lj)"
    and "i < na \<or> j < nb" and "\<not> (i < na \<and> mt ! i = int j)"
  shows "(na - ci) + (nb - cj) < (na - i) + (nb - j)"
  using assms
  by (subst (asm) ud_consume.simps) (auto split: if_splits dest!: ud_consume_le)

lemma equal_run_maximal: "equal_run mt bound i j = (i', j') \<Longrightarrow> \<not> (i' < bound \<and> mt ! i' = int j')"
proof (induction mt bound i j rule: equal_run.induct)
  case (1 mt bound i j)
  show ?case
  proof (cases "i < bound \<and> mt ! i = int j")
    case True
    then show ?thesis using "1.prems" "1.IH" by (simp add: equal_run.simps [of mt bound i j])
  next
    case False
    then show ?thesis using "1.prems" by (auto simp: equal_run.simps [of mt bound i j])
  qed
qed

text \<open>The loop over the hunks.\<close>

function ud_hunks :: "string list \<Rightarrow> string list \<Rightarrow> int list \<Rightarrow> int \<Rightarrow> nat \<Rightarrow> nat \<Rightarrow> ud_item list option" where
  "ud_hunks la lb mt ctx i0 j0 =
     (if i0 < length la \<or> j0 < length lb
      then case equal_run mt (length la) i0 j0 of (i, j) \<Rightarrow>
             if i \<ge> length la \<and> j \<ge> length lb then Some []
             else (case ud_consume mt (length la) (length lb) ctx i j i j of None \<Rightarrow> None
                   | Some (ci, cj, last_i, last_j) \<Rightarrow>
                       (case ud_hunk la lb mt ctx (hunk_start ctx i0 i) i j last_i last_j of None \<Rightarrow> None
                        | Some hunk \<Rightarrow> map_option ((@) hunk) (ud_hunks la lb mt ctx ci cj)))
      else Some [])"
  by pat_completeness auto
termination
proof (relation "measure (\<lambda>(la, lb, mt, ctx, i, j). (length la - i) + (length lb - j))", goal_cases)
  case (2 la lb mt ctx i0 j0 i j c ci c1 cj c2 li lj hunk)
  then have run: "equal_run mt (length la) i0 j0 = (i, j)"
    and con: "ud_consume mt (length la) (length lb) ctx i j i j = Some (ci, cj, li, lj)" by simp_all
  have "(length la - ci) + (length lb - cj) < (length la - i) + (length lb - j)"
    by (rule ud_consume_progress [OF con]) (use 2(3) equal_run_maximal [OF run] in auto)
  moreover have "i0 \<le> i" "j0 \<le> j"
    using equal_run_le [OF run] by simp_all
  ultimately show ?case by simp
qed simp

declare ud_hunks.simps [simp del]

definition ud_items :: "string option \<Rightarrow> string option \<Rightarrow> int \<Rightarrow> ud_item list option" where
  "ud_items a b context_lines =
     (let context_lines = (if context_lines < 0 then 3 else context_lines);
          la = split_lines a MAX_LINES;
          lb = split_lines b MAX_LINES
      in map_option ((#) UHead) (ud_hunks la lb (match_lines la lb) context_lines 0 0))"

text \<open>The text appended for each item.\<close>

definition ud_text :: "ud_item \<Rightarrow> string" where
  "ud_text it =
     (case it of
        UHead \<Rightarrow> ''--- original'' @ [CHR 0x0A] @ ''+++ modified'' @ [CHR 0x0A]
      | UHunk astart alen bstart blen \<Rightarrow>
          (if alen = 1 then ''@@ -'' @ c_dec (int astart) @ '' ''
           else ''@@ -'' @ c_dec (int astart) @ '','' @ c_dec (int alen) @ '' '')
          @ (if blen = 1 then ''+'' @ c_dec (int bstart) @ '' @@'' @ [CHR 0x0A]
             else ''+'' @ c_dec (int bstart) @ '','' @ c_dec (int blen) @ '' @@'' @ [CHR 0x0A])
      | UCtx l \<Rightarrow> '' '' @ l @ [CHR 0x0A]
      | UDel l \<Rightarrow> ''-'' @ l @ [CHR 0x0A]
      | UIns l \<Rightarrow> ''+'' @ l @ [CHR 0x0A])"

definition difflib_unified_diff :: "string option \<Rightarrow> string option \<Rightarrow> int \<Rightarrow> string option" where
  "difflib_unified_diff a b context_lines =
     map_option (\<lambda>items. concat (map ud_text items)) (ud_items a b context_lines)"

section \<open>Simple diff\<close>

text \<open>One \<open>snprintf\<close> at \<open>result + pos\<close>: the text in the buffer, and \<open>pos\<close>, which counts the bytes
  that would have been written. A position past the buffer makes the room \<open>buf_size - pos\<close> wrap to a
  huge size, so the call writes behind the buffer: None.\<close>

definition SD_BUF :: nat where "SD_BUF = 65536"

definition sd_print :: "string \<Rightarrow> (string \<times> nat) option \<Rightarrow> (string \<times> nat) option" where
  "sd_print t st =
     (case st of None \<Rightarrow> None
      | Some (out, pos) \<Rightarrow>
          if pos > SD_BUF then None
          else Some (out @ take (SD_BUF - pos - 1) t, pos + length t))"

definition sd_line :: "string list \<Rightarrow> string list \<Rightarrow> nat \<Rightarrow> (string \<times> nat) option \<Rightarrow> (string \<times> nat) option" where
  "sd_line la lb i st =
     (let line_a = (if i < length la then la ! i else []);
          line_b = (if i < length lb then lb ! i else [])
      in if line_a = line_b then sd_print ('' '' @ line_a @ [CHR 0x0A]) st
         else let st = (if line_a \<noteq> [] then sd_print (''-'' @ line_a @ [CHR 0x0A]) st else st)
              in if line_b \<noteq> [] then sd_print (''+'' @ line_b @ [CHR 0x0A]) st else st)"

definition difflib_simple_diff :: "string option \<Rightarrow> string option \<Rightarrow> string option" where
  "difflib_simple_diff a b =
     (case (a, b) of
        (None, None) \<Rightarrow> Some []
      | (None, Some t) \<Rightarrow> Some t
      | (Some t, None) \<Rightarrow> Some t
      | (Some _, Some _) \<Rightarrow>
          let la = split_lines a MAX_LINES; lb = split_lines b MAX_LINES;
              max_lines = (if length la > length lb then length la else length lb)
          in map_option fst (fold (sd_line la lb) [0..<max_lines] (Some ([], 0))))"

section \<open>The longest matching block\<close>

type_synonym lmb_state = "nat list \<times> nat list \<times> nat \<times> nat \<times> nat"

definition lmb_cell :: "'a list \<Rightarrow> 'a list \<Rightarrow> nat \<Rightarrow> nat \<Rightarrow> nat \<Rightarrow> lmb_state \<Rightarrow> lmb_state" where
  "lmb_cell a b blo i j st =
     (case st of (prev, cur, besti, bestj, bestsize) \<Rightarrow>
        if a ! i = b ! j
        then let k = (if j > blo \<and> prev ! (j - 1 - blo) > 0 then prev ! (j - 1 - blo) + 1 else 1);
                 cur = cur[j - blo := k]
             in if k > bestsize then (prev, cur, i + 1 - k, j + 1 - k, k)
                else (prev, cur, besti, bestj, bestsize)
        else (prev, cur, besti, bestj, bestsize))"

definition lmb_row :: "'a list \<Rightarrow> 'a list \<Rightarrow> nat \<Rightarrow> nat \<Rightarrow> nat \<Rightarrow> lmb_state \<Rightarrow> lmb_state" where
  "lmb_row a b blo bhi i st =
     (case st of (prev, cur, best) \<Rightarrow>
        case fold (lmb_cell a b blo i) [blo..<bhi] (prev, replicate (bhi - blo + 1) 0, best) of
          (prev, cur, best) \<Rightarrow> (cur, prev, best))"

definition lmb :: "'a list \<Rightarrow> nat \<Rightarrow> nat \<Rightarrow> 'a list \<Rightarrow> nat \<Rightarrow> nat \<Rightarrow> nat \<times> nat \<times> nat" where
  "lmb a alo ahi b blo bhi =
     (case fold (lmb_row a b blo bhi) [alo..<ahi]
             (replicate (bhi - blo + 1) 0, replicate (bhi - blo + 1) 0, alo, blo, 0) of
        (prev, cur, best) \<Rightarrow> best)"

section \<open>Matching blocks and opcodes\<close>

record difflib_opcode =
  op_tag :: char
  op_i1 :: nat
  op_i2 :: nat
  op_j1 :: nat
  op_j2 :: nat

definition opcode :: "char \<Rightarrow> nat \<Rightarrow> nat \<Rightarrow> nat \<Rightarrow> nat \<Rightarrow> difflib_opcode" where
  "opcode t i1 i2 j1 j2 = \<lparr>op_tag = t, op_i1 = i1, op_i2 = i2, op_j1 = j1, op_j2 = j2\<rparr>"

text \<open>Pushing fails (None, the result -1) when the array is full.\<close>

definition opvec_push :: "nat \<Rightarrow> difflib_opcode list \<Rightarrow> difflib_opcode \<Rightarrow> difflib_opcode list option" where
  "opvec_push cap v op = (if length v \<ge> cap then None else Some (v @ [op]))"

text \<open>The queue is an array of 4096 quads, read at \<open>qh\<close> and extended at its end.\<close>

type_synonym quad = "nat \<times> nat \<times> nat \<times> nat"

definition enqueue :: "bool \<Rightarrow> quad \<Rightarrow> quad list \<Rightarrow> quad list" where
  "enqueue wanted q queue = (if wanted \<and> length queue < 4094 then queue @ [q] else queue)"

lemma length_enqueue: "length (enqueue w q queue) \<le> max (length queue) 4094"
  and length_enqueue_ge: "length queue \<le> length (enqueue w q queue)"
  by (auto simp: enqueue_def)

function emit_loop ::
    "'a list \<Rightarrow> 'a list \<Rightarrow> nat \<Rightarrow> quad list \<Rightarrow> nat \<Rightarrow> difflib_opcode list \<Rightarrow> difflib_opcode list" where
  "emit_loop a b cap queue qh out =
     (if qh < length queue
      then case queue ! qh of (alo, ahi, blo, bhi) \<Rightarrow>
             case lmb a alo ahi b blo bhi of (i, j, sz) \<Rightarrow>
               if sz = 0 then emit_loop a b cap queue (qh + 1) out
               else let queue = enqueue (alo < i \<and> blo < j) (alo, i, blo, j) queue
                    in case opvec_push cap out (opcode (CHR ''e'') i (i + sz) j (j + sz)) of
                         None \<Rightarrow> out
                       | Some out \<Rightarrow>
                           emit_loop a b cap
                             (enqueue (i + sz < ahi \<and> j + sz < bhi) (i + sz, ahi, j + sz, bhi) queue)
                             (qh + 1) out
      else out)"
  by pat_completeness auto
termination
  by (relation "measure (\<lambda>(a, b, cap, queue, qh, out). max (length queue) 4094 - qh)")
     (auto simp: enqueue_def)

declare emit_loop.simps [simp del]

definition emit_opcodes :: "'a list \<Rightarrow> 'a list \<Rightarrow> nat \<Rightarrow> nat \<Rightarrow> nat \<Rightarrow> nat \<Rightarrow> nat \<Rightarrow> difflib_opcode list" where
  "emit_opcodes a b alo ahi blo bhi cap = emit_loop a b cap [(alo, ahi, blo, bhi)] 0 []"

definition blk_key :: "difflib_opcode \<Rightarrow> nat \<times> nat" where
  "blk_key op = (op_i1 op, op_j1 op)"

text \<open>A gap before a block, and the walk over the sorted blocks; a failing push ends the walk.\<close>

definition push_gap :: "nat \<Rightarrow> nat \<Rightarrow> nat \<Rightarrow> nat \<Rightarrow> nat \<Rightarrow> difflib_opcode list \<Rightarrow> difflib_opcode list option" where
  "push_gap cap ai bi1 bj bj1 tagged =
     (if ai < bi1 \<and> bj < bj1 then opvec_push cap tagged (opcode (CHR ''r'') ai bi1 bj bj1)
      else if ai < bi1 then opvec_push cap tagged (opcode (CHR ''d'') ai bi1 bj bj)
      else if bj < bj1 then opvec_push cap tagged (opcode (CHR ''i'') ai ai bj bj1)
      else Some tagged)"

fun build_tagged :: "nat \<Rightarrow> difflib_opcode list \<Rightarrow> nat \<Rightarrow> nat \<Rightarrow> difflib_opcode list \<Rightarrow> difflib_opcode list" where
  "build_tagged cap [] ai bj tagged = tagged"
| "build_tagged cap (op # raw) ai bj tagged =
     (case push_gap cap ai (op_i1 op) bj (op_j1 op) tagged of
        None \<Rightarrow> tagged
      | Some tagged \<Rightarrow>
          (case opvec_push cap tagged (opcode (CHR ''e'') (op_i1 op) (op_i2 op) (op_j1 op) (op_j2 op)) of
             None \<Rightarrow> tagged
           | Some tagged \<Rightarrow> build_tagged cap raw (op_i2 op) (op_j2 op) tagged))"

definition or_keep :: "'a \<Rightarrow> 'a option \<Rightarrow> 'a" where
  "or_keep x y = (case y of None \<Rightarrow> x | Some z \<Rightarrow> z)"

definition RAW_CAP :: nat where "RAW_CAP = 1024"
definition TAGGED_CAP :: nat where "TAGGED_CAP = 2048"

definition tagged_opcodes :: "string list \<Rightarrow> string list \<Rightarrow> difflib_opcode list" where
  "tagged_opcodes la lb =
     (let na = length la; nb = length lb
      in if \<not> (na = 0 \<and> nb = 0)
         then if na = 0 \<or> nb = 0
              then if na = 0 \<and> nb > 0 then or_keep [] (opvec_push TAGGED_CAP [] (opcode (CHR ''i'') 0 0 0 nb))
                   else if nb = 0 \<and> na > 0 then or_keep [] (opvec_push TAGGED_CAP [] (opcode (CHR ''d'') 0 na 0 0))
                   else []
              else let raw = sort_key blk_key (emit_opcodes la lb 0 na 0 nb RAW_CAP);
                       tagged = build_tagged TAGGED_CAP raw 0 0 [];
                       ai = (if raw \<noteq> [] then op_i2 (last raw) else 0);
                       bj = (if raw \<noteq> [] then op_j2 (last raw) else 0)
                   in or_keep tagged (push_gap TAGGED_CAP ai na bj nb tagged)
         else [])"

definition difflib_get_opcodes :: "string option \<Rightarrow> string option \<Rightarrow> int \<Rightarrow> difflib_opcode list" where
  "difflib_get_opcodes a b out_max =
     (if out_max \<le> 0 then []
      else take (nat out_max) (tagged_opcodes (split_lines a MAX_LINES) (split_lines b MAX_LINES)))"

section \<open>Similarity by matching blocks, close matches\<close>

function common_prefix :: "'a list \<Rightarrow> 'a list \<Rightarrow> nat \<Rightarrow> nat \<Rightarrow> nat \<Rightarrow> nat" where
  "common_prefix a b ahi bhi lo =
     (if lo < ahi \<and> lo < bhi \<and> a ! lo = b ! lo then common_prefix a b ahi bhi (lo + 1) else lo)"
  by pat_completeness auto
termination by (relation "measure (\<lambda>(a, b, ahi, bhi, lo). ahi - lo)") auto

declare common_prefix.simps [simp del]

fun common_suffix :: "'a list \<Rightarrow> 'a list \<Rightarrow> nat \<Rightarrow> nat \<Rightarrow> nat \<Rightarrow> nat \<times> nat" where
  "common_suffix a b lo ahi bhi =
     (if ahi > lo \<and> bhi > lo \<and> a ! (ahi - 1) = b ! (bhi - 1)
      then common_suffix a b lo (ahi - 1) (bhi - 1) else (ahi, bhi))"

declare common_suffix.simps [simp del]

definition seq_matched :: "string \<Rightarrow> string \<Rightarrow> nat" where
  "seq_matched a b =
     (let la = length a; lb = length b; lo = common_prefix a b la lb 0
      in case common_suffix a b lo la lb of (ahi, bhi) \<Rightarrow>
           lo + (la - ahi)
           + sum_list (map (\<lambda>op. op_i2 op - op_i1 op) (emit_opcodes a b lo ahi lo bhi 512)))"

definition difflib_seq_ratio :: "string option \<Rightarrow> string option \<Rightarrow> rat" where
  "difflib_seq_ratio oa ob =
     (case (oa, ob) of
        (None, None) \<Rightarrow> 1
      | (None, Some _) \<Rightarrow> 0
      | (Some _, None) \<Rightarrow> 0
      | (Some a, Some b) \<Rightarrow>
          if length a = 0 \<and> length b = 0 then 1
          else if length a = 0 \<or> length b = 0 then 0
          else if a = b then 1
          else 2 * of_nat (seq_matched a b) / of_nat (length a + length b))"

text \<open>The candidates that reach the cutoff, with their ratios, among the first 512.\<close>

definition close_candidates :: "string \<Rightarrow> string option list \<Rightarrow> rat \<Rightarrow> (rat \<times> nat) list" where
  "close_candidates word ps cutoff =
     filter (\<lambda>(r, i). r \<ge> cutoff)
       (map (\<lambda>i. (difflib_seq_ratio (Some word) (ps ! i), i)) [0..<min (length ps) 512])"

definition sel_best :: "rat list \<Rightarrow> nat \<Rightarrow> nat" where
  "sel_best ratios i =
     fold (\<lambda>k best. if ratios ! k > ratios ! best then k else best) [i + 1..<length ratios] i"

text \<open>The selection step exchanges the indices only.\<close>

definition sel_step :: "rat list \<Rightarrow> nat \<Rightarrow> nat list \<Rightarrow> nat list" where
  "sel_step ratios i idx =
     (let best = sel_best ratios i
      in if best \<noteq> i then idx[i := idx ! best, best := idx ! i] else idx)"

definition difflib_get_close_matches ::
    "string option \<Rightarrow> string option list \<Rightarrow> int \<Rightarrow> rat \<Rightarrow> int \<Rightarrow> string option list" where
  "difflib_get_close_matches oword ps n cutoff out_max =
     (case oword of None \<Rightarrow> []
      | Some word \<Rightarrow>
          if out_max \<le> 0 then []
          else let n = (if n \<le> 0 then 3 else n);
                   cutoff = (if cutoff \<le> 0 then 3 / 5 else cutoff);
                   cands = close_candidates word ps cutoff;
                   ratios = map fst cands;
                   idx = fold (sel_step ratios) [0..<length cands - 1] (map snd cands)
               in map ((!) ps) (take (min (nat n) (nat out_max)) idx))"

end
