(* ===== verification/Difflib_Lcs.thy ===== *)
theory Difflib_Lcs
  imports Difflib "HOL-Library.Sublist"
begin

text \<open>
  The longest-common-subsequence tables of \<open>Difflib\<close>: \<open>lcs_len\<close> is the recursive specification,
  proved to be the greatest length of a common subsequence; the two-row program and the full table of
  the unified diff compute it, forwards on prefixes and backwards on suffixes.
\<close>

section \<open>Longest common subsequences\<close>

fun lcs_len :: "'a list \<Rightarrow> 'a list \<Rightarrow> nat" where
  "lcs_len [] ys = 0"
| "lcs_len xs [] = 0"
| "lcs_len (x # xs) (y # ys) =
     (if x = y then lcs_len xs ys + 1 else max (lcs_len xs (y # ys)) (lcs_len (x # xs) ys))"

definition common_subseqs :: "'a list \<Rightarrow> 'a list \<Rightarrow> 'a list set" where
  "common_subseqs xs ys = {zs. subseq zs xs \<and> subseq zs ys}"

lemma lcs_len_Nil2 [simp]: "lcs_len xs [] = 0"
  by (cases xs) simp_all

lemma lcs_len_attained: "\<exists>zs \<in> common_subseqs xs ys. length zs = lcs_len xs ys"
proof (induction xs ys rule: lcs_len.induct)
  case (3 x xs y ys)
  show ?case
  proof (cases "x = y")
    case True
    with 3 obtain zs where "zs \<in> common_subseqs xs ys" "length zs = lcs_len xs ys" by auto
    then show ?thesis using True by (intro bexI [of _ "x # zs"]) (auto simp: common_subseqs_def)
  next
    case False
    with 3 obtain zs1 zs2 where
      "zs1 \<in> common_subseqs xs (y # ys)" "length zs1 = lcs_len xs (y # ys)"
      "zs2 \<in> common_subseqs (x # xs) ys" "length zs2 = lcs_len (x # xs) ys" by auto
    then show ?thesis
      using False by (cases "lcs_len xs (y # ys) \<le> lcs_len (x # xs) ys")
        (auto simp: common_subseqs_def max_def)
  qed
qed (auto simp: common_subseqs_def)

lemma lcs_len_upper: "zs \<in> common_subseqs xs ys \<Longrightarrow> length zs \<le> lcs_len xs ys"
proof (induction xs ys arbitrary: zs rule: lcs_len.induct)
  case (3 x xs y ys)
  show ?case
  proof (cases zs)
    case (Cons z ws)
    note split = 3(4) [unfolded Cons common_subseqs_def mem_Collect_eq]
    show ?thesis
    proof (cases "x = y")
      case True
      have "ws \<in> common_subseqs xs ys"
        using split True by (auto simp: common_subseqs_def subseq_Cons2_iff split: if_splits intro: subseq_Cons')
      then show ?thesis using 3(1) True Cons by fastforce
    next
      case False
      then have "zs \<in> common_subseqs xs (y # ys) \<or> zs \<in> common_subseqs (x # xs) ys"
        using split Cons by (auto simp: common_subseqs_def split: if_splits)
      then show ?thesis using 3(2,3) False by fastforce
    qed
  qed simp
qed (auto simp: common_subseqs_def)

lemma finite_common_subseqs: "finite (common_subseqs xs ys)"
  by (rule finite_subset [of _ "set (subseqs xs)"]) (auto simp: common_subseqs_def)

lemma lcs_len_Max: "lcs_len xs ys = Max (length ` common_subseqs xs ys)"
  using lcs_len_attained [of xs ys] finite_common_subseqs [of xs ys]
  by (intro Max_eqI [symmetric]) (auto intro: lcs_len_upper rev_image_eqI)

lemma subseq_revI: "subseq xs ys \<Longrightarrow> subseq (rev xs) (rev ys)"
  by (induction rule: list_emb.induct) (auto intro: list_emb_append_mono subseq_rev_drop_many)

lemma common_subseqs_rev: "zs \<in> common_subseqs (rev xs) (rev ys) \<longleftrightarrow> rev zs \<in> common_subseqs xs ys"
  by (simp add: common_subseqs_def) (metis rev_rev_ident subseq_revI)

lemma lcs_len_rev: "lcs_len (rev xs) (rev ys) = lcs_len xs ys"
proof (rule antisym)
  obtain zs where "zs \<in> common_subseqs (rev xs) (rev ys)" "length zs = lcs_len (rev xs) (rev ys)"
    using lcs_len_attained by blast
  then show "lcs_len (rev xs) (rev ys) \<le> lcs_len xs ys"
    using lcs_len_upper [of "rev zs" xs ys] by (simp add: common_subseqs_rev)
  obtain zs where "zs \<in> common_subseqs xs ys" "length zs = lcs_len xs ys"
    using lcs_len_attained by blast
  then show "lcs_len xs ys \<le> lcs_len (rev xs) (rev ys)"
    using lcs_len_upper [of "rev zs" "rev xs" "rev ys"] by (simp add: common_subseqs_rev)
qed

lemma lcs_len_le: "lcs_len xs ys \<le> length xs" "lcs_len xs ys \<le> length ys"
  by (induction xs ys rule: lcs_len.induct) auto

section \<open>The two-row table\<close>

definition pre_lcs :: "'a list \<Rightarrow> 'a list \<Rightarrow> nat \<Rightarrow> nat \<Rightarrow> nat" where
  "pre_lcs a b i j = lcs_len (take i a) (take j b)"

lemma pre_lcs_0 [simp]: "pre_lcs a b 0 j = 0" "pre_lcs a b i 0 = 0"
  by (simp_all add: pre_lcs_def)

lemma pre_lcs_Suc:
  assumes "i < length a" "j < length b"
  shows "pre_lcs a b (Suc i) (Suc j) =
    (if a ! i = b ! j then pre_lcs a b i j + 1 else max (pre_lcs a b i (Suc j)) (pre_lcs a b (Suc i) j))"
proof -
  have r: "pre_lcs a b i j = lcs_len (rev (take i a)) (rev (take j b))" for i j
    by (simp add: pre_lcs_def lcs_len_rev)
  show ?thesis using assms by (simp add: r take_Suc_conv_app_nth)
qed

definition row_upto :: "'a list \<Rightarrow> 'a list \<Rightarrow> nat \<Rightarrow> nat \<Rightarrow> nat \<Rightarrow> nat list \<Rightarrow> bool" where
  "row_upto a b n i j row \<longleftrightarrow> length row = Suc n \<and> (\<forall>k\<le>j. row ! k = pre_lcs a b i k)"

lemma lcs_row_fold:
  assumes "row_upto a b n i n prev" "row_upto a b n (Suc i) 0 row" "i < length a" "n \<le> length b"
  shows "j \<le> n \<Longrightarrow> row_upto a b n (Suc i) j (fold (lcs_cell (a ! i) b prev) [0..<j] row)"
proof (induction j)
  case (Suc j)
  let ?r = "fold (lcs_cell (a ! i) b prev) [0..<j] row"
  have r: "row_upto a b n (Suc i) j ?r" using Suc by simp
  have "lcs_cell (a ! i) b prev j ?r ! k = pre_lcs a b (Suc i) k" if "k \<le> Suc j" for k
  proof (cases "k = Suc j")
    case True
    then show ?thesis
      using r assms Suc.prems by (auto simp: lcs_cell_def row_upto_def pre_lcs_Suc max_def)
  next
    case False
    then show ?thesis using r that by (auto simp: lcs_cell_def row_upto_def)
  qed
  moreover have "length (lcs_cell (a ! i) b prev j ?r) = Suc n"
    using r by (simp add: lcs_cell_def row_upto_def)
  ultimately show ?case by (simp add: row_upto_def)
qed (use assms in simp)

lemma lcs_rows_fold:
  assumes "n \<le> length b"
  shows "m \<le> length a \<Longrightarrow>
    (case fold (lcs_row a b n) [0..<m] (replicate (n + 1) 0, replicate (n + 1) 0) of
       (prev, row) \<Rightarrow> row_upto a b n m n prev \<and> row_upto a b n (Suc m) 0 row)"
proof (induction m)
  case 0
  show ?case by (simp add: row_upto_def nth_append flip: replicate_Suc replicate_append_same)
next
  case (Suc m)
  obtain prev row where e: "fold (lcs_row a b n) [0..<m] (replicate (n + 1) 0, replicate (n + 1) 0) = (prev, row)"
    by fastforce
  with Suc have p: "row_upto a b n m n prev" "row_upto a b n (Suc m) 0 row" by simp_all
  have "row_upto a b n (Suc m) n (fold (lcs_cell (a ! m) b prev) [0..<n] row)"
    using lcs_row_fold [OF p _ assms, of n] Suc.prems by simp
  moreover have "row_upto a b n (Suc (Suc m)) 0 prev"
    using p(1) by (simp add: row_upto_def)
  ultimately show ?case using e by (simp add: lcs_row_def [of _ _ _ _ "(prev, row)"])
qed

lemma lcs_rows_eq: "lcs_rows a b = lcs_len (take LCS_MAX a) (take LCS_MAX b)"
proof -
  let ?m = "min (length a) LCS_MAX" and ?n = "min (length b) LCS_MAX"
  have "fst (fold (lcs_row a b ?n) [0..<?m] (replicate (?n + 1) 0, replicate (?n + 1) 0)) ! ?n = pre_lcs a b ?m ?n"
    using lcs_rows_fold [of ?n b ?m a] by (auto simp: row_upto_def split: prod.splits)
  moreover have "take (min (length zs) k) zs = take k zs" for zs :: "'a list" and k
    by (simp add: min_def)
  moreover have "(if length zs > LCS_MAX then LCS_MAX else length zs) = min (length zs) LCS_MAX" for zs :: "'a list"
    by simp
  ultimately show ?thesis by (simp only: lcs_rows_def Let_def pre_lcs_def)
qed

text \<open>C32. The two-row dynamic program computes the length of a longest common subsequence of the first
  256 lines (or characters) of both arguments, the part of the texts it looks at.\<close>

theorem lcs_length_longest:
  "lcs_length a b = Max (length ` {zs. subseq zs (take LCS_MAX a) \<and> subseq zs (take LCS_MAX b)})"
  by (simp add: lcs_length_def lcs_rows_eq lcs_len_Max common_subseqs_def)

section \<open>The table of the unified diff\<close>

definition suf_lcs :: "'a list \<Rightarrow> 'a list \<Rightarrow> nat \<Rightarrow> nat \<Rightarrow> nat" where
  "suf_lcs a b i j = lcs_len (drop i a) (drop j b)"

lemma suf_lcs_end [simp]: "suf_lcs a b (length a) j = 0" "suf_lcs a b i (length b) = 0"
  by (simp_all add: suf_lcs_def)

lemma suf_lcs_rec:
  assumes "i < length a" "j < length b"
  shows "suf_lcs a b i j =
    (if a ! i = b ! j then suf_lcs a b (Suc i) (Suc j) + 1
     else max (suf_lcs a b (Suc i) j) (suf_lcs a b i (Suc j)))"
  using assms by (simp add: suf_lcs_def flip: Cons_nth_drop_Suc)

lemma flat_index_eq:
  assumes "(j :: nat) \<le> n" "j' \<le> n"
  shows "i * (n + 1) + j = i' * (n + 1) + j' \<longleftrightarrow> i = i' \<and> j = j'"
proof
  assume e: "i * (n + 1) + j = i' * (n + 1) + j'"
  have "(i * (n + 1) + j) div (n + 1) = i" "(i' * (n + 1) + j') div (n + 1) = i'"
    using assms by (simp_all only: div_mult_self3 div_less less_Suc_eq_le Suc_eq_plus1 [symmetric])
  with e show "i = i' \<and> j = j'" by auto
qed simp

lemma flat_index_less:
  assumes "(i :: nat) \<le> m" "j \<le> n"
  shows "i * (n + 1) + j < (m + 1) * (n + 1)"
proof -
  have "i * (n + 1) + j < i * (n + 1) + (n + 1)" using assms by simp
  also have "... = (i + 1) * (n + 1)" by simp
  also have "... \<le> (m + 1) * (n + 1)" using assms by (intro mult_right_mono) simp_all
  finally show ?thesis .
qed

text \<open>The table after the rows from \<open>i\<close> on, of row \<open>i\<close> only the columns from \<open>j\<close> on.\<close>

definition dp_from :: "string list \<Rightarrow> string list \<Rightarrow> nat \<Rightarrow> nat \<Rightarrow> nat list \<Rightarrow> bool" where
  "dp_from la lb i j dp \<longleftrightarrow>
     length dp = (length la + 1) * (length lb + 1)
     \<and> (\<forall>i' \<le> length la. \<forall>j' \<le> length lb.
          dp ! (i' * (length lb + 1) + j') = (if i < i' \<or> i = i' \<and> j \<le> j' then suf_lcs la lb i' j' else 0))"

lemma dp_cell_from:
  assumes "dp_from la lb i (Suc j) dp" "i < length la" "j < length lb" "length la < 65536"
  shows "dp_from la lb i j (dp_cell la lb i j dp)"
proof -
  let ?n = "length lb"
  have v: "dp ! ((i + 1) * (?n + 1) + j + 1) = suf_lcs la lb (Suc i) (Suc j)"
    "dp ! ((i + 1) * (?n + 1) + j) = suf_lcs la lb (Suc i) j"
    "dp ! (i * (?n + 1) + j + 1) = suf_lcs la lb i (Suc j)"
    using assms(1-3) unfolding dp_from_def
    by (metis Suc_eq_plus1 Suc_leI add.assoc less_imp_le_nat less_add_one, 
        metis Suc_eq_plus1 Suc_leI less_imp_le_nat less_add_one,
        metis Suc_eq_plus1 Suc_leI add.assoc less_imp_le_nat order_refl)
  have "suf_lcs la lb (Suc i) (Suc j) + 1 < 2 ^ 16"
    using lcs_len_le(1) [of "drop (Suc i) la" "drop (Suc j) lb"] assms(2,4) by (simp add: suf_lcs_def)
  then have c: "dp_cell la lb i j dp = dp[i * (?n + 1) + j := suf_lcs la lb i j]"
    using v suf_lcs_rec [OF assms(2,3)] by (auto simp: dp_cell_def Let_def max_def)
  have l: "i * (?n + 1) + j < length dp"
    using assms flat_index_less [of i "length la" j ?n] by (simp add: dp_from_def)
  show ?thesis
    unfolding dp_from_def c
  proof (intro conjI allI impI)
    fix i' j' assume b: "i' \<le> length la" "j' \<le> ?n"
    have old: "dp ! (i' * (?n + 1) + j') = (if i < i' \<or> i = i' \<and> Suc j \<le> j' then suf_lcs la lb i' j' else 0)"
      using assms(1) b by (simp add: dp_from_def)
    show "dp[i * (?n + 1) + j := suf_lcs la lb i j] ! (i' * (?n + 1) + j') =
        (if i < i' \<or> i = i' \<and> j \<le> j' then suf_lcs la lb i' j' else 0)"
    proof (cases "i = i' \<and> j = j'")
      case True
      then show ?thesis using l by simp
    next
      case False
      then have "i * (?n + 1) + j \<noteq> i' * (?n + 1) + j'"
        using flat_index_eq [of j ?n j' i i'] b assms(3) by simp
      then show ?thesis using old False by auto
    qed
  qed (use assms(1) in \<open>simp add: dp_from_def\<close>)
qed

lemma dp_row_from:
  assumes "i < length la" "length la < 65536"
  shows "j \<le> length lb \<Longrightarrow> dp_from la lb i j dp
    \<Longrightarrow> dp_from la lb i 0 (fold (dp_cell la lb i) (rev [0..<j]) dp)"
proof (induction j arbitrary: dp)
  case (Suc j)
  have "dp_from la lb i j (dp_cell la lb i j dp)"
    using dp_cell_from [OF Suc.prems(2) assms(1)] Suc.prems assms by simp
  then show ?case using Suc by simp
qed simp

lemma dp_from_next_row: "i < length la \<Longrightarrow> dp_from la lb (Suc i) 0 dp \<Longrightarrow> dp_from la lb i (length lb) dp"
  by (auto simp: dp_from_def)

lemma dp_rows_from:
  assumes "length la < 65536"
  shows "i \<le> length la \<Longrightarrow> dp_from la lb i 0 dp
    \<Longrightarrow> dp_from la lb 0 0 (fold (\<lambda>i. fold (dp_cell la lb i) (rev [0..<length lb])) (rev [0..<i]) dp)"
proof (induction i arbitrary: dp)
  case (Suc i)
  have "dp_from la lb i 0 (fold (dp_cell la lb i) (rev [0..<length lb]) dp)"
    using dp_row_from [OF _ assms order_refl dp_from_next_row] Suc.prems by simp
  then show ?case using Suc by simp
qed simp

lemma dp_table_correct:
  assumes "length la < 65536" "i \<le> length la" "j \<le> length lb"
  shows "dp_table la lb ! (i * (length lb + 1) + j) = suf_lcs la lb i j"
proof -
  have "dp_from la lb (length la) 0 (replicate ((length la + 1) * (length lb + 1)) 0)"
    using flat_index_less by (auto simp: dp_from_def simp del: mult_Suc mult_Suc_right)
  then have "dp_from la lb 0 0 (dp_table la lb)"
    using dp_rows_from [OF assms(1) order_refl] by (simp add: dp_table_def)
  then show ?thesis using assms by (auto simp: dp_from_def)
qed

end
