(* ===== verification/Difflib_Patch.thy ===== *)
theory Difflib_Patch
  imports Difflib_Lcs
begin

text \<open>
  The unified diff of \<open>Difflib\<close> is a correct and minimal patch. The matching is increasing and
  as large as a longest common subsequence; every position of the cursors is \<open>on_path\<close>, that is no
  matched pair crosses it; each loop moves from such a position to another, so a hunk body spells out
  the lines between two of them, and the gaps between hunks are equal lines.
\<close>

section \<open>The matching of the unified diff\<close>

definition good_match :: "string list \<Rightarrow> string list \<Rightarrow> int list \<Rightarrow> bool" where
  "good_match la lb mt \<longleftrightarrow>
     length mt = length la
     \<and> (\<forall>k < length la. - 1 \<le> mt ! k \<and> mt ! k < int (length lb)
          \<and> (0 \<le> mt ! k \<longrightarrow> la ! k = lb ! nat (mt ! k)))
     \<and> (\<forall>k < length la. \<forall>k' < k. 0 \<le> mt ! k \<longrightarrow> mt ! k' < mt ! k)"

text \<open>A point of the edit path: no match crosses it.\<close>

definition on_path :: "int list \<Rightarrow> nat \<Rightarrow> nat \<Rightarrow> nat \<Rightarrow> nat \<Rightarrow> bool" where
  "on_path mt na nb i j \<longleftrightarrow>
     i \<le> na \<and> j \<le> nb \<and> (\<forall>k < i. mt ! k < int j) \<and> (\<forall>k < na. i \<le> k \<longrightarrow> mt ! k < 0 \<or> int j \<le> mt ! k)"

definition matched :: "int list \<Rightarrow> nat \<Rightarrow> nat \<Rightarrow> nat" where
  "matched mt i i' = length (filter (\<lambda>k. 0 \<le> mt ! k) [i..<i'])"

lemma matched_Suc_left: "i < n \<Longrightarrow> matched mt i n = (if 0 \<le> mt ! i then 1 else 0) + matched mt (Suc i) n"
  by (simp add: matched_def upt_conv_Cons)

lemma match_walk_unchanged: "k < i \<Longrightarrow> match_walk la lb dp i j mt ! k = mt ! k"
proof (induction la lb dp i j mt rule: match_walk.induct)
  case (1 la lb dp i j mt)
  then show ?case by (subst match_walk.simps) (simp add: nth_list_update_if)
qed

lemma match_walk_good:
  assumes "good_match la lb mt" "on_path mt (length la) (length lb) i j"
    "\<forall>k < length la. i \<le> k \<longrightarrow> mt ! k = - 1"
  shows "good_match la lb (match_walk la lb dp i j mt)"
  using assms
proof (induction la lb dp i j mt rule: match_walk.induct)
  case (1 la lb dp i j mt)
  show ?case
  proof (cases "i < length la \<and> j < length lb")
    case in_range: True
    show ?thesis
    proof (cases "la ! i = lb ! j")
      case True
      have g: "good_match la lb (mt[i := int j])"
        unfolding good_match_def
      proof (intro conjI allI impI)
        fix k k' assume k: "k < length la" "k' < k" "0 \<le> mt[i := int j] ! k"
        then have "k \<le> i" using 1(6) in_range by (auto simp: nth_list_update_if split: if_splits)
        show "mt[i := int j] ! k' < mt[i := int j] ! k"
          using k \<open>k \<le> i\<close> 1(4,5) in_range
          by (cases "k = i") (auto simp: nth_list_update_if good_match_def on_path_def)
      qed (use 1(4) True in_range in \<open>auto simp: good_match_def nth_list_update_if\<close>)
      have p: "on_path (mt[i := int j]) (length la) (length lb) (i + 1) (j + 1)"
        using 1(4-6) in_range by (auto simp: on_path_def good_match_def nth_list_update_if less_Suc_eq)
      show ?thesis
        using 1(1) [OF in_range True g p] 1(6) in_range True by (subst match_walk.simps) simp
    next
      case False
      have "on_path mt (length la) (length lb) (i + 1) j" "on_path mt (length la) (length lb) i (j + 1)"
        using 1(5,6) in_range by (auto simp: on_path_def less_Suc_eq)
      then show ?thesis
        using 1(2,3) 1(4,6) in_range False by (subst match_walk.simps) auto
    qed
  next
    case False
    have "match_walk la lb dp i j mt = mt" by (subst match_walk.simps) (rule if_not_P [OF False])
    then show ?thesis using 1(4) by simp
  qed
qed

lemma match_walk_length [simp]: "length (match_walk la lb dp i j mt) = length mt"
proof (induction la lb dp i j mt rule: match_walk.induct)
  case (1 la lb dp i j mt)
  then show ?case by (subst match_walk.simps) simp
qed

lemma match_walk_matched:
  assumes "\<And>i j. i \<le> length la \<Longrightarrow> j \<le> length lb \<Longrightarrow> dp ! (i * (length lb + 1) + j) = suf_lcs la lb i j"
    and "i \<le> length la" "j \<le> length lb" "length mt = length la"
    and "\<forall>k < length la. i \<le> k \<longrightarrow> mt ! k = - 1"
  shows "matched (match_walk la lb dp i j mt) i (length la) = suf_lcs la lb i j"
  using assms
proof (induction la lb dp i j mt rule: match_walk.induct)
  case (1 la lb dp i j mt)
  show ?case
  proof (cases "i < length la \<and> j < length lb")
    case in_range: True
    note rec = suf_lcs_rec [of i la j lb]
    show ?thesis
    proof (cases "la ! i = lb ! j")
      case True
      let ?mt = "match_walk la lb dp (i + 1) (j + 1) (mt[i := int j])"
      have "matched ?mt (i + 1) (length la) = suf_lcs la lb (i + 1) (j + 1)"
        using 1(1) [OF in_range True 1(4)] 1(5-8) in_range by simp
      moreover have "?mt ! i = int j"
        using match_walk_unchanged [of i "i + 1"] 1(7) in_range by simp
      moreover have "match_walk la lb dp i j mt = ?mt"
        using in_range True by (simp add: match_walk.simps [of la lb dp i j])
      ultimately show ?thesis using rec in_range True by (simp add: matched_Suc_left)
    next
      case False
      have d: "dp ! ((i + 1) * (length lb + 1) + j) = suf_lcs la lb (i + 1) j"
        "dp ! (i * (length lb + 1) + j + 1) = suf_lcs la lb i (j + 1)"
        using 1(4) [of "i + 1" j] 1(4) [of i "j + 1"] in_range by simp_all
      show ?thesis
      proof (cases "suf_lcs la lb (i + 1) j \<ge> suf_lcs la lb i (j + 1)")
        case ge: True
        let ?mt = "match_walk la lb dp (i + 1) j mt"
        have w: "match_walk la lb dp i j mt = ?mt"
          using in_range False ge d by (simp add: match_walk.simps [of la lb dp i j])
        have "matched ?mt (i + 1) (length la) = suf_lcs la lb (i + 1) j"
          using 1(2) [OF in_range False] d ge 1(4-8) in_range by simp
        moreover have "?mt ! i = - 1"
          using match_walk_unchanged [of i "i + 1"] 1(8) in_range by simp
        ultimately show ?thesis using rec in_range False ge w by (simp add: matched_Suc_left)
      next
        case less: False
        have w: "match_walk la lb dp i j mt = match_walk la lb dp i (j + 1) mt"
          using in_range False less d by (simp add: match_walk.simps [of la lb dp i j])
        have "matched (match_walk la lb dp i (j + 1) mt) i (length la) = suf_lcs la lb i (j + 1)"
          using 1(3) [OF in_range False] d less 1(4-8) in_range by simp
        then show ?thesis using rec in_range False less w by simp
      qed
    qed
  next
    case False
    then have z: "suf_lcs la lb i j = 0" using 1(5,6) by (auto simp: suf_lcs_def)
    have "matched mt i (length la) = 0" using 1(8) by (auto simp: matched_def filter_empty_conv)
    moreover have "match_walk la lb dp i j mt = mt" by (subst match_walk.simps) (rule if_not_P [OF False])
    ultimately show ?thesis using z by simp
  qed
qed

lemma match_lines_good: "good_match la lb (match_lines la lb)"
  unfolding match_lines_def
  by (rule match_walk_good) (auto simp: good_match_def on_path_def)

lemma match_lines_matched:
  assumes "length la < 65536"
  shows "matched (match_lines la lb) 0 (length la) = lcs_len la lb"
proof -
  have "matched (match_walk la lb (dp_table la lb) 0 0 (replicate (length la) (- 1))) 0 (length la)
      = suf_lcs la lb 0 0"
    using dp_table_correct [OF assms] by (intro match_walk_matched) auto
  then show ?thesis by (simp add: match_lines_def suf_lcs_def)
qed

section \<open>The cursor loops\<close>

lemma on_path_step:
  assumes "good_match la lb mt" "on_path mt (length la) (length lb) i j" "i < length la"
  shows "mt ! i = int j \<Longrightarrow> on_path mt (length la) (length lb) (i + 1) (j + 1)"
    and "mt ! i < 0 \<or> mt ! i < int j \<Longrightarrow> mt ! i = - 1 \<and> on_path mt (length la) (length lb) (i + 1) j"
proof -
  show "on_path mt (length la) (length lb) (i + 1) (j + 1)" if e: "mt ! i = int j"
  proof -
    have "int j < mt ! k \<or> mt ! k < 0" if "k < length la" "i < k" for k
      using assms(1) that e unfolding good_match_def by (metis linorder_not_less)
    moreover have "j < length lb" using assms(1,3) e by (auto simp: good_match_def)
    ultimately show ?thesis
      using assms(2,3) e unfolding on_path_def
      by (auto simp: less_Suc_eq Suc_le_eq) fastforce+
  qed
  show "mt ! i = - 1 \<and> on_path mt (length la) (length lb) (i + 1) j" if "mt ! i < 0 \<or> mt ! i < int j"
  proof -
    have "mt ! i < 0" using assms(2,3) that by (auto simp: on_path_def)
    moreover have "- 1 \<le> mt ! i" using assms(1,3) by (auto simp: good_match_def)
    ultimately show ?thesis using assms(2,3) by (auto simp: on_path_def less_Suc_eq)
  qed
qed

lemma on_path_insert:
  assumes "on_path mt na nb i j" "j < nb" "i < na \<longrightarrow> mt ! i > int j" "good_match la lb mt" "na = length la"
  shows "on_path mt na nb i (j + 1)"
proof -
  have "mt ! k < 0 \<or> int (j + 1) \<le> mt ! k" if "k < na" "i \<le> k" for k
  proof (cases "k = i")
    case False
    then have "mt ! i < mt ! k" if "0 \<le> mt ! k"
      using assms(4,5) that \<open>k < na\<close> \<open>i \<le> k\<close> by (simp add: good_match_def)
    moreover have "i < na" using that by simp
    ultimately show ?thesis using assms(3) by fastforce
  qed (use assms that in auto)
  then show ?thesis using assms(1,2) by (auto simp: on_path_def)
qed

text \<open>An equal run: the cursors move along the diagonal over matched lines.\<close>

definition diagonal :: "int list \<Rightarrow> nat \<Rightarrow> nat \<Rightarrow> nat \<Rightarrow> nat \<Rightarrow> bool" where
  "diagonal mt i j i' j' \<longleftrightarrow> i \<le> i' \<and> j' = j + (i' - i) \<and> (\<forall>k < i' - i. mt ! (i + k) = int (j + k))"

lemma diagonal_Suc: "mt ! i = int j \<Longrightarrow> diagonal mt (i + 1) (j + 1) i' j' \<Longrightarrow> diagonal mt i j i' j'"
  unfolding diagonal_def
proof (intro conjI allI impI; elim conjE)
  fix k assume a: "mt ! i = int j" "\<forall>k<i' - (i + 1). mt ! (i + 1 + k) = int (j + 1 + k)" "k < i' - i"
  show "mt ! (i + k) = int (j + k)"
    using a by (cases k) auto
qed auto

lemma diagonal_prefix: "diagonal mt i j i' j' \<Longrightarrow> m \<le> i' - i \<Longrightarrow> diagonal mt i j (i + m) (j + m)"
  by (auto simp: diagonal_def)

lemma diagonal_suffix: "diagonal mt i j i' j' \<Longrightarrow> m \<le> i' - i \<Longrightarrow> diagonal mt (i + m) (j + m) i' j'"
  unfolding diagonal_def
proof (intro conjI allI impI; elim conjE)
  fix k assume a: "\<forall>k < i' - i. mt ! (i + k) = int (j + k)" "m \<le> i' - i" "k < i' - (i + m)"
  then have "mt ! (i + (m + k)) = int (j + (m + k))" by simp
  then show "mt ! (i + m + k) = int (j + m + k)" by (simp add: add.assoc)
qed auto

lemma equal_run_path:
  assumes "good_match la lb mt" "on_path mt (length la) (length lb) i j" "equal_run mt bound i j = (i', j')"
    "bound \<le> length la"
  shows "on_path mt (length la) (length lb) i' j' \<and> diagonal mt i j i' j' \<and> (i < i' \<longrightarrow> i' \<le> bound)"
  using assms
proof (induction mt bound i j rule: equal_run.induct)
  case (1 mt bound i j)
  show ?case
  proof (cases "i < bound \<and> mt ! i = int j")
    case True
    then have r: "equal_run mt bound (i + 1) (j + 1) = (i', j')"
      using 1(4) by (simp add: equal_run.simps [of mt bound i j])
    have p: "on_path mt (length la) (length lb) (i + 1) (j + 1)"
      using on_path_step(1) [OF 1(2,3)] True 1(5) by simp
    show ?thesis
      using 1(1) [OF True 1(2) p r 1(5)] True diagonal_Suc [of mt i j i' j'] equal_run_le [OF r]
      by (auto simp: diagonal_def)
  next
    case False
    then show ?thesis using 1(3,4) by (auto simp: equal_run.simps [of mt bound i j] diagonal_def)
  qed
qed

text \<open>A run that reaches the bound or is stopped only by it contains every shorter diagonal.\<close>

lemma equal_run_bounded:
  assumes "equal_run mt na i j = (i', j')" "i \<le> na" "bound \<le> na"
  shows "equal_run mt bound i j = (if bound \<le> i then (i, j) else (min bound i', j + (min bound i' - i)))"
  using assms
proof (induction mt na i j rule: equal_run.induct)
  case (1 mt na i j)
  show ?case
  proof (cases "i < na \<and> mt ! i = int j")
    case True
    then have r: "equal_run mt na (i + 1) (j + 1) = (i', j')"
      using 1(2) by (simp add: equal_run.simps [of mt na i j])
    have "i + 1 \<le> i'" using equal_run_le [OF r] by simp
    then show ?thesis
      using 1(1) [OF True r] 1(4) True by (auto simp: equal_run.simps [of mt bound i j] min_def)
  next
    case False
    then have "i' = i" "j' = j" using 1(2) by (auto simp: equal_run.simps [of mt na i j])
    then show ?thesis using False 1(3,4) by (auto simp: equal_run.simps [of mt bound i j])
  qed
qed

text \<open>How a changed region ends: at the end of both texts, at an equal run to that end, or before an
  equal run longer than two contexts; always right after a change.\<close>

definition region_end :: "int list \<Rightarrow> nat \<Rightarrow> nat \<Rightarrow> int \<Rightarrow> nat \<Rightarrow> nat \<Rightarrow> bool" where
  "region_end mt na nb ctx i j \<longleftrightarrow>
     (case equal_run mt na i j of (i', j') \<Rightarrow> na \<le> i' \<and> nb \<le> j' \<or> int (i' - i) > 2 * ctx)"

lemma ud_consume_path:
  assumes "good_match la lb mt" "on_path mt (length la) (length lb) ci cj"
    "ud_consume mt (length la) (length lb) ctx ci cj li lj = Some (ci', cj', li', lj')"
    "li = ci \<and> lj = cj \<or> \<not> (ci < length la \<and> mt ! ci = int cj) \<and> (ci < length la \<or> cj < length lb)"
    "0 \<le> ctx"
  shows "on_path mt (length la) (length lb) ci' cj' \<and> li' = ci' \<and> lj' = cj'
    \<and> region_end mt (length la) (length lb) ctx ci' cj'"
  using assms
proof (induction mt "length la" "length lb" ctx ci cj li lj rule: ud_consume.induct)
  case (1 mt ctx ci cj li lj)
  note prem = 1(7) [unfolded ud_consume.simps [of mt "length la" "length lb" ctx ci cj li lj]]
  obtain x y where run: "equal_run mt (length la) ci cj = (x, y)" by fastforce
  have nm: "equal_run mt (length la) ci cj = (ci, cj)" if "\<not> (ci < length la \<and> mt ! ci = int cj)"
    using that by (auto simp: equal_run.simps [of mt "length la" ci cj])
  show ?case
  proof (cases "ci < length la \<or> cj < length lb")
    case inside: True
    show ?thesis
    proof (cases "ci < length la \<and> mt ! ci = int cj")
      case eq: True
      then have last: "li = ci" "lj = cj" using 1(8) by auto
      show ?thesis
      proof (cases "length la \<le> x \<and> length lb \<le> y \<or> int (x - ci) > 2 * ctx")
        case True
        then have "(ci', cj', li', lj') = (ci, cj, li, lj)" using prem inside eq run by (auto split: if_splits)
        then show ?thesis using 1(6) last True run by (auto simp: region_end_def)
      next
        case False
        then have "ud_consume mt (length la) (length lb) ctx x y li lj = Some (ci', cj', li', lj')"
          and "\<not> 2147483647 < 2 * ctx"
          using prem inside eq run by (auto split: if_splits)
        moreover have "on_path mt (length la) (length lb) x y"
          using equal_run_path [OF 1(5,6) run] by simp
        moreover have "\<not> (x < length la \<and> mt ! x = int y)" using equal_run_maximal [OF run] .
        ultimately show ?thesis
          using 1(1) [OF inside eq run [symmetric]] False 1(5,9) by auto
      qed
    next
      case ne: False
      show ?thesis
      proof (cases "ci < length la \<and> (mt ! ci < 0 \<or> mt ! ci < int cj)")
        case True
        then have "ud_consume mt (length la) (length lb) ctx (ci + 1) cj (ci + 1) cj = Some (ci', cj', li', lj')"
          using prem inside ne by auto
        moreover have "on_path mt (length la) (length lb) (ci + 1) cj"
          using on_path_step(2) [OF 1(5,6)] True by simp
        ultimately show ?thesis using 1(2) [OF inside ne True 1(5)] 1(9) by simp
      next
        case nd: False
        show ?thesis
        proof (cases "cj < length lb")
          case True
          then have "ud_consume mt (length la) (length lb) ctx ci (cj + 1) ci (cj + 1) = Some (ci', cj', li', lj')"
            using prem inside ne nd by auto
          moreover have "on_path mt (length la) (length lb) ci (cj + 1)"
            by (rule on_path_insert [OF 1(6) True _ 1(5)]) (use ne nd in auto)
          ultimately show ?thesis using 1(3) [OF inside ne nd True 1(5)] 1(9) by simp
        next
          case end_b: False
          then have "ci < length la" "mt ! ci > int cj" using inside ne nd by auto
          then have False using 1(5) end_b by (auto simp: good_match_def)
          then show ?thesis ..
        qed
      qed
    qed
  next
    case False
    then have "(ci', cj', li', lj') = (ci, cj, li, lj)" using prem by auto
    then show ?thesis using 1(6,8) False nm by (auto simp: region_end_def)
  qed
qed

lemma ud_consume_defined: "2 * ctx \<le> 2147483647 \<Longrightarrow> ud_consume mt na nb ctx ci cj li lj \<noteq> None"
proof (induction mt na nb ctx ci cj li lj rule: ud_consume.induct)
  case (1 mt na nb ctx ci cj li lj)
  obtain x y where run: "equal_run mt na ci cj = (x, y)" by fastforce
  show ?case
    unfolding ud_consume.simps [of mt na nb ctx ci cj li lj] run prod.case
    using "1.IH"(1) [OF _ _ run [symmetric]] "1.IH"(2-4) "1.prems" by auto
qed

section \<open>What a patch means\<close>

text \<open>Items of a hunk body, by the side they count for.\<close>

fun is_body :: "ud_item \<Rightarrow> bool" where
  "is_body UHead = False"
| "is_body (UHunk _ _ _ _) = False"
| "is_body _ = True"

fun is_del :: "ud_item \<Rightarrow> bool" where
  "is_del (UDel _) = True"
| "is_del _ = False"

fun is_ins :: "ud_item \<Rightarrow> bool" where
  "is_ins (UIns _) = True"
| "is_ins _ = False"

definition n_dels :: "ud_item list \<Rightarrow> nat" where "n_dels is = length (filter is_del is)"
definition n_inss :: "ud_item list \<Rightarrow> nat" where "n_inss is = length (filter is_ins is)"

lemma n_simps [simp]:
  "n_dels [] = 0" "n_inss [] = 0"
  "n_dels (it # is) = (if is_del it then 1 else 0) + n_dels is"
  "n_inss (it # is) = (if is_ins it then 1 else 0) + n_inss is"
  "n_dels (is @ is') = n_dels is + n_dels is'"
  "n_inss (is @ is') = n_inss is + n_inss is'"
  by (simp_all add: n_dels_def n_inss_def)

text \<open>Strict application of a diff to the lines \<open>a\<close>, from line \<open>p\<close> on, after \<open>q\<close> lines of output:
  a hunk must start where its header says on both sides and have as many lines as it says, context
  and deleted lines must be the lines of \<open>a\<close>.\<close>

fun apply_patch :: "string list \<Rightarrow> nat \<Rightarrow> nat \<Rightarrow> ud_item list \<Rightarrow> string list option" where
  "apply_patch a p q [] = Some (drop p a)"
| "apply_patch a p q (UHead # is) = apply_patch a p q is"
| "apply_patch a p q (UHunk astart alen bstart blen # is) =
     (let s = (if alen > 0 then astart - 1 else astart);
          t = (if blen > 0 then bstart - 1 else bstart);
          body = takeWhile is_body is
      in if p \<le> s \<and> s \<le> length a \<and> t = q + (s - p)
            \<and> alen = length (filter (\<lambda>it. \<not> is_ins it) body)
            \<and> blen = length (filter (\<lambda>it. \<not> is_del it) body)
         then map_option ((@) (take (s - p) (drop p a))) (apply_patch a s t is)
         else None)"
| "apply_patch a p q (UCtx l # is) =
     (if p < length a \<and> a ! p = l then map_option ((#) l) (apply_patch a (p + 1) (q + 1) is) else None)"
| "apply_patch a p q (UDel l # is) =
     (if p < length a \<and> a ! p = l then apply_patch a (p + 1) q is else None)"
| "apply_patch a p q (UIns l # is) = map_option ((#) l) (apply_patch a p (q + 1) is)"

lemma apply_patch_length:
  "apply_patch a p q is = Some b \<Longrightarrow> p \<le> length a \<Longrightarrow> length b + n_dels is + p = length a + n_inss is"
proof (induction a p q "is" arbitrary: b rule: apply_patch.induct)
  case (3 a p q astart alen bstart blen "is")
  then show ?case by (fastforce simp: Let_def split: if_splits)
qed (auto split: if_splits)

section \<open>The body of a hunk\<close>

lemma ud_emit_path:
  assumes "good_match la lb mt" "on_path mt (length la) (length lb) ei ej"
    "on_path mt (length la) (length lb) hi hj" "ei \<le> hi" "ej \<le> hj"
  defines "body \<equiv> ud_emit la lb mt hi hj ei ej"
  shows "(\<forall>it \<in> set body. is_body it)
    \<and> length (filter (\<lambda>it. \<not> is_ins it) body) = hi - ei
    \<and> length (filter (\<lambda>it. \<not> is_del it) body) = hj - ej
    \<and> n_dels body + matched mt ei hi = hi - ei
    \<and> (\<forall>q rest. apply_patch la ei q (body @ rest)
         = map_option ((@) (take (hj - ej) (drop ej lb))) (apply_patch la hi (q + (hj - ej)) rest))"
  using assms(1-5) unfolding body_def
proof (induction la lb mt hi hj ei ej rule: ud_emit.induct)
  case (1 la lb mt hi hj ei ej)
  note e = ud_emit.simps [of la lb mt hi hj ei ej]
  have lens: "hi \<le> length la" "hj \<le> length lb" using 1(8) by (auto simp: on_path_def)
  have below: "mt ! ei < int hj" if "ei < hi" using 1(8) that by (simp add: on_path_def)
  have above: "mt ! ei < 0 \<or> int ej \<le> mt ! ei" if "ei < hi" using 1(7) that lens by (simp add: on_path_def)
  show ?case
  proof (cases "ei < hi")
    case ei: True
    then have ela: "ei < length la" using lens by simp
    consider (eq) "mt ! ei = int ej" | (del) "mt ! ei < 0" | (ins) "int ej < mt ! ei"
      using above [OF ei] by linarith
    then show ?thesis
    proof cases
      case eq
      then have ej: "ej < hj" and same: "la ! ei = lb ! ej"
        using below [OF ei] 1(6) ela by (auto simp: good_match_def)
      have b: "ud_emit la lb mt hi hj ei ej = UCtx (la ! ei) # ud_emit la lb mt hi hj (ei + 1) (ej + 1)"
        using ei ela eq by (simp add: e)
      have "on_path mt (length la) (length lb) (ei + 1) (ej + 1)"
        using on_path_step(1) [OF 1(6,7) ela eq] .
      note IH = 1(1) [OF _ _ 1(6) this 1(8)]
      have "take (hj - ej) (drop ej lb) = lb ! ej # take (hj - (ej + 1)) (drop (ej + 1) lb)"
        using ej lens by (simp add: take_Cons' flip: Cons_nth_drop_Suc)
      then show ?thesis
        using IH ei ela ej eq same unfolding b
        by (auto simp: matched_Suc_left option.map_comp comp_def Suc_diff_Suc)
    next
      case del
      have b: "ud_emit la lb mt hi hj ei ej = UDel (la ! ei) # ud_emit la lb mt hi hj (ei + 1) ej"
        using ei ela del by (simp add: e)
      have "on_path mt (length la) (length lb) (ei + 1) ej"
        using on_path_step(2) [OF 1(6,7) ela] del by simp
      note IH = 1(2) [OF _ _ _ _ 1(6) this 1(8)]
      show ?thesis
        using IH ei ela del 1(10) unfolding b by (auto simp: matched_Suc_left)
    next
      case ins
      then have ej: "ej < hj" using below [OF ei] by linarith
      have b: "ud_emit la lb mt hi hj ei ej = UIns (lb ! ej) # ud_emit la lb mt hi hj ei (ej + 1)"
        using ei ela ins below [OF ei] by (simp add: e)
      have "on_path mt (length la) (length lb) ei (ej + 1)"
        using on_path_insert [OF 1(7) _ _ 1(6)] ins ej lens by simp
      note IH = 1(3) [OF _ _ _ _ 1(6) this 1(8)]
      have "take (hj - ej) (drop ej lb) = lb ! ej # take (hj - (ej + 1)) (drop (ej + 1) lb)"
        using ej lens by (simp add: take_Cons' flip: Cons_nth_drop_Suc)
      then show ?thesis
        using IH ei ela ej ins below [OF ei] unfolding b
        by (auto simp: option.map_comp comp_def Suc_diff_Suc)
    qed
  next
    case False
    then have hi: "hi = ei" using 1(9) by simp
    show ?thesis
    proof (cases "ej < hj")
      case True
      have b: "ud_emit la lb mt hi hj ei ej = UIns (lb ! ej) # ud_emit la lb mt hi hj ei (ej + 1)"
        using False True lens by (simp add: e)
      have "on_path mt (length la) (length lb) ei (ej + 1)"
        using 1(7,8) hi True by (auto simp: on_path_def)
      note IH = 1(4) [OF _ _ _ _ 1(6) this 1(8)]
      have "take (hj - ej) (drop ej lb) = lb ! ej # take (hj - (ej + 1)) (drop (ej + 1) lb)"
        using True lens by (simp add: take_Cons' flip: Cons_nth_drop_Suc)
      then show ?thesis
        using IH False True lens hi unfolding b
        by (auto simp: option.map_comp comp_def Suc_diff_Suc)
    next
      case end_b: False
      then have "hj = ej" using 1(10) by simp
      moreover have "ud_emit la lb mt hi hj ei ej = []" using False end_b by (simp add: e)
      ultimately show ?thesis using hi by (simp add: matched_def option.map_ident)
    qed
  qed
qed

section \<open>The diff is a minimal patch\<close>

lemma diagonal_lines:
  assumes "good_match la lb mt" "diagonal mt i j i' j'" "i' \<le> length la"
  shows "take (i' - i) (drop i la) = take (j' - j) (drop j lb)" "matched mt i i' = i' - i"
proof -
  have k: "mt ! (i + k) = int (j + k) \<and> j + k < length lb \<and> la ! (i + k) = lb ! (j + k)" if "k < i' - i" for k
  proof -
    have m: "mt ! (i + k) = int (j + k)" using assms(2) that by (simp add: diagonal_def)
    moreover have "i + k < length la" using assms(3) that by simp
    ultimately have "int (j + k) < int (length lb)" "la ! (i + k) = lb ! nat (int (j + k))"
      using assms(1) unfolding good_match_def by (metis, metis of_nat_0_le_iff)
    then show ?thesis using m by (simp del: of_nat_add)
  qed
  have j: "j' - j = i' - i" using assms(2) by (simp add: diagonal_def)
  have "j + (i' - i) \<le> length lb \<or> i' = i"
    using k [of "i' - i - 1"] assms(2) by (cases "i' - i") (auto simp: diagonal_def)
  then show "take (i' - i) (drop i la) = take (j' - j) (drop j lb)"
    unfolding j using assms(3) k by (intro nth_equalityI) auto
  have "filter (\<lambda>k. 0 \<le> mt ! k) [i..<i'] = [i..<i']"
  proof (intro filter_True ballI)
    fix x assume "x \<in> set [i..<i']"
    then obtain d where "x = i + d" "d < i' - i" by (auto simp: le_iff_add)
    then show "0 \<le> mt ! x" using k [of d] by simp
  qed
  then show "matched mt i i' = i' - i" by (simp add: matched_def)
qed

lemma matched_split: "i \<le> j \<Longrightarrow> j \<le> k \<Longrightarrow> matched mt i k = matched mt i j + matched mt j k"
  unfolding matched_def by (metis filter_append length_append le_Suc_ex upt_add_eq_append)

lemma takeWhile_body: "\<forall>it \<in> set body. is_body it \<Longrightarrow> rest = [] \<or> \<not> is_body (List.hd rest)
    \<Longrightarrow> takeWhile is_body (body @ rest) = body"
  by (cases rest) auto

lemma ud_hunk_head: "ud_hunk la lb mt ctx ai i j li lj = Some h \<Longrightarrow> h \<noteq> [] \<and> \<not> is_body (List.hd h)"
  unfolding ud_hunk_def Let_def by (simp only: split: if_splits) (auto simp del: is_body.simps(3-))

lemma ud_hunks_head:
  assumes "ud_hunks la lb mt ctx i j = Some is"
  shows "is = [] \<or> \<not> is_body (List.hd is)"
proof -
  obtain i' j' where r: "equal_run mt (length la) i j = (i', j')" by fastforce
  show ?thesis
    using assms unfolding ud_hunks.simps [of la lb mt ctx i j] r prod.case
    by (simp only: split: if_splits option.splits prod.splits) (auto dest: ud_hunk_head)
qed

lemma hunk_start_bounds:
  assumes "i0 \<le> i" "0 \<le> ctx"
  shows "hunk_start ctx i0 i \<le> i" "i0 < i \<Longrightarrow> int (i - hunk_start ctx i0 i) \<le> ctx"
    "i0 = i \<Longrightarrow> hunk_start ctx i0 i = i" "i0 < i \<Longrightarrow> hunk_start ctx i0 i = nat (int i - ctx)"
  using assms by (auto simp: hunk_start_def Let_def)

text \<open>One hunk: from its start on the equal run before the change to the end of its context.\<close>

lemma ud_hunk_patch:
  assumes g: "good_match la lb mt"
    and path: "on_path mt (length la) (length lb) ai bj" "on_path mt (length la) (length lb) ei ej"
    and le: "ai \<le> ei" "bj \<le> ej" and p: "pp \<le> ai" "bj = q + (ai - pp)"
    and hunk: "h = UHunk (if ei - ai > 0 then ai + 1 else ai) (ei - ai) (if ej - bj > 0 then bj + 1 else bj) (ej - bj)
            # ud_emit la lb mt ei ej ai bj"
    and rest: "rest = [] \<or> \<not> is_body (List.hd rest)"
  shows "apply_patch la pp q (h @ rest)
      = map_option ((@) (take (ai - pp) (drop pp la) @ take (ej - bj) (drop bj lb))) (apply_patch la ei ej rest)"
    and "n_dels h + matched mt ai ei = ei - ai"
proof -
  let ?body = "ud_emit la lb mt ei ej ai bj"
  note b = ud_emit_path [OF g path le]
  have tw: "takeWhile is_body (?body @ rest) = ?body"
    using b rest by (intro takeWhile_body) auto
  have "ai \<le> length la" using path(1) by (simp add: on_path_def)
  then show "apply_patch la pp q (h @ rest)
      = map_option ((@) (take (ai - pp) (drop pp la) @ take (ej - bj) (drop bj lb))) (apply_patch la ei ej rest)"
  proof -
    have body: "apply_patch la ai bj (?body @ rest)
        = map_option ((@) (take (ej - bj) (drop bj lb))) (apply_patch la ei ej rest)"
      using b le(2) by simp
    have hd: "ei - ai = length (filter (\<lambda>it. \<not> is_ins it) ?body)"
      "ej - bj = length (filter (\<lambda>it. \<not> is_del it) ?body)"
      using b by simp_all
    have "apply_patch la pp q (UHunk (if ei - ai > 0 then ai + 1 else ai) (ei - ai)
          (if ej - bj > 0 then bj + 1 else bj) (ej - bj) # ?body @ rest)
        = map_option ((@) (take (ai - pp) (drop pp la))) (apply_patch la ai bj (?body @ rest))"
      using p \<open>ai \<le> length la\<close> tw hd by (simp add: Let_def del: filter.simps)
    moreover have "(\<lambda>x. take (ai - pp) (drop pp la) @ take (ej - bj) (drop bj lb) @ x)
        = (@) (take (ai - pp) (drop pp la) @ take (ej - bj) (drop bj lb))" by (rule ext) simp
    ultimately show ?thesis unfolding hunk append_Cons body option.map_comp comp_def by simp
  qed
  show "n_dels h + matched mt ai ei = ei - ai"
    unfolding hunk using b by simp
qed

text \<open>The position \<open>(pp, qq)\<close> reached by the hunks so far lies on the equal run that starts at
  \<open>(i0, j0)\<close>, no further than the next hunk will start.\<close>

definition hunk_entry :: "int list \<Rightarrow> nat \<Rightarrow> nat \<Rightarrow> int \<Rightarrow> nat \<Rightarrow> nat \<Rightarrow> nat \<Rightarrow> nat \<Rightarrow> bool" where
  "hunk_entry mt na nb ctx i0 j0 pp qq \<longleftrightarrow>
     on_path mt na nb i0 j0
     \<and> (case equal_run mt na i0 j0 of (i, j) \<Rightarrow>
          i0 \<le> pp \<and> pp \<le> i \<and> qq = j0 + (pp - i0)
          \<and> (na \<le> i \<and> nb \<le> j \<or> pp \<le> hunk_start ctx i0 i))"

theorem ud_hunks_patch:
  assumes "good_match la lb mt" "0 \<le> ctx" "hunk_entry mt (length la) (length lb) ctx i0 j0 pp qq"
    and "2 * ctx \<le> 2147483647" "int (length la) + ctx \<le> 2147483647"
  shows "\<exists>is. ud_hunks la lb mt ctx i0 j0 = Some is \<and> apply_patch la pp qq is = Some (drop qq lb)
    \<and> n_dels is + matched mt pp (length la) = length la - pp"
  using assms
proof (induction la lb mt ctx i0 j0 arbitrary: pp qq rule: ud_hunks.induct)
  case (1 la lb mt ctx i0 j0)
  let ?na = "length la" and ?nb = "length lb"
  obtain i j where run: "equal_run mt ?na i0 j0 = (i, j)" by fastforce
  have path0: "on_path mt ?na ?nb i0 j0" and p: "i0 \<le> pp" "pp \<le> i" "qq = j0 + (pp - i0)"
    and st: "?na \<le> i \<and> ?nb \<le> j \<or> pp \<le> hunk_start ctx i0 i"
    using 1(4) run by (auto simp: hunk_entry_def)
  have path: "on_path mt ?na ?nb i j" and dia: "diagonal mt i0 j0 i j"
    using equal_run_path [OF 1(2) path0 run] by auto
  have i_le: "i \<le> ?na" "j \<le> ?nb" using path by (auto simp: on_path_def)
  have dia_p: "diagonal mt pp qq i j"
    using diagonal_suffix [OF dia, of "pp - i0"] p by simp
  show ?case
  proof (cases "i0 < ?na \<or> j0 < ?nb")
    case False
    then have "i = i0" "j = j0" using i_le equal_run_le [OF run] path0 by (auto simp: on_path_def)
    moreover have "ud_hunks la lb mt ctx i0 j0 = Some []"
      using False by (simp add: ud_hunks.simps [of la lb mt ctx i0 j0])
    ultimately show ?thesis using p False by (auto simp: matched_def)
  next
    case inside: True
    show ?thesis
    proof (cases "?na \<le> i \<and> ?nb \<le> j")
      case True
      then have ij: "i = ?na" "j = ?nb" using i_le by auto
      have "ud_hunks la lb mt ctx i0 j0 = Some []"
        using inside True run by (simp add: ud_hunks.simps [of la lb mt ctx i0 j0])
      then show ?thesis
        using diagonal_lines [OF 1(2) dia_p i_le(1)] ij by simp
    next
      case nend: False
      obtain ci cj li lj where con: "ud_consume mt ?na ?nb ctx i j i j = Some (ci, cj, li, lj)"
        using ud_consume_defined [OF 1(5)] by (metis not_None_eq prod_cases4)
      have cpath: "on_path mt ?na ?nb ci cj" and last: "li = ci" "lj = cj"
        and rend: "region_end mt ?na ?nb ctx ci cj"
        using ud_consume_path [OF 1(2) path con] 1(3) by auto
      have cle: "i \<le> ci" "j \<le> cj" using ud_consume_le [OF con] by auto
      obtain i2 j2 where run2: "equal_run mt ?na ci cj = (i2, j2)" by fastforce
      have ci_le: "ci \<le> ?na" "cj \<le> ?nb" using cpath by (auto simp: on_path_def)
      have dia2: "diagonal mt ci cj i2 j2" and i2: "i2 \<le> ?na"
        using equal_run_path [OF 1(2) cpath run2 order_refl] ci_le by (auto simp: on_path_def)
      define ei ej where "ei = fst (equal_run mt (min ?na (nat (int ci + ctx))) ci cj)"
        and "ej = cj + (ei - ci)"
      define ai bj where "ai = hunk_start ctx i0 i" and "bj = j - (i - ai)"
      have rb: "equal_run mt (min ?na (nat (int ci + ctx))) ci cj = (ei, ej)"
        using equal_run_bounded [OF run2 ci_le(1), of "min ?na (nat (int ci + ctx))"]
        by (auto simp: ei_def ej_def)
      have epath: "on_path mt ?na ?nb ei ej"
        using equal_run_path [OF 1(2) cpath rb] by simp
      have ei: "ci \<le> ei" "ei \<le> i2" "int (ei - ci) \<le> ctx"
      proof -
        define B where "B = min ?na (nat (int ci + ctx))"
        have "ei = (if B \<le> ci then ci else min B i2)"
          using equal_run_bounded [OF run2 ci_le(1), of B] rb by (simp add: B_def split: if_splits)
        moreover have "ci \<le> i2" using dia2 by (simp add: diagonal_def)
        moreover have "int B \<le> int ci + ctx" using 1(3) by (simp add: B_def)
        ultimately show "ci \<le> ei" "ei \<le> i2" "int (ei - ci) \<le> ctx" using 1(3)
          by (auto simp: min_def)
      qed
      have hs: "ai \<le> i" "pp \<le> ai" "i0 \<le> ai"
        using hunk_start_bounds(1) [of i0 i ctx] st nend p 1(3) by (auto simp: ai_def)
      have dai: "diagonal mt pp qq ai bj" "diagonal mt ai bj i j"
      proof -
        have j: "j = qq + (i - pp)" using dia_p by (simp add: diagonal_def)
        then have "bj = qq + (ai - pp)" using hs by (simp add: bj_def)
        then show "diagonal mt pp qq ai bj" "diagonal mt ai bj i j"
          using diagonal_prefix [OF dia_p, of "ai - pp"] diagonal_suffix [OF dia_p, of "ai - pp"] hs
          by simp_all
      qed
      have apath: "on_path mt ?na ?nb ai bj"
      proof -
        have "equal_run mt ai i0 j0 = (ai, bj)"
          using equal_run_bounded [OF run, of ai] hs i_le path0 dai(1) p
          by (auto simp: on_path_def diagonal_def min_def)
        then show ?thesis using equal_run_path [OF 1(2) path0] hs i_le by fastforce
      qed
      define h where "h = UHunk (if ei - ai > 0 then ai + 1 else ai) (ei - ai) (if ej - bj > 0 then bj + 1 else bj) (ej - bj)
          # ud_emit la lb mt ei ej ai bj"
      have hunk: "ud_hunk la lb mt ctx ai i j li lj = Some h"
        using 1(6) ci_le(1) by (simp add: ud_hunk_def Let_def last h_def flip: ei_def ej_def bj_def)
      have le: "ai \<le> ei" "bj \<le> ej" using hs cle ei by (auto simp: bj_def ej_def)
      have bq: "bj = qq + (ai - pp)" using dai(1) by (simp add: diagonal_def)
      have entry: "hunk_entry mt ?na ?nb ctx ci cj ei ej"
        using cpath run2 ei rend 1(3) unfolding hunk_entry_def region_end_def
        by (auto simp: ej_def hunk_start_bounds(4))
      obtain rest where IH: "ud_hunks la lb mt ctx ci cj = Some rest" "apply_patch la ei ej rest = Some (drop ej lb)"
          "n_dels rest + matched mt ei ?na = ?na - ei"
        using 1(1) [OF inside run [symmetric] nend con refl refl refl hunk [unfolded ai_def] 1(2,3) entry 1(5,6)] by blast
      have unf: "ud_hunks la lb mt ctx i0 j0 = Some (h @ rest)"
        unfolding ud_hunks.simps [of la lb mt ctx i0 j0] if_P [OF inside] run prod.case if_not_P [OF nend] con option.case
          hunk [unfolded ai_def] IH(1) by simp
      note H = ud_hunk_patch [OF 1(2) apath epath le hs(2) bq h_def ud_hunks_head [OF IH(1)]]
      have lines: "take (ai - pp) (drop pp la) = take (bj - qq) (drop qq lb)"
        and ma: "matched mt pp ai = ai - pp"
        using diagonal_lines [OF 1(2) dai(1)] hs i_le by auto
      have "ej \<le> ?nb" "ei \<le> ?na" using epath by (auto simp: on_path_def)
      then have "take (bj - qq) (drop qq lb) @ take (ej - bj) (drop bj lb) @ drop ej lb = drop qq lb"
        using le bq by (metis append.assoc append_take_drop_id drop_drop le_add1 le_add_diff_inverse2)
      then have "apply_patch la pp qq (h @ rest) = Some (drop qq lb)"
        unfolding H(1) using IH(2) lines by simp
      moreover have "matched mt pp ?na = matched mt pp ai + matched mt ai ei + matched mt ei ?na"
        using matched_split [of pp ai ?na mt] matched_split [of ai ei ?na mt] hs le \<open>ei \<le> ?na\<close> by simp
      then have "n_dels (h @ rest) + matched mt pp ?na = ?na - pp"
        unfolding n_simps using H(2) IH(3) ma hs le \<open>ei \<le> ?na\<close> by arith
      ultimately show ?thesis using unf by blast
    qed
  qed
qed

lemma split_loop_unfold:
  "split_loop n s =
     (if n = 0 then []
      else let t = dropWhile (\<lambda>c. c = CHR 0x0A) s
           in if t = [] then []
              else takeWhile (\<lambda>c. c \<noteq> CHR 0x0A) t # split_loop (n - 1) (dropWhile (\<lambda>c. c \<noteq> CHR 0x0A) t))"
  by (cases n) (simp_all add: Let_def)

lemma split_loop_length: "length (split_loop n s) \<le> n"
  by (induction n arbitrary: s) (auto simp: Let_def)

lemma split_lines_length: "length (split_lines t n) \<le> n"
  by (auto simp: split_lines_def split_loop_length split: option.splits)

text \<open>C2. Every unified diff with at most \<open>2 ^ 30 - 1\<close> context lines (a negative number means 3) is a
  correct and minimal patch: no int overflows, the hunks, applied strictly (each header must give the
  right start and length on both sides, context and deleted lines must be those of the first text),
  turn the lines of the first text into the lines of the second; and the numbers of deleted and
  inserted lines are the least possible, all lines but those of a longest common subsequence. Lines are
  what \<open>split_lines\<close> makes of a text: at most 2048, none of them empty. With more context lines an int
  can overflow (\<open>unified_diff_overflows\<close>).\<close>

theorem unified_diff_minimal_patch:
  assumes "context_lines \<le> 2 ^ 30 - 1"
  shows "\<exists>diff. ud_items a b context_lines = Some diff \<and>
      (let la = split_lines a MAX_LINES; lb = split_lines b MAX_LINES;
           common = Max (length ` {zs. subseq zs la \<and> subseq zs lb})
       in apply_patch la 0 0 diff = Some lb
          \<and> n_dels diff + common = length la \<and> n_inss diff + common = length lb)"
proof -
  let ?la = "split_lines a MAX_LINES" and ?lb = "split_lines b MAX_LINES"
  let ?ctx = "if context_lines < 0 then 3 else context_lines" and ?mt = "match_lines ?la ?lb"
  have g: "good_match ?la ?lb ?mt" by (rule match_lines_good)
  have l: "length ?la \<le> 2048" using split_lines_length [of a MAX_LINES] by (simp add: MAX_LINES_def)
  have e: "hunk_entry ?mt (length ?la) (length ?lb) ?ctx 0 0 0 0"
    by (auto simp: hunk_entry_def on_path_def split: prod.splits)
  have c: "0 \<le> ?ctx" "2 * ?ctx \<le> 2147483647" "int (length ?la) + ?ctx \<le> 2147483647" using assms l by (auto split: if_split)
  obtain "is" where H: "ud_hunks ?la ?lb ?mt ?ctx 0 0 = Some is" "apply_patch ?la 0 0 is = Some ?lb"
      "n_dels is + matched ?mt 0 (length ?la) = length ?la"
    using ud_hunks_patch [OF g c(1) e c(2,3)] by auto
  have d: "ud_items a b context_lines = Some (UHead # is)"
    using H(1) by (simp add: ud_items_def Let_def)
  have "matched ?mt 0 (length ?la) = Max (length ` {zs. subseq zs ?la \<and> subseq zs ?lb})"
    using l by (simp add: match_lines_matched lcs_len_Max common_subseqs_def)
  then show ?thesis using H(2,3) d apply_patch_length [OF H(2)] by (simp add: Let_def)
qed

theorem unified_diff_minimal_patch_witness:
  "\<exists>diff. ud_items (Some ''a'') (Some ''b'') 3 = Some diff \<and> apply_patch [''a''] 0 0 diff = Some [''b'']"
proof -
  have "split_lines (Some ''a'') MAX_LINES = [''a'']" "split_lines (Some ''b'') MAX_LINES = [''b'']"
    by (simp_all add: MAX_LINES_def split_lines_def Let_def split_loop_unfold [of 2048]
      split_loop_unfold [of 2047] split_loop_unfold [of 2046] split_loop_unfold [of 2045])
  then show ?thesis using unified_diff_minimal_patch [of 3 "Some ''a''" "Some ''b''"] by (auto simp: Let_def)
qed

text \<open>From \<open>2 ^ 30\<close> context lines on, the length of a run between two changes is compared with an
  overflowing product; near the largest int the end of the trailing context overflows as well.\<close>

lemma unified_diff_overflows:
  "ud_items (Some [CHR ''a'', CHR 0x0A, CHR ''b'']) (Some [CHR ''x'', CHR 0x0A, CHR ''b'', CHR 0x0A, CHR ''y'']) 1073741824 = None"
  "ud_items (Some ''a'') (Some ''b'') 2147483647 = None"
proof -
  have l: "split_lines (Some [CHR ''a'', CHR 0x0A, CHR ''b'']) MAX_LINES = [''a'', ''b'']"
    "split_lines (Some [CHR ''x'', CHR 0x0A, CHR ''b'', CHR 0x0A, CHR ''y'']) MAX_LINES = [''x'', ''b'', ''y'']"
    "split_lines (Some ''a'') MAX_LINES = [''a'']" "split_lines (Some ''b'') MAX_LINES = [''b'']"
    by (simp_all add: MAX_LINES_def split_lines_def Let_def split_loop_unfold [of 2048]
      split_loop_unfold [of 2047] split_loop_unfold [of 2046] split_loop_unfold [of 2045])
  have u: "rev [0..<2] = [1, 0 :: nat]" "rev [0..<3] = [2, 1, 0 :: nat]"
    "replicate 12 0 = [0, 0, 0, 0, 0, 0, 0, 0, 0, 0, 0, 0 :: nat]" "replicate 4 0 = [0, 0, 0, 0 :: nat]" by code_simp+
  have d: "dp_table [''a'', ''b''] [''x'', ''b'', ''y''] = [1, 1, 0, 0, 1, 1, 0, 0, 0, 0, 0, 0]" "dp_table [''a''] [''b''] = [0, 0, 0, 0]"
    by (simp_all add: dp_table_def dp_cell_def u)
  have m: "match_lines [''a'', ''b''] [''x'', ''b'', ''y''] = [-1, 1]" "match_lines [''a''] [''b''] = [-1]"
    unfolding match_lines_def d by (subst match_walk.simps, simp)+
  have c: "ud_consume [-1, 1] 2 3 1073741824 0 0 0 0 = None" "ud_consume [-1] 1 1 2147483647 0 0 0 0 = Some (1, 1, 1, 1)"
    by code_simp+
  show "ud_items (Some [CHR ''a'', CHR 0x0A, CHR ''b'']) (Some [CHR ''x'', CHR 0x0A, CHR ''b'', CHR 0x0A, CHR ''y'']) 1073741824 = None"
    unfolding ud_items_def l m Let_def using c(1) [unfolded numeral_2_eq_2 numeral_3_eq_3] by (subst ud_hunks.simps) (simp add: equal_run.simps)
  show "ud_items (Some ''a'') (Some ''b'') 2147483647 = None"
    unfolding ud_items_def l m Let_def using c(2) by (subst ud_hunks.simps) (simp add: equal_run.simps ud_hunk_def)
qed

end
