(* ===== verification/Difflib_Correct.thy ===== *)
theory Difflib_Correct
  imports Difflib_Patch "HOL-Library.Multiset"
begin

text \<open>
  The matching blocks of \<open>Difflib\<close>: what the longest matching block is, how the queue keeps the
  blocks and the pending rectangles apart, and what follows for opcodes, ratios and close matches.
\<close>

section \<open>The longest matching block\<close>

definition is_block :: "'a list \<Rightarrow> 'a list \<Rightarrow> quad \<Rightarrow> nat \<Rightarrow> nat \<Rightarrow> nat \<Rightarrow> bool" where
  "is_block a b q i j k \<longleftrightarrow>
     (case q of (alo, ahi, blo, bhi) \<Rightarrow>
        alo \<le> i \<and> i + k \<le> ahi \<and> blo \<le> j \<and> j + k \<le> bhi \<and> (\<forall>d < k. a ! (i + d) = b ! (j + d)))"

text \<open>The length of the longest block that ends at a cell.\<close>

fun run_len :: "'a list \<Rightarrow> 'a list \<Rightarrow> nat \<Rightarrow> nat \<Rightarrow> nat \<Rightarrow> nat \<Rightarrow> nat" where
  "run_len a b alo blo i j =
     (if a ! i \<noteq> b ! j then 0
      else if alo < i \<and> blo < j then run_len a b alo blo (i - 1) (j - 1) + 1 else 1)"

declare run_len.simps [simp del]

lemma run_len_le:
  "alo \<le> i \<Longrightarrow> blo \<le> j \<Longrightarrow> run_len a b alo blo i j \<le> i + 1 - alo \<and> run_len a b alo blo i j \<le> j + 1 - blo"
proof (induction a b alo blo i j rule: run_len.induct)
  case (1 a b alo blo i j)
  show ?case
  proof (cases "a ! i = b ! j \<and> alo < i \<and> blo < j")
    case True
    then have "run_len a b alo blo (i - 1) (j - 1) \<le> i - 1 + 1 - alo
        \<and> run_len a b alo blo (i - 1) (j - 1) \<le> j - 1 + 1 - blo"
      by (intro 1(1)) auto
    then show ?thesis using True by (simp add: run_len.simps [of a b alo blo i j]) linarith
  next
    case False
    then show ?thesis using 1(2,3) by (auto simp: run_len.simps [of a b alo blo i j])
  qed
qed

lemma run_len_block:
  "alo \<le> i \<Longrightarrow> blo \<le> j \<Longrightarrow> d < run_len a b alo blo i j \<Longrightarrow> a ! (i - d) = b ! (j - d)"
proof (induction a b alo blo i j arbitrary: d rule: run_len.induct)
  case (1 a b alo blo i j)
  show ?case
  proof (cases d)
    case 0
    then show ?thesis using 1(4) by (simp add: run_len.simps [of a b alo blo i j] split: if_splits)
  next
    case (Suc d')
    then have s: "a ! i = b ! j" "alo < i \<and> blo < j" "d' < run_len a b alo blo (i - 1) (j - 1)"
      using 1(4) by (simp_all add: run_len.simps [of a b alo blo i j] split: if_splits)
    then have "a ! (i - 1 - d') = b ! (j - 1 - d')" by (intro 1(1)) auto
    then show ?thesis using Suc by simp
  qed
qed

lemma run_len_longest:
  "(\<forall>d < k. a ! (i - d) = b ! (j - d)) \<Longrightarrow> k \<le> i + 1 - alo \<Longrightarrow> k \<le> j + 1 - blo
    \<Longrightarrow> k \<le> run_len a b alo blo i j"
proof (induction a b alo blo i j arbitrary: k rule: run_len.induct)
  case (1 a b alo blo i j)
  show ?case
  proof (cases k)
    case (Suc k')
    have e: "a ! i = b ! j" using 1(2) Suc by (auto dest: spec [of _ 0])
    show ?thesis
    proof (cases "alo < i \<and> blo < j")
      case True
      have "a ! (i - 1 - d) = b ! (j - 1 - d)" if "d < k'" for d
        using 1(2) [rule_format, of "Suc d"] Suc that by simp
      then have "k' \<le> run_len a b alo blo (i - 1) (j - 1)"
        using 1(1) [of k'] e True 1(3,4) Suc by auto
      then show ?thesis using Suc e True by (simp add: run_len.simps [of a b alo blo i j])
    next
      case False
      then have "k \<le> 1" using 1(3,4) by auto
      then show ?thesis using e False by (simp add: run_len.simps [of a b alo blo i j])
    qed
  qed simp
qed

text \<open>The best block among the cells visited, in the order of the scan.\<close>

definition lex_le :: "nat \<times> nat \<Rightarrow> nat \<times> nat \<Rightarrow> bool" where
  "lex_le c d \<longleftrightarrow> fst c < fst d \<or> fst c = fst d \<and> snd c \<le> snd d"

definition best_of :: "('a list) \<Rightarrow> 'a list \<Rightarrow> nat \<Rightarrow> nat \<Rightarrow> (nat \<times> nat) set \<Rightarrow> nat \<times> nat \<times> nat \<Rightarrow> bool" where
  "best_of a b alo blo C best \<longleftrightarrow>
     (case best of (bi, bj, bs) \<Rightarrow>
        (\<forall>(i, j) \<in> C. run_len a b alo blo i j \<le> bs)
        \<and> (if bs = 0 then bi = alo \<and> bj = blo
           else \<exists>(i, j) \<in> C. run_len a b alo blo i j = bs \<and> bi = i + 1 - bs \<and> bj = j + 1 - bs
                  \<and> (\<forall>(i', j') \<in> C. run_len a b alo blo i' j' = bs \<longrightarrow> lex_le (i, j) (i', j'))))"

lemma best_of_insert:
  assumes "best_of a b alo blo C (bi, bj, bs)" "\<forall>c \<in> C. lex_le c (i, j)"
  defines "k \<equiv> run_len a b alo blo i j"
  shows "best_of a b alo blo (insert (i, j) C) (if k > bs then (i + 1 - k, j + 1 - k, k) else (bi, bj, bs))"
proof (cases "k > bs")
  case True
  then show ?thesis
    using assms by (auto simp: best_of_def k_def lex_le_def)
next
  case False
  have new: "\<forall>(i', j') \<in> insert (i, j) C. run_len a b alo blo i' j' \<le> bs"
    using assms(1) False by (auto simp: best_of_def k_def)
  show ?thesis
  proof (cases "bs = 0")
    case True
    then show ?thesis using assms(1) False new by (auto simp: best_of_def)
  next
    case bs: False
    then obtain i0 j0 where c: "(i0, j0) \<in> C" "run_len a b alo blo i0 j0 = bs" "bi = i0 + 1 - bs" "bj = j0 + 1 - bs"
      "\<forall>(i', j') \<in> C. run_len a b alo blo i' j' = bs \<longrightarrow> lex_le (i0, j0) (i', j')"
      using assms(1) by (auto simp: best_of_def)
    moreover have "lex_le (i0, j0) (i, j)" using c(1) assms(2) by blast
    ultimately show ?thesis
      using new False bs unfolding best_of_def by (simp only: if_False prod.case) (intro conjI bexI [of _ "(i0, j0)"], auto)
  qed
qed

text \<open>The rows: \<open>prev\<close> holds the run lengths of the row above, \<open>cur\<close> those of this row so far.\<close>

definition row_runs :: "'a list \<Rightarrow> 'a list \<Rightarrow> nat \<Rightarrow> nat \<Rightarrow> nat \<Rightarrow> nat \<Rightarrow> nat \<Rightarrow> nat list \<Rightarrow> bool" where
  "row_runs a b alo blo bhi i j row \<longleftrightarrow>
     length row = bhi - blo + 1
     \<and> (\<forall>j' < bhi. blo \<le> j' \<longrightarrow> row ! (j' - blo) = (if alo \<le> i \<and> j' < j then run_len a b alo blo i j' else 0))"

definition above_runs :: "'a list \<Rightarrow> 'a list \<Rightarrow> nat \<Rightarrow> nat \<Rightarrow> nat \<Rightarrow> nat \<Rightarrow> nat list \<Rightarrow> bool" where
  "above_runs a b alo blo bhi i row \<longleftrightarrow>
     length row = bhi - blo + 1
     \<and> (\<forall>j' < bhi. blo \<le> j' \<longrightarrow> row ! (j' - blo) = (if alo < i then run_len a b alo blo (i - 1) j' else 0))"

definition cells_before :: "nat \<Rightarrow> nat \<Rightarrow> nat \<Rightarrow> nat \<Rightarrow> nat \<Rightarrow> (nat \<times> nat) set" where
  "cells_before alo blo bhi i j =
     {(i', j'). alo \<le> i' \<and> blo \<le> j' \<and> j' < bhi \<and> (i' < i \<or> i' = i \<and> j' < j)}"

lemma lmb_cells:
  assumes "above_runs a b alo blo bhi i prev" "alo \<le> i"
  shows "blo \<le> j \<Longrightarrow> j \<le> bhi \<Longrightarrow> best_of a b alo blo (cells_before alo blo bhi i blo) best
    \<Longrightarrow> (case fold (lmb_cell a b blo i) [blo..<j] (prev, replicate (bhi - blo + 1) 0, best) of
           (p, cur, best') \<Rightarrow> p = prev \<and> row_runs a b alo blo bhi i j cur
             \<and> best_of a b alo blo (cells_before alo blo bhi i j) best')"
proof (induction j rule: dec_induct)
  case base
  then show ?case by (auto simp: row_runs_def nth_append simp flip: replicate_Suc replicate_append_same)
next
  case (step j)
  obtain cur bi bj bs where e: "fold (lmb_cell a b blo i) [blo..<j] (prev, replicate (bhi - blo + 1) 0, best) = (prev, cur, bi, bj, bs)"
    and r: "row_runs a b alo blo bhi i j cur" and bst: "best_of a b alo blo (cells_before alo blo bhi i j) (bi, bj, bs)"
    using step by (auto split: prod.splits)
  let ?k = "run_len a b alo blo i j"
  have cells: "cells_before alo blo bhi i (Suc j) = insert (i, j) (cells_before alo blo bhi i j)"
    using assms(2) step by (auto simp: cells_before_def)
  have before: "\<forall>c \<in> cells_before alo blo bhi i j. lex_le c (i, j)"
    by (auto simp: cells_before_def lex_le_def)
  note ins = best_of_insert [OF bst before]
  have k: "?k = (if a ! i = b ! j then if j > blo \<and> prev ! (j - 1 - blo) > 0 then prev ! (j - 1 - blo) + 1 else 1 else 0)"
  proof -
    have "prev ! (j - 1 - blo) = (if alo < i then run_len a b alo blo (i - 1) (j - 1) else 0)" if "blo < j"
      using assms(1) [unfolded above_runs_def, THEN conjunct2, rule_format, of "j - 1"] that step(1,4)
      by (simp add: diff_diff_left)
    then show ?thesis by (simp add: run_len.simps [of a b alo blo i j])
  qed
  have step_eq: "fold (lmb_cell a b blo i) [blo..<Suc j] (prev, replicate (bhi - blo + 1) 0, best)
      = lmb_cell a b blo i j (prev, cur, bi, bj, bs)"
    using e step by simp
  have cell: "lmb_cell a b blo i j (prev, cur, bi, bj, bs)
      = (prev, cur[j - blo := ?k], if ?k > bs then (i + 1 - ?k, j + 1 - ?k, ?k) else (bi, bj, bs))"
    if "a ! i = b ! j"
    using that unfolding lmb_cell_def k by (simp add: Let_def)
  show ?case
  proof (cases "a ! i = b ! j")
    case True
    have "row_runs a b alo blo bhi i (Suc j) (cur[j - blo := ?k])"
      using r step assms(2) by (auto simp: row_runs_def nth_list_update_if less_Suc_eq)
    then show ?thesis
      using ins unfolding step_eq cell [OF True] cells by simp
  next
    case False
    then have "?k = 0" using k by simp
    then have "row_runs a b alo blo bhi i (Suc j) cur"
      using r step by (auto simp: row_runs_def less_Suc_eq)
    then show ?thesis
      using ins False \<open>?k = 0\<close> unfolding step_eq cells by (simp add: lmb_cell_def)
  qed
qed

lemma lmb_rows:
  assumes "blo \<le> bhi"
  shows "alo \<le> i \<Longrightarrow>
    (case fold (lmb_row a b blo bhi) [alo..<i]
        (replicate (bhi - blo + 1) 0, replicate (bhi - blo + 1) 0, alo, blo, 0) of
       (prev, cur, best) \<Rightarrow> above_runs a b alo blo bhi i prev
         \<and> best_of a b alo blo (cells_before alo blo bhi i blo) best)"
proof (induction i rule: dec_induct)
  case base
  then show ?case
    by (auto simp: above_runs_def best_of_def cells_before_def nth_append simp flip: replicate_Suc replicate_append_same)
next
  case (step i)
  obtain prev cur best where e: "fold (lmb_row a b blo bhi) [alo..<i]
      (replicate (bhi - blo + 1) 0, replicate (bhi - blo + 1) 0, alo, blo, 0) = (prev, cur, best)"
    by (cases "fold (lmb_row a b blo bhi) [alo..<i]
      (replicate (bhi - blo + 1) 0, replicate (bhi - blo + 1) 0, alo, blo, 0)" rule: prod_cases3) auto
  with step have p: "above_runs a b alo blo bhi i prev" "best_of a b alo blo (cells_before alo blo bhi i blo) best"
    by simp_all
  obtain c' best' where c: "fold (lmb_cell a b blo i) [blo..<bhi] (prev, replicate (bhi - blo + 1) 0, best) = (prev, c', best')"
    and r: "row_runs a b alo blo bhi i bhi c'" and bst: "best_of a b alo blo (cells_before alo blo bhi i bhi) best'"
    using lmb_cells [OF p(1) step(1) assms order_refl p(2)] by (auto split: prod.splits)
  have "cells_before alo blo bhi (Suc i) blo = cells_before alo blo bhi i bhi"
    by (auto simp: cells_before_def)
  moreover have "above_runs a b alo blo bhi (Suc i) c'"
    using r step by (auto simp: row_runs_def above_runs_def)
  ultimately show ?case
    using e c bst step by (simp add: lmb_row_def [of _ _ _ _ _ "(prev, cur, best)"])
qed

lemma lmb_best:
  assumes "blo \<le> bhi" "alo \<le> ahi"
  shows "best_of a b alo blo ({alo..<ahi} \<times> {blo..<bhi}) (lmb a alo ahi b blo bhi)"
proof -
  have "cells_before alo blo bhi ahi blo = {alo..<ahi} \<times> {blo..<bhi}"
    by (auto simp: cells_before_def)
  then show ?thesis
    using lmb_rows [OF assms, of a b] by (auto simp: lmb_def split: prod.splits)
qed

lemma lmb_longest_block:
  assumes "blo \<le> bhi" "alo \<le> ahi" "lmb a alo ahi b blo bhi = (i, j, k)"
  shows "is_block a b (alo, ahi, blo, bhi) i j k"
    and "is_block a b (alo, ahi, blo, bhi) i' j' k' \<Longrightarrow> k' \<le> k"
    and "is_block a b (alo, ahi, blo, bhi) i' j' k \<Longrightarrow> 0 < k \<Longrightarrow> lex_le (i, j) (i', j')"
proof -
  let ?C = "{alo..<ahi} \<times> {blo..<bhi}"
  have best: "best_of a b alo blo ?C (i, j, k)" using lmb_best [OF assms(1,2), of a b] assms(3) by simp
  show "is_block a b (alo, ahi, blo, bhi) i j k"
  proof (cases "k = 0")
    case True
    then show ?thesis using best assms(1,2) by (simp add: best_of_def is_block_def)
  next
    case False
    then obtain ei ej where c: "(ei, ej) \<in> ?C" "run_len a b alo blo ei ej = k" "i = ei + 1 - k" "j = ej + 1 - k"
      using best by (auto simp: best_of_def)
    then have k: "k \<le> ei + 1 - alo" "k \<le> ej + 1 - blo" using run_len_le [of alo ei blo ej a b] by auto
    have "a ! (i + d) = b ! (j + d)" if "d < k" for d
    proof -
      have "a ! (ei - (k - 1 - d)) = b ! (ej - (k - 1 - d))"
        using run_len_block [of alo ei blo ej "k - 1 - d" a b] c that by auto
      moreover have "ei - (k - 1 - d) = i + d" "ej - (k - 1 - d) = j + d" using c k that by auto
      ultimately show ?thesis by simp
    qed
    then show ?thesis using c k by (auto simp: is_block_def)
  qed
  have ends: "(i' + k' - 1, j' + k' - 1) \<in> ?C \<and> k' \<le> run_len a b alo blo (i' + k' - 1) (j' + k' - 1)"
    if "is_block a b (alo, ahi, blo, bhi) i' j' k'" "0 < k'" for i' j' k'
  proof -
    have "a ! (i' + k' - 1 - d) = b ! (j' + k' - 1 - d)" if "d < k'" for d
    proof -
      have "\<forall>d < k'. a ! (i' + d) = b ! (j' + d)"
        using \<open>is_block _ _ _ i' j' k'\<close> by (simp add: is_block_def)
      then have "a ! (i' + (k' - 1 - d)) = b ! (j' + (k' - 1 - d))"
        by (rule mp [OF spec [of _ "k' - 1 - d"]]) (use that in simp)
      moreover have "i' + (k' - 1 - d) = i' + k' - 1 - d" "j' + (k' - 1 - d) = j' + k' - 1 - d"
        using that by simp_all
      ultimately show ?thesis by simp
    qed
    then show ?thesis
      using that by (auto simp: is_block_def intro!: run_len_longest)
  qed
  show up: "k' \<le> k" if "is_block a b (alo, ahi, blo, bhi) i' j' k'" for i' j' k'
  proof (cases "k' = 0")
    case False
    then show ?thesis
      using ends [OF that] best unfolding best_of_def by (auto intro: order_trans)
  qed simp
  show "lex_le (i, j) (i', j')" if b: "is_block a b (alo, ahi, blo, bhi) i' j' k" "0 < k"
  proof -
    obtain ei ej where c: "(ei, ej) \<in> ?C" "run_len a b alo blo ei ej = k" "i = ei + 1 - k" "j = ej + 1 - k"
      and first: "\<forall>(x, y) \<in> ?C. run_len a b alo blo x y = k \<longrightarrow> lex_le (ei, ej) (x, y)"
      using best b(2) by (auto simp: best_of_def)
    have "run_len a b alo blo (i' + k - 1) (j' + k - 1) = k"
    proof (rule antisym)
      have "\<forall>(x, y) \<in> ?C. run_len a b alo blo x y \<le> k" using best by (simp add: best_of_def)
      from bspec [OF this conjunct1 [OF ends [OF b]]]
      show "run_len a b alo blo (i' + k - 1) (j' + k - 1) \<le> k" by simp
    qed (use ends [OF b] in simp)
    then have "lex_le (ei, ej) (i' + k - 1, j' + k - 1)" using ends [OF b] first by blast
    moreover have "k \<le> ei + 1" "k \<le> ej + 1" using run_len_le [of alo ei blo ej a b] c by auto
    ultimately show ?thesis using c(3,4) b(2) unfolding lex_le_def by auto
  qed
qed

text \<open>C20. The longest matching block: the result is a block of equal elements inside both ranges, no
  block is longer, and among those of its length it is the first by its start in the first text, then
  by its start in the second, the choice Python's \<open>find_longest_match\<close> makes.\<close>

theorem lmb_longest:
  assumes "alo \<le> ahi" "blo \<le> bhi" "lmb a alo ahi b blo bhi = (i, j, k)"
  shows "is_block a b (alo, ahi, blo, bhi) i j k
    \<and> (\<forall>i' j' k'. is_block a b (alo, ahi, blo, bhi) i' j' k' \<longrightarrow>
          k' < k \<or> k' = k \<and> (k = 0 \<or> lex_le (i, j) (i', j')))"
proof (intro conjI allI impI)
  show "is_block a b (alo, ahi, blo, bhi) i j k" by (rule lmb_longest_block(1) [OF assms(2,1,3)])
next
  fix i' j' k' assume b: "is_block a b (alo, ahi, blo, bhi) i' j' k'"
  have "k' \<le> k" by (rule lmb_longest_block(2) [OF assms(2,1,3) b])
  moreover have "lex_le (i, j) (i', j')" if "k' = k" "0 < k"
    using lmb_longest_block(3) [OF assms(2,1,3)] b that by simp
  ultimately show "k' < k \<or> k' = k \<and> (k = 0 \<or> lex_le (i, j) (i', j'))"
    using le_neq_implies_less by blast
qed

lemma lmb_longest_witness:
  "lmb ''qabxab'' 0 6 ''ababx'' 0 5 = (1, 2, 3)
   \<and> is_block ''qabxab'' ''ababx'' (0, 6, 0, 5) 1 2 3"
proof -
  have l: "lmb ''qabxab'' 0 6 ''ababx'' 0 5 = (1, 2, 3)" by code_simp
  show ?thesis using lmb_longest [OF _ _ l] l by simp
qed

section \<open>The matching blocks\<close>

definition sep :: "quad \<Rightarrow> quad \<Rightarrow> bool" where
  "sep r s \<longleftrightarrow>
     (case (r, s) of ((a1, a2, b1, b2), (c1, c2, d1, d2)) \<Rightarrow> a2 \<le> c1 \<and> b2 \<le> d1 \<or> c2 \<le> a1 \<and> d2 \<le> b1)"

definition inside :: "quad \<Rightarrow> quad \<Rightarrow> bool" where
  "inside r q \<longleftrightarrow>
     (case (r, q) of ((a1, a2, b1, b2), (c1, c2, d1, d2)) \<Rightarrow>
        a1 \<le> a2 \<and> b1 \<le> b2 \<and> c1 \<le> a1 \<and> a2 \<le> c2 \<and> d1 \<le> b1 \<and> b2 \<le> d2)"

lemma sep_sym: "sep r s \<Longrightarrow> sep s r"
  by (auto simp: sep_def split: prod.splits)

lemma sep_inside: "sep q s \<Longrightarrow> inside r q \<Longrightarrow> sep r s" "sep s q \<Longrightarrow> inside r q \<Longrightarrow> sep s r"
  by (auto simp: sep_def inside_def split: prod.splits)

lemma inside_trans: "inside r q \<Longrightarrow> inside q p \<Longrightarrow> inside r p"
  by (auto simp: inside_def split: prod.splits)

definition op_rect :: "difflib_opcode \<Rightarrow> quad" where
  "op_rect op = (op_i1 op, op_i2 op, op_j1 op, op_j2 op)"

definition equal_op :: "'a list \<Rightarrow> 'a list \<Rightarrow> difflib_opcode \<Rightarrow> bool" where
  "equal_op a b op \<longleftrightarrow>
     op_i1 op < op_i2 op \<and> op_j1 op < op_j2 op \<and> op_j2 op - op_j1 op = op_i2 op - op_i1 op
     \<and> (\<forall>d < op_i2 op - op_i1 op. a ! (op_i1 op + d) = b ! (op_j1 op + d))"

definition blocks_ok :: "'a list \<Rightarrow> 'a list \<Rightarrow> quad \<Rightarrow> difflib_opcode list \<Rightarrow> bool" where
  "blocks_ok a b outer out \<longleftrightarrow>
     sorted_wrt sep (map op_rect out) \<and> (\<forall>op \<in> set out. equal_op a b op \<and> inside (op_rect op) outer)"

definition emit_inv :: "'a list \<Rightarrow> 'a list \<Rightarrow> quad \<Rightarrow> quad list \<Rightarrow> difflib_opcode list \<Rightarrow> bool" where
  "emit_inv a b outer pending out \<longleftrightarrow>
     sorted_wrt sep (map op_rect out @ pending) \<and> (\<forall>q \<in> set pending. inside q outer)
     \<and> (\<forall>op \<in> set out. equal_op a b op \<and> inside (op_rect op) outer)"

lemma emit_inv_blocks: "emit_inv a b outer pending out \<Longrightarrow> blocks_ok a b outer out"
  by (simp add: emit_inv_def blocks_ok_def sorted_wrt_append)

lemma emit_inv_pop: "emit_inv a b outer (q # pending) out \<Longrightarrow> emit_inv a b outer pending out"
  by (auto simp: emit_inv_def sorted_wrt_append)

text \<open>Replacing the quad at the head by a block in it and by quads at its corners.\<close>

lemma emit_inv_step:
  assumes inv: "emit_inv a b outer (q # pending) out"
    and block: "inside (op_rect op) q" "equal_op a b op"
    and subs: "\<forall>s \<in> set subs. inside s q \<and> sep (op_rect op) s" "sorted_wrt sep subs"
  shows "emit_inv a b outer (pending @ subs) (out @ [op])"
proof -
  have q: "\<forall>r \<in> set (map op_rect out). sep r q" "\<forall>s \<in> set pending. sep q s" "inside q outer"
    and old: "sorted_wrt sep (map op_rect out)" "sorted_wrt sep pending"
      "\<forall>r \<in> set (map op_rect out). \<forall>s \<in> set pending. sep r s"
      "\<forall>s \<in> set pending. inside s outer" "\<forall>op \<in> set out. equal_op a b op \<and> inside (op_rect op) outer"
    using inv by (auto simp: emit_inv_def sorted_wrt_append)
  have "\<forall>r \<in> set (map op_rect out). sep r (op_rect op) \<and> (\<forall>s \<in> set subs. sep r s)"
    using q(1) block(1) subs(1) sep_inside(2) by blast
  moreover have "\<forall>s \<in> set pending. sep (op_rect op) s \<and> (\<forall>t \<in> set subs. sep s t)"
    using q(2) block(1) subs(1) sep_inside(1) sep_sym by blast
  moreover have "inside (op_rect op) outer" "\<forall>s \<in> set subs. inside s outer"
    using q(3) block(1) subs(1) inside_trans by blast+
  ultimately show ?thesis
    using old block(2) subs unfolding emit_inv_def
    by (auto simp: sorted_wrt_append)
qed

lemma drop_enqueue:
  "n \<le> length queue \<Longrightarrow> drop n (enqueue w q queue) = drop n queue @ (if w \<and> length queue < 4094 then [q] else [])"
  by (simp add: enqueue_def)

lemma opvec_push_simps:
  "opvec_push cap v op = (if length v < cap then Some (v @ [op]) else None)"
  by (simp add: opvec_push_def)

lemma opcode_sel [simp]:
  "op_i1 (opcode t i1 i2 j1 j2) = i1" "op_i2 (opcode t i1 i2 j1 j2) = i2"
  "op_j1 (opcode t i1 i2 j1 j2) = j1" "op_j2 (opcode t i1 i2 j1 j2) = j2" "op_tag (opcode t i1 i2 j1 j2) = t"
  by (simp_all add: opcode_def)

lemma emit_loop_blocks:
  assumes "emit_inv a b outer (drop qh queue) out"
  shows "blocks_ok a b outer (emit_loop a b cap queue qh out)"
  using assms
proof (induction a b cap queue qh out rule: emit_loop.induct)
  case (1 a b cap queue qh out)
  note e = emit_loop.simps [of a b cap queue qh out]
  show ?case
  proof (cases "qh < length queue")
    case True
    obtain alo ahi blo bhi where q: "queue ! qh = (alo, ahi, blo, bhi)" by (metis prod_cases4)
    obtain i j k where m: "lmb a alo ahi b blo bhi = (i, j, k)" by (metis prod_cases3)
    have d: "drop qh queue = (alo, ahi, blo, bhi) # drop (qh + 1) queue"
      using Cons_nth_drop_Suc [OF True] q by simp
    have le: "alo \<le> ahi" "blo \<le> bhi"
      using 1(3) unfolding d by (auto simp: emit_inv_def inside_def)
    have blk: "is_block a b (alo, ahi, blo, bhi) i j k" using lmb_longest_block(1) [OF le(2,1) m] .
    show ?thesis
    proof (cases "k = 0")
      case k0: True
      have "emit_loop a b cap queue qh out = emit_loop a b cap queue (qh + 1) out"
        using True q m k0 by (simp add: e)
      then show ?thesis
        using 1(1) [OF True q [symmetric] refl refl m [symmetric] refl k0] emit_inv_pop [OF 1(3) [unfolded d]] by simp
    next
      case k: False
      show ?thesis
      proof (cases "length out < cap")
        case room: True
        let ?op = "opcode (CHR ''e'') i (i + k) j (j + k)"
        let ?l = "enqueue (alo < i \<and> blo < j) (alo, i, blo, j) queue"
        let ?r = "enqueue (i + k < ahi \<and> j + k < bhi) (i + k, ahi, j + k, bhi) ?l"
        have u: "emit_loop a b cap queue qh out = emit_loop a b cap ?r (qh + 1) (out @ [?op])"
          using True q m k room by (simp add: e Let_def opvec_push_simps)
        obtain subs where s: "drop (qh + 1) ?r = drop (qh + 1) queue @ subs"
          and subs: "\<forall>s \<in> set subs. inside s (alo, ahi, blo, bhi) \<and> sep (op_rect ?op) s" "sorted_wrt sep subs"
        proof
          let ?s1 = "if (alo < i \<and> blo < j) \<and> length queue < 4094 then [(alo, i, blo, j)] else []"
          let ?s2 = "if (i + k < ahi \<and> j + k < bhi) \<and> length ?l < 4094 then [(i + k, ahi, j + k, bhi)] else []"
          show "drop (qh + 1) ?r = drop (qh + 1) queue @ ?s1 @ ?s2"
            using True length_enqueue_ge [of queue "alo < i \<and> blo < j" "(alo, i, blo, j)"]
            by (simp only: drop_enqueue [of "qh + 1"] append_assoc)
          show "\<forall>s \<in> set (?s1 @ ?s2). inside s (alo, ahi, blo, bhi) \<and> sep (op_rect ?op) s"
            using blk by (auto simp: is_block_def inside_def sep_def op_rect_def)
          show "sorted_wrt sep (?s1 @ ?s2)"
            by (auto simp: sep_def)
        qed
        have "emit_inv a b outer (drop (qh + 1) ?r) (out @ [?op])"
          unfolding s
          by (rule emit_inv_step [OF 1(3) [unfolded d] _ _ subs])
             (use blk k in \<open>auto simp: is_block_def inside_def op_rect_def equal_op_def\<close>)
        then show ?thesis
          unfolding u using 1(2) True q m k room by (simp add: opvec_push_simps)
      next
        case False
        then have "emit_loop a b cap queue qh out = out"
          using True q m k by (simp add: e Let_def opvec_push_simps)
        then show ?thesis using emit_inv_blocks [OF 1(3)] by simp
      qed
    qed
  next
    case False
    then show ?thesis using emit_inv_blocks [OF 1(3)] by (simp add: e)
  qed
qed

lemma emit_opcodes_blocks:
  "alo \<le> ahi \<Longrightarrow> blo \<le> bhi \<Longrightarrow> blocks_ok a b (alo, ahi, blo, bhi) (emit_opcodes a b alo ahi blo bhi cap)"
  unfolding emit_opcodes_def by (rule emit_loop_blocks) (simp add: emit_inv_def inside_def)

lemma emit_loop_length: "length out \<le> cap \<Longrightarrow> length (emit_loop a b cap queue qh out) \<le> cap"
proof (induction a b cap queue qh out rule: emit_loop.induct)
  case (1 a b cap queue qh out)
  then show ?case
    by (subst emit_loop.simps) (auto simp: Let_def opvec_push_simps split: prod.splits)
qed

section \<open>The sorted chain of blocks\<close>

definition before :: "quad \<Rightarrow> quad \<Rightarrow> bool" where
  "before r s \<longleftrightarrow> (case (r, s) of ((a1, a2, b1, b2), (c1, c2, d1, d2)) \<Rightarrow> a2 \<le> c1 \<and> b2 \<le> d1)"

text \<open>The blocks in order, between two corners.\<close>

fun chain :: "'a list \<Rightarrow> 'a list \<Rightarrow> nat \<Rightarrow> nat \<Rightarrow> nat \<Rightarrow> nat \<Rightarrow> difflib_opcode list \<Rightarrow> bool" where
  "chain a b i j na nb [] \<longleftrightarrow> i \<le> na \<and> j \<le> nb"
| "chain a b i j na nb (op # ops) \<longleftrightarrow>
     i \<le> op_i1 op \<and> j \<le> op_j1 op \<and> equal_op a b op \<and> chain a b (op_i2 op) (op_j2 op) na nb ops"

lemma chainI:
  assumes "sorted_wrt before (map op_rect ops)" "\<forall>op \<in> set ops. equal_op a b op \<and> inside (op_rect op) (i, na, j, nb)"
    "i \<le> na" "j \<le> nb"
  shows "chain a b i j na nb ops"
  using assms
proof (induction ops arbitrary: i j)
  case (Cons op ops)
  have "\<forall>op' \<in> set ops. equal_op a b op' \<and> inside (op_rect op') (op_i2 op, na, op_j2 op, nb)"
    using Cons.prems by (auto simp: before_def op_rect_def inside_def)
  then have "chain a b (op_i2 op) (op_j2 op) na nb ops"
    using Cons by (intro Cons.IH) (auto simp: op_rect_def inside_def)
  then show ?case using Cons.prems by (auto simp: op_rect_def inside_def)
qed simp

lemma sorted_blocks_chain:
  assumes "blocks_ok a b (i, na, j, nb) out" "i \<le> na" "j \<le> nb"
  shows "chain a b i j na nb (sort_key blk_key out)"
proof (rule chainI)
  let ?s = "sort_key blk_key out"
  have ok: "sorted_wrt sep (map op_rect out)"
    "\<forall>op \<in> set out. equal_op a b op \<and> inside (op_rect op) (i, na, j, nb)"
    using assms(1) by (auto simp: blocks_ok_def)
  show "\<forall>op \<in> set ?s. equal_op a b op \<and> inside (op_rect op) (i, na, j, nb)" using ok by simp
  have pairs: "op = op' \<or> sep (op_rect op) (op_rect op')" if "op \<in> set out" "op' \<in> set out" for op op'
    using ok(1) that
  proof (induction out)
    case (Cons x xs)
    then show ?case by (auto dest: sep_sym)
  qed simp
  have "distinct out"
    using ok
  proof (induction out)
    case (Cons x xs)
    have "\<not> sep (op_rect x) (op_rect x)" using Cons.prems by (auto simp: sep_def op_rect_def equal_op_def)
    then show ?case using Cons by auto
  qed simp
  then have dist: "distinct ?s" by simp
  have srt: "sorted (map blk_key ?s)" by simp
  have "sorted_wrt (\<lambda>x y. before (op_rect x) (op_rect y)) ?s"
    unfolding sorted_wrt_iff_nth_less
  proof (intro allI impI)
    fix m n assume mn: "m < n" "n < length ?s"
    let ?x = "?s ! m" and ?y = "?s ! n"
    have "?x \<noteq> ?y" using dist mn by (simp add: nth_eq_iff_index_eq del: length_sort)
    moreover have "?x \<in> set out" "?y \<in> set out"
      using mn nth_mem [of m ?s] nth_mem [of n ?s] by auto
    ultimately have "sep (op_rect ?x) (op_rect ?y)" "equal_op a b ?x" "equal_op a b ?y"
      using pairs ok(2) by auto
    moreover have "blk_key ?x \<le> blk_key ?y"
      using sorted_nth_mono [OF srt, of m n] mn by simp
    ultimately show "before (op_rect ?x) (op_rect ?y)"
      by (auto simp: sep_def before_def op_rect_def equal_op_def blk_key_def less_eq_prod_def)
  qed
  then show "sorted_wrt before (map op_rect ?s)" by (simp add: sorted_wrt_map)
qed (use assms in auto)

section \<open>Opcodes edit the first text into the second\<close>

text \<open>Strict interpretation of an opcode list at a position of both texts: the ranges are contiguous,
  not empty on the sides the tag speaks of, and equal lines are taken from the first text.\<close>

fun run_opcodes :: "string list \<Rightarrow> string list \<Rightarrow> nat \<Rightarrow> nat \<Rightarrow> difflib_opcode list \<Rightarrow> string list option" where
  "run_opcodes la lb i j [] = (if i = length la \<and> j = length lb then Some [] else None)"
| "run_opcodes la lb i j (op # ops) =
     (let i2 = op_i2 op; j2 = op_j2 op; new = take (j2 - j) (drop j lb); old = take (i2 - i) (drop i la)
      in if op_i1 op = i \<and> op_j1 op = j \<and> i2 \<le> length la \<and> j2 \<le> length lb
         then if op_tag op = CHR ''e'' \<and> i < i2 \<and> j2 - j = i2 - i \<and> j < j2
              then map_option ((@) old) (run_opcodes la lb i2 j2 ops)
              else if op_tag op = CHR ''d'' \<and> i < i2 \<and> j2 = j
                      \<or> op_tag op = CHR ''i'' \<and> i2 = i \<and> j < j2
                      \<or> op_tag op = CHR ''r'' \<and> i < i2 \<and> j < j2
              then map_option ((@) new) (run_opcodes la lb i2 j2 ops)
              else None
         else None)"

definition gap_ops :: "nat \<Rightarrow> nat \<Rightarrow> nat \<Rightarrow> nat \<Rightarrow> difflib_opcode list" where
  "gap_ops ai bi1 bj bj1 =
     (if ai < bi1 \<and> bj < bj1 then [opcode (CHR ''r'') ai bi1 bj bj1]
      else if ai < bi1 then [opcode (CHR ''d'') ai bi1 bj bj]
      else if bj < bj1 then [opcode (CHR ''i'') ai ai bj bj1]
      else [])"

fun tag_blocks :: "nat \<Rightarrow> nat \<Rightarrow> nat \<Rightarrow> nat \<Rightarrow> difflib_opcode list \<Rightarrow> difflib_opcode list" where
  "tag_blocks na nb ai bj [] = gap_ops ai na bj nb"
| "tag_blocks na nb ai bj (op # ops) =
     gap_ops ai (op_i1 op) bj (op_j1 op)
     @ opcode (CHR ''e'') (op_i1 op) (op_i2 op) (op_j1 op) (op_j2 op) # tag_blocks na nb (op_i2 op) (op_j2 op) ops"

text \<open>The walk with room for everything is \<open>tag_blocks\<close>; a full array leaves it full.\<close>

lemma push_gap_conv:
  "push_gap cap ai bi1 bj bj1 v =
     (if gap_ops ai bi1 bj bj1 = [] then Some v
      else if length v < cap then Some (v @ gap_ops ai bi1 bj bj1) else None)"
  by (simp add: push_gap_def gap_ops_def opvec_push_simps)

lemma length_gap_ops: "length (gap_ops ai bi1 bj bj1) \<le> 1"
  by (simp add: gap_ops_def)

lemma build_tagged_tag_blocks:
  assumes "length v \<le> cap"
    "length (or_keep (build_tagged cap raw ai bj v)
       (push_gap cap (if raw \<noteq> [] then op_i2 (last raw) else ai) na
          (if raw \<noteq> [] then op_j2 (last raw) else bj) nb (build_tagged cap raw ai bj v))) < cap"
  shows "or_keep (build_tagged cap raw ai bj v)
       (push_gap cap (if raw \<noteq> [] then op_i2 (last raw) else ai) na
          (if raw \<noteq> [] then op_j2 (last raw) else bj) nb (build_tagged cap raw ai bj v))
    = v @ tag_blocks na nb ai bj raw"
  using assms
proof (induction raw arbitrary: ai bj v)
  case Nil
  then show ?case by (auto simp: push_gap_conv or_keep_def split: if_splits)
next
  case (Cons op raw)
  have keep: "length (or_keep w (push_gap cap a1 a2 b1 b2 w)) < cap \<Longrightarrow> length w < cap" for w a1 a2 b1 b2
    by (auto simp: push_gap_conv or_keep_def split: if_splits)
  let ?g = "gap_ops ai (op_i1 op) bj (op_j1 op)"
    and ?e = "opcode (CHR ''e'') (op_i1 op) (op_i2 op) (op_j1 op) (op_j2 op)"
  show ?case
  proof (cases "length (v @ ?g) < cap")
    case True
    then have b: "build_tagged cap (op # raw) ai bj v = build_tagged cap raw (op_i2 op) (op_j2 op) (v @ ?g @ [?e])"
      by (auto simp: push_gap_conv opvec_push_simps)
    show ?thesis
      using Cons.IH [of "v @ ?g @ [?e]" "op_i2 op" "op_j2 op"] Cons.prems(2) True
      unfolding b by (cases raw) auto
  next
    case False
    then have "length (build_tagged cap (op # raw) ai bj v) \<ge> cap"
      using Cons.prems(1) length_gap_ops [of ai "op_i1 op" bj "op_j1 op"]
      by (auto simp: push_gap_conv opvec_push_simps)
    then show ?thesis using keep [OF Cons.prems(2)] by simp
  qed
qed

lemma map_append_Nil [simp]: "map_option ((@) []) x = x"
  by (cases x) simp_all

lemma run_gap_ops:
  assumes "ai \<le> bi1" "bj \<le> bj1" "bi1 \<le> length la" "bj1 \<le> length lb"
  shows "run_opcodes la lb ai bj (gap_ops ai bi1 bj bj1 @ ops)
    = map_option ((@) (take (bj1 - bj) (drop bj lb))) (run_opcodes la lb bi1 bj1 ops)"
  using assms by (auto simp: gap_ops_def)

lemma equal_op_lines:
  assumes "equal_op la lb op" "op_i2 op \<le> length la" "op_j2 op \<le> length lb"
  shows "take (op_i2 op - op_i1 op) (drop (op_i1 op) la) = take (op_j2 op - op_j1 op) (drop (op_j1 op) lb)"
  using assms by (intro nth_equalityI) (auto simp: equal_op_def)

lemma chain_le: "chain a b i j na nb ops \<Longrightarrow> i \<le> na \<and> j \<le> nb"
  by (induction ops arbitrary: i j) (fastforce simp: equal_op_def)+

lemma take_drop_step: "i \<le> j \<Longrightarrow> j \<le> length xs \<Longrightarrow> take (j - i) (drop i xs) @ drop j xs = drop i xs"
  by (metis append_take_drop_id drop_drop le_add_diff_inverse2)

lemma run_tag_blocks:
  "chain la lb ai bj (length la) (length lb) raw
    \<Longrightarrow> run_opcodes la lb ai bj (tag_blocks (length la) (length lb) ai bj raw) = Some (drop bj lb)"
proof (induction raw arbitrary: ai bj)
  case Nil
  then show ?case using run_gap_ops [of ai "length la" bj "length lb" la lb "[]"] by simp
next
  case (Cons op raw)
  then have c: "ai \<le> op_i1 op" "bj \<le> op_j1 op" "equal_op la lb op"
    and rest: "chain la lb (op_i2 op) (op_j2 op) (length la) (length lb) raw" by auto
  have le: "op_i1 op < op_i2 op" "op_j1 op < op_j2 op" "op_i2 op \<le> length la" "op_j2 op \<le> length lb"
    and len: "op_j2 op - op_j1 op = op_i2 op - op_i1 op"
    using c(3) chain_le [OF rest] by (auto simp: equal_op_def)
  have "run_opcodes la lb (op_i1 op) (op_j1 op)
      (opcode (CHR ''e'') (op_i1 op) (op_i2 op) (op_j1 op) (op_j2 op) # tag_blocks (length la) (length lb) (op_i2 op) (op_j2 op) raw)
      = Some (take (op_i2 op - op_i1 op) (drop (op_i1 op) la) @ drop (op_j2 op) lb)"
    using Cons.IH [OF rest] le len by simp
  also have "... = Some (drop (op_j1 op) lb)"
    using equal_op_lines [OF c(3) le(3,4)] take_drop_step [of "op_j1 op" "op_j2 op" lb] le by simp
  finally show ?case
    using c le by (simp add: run_gap_ops take_drop_step)
qed

text \<open>C7. The opcodes are an edit script: when no array was too small for them, they tile both texts
  without gap or overlap, their \<open>e\<close> ranges are equal lines, and carrying them out on the lines of
  the first text (keep, delete, insert, replace) gives the lines of the second.\<close>

theorem opcodes_edit_first_into_second:
  fixes a b :: "string option" and out_max :: int
  assumes "length (difflib_get_opcodes a b out_max) < 2048"
    and "int (length (difflib_get_opcodes a b out_max)) < out_max"
  shows "run_opcodes (split_lines a MAX_LINES) (split_lines b MAX_LINES) 0 0 (difflib_get_opcodes a b out_max)
    = Some (split_lines b MAX_LINES)"
proof -
  let ?la = "split_lines a MAX_LINES" and ?lb = "split_lines b MAX_LINES"
  have ops: "difflib_get_opcodes a b out_max = tagged_opcodes ?la ?lb"
    using assms(2) by (auto simp: difflib_get_opcodes_def min_def split: if_splits)
  have short: "length (tagged_opcodes ?la ?lb) < 2048" using assms(1) unfolding ops .
  show ?thesis
  proof (cases "?la = [] \<or> ?lb = []")
    case True
    then show ?thesis
      unfolding ops by (auto simp: tagged_opcodes_def opvec_push_simps or_keep_def TAGGED_CAP_def Let_def)
  next
    case False
    let ?raw = "sort_key blk_key (emit_opcodes ?la ?lb 0 (length ?la) 0 (length ?lb) RAW_CAP)"
    have t: "tagged_opcodes ?la ?lb
        = or_keep (build_tagged TAGGED_CAP ?raw 0 0 [])
           (push_gap TAGGED_CAP (if ?raw \<noteq> [] then op_i2 (last ?raw) else 0) (length ?la)
              (if ?raw \<noteq> [] then op_j2 (last ?raw) else 0) (length ?lb) (build_tagged TAGGED_CAP ?raw 0 0 []))"
      using False by (simp add: tagged_opcodes_def Let_def)
    have "tagged_opcodes ?la ?lb = [] @ tag_blocks (length ?la) (length ?lb) 0 0 ?raw"
      unfolding t by (rule build_tagged_tag_blocks) (use short t in \<open>simp_all add: TAGGED_CAP_def\<close>)
    moreover have "chain ?la ?lb 0 0 (length ?la) (length ?lb) ?raw"
      by (rule sorted_blocks_chain [OF emit_opcodes_blocks]) simp_all
    ultimately show ?thesis unfolding ops using run_tag_blocks by fastforce
  qed
qed

lemma opcodes_edit_first_into_second_witness:
  "run_opcodes [''a'', ''b'', ''c''] [''b'', ''x'', ''c'', ''d''] 0 0
     (difflib_get_opcodes (Some ''a\<newline>b\<newline>c'') (Some ''b\<newline>x\<newline>c\<newline>d'') 100)
   = Some [''b'', ''x'', ''c'', ''d'']"
proof -
  let ?a = "Some ''a\<newline>b\<newline>c''" and ?b = "Some ''b\<newline>x\<newline>c\<newline>d''"
  have s: "split_lines ?a MAX_LINES = [''a'', ''b'', ''c'']" "split_lines ?b MAX_LINES = [''b'', ''x'', ''c'', ''d'']"
    by (simp_all add: MAX_LINES_def split_lines_def Let_def split_loop_unfold [of 2048]
      split_loop_unfold [of 2047] split_loop_unfold [of 2046] split_loop_unfold [of 2045] split_loop_unfold [of 2044])
  have "length (tagged_opcodes [''a'', ''b'', ''c''] [''b'', ''x'', ''c'', ''d'']) = 5" by code_simp
  then have n: "length (difflib_get_opcodes ?a ?b 100) = 5"
    by (simp add: difflib_get_opcodes_def s)
  show ?thesis using opcodes_edit_first_into_second [of ?a ?b 100] unfolding n s by simp
qed

section \<open>The similarity ratios\<close>

definition block_sum :: "difflib_opcode list \<Rightarrow> nat" where
  "block_sum ops = sum_list (map (\<lambda>op. op_i2 op - op_i1 op) ops)"

lemma block_sum_Cons [simp]: "block_sum (op # ops) = op_i2 op - op_i1 op + block_sum ops"
  by (simp add: block_sum_def)

lemma chain_block_sum: "chain a b i j na nb ops \<Longrightarrow> block_sum ops \<le> na - i \<and> block_sum ops \<le> nb - j"
proof (induction ops arbitrary: i j)
  case (Cons op ops)
  have "block_sum ops \<le> na - op_i2 op \<and> block_sum ops \<le> nb - op_j2 op"
    using Cons.IH [of "op_i2 op" "op_j2 op"] Cons.prems by simp
  moreover have "op_i2 op \<le> na" "op_j2 op \<le> nb" using Cons.prems chain_le by fastforce+
  ultimately show ?case using Cons.prems by (auto simp: equal_op_def)
qed (simp add: block_sum_def)

lemma chain_full:
  assumes "chain a b i j na nb ops" "block_sum ops = na - i" "na - i = nb - j"
  shows "\<forall>d < na - i. a ! (i + d) = b ! (j + d)"
  using assms
proof (induction ops arbitrary: i j)
  case (Cons op ops)
  have rest: "chain a b (op_i2 op) (op_j2 op) na nb ops" using Cons.prems by simp
  have le: "op_i2 op \<le> na" "op_j2 op \<le> nb" using chain_le [OF rest] by auto
  have eq: "equal_op a b op" "i \<le> op_i1 op" "j \<le> op_j1 op" using Cons.prems by auto
  note sum = chain_block_sum [OF rest]
  have i: "op_i1 op = i" "block_sum ops = na - op_i2 op"
    using Cons.prems(2) sum eq le by (auto simp: equal_op_def)
  have j: "op_j1 op = j" "na - op_i2 op = nb - op_j2 op"
    using Cons.prems(2,3) sum eq le i by (auto simp: equal_op_def)
  have IH: "\<forall>d < na - op_i2 op. a ! (op_i2 op + d) = b ! (op_j2 op + d)" using Cons.IH [OF rest i(2) j(2)] .
  show ?case
  proof (intro allI impI)
    fix d assume d: "d < na - i"
    show "a ! (i + d) = b ! (j + d)"
    proof (cases "d < op_i2 op - op_i1 op")
      case True
      then show ?thesis using eq i j by (auto simp: equal_op_def)
    next
      case False
      define e where "e = d - (op_i2 op - op_i1 op)"
      have "i + d = op_i2 op + e" "j + d = op_j2 op + e" "e < na - op_i2 op"
        using False d i j eq le by (auto simp: e_def equal_op_def)
      then show ?thesis using IH by simp
    qed
  qed
qed (simp add: block_sum_def)

lemma common_prefix_spec:
  "common_prefix a b ahi bhi lo = lo' \<Longrightarrow> lo \<le> ahi \<Longrightarrow> lo \<le> bhi
    \<Longrightarrow> lo \<le> lo' \<and> lo' \<le> ahi \<and> lo' \<le> bhi \<and> (\<forall>d. lo \<le> d \<and> d < lo' \<longrightarrow> a ! d = b ! d)"
proof (induction a b ahi bhi lo rule: common_prefix.induct)
  case (1 a b ahi bhi lo)
  show ?case
  proof (cases "lo < ahi \<and> lo < bhi \<and> a ! lo = b ! lo")
    case True
    then have "common_prefix a b ahi bhi (lo + 1) = lo'"
      using 1(2) by (simp add: common_prefix.simps [of a b ahi bhi lo])
    then have H: "lo + 1 \<le> lo' \<and> lo' \<le> ahi \<and> lo' \<le> bhi \<and> (\<forall>d. lo + 1 \<le> d \<and> d < lo' \<longrightarrow> a ! d = b ! d)"
      by (intro 1(1) True) (use True in auto)
    have "a ! d = b ! d" if "lo \<le> d \<and> d < lo'" for d
      using H True that by (cases "d = lo") auto
    then show ?thesis using H by auto
  next
    case False
    have "lo' = lo" using 1(2) unfolding common_prefix.simps [of a b ahi bhi lo] if_not_P [OF False] by simp
    then show ?thesis using 1(3,4) by auto
  qed
qed

lemma common_suffix_spec:
  "common_suffix a b lo ahi bhi = (ahi', bhi') \<Longrightarrow> lo \<le> ahi \<Longrightarrow> lo \<le> bhi
    \<Longrightarrow> lo \<le> ahi' \<and> lo \<le> bhi' \<and> ahi' \<le> ahi \<and> ahi - ahi' = bhi - bhi' \<and> bhi' \<le> bhi
        \<and> (\<forall>d < ahi - ahi'. a ! (ahi' + d) = b ! (bhi' + d))"
proof (induction a b lo ahi bhi rule: common_suffix.induct)
  case (1 a b lo ahi bhi)
  show ?case
  proof (cases "ahi > lo \<and> bhi > lo \<and> a ! (ahi - 1) = b ! (bhi - 1)")
    case True
    then have "common_suffix a b lo (ahi - 1) (bhi - 1) = (ahi', bhi')"
      using 1(2) by (simp add: common_suffix.simps [of a b lo ahi bhi])
    then have IH: "lo \<le> ahi' \<and> lo \<le> bhi' \<and> ahi' \<le> ahi - 1 \<and> ahi - 1 - ahi' = bhi - 1 - bhi' \<and> bhi' \<le> bhi - 1
        \<and> (\<forall>d < ahi - 1 - ahi'. a ! (ahi' + d) = b ! (bhi' + d))"
      by (intro 1(1) True) (use True in auto)
    have "a ! (ahi' + d) = b ! (bhi' + d)" if "d < ahi - ahi'" for d
    proof (cases "d = ahi - 1 - ahi'")
      case d: True
      then have "ahi' + d = ahi - 1" "bhi' + d = bhi - 1" using IH True by auto
      then show ?thesis using True by simp
    qed (use IH that in auto)
    then show ?thesis using IH True by auto
  next
    case False
    have "(ahi', bhi') = (ahi, bhi)"
      using 1(2) unfolding common_suffix.simps [of a b lo ahi bhi] if_not_P [OF False] by simp
    then show ?thesis using 1(3,4) by auto
  qed
qed

lemma seq_matched_bounds:
  "seq_matched a b \<le> length a \<and> seq_matched a b \<le> length b
    \<and> (seq_matched a b = length a \<and> seq_matched a b = length b \<longrightarrow> a = b)"
proof -
  obtain lo where lo: "common_prefix a b (length a) (length b) 0 = lo" by blast
  obtain ahi bhi where hi: "common_suffix a b lo (length a) (length b) = (ahi, bhi)" by fastforce
  have P: "lo \<le> length a" "lo \<le> length b" "\<forall>d < lo. a ! d = b ! d"
    using common_prefix_spec [OF lo] by auto
  have S: "lo \<le> ahi" "lo \<le> bhi" "ahi \<le> length a" "bhi \<le> length b" "length a - ahi = length b - bhi"
    "\<forall>d < length a - ahi. a ! (ahi + d) = b ! (bhi + d)"
    using common_suffix_spec [OF hi P(1,2)] by auto
  let ?raw = "emit_opcodes a b lo ahi lo bhi 512"
  have c: "chain a b lo lo ahi bhi (sort_key blk_key ?raw)"
    by (rule sorted_blocks_chain [OF emit_opcodes_blocks [OF S(1,2)] S(1,2)])
  have bs: "block_sum (sort_key blk_key ?raw) = block_sum ?raw"
    unfolding block_sum_def by (simp only: sum_mset_sum_list [symmetric] mset_map mset_sort)
  have m: "seq_matched a b = lo + (length a - ahi) + block_sum ?raw"
    using lo hi by (simp add: seq_matched_def block_sum_def Let_def)
  note sum = chain_block_sum [OF c, unfolded bs]
  have "a = b" if full: "seq_matched a b = length a" "seq_matched a b = length b"
  proof (rule nth_equalityI)
    show "length a = length b" using full by simp
    fix d assume d: "d < length a"
    have eq: "ahi = bhi" "block_sum (sort_key blk_key ?raw) = ahi - lo"
      using full m S sum unfolding bs by linarith+
    consider "d < lo" | "lo \<le> d" "d < ahi" | "ahi \<le> d" by linarith
    then show "a ! d = b ! d"
    proof cases
      case 2
      then show ?thesis
        using chain_full [OF c eq(2)] eq(1) by (auto dest!: spec [of _ "d - lo"])
    next
      case 3
      then show ?thesis using S(6) eq(1) d by (auto dest!: spec [of _ "d - ahi"])
    qed (use P in simp)
  qed
  then show ?thesis using m S sum by auto
qed

text \<open>The matching-block ratio of two strings lies between 0 and 1, and is 1 exactly for equal
  strings: no character is counted twice, whatever the blocks, and whatever was dropped for lack of
  room.\<close>

theorem seq_ratio_bounds:
  fixes a b :: string
  shows "0 \<le> difflib_seq_ratio (Some a) (Some b) \<and> difflib_seq_ratio (Some a) (Some b) \<le> 1
    \<and> (difflib_seq_ratio (Some a) (Some b) = 1 \<longleftrightarrow> a = b)"
proof (cases "a = [] \<or> b = [] \<or> a = b")
  case True
  then show ?thesis by (auto simp: difflib_seq_ratio_def)
next
  case False
  let ?m = "of_nat (seq_matched a b) :: rat" and ?n = "of_nat (length a + length b) :: rat"
  have r: "difflib_seq_ratio (Some a) (Some b) = 2 * ?m / ?n"
    using False by (simp add: difflib_seq_ratio_def)
  have n: "0 < ?n" using False by (simp add: add_pos_pos)
  have "2 * seq_matched a b < length a + length b"
    using seq_matched_bounds [of a b] False by linarith
  then have "of_nat (2 * seq_matched a b) < (of_nat (length a + length b) :: rat)"
    unfolding of_nat_less_iff .
  then have "2 * ?m < ?n" by simp
  then have less: "2 * ?m / ?n < 1" using n by (simp add: divide_less_eq del: of_nat_add)
  have "0 \<le> 2 * ?m / ?n" by simp
  with less less_imp_le [OF less] less_imp_neq [OF less] show ?thesis using False unfolding r by blast
qed

section \<open>Close matches\<close>

lemma sel_best_fold:
  assumes "i < n"
  shows "i < m \<Longrightarrow> m \<le> n \<Longrightarrow>
    (let best = fold (\<lambda>k best. if (r :: rat list) ! k > r ! best then k else best) [i + 1..<m] i
     in i \<le> best \<and> best < m \<and> (\<forall>k. i \<le> k \<and> k < m \<longrightarrow> r ! k \<le> r ! best)
        \<and> (\<forall>k. i \<le> k \<and> k < best \<longrightarrow> r ! k < r ! best))"
proof (induction m)
  case (Suc m)
  show ?case
  proof (cases "m = i")
    case True
    then show ?thesis by (auto simp: le_Suc_eq less_Suc_eq)
  next
    case False
    let ?b = "fold (\<lambda>k best. if r ! k > r ! best then k else best) [i + 1..<m] i"
    have b: "i \<le> ?b" "?b < m" "\<forall>k. i \<le> k \<and> k < m \<longrightarrow> r ! k \<le> r ! ?b"
      "\<forall>k. i \<le> k \<and> k < ?b \<longrightarrow> r ! k < r ! ?b"
      using Suc False by (auto simp: Let_def)
    have "[i + 1..<Suc m] = [i + 1..<m] @ [m]" using Suc.prems False by simp
    then have f: "fold (\<lambda>k best. if r ! k > r ! best then k else best) [i + 1..<Suc m] i
        = (if r ! m > r ! ?b then m else ?b)" by simp
    show ?thesis unfolding f Let_def using b by (auto simp: less_Suc_eq intro: less_imp_le le_less_trans)
  qed
qed simp

lemma sel_best_spec:
  assumes "i < length r"
  shows "i \<le> sel_best r i" "sel_best r i < length r"
    and "i \<le> k \<Longrightarrow> k < length r \<Longrightarrow> r ! k \<le> r ! sel_best r i"
    and "i \<le> k \<Longrightarrow> k < sel_best r i \<Longrightarrow> r ! k < r ! sel_best r i"
  using sel_best_fold [OF assms assms order_refl, of r] by (simp_all add: sel_best_def Let_def)

lemma length_sel_step [simp]: "length (sel_step r i idx) = length idx"
  by (simp add: sel_step_def Let_def)

lemma mset_sel_step: "i < length r \<Longrightarrow> length idx = length r \<Longrightarrow> mset (sel_step r i idx) = mset idx"
  using sel_best_spec(2) [of i r] by (simp add: sel_step_def Let_def mset_swap)

lemma sel_step_below: "k < i \<Longrightarrow> i < length r \<Longrightarrow> sel_step r i idx ! k = idx ! k"
  using sel_best_spec(1) [of i r] by (auto simp: sel_step_def Let_def)

lemma sel_steps:
  assumes "length idx = length r"
  shows "n \<le> length r \<Longrightarrow>
    length (fold (sel_step r) [0..<n] idx) = length idx \<and> mset (fold (sel_step r) [0..<n] idx) = mset idx"
proof (induction n)
  case (Suc n)
  then show ?case using assms by (simp add: mset_sel_step)
qed simp

lemma sel_steps_first:
  assumes "length idx = length r" "0 < n"
  shows "n \<le> length r \<Longrightarrow> fold (sel_step r) [0..<n] idx ! 0 = idx ! sel_best r 0"
  using assms(2)
proof (induction n)
  case (Suc n)
  show ?case
  proof (cases n)
    case 0
    then have "sel_best r 0 < length r" using Suc.prems sel_best_spec(2) [of 0 r] by (cases r) auto
    then show ?thesis
      using 0 Suc.prems assms(1) by (cases r) (auto simp: sel_step_def Let_def nth_list_update_if)
  next
    case (Suc n')
    then show ?thesis
      using Suc.IH Suc.prems by (simp add: sel_step_below)
  qed
qed simp

definition close_indices :: "string \<Rightarrow> string option list \<Rightarrow> rat \<Rightarrow> nat list" where
  "close_indices word ps cutoff =
     (let cands = close_candidates word ps cutoff
      in fold (sel_step (map fst cands)) [0..<length cands - 1] (map snd cands))"

lemma close_candidates_set:
  "set (close_candidates word ps cutoff)
    = {(r, i). i < min (length ps) 512 \<and> r = difflib_seq_ratio (Some word) (ps ! i) \<and> cutoff \<le> r}"
  by (auto simp: close_candidates_def)

lemma close_candidates_ascending:
  "sorted_wrt (<) (map snd (close_candidates word ps cutoff))"
proof -
  have m: "map snd (close_candidates word ps cutoff)
      = filter (\<lambda>i. cutoff \<le> difflib_seq_ratio (Some word) (ps ! i)) [0..<min (length ps) 512]"
    by (simp add: close_candidates_def filter_map comp_def)
  show ?thesis unfolding m by (rule sorted_wrt_filter) simp
qed

lemma close_candidates_nth:
  assumes "k < length (close_candidates word ps cutoff)"
  shows "fst (close_candidates word ps cutoff ! k)
    = difflib_seq_ratio (Some word) (ps ! snd (close_candidates word ps cutoff ! k))"
  using nth_mem [OF assms] by (auto simp: close_candidates_set)

text \<open>The answer is a duplicate-free selection of the indices that reach the cutoff, and it starts with
  the first of the best.\<close>

lemma close_matches_indices:
  fixes n out_max :: int and c :: rat
  assumes "0 < out_max"
  defines "n' \<equiv> (if n \<le> 0 then 3 else n)" and "c' \<equiv> (if c \<le> 0 then 3 / 5 else c)"
  shows "difflib_get_close_matches (Some word) ps n c out_max
      = map ((!) ps) (take (min (nat n') (nat out_max)) (close_indices word ps c'))"
    and "mset (close_indices word ps c') = mset (map snd (close_candidates word ps c'))"
    and "close_candidates word ps c' \<noteq> [] \<Longrightarrow>
      close_indices word ps c' ! 0
        = snd (close_candidates word ps c' ! sel_best (map fst (close_candidates word ps c')) 0)"
proof -
  let ?c = "close_candidates word ps c'"
  show "difflib_get_close_matches (Some word) ps n c out_max
      = map ((!) ps) (take (min (nat n') (nat out_max)) (close_indices word ps c'))"
    using assms(1) by (simp add: difflib_get_close_matches_def close_indices_def n'_def c'_def Let_def)
  show "mset (close_indices word ps c') = mset (map snd ?c)"
    using sel_steps [of "map snd ?c" "map fst ?c" "length ?c - 1"]
    by (simp add: close_indices_def Let_def)
  assume ne: "?c \<noteq> []"
  show "close_indices word ps c' ! 0 = snd (?c ! sel_best (map fst ?c) 0)"
  proof (cases "length ?c = 1")
    case True
    then have "sel_best (map fst ?c) 0 = 0"
      using sel_best_spec(2) [of 0 "map fst ?c"] by simp
    then show ?thesis using True by (simp add: close_indices_def Let_def)
  next
    case False
    then have "0 < length ?c - 1" using ne by (cases "length ?c") auto
    moreover have "sel_best (map fst ?c) 0 < length ?c"
      using sel_best_spec(2) [of 0 "map fst ?c"] ne by simp
    ultimately show ?thesis
      using sel_steps_first [of "map snd ?c" "map fst ?c" "length ?c - 1"]
      by (simp add: close_indices_def Let_def)
  qed
qed

text \<open>The close matches begin with a best one: nothing is found exactly when no candidate reaches the
  cutoff, everything found is a candidate that does, and the first one found has the greatest ratio.\<close>

theorem close_matches_best_first:
  assumes "0 < out_max" and "difflib_get_close_matches (Some word) ps n c out_max = found"
    and "c' = (if c \<le> 0 then 3 / 5 else c)"
  shows "(found = [] \<longleftrightarrow> (\<forall>i < min (length ps) 512. difflib_seq_ratio (Some word) (ps ! i) < c'))
    \<and> (\<forall>p \<in> set found. p \<in> set ps \<and> c' \<le> difflib_seq_ratio (Some word) p)
    \<and> (\<forall>i < min (length ps) 512. c' \<le> difflib_seq_ratio (Some word) (ps ! i)
         \<longrightarrow> difflib_seq_ratio (Some word) (ps ! i) \<le> difflib_seq_ratio (Some word) (found ! 0))"
proof -
  let ?n = "if n \<le> 0 then 3 else n" and ?c = "close_candidates word ps c'"
  note H = close_matches_indices(1) [OF assms(1), where word = word and ps = ps and n = n and c = c,
      folded assms(3), unfolded assms(2)]
    close_matches_indices(2) [OF assms(1), where word = word and ps = ps and c = c, folded assms(3)]
    close_matches_indices(3) [OF assms(1), where word = word and ps = ps and c = c, folded assms(3)]
  have pos: "0 < min (nat ?n) (nat out_max)" using assms(1) by simp
  have set_idx: "set (close_indices word ps c') = snd ` set ?c"
    using H(2) by (metis set_map set_mset_mset)
  have len: "length (close_indices word ps c') = length ?c"
    using H(2) by (metis length_map size_mset)
  have cand: "i \<in> snd ` set ?c \<longleftrightarrow> i < min (length ps) 512 \<and> c' \<le> difflib_seq_ratio (Some word) (ps ! i)" for i
    by (force simp: close_candidates_set)
  have "found = [] \<longleftrightarrow> ?c = []" unfolding H(1) using pos len by auto
  also have "... \<longleftrightarrow> (\<forall>i. i \<notin> snd ` set ?c)" by (cases ?c) (auto simp: image_iff)
  also have "... \<longleftrightarrow> (\<forall>i < min (length ps) 512. difflib_seq_ratio (Some word) (ps ! i) < c')"
    unfolding cand by (auto simp: not_le)
  finally have 1: "found = [] \<longleftrightarrow> (\<forall>i < min (length ps) 512. difflib_seq_ratio (Some word) (ps ! i) < c')" .
  have 2: "\<forall>p \<in> set found. p \<in> set ps \<and> c' \<le> difflib_seq_ratio (Some word) p"
  proof
    fix p assume "p \<in> set found"
    then obtain i where "i \<in> set (close_indices word ps c')" "p = ps ! i"
      unfolding H(1) by (auto dest: in_set_takeD)
    then show "p \<in> set ps \<and> c' \<le> difflib_seq_ratio (Some word) p" using set_idx cand by auto
  qed
  have "difflib_seq_ratio (Some word) (ps ! i) \<le> difflib_seq_ratio (Some word) (found ! 0)"
    if i: "i < min (length ps) 512" "c' \<le> difflib_seq_ratio (Some word) (ps ! i)" for i
  proof -
    have "(difflib_seq_ratio (Some word) (ps ! i), i) \<in> set ?c" using i by (auto simp: close_candidates_set)
    then obtain k where k: "k < length ?c" "?c ! k = (difflib_seq_ratio (Some word) (ps ! i), i)"
      by (auto simp: in_set_conv_nth)
    have ne: "?c \<noteq> []" using k(1) by auto
    let ?b = "sel_best (map fst ?c) 0"
    have b: "?b < length ?c" "fst (?c ! k) \<le> fst (?c ! ?b)"
      using sel_best_spec(2) [of 0 "map fst ?c"] sel_best_spec(3) [of 0 "map fst ?c" k] k(1) ne
      by simp_all
    have "found ! 0 = ps ! snd (?c ! ?b)"
      unfolding H(1) using pos len H(3) [OF ne] ne by (simp add: nth_map)
    then show ?thesis using b k close_candidates_nth [OF b(1)] by simp
  qed
  with 1 2 show ?thesis by blast
qed

lemma close_matches_best_first_witness:
  "difflib_get_close_matches (Some ''abcd'') [Some ''abxy'', Some ''abcx'', Some ''abcd''] 2 (1 / 10) 10
     = [Some ''abcd'', Some ''abxy'']
   \<and> difflib_seq_ratio (Some ''abcd'') (Some ''abcx'') \<le> difflib_seq_ratio (Some ''abcd'') (Some ''abcd'')"
proof -
  have f: "difflib_get_close_matches (Some ''abcd'') [Some ''abxy'', Some ''abcx'', Some ''abcd''] 2 (1 / 10) 10
     = [Some ''abcd'', Some ''abxy'']" by code_simp
  have r: "1 / 10 \<le> difflib_seq_ratio (Some ''abcd'') (Some ''abcx'')" by code_simp
  have "difflib_seq_ratio (Some ''abcd'') (Some ''abcx'') \<le> difflib_seq_ratio (Some ''abcd'') (Some ''abcd'')"
    using close_matches_best_first [of 10 "''abcd''" "[Some ''abxy'', Some ''abcx'', Some ''abcd'']" 2 "1 / 10",
        OF _ f refl] r by (auto dest!: spec [of _ 1])
  with f show ?thesis by blast
qed

text \<open>The order below the first place is not by ratio: the exchange leaves the ratios where they were.\<close>

lemma close_matches_misordered:
  "difflib_get_close_matches (Some ''abcd'') [Some ''abxy'', Some ''abcx'', Some ''abcd''] 3 (1 / 10) 10
     = [Some ''abcd'', Some ''abxy'', Some ''abcx'']"
  "difflib_seq_ratio (Some ''abcd'') (Some ''abxy'') = 1 / 2"
  "difflib_seq_ratio (Some ''abcd'') (Some ''abcx'') = 3 / 4"
  by code_simp+

text \<open>The prefix and suffix that are matched first are not what \<open>SequenceMatcher\<close> would match: it takes
  the longest block \<open>aa\<close> at the end of the second text and has nothing left to match it with.\<close>

lemma seq_ratio_not_longest_first:
  "lmb ''aaa'' 0 3 ''abaa'' 0 4 = (0, 2, 2)"
  "difflib_seq_ratio (Some ''aaa'') (Some ''abaa'') = 6 / 7"
  by code_simp+

text \<open>Blank lines are invisible to every line comparison.\<close>

lemma blank_lines_ignored:
  fixes t u :: string
  defines "t \<equiv> ''a'' @ [CHR 0x0A, CHR 0x0A] @ ''b''" and "u \<equiv> ''a'' @ [CHR 0x0A] @ ''b''"
  shows "split_lines (Some t) MAX_LINES = [''a'', ''b'']" "split_lines (Some u) MAX_LINES = [''a'', ''b'']"
    and "difflib_ratio (Some t) (Some u) = 1" "ud_items (Some t) (Some u) 3 = Some [UHead]"
proof -
  show s: "split_lines (Some t) MAX_LINES = [''a'', ''b'']" "split_lines (Some u) MAX_LINES = [''a'', ''b'']"
    by (simp_all add: MAX_LINES_def t_def u_def split_lines_def Let_def split_loop_unfold [of 2048]
      split_loop_unfold [of 2047] split_loop_unfold [of 2046])
  have "lcs_length [''a'', ''b''] [''a'', ''b''] = 2" by code_simp
  then show "difflib_ratio (Some t) (Some u) = 1"
    unfolding difflib_ratio_def using s by (simp add: t_def u_def Let_def)
  have "match_lines [''a'', ''b''] [''a'', ''b''] = [0, 1]"
    by (simp add: match_lines_def match_walk.simps)
  then have "ud_hunks [''a'', ''b''] [''a'', ''b''] (match_lines [''a'', ''b''] [''a'', ''b'']) 3 0 0 = Some []"
    by (simp add: ud_hunks.simps equal_run.simps)
  then show "ud_items (Some t) (Some u) 3 = Some [UHead]" by (simp add: ud_items_def s Let_def)
qed

section \<open>The LCS ratio\<close>

lemma lcs_ratio_bounds:
  "2 * of_nat (lcs_rows xs ys) / of_nat (length xs + length ys) \<le> (1 :: rat)"
proof -
  have "lcs_rows xs ys \<le> length xs" "lcs_rows xs ys \<le> length ys"
    using lcs_len_le [of "take LCS_MAX xs" "take LCS_MAX ys"] by (auto simp: lcs_rows_eq)
  then have "of_nat (2 * lcs_rows xs ys) \<le> (of_nat (length xs + length ys) :: rat)"
    unfolding of_nat_le_iff by linarith
  then show ?thesis
    by (cases "length xs + length ys = 0") (simp_all add: divide_le_eq add_pos_pos del: of_nat_add)
qed

lemma ratio_bounds: "0 \<le> difflib_ratio oa ob \<and> difflib_ratio oa ob \<le> 1"
  by (simp add: difflib_ratio_def lcs_length_def Let_def lcs_ratio_bounds del: of_nat_add split: option.splits)

section \<open>The simple diff\<close>

text \<open>Once more than the size of the buffer has been printed, the next line is written behind it.\<close>

lemma sd_print_overrun: "pos > SD_BUF \<Longrightarrow> sd_print t (Some (out, pos)) = None"
  by (simp add: sd_print_def)

lemma sd_print_pos: "sd_print t (Some (out, pos)) = Some (out', pos') \<Longrightarrow> pos' = pos + length t \<and> pos \<le> SD_BUF"
  by (auto simp: sd_print_def split: if_splits)

lemma simple_diff_overruns:
  assumes "split_lines (Some a) MAX_LINES = [l, m]" "SD_BUF \<le> length l + 1"
    "split_lines (Some b) MAX_LINES = [l, m]"
  shows "difflib_simple_diff (Some a) (Some b) = None"
  using assms by (simp add: difflib_simple_diff_def sd_line_def sd_print_def SD_BUF_def numeral_2_eq_2)

end
