(* ===== verification/Crypto.thy ===== *)
theory Crypto
  imports Slermes_Prelude
begin

text \<open>
  \<^verbatim>\<open>lib/libcrypto/crypto.c\<close>: base64url, JSON web tokens (HS256), hexadecimal, the credential vault,
  the AES-256-GCM envelope and PKCE. Hashes, MACs, ciphers, signatures and random bytes are calls of
  OpenSSL and arguments of the definitions. Arguments are not NULL, allocations succeed.
\<close>

type_synonym bytes = "u8 list"

text \<open>A C string as the bytes a function reads through \<open>const unsigned char *\<close>, and back.\<close>

definition str_bytes :: "string \<Rightarrow> bytes" where
  "str_bytes s = map (\<lambda>c. word_of_int (of_char c)) s"

definition bytes_str :: "bytes \<Rightarrow> string" where
  "bytes_str bs = map (\<lambda>b. char_of (uint b)) bs"

definition CRYPTO_SHA256_LEN :: nat where "CRYPTO_SHA256_LEN = 32"

section \<open>base64url\<close>

definition b64url_chars :: string where
  "b64url_chars = ''ABCDEFGHIJKLMNOPQRSTUVWXYZabcdefghijklmnopqrstuvwxyz0123456789-_''"

definition b64url_quad :: "u8 \<Rightarrow> u8 \<Rightarrow> u8 \<Rightarrow> string" where
  "b64url_quad x y z =
     (let a = uint x; b = uint y; c = uint z;
          triple = push_bit 16 a OR push_bit 8 b OR c
      in [b64url_chars ! nat (drop_bit 18 triple AND 63), b64url_chars ! nat (drop_bit 12 triple AND 63),
          b64url_chars ! nat (drop_bit 6 triple AND 63), b64url_chars ! nat (triple AND 63)])"

text \<open>The loop writes whole quads, reading zeros past the end.\<close>

fun b64url_quads :: "bytes \<Rightarrow> string" where
  "b64url_quads [] = []"
| "b64url_quads [x] = b64url_quad x 0 0"
| "b64url_quads [x, y] = b64url_quad x y 0"
| "b64url_quads (x # y # z # data) = b64url_quad x y z @ b64url_quads data"

definition crypto_base64url_encode :: "bytes \<Rightarrow> string" where
  "crypto_base64url_encode data =
     (let len = length data; out_len = (len + 2) div 3 * 4; pad = (3 - len mod 3) mod 3
      in take (out_len - pad) (b64url_quads data))"

definition b64url_val :: "char \<Rightarrow> int" where
  "b64url_val c =
     (let i = of_char c :: int
      in if 65 \<le> i \<and> i \<le> 90 then i - 65
         else if 97 \<le> i \<and> i \<le> 122 then i - 97 + 26
         else if 48 \<le> i \<and> i \<le> 57 then i - 48 + 52
         else if c = CHR ''-'' then 62
         else if c = CHR ''_'' then 63
         else - 1)"

text \<open>One quad of the padded text: None is the failure.\<close>

definition b64url_dec_quad :: "char \<Rightarrow> char \<Rightarrow> char \<Rightarrow> char \<Rightarrow> bytes option" where
  "b64url_dec_quad p0 p1 p2 p3 =
     (let a = b64url_val p0; b = b64url_val p1;
          c = (if p2 = CHR ''='' then 0 else b64url_val p2);
          d = (if p3 = CHR ''='' then 0 else b64url_val p3)
      in if a < 0 \<or> b < 0 \<or> c < 0 \<or> d < 0 then None
         else let triple = push_bit 18 a OR push_bit 12 b OR push_bit 6 c OR d
              in Some ([word_of_int (drop_bit 16 triple)]
                       @ (if p2 \<noteq> CHR ''='' then [word_of_int (drop_bit 8 triple)] else [])
                       @ (if p3 \<noteq> CHR ''='' then [word_of_int triple] else [])))"

fun b64url_dec_quads :: "string \<Rightarrow> bytes option" where
  "b64url_dec_quads (p0 # p1 # p2 # p3 # ps) =
     (case b64url_dec_quad p0 p1 p2 p3 of
        None \<Rightarrow> None
      | Some block \<Rightarrow> map_option ((@) block) (b64url_dec_quads ps))"
| "b64url_dec_quads _ = Some []"

definition crypto_base64url_decode :: "string \<Rightarrow> bytes option" where
  "crypto_base64url_decode input =
     (let in_len = length input
      in if in_len = 0 then None
         else b64url_dec_quads (input @ replicate ((4 - in_len mod 4) mod 4) (CHR ''='')))"

section \<open>JSON web tokens\<close>

text \<open>\<open>hmac\<close> is \<open>crypto_hmac_sha256\<close>, a call of OpenSSL. The header is passed with the length 26,
  one less than its own.\<close>

definition JWT_HEADER :: string where
  "JWT_HEADER = ''{\"alg\":\"HS256\",\"typ\":\"JWT\"}''"

definition crypto_jwt_encode :: "(bytes \<Rightarrow> bytes \<Rightarrow> bytes) \<Rightarrow> string \<Rightarrow> string \<Rightarrow> string" where
  "crypto_jwt_encode hmac secret payload_json =
     (let header_b64 = crypto_base64url_encode (take 26 (str_bytes JWT_HEADER));
          payload_b64 = crypto_base64url_encode (str_bytes payload_json);
          sig_input = header_b64 @ ''.'' @ payload_b64;
          sig = hmac (str_bytes secret) (str_bytes sig_input)
      in sig_input @ ''.'' @ crypto_base64url_encode sig)"

datatype jwt_error = Missing_first_dot | Missing_second_dot | Bad_signature_encoding
  | Signature_mismatch | Payload_decode_failed

text \<open>\<open>strchr(s, '.')\<close>: the text before the dot and the text after it.\<close>

definition split_dot :: "string \<Rightarrow> (string \<times> string) option" where
  "split_dot s =
     (if CHR ''.'' \<in> set s
      then Some (takeWhile (\<lambda>c. c \<noteq> CHR ''.'') s, drop 1 (dropWhile (\<lambda>c. c \<noteq> CHR ''.'') s))
      else None)"

text \<open>The comparison looks at every byte; \<open>ok\<close> is the conjunction.\<close>

definition ct_equal :: "bytes \<Rightarrow> bytes \<Rightarrow> bool" where
  "ct_equal e p = fold (\<lambda>i ok. ok \<and> e ! i = p ! i) [0..<CRYPTO_SHA256_LEN] True"

definition crypto_jwt_decode ::
    "(bytes \<Rightarrow> bytes \<Rightarrow> bytes) \<Rightarrow> string \<Rightarrow> string \<Rightarrow> jwt_error + string" where
  "crypto_jwt_decode hmac secret token =
     (case split_dot token of
        None \<Rightarrow> Inl Missing_first_dot
      | Some (header_b64, rest) \<Rightarrow>
          (case split_dot rest of
             None \<Rightarrow> Inl Missing_second_dot
           | Some (payload_b64, sig_b64) \<Rightarrow>
               let sig_input = take (length header_b64 + 1 + length payload_b64) token;
                   expected_sig = hmac (str_bytes secret) (str_bytes sig_input)
               in (case crypto_base64url_decode sig_b64 of
                     None \<Rightarrow> Inl Bad_signature_encoding
                   | Some provided_sig \<Rightarrow>
                       if length provided_sig \<noteq> CRYPTO_SHA256_LEN then Inl Bad_signature_encoding
                       else if \<not> ct_equal expected_sig provided_sig then Inl Signature_mismatch
                       else (case crypto_base64url_decode payload_b64 of
                               None \<Rightarrow> Inl Payload_decode_failed
                             | Some payload \<Rightarrow> Inr (c_str (bytes_str payload))))))"

section \<open>Hexadecimal\<close>

definition hex_digit :: "int \<Rightarrow> char" where
  "hex_digit i = ''0123456789abcdef'' ! nat i"

text \<open>\<open>snprintf("%02x")\<close> of each byte.\<close>

definition crypto_hex_encode :: "bytes \<Rightarrow> string" where
  "crypto_hex_encode data = concat (map (\<lambda>b. [hex_digit (uint b div 16), hex_digit (uint b mod 16)]) data)"

text \<open>\<open>sscanf(s, "%2x", &byte)\<close>: white space is skipped, then at most two characters are read, a sign
  and digits; without a digit \<open>byte\<close> keeps what it held, which is nothing defined.\<close>

definition scan_2x :: "string \<Rightarrow> int option" where
  "scan_2x s =
     (case take 2 (dropWhile c_isspace s) of
        [] \<Rightarrow> None
      | [c] \<Rightarrow> if c_digit_val c < 16 then Some (c_digit_val c) else None
      | c # d # _ \<Rightarrow>
          if c_digit_val c < 16
          then if c = CHR ''0'' \<and> c_tolower d = CHR ''x'' then None
               else if c_digit_val d < 16 then Some (c_digit_val c * 16 + c_digit_val d)
               else Some (c_digit_val c)
          else if c = CHR ''+'' \<and> c_digit_val d < 16 then Some (c_digit_val d)
          else if c = CHR ''-'' \<and> c_digit_val d < 16 then Some (- c_digit_val d)
          else None)"

text \<open>\<open>junk i\<close> is the content of the uninitialised variable in turn \<open>i\<close>.\<close>

definition crypto_hex_decode :: "(nat \<Rightarrow> u8) \<Rightarrow> string \<Rightarrow> bytes option" where
  "crypto_hex_decode junk hex =
     (if length hex mod 2 \<noteq> 0 then None
      else Some (map (\<lambda>i. case scan_2x (drop (2 * i) hex) of None \<Rightarrow> junk i | Some byte \<Rightarrow> word_of_int byte)
                     [0..<length hex div 2]))"

section \<open>The credential vault\<close>

text \<open>\<open>sha256\<close> is a call of OpenSSL. Block \<open>b\<close> of the key stream is the hash of the first 32 bytes of
  the key, padded with zeros, and the counter in little-endian order.\<close>

definition block_input :: "string \<Rightarrow> nat \<Rightarrow> bytes" where
  "block_input key b =
     (let copy_len = (if length key < 32 then length key else 32)
      in str_bytes (take copy_len key) @ replicate (32 - copy_len) 0
         @ map (\<lambda>j. word_of_nat (drop_bit (j * 8) b AND 255)) [0..<8])"

definition keystream :: "(bytes \<Rightarrow> bytes) \<Rightarrow> string \<Rightarrow> nat \<Rightarrow> bytes" where
  "keystream sha256 key blocks = concat (map (\<lambda>b. sha256 (block_input key b)) [0..<blocks])"

definition xor_stream :: "bytes \<Rightarrow> bytes \<Rightarrow> bytes" where
  "xor_stream text ks = map (\<lambda>i. text ! i XOR ks ! i) [0..<length text]"

definition hermes_encrypt :: "(bytes \<Rightarrow> bytes) \<Rightarrow> string \<Rightarrow> bytes \<Rightarrow> string" where
  "hermes_encrypt sha256 key plaintext =
     (let blocks = (length plaintext + 31) div 32
      in crypto_hex_encode (xor_stream plaintext (keystream sha256 key blocks)))"

definition hermes_decrypt :: "(bytes \<Rightarrow> bytes) \<Rightarrow> (nat \<Rightarrow> u8) \<Rightarrow> string \<Rightarrow> string \<Rightarrow> bytes option" where
  "hermes_decrypt sha256 junk key ciphertext =
     (case crypto_hex_decode junk ciphertext of
        None \<Rightarrow> None
      | Some bin \<Rightarrow>
          let blocks = (length bin + 31) div 32
          in Some (xor_stream bin (keystream sha256 key blocks)))"

section \<open>AES-256-GCM\<close>

definition AES_GCM_IV_LEN :: nat where "AES_GCM_IV_LEN = 12"
definition AES_GCM_TAG_LEN :: nat where "AES_GCM_TAG_LEN = 16"
definition AES_GCM_KEY_LEN :: nat where "AES_GCM_KEY_LEN = 32"

definition aes_key :: "(bytes \<Rightarrow> bytes) \<Rightarrow> bytes \<Rightarrow> bytes" where
  "aes_key sha256 key = (if length key \<ge> AES_GCM_KEY_LEN then take AES_GCM_KEY_LEN key else sha256 key)"

text \<open>\<open>iv\<close> is what \<open>RAND_bytes\<close> delivers (None: it fails), \<open>seal\<close> the cipher calls of OpenSSL, which
  give the ciphertext and the tag or fail; \<open>unseal\<close> gives the plaintext or fails, on a wrong tag too.\<close>

definition crypto_aes_encrypt ::
    "(bytes \<Rightarrow> bytes) \<Rightarrow> (bytes \<Rightarrow> bytes \<Rightarrow> bytes \<Rightarrow> (bytes \<times> bytes) option)
      \<Rightarrow> bytes option \<Rightarrow> bytes \<Rightarrow> bytes \<Rightarrow> bytes option" where
  "crypto_aes_encrypt sha256 seal rand_iv plaintext key =
     (if length key < 1 then None
      else case rand_iv of
             None \<Rightarrow> None
           | Some iv \<Rightarrow>
               (case seal (aes_key sha256 key) iv plaintext of
                  None \<Rightarrow> None
                | Some (ct, tag) \<Rightarrow> Some (iv @ ct @ tag)))"

definition crypto_aes_decrypt ::
    "(bytes \<Rightarrow> bytes) \<Rightarrow> (bytes \<Rightarrow> bytes \<Rightarrow> bytes \<Rightarrow> bytes \<Rightarrow> bytes option)
      \<Rightarrow> bytes \<Rightarrow> bytes \<Rightarrow> bytes option" where
  "crypto_aes_decrypt sha256 unseal input key =
     (if length key < 1 then None
      else if length input < AES_GCM_IV_LEN + AES_GCM_TAG_LEN + 1 then None
      else let iv = take AES_GCM_IV_LEN input;
               ct_len = length input - AES_GCM_IV_LEN - AES_GCM_TAG_LEN;
               ct = take ct_len (drop AES_GCM_IV_LEN input);
               tag = drop (length input - AES_GCM_TAG_LEN) input
           in unseal (aes_key sha256 key) iv ct tag)"

section \<open>Digests and PKCE\<close>

definition crypto_md5_hex :: "(bytes \<Rightarrow> bytes option) \<Rightarrow> bytes \<Rightarrow> string option" where
  "crypto_md5_hex md5 data = map_option crypto_hex_encode (md5 data)"

definition crypto_pkce_verifier :: "bytes option \<Rightarrow> string option" where
  "crypto_pkce_verifier rand64 =
     (case rand64 of None \<Rightarrow> None
      | Some raw \<Rightarrow>
          let b64 = crypto_base64url_encode raw;
              len = (if length b64 > 128 then 128 else length b64)
          in Some (take len b64))"

definition crypto_pkce_challenge :: "(bytes \<Rightarrow> bytes) \<Rightarrow> string \<Rightarrow> string" where
  "crypto_pkce_challenge sha256 code_verifier = crypto_base64url_encode (sha256 (str_bytes code_verifier))"

definition crypto_rs256_sign_b64url :: "(string \<Rightarrow> bytes \<Rightarrow> bytes option) \<Rightarrow> string \<Rightarrow> bytes \<Rightarrow> string option" where
  "crypto_rs256_sign_b64url sign pem_key data = map_option crypto_base64url_encode (sign pem_key data)"

end
