(* ===== verification/Crypto_Correct.thy ===== *)
theory Crypto_Correct
  imports Crypto Json
begin

text \<open>
  Correctness of \<^verbatim>\<open>lib/libcrypto/crypto.c\<close>: the encoders are codecs (\<open>codec\<close>, interpreted for base64url,
  hexadecimal and the vault), a token is accepted exactly when it carries the MAC of its own text, and
  sealed texts open again. What OpenSSL computes enters only through the lengths of its results, and
  for AES-GCM through the law that opening undoes sealing.
\<close>

section \<open>Sextets of a triple\<close>

lemma and_63: "x AND 63 = x mod (64 :: int)"
  using take_bit_eq_mask [of 6 x] by (simp add: take_bit_eq_mod mask_eq_exp_minus_1)

lemma u8_range: "0 \<le> uint (x :: u8)" "uint (x :: u8) < 256"
  using uint_ge_0 [of x] uint_bounded [of x] by simp_all

definition triple :: "u8 \<Rightarrow> u8 \<Rightarrow> u8 \<Rightarrow> int" where
  "triple x y z = uint x * 65536 + uint y * 256 + uint z"

lemma triple_or: "push_bit 16 (uint x) OR push_bit 8 (uint y) OR uint z = triple x y z"
proof -
  have r: "push_bit 8 (uint y) OR uint z = uint y * 256 + uint z"
    using push_or [of "uint z" 8 "uint y"] u8_range [of z] by simp
  have "push_bit 16 (uint x) OR (uint y * 256 + uint z) = uint x * 65536 + (uint y * 256 + uint z)"
    using push_or [of "uint y * 256 + uint z" 16 "uint x"] u8_range [of y] u8_range [of z] by simp
  then show ?thesis unfolding triple_def by (simp add: or.assoc r)
qed

lemma quad_or:
  assumes "0 \<le> a" "a < 64" "0 \<le> b" "b < 64" "0 \<le> c" "c < 64" "0 \<le> d" "d < (64 :: int)"
  shows "push_bit 18 a OR push_bit 12 b OR push_bit 6 c OR d = a * 262144 + b * 4096 + c * 64 + d"
proof -
  have 1: "push_bit 6 c OR d = c * 64 + d" using push_or [of d 6 c] assms by simp
  have 2: "push_bit 12 b OR (c * 64 + d) = b * 4096 + (c * 64 + d)"
    using push_or [of "c * 64 + d" 12 b] assms by simp
  have 3: "push_bit 18 a OR (b * 4096 + (c * 64 + d)) = a * 262144 + (b * 4096 + (c * 64 + d))"
    using push_or [of "b * 4096 + (c * 64 + d)" 18 a] assms by simp
  show ?thesis by (simp add: or.assoc 1 2 3)
qed

definition sext :: "int \<Rightarrow> nat \<Rightarrow> int" where
  "sext t k = t div 2 ^ k mod 64"

lemma sext_range: "0 \<le> sext t k" "sext t k < 64"
  by (simp_all add: sext_def)

lemma sext_sum:
  assumes "0 \<le> t" "t < 16777216"
  shows "sext t 18 * 262144 + sext t 12 * 4096 + sext t 6 * 64 + sext t 0 = t"
proof -
  have d: "t div 4096 = t div 64 div 64" "t div 262144 = t div 64 div 64 div 64"
    using zdiv_zmult2_eq [of 64 t 64] zdiv_zmult2_eq [of 64 "t div 64" 64] zdiv_zmult2_eq [of 64 t 4096]
    by simp_all
  have top: "t div 64 div 64 div 64 < 64" "0 \<le> t div 64 div 64 div 64"
  proof -
    have "t div 262144 < 64" "0 \<le> t div 262144" using assms by (simp_all add: div_less_iff_less_mult)
    then show "t div 64 div 64 div 64 < 64" "0 \<le> t div 64 div 64 div 64" by (simp_all add: d(2))
  qed
  have m: "x div 64 * 64 + x mod 64 = x" for x :: int by simp
  have "sext t 18 * 64 + sext t 12 = t div 64 div 64"
    using top m [of "t div 64 div 64"] by (simp add: sext_def d)
  moreover have "t div 64 div 64 * 64 + sext t 6 = t div 64" using m [of "t div 64"] by (simp add: sext_def)
  moreover have "t div 64 * 64 + sext t 0 = t" using m [of t] by (simp add: sext_def)
  ultimately show ?thesis by linarith
qed

lemma triple_range: "0 \<le> triple x y z" "triple x y z < 16777216"
  using u8_range [of x] u8_range [of y] u8_range [of z] by (simp_all add: triple_def)

lemma b64url_quad_sext:
  "b64url_quad x y z = map (\<lambda>k. b64url_chars ! nat (sext (triple x y z) k)) [18, 12, 6, 0]"
  by (simp add: b64url_quad_def Let_def triple_or and_63 drop_bit_eq_div sext_def)

lemma triple_bytes:
  "(word_of_int (drop_bit 16 (triple x y z)) :: u8) = x"
  "(word_of_int (drop_bit 8 (triple x y z)) :: u8) = y"
  "(word_of_int (triple x y z) :: u8) = z"
proof -
  have w: "(word_of_int i :: u8) = v \<longleftrightarrow> i mod 256 = uint v" for i v
    by (simp add: word_uint_eq_iff uint_word_of_int)
  have r: "0 \<le> uint x" "uint x < 256" "0 \<le> uint y" "uint y < 256" "0 \<le> uint z" "uint z < 256"
    by (simp_all add: u8_range)
  have d: "triple x y z div 65536 = uint x" "triple x y z div 256 = uint x * 256 + uint y"
    unfolding triple_def using r by (auto intro!: int_div_pos_eq)
  show "(word_of_int (drop_bit 16 (triple x y z)) :: u8) = x"
    unfolding w drop_bit_eq_div using d(1) r by simp
  show "(word_of_int (drop_bit 8 (triple x y z)) :: u8) = y"
    unfolding w drop_bit_eq_div using d(2) r by simp
  have "triple x y z mod 256 = uint z"
  proof -
    have "triple x y z = uint z + (uint x * 256 + uint y) * 256" by (simp add: triple_def)
    then show ?thesis using r(5,6) by (simp only: mod_mult_self1 mod_pos_pos_trivial)
  qed
  then show "(word_of_int (triple x y z) :: u8) = z" by (simp add: w)
qed

section \<open>base64url round trip\<close>

lemma b64url_chars_length: "length b64url_chars = 64"
  by (simp add: b64url_chars_def)

lemma b64url_table:
  "map b64url_val b64url_chars = map int [0..<64]"
  "list_all (\<lambda>c. c \<noteq> CHR ''='' \<and> c \<noteq> CHR ''.'') b64url_chars"
  by (simp_all add: b64url_chars_def b64url_val_def upt_rec)

lemma b64url_char:
  assumes "0 \<le> i" "i < 64"
  shows "b64url_val (b64url_chars ! nat i) = i" "b64url_chars ! nat i \<noteq> CHR ''=''" "b64url_chars ! nat i \<noteq> CHR ''.''"
proof -
  have n: "nat i < length b64url_chars" "nat i < 64" using assms by (simp_all add: b64url_chars_length)
  have "map b64url_val b64url_chars ! nat i = map int [0..<64] ! nat i" by (simp only: b64url_table)
  then show "b64url_val (b64url_chars ! nat i) = i" using n assms(1) by simp
  show "b64url_chars ! nat i \<noteq> CHR ''=''" "b64url_chars ! nat i \<noteq> CHR ''.''"
    using b64url_table(2) nth_mem [OF n(1)] by (auto simp: list_all_iff)
qed

lemma dec_quad_whole:
  "b64url_dec_quad (b64url_chars ! nat (sext t 18)) (b64url_chars ! nat (sext t 12))
     (b64url_chars ! nat (sext t 6)) (b64url_chars ! nat (sext t 0))
   = (let t' = sext t 18 * 262144 + sext t 12 * 4096 + sext t 6 * 64 + sext t 0
      in Some [word_of_int (drop_bit 16 t'), word_of_int (drop_bit 8 t'), word_of_int t'])"
  using sext_range [of t]
  by (simp add: b64url_dec_quad_def Let_def b64url_char quad_or not_less)

lemma dec_quad_two:
  "b64url_dec_quad (b64url_chars ! nat (sext t 18)) (b64url_chars ! nat (sext t 12))
     (b64url_chars ! nat (sext t 6)) (CHR ''='')
   = (let t' = sext t 18 * 262144 + sext t 12 * 4096 + sext t 6 * 64
      in Some [word_of_int (drop_bit 16 t'), word_of_int (drop_bit 8 t')])"
  using sext_range [of t] quad_or [of "sext t 18" "sext t 12" "sext t 6" 0]
  by (simp add: b64url_dec_quad_def Let_def b64url_char not_less)

lemma dec_quad_one:
  "b64url_dec_quad (b64url_chars ! nat (sext t 18)) (b64url_chars ! nat (sext t 12)) (CHR ''='') (CHR ''='')
   = (let t' = sext t 18 * 262144 + sext t 12 * 4096 in Some [word_of_int (drop_bit 16 t')])"
  using sext_range [of t] quad_or [of "sext t 18" "sext t 12" 0 0]
  by (simp add: b64url_dec_quad_def Let_def b64url_char not_less)

lemma sext_low_zero:
  "sext (triple x y 0) 0 = 0" "sext (triple x 0 0) 6 = 0" "sext (triple x 0 0) 0 = 0"
proof -
  have "triple x 0 0 div 64 = uint x * 1024" by (simp add: triple_def)
  then show "sext (triple x 0 0) 6 = 0" by (simp add: sext_def)
  show "sext (triple x y 0) 0 = 0" "sext (triple x 0 0) 0 = 0" by (simp_all add: sext_def triple_def)
qed

text \<open>The tail of a text, as the encoder leaves it and the decoder pads it.\<close>

lemma div3_step: "(5 + n) div 3 = Suc (Suc (Suc n) div 3)"
  by presburger

lemma b64url_length: "length (b64url_quads data) = (length data + 2) div 3 * 4"
  by (induction data rule: b64url_quads.induct) (simp_all add: b64url_quad_def Let_def div3_step)

lemma diff_shift: "a' = a + 4 \<Longrightarrow> p' = p \<Longrightarrow> p \<le> a \<Longrightarrow> a' - p' = 4 + (a - (p :: nat))"
  by simp

lemma crypto_base64url_encode_Cons:
  "crypto_base64url_encode (x # y # z # data) = b64url_quad x y z @ crypto_base64url_encode data"
proof -
  have q: "length (b64url_quad x y z) = 4" by (simp add: b64url_quad_def Let_def)
  have "(length data + 3 + 2) div 3 * 4 = (length data + 2) div 3 * 4 + 4" by (simp add: div3_step)
  moreover have "(3 - (length data + 3) mod 3) mod 3 = (3 - length data mod 3) mod 3" by simp
  moreover have "(3 - length data mod 3) mod 3 \<le> (length data + 2) div 3 * 4"
  proof (cases "length data = 0")
    case False
    then have "3 div 3 \<le> (length data + 2) div 3" by (intro div_le_mono) (simp add: Suc_le_eq)
    moreover have "(3 - length data mod 3) mod 3 < 3" by simp
    ultimately show ?thesis by linarith
  qed simp
  ultimately have n: "(length data + 3 + 2) div 3 * 4 - (3 - (length data + 3) mod 3) mod 3
      = 4 + ((length data + 2) div 3 * 4 - (3 - length data mod 3) mod 3)" by (rule diff_shift)
  have l: "length (x # y # z # data) = length data + 3" by simp
  have t: "take (4 + n) (b64url_quad x y z @ w) = b64url_quad x y z @ take n w" for n w using q by simp
  show ?thesis unfolding crypto_base64url_encode_def Let_def l n b64url_quads.simps t ..
qed

lemma b64url_roundtrip_quads:
  "b64url_dec_quads (crypto_base64url_encode data
     @ replicate ((4 - length (crypto_base64url_encode data) mod 4) mod 4) (CHR ''='')) = Some data"
proof (induction data rule: b64url_quads.induct)
  case 1
  show ?case by (simp add: crypto_base64url_encode_def)
next
  case (2 x)
  have "crypto_base64url_encode [x] = map (\<lambda>k. b64url_chars ! nat (sext (triple x 0 0) k)) [18, 12]"
    by (simp add: crypto_base64url_encode_def Let_def b64url_quad_sext)
  then show ?case
    using sext_sum [OF triple_range, of x 0 0]
    by (simp add: numeral_2_eq_2 dec_quad_one sext_low_zero triple_bytes)
next
  case (3 x y)
  have "crypto_base64url_encode [x, y] = map (\<lambda>k. b64url_chars ! nat (sext (triple x y 0) k)) [18, 12, 6]"
    by (simp add: crypto_base64url_encode_def Let_def b64url_quad_sext)
  then show ?case
    using sext_sum [OF triple_range, of x y 0]
    by (simp add: dec_quad_two sext_low_zero triple_bytes)
next
  case (4 x y z data)
  have "length (b64url_quad x y z) = 4" by (simp add: b64url_quad_def Let_def)
  moreover have "b64url_dec_quads (b64url_quad x y z @ ps) = map_option ((@) [x, y, z]) (b64url_dec_quads ps)" for ps
    using sext_sum [OF triple_range, of x y z]
    by (simp add: b64url_quad_sext dec_quad_whole Let_def triple_bytes)
  ultimately show ?case using 4 by (simp add: crypto_base64url_encode_Cons)
qed

lemma b64url_encode_Nil_iff: "crypto_base64url_encode data = [] \<longleftrightarrow> data = []"
  by (induction data rule: b64url_quads.induct)
     (simp_all add: crypto_base64url_encode_Cons b64url_quad_def Let_def crypto_base64url_encode_def)

lemma b64url_roundtrip:
  "data \<noteq> [] \<Longrightarrow> crypto_base64url_decode (crypto_base64url_encode data) = Some data"
  by (simp add: crypto_base64url_decode_def Let_def b64url_encode_Nil_iff b64url_roundtrip_quads)

lemma b64url_no_dot: "CHR ''.'' \<notin> set (crypto_base64url_encode data)"
proof -
  have "CHR ''.'' \<noteq> b64url_chars ! nat (sext t k)" for t k
    using b64url_char(3) [OF sext_range, of t k] by (rule not_sym)
  then have "CHR ''.'' \<notin> set (b64url_quads data)"
    by (induction data rule: b64url_quads.induct) (simp_all add: b64url_quad_sext)
  then show ?thesis by (auto simp: crypto_base64url_encode_def Let_def dest: in_set_takeD)
qed

interpretation b64url: codec "\<lambda>data. data \<noteq> []" crypto_base64url_encode crypto_base64url_decode
  by unfold_locales (rule b64url_roundtrip)

section \<open>Strings and bytes\<close>

lemma str_bytes_append [simp]: "str_bytes (s @ t) = str_bytes s @ str_bytes t"
  by (simp add: str_bytes_def)

lemma length_str_bytes [simp]: "length (str_bytes s) = length s"
  by (simp add: str_bytes_def)

lemma str_bytes_Nil_iff [simp]: "str_bytes s = [] \<longleftrightarrow> s = []"
  by (simp add: str_bytes_def)

lemma of_char_less_256: "(of_char c :: int) < 256"
proof -
  have "(of_char c :: nat) \<in> {0..<256}" using range_nat_of_char by blast
  then have "int (of_char c) < 256" by simp
  then show ?thesis by (simp only: of_nat_of_char)
qed

lemma bytes_str_str_bytes [simp]: "bytes_str (str_bytes s) = s"
proof -
  have "char_of (uint (word_of_int (of_char c) :: u8)) = c" for c
    using of_char_int_nonneg [of c] of_char_less_256 [of c] by (simp add: uint_word_of_int)
  then show ?thesis by (simp add: str_bytes_def bytes_str_def comp_def)
qed

lemma c_str_no_nul: "CHR 0x00 \<notin> set s \<Longrightarrow> c_str s = s"
  by (auto simp: c_str_def takeWhile_eq_all_conv)

section \<open>Tokens\<close>

lemma split_dot_append: "CHR ''.'' \<notin> set s \<Longrightarrow> split_dot (s @ ''.'' @ t) = Some (s, t)"
proof -
  assume s: "CHR ''.'' \<notin> set s"
  have "takeWhile (\<lambda>c. c \<noteq> CHR ''.'') (s @ ''.'' @ t) = s"
    "dropWhile (\<lambda>c. c \<noteq> CHR ''.'') (s @ ''.'' @ t) = ''.'' @ t"
    using s by (subst takeWhile_append2 dropWhile_append2; auto)+
  then show ?thesis by (simp add: split_dot_def)
qed

lemma split_dot_SomeD: "split_dot s = Some (h, t) \<Longrightarrow> s = h @ ''.'' @ t \<and> CHR ''.'' \<notin> set h"
proof -
  assume a: "split_dot s = Some (h, t)"
  then have d: "CHR ''.'' \<in> set s" "h = takeWhile (\<lambda>c. c \<noteq> CHR ''.'') s"
    "t = drop 1 (dropWhile (\<lambda>c. c \<noteq> CHR ''.'') s)"
    by (auto simp: split_dot_def split: if_splits)
  have ne: "dropWhile (\<lambda>c. c \<noteq> CHR ''.'') s \<noteq> []" using d(1) by auto
  then have "List.hd (dropWhile (\<lambda>c. c \<noteq> CHR ''.'') s) = CHR ''.''" using hd_dropWhile [OF ne] by simp
  then have "dropWhile (\<lambda>c. c \<noteq> CHR ''.'') s = ''.'' @ t"
    using ne d(3) by (cases "dropWhile (\<lambda>c. c \<noteq> CHR ''.'') s") auto
  then show ?thesis
    using d(2) by (metis (mono_tags, lifting) set_takeWhileD takeWhile_dropWhile_id)
qed

lemma ct_equal_iff:
  assumes "length e = 32" "length p = 32"
  shows "ct_equal e p \<longleftrightarrow> e = p"
proof -
  have f: "fold (\<lambda>i ok. ok \<and> e ! i = p ! i) [0..<n] b \<longleftrightarrow> b \<and> (\<forall>i < n. e ! i = p ! i)" for n b
    by (induction n) (auto simp: less_Suc_eq)
  show ?thesis using assms by (auto simp: ct_equal_def CRYPTO_SHA256_LEN_def f list_eq_iff_nth_eq)
qed

text \<open>C8. A token is accepted exactly when it carries the signature of its own text: the decoder returns
  a payload if and only if the token has the form header, dot, body, dot, signature, the signature
  decodes to the MAC of everything before the second dot under the secret, and the body decodes; the
  payload is the decoded body (as a C string). The header plays no part.\<close>

theorem jwt_accepts_exactly_signed:
  assumes "\<And>k m. length (hmac k m) = 32"
  shows "crypto_jwt_decode hmac secret token = Inr p \<longleftrightarrow>
    (\<exists>header body sig payload.
       token = header @ ''.'' @ body @ ''.'' @ sig \<and> CHR ''.'' \<notin> set header \<and> CHR ''.'' \<notin> set body
       \<and> crypto_base64url_decode sig = Some (hmac (str_bytes secret) (str_bytes (header @ ''.'' @ body)))
       \<and> crypto_base64url_decode body = Some payload \<and> p = c_str (bytes_str payload))"
    (is "?l \<longleftrightarrow> ?r")
proof
  assume ?l
  then obtain h rest b s where d: "split_dot token = Some (h, rest)" "split_dot rest = Some (b, s)"
    by (auto simp: crypto_jwt_decode_def split: option.splits)
  have t: "token = h @ ''.'' @ b @ ''.'' @ s" "CHR ''.'' \<notin> set h" "CHR ''.'' \<notin> set b"
    using split_dot_SomeD [OF d(1)] split_dot_SomeD [OF d(2)] by auto
  have input: "take (Suc (length h + length b)) token = h @ ''.'' @ b" by (simp add: t(1))
  obtain provided payload where p: "crypto_base64url_decode s = Some provided" "length provided = 32"
    "ct_equal (hmac (str_bytes secret) (str_bytes (h @ ''.'' @ b))) provided"
    "crypto_base64url_decode b = Some payload" "p = c_str (bytes_str payload)"
    using \<open>?l\<close> d unfolding crypto_jwt_decode_def Let_def CRYPTO_SHA256_LEN_def
    by (auto simp: input split: option.splits if_splits)
  then have "provided = hmac (str_bytes secret) (str_bytes (h @ ''.'' @ b))"
    using ct_equal_iff assms by metis
  then show ?r using t p by blast
next
  assume ?r
  then obtain h b s payload where t: "token = h @ ''.'' @ b @ ''.'' @ s" "CHR ''.'' \<notin> set h" "CHR ''.'' \<notin> set b"
    and s: "crypto_base64url_decode s = Some (hmac (str_bytes secret) (str_bytes (h @ ''.'' @ b)))"
    and b: "crypto_base64url_decode b = Some payload" and p: "p = c_str (bytes_str payload)" by blast
  have "split_dot token = Some (h, b @ ''.'' @ s)" unfolding t(1) by (rule split_dot_append [OF t(2)])
  moreover have "split_dot (b @ ''.'' @ s) = Some (b, s)" by (rule split_dot_append [OF t(3)])
  moreover have "take (length h + 1 + length b) token = h @ ''.'' @ b" by (simp add: t(1))
  moreover have "ct_equal m m" if "length m = 32" for m using ct_equal_iff that by blast
  ultimately show ?l
    using s b p assms unfolding crypto_jwt_decode_def Let_def CRYPTO_SHA256_LEN_def by simp
qed

lemma jwt_accepts_exactly_signed_witness:
  "crypto_jwt_decode (\<lambda>k m. replicate 32 7) ''k'' (''x.e30.'' @ crypto_base64url_encode (replicate 32 7)) = Inr ''{}''"
proof -
  have e: "crypto_base64url_decode ''e30'' = Some (str_bytes ''{}'')" by code_simp
  have s: "crypto_base64url_decode (crypto_base64url_encode (replicate 32 7)) = Some (replicate 32 7)"
    by (rule b64url_roundtrip) simp
  have c: "''{}'' = c_str (bytes_str (str_bytes ''{}''))" by (simp add: c_str_no_nul)
  have "\<exists>header body sig payload.
       ''x.e30.'' @ crypto_base64url_encode (replicate 32 7) = header @ ''.'' @ body @ ''.'' @ sig
       \<and> CHR ''.'' \<notin> set header \<and> CHR ''.'' \<notin> set body
       \<and> crypto_base64url_decode sig = Some ((\<lambda>k m. replicate 32 7) (str_bytes ''k'') (str_bytes (header @ ''.'' @ body)))
       \<and> crypto_base64url_decode body = Some payload \<and> ''{}'' = c_str (bytes_str payload)"
    by (rule exI [of _ "''x''"], rule exI [of _ "''e30''"], rule exI [of _ "crypto_base64url_encode (replicate 32 7)"],
        rule exI [of _ "str_bytes ''{}''"]) (simp only: s e c [symmetric], simp)
  then show ?thesis
    by (subst jwt_accepts_exactly_signed) simp_all
qed

text \<open>C23. Tokens round trip: what the encoder makes of a payload, the decoder with the same secret
  returns, for every payload that is not empty, whatever 32-byte MAC is used; with another secret it
  returns the payload only if the MACs of the signed text agree, and reports a mismatch otherwise.\<close>

theorem jwt_roundtrip:
  assumes "\<And>k m. length (hmac k m) = 32" and "payload \<noteq> []" "CHR 0x00 \<notin> set payload"
  defines "input \<equiv> crypto_base64url_encode (take 26 (str_bytes JWT_HEADER)) @ ''.'' @ crypto_base64url_encode (str_bytes payload)"
  shows "crypto_jwt_decode hmac secret' (crypto_jwt_encode hmac secret payload) =
    (if hmac (str_bytes secret') (str_bytes input) = hmac (str_bytes secret) (str_bytes input)
     then Inr payload else Inl Signature_mismatch)"
proof -
  let ?h = "crypto_base64url_encode (take 26 (str_bytes JWT_HEADER))" and ?b = "crypto_base64url_encode (str_bytes payload)"
  let ?mac = "hmac (str_bytes secret) (str_bytes input)" and ?mac' = "hmac (str_bytes secret') (str_bytes input)"
  have tok: "crypto_jwt_encode hmac secret payload = ?h @ ''.'' @ ?b @ ''.'' @ crypto_base64url_encode ?mac"
    by (simp add: crypto_jwt_encode_def Let_def input_def)
  have 1: "split_dot (crypto_jwt_encode hmac secret payload) = Some (?h, ?b @ ''.'' @ crypto_base64url_encode ?mac)"
    unfolding tok by (rule split_dot_append [OF b64url_no_dot])
  have 2: "split_dot (?b @ ''.'' @ crypto_base64url_encode ?mac) = Some (?b, crypto_base64url_encode ?mac)"
    by (rule split_dot_append [OF b64url_no_dot])
  have 3: "take (length ?h + 1 + length ?b) (crypto_jwt_encode hmac secret payload) = input"
    by (simp add: tok input_def)
  have "?mac \<noteq> []" using assms(1) [of "str_bytes secret" "str_bytes input"] by auto
  then have 4: "crypto_base64url_decode (crypto_base64url_encode ?mac) = Some ?mac" by (rule b64url_roundtrip)
  have 5: "crypto_base64url_decode ?b = Some (str_bytes payload)"
    using assms(2) by (intro b64url_roundtrip) simp
  have 6: "ct_equal ?mac' ?mac \<longleftrightarrow> ?mac' = ?mac" using ct_equal_iff assms(1) by blast
  show ?thesis
    using assms(1,3)
    unfolding crypto_jwt_decode_def 1 Let_def option.case prod.case 2 3 4 5 6 CRYPTO_SHA256_LEN_def
    by (simp add: c_str_no_nul)
qed

lemma jwt_roundtrip_witness:
  "crypto_jwt_decode (\<lambda>k m. replicate 32 7) ''a'' (crypto_jwt_encode (\<lambda>k m. replicate 32 7) ''k'' ''{}'') = Inr ''{}''
   \<and> crypto_jwt_decode (\<lambda>k m. replicate 32 (word_of_nat (length k))) ''kk''
       (crypto_jwt_encode (\<lambda>k m. replicate 32 (word_of_nat (length k))) ''k'' ''{}'') = Inl Signature_mismatch"
  using jwt_roundtrip [of "\<lambda>k m. replicate 32 7" "''{}''" "''a''" "''k''"]
    jwt_roundtrip [of "\<lambda>k m. replicate 32 (word_of_nat (length k))" "''{}''" "''kk''" "''k''"]
  by simp

text \<open>The header that is signed lacks its closing brace; and the encoder makes of an empty payload a token that no decoder call accepts.\<close>

lemma jwt_header_cut:
  "length JWT_HEADER = 27" "bytes_str (take 26 (str_bytes JWT_HEADER)) = ''{\"alg\":\"HS256\",\"typ\":\"JWT\"''"
  "crypto_base64url_encode (take 26 (str_bytes JWT_HEADER)) = ''eyJhbGciOiJIUzI1NiIsInR5cCI6IkpXVCI''"
  by code_simp+

lemma jwt_header_parses:
  "(case json_parse env JWT_HEADER of JParsed v \<Rightarrow> True | _ \<Rightarrow> False)"
  "(case json_parse env (bytes_str (take 26 (str_bytes JWT_HEADER))) of JFailed e \<Rightarrow> True | _ \<Rightarrow> False)"
  by code_simp+

text \<open>Every token that is issued has a broken header: its first part decodes to a text that the
  JSON parser of the program itself rejects, for it lacks the closing brace (the whole header would
  be accepted).\<close>

theorem jwt_header_not_json:
  "\<exists>header_b64 rest header.
     split_dot (crypto_jwt_encode hmac secret payload) = Some (header_b64, rest)
     \<and> crypto_base64url_decode header_b64 = Some header
     \<and> (case json_parse env (bytes_str header) of JFailed e \<Rightarrow> True | _ \<Rightarrow> False)
     \<and> bytes_str header @ ''}'' = JWT_HEADER"
proof (intro exI conjI)
  show "split_dot (crypto_jwt_encode hmac secret payload) = Some
      (crypto_base64url_encode (take 26 (str_bytes JWT_HEADER)),
       drop (length (crypto_base64url_encode (take 26 (str_bytes JWT_HEADER))) + 1) (crypto_jwt_encode hmac secret payload))"
    unfolding crypto_jwt_encode_def Let_def append_assoc by (subst split_dot_append [OF b64url_no_dot]) simp
  show "crypto_base64url_decode (crypto_base64url_encode (take 26 (str_bytes JWT_HEADER)))
      = Some (take 26 (str_bytes JWT_HEADER))"
    by (rule b64url_roundtrip) (simp add: JWT_HEADER_def)
  show "case json_parse env (bytes_str (take 26 (str_bytes JWT_HEADER))) of JFailed e \<Rightarrow> True | _ \<Rightarrow> False"
    by (rule jwt_header_parses(2))
  show "bytes_str (take 26 (str_bytes JWT_HEADER)) @ ''}'' = JWT_HEADER" by code_simp
qed

lemma base64url_empty_is_error: "crypto_base64url_decode (crypto_base64url_encode []) = None"
  by code_simp

section \<open>Hexadecimal and the vault\<close>

lemma hex_digits: "list_all (\<lambda>c. \<not> c_isspace c \<and> c_tolower c \<noteq> CHR ''x'') ''0123456789abcdef''"
  "map c_digit_val ''0123456789abcdef'' = map int [0..<16]"
  by (simp_all add: c_isspace_def c_tolower_def c_digit_val_def upt_rec)

lemma hex_digit_facts:
  assumes "0 \<le> i" "i < 16"
  shows "\<not> c_isspace (hex_digit i)" "c_tolower (hex_digit i) \<noteq> CHR ''x''" "c_digit_val (hex_digit i) = i"
proof -
  have n: "nat i < length ''0123456789abcdef''" "nat i < 16" using assms by simp_all
  show "\<not> c_isspace (hex_digit i)" "c_tolower (hex_digit i) \<noteq> CHR ''x''"
    using hex_digits(1) nth_mem [OF n(1)] unfolding list_all_iff hex_digit_def by blast+
  have "map c_digit_val ''0123456789abcdef'' ! nat i = map int [0..<16] ! nat i" by (simp only: hex_digits)
  then show "c_digit_val (hex_digit i) = i"
    using assms unfolding hex_digit_def nth_map [OF n(1)] by (simp add: n(2))
qed

lemma hex_encode_Cons:
  "crypto_hex_encode (b # bs) = hex_digit (uint b div 16) # hex_digit (uint b mod 16) # crypto_hex_encode bs"
  by (simp add: crypto_hex_encode_def)

lemma length_hex_encode: "length (crypto_hex_encode bs) = 2 * length bs"
  by (induction bs) (simp_all add: hex_encode_Cons crypto_hex_encode_def [of "[]"])

lemma drop_hex_encode: "drop (2 * i) (crypto_hex_encode bs) = crypto_hex_encode (drop i bs)"
proof (induction i arbitrary: bs)
  case (Suc i)
  then show ?case by (cases bs) (simp_all add: hex_encode_Cons crypto_hex_encode_def [of "[]"])
qed simp

lemma scan_hex_encode: "scan_2x (crypto_hex_encode (b # bs)) = Some (uint b)"
proof -
  have r: "0 \<le> uint b div 16" "uint b div 16 < 16" "0 \<le> uint b mod 16" "uint b mod 16 < 16"
    using u8_range [of b] by (simp_all add: pos_imp_zdiv_nonneg_iff)
  note f = hex_digit_facts [OF r(1,2)] hex_digit_facts [OF r(3,4)]
  have "uint b div 16 * 16 + uint b mod 16 = uint b" by simp
  then show ?thesis using f r by (simp add: hex_encode_Cons scan_2x_def)
qed

lemma hex_roundtrip: "crypto_hex_decode junk (crypto_hex_encode bs) = Some bs"
proof -
  have "(case scan_2x (drop (2 * i) (crypto_hex_encode bs)) of None \<Rightarrow> junk i | Some byte \<Rightarrow> word_of_int byte) = bs ! i"
    if "i < length bs" for i
    using that scan_hex_encode [of "bs ! i" "drop (Suc i) bs"]
    by (simp add: drop_hex_encode Cons_nth_drop_Suc)
  then have "map (\<lambda>i. case scan_2x (drop (2 * i) (crypto_hex_encode bs)) of None \<Rightarrow> junk i | Some byte \<Rightarrow> word_of_int byte)
      [0..<length bs] = map ((!) bs) [0..<length bs]" by (intro map_cong refl) simp
  then show ?thesis by (simp add: crypto_hex_decode_def length_hex_encode map_nth)
qed

lemma length_keystream: "(\<And>x. length (sha x) = 32) \<Longrightarrow> length (keystream sha key n) = n * 32"
  by (induction n) (simp_all add: keystream_def)

lemma xor_stream_length [simp]: "length (xor_stream text ks) = length text"
  by (simp add: xor_stream_def)

lemma xor_stream_twice: "xor_stream (xor_stream text ks) ks = text"
  by (rule nth_equalityI) (simp_all add: xor_stream_def xor.assoc)

text \<open>The vault is two codecs in a row: the exclusive-or with the key stream, then hexadecimal.\<close>

definition vault_mask :: "(bytes \<Rightarrow> bytes) \<Rightarrow> string \<Rightarrow> bytes \<Rightarrow> bytes" where
  "vault_mask sha key text = xor_stream text (keystream sha key ((length text + 31) div 32))"

lemma hermes_encrypt_chain: "hermes_encrypt sha key = crypto_hex_encode \<circ> vault_mask sha key"
  by (simp add: fun_eq_iff hermes_encrypt_def vault_mask_def Let_def)

lemma hermes_decrypt_chain:
  "hermes_decrypt sha junk key = (\<lambda>y. Option.bind (crypto_hex_decode junk y) (\<lambda>bin. Some (vault_mask sha key bin)))"
  by (simp add: fun_eq_iff hermes_decrypt_def vault_mask_def Let_def split: option.split)

interpretation hex: codec "\<lambda>_. True" crypto_hex_encode "crypto_hex_decode junk" for junk
  by unfold_locales (rule hex_roundtrip)

interpretation vault: codec_chain "\<lambda>_. True" "vault_mask sha key" "\<lambda>bin. Some (vault_mask sha key bin)"
    "\<lambda>_. True" crypto_hex_encode "crypto_hex_decode junk" for sha key junk
  by unfold_locales (simp_all add: vault_mask_def xor_stream_twice)

lemmas vault_dec_enc = vault.chain.dec_enc [folded hermes_encrypt_chain]
lemmas vault_enc_inj = vault.chain.enc_inj [folded hermes_encrypt_chain]

text \<open>The credential vault gives back what was put in, for every key, every text and every hash,
  and different texts have different ciphertexts under one key; every block of the key stream the
  exclusive-or reads exists, so no byte is used past the end of the stream.\<close>

theorem vault_roundtrip:
  assumes "\<And>x. length (sha256 x) = 32"
  shows "hermes_decrypt sha256 junk key (hermes_encrypt sha256 key text) = Some text
    \<and> (hermes_encrypt sha256 key text = hermes_encrypt sha256 key text' \<longleftrightarrow> text = text')
    \<and> length text \<le> length (keystream sha256 key ((length text + 31) div 32))
    \<and> length (hermes_encrypt sha256 key text) = 2 * length text"
proof (intro conjI)
  show "hermes_decrypt sha256 junk key (hermes_encrypt sha256 key text) = Some text"
    using vault_dec_enc by (simp add: hermes_decrypt_chain)
  show "hermes_encrypt sha256 key text = hermes_encrypt sha256 key text' \<longleftrightarrow> text = text'"
    using vault_enc_inj by simp
  have "length text \<le> (length text + 31) div 32 * 32" by presburger
  then show "length text \<le> length (keystream sha256 key ((length text + 31) div 32))"
    by (simp add: length_keystream assms)
  show "length (hermes_encrypt sha256 key text) = 2 * length text"
    by (simp add: hermes_encrypt_def Let_def length_hex_encode)
qed

lemma vault_roundtrip_witness:
  "hermes_decrypt (\<lambda>x. replicate 32 9) (\<lambda>_. 0) ''key'' (hermes_encrypt (\<lambda>x. replicate 32 9) ''key'' [1, 2, 3]) = Some [1, 2, 3]"
  using vault_roundtrip [of "\<lambda>x. replicate 32 9" "\<lambda>_. 0" "''key''" "[1, 2, 3]"] by simp

text \<open>The key stream depends on the first 32 bytes of the key only and on nothing of the text, so the
  exclusive-or of two ciphertexts is that of the texts.\<close>

lemma vault_key_prefix:
  assumes "take 32 key = take 32 key'"
  shows "block_input key b = block_input key' b"
proof -
  have m: "(if length k < 32 then length k else 32) = min (length k) 32" for k :: string by simp
  have len: "min (length key) 32 = min (length key') 32"
    using arg_cong [OF assms, of length] by simp
  have "take (min (length k) 32) k = take 32 k" for k :: string by (simp add: min_def)
  then have t: "take (min (length key) 32) key = take (min (length key') 32) key'" using assms by simp
  show ?thesis unfolding block_input_def m Let_def t unfolding len ..
qed

lemma keystream_reused:
  assumes "length t1 = length t2" "i < length t1"
  shows "xor_stream t1 ks ! i XOR xor_stream t2 ks ! i = t1 ! i XOR t2 ! i"
  using assms by (intro bit_word_eqI) (auto simp: xor_stream_def bit_simps)

section \<open>AES-256-GCM\<close>

text \<open>C36. A sealed text opens again with the same key, whatever the cipher is as long as opening undoes
  sealing and the lengths are those of AES-GCM, unless the text is empty: that one is sealed, but is
  refused as too short.\<close>

theorem aes_roundtrip:
  assumes open_seal: "\<And>k v t c g. seal k v t = Some (c, g) \<Longrightarrow>
      unseal k v c g = Some t \<and> length c = length t \<and> length g = 16"
    and "length iv = 12" and "crypto_aes_encrypt sha256 seal (Some iv) plaintext key = Some sealed"
  shows "crypto_aes_decrypt sha256 unseal sealed key = (if plaintext = [] then None else Some plaintext)
    \<and> length sealed = length plaintext + 28"
proof -
  obtain c g where s: "seal (aes_key sha256 key) iv plaintext = Some (c, g)" "sealed = iv @ c @ g" "key \<noteq> []"
    using assms(3) by (auto simp: crypto_aes_encrypt_def Suc_le_eq split: if_splits option.splits)
  note o = open_seal [OF s(1)]
  have len: "length sealed = length plaintext + 28" using o s(2) assms(2) by simp
  have parts: "take 12 sealed = iv" "take (length plaintext) (drop 12 sealed) = c"
    "drop (12 + length plaintext) sealed = g"
    using o s(2) assms(2) by simp_all
  show ?thesis
  proof (cases "plaintext = []")
    case True
    then show ?thesis
      using len by (simp add: crypto_aes_decrypt_def AES_GCM_IV_LEN_def AES_GCM_TAG_LEN_def)
  next
    case False
    then have "0 < length plaintext" by simp
    then show ?thesis
      using len parts o s(3) False
      by (simp add: crypto_aes_decrypt_def AES_GCM_IV_LEN_def AES_GCM_TAG_LEN_def Let_def Suc_le_eq)
  qed
qed

lemma aes_roundtrip_witness:
  "crypto_aes_decrypt id (\<lambda>k v c g. if g = replicate 16 1 then Some c else None)
     (replicate 12 5 @ [1, 2, 3] @ replicate 16 1) [9] = Some [1, 2, 3]"
proof -
  have e: "crypto_aes_encrypt id (\<lambda>k v t. Some (t, replicate 16 1)) (Some (replicate 12 5)) [1, 2, 3] [9]
      = Some (replicate 12 5 @ [1, 2, 3] @ replicate 16 1)"
    by (simp add: crypto_aes_encrypt_def)
  show ?thesis
    using aes_roundtrip [of "\<lambda>k v t. Some (t, replicate 16 1)" "\<lambda>k v c g. if g = replicate 16 1 then Some c else None"
        "replicate 12 5" id "[1, 2, 3]" "[9]", OF _ _ e] by simp
qed

section \<open>PKCE\<close>

text \<open>Verifiers have 86 characters, within the 43 to 128 of RFC 7636; challenges have 43.\<close>

lemma length_encode: "length (crypto_base64url_encode data)
    = (length data + 2) div 3 * 4 - (3 - length data mod 3) mod 3"
  by (simp add: crypto_base64url_encode_def Let_def b64url_length)

lemma pkce_lengths:
  "length raw = 64 \<Longrightarrow> \<exists>v. crypto_pkce_verifier (Some raw) = Some v \<and> length v = 86"
  "length (sha256 (str_bytes v)) = 32 \<Longrightarrow> length (crypto_pkce_challenge sha256 v) = 43"
  by (simp_all add: crypto_pkce_verifier_def crypto_pkce_challenge_def length_encode Let_def)

end
