(* ===== verification/Ansi.thy ===== *)
theory Ansi
  imports Slermes_Prelude
begin

text \<open>
  \<^verbatim>\<open>lib/libansi/ansi_strip.c\<close> and the constructing half of \<^verbatim>\<open>ansi.c\<close>: the state machine that strips
  ECMA-48 sequences, the filter of Unicode tag characters, the sanitizer of display text, and the
  helpers that make colour sequences. A text is a C string, the rest of it a pointer into it; NULL
  is None. Allocations succeed. The terminal probes (\<open>ansi_supported\<close>, width and height) are input
  and output.
\<close>

text \<open>The value of a byte, \<open>(unsigned char)c\<close>.\<close>

definition byte :: "char \<Rightarrow> int" where
  "byte c = of_char c"

section \<open>Escape sequences\<close>

datatype strip_state =
    ST_NORMAL | ST_ESC | ST_CSI_PARAMS | ST_CSI_INTERMED | ST_OSC | ST_STRING_ESC | ST_NF_PARAM
  | ST_C1_CSI | ST_C1_OSC

definition is_csi_param :: "int \<Rightarrow> bool" where
  "is_csi_param b \<longleftrightarrow> b \<ge> 0x30 \<and> b \<le> 0x3F"

definition is_intermediate :: "int \<Rightarrow> bool" where
  "is_intermediate b \<longleftrightarrow> b \<ge> 0x20 \<and> b \<le> 0x2F"

definition is_final_byte :: "int \<Rightarrow> bool" where
  "is_final_byte b \<longleftrightarrow> b \<ge> 0x40 \<and> b \<le> 0x7E"

definition is_escape_byte :: "char \<Rightarrow> bool" where
  "is_escape_byte ch = (let c = byte ch in c = 0x1B \<or> (c \<ge> 0x80 \<and> c \<le> 0x9F))"

definition ansi_has_escape :: "string \<Rightarrow> bool" where
  "ansi_has_escape text = list_ex is_escape_byte text"

text \<open>One turn of the switch on a byte and the text after it: the next state, whether the byte is
  copied, and how many bytes are consumed.\<close>

definition strip_step :: "strip_state \<Rightarrow> char \<Rightarrow> string \<Rightarrow> strip_state \<times> bool \<times> nat" where
  "strip_step state ch rest =
     (let c = byte ch
      in case state of
           ST_NORMAL \<Rightarrow>
             if c = 0x1B then (ST_ESC, False, 1)
             else if c = 0x9B then (ST_C1_CSI, False, 1)
             else if c = 0x9D then (ST_C1_OSC, False, 1)
             else if c \<ge> 0x80 \<and> c \<le> 0x9F then (ST_NORMAL, False, 1)
             else (ST_NORMAL, True, 1)
         | ST_ESC \<Rightarrow>
             if ch = CHR ''['' then (ST_CSI_PARAMS, False, 1)
             else if ch = CHR '']'' then (ST_OSC, False, 1)
             else if ch = CHR ''P'' \<or> ch = CHR ''X'' \<or> ch = CHR ''^'' \<or> ch = CHR ''_''
             then (ST_STRING_ESC, False, 1)
             else if c \<ge> 0x20 \<and> c \<le> 0x2F then (ST_NF_PARAM, False, 1)
             else (ST_NORMAL, False, 1)
         | ST_CSI_PARAMS \<Rightarrow>
             if is_csi_param c then (ST_CSI_PARAMS, False, 1)
             else if is_intermediate c then (ST_CSI_INTERMED, False, 1)
             else if is_final_byte c then (ST_NORMAL, False, 1)
             else (ST_NORMAL, False, 0)
         | ST_CSI_INTERMED \<Rightarrow>
             if is_intermediate c then (ST_CSI_INTERMED, False, 1)
             else if is_final_byte c then (ST_NORMAL, False, 1)
             else (ST_NORMAL, False, 0)
         | ST_OSC \<Rightarrow>
             if c = 0x07 then (ST_NORMAL, False, 1)
             else if c = 0x1B
             then if rest \<noteq> [] \<and> rest ! 0 = CHR 0x5C then (ST_NORMAL, False, 2) else (ST_OSC, False, 1)
             else (ST_OSC, False, 1)
         | ST_STRING_ESC \<Rightarrow>
             if c = 0x1B
             then if rest \<noteq> [] \<and> rest ! 0 = CHR 0x5C then (ST_NORMAL, False, 2) else (ST_STRING_ESC, False, 1)
             else (ST_STRING_ESC, False, 1)
         | ST_NF_PARAM \<Rightarrow>
             if c \<ge> 0x20 \<and> c \<le> 0x2F then (ST_NF_PARAM, False, 1)
             else if c \<ge> 0x30 \<and> c \<le> 0x7E then (ST_NORMAL, False, 1)
             else (ST_NORMAL, False, 0)
         | ST_C1_CSI \<Rightarrow>
             if is_csi_param c then (ST_C1_CSI, False, 1)
             else if is_intermediate c then (ST_C1_CSI, False, 1)
             else if is_final_byte c then (ST_NORMAL, False, 1)
             else (ST_NORMAL, False, 0)
         | ST_C1_OSC \<Rightarrow>
             if c = 0x07 \<or> c = 0x9C then (ST_NORMAL, False, 1) else (ST_C1_OSC, False, 1))"

text \<open>The loop, on the rest of the text and the room left in the buffer. A turn that consumes nothing
  goes back to the normal state, where every turn consumes.\<close>

lemma strip_step_progress:
  "strip_step st c rest = (st', e, n) \<Longrightarrow> 0 < n \<or> st \<noteq> ST_NORMAL \<and> st' = ST_NORMAL"
  by (cases st) (auto simp: strip_step_def Let_def split: if_splits)

function strip_loop :: "strip_state \<Rightarrow> nat \<Rightarrow> string \<Rightarrow> string" where
  "strip_loop st room [] = []"
| "strip_loop st room (c # rest) =
     (if room = 0 then []
      else case strip_step st c rest of (st', copied, n) \<Rightarrow>
             if copied then c # strip_loop st' (room - 1) (drop n (c # rest))
             else strip_loop st' room (drop n (c # rest)))"
  by pat_completeness auto
termination
  by (relation "measures [\<lambda>(st, room, s). length s, \<lambda>(st, room, s). if st = ST_NORMAL then 0 else 1]")
     (auto dest!: strip_step_progress [OF sym])

definition ansi_strip_buf :: "string \<Rightarrow> nat \<Rightarrow> string option" where
  "ansi_strip_buf text buf_size =
     (if buf_size = 0 then None
      else if \<not> ansi_has_escape text
      then if length text \<ge> buf_size then None else Some text
      else Some (strip_loop ST_NORMAL (buf_size - 1) text))"

definition strip_ansi :: "string option \<Rightarrow> string option" where
  "strip_ansi text = (case text of None \<Rightarrow> None | Some t \<Rightarrow> ansi_strip_buf t (length t + 1))"

section \<open>Unicode tags\<close>

text \<open>The code point and its length; the value -1 of an invalid lead byte is \<open>0xFFFFFFFF\<close>.\<close>

definition CP_INVALID :: int where "CP_INVALID = 0xFFFFFFFF"

definition utf8_decode :: "string \<Rightarrow> int \<times> nat" where
  "utf8_decode s =
     (let b0 = byte (s ! 0); b = (\<lambda>k. byte (s ! k) AND 0x3F); avail = length s
      in if b0 < 0x80 then (b0, 1)
         else if b0 AND 0xE0 = 0xC0
         then if avail < 2 then (CP_INVALID, 1) else (push_bit 6 (b0 AND 0x1F) OR b 1, 2)
         else if b0 AND 0xF0 = 0xE0
         then if avail < 3 then (CP_INVALID, 1)
              else (push_bit 12 (b0 AND 0x0F) OR push_bit 6 (b 1) OR b 2, 3)
         else if b0 AND 0xF8 = 0xF0
         then if avail < 4 then (CP_INVALID, 1)
              else (push_bit 18 (b0 AND 0x07) OR push_bit 12 (b 1) OR push_bit 6 (b 2) OR b 3, 4)
         else (CP_INVALID, 1))"

lemma utf8_decode_len: "s \<noteq> [] \<Longrightarrow> 0 < snd (utf8_decode s) \<and> snd (utf8_decode s) \<le> length s"
  by (cases s) (auto simp: utf8_decode_def Let_def Suc_le_eq)

lemma utf8_decode_lenD:
  "(cp, n) = utf8_decode s \<Longrightarrow> s \<noteq> [] \<Longrightarrow> 0 < n \<and> n \<le> length s \<and> 0 < length s"
  using utf8_decode_len [of s] by (metis length_greater_0_conv snd_conv)

fun has_unicode_tag :: "string \<Rightarrow> bool" where
  "has_unicode_tag (a # b # s) \<longleftrightarrow> byte a = 0xF3 \<and> byte b = 0xA0 \<or> has_unicode_tag (b # s)"
| "has_unicode_tag _ \<longleftrightarrow> False"

text \<open>The first scan after a black flag, from \<open>probe\<close> on: whether a cancel tag ends a run of tags that
  is not empty. The second scan finds the end of the cancel tag.\<close>

function tag_run_ends :: "bool \<Rightarrow> string \<Rightarrow> bool" where
  "tag_run_ends moved s =
     (if s = [] then False
      else case utf8_decode s of (pcp, pb) \<Rightarrow>
             if pcp \<ge> 0xE0020 \<and> pcp \<le> 0xE007E then tag_run_ends True (drop pb s)
             else if pcp = 0xE007F then moved
             else False)"
  by pat_completeness auto
termination
proof (relation "measure (\<lambda>(m, s). length s)", goal_cases)
  case (2 moved s pcp pb)
  then show ?case using utf8_decode_len [of s] by (cases "utf8_decode s") auto
qed simp

declare tag_run_ends.simps [simp del]

function cancel_end :: "string \<Rightarrow> nat" where
  "cancel_end s =
     (if s = [] then 0
      else case utf8_decode s of (pcp, pb) \<Rightarrow>
             if pcp = 0xE007F then pb else pb + cancel_end (drop pb s))"
  by pat_completeness auto
termination
proof (relation "measure length", goal_cases)
  case (2 s pcp pb)
  then show ?case using utf8_decode_len [of s] by (cases "utf8_decode s") auto
qed simp

declare cancel_end.simps [simp del]

function tags_loop :: "nat \<Rightarrow> string \<Rightarrow> string" where
  "tags_loop room s =
     (if s = [] \<or> room = 0 then []
      else case utf8_decode s of (cp, blen) \<Rightarrow>
             if cp = 0x1F3F4 \<and> tag_run_ends False (drop blen s)
             then let seqlen = blen + cancel_end (drop blen s)
                  in if seqlen \<le> room then take seqlen s @ tags_loop (room - seqlen) (drop seqlen s)
                     else tags_loop room (drop seqlen s)
             else if cp \<ge> 0xE0000 \<and> cp \<le> 0xE007F then tags_loop room (drop blen s)
             else if blen \<le> room then take blen s @ tags_loop (room - blen) (drop blen s)
             else tags_loop room (drop blen s))"
  by pat_completeness auto
termination
  by (relation "measure (\<lambda>(room, s). length s)") (auto dest!: utf8_decode_lenD)

declare tags_loop.simps [simp del]

definition strip_unicode_tags_buf :: "string \<Rightarrow> nat \<Rightarrow> string option" where
  "strip_unicode_tags_buf text buf_size =
     (if buf_size = 0 then None
      else if \<not> has_unicode_tag text
      then if length text \<ge> buf_size then None else Some text
      else Some (tags_loop (buf_size - 1) text))"

definition strip_unicode_tags :: "string option \<Rightarrow> string option" where
  "strip_unicode_tags text =
     (case text of None \<Rightarrow> None | Some t \<Rightarrow> strip_unicode_tags_buf t (length t + 1))"

section \<open>Display text\<close>

definition has_display_control :: "string \<Rightarrow> bool" where
  "has_display_control text =
     list_ex (\<lambda>ch. let c = byte ch in c \<le> 0x08 \<or> (c \<ge> 0x0b \<and> c \<le> 0x1f) \<or> (c \<ge> 0x7f \<and> c \<le> 0x9f)) text"

fun normalize_cr :: "string \<Rightarrow> string" where
  "normalize_cr [] = []"
| "normalize_cr (c # s) =
     (if c = CHR 0x0D
      then CHR 0x0A # (case s of [] \<Rightarrow> [] | d # s' \<Rightarrow> if d = CHR 0x0A then normalize_cr s' else normalize_cr s)
      else c # normalize_cr s)"

definition is_removed_control :: "char \<Rightarrow> bool" where
  "is_removed_control ch =
     (let c = byte ch
      in c \<le> 0x08 \<or> c = 0x0b \<or> c = 0x0c \<or> (c \<ge> 0x0e \<and> c \<le> 0x1f) \<or> c = 0x7f)"

definition sanitize_display_text :: "string option \<Rightarrow> string option" where
  "sanitize_display_text text =
     (case text of None \<Rightarrow> None
      | Some t \<Rightarrow>
          if \<not> has_display_control t then Some t
          else case strip_ansi (Some t) of None \<Rightarrow> None
               | Some stripped \<Rightarrow> Some (filter (\<lambda>c. \<not> is_removed_control c) (normalize_cr stripped)))"

section \<open>Making sequences\<close>

definition ANSI_RESET :: string where
  "ANSI_RESET = [CHR 0x1B] @ ''[0m''"

definition ansi_wrap :: "string option \<Rightarrow> string option \<Rightarrow> string option \<Rightarrow> string option" where
  "ansi_wrap text fg style =
     (case text of None \<Rightarrow> None
      | Some t \<Rightarrow> Some ((case fg of None \<Rightarrow> [] | Some f \<Rightarrow> f) @ (case style of None \<Rightarrow> [] | Some s \<Rightarrow> s)
                       @ t @ ANSI_RESET))"

text \<open>Each pair of characters is read with \<open>strtol\<close>, which must consume it.\<close>

definition hex_pair :: "string \<Rightarrow> int option" where
  "hex_pair buf = (case c_strtol 16 buf of (v, rest) \<Rightarrow> if rest \<noteq> [] then None else Some v)"

definition ansi_parse_hex :: "string option \<Rightarrow> (int \<times> int \<times> int) option" where
  "ansi_parse_hex hex =
     (case hex of None \<Rightarrow> None
      | Some h \<Rightarrow>
          let h = (if h \<noteq> [] \<and> h ! 0 = CHR ''#'' then drop 1 h else h)
          in if length h \<noteq> 6 then None
             else case hex_pair (take 2 h) of None \<Rightarrow> None
                  | Some rv \<Rightarrow>
                      (case hex_pair (take 2 (drop 2 h)) of None \<Rightarrow> None
                       | Some gv \<Rightarrow>
                           (case hex_pair (drop 4 h) of None \<Rightarrow> None
                            | Some bv \<Rightarrow> Some (rv, gv, bv))))"

text \<open>\<open>snprintf\<close> into 24 bytes.\<close>

definition ansi_fg_hex :: "string option \<Rightarrow> string option" where
  "ansi_fg_hex hex =
     (case ansi_parse_hex hex of None \<Rightarrow> None
      | Some (r, g, b) \<Rightarrow>
          Some (c_trunc 24 ([CHR 0x1B] @ ''[38;2;'' @ c_dec r @ '';'' @ c_dec g @ '';'' @ c_dec b @ ''m'')))"

definition ansi_bg_hex :: "string option \<Rightarrow> string option" where
  "ansi_bg_hex hex =
     (case ansi_parse_hex hex of None \<Rightarrow> None
      | Some (r, g, b) \<Rightarrow>
          Some (c_trunc 24 ([CHR 0x1B] @ ''[48;2;'' @ c_dec r @ '';'' @ c_dec g @ '';'' @ c_dec b @ ''m'')))"

end
