(* ===== verification/Ansi_Correct.thy ===== *)
theory Ansi_Correct
  imports Ansi "HOL-Library.Sublist"
begin

text \<open>
  Correctness of \<^verbatim>\<open>lib/libansi\<close>: text made of plain pieces and complete sequences is stripped to its plain
  pieces; any stripped or sanitized text is clean and stays as it is; on UTF-8 text the filter of
  tag characters computes its counterpart on code points.
\<close>

section \<open>The strip loop\<close>

lemma strip_step_copied:
  "strip_step st c rest = (st', True, n) \<Longrightarrow> n = 1 \<and> st = ST_NORMAL \<and> st' = ST_NORMAL \<and> \<not> is_escape_byte c"
  by (cases st) (auto simp: strip_step_def is_escape_byte_def Let_def split: if_splits)

lemma strip_loop_subseq: "subseq (strip_loop st room s) s"
proof (induction st room s rule: strip_loop.induct)
  case (2 st room c rest)
  obtain st' copied n where e: "strip_step st c rest = (st', copied, n)" by (metis prod_cases3)
  show ?case
  proof (cases "room = 0 \<or> \<not> copied")
    case True
    have "subseq (strip_loop st' room (drop n (c # rest))) (drop n (c # rest))" if "room \<noteq> 0" "\<not> copied"
      using 2(2) [OF that(1) e [symmetric] refl that(2)] .
    moreover have "subseq (drop n (c # rest)) (c # rest)" by (intro suffix_imp_subseq suffix_drop)
    ultimately show ?thesis using True e by (auto intro: subseq_order.order_trans)
  next
    case False
    then have n: "n = 1" using strip_step_copied e by fastforce
    have "subseq (strip_loop st' (room - 1) (drop n (c # rest))) (drop n (c # rest))"
      using False by (intro 2(1) [OF _ e [symmetric] refl]) simp_all
    then show ?thesis using False e n by simp
  qed
qed simp

lemma strip_loop_clean: "\<not> ansi_has_escape (strip_loop st room s)"
proof (induction st room s rule: strip_loop.induct)
  case (2 st room c rest)
  obtain st' copied n where e: "strip_step st c rest = (st', copied, n)" by (metis prod_cases3)
  then show ?case
    using 2 strip_step_copied [of st c rest st' n] by (auto simp: ansi_has_escape_def)
qed (simp add: ansi_has_escape_def)

lemma strip_loop_room:
  "length s \<le> room \<Longrightarrow> length s \<le> room' \<Longrightarrow> strip_loop st room s = strip_loop st room' s"
proof (induction st room s arbitrary: room' rule: strip_loop.induct)
  case (2 st room c rest)
  obtain st' copied n where e: "strip_step st c rest = (st', copied, n)" by (metis prod_cases3)
  have r: "room \<noteq> 0" "room' \<noteq> 0" using 2(3,4) by auto
  show ?case
  proof (cases copied)
    case True
    then have "n = 1" using strip_step_copied e by fastforce
    then show ?thesis
      using 2(1) [OF r(1) e [symmetric] refl True, of "room' - 1"] 2(3,4) r e True by simp
  next
    case False
    then show ?thesis
      using 2(2) [OF r(1) e [symmetric] refl False, of room'] 2(3,4) r e by simp
  qed
qed simp

definition stripped :: "strip_state \<Rightarrow> string \<Rightarrow> string" where
  "stripped st s = strip_loop st (length s) s"

lemma stripped_Nil [simp]: "stripped st [] = []"
  by (simp add: stripped_def)

lemma stripped_Cons:
  "stripped st (c # rest) =
     (case strip_step st c rest of (st', copied, n) \<Rightarrow>
        (if copied then [c] else []) @ stripped st' (drop n (c # rest)))"
proof -
  obtain st' copied n where e: "strip_step st c rest = (st', copied, n)" by (metis prod_cases3)
  have "n = 1" if copied using strip_step_copied e that by fastforce
  moreover have "strip_loop st' (length (c # rest)) (drop n (c # rest)) = stripped st' (drop n (c # rest))"
    unfolding stripped_def by (rule strip_loop_room) simp_all
  ultimately show ?thesis using e by (auto simp: stripped_def)
qed

lemma strip_ansi_stripped: "strip_ansi (Some s) = Some (if ansi_has_escape s then stripped ST_NORMAL s else s)"
  by (simp add: strip_ansi_def ansi_strip_buf_def stripped_def)

lemma step_simps:
  "stripped ST_NORMAL (c # s) =
     (if byte c = 0x1B then stripped ST_ESC s
      else if byte c = 0x9B then stripped ST_C1_CSI s
      else if byte c = 0x9D then stripped ST_C1_OSC s
      else if byte c \<ge> 0x80 \<and> byte c \<le> 0x9F then stripped ST_NORMAL s
      else c # stripped ST_NORMAL s)"
  "is_csi_param (byte c) \<Longrightarrow> stripped ST_CSI_PARAMS (c # s) = stripped ST_CSI_PARAMS s"
  "is_intermediate (byte c) \<Longrightarrow> stripped ST_CSI_PARAMS (c # s) = stripped ST_CSI_INTERMED s"
  "is_final_byte (byte c) \<Longrightarrow> stripped ST_CSI_PARAMS (c # s) = stripped ST_NORMAL s"
  "is_intermediate (byte c) \<Longrightarrow> stripped ST_CSI_INTERMED (c # s) = stripped ST_CSI_INTERMED s"
  "is_final_byte (byte c) \<Longrightarrow> stripped ST_CSI_INTERMED (c # s) = stripped ST_NORMAL s"
  "is_csi_param (byte c) \<or> is_intermediate (byte c) \<Longrightarrow> stripped ST_C1_CSI (c # s) = stripped ST_C1_CSI s"
  "is_final_byte (byte c) \<Longrightarrow> stripped ST_C1_CSI (c # s) = stripped ST_NORMAL s"
  "is_intermediate (byte c) \<Longrightarrow> stripped ST_NF_PARAM (c # s) = stripped ST_NF_PARAM s"
  "0x30 \<le> byte c \<and> byte c \<le> 0x7E \<Longrightarrow> stripped ST_NF_PARAM (c # s) = stripped ST_NORMAL s"
  "stripped ST_C1_OSC (c # s) = (if byte c = 0x07 \<or> byte c = 0x9C then stripped ST_NORMAL s else stripped ST_C1_OSC s)"
  by (auto simp: stripped_Cons strip_step_def is_csi_param_def is_intermediate_def is_final_byte_def Let_def)

lemma osc_simps:
  "byte c \<noteq> 0x07 \<Longrightarrow> byte c \<noteq> 0x1B \<Longrightarrow> stripped ST_OSC (c # s) = stripped ST_OSC s"
  "byte c = 0x07 \<Longrightarrow> stripped ST_OSC (c # s) = stripped ST_NORMAL s"
  "byte c = 0x1B \<Longrightarrow> stripped ST_OSC (c # CHR 0x5C # s) = stripped ST_NORMAL s"
  "byte c \<noteq> 0x1B \<Longrightarrow> stripped ST_STRING_ESC (c # s) = stripped ST_STRING_ESC s"
  "byte c = 0x1B \<Longrightarrow> stripped ST_STRING_ESC (c # CHR 0x5C # s) = stripped ST_NORMAL s"
  by (simp_all add: stripped_Cons strip_step_def)

section \<open>Sequences as ECMA-48 has them\<close>

datatype ansi_seg =
    Plain string
  | Csi string string char
  | Osc string bool
  | Str char string
  | Nf string char
  | Esc1 char
  | C1_csi string char
  | C1_osc string char
  | C1 char

definition ESC :: char where "ESC = CHR 0x1B"

fun seg_text :: "ansi_seg \<Rightarrow> string" where
  "seg_text (Plain s) = s"
| "seg_text (Csi ps is f) = ESC # CHR ''['' # ps @ is @ [f]"
| "seg_text (Osc body bel) = ESC # CHR '']'' # body @ (if bel then [CHR 0x07] else [ESC, CHR 0x5C])"
| "seg_text (Str intro body) = ESC # intro # body @ [ESC, CHR 0x5C]"
| "seg_text (Nf is f) = ESC # is @ [f]"
| "seg_text (Esc1 c) = [ESC, c]"
| "seg_text (C1_csi ps f) = CHR 0x9B # ps @ [f]"
| "seg_text (C1_osc body t) = CHR 0x9D # body @ [t]"
| "seg_text (C1 c) = [c]"

fun seg_ok :: "ansi_seg \<Rightarrow> bool" where
  "seg_ok (Plain s) \<longleftrightarrow> \<not> ansi_has_escape s"
| "seg_ok (Csi ps is f) \<longleftrightarrow> list_all (\<lambda>c. is_csi_param (byte c)) ps
     \<and> list_all (\<lambda>c. is_intermediate (byte c)) is \<and> is_final_byte (byte f)"
| "seg_ok (Osc body bel) \<longleftrightarrow> list_all (\<lambda>c. byte c \<noteq> 0x07 \<and> byte c \<noteq> 0x1B) body"
| "seg_ok (Str intro body) \<longleftrightarrow> intro \<in> set ''PX^_'' \<and> list_all (\<lambda>c. byte c \<noteq> 0x1B) body"
| "seg_ok (Nf is f) \<longleftrightarrow> is \<noteq> [] \<and> list_all (\<lambda>c. is_intermediate (byte c)) is \<and> 0x30 \<le> byte f \<and> byte f \<le> 0x7E"
| "seg_ok (Esc1 c) \<longleftrightarrow> 0x30 \<le> byte c \<and> byte c \<le> 0x7E \<and> c \<notin> set ''[]PX^_''"
| "seg_ok (C1_csi ps f) \<longleftrightarrow> list_all (\<lambda>c. is_csi_param (byte c) \<or> is_intermediate (byte c)) ps \<and> is_final_byte (byte f)"
| "seg_ok (C1_osc body t) \<longleftrightarrow> list_all (\<lambda>c. byte c \<noteq> 0x07 \<and> byte c \<noteq> 0x9C) body \<and> (byte t = 0x07 \<or> byte t = 0x9C)"
| "seg_ok (C1 c) \<longleftrightarrow> 0x80 \<le> byte c \<and> byte c \<le> 0x9F \<and> byte c \<noteq> 0x9B \<and> byte c \<noteq> 0x9D"

fun seg_visible :: "ansi_seg \<Rightarrow> string" where
  "seg_visible (Plain s) = s"
| "seg_visible _ = []"

lemma stripped_runs:
  "list_all (\<lambda>c. is_csi_param (byte c)) ps \<Longrightarrow> stripped ST_CSI_PARAMS (ps @ s) = stripped ST_CSI_PARAMS s"
  "list_all (\<lambda>c. is_intermediate (byte c)) ps \<Longrightarrow> stripped ST_CSI_INTERMED (ps @ s) = stripped ST_CSI_INTERMED s"
  "list_all (\<lambda>c. is_intermediate (byte c)) ps \<Longrightarrow> stripped ST_NF_PARAM (ps @ s) = stripped ST_NF_PARAM s"
  "list_all (\<lambda>c. is_csi_param (byte c) \<or> is_intermediate (byte c)) ps \<Longrightarrow> stripped ST_C1_CSI (ps @ s) = stripped ST_C1_CSI s"
  "list_all (\<lambda>c. byte c \<noteq> 0x07 \<and> byte c \<noteq> 0x9C) ps \<Longrightarrow> stripped ST_C1_OSC (ps @ s) = stripped ST_C1_OSC s"
  "list_all (\<lambda>c. byte c \<noteq> 0x07 \<and> byte c \<noteq> 0x1B) ps \<Longrightarrow> stripped ST_OSC (ps @ s) = stripped ST_OSC s"
  "list_all (\<lambda>c. byte c \<noteq> 0x1B) ps \<Longrightarrow> stripped ST_STRING_ESC (ps @ s) = stripped ST_STRING_ESC s"
  by (induction ps) (simp_all add: step_simps osc_simps)

lemma stripped_plain: "\<not> ansi_has_escape p \<Longrightarrow> stripped ST_NORMAL (p @ s) = p @ stripped ST_NORMAL s"
  by (induction p) (auto simp: ansi_has_escape_def is_escape_byte_def step_simps(1) Let_def)

lemma esc_bytes [simp]: "byte ESC = 0x1B" "byte (CHR 0x07) = 7" "byte (CHR 0x9B) = 0x9B" "byte (CHR 0x9D) = 0x9D"
  by (simp_all add: byte_def ESC_def)

lemma stripped_esc:
  "stripped ST_ESC (c # s) =
     stripped (if c = CHR ''['' then ST_CSI_PARAMS else if c = CHR '']'' then ST_OSC
               else if c \<in> set ''PX^_'' then ST_STRING_ESC
               else if is_intermediate (byte c) then ST_NF_PARAM else ST_NORMAL) s"
  by (simp add: stripped_Cons strip_step_def is_intermediate_def Let_def)

lemma stripped_seg: "seg_ok g \<Longrightarrow> stripped ST_NORMAL (seg_text g @ s) = seg_visible g @ stripped ST_NORMAL s"
proof (induction g)
  case (Plain p)
  then show ?case by (simp add: stripped_plain)
next
  case (Csi ps qs f)
  then have ok: "list_all (\<lambda>c. is_csi_param (byte c)) ps" "list_all (\<lambda>c. is_intermediate (byte c)) qs" "is_final_byte (byte f)"
    by simp_all
  have "stripped ST_CSI_PARAMS (qs @ f # s) = stripped ST_NORMAL s"
    using ok by (cases qs) (simp_all add: step_simps stripped_runs)
  then show ?case using ok by (simp add: step_simps(1) stripped_esc stripped_runs)
next
  case (Osc body bel)
  then show ?case
    by (cases bel) (simp_all add: step_simps(1) stripped_esc stripped_runs osc_simps)
next
  case (Str intro body)
  then have "intro \<noteq> CHR ''[''" "intro \<noteq> CHR '']''" by auto
  then show ?case using Str by (simp add: step_simps(1) stripped_esc stripped_runs osc_simps del: set_simps)
next
  case (Nf qs f)
  then obtain q qs' where q: "qs = q # qs'" "is_intermediate (byte q)" "list_all (\<lambda>c. is_intermediate (byte c)) qs'"
    by (cases qs) auto
  then have "q \<notin> set ''[]PX^_''" by (auto simp: is_intermediate_def byte_def)
  then have "stripped ST_ESC (q # qs' @ f # s) = stripped ST_NF_PARAM (qs' @ f # s)"
    using q(2) by (simp add: stripped_esc)
  then show ?case using Nf q by (simp add: step_simps stripped_runs)
next
  case (Esc1 c)
  then have "\<not> is_intermediate (byte c)" by (auto simp: is_intermediate_def)
  then show ?case using Esc1 by (simp add: step_simps(1) stripped_esc)
next
  case (C1_csi ps f)
  then show ?case by (simp add: step_simps stripped_runs)
next
  case (C1_osc body t)
  then show ?case by (auto simp: step_simps stripped_runs)
next
  case (C1 c)
  then show ?case by (auto simp: step_simps(1))
qed

lemma seg_has_no_escape: "seg_ok g \<Longrightarrow> \<not> ansi_has_escape (seg_text g) \<Longrightarrow> seg_text g = seg_visible g"
  by (cases g) (auto simp: ansi_has_escape_def is_escape_byte_def Let_def)

text \<open>C16. Text made of plain pieces and complete ECMA-48 sequences (control sequences, OSC with either
  terminator, DCS, SOS, PM and APC strings, nF, Fp, Fe and Fs escapes, and the C1 forms) is stripped
  to exactly its plain pieces.\<close>

theorem strip_ansi_exact:
  assumes "list_all seg_ok segs"
  shows "strip_ansi (Some (concat (map seg_text segs))) = Some (concat (map seg_visible segs))"
proof -
  have "stripped ST_NORMAL (concat (map seg_text segs)) = concat (map seg_visible segs)"
    using assms by (induction segs) (simp_all add: stripped_seg)
  moreover have "concat (map seg_text segs) = concat (map seg_visible segs)"
    if "\<not> ansi_has_escape (concat (map seg_text segs))"
    using assms that
    by (induction segs) (simp_all add: ansi_has_escape_def, metis ansi_has_escape_def seg_has_no_escape)
  ultimately show ?thesis by (simp add: strip_ansi_stripped)
qed

lemma strip_ansi_exact_witness:
  "strip_ansi (Some (ESC # ''[1;31mred'' @ ESC # '']0;title'' @ [CHR 0x07] @ ''!'')) = Some ''red!''"
  using strip_ansi_exact [of "[Csi ''1;31'' [] (CHR ''m''), Plain ''red'', Osc ''0;title'' True, Plain ''!'']"]
  by (simp add: is_csi_param_def is_final_byte_def byte_def ansi_has_escape_def is_escape_byte_def)

lemma strip_ansi_clean_lemma:
  "\<exists>out. strip_ansi (Some text) = Some out \<and> \<not> ansi_has_escape out"
  using strip_loop_clean by (auto simp: strip_ansi_stripped stripped_def)

text \<open>C28. Whatever the text, its stripped form has no escape or C1 byte left, is obtained by deleting
  characters only, and is not changed by stripping again.\<close>

theorem strip_ansi_clean:
  "\<exists>out. strip_ansi (Some text) = Some out \<and> \<not> ansi_has_escape out \<and> subseq out text
     \<and> strip_ansi (Some out) = Some out"
proof (cases "ansi_has_escape text")
  case True
  have "strip_ansi (Some (stripped ST_NORMAL text)) = Some (stripped ST_NORMAL text)"
    using strip_loop_clean by (simp add: strip_ansi_stripped stripped_def)
  then show ?thesis
    using True strip_loop_clean strip_loop_subseq by (auto simp: strip_ansi_stripped stripped_def)
qed (auto simp: strip_ansi_stripped)

text \<open>Text in UTF-8 is damaged: the continuation bytes 0x80 to 0x9F are taken for C1 controls. An em
  dash loses two of its three bytes.\<close>

lemma strip_breaks_utf8: "strip_ansi (Some [CHR 0xE2, CHR 0x80, CHR 0x94]) = Some [CHR 0xE2]"
  by code_simp

text \<open>Two escapes in a row: the second one is consumed as the end of the first.\<close>

lemma strip_double_escape: "strip_ansi (Some (ESC # ESC # ''[31mx'')) = Some ''[31mx''"
  by code_simp

section \<open>Wrapping\<close>

lemma strip_wrap:
  assumes "\<not> ansi_has_escape t" "list_all seg_ok fg" "list_all seg_ok st"
  shows "Option.bind (ansi_wrap (Some t) (Some (concat (map seg_text fg))) (Some (concat (map seg_text st)))) (\<lambda>w. strip_ansi (Some w))
    = Some (concat (map seg_visible fg) @ concat (map seg_visible st) @ t)"
proof -
  have "ANSI_RESET = seg_text (Csi ''0'' [] (CHR ''m''))" "seg_ok (Csi ''0'' [] (CHR ''m''))"
    by (simp_all add: ANSI_RESET_def ESC_def is_csi_param_def is_final_byte_def byte_def)
  then show ?thesis
    using strip_ansi_exact [of "fg @ st @ [Plain t, Csi ''0'' [] (CHR ''m'')]"] assms
    by (simp add: ansi_wrap_def)
qed

section \<open>Display text\<close>

lemma in_normalize_cr:
  "x \<in> set (normalize_cr s) \<Longrightarrow> x = CHR 0x0A \<or> x \<in> set s \<and> x \<noteq> CHR 0x0D"
proof (induction s rule: normalize_cr.induct)
  case (2 c s)
  show ?case
  proof (cases s)
    case (Cons d s')
    then show ?thesis using 2 by (cases "c = CHR 0x0D"; cases "d = CHR 0x0A") auto
  qed (use 2 in \<open>auto split: if_splits\<close>)
qed simp

lemma byte_range: "0 \<le> byte c" "byte c < 256"
proof -
  have "byte c = int (of_char c)" unfolding byte_def by (rule of_nat_of_char [symmetric])
  then show "0 \<le> byte c" "byte c < 256" by simp_all
qed

lemma byte_inj: "byte c = byte d \<longleftrightarrow> c = d"
  by (simp add: byte_def)

lemma control_cases:
  "(let b = byte c in b \<le> 0x08 \<or> (b \<ge> 0x0b \<and> b \<le> 0x1f) \<or> (b \<ge> 0x7f \<and> b \<le> 0x9f))
    \<longleftrightarrow> is_removed_control c \<or> c = CHR 0x0D \<or> 0x80 \<le> byte c \<and> byte c \<le> 0x9F"
proof -
  have "c = CHR 0x0D \<longleftrightarrow> byte c = 0x0D" by (simp add: byte_inj [symmetric]) (simp add: byte_def)
  then show ?thesis unfolding is_removed_control_def Let_def by presburger
qed

lemma display_control_cases:
  "has_display_control s \<longleftrightarrow> (\<exists>c\<in>set s. is_removed_control c \<or> c = CHR 0x0D \<or> 0x80 \<le> byte c \<and> byte c \<le> 0x9F)"
  unfolding has_display_control_def list_ex_iff control_cases ..

text \<open>C31. Sanitizing any text succeeds, leaves no control character but tab and newline, and a second
  pass changes nothing.\<close>

theorem sanitize_clean:
  "\<exists>out. sanitize_display_text (Some text) = Some out \<and> \<not> has_display_control out
     \<and> sanitize_display_text (Some out) = Some out"
proof (cases "has_display_control text")
  case True
  obtain s where s: "strip_ansi (Some text) = Some s" "\<not> ansi_has_escape s"
    using strip_ansi_clean_lemma [of "text"] by auto
  have "\<not> (0x80 \<le> byte c \<and> byte c \<le> 0x9F)" if "c \<in> set (normalize_cr s)" for c
    using in_normalize_cr [OF that] s(2)
    by (auto simp: ansi_has_escape_def list_ex_iff is_escape_byte_def Let_def byte_def)
  then have "\<not> has_display_control (filter (\<lambda>c. \<not> is_removed_control c) (normalize_cr s))"
    by (auto simp: display_control_cases dest: in_normalize_cr)
  then show ?thesis using True s(1) by (simp add: sanitize_display_text_def)
qed (simp add: sanitize_display_text_def)

section \<open>UTF-8\<close>

definition utf8_char :: "int \<Rightarrow> string" where
  "utf8_char cp =
     map char_of
       (if cp < 0x80 then [cp]
        else if cp < 0x800 then [0xC0 + cp div 64, 0x80 + cp mod 64]
        else if cp < 0x10000 then [0xE0 + cp div 4096, 0x80 + cp div 64 mod 64, 0x80 + cp mod 64]
        else [0xF0 + cp div 262144, 0x80 + cp div 4096 mod 64, 0x80 + cp div 64 mod 64, 0x80 + cp mod 64])"

definition utf8 :: "int list \<Rightarrow> string" where
  "utf8 cps = concat (map utf8_char cps)"

definition is_code_point :: "int \<Rightarrow> bool" where
  "is_code_point cp \<longleftrightarrow> 0 < cp \<and> cp < 0x110000"

lemma utf8_simps [simp]: "utf8 [] = []" "utf8 (c # cs) = utf8_char c @ utf8 cs" "utf8 (cs @ ds) = utf8 cs @ utf8 ds"
  by (simp_all add: utf8_def)

lemma byte_char_of: "0 \<le> b \<Longrightarrow> b < 256 \<Longrightarrow> byte (char_of b) = b"
  by (simp add: byte_def)

lemma lead_masks:
  fixes b :: int
  assumes "0 \<le> b" "b < 256"
  shows "b AND 0xE0 = 0xC0 \<longleftrightarrow> 0xC0 \<le> b \<and> b < 0xE0"
    "b AND 0xF0 = 0xE0 \<longleftrightarrow> 0xE0 \<le> b \<and> b < 0xF0"
    "b AND 0xF8 = 0xF0 \<longleftrightarrow> 0xF0 \<le> b \<and> b < 0xF8"
proof -
  have "list_all (\<lambda>b. ((b AND 0xE0 = 0xC0) = (0xC0 \<le> b \<and> b < 0xE0))
      \<and> ((b AND 0xF0 = 0xE0) = (0xE0 \<le> b \<and> b < 0xF0))
      \<and> ((b AND 0xF8 = 0xF0) = (0xF0 \<le> b \<and> b < 0xF8))) [0..(255::int)]"
    by code_simp
  moreover have "b \<in> set [0..255]" using assms by simp
  ultimately show "b AND 0xE0 = 0xC0 \<longleftrightarrow> 0xC0 \<le> b \<and> b < 0xE0"
    "b AND 0xF0 = 0xE0 \<longleftrightarrow> 0xE0 \<le> b \<and> b < 0xF0"
    "b AND 0xF8 = 0xF0 \<longleftrightarrow> 0xF0 \<le> b \<and> b < 0xF8" by (simp_all only: list_all_iff)
qed

lemma low_masks:
  fixes b :: int
  shows "b AND 0x3F = b mod 64" "b AND 0x1F = b mod 32" "b AND 0x0F = b mod 16" "b AND 0x07 = b mod 8"
  using take_bit_eq_mask [of 6 b] take_bit_eq_mask [of 5 b] take_bit_eq_mask [of 4 b] take_bit_eq_mask [of 3 b]
  by (simp_all add: mask_eq_exp_minus_1 take_bit_eq_mod)

lemma mod_offset: "0 \<le> a \<Longrightarrow> a < m \<Longrightarrow> (k * m + a) mod m = (a :: int)"
  by simp

lemma digit_split: "0 < n \<Longrightarrow> x div (n * 64) * 64 + x div n mod 64 = (x div n :: int)"
  by (simp add: zdiv_zmult2_eq)

lemma digit_splits:
  fixes x :: int
  shows "x div 64 * 64 + x mod 64 = x"
    "x div 4096 * 4096 + x div 64 mod 64 * 64 + x mod 64 = x"
    "x div 262144 * 262144 + x div 4096 mod 64 * 4096 + x div 64 mod 64 * 64 + x mod 64 = x"
proof -
  have d: "x div 64 * 64 + x mod 64 = x" "x div 4096 * 64 + x div 64 mod 64 = x div 64"
    "x div 262144 * 64 + x div 4096 mod 64 = x div 4096"
    using digit_split [of 64 x] digit_split [of 4096 x] by simp_all
  show "x div 64 * 64 + x mod 64 = x" by (rule d(1))
  show "x div 4096 * 4096 + x div 64 mod 64 * 64 + x mod 64 = x" using d by linarith
  show "x div 262144 * 262144 + x div 4096 mod 64 * 4096 + x div 64 mod 64 * 64 + x mod 64 = x" using d by linarith
qed

lemma digit_bounds:
  fixes x :: int
  shows "0 \<le> x mod 64" "x mod 64 < 64" "0 < n \<Longrightarrow> 0 \<le> x \<Longrightarrow> 0 \<le> x div n"
  by (simp_all add: pos_imp_zdiv_nonneg_iff)

lemma lead_bound:
  fixes x :: int
  assumes "0 < n" "x < k * n"
  shows "x div n < k"
proof -
  have "x div n * n \<le> x" using assms(1) by (metis minus_mod_eq_div_mult pos_mod_sign diff_le_eq le_add_same_cancel1)
  then show ?thesis using assms by (meson le_less_trans mult_less_cancel_right_pos)
qed

lemma lead_byte:
  "0 \<le> b \<Longrightarrow> b < 0x80 \<Longrightarrow> utf8_decode (char_of b # s) = (b, 1)"
  by (simp add: utf8_decode_def byte_char_of)

lemma decode2:
  assumes "0 \<le> a" "a < 32" "0 \<le> b" "b < 64"
  shows "utf8_decode (char_of (0xC0 + a) # char_of (0x80 + b) # s) = (a * 64 + b, 2)"
proof -
  have "(0xC0 + a) mod 32 = a" "(0x80 + b) mod 64 = b"
    using assms mod_offset [of a 32 6] mod_offset [of b 64 2] by simp_all
  then show ?thesis
    using assms push_or [of b 6 a] by (simp add: utf8_decode_def byte_char_of lead_masks low_masks)
qed

lemma decode3:
  assumes "0 \<le> a" "a < 16" "0 \<le> b" "b < 64" "0 \<le> c" "c < 64"
  shows "utf8_decode (char_of (0xE0 + a) # char_of (0x80 + b) # char_of (0x80 + c) # s) = (a * 4096 + b * 64 + c, 3)"
proof -
  have "(0xE0 + a) mod 16 = a" "(0x80 + b) mod 64 = b" "(0x80 + c) mod 64 = c"
    using assms mod_offset [of a 16 14] mod_offset [of b 64 2] mod_offset [of c 64 2] by simp_all
  then show ?thesis
    using assms push_or [of c 6 b] push_or [of "b * 64 + c" 12 a]
    by (simp add: utf8_decode_def byte_char_of lead_masks low_masks or.assoc)
qed

lemma decode4:
  assumes "0 \<le> a" "a < 8" "0 \<le> b" "b < 64" "0 \<le> c" "c < 64" "0 \<le> d" "d < 64"
  shows "utf8_decode (char_of (0xF0 + a) # char_of (0x80 + b) # char_of (0x80 + c) # char_of (0x80 + d) # s)
    = (a * 262144 + b * 4096 + c * 64 + d, 4)"
proof -
  have "(0xF0 + a) mod 8 = a" "(0x80 + b) mod 64 = b" "(0x80 + c) mod 64 = c" "(0x80 + d) mod 64 = d"
    using assms mod_offset [of a 8 30] mod_offset [of b 64 2] mod_offset [of c 64 2] mod_offset [of d 64 2] by simp_all
  then show ?thesis
    using assms push_or [of d 6 c] push_or [of "c * 64 + d" 12 b] push_or [of "b * 4096 + c * 64 + d" 18 a]
    by (simp add: utf8_decode_def byte_char_of lead_masks low_masks or.assoc add.assoc)
qed

lemma utf8_decode_char:
  assumes "is_code_point cp"
  shows "utf8_decode (utf8_char cp @ s) = (cp, length (utf8_char cp))"
proof -
  have r: "0 \<le> cp" "cp < 0x110000" using assms by (simp_all add: is_code_point_def)
  consider "cp < 0x80" | "0x80 \<le> cp" "cp < 0x800" | "0x800 \<le> cp" "cp < 0x10000" | "0x10000 \<le> cp" by linarith
  then show ?thesis
  proof cases
    case 1
    then have "utf8_char cp = [char_of cp]" by (simp add: utf8_char_def)
    then show ?thesis using 1 r by (simp add: lead_byte)
  next
    case 2
    then have "utf8_char cp = [char_of (0xC0 + cp div 64), char_of (0x80 + cp mod 64)]" by (simp add: utf8_char_def)
    moreover have "cp div 64 < 32" using 2 lead_bound [of 64 cp 32] by simp
    ultimately show ?thesis
      using decode2 [OF digit_bounds(3) _ digit_bounds(1,2), of 64 cp cp s] r(1) by (simp only: append_Cons append_Nil digit_splits) simp
  next
    case 3
    then have "utf8_char cp = [char_of (0xE0 + cp div 4096), char_of (0x80 + cp div 64 mod 64), char_of (0x80 + cp mod 64)]"
      by (simp add: utf8_char_def)
    moreover have "cp div 4096 < 16" using 3 lead_bound [of 4096 cp 16] by simp
    moreover have "0 \<le> cp div 4096" using r by (intro digit_bounds) simp_all
    ultimately show ?thesis
      using decode3 [OF _ _ digit_bounds(1,2) digit_bounds(1,2), of "cp div 4096" "cp div 64" cp s]
      by (simp only: append_Cons append_Nil digit_splits) simp
  next
    case 4
    then have "utf8_char cp = [char_of (0xF0 + cp div 262144), char_of (0x80 + cp div 4096 mod 64),
        char_of (0x80 + cp div 64 mod 64), char_of (0x80 + cp mod 64)]"
      by (simp add: utf8_char_def)
    moreover have "cp div 262144 < 8" using r lead_bound [of 262144 cp 8] by simp
    moreover have "0 \<le> cp div 262144" using r by (intro digit_bounds) simp_all
    ultimately show ?thesis
      using decode4 [OF _ _ digit_bounds(1,2) digit_bounds(1,2) digit_bounds(1,2), of "cp div 262144" "cp div 4096" "cp div 64" cp s]
      by (simp only: append_Cons append_Nil digit_splits) simp
  qed
qed

lemma utf8_char_nonempty [simp]: "utf8_char cp \<noteq> []"
  by (simp add: utf8_char_def)

section \<open>Tag characters\<close>

definition is_tag :: "int \<Rightarrow> bool" where
  "is_tag cp \<longleftrightarrow> 0xE0000 \<le> cp \<and> cp \<le> 0xE007F"

definition is_tag_spec :: "int \<Rightarrow> bool" where
  "is_tag_spec cp \<longleftrightarrow> 0xE0020 \<le> cp \<and> cp \<le> 0xE007E"

text \<open>The characters of an emoji tag sequence after its black flag, when there is one: tags and the
  cancel tag.\<close>

definition tag_sequence :: "int list \<Rightarrow> int list option" where
  "tag_sequence cs =
     (let run = takeWhile is_tag_spec cs
      in if run \<noteq> [] \<and> take 1 (drop (length run) cs) = [0xE007F] then Some (run @ [0xE007F]) else None)"

function visible_tags :: "int list \<Rightarrow> int list" where
  "visible_tags [] = []"
| "visible_tags (c # cs) =
     (case if c = 0x1F3F4 then tag_sequence cs else None of
        Some ts \<Rightarrow> c # ts @ visible_tags (drop (length ts) cs)
      | None \<Rightarrow> (if is_tag c then [] else [c]) @ visible_tags cs)"
  by pat_completeness auto
termination by (relation "measure length") auto

lemma tag_sequence_split: "tag_sequence cs = Some ts \<Longrightarrow>
  \<exists>run rest. ts = run @ [0xE007F] \<and> cs = ts @ rest \<and> run \<noteq> [] \<and> list_all is_tag_spec run"
proof -
  assume a: "tag_sequence cs = Some ts"
  define run where "run = takeWhile is_tag_spec cs"
  have d: "drop (length run) cs = dropWhile is_tag_spec cs" by (simp add: run_def dropWhile_eq_drop)
  have "run \<noteq> []" "take 1 (dropWhile is_tag_spec cs) = [0xE007F]" "ts = run @ [0xE007F]"
    using a by (auto simp: tag_sequence_def run_def [symmetric] d Let_def split: if_splits)
  moreover obtain rest where "dropWhile is_tag_spec cs = 0xE007F # rest"
    using calculation(2) by (cases "dropWhile is_tag_spec cs") auto
  moreover have "cs = run @ dropWhile is_tag_spec cs" by (simp add: run_def)
  moreover have "list_all is_tag_spec run" by (auto simp: run_def list_all_iff dest: set_takeWhileD)
  ultimately show ?thesis by (metis append.assoc append_Cons append_Nil)
qed

lemma tag_run_ends_utf8:
  "list_all is_code_point cs \<Longrightarrow> tag_run_ends moved (utf8 cs) \<longleftrightarrow>
     (moved \<or> takeWhile is_tag_spec cs \<noteq> []) \<and> take 1 (dropWhile is_tag_spec cs) = [0xE007F]"
proof (induction cs arbitrary: moved)
  case (Cons c cs)
  have "tag_run_ends moved (utf8 (c # cs)) \<longleftrightarrow>
      (if is_tag_spec c then tag_run_ends True (utf8 cs) else c = 0xE007F \<and> moved)"
    unfolding tag_run_ends.simps [of moved "utf8 (c # cs)"] using Cons(2)
    by (simp add: utf8_decode_char is_tag_spec_def)
  moreover have "tag_run_ends True (utf8 cs) \<longleftrightarrow> take 1 (dropWhile is_tag_spec cs) = [0xE007F]"
    using Cons by simp
  ultimately show ?case by simp blast
qed (simp add: tag_run_ends.simps [of moved "[]" for moved])

lemma cancel_end_utf8:
  "list_all is_code_point run \<Longrightarrow> list_all is_tag_spec run \<Longrightarrow>
     cancel_end (utf8 run @ utf8_char 0xE007F @ s) = length (utf8 run @ utf8_char 0xE007F)"
proof (induction run)
  case Nil
  show ?case by (subst cancel_end.simps) (simp add: utf8_decode_char is_code_point_def)
next
  case (Cons c run)
  then show ?case by (subst cancel_end.simps) (simp add: utf8_decode_char is_tag_spec_def)
qed

lemma tag_sequence_iff:
  "list_all is_code_point cs \<Longrightarrow> tag_run_ends False (utf8 cs) \<longleftrightarrow> tag_sequence cs \<noteq> None"
  by (simp add: tag_run_ends_utf8 tag_sequence_def Let_def dropWhile_eq_drop)

lemma tags_loop_utf8:
  "list_all is_code_point cs \<Longrightarrow> length (utf8 cs) \<le> room \<Longrightarrow> tags_loop room (utf8 cs) = utf8 (visible_tags cs)"
proof (induction cs arbitrary: room rule: visible_tags.induct)
  case (2 c cs)
  have cp: "is_code_point c" "list_all is_code_point cs" using 2 by simp_all
  let ?s = "utf8_char c @ utf8 cs"
  have ne: "room \<noteq> 0" using 2(4) by (cases room) auto
  have ends: "tag_run_ends False (utf8 cs) \<longleftrightarrow> tag_sequence cs \<noteq> None" using cp(2) by (rule tag_sequence_iff)
  have unf: "tags_loop room ?s =
     (if c = 0x1F3F4 \<and> tag_sequence cs \<noteq> None
      then let n = length (utf8_char c) + cancel_end (utf8 cs)
           in if n \<le> room then take n ?s @ tags_loop (room - n) (drop n ?s) else tags_loop room (drop n ?s)
      else if is_tag c then tags_loop room (utf8 cs)
      else if length (utf8_char c) \<le> room
      then utf8_char c @ tags_loop (room - length (utf8_char c)) (utf8 cs)
      else tags_loop room (utf8 cs))"
    unfolding tags_loop.simps [of room ?s] utf8_decode_char [OF cp(1)] prod.case
    using ne by (simp only: append_is_Nil_conv utf8_char_nonempty ends is_tag_def
      drop_append drop_all take_append take_all diff_self_eq_0 drop_0 take_0 append_Nil append_Nil2 order_refl
      simp_thms if_False)
  show ?case
  proof (cases "if c = 0x1F3F4 then tag_sequence cs else None")
    case None
    then show ?thesis
      using 2(1) [OF None, of room] 2(1) [OF None, of "room - length (utf8_char c)"] 2(3,4) unf
      by (auto split: if_splits)
  next
    case (Some ts)
    then have f: "c = 0x1F3F4" "tag_sequence cs = Some ts" by (auto split: if_splits)
    then obtain run rest where r: "ts = run @ [0xE007F]" "cs = ts @ rest" "list_all is_tag_spec run"
      using tag_sequence_split by blast
    then have "cancel_end (utf8 cs) = length (utf8 ts)"
      using cp cancel_end_utf8 [of run "utf8 rest"] by simp
    then show ?thesis
      using 2(2) [OF Some, of "room - length (utf8_char c) - length (utf8 ts)"] 2(3,4) unf f r(2)
      by (simp add: Let_def)
  qed
qed (simp add: tags_loop.simps)

lemma has_tag_append: "has_unicode_tag ys \<Longrightarrow> has_unicode_tag (xs @ ys)"
proof (induction xs)
  case (Cons x xs)
  then show ?case by (cases "xs @ ys") auto
qed simp

lemma tag_bytes: "is_tag c \<Longrightarrow> has_unicode_tag (utf8_char c @ s)"
proof -
  assume "is_tag c"
  then have "c div 4096 = 224" by (simp add: is_tag_def div_pos_geq int_div_pos_eq [of c 4096 224 "c - 917504"])
  moreover have "c div 262144 = c div 4096 div 64" by (simp add: zdiv_zmult2_eq [symmetric])
  ultimately have "c div 262144 = 3" "c div 4096 mod 64 = 32" by simp_all
  then show ?thesis using \<open>is_tag c\<close> by (simp add: utf8_char_def is_tag_def byte_def)
qed

lemma no_tags: "\<not> has_unicode_tag (utf8 cs) \<Longrightarrow> visible_tags cs = cs"
proof (induction cs rule: visible_tags.induct)
  case (2 c cs)
  then have "\<not> is_tag c" "\<not> has_unicode_tag (utf8 cs)" using tag_bytes has_tag_append by auto
  moreover have "tag_sequence cs = None"
  proof (rule ccontr)
    assume "tag_sequence cs \<noteq> None"
    then obtain ts run rest where "cs = run @ 0xE007F # rest" using tag_sequence_split by fastforce
    then have "has_unicode_tag (utf8 cs)" using tag_bytes [of "0xE007F"] has_tag_append by (simp add: is_tag_def)
    then show False using calculation by simp
  qed
  ultimately show ?case using 2(1) by (cases "c = 0x1F3F4") simp_all
qed simp

text \<open>C19. On UTF-8 text the tag characters that hide in it are removed and nothing else is: what stays are
  the other code points and the complete emoji tag sequences (a black flag, one or more tags, the
  cancel tag), each whole.\<close>

theorem strip_unicode_tags_utf8:
  assumes "list_all is_code_point cs"
  shows "strip_unicode_tags (Some (utf8 cs)) = Some (utf8 (visible_tags cs))"
  using assms by (simp add: strip_unicode_tags_def strip_unicode_tags_buf_def tags_loop_utf8 no_tags)

text \<open>The flag of Wales keeps its tags; the hidden H after it goes.\<close>

lemma strip_unicode_tags_utf8_witness:
  "strip_unicode_tags (Some (utf8 [0x1F3F4, 0xE0067, 0xE007F, 0xE0048, 0x20AC]))
     = Some (utf8 [0x1F3F4, 0xE0067, 0xE007F, 0x20AC])"
proof -
  have "visible_tags [0x1F3F4, 0xE0067, 0xE007F, 0xE0048, 0x20AC] = [0x1F3F4, 0xE0067, 0xE007F, 0x20AC]"
    by (simp add: tag_sequence_def is_tag_spec_def is_tag_def)
  then show ?thesis
    using strip_unicode_tags_utf8 [of "[0x1F3F4, 0xE0067, 0xE007F, 0xE0048, 0x20AC]"]
    by (simp add: is_code_point_def)
qed

end
