(* ===== verification/Context.thy ===== *)
theory Context
  imports Slermes_Prelude "HOL-Library.Monad_Syntax"
begin

text \<open>
  The conversation of the agent (\<^verbatim>\<open>src/agent/context.c\<close>, first part): messages, the array of
  pointers to them with its count and capacity, pushing, truncation and the three strategies of
  eviction. The messages live in a memory of their own, from an address to the message: reading through
  NULL, beyond the array or what was freed, and freeing twice, are \<open>None\<close>.
  Allocations succeed; \<open>malloc\<close> is asked for an address as an argument. Counts of tokens are natural
  numbers (the C code counts in \<open>int\<close>), and the trackers that follow in the file are not modelled.
\<close>

section \<open>Messages\<close>

definition HERMES_MAX_MESSAGES :: nat where "HERMES_MAX_MESSAGES = 4096"

text \<open>A role variable may hold a number outside the enumeration.\<close>

datatype message_role = MSG_SYSTEM | MSG_USER | MSG_ASSISTANT | MSG_TOOL | MSG_OTHER int

record tool_call =
  tc_id :: string
  tc_name :: string
  tc_arguments :: string
  tc_malformed :: bool
  tc_unwrapped :: bool

record message =
  msg_role :: message_role
  msg_content :: "string option"
  msg_tool_call_id :: "string option"
  msg_tool_name :: "string option"
  msg_reasoning :: "string option"
  msg_encrypted_content :: "string option"
  msg_tool_calls :: "tool_call list"

definition message_new :: "message_role \<Rightarrow> string option \<Rightarrow> message" where
  "message_new role content =
     \<lparr>msg_role = role, msg_content = content, msg_tool_call_id = None, msg_tool_name = None,
      msg_reasoning = None, msg_encrypted_content = None, msg_tool_calls = []\<rparr>"

definition message_new_tool :: "string option \<Rightarrow> string option \<Rightarrow> message" where
  "message_new_tool tool_call_id content = (message_new MSG_TOOL content)\<lparr>msg_tool_call_id := tool_call_id\<rparr>"

definition message_new_assistant ::
    "string option \<Rightarrow> string option \<Rightarrow> string option \<Rightarrow> string option \<Rightarrow> string option \<Rightarrow> message" where
  "message_new_assistant content tool_name tool_call_id reasoning encrypted_content =
     (message_new MSG_ASSISTANT content)
       \<lparr>msg_tool_name := tool_name, msg_tool_call_id := tool_call_id, msg_reasoning := reasoning,
        msg_encrypted_content := encrypted_content, msg_tool_calls := []\<rparr>"

definition message_new_assistant_with_toolcalls ::
    "string option \<Rightarrow> tool_call list \<Rightarrow> string option \<Rightarrow> string option \<Rightarrow> message" where
  "message_new_assistant_with_toolcalls content tcalls reasoning encrypted_content =
     (message_new MSG_ASSISTANT content)
       \<lparr>msg_reasoning := reasoning, msg_encrypted_content := encrypted_content,
        msg_tool_calls := take 64 tcalls\<rparr>"

definition message_clone :: "message \<Rightarrow> message" where
  "message_clone src = src\<lparr>msg_tool_calls := take 64 (msg_tool_calls src)\<rparr>"

section \<open>Memory\<close>

type_synonym ptr = nat
type_synonym heap = "ptr \<Rightarrow> message option"

text \<open>\<open>message_free\<close>: freeing NULL does nothing, freeing what is not live is undefined.\<close>

definition message_free :: "heap \<Rightarrow> ptr option \<Rightarrow> heap option" where
  "message_free h p =
     (case p of None \<Rightarrow> Some h
      | Some q \<Rightarrow> (case h q of None \<Rightarrow> None | Some _ \<Rightarrow> Some (h(q := None))))"

fun free_all :: "heap \<Rightarrow> ptr option list \<Rightarrow> heap option" where
  "free_all h [] = Some h"
| "free_all h (p # ps) = do { h \<leftarrow> message_free h p; free_all h ps }"

section \<open>The context\<close>

text \<open>The slots of the array are as many as its capacity.\<close>

record agent_context =
  slots :: "ptr option list"
  message_count :: nat
  mem :: heap

abbreviation capacity :: "agent_context \<Rightarrow> nat" where
  "capacity st \<equiv> length (slots st)"

text \<open>\<open>state->messages[i]->\<dots>\<close>: undefined beyond the array, on NULL and on what is not live.\<close>

definition ctx_msg :: "agent_context \<Rightarrow> nat \<Rightarrow> message option" where
  "ctx_msg st i = (if i < capacity st then do { p \<leftarrow> slots st ! i; mem st p } else None)"

definition ctx_role :: "agent_context \<Rightarrow> nat \<Rightarrow> message_role option" where
  "ctx_role st i = map_option msg_role (ctx_msg st i)"

definition realloc_slots :: "nat \<Rightarrow> agent_context \<Rightarrow> agent_context" where
  "realloc_slots n st = st\<lparr>slots := take n (slots st) @ replicate (n - capacity st) None\<rparr>"

definition context_push :: "agent_context \<Rightarrow> ptr \<Rightarrow> agent_context option" where
  "context_push st msg =
     (let st = (if message_count st \<ge> capacity st
                then let new_cap = (if capacity st = 0 then 64 else capacity st * 2);
                         new_cap = (if new_cap > HERMES_MAX_MESSAGES then HERMES_MAX_MESSAGES else new_cap)
                     in realloc_slots new_cap st
                else st)
      in if message_count st < capacity st
         then Some (st\<lparr>slots := (slots st)[message_count st := Some msg], message_count := message_count st + 1\<rparr>)
         else None)"

definition context_pop :: "agent_context \<Rightarrow> ptr option \<times> agent_context" where
  "context_pop st =
     (if message_count st = 0 then (None, st)
      else (slots st ! (message_count st - 1), st\<lparr>message_count := message_count st - 1\<rparr>))"

definition context_clear :: "agent_context \<Rightarrow> agent_context option" where
  "context_clear st = do {
     h \<leftarrow> free_all (mem st) (take (message_count st) (slots st));
     Some \<lparr>slots = [], message_count = 0, mem = h\<rparr> }"

text \<open>The first system message, looked for from slot \<open>i\<close> on.\<close>

function find_system :: "agent_context \<Rightarrow> nat \<Rightarrow> nat option option" where
  "find_system st i =
     (if i < message_count st
      then do { r \<leftarrow> ctx_role st i; if r = MSG_SYSTEM then Some (Some i) else find_system st (i + 1) }
      else Some None)"
  by pat_completeness auto
termination by (relation "measure (\<lambda>(st, i). message_count st - i)") auto

declare find_system.simps [simp del]

text \<open>\<open>a\<close> is the address \<open>malloc\<close> gives to a new message.\<close>

definition context_set_system :: "agent_context \<Rightarrow> ptr \<Rightarrow> string option \<Rightarrow> agent_context option" where
  "context_set_system st a content = do {
     found \<leftarrow> find_system st 0;
     (case found of
        Some i \<Rightarrow> do {
          p \<leftarrow> slots st ! i;
          m \<leftarrow> mem st p;
          Some (st\<lparr>mem := (mem st)(p \<mapsto> m\<lparr>msg_content := content\<rparr>)\<rparr>) }
      | None \<Rightarrow>
          let new_count = message_count st + 1;
              st = (if new_count > capacity st
                    then realloc_slots (if capacity st = 0 then 64 else capacity st * 2) st else st)
          in if message_count st < capacity st
             then Some (st\<lparr>slots := Some a # take (message_count st) (slots st) @ drop (message_count st + 1) (slots st),
                           message_count := message_count st + 1,
                           mem := (mem st)(a \<mapsto> message_new MSG_SYSTEM content)\<rparr>)
             else None) }"

text \<open>Freeing \<open>k\<close> messages from slot \<open>i\<close> on and moving the later ones down.\<close>

definition remove_slots :: "agent_context \<Rightarrow> nat \<Rightarrow> nat \<Rightarrow> agent_context option" where
  "remove_slots st i k =
     (if i + k \<le> capacity st
      then do {
        h \<leftarrow> free_all (mem st) (take k (drop i (slots st)));
        Some (st\<lparr>slots := take i (slots st) @ take (message_count st - i - k) (drop (i + k) (slots st))
                           @ drop (message_count st - k) (slots st),
                 message_count := message_count st - k, mem := h\<rparr>) }
      else None)"

definition context_truncate :: "agent_context \<Rightarrow> nat \<Rightarrow> agent_context option" where
  "context_truncate st max_messages =
     (if message_count st \<le> max_messages then Some st
      else do {
        r \<leftarrow> ctx_role st 0;
        let remove_count = message_count st - max_messages
        in if r = MSG_SYSTEM
           then if remove_count \<ge> message_count st - 1
                then if message_count st = 1 then None
                     else if message_count st - 2 > 0 then remove_slots st 1 (message_count st - 2) else Some st
                else remove_slots st 1 remove_count
           else remove_slots st 0 remove_count })"

definition context_get :: "agent_context \<Rightarrow> nat \<Rightarrow> ptr option" where
  "context_get st index = (if index \<ge> message_count st then None else slots st ! index)"

section \<open>Tokens\<close>

definition estimate_tokens :: "string option \<Rightarrow> nat" where
  "estimate_tokens text = (case text of None \<Rightarrow> 0 | Some t \<Rightarrow> length t div 4 + 1)"

definition context_message_tokens :: "message \<Rightarrow> nat" where
  "context_message_tokens msg =
     estimate_tokens (msg_content msg) + estimate_tokens (msg_reasoning msg)
     + (\<Sum>tc\<leftarrow>take 64 (msg_tool_calls msg). estimate_tokens (Some (tc_name tc)) + estimate_tokens (Some (tc_arguments tc)))"

fun total_tokens :: "agent_context \<Rightarrow> ptr option list \<Rightarrow> nat option" where
  "total_tokens st [] = Some 0"
| "total_tokens st (None # ps) = total_tokens st ps"
| "total_tokens st (Some p # ps) = do {
     m \<leftarrow> mem st p; t \<leftarrow> total_tokens st ps; Some (context_message_tokens m + t) }"

definition context_total_tokens :: "agent_context \<Rightarrow> nat option" where
  "context_total_tokens st = total_tokens st (take (message_count st) (slots st))"

definition context_get_system :: "agent_context \<Rightarrow> string option option" where
  "context_get_system st = do {
     found \<leftarrow> find_system st 0;
     (case found of None \<Rightarrow> Some None | Some i \<Rightarrow> do { m \<leftarrow> ctx_msg st i; Some (msg_content m) }) }"

section \<open>Eviction\<close>

datatype eviction_strategy = EVICT_OLDEST_TOOL_FIRST | EVICT_OLDEST_USER | EVICT_KEEP_RECENT_N

text \<open>Roles of the slots from \<open>i\<close> on, which the loops of the eviction read.\<close>

definition roles_from :: "agent_context \<Rightarrow> nat \<Rightarrow> message_role list option" where
  "roles_from st i = those (map (ctx_role st) [i..<message_count st])"

text \<open>The search for the slot to remove: a tool result replaces a candidate that is none.\<close>

definition oldest_step :: "message_role list \<Rightarrow> nat \<Rightarrow> nat \<Rightarrow> nat" where
  "oldest_step roles j oldest =
     (if roles ! j = MSG_TOOL \<and> roles ! oldest \<noteq> MSG_TOOL then j else if j < oldest then j else oldest)"

definition find_oldest :: "message_role list \<Rightarrow> nat" where
  "find_oldest roles = fold (oldest_step roles) [1..<length roles] 0"

fun evict_tools :: "nat \<Rightarrow> nat \<Rightarrow> agent_context \<Rightarrow> agent_context option" where
  "evict_tools 0 start st = Some st"
| "evict_tools (Suc k) start st = do {
     roles \<leftarrow> roles_from st start;
     st \<leftarrow> remove_slots st (start + find_oldest roles) 1;
     evict_tools k start st }"

function evict_users :: "nat \<Rightarrow> nat \<Rightarrow> agent_context \<Rightarrow> agent_context option" where
  "evict_users remaining i st =
     (if i < message_count st \<and> remaining > 0
      then do {
        r \<leftarrow> ctx_role st i;
        if r = MSG_USER \<or> r = MSG_ASSISTANT
        then (case remove_slots st i 1 of None \<Rightarrow> None | Some st' \<Rightarrow> evict_users (remaining - 1) i st')
        else evict_users remaining (i + 1) st }
      else Some st)"
  by pat_completeness auto
termination
proof (relation "measure (\<lambda>(r, i, st). message_count st - i)", goal_cases)
  case (2 remaining i st r st')
  then show ?case by (auto simp: remove_slots_def bind_eq_Some_conv split: if_splits)
qed auto

declare evict_users.simps [simp del]

text \<open>\<open>size_t\<close> arithmetic: the difference wraps when the target is above the count.\<close>

definition size_diff :: "nat \<Rightarrow> nat \<Rightarrow> nat" where
  "size_diff a b = (if b \<le> a then a - b else 2 ^ 64 - (b - a))"

definition context_evict_smart :: "agent_context \<Rightarrow> nat \<Rightarrow> eviction_strategy \<Rightarrow> agent_context option" where
  "context_evict_smart st max_messages strategy =
     (if message_count st \<le> max_messages then Some st
      else do {
        r \<leftarrow> ctx_role st 0;
        let keep_system = (if r = MSG_SYSTEM then 1 else 0);
            target = (if max_messages > keep_system then max_messages else keep_system + 4);
            remove_count = size_diff (message_count st) target
        in if remove_count = 0 then Some st
           else (case strategy of
               EVICT_OLDEST_TOOL_FIRST \<Rightarrow> do {
                 roles \<leftarrow> roles_from st keep_system;
                 let non_tool = length (filter (\<lambda>r. r \<noteq> MSG_TOOL) roles);
                     max_tool_remove = message_count st - keep_system - non_tool;
                     limit = max_tool_remove + (if non_tool > 2 then non_tool - 2 else 0)
                 in evict_tools (if remove_count > limit then limit else remove_count) keep_system st }
             | EVICT_OLDEST_USER \<Rightarrow> evict_users remove_count keep_system st
             | EVICT_KEEP_RECENT_N \<Rightarrow> context_truncate st target) })"

end
