(* ===== verification/MessageRepair.thy ===== *)
theory MessageRepair
  imports Context
begin

text \<open>
  The repair of a conversation before it is sent (\<^verbatim>\<open>src/agent/agent_message_repair.c\<close>): stray results
  dropped, user messages merged, stubs made for missing results; the flush cursor, arguments of tool
  calls and pending guidance. Memory is as in \<open>Context\<close>; a write beyond an array is \<open>None\<close>, and the
  addresses of new messages are an argument. Allocations succeed and numbers do not overflow.
\<close>

section \<open>Thinking-only messages\<close>

definition AGENT_RUNTIME_POST_HOOK_TOOL_NAMES :: "string list" where
  "AGENT_RUNTIME_POST_HOOK_TOOL_NAMES = [''todo'', ''session_search'', ''memory'', ''clarify'', ''delegate_task'']"

definition agent_runtime_owns_post_tool_hook :: "string option \<Rightarrow> bool" where
  "agent_runtime_owns_post_tool_hook function_name =
     (case function_name of None \<Rightarrow> False
      | Some f \<Rightarrow> f \<noteq> [] \<and> f \<in> set AGENT_RUNTIME_POST_HOOK_TOOL_NAMES)"

definition is_blank :: "string option \<Rightarrow> bool" where
  "is_blank content =
     (case content of None \<Rightarrow> True
      | Some s \<Rightarrow> list_all (\<lambda>c. c = CHR '' '' \<or> c = CHR 0x09 \<or> c = CHR 0x0A \<or> c = CHR 0x0D) s)"

definition thinking_only :: "message \<Rightarrow> bool" where
  "thinking_only msg \<longleftrightarrow> msg_role msg = MSG_ASSISTANT \<and> msg_tool_calls msg = [] \<and> is_blank (msg_content msg)
     \<and> (case msg_reasoning msg of None \<Rightarrow> False | Some r \<Rightarrow> r \<noteq> [])"

text \<open>\<open>msg_free(msg); free(msg)\<close>: the object goes once. \<open>message_free(msg); free(msg)\<close>: it goes twice.\<close>

definition release :: "heap \<Rightarrow> ptr \<Rightarrow> heap option" where
  "release h p = (case h p of None \<Rightarrow> None | Some _ \<Rightarrow> Some (h(p := None)))"

definition release_again :: "heap \<Rightarrow> ptr \<Rightarrow> heap option" where
  "release_again h p = do { h \<leftarrow> message_free h (Some p); release h p }"

section \<open>The passes of the repair\<close>

definition TOOL_RESULT_STUB_MARKER :: string where
  "TOOL_RESULT_STUB_MARKER =
     ''[Result unavailable '' @ [CHR 0xE2, CHR 0x80, CHR 0x94] @ '' see context summary above]''"

definition known_role :: "message_role \<Rightarrow> bool" where
  "known_role r \<longleftrightarrow> r = MSG_SYSTEM \<or> r = MSG_USER \<or> r = MSG_ASSISTANT \<or> r = MSG_TOOL"

text \<open>The identifiers an assistant message makes known; \<open>snprintf\<close> into 64 bytes.\<close>

definition call_ids :: "message \<Rightarrow> string list" where
  "call_ids msg = map (c_trunc 64) (filter (\<lambda>i. i \<noteq> []) (map tc_id (take 64 (msg_tool_calls msg))))"

definition answers :: "string list \<Rightarrow> message \<Rightarrow> bool" where
  "answers known msg = (case msg_tool_call_id msg of None \<Rightarrow> False | Some i \<Rightarrow> i \<noteq> [] \<and> i \<in> set known)"

text \<open>The first pass over the slots: the messages it keeps, those it drops and frees, and their number.\<close>

fun filter_pass :: "heap \<Rightarrow> string list \<Rightarrow> ptr option list \<Rightarrow> (heap \<times> ptr list \<times> nat) option" where
  "filter_pass h known [] = Some (h, [], 0)"
| "filter_pass h known (None # ps) = filter_pass h known ps"
| "filter_pass h known (Some p # ps) = do {
     msg \<leftarrow> h p;
     if \<not> known_role (msg_role msg) then do {
       h \<leftarrow> release h p;
       (h, filtered, repairs) \<leftarrow> filter_pass h known ps;
       Some (h, filtered, repairs + 1) }
     else if msg_role msg = MSG_ASSISTANT then do {
       (h, filtered, repairs) \<leftarrow> filter_pass h (call_ids msg) ps;
       Some (h, p # filtered, repairs) }
     else if msg_role msg = MSG_TOOL then
       if answers known msg then do {
         (h, filtered, repairs) \<leftarrow> filter_pass h known ps;
         Some (h, p # filtered, repairs) }
       else do {
         h \<leftarrow> release h p;
         (h, filtered, repairs) \<leftarrow> filter_pass h known ps;
         Some (h, filtered, repairs + 1) }
     else do {
       (h, filtered, repairs) \<leftarrow> filter_pass h (if msg_role msg = MSG_USER then [] else known) ps;
       Some (h, p # filtered, repairs) } }"

text \<open>The content of two user messages in a row.\<close>

definition merge_content :: "string option \<Rightarrow> string option \<Rightarrow> string option" where
  "merge_content prev new =
     (case (prev, new) of
        (Some a, Some b) \<Rightarrow> Some (a @ [CHR 0x0A, CHR 0x0A] @ b)
      | (None, Some b) \<Rightarrow> Some b
      | _ \<Rightarrow> prev)"

fun merge_pass :: "heap \<Rightarrow> ptr list \<Rightarrow> ptr list \<Rightarrow> (heap \<times> ptr list \<times> nat) option" where
  "merge_pass h merged [] = Some (h, merged, 0)"
| "merge_pass h merged (p # ps) = do {
     msg \<leftarrow> h p;
     prev \<leftarrow> (if merged = [] then Some None else map_option Some (h (last merged)));
     (case (prev, msg_role msg) of
        (Some prev, MSG_USER) \<Rightarrow>
          if msg_role prev = MSG_USER then do {
            h \<leftarrow> release (h(last merged \<mapsto> prev\<lparr>msg_content := merge_content (msg_content prev) (msg_content msg)\<rparr>)) p;
            (h, merged, repairs) \<leftarrow> merge_pass h merged ps;
            Some (h, merged, repairs + 1) }
          else merge_pass h (merged @ [p]) ps
      | _ \<Rightarrow> merge_pass h (merged @ [p]) ps) }"

text \<open>The identifiers of all calls, at most 64, and which of them have a result.\<close>

definition add_id :: "string \<Rightarrow> string list \<Rightarrow> string list" where
  "add_id i ids = (if length ids < 64 \<and> i \<noteq> [] \<and> i \<notin> set ids then ids @ [c_trunc 64 i] else ids)"

definition collect_ids :: "message list \<Rightarrow> string list" where
  "collect_ids msgs =
     fold add_id (concat (map (\<lambda>m. if msg_role m = MSG_ASSISTANT then map tc_id (msg_tool_calls m) else []) msgs)) []"

definition result_ids :: "message list \<Rightarrow> string list" where
  "result_ids msgs =
     concat (map (\<lambda>m. if msg_role m = MSG_TOOL
                      then (case msg_tool_call_id m of None \<Rightarrow> [] | Some i \<Rightarrow> if i = [] then [] else [i]) else []) msgs)"

definition missing_ids :: "message list \<Rightarrow> string list" where
  "missing_ids msgs = filter (\<lambda>i. i \<notin> set (result_ids msgs)) (collect_ids msgs)"

text \<open>How many messages there are after the stubs, the stub of an identifier, and their making at the
  addresses \<open>new\<close> that \<open>malloc\<close> gives.\<close>

definition count_with_stubs :: "nat \<Rightarrow> nat \<Rightarrow> nat" where
  "count_with_stubs count stubs_needed =
     (if stubs_needed > 0
      then let new_count = count + stubs_needed
           in if new_count > HERMES_MAX_MESSAGES then HERMES_MAX_MESSAGES else new_count
      else count)"

definition stub :: "string \<Rightarrow> message" where
  "stub i = message_new_tool (Some i) (Some TOOL_RESULT_STUB_MARKER)"

definition make_stubs :: "heap \<Rightarrow> ptr list \<Rightarrow> string list \<Rightarrow> heap" where
  "make_stubs h new ids = fold (\<lambda>(a, i) h. h(a \<mapsto> stub i)) (zip new ids) h"

definition read_all :: "heap \<Rightarrow> ptr list \<Rightarrow> message list option" where
  "read_all h ps = those (map h ps)"

section \<open>Repair\<close>

text \<open>The array has the capacity of its list; a write behind it is undefined. The slots from \<open>merged_count\<close>
  to the old count become NULL, the later ones keep what they hold.\<close>

definition repair_message_sequence ::
    "heap \<Rightarrow> ptr list \<Rightarrow> ptr option list \<Rightarrow> nat \<Rightarrow> (heap \<times> ptr option list \<times> nat \<times> nat) option" where
  "repair_message_sequence h new messages n =
     (if n = 0 then Some (h, messages, n, 0)
      else if n > length messages then None
      else do {
        (h, filtered, dropped) \<leftarrow> filter_pass h [] (take n messages);
        (h, merged, joined) \<leftarrow> merge_pass h [] filtered;
        msgs \<leftarrow> read_all h merged;
        let missing = missing_ids msgs;
            merged_count = count_with_stubs (length merged) (length missing);
            stubs = take (merged_count - length merged) (zip new missing)
        in if length merged + length stubs > length messages then None
           else Some (make_stubs h (map fst stubs) (map snd stubs),
                      take merged_count (map Some (merged @ map fst stubs))
                        @ replicate (n - merged_count) None
                        @ drop (max n merged_count) messages,
                      merged_count, dropped + joined + length stubs) })"

text \<open>The same without merging, and with the stubs written into the array of \<open>n\<close> filtered messages.\<close>

definition sanitize_api_messages ::
    "heap \<Rightarrow> ptr list \<Rightarrow> ptr option list \<Rightarrow> nat \<Rightarrow> (heap \<times> ptr option list \<times> nat \<times> nat) option" where
  "sanitize_api_messages h new messages n =
     (if n = 0 then Some (h, messages, n, 0)
      else if n > length messages then None
      else do {
        (h, filtered, dropped) \<leftarrow> filter_pass h [] (take n messages);
        msgs \<leftarrow> read_all h filtered;
        let missing = missing_ids msgs;
            filtered_count = count_with_stubs (length filtered) (length missing);
            stubs = take (filtered_count - length filtered) (zip new missing)
        in if length filtered + length stubs > n then None
           else Some (make_stubs h (map fst stubs) (map snd stubs),
                      take filtered_count (map Some (filtered @ map fst stubs))
                        @ replicate (n - filtered_count) None
                        @ drop n messages,
                      filtered_count, dropped + length stubs) })"

text \<open>The drop of thinking-only messages, then the repair when one was dropped. The loop compacts the
  array in place: it writes a message it keeps to \<open>write_idx\<close> and then clears the slot it came from,
  in that order.\<close>

fun drop_loop ::
    "nat list \<Rightarrow> heap \<Rightarrow> ptr option list \<Rightarrow> nat \<Rightarrow> nat \<Rightarrow> (heap \<times> ptr option list \<times> nat \<times> nat) option" where
  "drop_loop [] h messages write_idx dropped = Some (h, messages, write_idx, dropped)"
| "drop_loop (i # is) h messages write_idx dropped =
     (case messages ! i of
        None \<Rightarrow> drop_loop is h messages write_idx dropped
      | Some p \<Rightarrow> do {
          msg \<leftarrow> h p;
          if thinking_only msg then do {
            h \<leftarrow> release_again h p;
            drop_loop is h (messages[i := None]) write_idx (dropped + 1) }
          else drop_loop is h ((messages[write_idx := Some p])[i := None]) (write_idx + 1) dropped })"

definition drop_thinking_only_and_merge_users ::
    "heap \<Rightarrow> ptr list \<Rightarrow> ptr option list \<Rightarrow> nat \<Rightarrow> (heap \<times> ptr option list \<times> nat \<times> nat) option" where
  "drop_thinking_only_and_merge_users h new messages n =
     (if n = 0 then Some (h, messages, n, 0)
      else if n > length messages then None
      else do {
        (h, messages, write_idx, dropped) \<leftarrow> drop_loop [0..<n] h messages 0 0;
        let messages = take write_idx messages @ replicate (n - write_idx) None @ drop n messages
        in if dropped > 0
           then do {
             (h, messages, count, _) \<leftarrow> repair_message_sequence h new messages write_idx;
             Some (h, messages, count, dropped) }
           else Some (h, messages, write_idx, dropped) })"

section \<open>The flush cursor\<close>

definition flushed_prefix :: "ptr option list \<Rightarrow> nat \<Rightarrow> ptr list" where
  "flushed_prefix messages cursor = concat (map (\<lambda>p. case p of None \<Rightarrow> [] | Some q \<Rightarrow> [q]) (take cursor messages))"

definition repair_message_sequence_with_cursor ::
    "heap \<Rightarrow> ptr list \<Rightarrow> ptr option list \<Rightarrow> nat \<Rightarrow> nat \<Rightarrow> (heap \<times> ptr option list \<times> nat \<times> nat \<times> nat) option" where
  "repair_message_sequence_with_cursor h new messages n last_flushed =
     (if n = 0 then Some (h, messages, n, last_flushed, 0)
      else let cursor = (if last_flushed > n then n else last_flushed);
               flushed = flushed_prefix messages cursor
           in do {
             (h, messages, count, repairs) \<leftarrow> repair_message_sequence h new messages n;
             let new_cursor = length (filter (\<lambda>p. case p of None \<Rightarrow> False | Some q \<Rightarrow> q \<in> set flushed) (take count messages))
             in Some (h, messages, count,
                      if repairs > 0 \<and> flushed \<noteq> [] then new_cursor
                      else if repairs > 0 then (if last_flushed > count then count else last_flushed)
                      else last_flushed,
                      repairs) })"

section \<open>Arguments of tool calls\<close>

definition TOOL_CALL_ARGS_CORRUPTION_MARKER :: string where
  "TOOL_CALL_ARGS_CORRUPTION_MARKER =
     ''[hermes-agent: tool call arguments were corrupted in this session and ''
     @ ''have been dropped to keep the conversation alive. See issue #15236.]''"

definition args_valid :: "string \<Rightarrow> bool" where
  "args_valid args =
     (args \<noteq> [] \<and>
      (case dropWhile (\<lambda>c. c = CHR '' '' \<or> c = CHR 0x09 \<or> c = CHR 0x0A \<or> c = CHR 0x0D) args of
         [] \<Rightarrow> False | c # _ \<Rightarrow> c = CHR ''{'' \<or> c = CHR ''[''))"

text \<open>The fixed arguments, and the identifiers of the calls of a message whose arguments were not valid.\<close>

definition fix_call :: "tool_call \<Rightarrow> tool_call" where
  "fix_call tc = (if args_valid (tc_arguments tc) then tc else tc\<lparr>tc_arguments := ''{}''\<rparr>)"

definition corrupted_ids :: "message \<Rightarrow> string list" where
  "corrupted_ids msg =
     (if msg_role msg = MSG_ASSISTANT
      then map tc_id (filter (\<lambda>tc. \<not> args_valid (tc_arguments tc)) (take 64 (msg_tool_calls msg))) else [])"

definition fix_message :: "message \<Rightarrow> message" where
  "fix_message msg =
     (if msg_role msg = MSG_ASSISTANT
      then msg\<lparr>msg_tool_calls := map fix_call (take 64 (msg_tool_calls msg)) @ drop 64 (msg_tool_calls msg)\<rparr> else msg)"

definition is_result_of :: "string \<Rightarrow> message \<Rightarrow> bool" where
  "is_result_of i msg = (msg_role msg = MSG_TOOL \<and> i \<noteq> [] \<and> msg_tool_call_id msg = Some i)"

text \<open>The first pass: the calls that need a marker, each with whether a later message is its result.\<close>

fun mark_calls :: "message list \<Rightarrow> (string \<times> bool) list" where
  "mark_calls [] = []"
| "mark_calls (m # ms) = map (\<lambda>i. (i, list_ex (is_result_of i) ms)) (corrupted_ids m) @ mark_calls ms"

text \<open>The second pass on a message: the first of the marked calls it answers, which it marks as handled.\<close>

definition mark_result :: "message \<Rightarrow> (string \<times> bool) list \<Rightarrow> message \<times> (string \<times> bool) list" where
  "mark_result msg marks =
     (if msg_role msg = MSG_TOOL
      then (case msg_tool_call_id msg of
          None \<Rightarrow> (msg, marks)
        | Some i \<Rightarrow>
            if i = [] \<or> i \<notin> fst ` set marks then (msg, marks)
            else (msg\<lparr>msg_content := Some (case msg_content msg of
                      None \<Rightarrow> TOOL_CALL_ARGS_CORRUPTION_MARKER
                    | Some c \<Rightarrow> TOOL_CALL_ARGS_CORRUPTION_MARKER @ [CHR 0x0A] @ c)\<rparr>,
                  (let j = length (takeWhile (\<lambda>(k, _). k \<noteq> i) marks) in marks[j := (i, True)])))
      else (msg, marks))"

fun mark_results :: "message list \<Rightarrow> (string \<times> bool) list \<Rightarrow> message list \<times> (string \<times> bool) list" where
  "mark_results [] marks = ([], marks)"
| "mark_results (m # ms) marks =
     (let (m, marks) = mark_result m marks; (ms, marks) = mark_results ms marks in (m # ms, marks))"

definition corruption_result :: "string \<Rightarrow> message" where
  "corruption_result i = message_new_tool (Some i) (Some TOOL_CALL_ARGS_CORRUPTION_MARKER)"

text \<open>\<open>cap\<close> is the room of the caller's array; the list returned is what it holds.\<close>

definition sanitize_tool_call_arguments :: "nat \<Rightarrow> message list \<Rightarrow> (message list \<times> nat) option" where
  "sanitize_tool_call_arguments cap messages =
     (let repairs = length (concat (map corrupted_ids messages)) in
      if repairs = 0 then Some (messages, 0)
      else let marks = map (\<lambda>(i, b). (c_trunc 64 i, b)) (take 64 (mark_calls messages));
               (filtered, marks) = mark_results (map fix_message messages) marks;
               missing = map fst (filter (\<lambda>(i, handled). \<not> handled) marks);
               filtered = filtered @ map corruption_result (take (HERMES_MAX_MESSAGES - length filtered) missing)
           in if length filtered > cap then None else Some (filtered, repairs))"

section \<open>Pending guidance\<close>

text \<open>The last tool result among the last \<open>num_tool_msgs\<close> messages.\<close>

fun find_target :: "heap \<Rightarrow> ptr option list \<Rightarrow> ptr option option" where
  "find_target h [] = Some None"
| "find_target h (None # ps) = find_target h ps"
| "find_target h (Some p # ps) = do {
     m \<leftarrow> h p;
     if msg_role m = MSG_TOOL then Some (Some p) else find_target h ps }"

definition STEER_MARKER :: string where
  "STEER_MARKER = [CHR 0x0A, CHR 0x0A] @ ''User guidance: ''"

text \<open>The memory, what is pending then, and the number returned.\<close>

definition apply_pending_steer_to_tool_results ::
    "heap \<Rightarrow> ptr option list \<Rightarrow> nat \<Rightarrow> nat \<Rightarrow> string \<Rightarrow> (heap \<times> string \<times> nat) option" where
  "apply_pending_steer_to_tool_results h messages count num_tool_msgs pending_steer =
     (if count = 0 \<or> num_tool_msgs = 0 \<or> pending_steer = [] then Some (h, pending_steer, 0)
      else if count > length messages then None
      else do {
        target \<leftarrow> find_target h (rev (drop (count - num_tool_msgs) (take count messages)));
        (case target of
           None \<Rightarrow> Some (h, if length pending_steer + 2 \<le> 4096 then pending_steer else [], 0)
         | Some p \<Rightarrow> do {
             m \<leftarrow> h p;
             Some (h(p \<mapsto> m\<lparr>msg_content := Some (case msg_content m of
                       Some c \<Rightarrow> c @ STEER_MARKER @ pending_steer
                     | None \<Rightarrow> drop 2 STEER_MARKER @ pending_steer)\<rparr>),
                   [], length STEER_MARKER + length pending_steer) }) })"

end
