(* ===== verification/Context_Correct.thy ===== *)
theory Context_Correct
  imports Context
begin

text \<open>
  Correctness of the conversation: when an array holds a list of messages (\<open>ctx_holds\<close>), truncation and
  each strategy of eviction drop a list of messages that is told in advance and leave the others, in
  order and untouched (the interface \<open>evictor\<close>). Pushing, popping and the system message follow.
\<close>

section \<open>What a context holds\<close>

text \<open>The messages of a context are distinct live objects, one in each of its first slots.\<close>

definition ctx_holds :: "agent_context \<Rightarrow> ptr list \<Rightarrow> bool" where
  "ctx_holds st ps \<longleftrightarrow> message_count st = length ps \<and> length ps \<le> capacity st
     \<and> take (length ps) (slots st) = map Some ps \<and> distinct ps \<and> set ps \<subseteq> dom (mem st)"

definition role_at :: "heap \<Rightarrow> ptr \<Rightarrow> message_role" where
  "role_at h p = msg_role (the (h p))"

lemma ctx_holdsD:
  assumes "ctx_holds st ps"
  shows "message_count st = length ps" "length ps \<le> capacity st" "distinct ps" "set ps \<subseteq> dom (mem st)"
    "take (length ps) (slots st) = map Some ps"
  using assms by (simp_all add: ctx_holds_def)

lemma ctx_holds_nth: "ctx_holds st ps \<Longrightarrow> i < length ps \<Longrightarrow> slots st ! i = Some (ps ! i)"
  by (metis ctx_holdsD(5) nth_map nth_take)

lemma ctx_holds_live: "ctx_holds st ps \<Longrightarrow> p \<in> set ps \<Longrightarrow> mem st p = Some (the (mem st p))"
  using ctx_holdsD(4) by (metis domIff option.collapse subsetD)

lemma ctx_msg_holds: "ctx_holds st ps \<Longrightarrow> i < length ps \<Longrightarrow> ctx_msg st i = Some (the (mem st (ps ! i)))"
  using ctx_holds_live [of st ps "ps ! i"] ctx_holdsD(2) [of st ps] by (simp add: ctx_msg_def ctx_holds_nth)

lemma ctx_role_holds: "ctx_holds st ps \<Longrightarrow> i < length ps \<Longrightarrow> ctx_role st i = Some (role_at (mem st) (ps ! i))"
  by (simp add: ctx_role_def ctx_msg_holds role_at_def)

lemma those_map_Some: "(\<And>x. x \<in> set xs \<Longrightarrow> f x = Some (g x)) \<Longrightarrow> those (map f xs) = Some (map g xs)"
  by (induction xs) simp_all

lemma roles_from_holds:
  assumes "ctx_holds st ps"
  shows "roles_from st i = Some (map (role_at (mem st)) (drop i ps))"
proof -
  have "roles_from st i = Some (map (\<lambda>j. role_at (mem st) (ps ! j)) [i..<length ps])"
    unfolding roles_from_def ctx_holdsD(1) [OF assms]
    by (rule those_map_Some) (simp add: ctx_role_holds [OF assms])
  also have "map (\<lambda>j. role_at (mem st) (ps ! j)) [i..<length ps] = map (role_at (mem st)) (drop i ps)"
    by (rule nth_equalityI) simp_all
  finally show ?thesis .
qed

section \<open>Removing messages\<close>

lemma restrict_UNIV [simp]: "h |` UNIV = h"
  by (simp add: restrict_map_def)

lemma free_all_live:
  "distinct ps \<Longrightarrow> set ps \<subseteq> dom h \<Longrightarrow> free_all h (map Some ps) = Some (h |` (- set ps))"
proof (induction ps arbitrary: h)
  case (Cons p ps)
  then have "set ps \<subseteq> dom (h(p := None))" by auto
  moreover have "h(p := None) |` (- set ps) = h |` (- set (p # ps))"
    by (auto simp: restrict_map_def fun_eq_iff)
  ultimately show ?case using Cons by (auto simp: message_free_def split: option.split)
qed simp

lemma three_parts:
  assumes "i + k \<le> length ps"
  obtains a b c where "ps = a @ b @ c" "length a = i" "length b = k"
proof
  show "ps = take i ps @ take k (drop i ps) @ drop k (drop i ps)" by (simp only: append_take_drop_id)
  show "length (take i ps) = i" "length (take k (drop i ps)) = k" using assms by simp_all
qed

lemma ctx_holds_slots:
  assumes "ctx_holds st ps"
  obtains rest where "slots st = map Some ps @ rest"
  using ctx_holdsD(5) [OF assms] by (metis append_take_drop_id)

lemma ctx_holdsI:
  "slots st = map Some ps @ rest \<Longrightarrow> message_count st = length ps \<Longrightarrow> distinct ps \<Longrightarrow> set ps \<subseteq> dom (mem st)
    \<Longrightarrow> ctx_holds st ps"
  by (simp add: ctx_holds_def)

lemma remove_slots_holds:
  assumes "ctx_holds st ps" "i + k \<le> length ps"
  obtains st' where "remove_slots st i k = Some st'" "ctx_holds st' (take i ps @ drop (i + k) ps)"
    "mem st' = mem st |` (- set (take k (drop i ps)))"
proof -
  note h = ctx_holdsD [OF assms(1)]
  obtain rest where sl: "slots st = map Some ps @ rest" using ctx_holds_slots [OF assms(1)] .
  obtain a b c where ps: "ps = a @ b @ c" "length a = i" "length b = k" using three_parts [OF assms(2)] .
  define tl' where "tl' = drop (length a + length c) (slots st)"
  define st' where "st' = st\<lparr>slots := map Some (a @ c) @ tl', message_count := length (a @ c), mem := mem st |` (- set b)\<rparr>"
  have d: "distinct b" "set b \<subseteq> dom (mem st)" using h(3,4) ps(1) by auto
  have n: "message_count st = length a + length b + length c" using h(1) ps(1) by simp
  have "take k (drop i (slots st)) = map Some b" using ps(2,3) by (simp add: sl ps(1))
  moreover have "take (message_count st - i - k) (drop (i + k) (slots st)) = map Some c"
    using ps(2,3) n by (simp add: sl ps(1))
  moreover have "take i (slots st) = map Some a" using ps(2) by (simp add: sl ps(1))
  moreover have "drop (message_count st - k) (slots st) = tl'" using ps(3) n by (simp add: tl'_def)
  moreover have "i + k \<le> capacity st" using assms(2) h(2) by simp
  ultimately have "remove_slots st i k = Some st'"
    using ps(3) n by (simp add: remove_slots_def free_all_live [OF d] st'_def)
  moreover have "take i ps @ drop (i + k) ps = a @ c" "take k (drop i ps) = b" using ps(2,3) by (simp_all add: ps(1))
  moreover have "ctx_holds st' (a @ c)"
  proof (rule ctx_holdsI)
    show "slots st' = map Some (a @ c) @ tl'" "message_count st' = length (a @ c)" by (simp_all add: st'_def)
    show "distinct (a @ c)" using h(3) ps(1) by auto
    show "set (a @ c) \<subseteq> dom (mem st')" using h(3,4) ps(1) by (auto simp: st'_def)
  qed
  ultimately show ?thesis using that [of st'] by (simp add: st'_def)
qed

lemma filter_segment:
  assumes "distinct ps" "i + k \<le> length ps"
  shows "filter (\<lambda>p. p \<notin> set (take k (drop i ps))) ps = take i ps @ drop (i + k) ps"
proof -
  obtain a b c where ps: "ps = a @ b @ c" "length a = i" "length b = k" using three_parts [OF assms(2)] .
  have "take k (drop i ps) = b" "take i ps @ drop (i + k) ps = a @ c" using ps(2,3) by (simp_all add: ps(1))
  moreover have "filter (\<lambda>p. p \<notin> set b) a = a" "filter (\<lambda>p. p \<notin> set b) c = c"
    using assms(1) by (auto simp: ps(1) intro!: filter_True)
  ultimately show ?thesis by (simp add: ps(1))
qed

section \<open>Truncation\<close>

definition has_system :: "heap \<Rightarrow> ptr list \<Rightarrow> bool" where
  "has_system h ps \<longleftrightarrow> ps \<noteq> [] \<and> role_at h (ps ! 0) = MSG_SYSTEM"

text \<open>What truncation drops: the oldest messages, but not a leading system message, and then always
  one message more is kept.\<close>

definition truncated :: "heap \<Rightarrow> ptr list \<Rightarrow> nat \<Rightarrow> ptr list" where
  "truncated h ps max_messages =
     (if has_system h ps then take (min (length ps - max_messages) (length ps - 2)) (drop 1 ps)
      else take (length ps - max_messages) ps)"

lemma context_truncate_lemma:
  assumes "ctx_holds st ps" "0 < max_messages"
  shows "\<exists>st'. context_truncate st max_messages = Some st'
    \<and> ctx_holds st' (filter (\<lambda>p. p \<notin> set (truncated (mem st) ps max_messages)) ps)
    \<and> mem st' = mem st |` (- set (truncated (mem st) ps max_messages))"
proof (cases "length ps \<le> max_messages")
  case True
  then have "truncated (mem st) ps max_messages = []" by (simp add: truncated_def)
  then show ?thesis using True assms ctx_holdsD(1) [OF assms(1)] by (simp add: context_truncate_def)
next
  case False
  note h = ctx_holdsD [OF assms(1)]
  let ?sys = "has_system (mem st) ps"
  define i where "i = (if ?sys then 1 else 0 :: nat)"
  define k where "k = (if ?sys then min (length ps - max_messages) (length ps - 2) else length ps - max_messages)"
  have ne: "ps \<noteq> []" "2 \<le> length ps" using False assms(2) by auto
  have r: "ctx_role st 0 = Some (role_at (mem st) (ps ! 0))" using ctx_role_holds [OF assms(1)] ne by simp
  have gone: "truncated (mem st) ps max_messages = take k (drop i ps)" by (simp add: truncated_def k_def i_def)
  have ik: "i + k \<le> length ps" using ne(2) by (auto simp: i_def k_def min_def)
  obtain st' where st': "remove_slots st i k = Some st'" "ctx_holds st' (take i ps @ drop (i + k) ps)"
      "mem st' = mem st |` (- set (take k (drop i ps)))" using remove_slots_holds [OF assms(1) ik] .
  have "context_truncate st max_messages = (if k = 0 then Some st else remove_slots st i k)"
    using False ne r assms(2) by (auto simp: context_truncate_def h(1) has_system_def i_def k_def Let_def min_def)
  moreover have "ctx_holds st (take i ps @ drop (i + k) ps) \<and> mem st = mem st |` (- set (take k (drop i ps)))" if "k = 0"
    using that assms(1) by (simp add: restrict_map_def)
  ultimately show ?thesis
    unfolding gone filter_segment [OF h(3) ik] using st' by (cases "k = 0") auto
qed

section \<open>Eviction of tool results\<close>

definition first_tool :: "message_role list \<Rightarrow> nat \<Rightarrow> nat \<Rightarrow> bool" where
  "first_tool roles n i \<longleftrightarrow> i < n \<and>
     (if roles ! i = MSG_TOOL then \<forall>m<i. roles ! m \<noteq> MSG_TOOL else i = 0 \<and> (\<forall>m<n. roles ! m \<noteq> MSG_TOOL))"

lemma oldest_step_first:
  "first_tool roles n i \<Longrightarrow> first_tool roles (Suc n) (oldest_step roles n i)"
  by (cases "roles ! n = MSG_TOOL"; cases "roles ! i = MSG_TOOL") (auto simp: first_tool_def oldest_step_def less_Suc_eq)

lemma find_oldest_fold:
  "first_tool roles (Suc n) (fold (oldest_step roles) [1..<Suc n] 0)"
proof (induction n)
  case (Suc n)
  then show ?case using oldest_step_first [of roles "Suc n"] by simp
qed (simp add: first_tool_def)

text \<open>The messages in the order in which they go: tool results, then the others, each oldest first.\<close>

definition eviction_order :: "(ptr \<Rightarrow> message_role) \<Rightarrow> ptr list \<Rightarrow> ptr list" where
  "eviction_order R ps = filter (\<lambda>p. R p = MSG_TOOL) ps @ filter (\<lambda>p. R p \<noteq> MSG_TOOL) ps"

lemma first_in_order:
  assumes "i < length ps" "R (ps ! i) = MSG_TOOL" "\<forall>m<i. R (ps ! m) \<noteq> MSG_TOOL"
  shows "ps ! i = hd (eviction_order R ps)"
proof -
  have ps: "ps = take i ps @ ps ! i # drop (Suc i) ps" using assms(1) by (rule id_take_nth_drop)
  have "filter (\<lambda>p. R p = MSG_TOOL) (take i ps) = []"
    using assms by (auto simp: filter_empty_conv in_set_conv_nth)
  moreover have "filter (\<lambda>p. R p = MSG_TOOL) ps = filter (\<lambda>p. R p = MSG_TOOL) (take i ps @ ps ! i # drop (Suc i) ps)"
    by (rule arg_cong [OF ps])
  ultimately have "filter (\<lambda>p. R p = MSG_TOOL) ps = ps ! i # filter (\<lambda>p. R p = MSG_TOOL) (drop (Suc i) ps)"
    using assms(2) by simp
  then show ?thesis by (simp add: eviction_order_def)
qed

lemma find_oldest_first:
  assumes "ps \<noteq> []"
  shows "find_oldest (map R ps) < length ps" (is "?i < _")
    "ps ! find_oldest (map R ps) = hd (eviction_order R ps)"
proof -
  have "Suc (length ps - 1) = length (map R ps)" using assms by (cases ps) simp_all
  then have f: "first_tool (map R ps) (length ps) ?i"
    using find_oldest_fold [of "map R ps" "length ps - 1"] unfolding find_oldest_def by (simp only: length_map)
  then show i: "?i < length ps" by (simp add: first_tool_def)
  show "ps ! ?i = hd (eviction_order R ps)"
  proof (cases "R (ps ! ?i) = MSG_TOOL")
    case True
    then have "\<forall>m<?i. map R ps ! m \<noteq> MSG_TOOL" using f i unfolding first_tool_def by simp
    then have "\<forall>m<?i. R (ps ! m) \<noteq> MSG_TOOL" using i by simp
    then show ?thesis using first_in_order [OF i] True by blast
  next
    case False
    then have z: "?i = 0" "\<forall>m<length ps. map R ps ! m \<noteq> MSG_TOOL" using f i unfolding first_tool_def by simp_all
    then have "\<forall>p\<in>set ps. R p \<noteq> MSG_TOOL" by (auto simp: in_set_conv_nth)
    then have "eviction_order R ps = ps" by (simp add: eviction_order_def filter_empty_conv)
    then show ?thesis using z(1) assms by (simp add: hd_conv_nth)
  qed
qed

lemma eviction_order_filter: "eviction_order R (filter P ps) = filter P (eviction_order R ps)"
  by (simp add: eviction_order_def conj_commute)

lemma eviction_order_cong: "(\<And>p. p \<in> set ps \<Longrightarrow> R p = R' p) \<Longrightarrow> eviction_order R ps = eviction_order R' ps"
  by (simp add: eviction_order_def cong: filter_cong)

lemma set_eviction_order [simp]: "set (eviction_order R ps) = set ps"
  by (auto simp: eviction_order_def)

lemma distinct_eviction_order: "distinct ps \<Longrightarrow> distinct (eviction_order R ps)"
  by (auto simp: eviction_order_def)

lemma eviction_order_nonempty: "ps \<noteq> [] \<Longrightarrow> eviction_order R ps \<noteq> []"
  using set_eviction_order [of R ps] by (metis set_empty)

lemma role_at_restrict: "p \<in> A \<Longrightarrow> role_at (h |` A) p = role_at h p"
  by (simp add: role_at_def)

lemma filter_remove1:
  assumes "distinct (a @ p # b)"
  shows "filter (\<lambda>q. q \<noteq> p) (a @ p # b) = a @ b"
proof -
  have "filter (\<lambda>q. q \<noteq> p) a = a" "filter (\<lambda>q. q \<noteq> p) b = b" using assms by (auto intro!: filter_True)
  then show ?thesis by simp
qed

lemma length_filter_other: "distinct ps \<Longrightarrow> p \<in> set ps \<Longrightarrow> length ps = Suc (length (filter (\<lambda>q. q \<noteq> p) ps))"
proof -
  assume a: "distinct ps" "p \<in> set ps"
  then obtain x y where "ps = x @ p # y" by (meson split_list)
  then show ?thesis using a(1) filter_remove1 [of x p y] by simp
qed

lemma restrict_restrict_gone: "(h |` (- set [p])) |` (- set gone) = h |` (- set (p # gone))"
  by (auto simp: restrict_map_def fun_eq_iff)

text \<open>Removing one message.\<close>

lemma remove_one:
  assumes "ctx_holds st ps" "i < length ps"
  obtains st' where "remove_slots st i 1 = Some st'" "ctx_holds st' (filter (\<lambda>q. q \<noteq> ps ! i) ps)"
    "mem st' = mem st |` (- set [ps ! i])"
proof -
  have "i + 1 \<le> length ps" using assms(2) by simp
  then obtain st' where st': "remove_slots st i 1 = Some st'" "ctx_holds st' (take i ps @ drop (i + 1) ps)"
      "mem st' = mem st |` (- set (take 1 (drop i ps)))" using remove_slots_holds [OF assms(1)] by metis
  have "take 1 (drop i ps) = [ps ! i]" using assms(2) by (simp add: take_Suc_conv_app_nth [of 0, simplified])
  moreover have "filter (\<lambda>q. q \<noteq> ps ! i) ps = take i ps @ drop (i + 1) ps"
    using filter_remove1 [of "take i ps" "ps ! i" "drop (Suc i) ps"] id_take_nth_drop [OF assms(2)] ctx_holdsD(3) [OF assms(1)]
    by simp
  ultimately show ?thesis using that st' by simp
qed

lemma drop_filter_other:
  assumes "distinct ps" "i \<le> j" "j < length ps"
  shows "drop i (filter (\<lambda>q. q \<noteq> ps ! j) ps) = filter (\<lambda>q. q \<noteq> ps ! j) (drop i ps)"
    "take i (filter (\<lambda>q. q \<noteq> ps ! j) ps) = take i ps"
proof -
  have "ps ! j \<notin> set (take i ps)"
    using assms by (auto simp: in_set_conv_nth nth_eq_iff_index_eq)
  then have a: "filter (\<lambda>q. q \<noteq> ps ! j) (take i ps) = take i ps" by (auto intro!: filter_True)
  have "filter (\<lambda>q. q \<noteq> ps ! j) ps = take i ps @ filter (\<lambda>q. q \<noteq> ps ! j) (drop i ps)"
    by (metis a append_take_drop_id filter_append)
  then show "drop i (filter (\<lambda>q. q \<noteq> ps ! j) ps) = filter (\<lambda>q. q \<noteq> ps ! j) (drop i ps)"
    "take i (filter (\<lambda>q. q \<noteq> ps ! j) ps) = take i ps" using assms(2,3) by simp_all
qed

lemma evict_tools_holds:
  "ctx_holds st ps \<Longrightarrow> start + k \<le> length ps \<Longrightarrow> gone = take k (eviction_order (role_at (mem st)) (drop start ps)) \<Longrightarrow>
     \<exists>st'. evict_tools k start st = Some st' \<and> ctx_holds st' (filter (\<lambda>p. p \<notin> set gone) ps) \<and> mem st' = mem st |` (- set gone)"
proof (induction k arbitrary: st ps gone)
  case 0
  then show ?case by simp
next
  case (Suc k)
  let ?R = "role_at (mem st)" and ?tail = "drop start ps"
  have ne: "?tail \<noteq> []" using Suc(3) by simp
  let ?f = "find_oldest (map ?R ?tail)"
  have f: "?f < length ?tail" "?tail ! ?f = hd (eviction_order ?R ?tail)" using find_oldest_first [OF ne] by blast+
  define p where "p = hd (eviction_order ?R ?tail)"
  define rest where "rest = tl (eviction_order ?R ?tail)"
  have ord: "eviction_order ?R ?tail = p # rest" using eviction_order_nonempty [OF ne] by (simp add: p_def rest_def)
  have d: "distinct ps" "distinct ?tail" using ctx_holdsD(3) [OF Suc(2)] by simp_all
  have i: "start + ?f < length ps" "ps ! (start + ?f) = p" using f Suc(3) by (simp_all add: p_def)
  obtain st1 where st1: "remove_slots st (start + ?f) 1 = Some st1" "ctx_holds st1 (filter (\<lambda>q. q \<noteq> p) ps)"
      "mem st1 = mem st |` (- set [p])" using remove_one [OF Suc(2) i(1)] i(2) by metis
  have tail1: "drop start (filter (\<lambda>q. q \<noteq> p) ps) = filter (\<lambda>q. q \<noteq> p) ?tail"
    using drop_filter_other(1) [OF d(1) _ i(1), of start] i(2) by simp
  have "eviction_order (role_at (mem st1)) (filter (\<lambda>q. q \<noteq> p) ?tail) = eviction_order ?R (filter (\<lambda>q. q \<noteq> p) ?tail)"
    by (rule eviction_order_cong) (simp add: st1(3) role_at_restrict)
  also have "\<dots> = rest"
    using distinct_eviction_order [OF d(2), of ?R] by (auto simp: eviction_order_filter ord intro!: filter_True)
  finally have ord1: "eviction_order (role_at (mem st1)) (drop start (filter (\<lambda>q. q \<noteq> p) ps)) = rest" by (simp add: tail1)
  have len1: "start + k \<le> length (filter (\<lambda>q. q \<noteq> p) ps)"
    using length_filter_other [OF d(1), of p] i Suc(3) nth_mem [OF i(1)] by simp
  obtain st2 where st2: "evict_tools k start st1 = Some st2"
      "ctx_holds st2 (filter (\<lambda>q. q \<notin> set (take k rest)) (filter (\<lambda>q. q \<noteq> p) ps))"
      "mem st2 = mem st1 |` (- set (take k rest))"
    using Suc(1) [OF st1(2) len1 refl] ord1 by auto
  have gone: "gone = p # take k rest" using Suc(4) by (simp add: ord)
  have "evict_tools (Suc k) start st = Some st2"
    using st1(1) st2(1) by (simp add: roles_from_holds [OF Suc(2)])
  moreover have "filter (\<lambda>q. q \<notin> set (take k rest)) (filter (\<lambda>q. q \<noteq> p) ps) = filter (\<lambda>q. q \<notin> set gone) ps"
    by (simp add: gone conj_commute)
  moreover have "mem st2 = mem st |` (- set gone)"
    using st2(3) st1(3) restrict_restrict_gone [of "mem st" p "take k rest"] by (simp add: gone)
  ultimately show ?case using st2(2) by auto
qed

text \<open>What eviction drops, tool results first: at least two messages that are no tool results stay.\<close>

definition evicted :: "heap \<Rightarrow> ptr list \<Rightarrow> nat \<Rightarrow> ptr list" where
  "evicted h ps max_messages =
     (let tail = drop (if has_system h ps then 1 else 0) ps
      in take (min (length ps - max_messages) (length tail - min 2 (length (filter (\<lambda>p. role_at h p \<noteq> MSG_TOOL) tail))))
              (eviction_order (role_at h) tail))"

lemma limit_arith: "others \<le> (n :: nat) \<Longrightarrow> n - others + (if 2 < others then others - 2 else 0) = n - min 2 others"
  by auto

lemma context_evict_tools_lemma:
  assumes "ctx_holds st ps" "2 \<le> max_messages"
  shows "\<exists>st'. context_evict_smart st max_messages EVICT_OLDEST_TOOL_FIRST = Some st'
    \<and> ctx_holds st' (filter (\<lambda>p. p \<notin> set (evicted (mem st) ps max_messages)) ps)
    \<and> mem st' = mem st |` (- set (evicted (mem st) ps max_messages))"
proof (cases "length ps \<le> max_messages")
  case True
  then have "evicted (mem st) ps max_messages = []" by (simp add: evicted_def Let_def)
  then show ?thesis using True assms(1) ctx_holdsD(1) [OF assms(1)] by (simp add: context_evict_smart_def)
next
  case False
  define k where "k = (if has_system (mem st) ps then 1 else 0 :: nat)"
  define tail where "tail = drop k ps"
  define others where "others = length (filter (\<lambda>p. role_at (mem st) p \<noteq> MSG_TOOL) tail)"
  define n where "n = min (length ps - max_messages) (length tail - min 2 others)"
  have ne: "ps \<noteq> []" "k \<le> length ps" "k < max_messages" using False assms(2) by (auto simp: k_def)
  have r: "ctx_role st 0 = Some (role_at (mem st) (ps ! 0))" using ctx_role_holds [OF assms(1)] ne by simp
  have k: "(if role_at (mem st) (ps ! 0) = MSG_SYSTEM then 1 else 0) = k" using ne by (simp add: k_def has_system_def)
  have "others \<le> length tail" by (simp add: others_def)
  then have lim: "length tail - others + (if 2 < others then others - 2 else 0) = length tail - min 2 others" by (rule limit_arith)
  have "length (filter (\<lambda>r. r \<noteq> MSG_TOOL) (map (role_at (mem st)) tail)) = others" by (simp add: others_def filter_map comp_def)
  moreover have "message_count st - k = length tail" using ctx_holdsD(1) [OF assms(1)] by (simp add: tail_def)
  ultimately have "context_evict_smart st max_messages EVICT_OLDEST_TOOL_FIRST = evict_tools n k st"
    using False ne lim unfolding context_evict_smart_def r bind.bind_lunit Option.bind.simps k Let_def
      roles_from_holds [OF assms(1)] tail_def [symmetric]
    by (auto simp: size_diff_def ctx_holdsD(1) [OF assms(1)] n_def min_def)
  moreover have "evicted (mem st) ps max_messages = take n (eviction_order (role_at (mem st)) (drop k ps))"
    by (simp add: evicted_def Let_def n_def others_def tail_def k_def)
  moreover have "k + n \<le> length ps" using ne(2) by (simp add: n_def tail_def)
  ultimately show ?thesis using evict_tools_holds [OF assms(1), of k n] by simp
qed

section \<open>Eviction of turns\<close>

definition is_turn :: "heap \<Rightarrow> ptr \<Rightarrow> bool" where
  "is_turn h p \<longleftrightarrow> role_at h p = MSG_USER \<or> role_at h p = MSG_ASSISTANT"

lemma evict_users_holds:
  "ctx_holds st ps \<Longrightarrow> i \<le> length ps \<Longrightarrow> gone = take r (filter (is_turn (mem st)) (drop i ps)) \<Longrightarrow>
     \<exists>st'. evict_users r i st = Some st' \<and> ctx_holds st' (filter (\<lambda>p. p \<notin> set gone) ps) \<and> mem st' = mem st |` (- set gone)"
proof (induction r i st arbitrary: ps gone rule: evict_users.induct)
  case (1 r i st)
  note prems = 1(3-5)
  note cnt = ctx_holdsD(1) [OF prems(1)]
  show ?case
  proof (cases "i < length ps \<and> 0 < r")
    case False
    then have "gone = []" using prems(3) by auto
    moreover have "evict_users r i st = Some st"
      unfolding evict_users.simps [of r i st] using False cnt by (intro if_not_P) simp
    ultimately show ?thesis using prems(1) by simp
  next
    case True
    have rl: "ctx_role st i = Some (role_at (mem st) (ps ! i))" using ctx_role_holds [OF prems(1)] True by simp
    have dr: "drop i ps = ps ! i # drop (i + 1) ps" using True by (simp add: Cons_nth_drop_Suc)
    have d: "distinct ps" using ctx_holdsD(3) [OF prems(1)] .
    have g: "i < message_count st \<and> 0 < r" using True cnt by simp
    show ?thesis
    proof (cases "is_turn (mem st) (ps ! i)")
      case False
      then have gone: "gone = take r (filter (is_turn (mem st)) (drop (i + 1) ps))" using prems(3) by (simp add: dr)
      have nt: "\<not> (role_at (mem st) (ps ! i) = MSG_USER \<or> role_at (mem st) (ps ! i) = MSG_ASSISTANT)"
        using False by (simp add: is_turn_def)
      have "\<exists>st'. evict_users r (i + 1) st = Some st' \<and> ctx_holds st' (filter (\<lambda>p. p \<notin> set gone) ps) \<and> mem st' = mem st |` (- set gone)"
        using 1(2) [OF g rl nt prems(1) _ gone] True by simp
      then show ?thesis using False g rl by (simp add: evict_users.simps [of r i st] is_turn_def)
    next
      case turn: True
      obtain st1 where st1: "remove_slots st i 1 = Some st1" "ctx_holds st1 (filter (\<lambda>q. q \<noteq> ps ! i) ps)"
          "mem st1 = mem st |` (- set [ps ! i])" using remove_one [OF prems(1)] True by metis
      have tail1: "drop i (filter (\<lambda>q. q \<noteq> ps ! i) ps) = drop (i + 1) ps"
        using drop_filter_other(1) [OF d order_refl, of i] True d filter_remove1 [of "[]" "ps ! i" "drop (i + 1) ps"]
          distinct_drop [OF d, of i] by (simp add: dr)
      have "is_turn (mem st1) p = is_turn (mem st) p" if "p \<in> set (drop (i + 1) ps)" for p
      proof -
        have "p \<noteq> ps ! i" using that distinct_drop [OF d, of i] by (auto simp: dr)
        then show ?thesis by (simp add: is_turn_def st1(3) role_at_restrict)
      qed
      then have gone: "gone = ps ! i # take (r - 1) (filter (is_turn (mem st1)) (drop i (filter (\<lambda>q. q \<noteq> ps ! i) ps)))"
        using prems(3) turn True unfolding tail1 by (cases r) (simp_all add: dr cong: filter_cong)
      have "i \<le> length (filter (\<lambda>q. q \<noteq> ps ! i) ps)"
        using drop_filter_other(2) [OF d order_refl, of i] True by (metis length_take less_imp_le min.absorb2 nle_le take_all_iff)
      moreover have t: "role_at (mem st) (ps ! i) = MSG_USER \<or> role_at (mem st) (ps ! i) = MSG_ASSISTANT"
        using turn by (simp add: is_turn_def)
      moreover have tl: "tl gone = take (r - 1) (filter (is_turn (mem st1)) (drop i (filter (\<lambda>q. q \<noteq> ps ! i) ps)))"
        using gone by simp
      ultimately obtain st2 where st2: "evict_users (r - 1) i st1 = Some st2"
          "ctx_holds st2 (filter (\<lambda>p. p \<notin> set (tl gone)) (filter (\<lambda>q. q \<noteq> ps ! i) ps))"
          "mem st2 = mem st1 |` (- set (tl gone))"
        using 1(1) [OF g rl t st1(1) st1(2) _ tl] by blast
      have "evict_users r i st = Some st2"
        using turn g rl st1(1) st2(1) by (simp add: evict_users.simps [of r i st] is_turn_def)
      moreover have "filter (\<lambda>p. p \<notin> set (tl gone)) (filter (\<lambda>q. q \<noteq> ps ! i) ps) = filter (\<lambda>p. p \<notin> set gone) ps"
        by (subst (2) gone) (simp add: gone conj_commute)
      moreover have "mem st2 = mem st |` (- set gone)"
        using st2(3) st1(3) restrict_restrict_gone [of "mem st" "ps ! i" "tl gone"] gone by (metis list.sel(3))
      ultimately show ?thesis using st2(2) by auto
    qed
  qed
qed

text \<open>The three strategies on a limit the system message fits under.\<close>

lemma context_evict_start:
  assumes "ctx_holds st ps" "2 \<le> max_messages" "max_messages < length ps"
  defines "k \<equiv> (if has_system (mem st) ps then 1 else 0)"
  shows "context_evict_smart st max_messages EVICT_OLDEST_USER = evict_users (length ps - max_messages) k st"
    "context_evict_smart st max_messages EVICT_KEEP_RECENT_N = context_truncate st max_messages"
proof -
  have ne: "ps \<noteq> []" using assms(3) by auto
  have r: "ctx_role st 0 = Some (role_at (mem st) (ps ! 0))" using ctx_role_holds [OF assms(1)] ne by simp
  have k: "(if role_at (mem st) (ps ! 0) = MSG_SYSTEM then 1 else 0) = k" using ne by (simp add: k_def has_system_def)
  have "k < max_messages" using assms(2) by (simp add: k_def)
  then show "context_evict_smart st max_messages EVICT_OLDEST_USER = evict_users (length ps - max_messages) k st"
    "context_evict_smart st max_messages EVICT_KEEP_RECENT_N = context_truncate st max_messages"
    using assms(3) unfolding context_evict_smart_def r bind.bind_lunit Option.bind.simps k Let_def
    by (simp_all add: size_diff_def ctx_holdsD(1) [OF assms(1)])
qed

definition evicted_turns :: "heap \<Rightarrow> ptr list \<Rightarrow> nat \<Rightarrow> ptr list" where
  "evicted_turns h ps max_messages =
     take (length ps - max_messages) (filter (is_turn h) (drop (if has_system h ps then 1 else 0) ps))"

lemma context_evict_users_exact:
  assumes "ctx_holds st ps" "2 \<le> max_messages"
  shows "\<exists>st'. context_evict_smart st max_messages EVICT_OLDEST_USER = Some st'
    \<and> ctx_holds st' (filter (\<lambda>p. p \<notin> set (evicted_turns (mem st) ps max_messages)) ps)
    \<and> mem st' = mem st |` (- set (evicted_turns (mem st) ps max_messages))"
proof (cases "length ps \<le> max_messages")
  case True
  then show ?thesis using assms(1) ctx_holdsD(1) [OF assms(1)] by (simp add: context_evict_smart_def evicted_turns_def)
next
  case False
  then have le: "(if has_system (mem st) ps then 1 else 0) \<le> length ps" by auto
  show ?thesis
    using evict_users_holds [OF assms(1) le refl, of "length ps - max_messages"] False
      context_evict_start(1) [OF assms] by (simp add: evicted_turns_def)
qed

section \<open>Evictors\<close>

text \<open>The contract of all that shortens a context: what goes is told in advance, and the rest stays in
  order and untouched.\<close>

locale evictor =
  fixes evict :: "agent_context \<Rightarrow> agent_context option" and gone :: "heap \<Rightarrow> ptr list \<Rightarrow> ptr list"
  assumes exact: "ctx_holds st ps \<Longrightarrow> \<exists>st'. evict st = Some st' \<and> ctx_holds st' (filter (\<lambda>p. p \<notin> set (gone (mem st) ps)) ps)
      \<and> mem st' = mem st |` (- set (gone (mem st) ps))"
    and gone_inside: "set (gone h ps) \<subseteq> set ps"
begin

lemma survivor_unchanged:
  "ctx_holds st ps \<Longrightarrow> evict st = Some st' \<Longrightarrow> p \<notin> set (gone (mem st) ps) \<Longrightarrow> mem st' p = mem st p"
  using exact [of st ps] by auto

lemma others_untouched: "ctx_holds st ps \<Longrightarrow> evict st = Some st' \<Longrightarrow> p \<notin> set ps \<Longrightarrow> mem st' p = mem st p"
  using survivor_unchanged gone_inside by blast

lemma stays_good: "ctx_holds st ps \<Longrightarrow> evict st = Some st' \<Longrightarrow> \<exists>ps'. ctx_holds st' ps' \<and> set ps' \<subseteq> set ps"
  using exact [of st ps] by (metis (no_types, lifting) filter_is_subset option.inject)

lemma never_undefined: "ctx_holds st ps \<Longrightarrow> evict st \<noteq> None"
  using exact [of st ps] by auto

end

lemma set_take_filter_drop: "set (take n (filter P (drop k ps))) \<subseteq> set ps"
  by (meson dual_order.trans filter_is_subset set_drop_subset set_take_subset)

lemma truncated_inside: "set (truncated h ps n) \<subseteq> set ps"
  by (auto simp: truncated_def dest!: in_set_takeD in_set_dropD)

lemma evicted_inside: "set (evicted h ps n) \<subseteq> set ps"
  by (auto simp: evicted_def Let_def dest!: in_set_takeD dest: in_set_dropD split: if_splits)

lemma evicted_turns_inside: "set (evicted_turns h ps n) \<subseteq> set ps"
  unfolding evicted_turns_def by (rule set_take_filter_drop)

lemma truncate_holds:
  "ctx_holds st ps \<Longrightarrow> \<exists>st'. context_truncate st (n + 1) = Some st'
    \<and> ctx_holds st' (filter (\<lambda>p. p \<notin> set (truncated (mem st) ps (n + 1))) ps)
    \<and> mem st' = mem st |` (- set (truncated (mem st) ps (n + 1)))"
  by (rule context_truncate_lemma) simp_all

interpretation truncation: evictor "\<lambda>st. context_truncate st (n + 1)" "\<lambda>h ps. truncated h ps (n + 1)" for n
  by unfold_locales (rule truncate_holds, assumption, rule truncated_inside)

interpretation tool_eviction: evictor "\<lambda>st. context_evict_smart st (n + 2) EVICT_OLDEST_TOOL_FIRST"
    "\<lambda>h ps. evicted h ps (n + 2)" for n
  by unfold_locales (rule context_evict_tools_lemma, assumption, simp, rule evicted_inside)

interpretation turn_eviction: evictor "\<lambda>st. context_evict_smart st (n + 2) EVICT_OLDEST_USER"
    "\<lambda>h ps. evicted_turns h ps (n + 2)" for n
  by unfold_locales (rule context_evict_users_exact, assumption, simp, rule evicted_turns_inside)

text \<open>Truncation drops exactly the oldest messages above the limit, except a leading system message
  (and then it always keeps one message more); what stays is as it was, what goes is freed, and nothing
  else in memory changes.\<close>

theorem context_truncate_exact:
  assumes "ctx_holds st ps" "0 < max_messages"
  shows "\<exists>st'. context_truncate st max_messages = Some st'
    \<and> ctx_holds st' (filter (\<lambda>p. p \<notin> set (truncated (mem st) ps max_messages)) ps)
    \<and> mem st' = mem st |` (- set (truncated (mem st) ps max_messages))"
  using truncation.exact [OF assms(1), of "max_messages - 1"] assms(2) by simp

text \<open>C26. Eviction that prefers tool results, to a limit of at least 2, drops as many messages as are above
  the limit, the tool results first and each kind oldest first, but never a leading system message nor
  the last two messages behind it that are no tool results (one, when there is only one); what stays is
  in the same order and as it was, what goes is freed, and nothing else in memory changes.\<close>

theorem context_evict_tools_exact:
  assumes "ctx_holds st ps" "2 \<le> max_messages"
  shows "\<exists>st'. context_evict_smart st max_messages EVICT_OLDEST_TOOL_FIRST = Some st'
    \<and> ctx_holds st' (filter (\<lambda>p. p \<notin> set (evicted (mem st) ps max_messages)) ps)
    \<and> mem st' = mem st |` (- set (evicted (mem st) ps max_messages))"
proof -
  have "max_messages - 2 + 2 = max_messages" using assms(2) by simp
  then show ?thesis using tool_eviction.exact [OF assms(1), of "max_messages - 2"] by (simp only:)
qed

definition demo_context :: agent_context where
  "demo_context =
     \<lparr>slots = map Some [0, 1, 2, 3, 4] @ replicate 3 None, message_count = 5,
      mem = [0 \<mapsto> message_new MSG_SYSTEM (Some ''s''), 1 \<mapsto> message_new MSG_USER (Some ''a''),
             2 \<mapsto> message_new_tool (Some ''i'') (Some ''t''), 3 \<mapsto> message_new MSG_USER (Some ''b''),
             4 \<mapsto> message_new MSG_ASSISTANT (Some ''c'')]\<rparr>"

lemma demo_holds: "ctx_holds demo_context [0, 1, 2, 3, 4]"
  by (simp add: ctx_holds_def demo_context_def)

lemma demo_roles: "map (role_at (mem demo_context)) [0, 1, 2, 3, 4] = [MSG_SYSTEM, MSG_USER, MSG_TOOL, MSG_USER, MSG_ASSISTANT]"
  by (simp add: demo_context_def role_at_def message_new_def message_new_tool_def)

lemma context_truncate_exact_witness:
  "\<exists>st'. context_truncate demo_context 3 = Some st' \<and> ctx_holds st' [0, 3, 4] \<and> mem st' = mem demo_context |` (- {1, 2})"
  using context_truncate_exact [OF demo_holds, of 3] demo_roles
  by (simp add: truncated_def has_system_def)

text \<open>The tool result goes before the older user message; the last two others stay although the limit
  asks for three messages to go.\<close>

lemma context_evict_tools_exact_witness:
  "\<exists>st'. context_evict_smart demo_context 2 EVICT_OLDEST_TOOL_FIRST = Some st'
    \<and> ctx_holds st' [0, 3, 4] \<and> mem st' = mem demo_context |` (- {1, 2})"
proof -
  have "evicted (mem demo_context) [0, 1, 2, 3, 4] 2 = [2, 1]"
    using demo_roles by (simp add: evicted_def has_system_def eviction_order_def)
  then show ?thesis
    using context_evict_tools_exact [OF demo_holds, of 2] by (simp add: insert_commute)
qed

text \<open>The differences wrap when the limit does not exceed the system message: the target is then five,
  and a context of three messages loses all its turns to the second strategy.\<close>

definition short_context :: agent_context where
  "short_context =
     \<lparr>slots = map Some [0, 1, 2], message_count = 3,
      mem = [0 \<mapsto> message_new MSG_SYSTEM (Some ''s''), 1 \<mapsto> message_new MSG_USER (Some ''a''),
             2 \<mapsto> message_new MSG_ASSISTANT (Some ''b'')]\<rparr>"

lemma evict_wraps: "\<exists>st'. context_evict_smart short_context 1 EVICT_OLDEST_USER = Some st' \<and> ctx_holds st' [0]"
proof -
  have h: "ctx_holds short_context [0, 1, 2]" by (simp add: ctx_holds_def short_context_def)
  have r: "ctx_role short_context 0 = Some MSG_SYSTEM"
    by (simp add: ctx_role_def ctx_msg_def short_context_def message_new_def)
  have t: "filter (is_turn (mem short_context)) (drop 1 [0, 1, 2]) = [1, 2]"
    by (simp add: is_turn_def role_at_def short_context_def message_new_def)
  have "context_evict_smart short_context 1 EVICT_OLDEST_USER = evict_users (2 ^ 64 - 2) 1 short_context"
    using r by (simp add: context_evict_smart_def size_diff_def ctx_holdsD(1) [OF h])
  moreover have "take (2 ^ 64 - 2) [1, 2] = [1, 2 :: ptr]" by (rule take_all) simp
  ultimately show ?thesis using evict_users_holds [OF h, of 1 "[1, 2]" "2 ^ 64 - 2"] t by auto
qed

text \<open>A lone system message and the limit 0: \<open>message_count - 2\<close> wraps and the loop leaves the array.\<close>

lemma truncate_to_nothing_undefined:
  "context_truncate \<lparr>slots = [Some 0], message_count = 1, mem = [0 \<mapsto> message_new MSG_SYSTEM (Some ''s'')]\<rparr> 0 = None"
  by code_simp

section \<open>Pushing and popping\<close>

lemma ctx_holds_realloc:
  assumes "ctx_holds st ps" "length ps \<le> n"
  shows "ctx_holds (realloc_slots n st) ps" "capacity (realloc_slots n st) = n" "mem (realloc_slots n st) = mem st"
  using assms by (auto simp: ctx_holds_def realloc_slots_def min_def)

lemma ctx_holds_append:
  assumes "ctx_holds st ps" "length ps < capacity st" "p \<notin> set ps" "mem st p \<noteq> None"
  shows "ctx_holds (st\<lparr>slots := (slots st)[length ps := Some p], message_count := length ps + 1\<rparr>) (ps @ [p])"
proof -
  obtain rest where "slots st = map Some ps @ rest" using ctx_holds_slots [OF assms(1)] .
  moreover from this obtain r rest' where "rest = r # rest'" using assms(2) by (cases rest) auto
  ultimately show ?thesis
    using assms(3,4) ctx_holdsD(3,4) [OF assms(1)] by (intro ctx_holdsI [of _ _ rest']) (auto simp: list_update_append)
qed

text \<open>A pushed message becomes the last one, the array growing as needed, unless 4096 messages are held
  and the array is no longer than that: then the push writes behind the array.\<close>

theorem context_push_bounds:
  assumes "ctx_holds st ps" "p \<notin> set ps" "mem st p \<noteq> None"
  shows "if length ps < max (capacity st) HERMES_MAX_MESSAGES
    then \<exists>st'. context_push st p = Some st' \<and> ctx_holds st' (ps @ [p]) \<and> mem st' = mem st
    else context_push st p = None"
proof (cases "length ps < capacity st")
  case True
  then have "context_push st p = Some (st\<lparr>slots := (slots st)[length ps := Some p], message_count := length ps + 1\<rparr>)"
    using ctx_holdsD(1) [OF assms(1)] by (simp add: context_push_def Let_def)
  then show ?thesis using ctx_holds_append [OF assms(1) True assms(2,3)] True by simp
next
  case False
  then have full: "length ps = capacity st" using ctx_holdsD(2) [OF assms(1)] by simp
  define cap' where "cap' = min (if capacity st = 0 then 64 else capacity st * 2) HERMES_MAX_MESSAGES"
  define st1 where "st1 = realloc_slots cap' st"
  have cnt: "message_count st1 = length ps" "capacity st1 = cap'"
    using ctx_holdsD(1) [OF assms(1)] by (simp_all add: st1_def realloc_slots_def)
  have push: "context_push st p = (if length ps < cap' then Some (st1\<lparr>slots := (slots st1)[length ps := Some p], message_count := length ps + 1\<rparr>) else None)"
    using full cnt ctx_holdsD(1) [OF assms(1)] by (auto simp: context_push_def Let_def st1_def cap'_def min_def)
  have lt: "length ps < cap' \<longleftrightarrow> length ps < max (capacity st) HERMES_MAX_MESSAGES"
    by (auto simp: cap'_def full HERMES_MAX_MESSAGES_def)
  show ?thesis
  proof (cases "length ps < cap'")
    case T: True
    have h1: "ctx_holds st1 ps" "mem st1 = mem st"
      unfolding st1_def using ctx_holds_realloc [OF assms(1), of cap'] T by simp_all
    show ?thesis using ctx_holds_append [OF h1(1)] T cnt(2) assms(2,3) h1(2) push lt by simp
  qed (use push lt in simp)
qed

lemma context_push_bounds_witness:
  "\<exists>st'. context_push (demo_context\<lparr>mem := (mem demo_context)(7 \<mapsto> message_new MSG_USER (Some ''d''))\<rparr>) 7 = Some st'
    \<and> ctx_holds st' [0, 1, 2, 3, 4, 7]"
proof -
  let ?st = "demo_context\<lparr>mem := (mem demo_context)(7 \<mapsto> message_new MSG_USER (Some ''d''))\<rparr>"
  have h: "ctx_holds ?st [0, 1, 2, 3, 4]" by (simp add: ctx_holds_def demo_context_def)
  have "length [0, 1, 2, 3, 4 :: ptr] < max (capacity ?st) HERMES_MAX_MESSAGES" by (simp add: HERMES_MAX_MESSAGES_def)
  then show ?thesis using context_push_bounds [OF h, of 7] by auto
qed

lemma context_pop_last: "ctx_holds st (ps @ [p]) \<Longrightarrow> \<exists>st'. context_pop st = (Some p, st') \<and> ctx_holds st' ps \<and> mem st' = mem st"
proof -
  assume a: "ctx_holds st (ps @ [p])"
  obtain rest where "slots st = map Some (ps @ [p]) @ rest" using ctx_holds_slots [OF a] .
  then show ?thesis
    using ctx_holdsD [OF a] by (auto simp: context_pop_def ctx_holds_def nth_append)
qed

section \<open>The system message\<close>

lemma find_system_holds:
  assumes "ctx_holds st ps"
  shows "\<exists>r. find_system st i = Some r \<and>
    (case r of None \<Rightarrow> \<forall>j. i \<le> j \<and> j < length ps \<longrightarrow> role_at (mem st) (ps ! j) \<noteq> MSG_SYSTEM
     | Some j \<Rightarrow> i \<le> j \<and> j < length ps \<and> role_at (mem st) (ps ! j) = MSG_SYSTEM
         \<and> (\<forall>m. i \<le> m \<and> m < j \<longrightarrow> role_at (mem st) (ps ! m) \<noteq> MSG_SYSTEM))"
  using assms
proof (induction st i rule: find_system.induct)
  case (1 st i)
  note cnt = ctx_holdsD(1) [OF 1(2)]
  show ?case
  proof (cases "i < length ps")
    case True
    then have rl: "ctx_role st i = Some (role_at (mem st) (ps ! i))" using ctx_role_holds [OF 1(2)] by simp
    show ?thesis
    proof (cases "role_at (mem st) (ps ! i) = MSG_SYSTEM")
      case False
      then obtain r where r: "find_system st (i + 1) = Some r"
        "case r of None \<Rightarrow> \<forall>j. i + 1 \<le> j \<and> j < length ps \<longrightarrow> role_at (mem st) (ps ! j) \<noteq> MSG_SYSTEM
          | Some j \<Rightarrow> i + 1 \<le> j \<and> j < length ps \<and> role_at (mem st) (ps ! j) = MSG_SYSTEM
              \<and> (\<forall>m. i + 1 \<le> m \<and> m < j \<longrightarrow> role_at (mem st) (ps ! m) \<noteq> MSG_SYSTEM)"
        using 1(1) [OF _ rl _ 1(2)] True cnt by auto
      have step: "i \<le> m \<longleftrightarrow> m = i \<or> i + 1 \<le> m" for m by auto
      show ?thesis
        using r False True rl cnt by (intro exI [of _ r]) (auto simp: find_system.simps [of st i] step split: option.splits)
    qed (use True rl cnt in \<open>auto simp: find_system.simps [of st i]\<close>)
  qed (use cnt in \<open>auto simp: find_system.simps [of st i]\<close>)
qed

text \<open>What is set is got back, whether there was a system message or not.\<close>

lemma context_set_get_system:
  assumes "ctx_holds st ps" "mem st a = None"
  shows "\<exists>st' ps'. context_set_system st a content = Some st' \<and> ctx_holds st' ps'
    \<and> context_get_system st' = Some content"
proof -
  obtain r where r: "find_system st 0 = Some r" 
    "case r of None \<Rightarrow> \<forall>j. 0 \<le> j \<and> j < length ps \<longrightarrow> role_at (mem st) (ps ! j) \<noteq> MSG_SYSTEM
     | Some j \<Rightarrow> 0 \<le> j \<and> j < length ps \<and> role_at (mem st) (ps ! j) = MSG_SYSTEM
         \<and> (\<forall>m. 0 \<le> m \<and> m < j \<longrightarrow> role_at (mem st) (ps ! m) \<noteq> MSG_SYSTEM)"
    using find_system_holds [OF assms(1), of 0] by blast
  show ?thesis
  proof (cases r)
    case (Some i)
    then have i: "i < length ps" "role_at (mem st) (ps ! i) = MSG_SYSTEM"
      "\<forall>m<i. role_at (mem st) (ps ! m) \<noteq> MSG_SYSTEM" using r(2) by auto
    define st' where "st' = st\<lparr>mem := (mem st)(ps ! i \<mapsto> the (mem st (ps ! i))\<lparr>msg_content := content\<rparr>)\<rparr>"
    have set: "context_set_system st a content = Some st'"
      using Some r(1) i(1) ctx_holds_nth [OF assms(1) i(1)] ctx_holds_live [OF assms(1), of "ps ! i"]
      by (cases "mem st (ps ! i)") (simp_all add: context_set_system_def st'_def)
    have h: "ctx_holds st' ps" using assms(1) i(1) by (auto simp: ctx_holds_def st'_def)
    have role: "role_at (mem st') p = role_at (mem st) p" for p by (simp add: st'_def role_at_def)
    obtain r' where r': "find_system st' 0 = Some r'"
      "case r' of None \<Rightarrow> \<forall>j. 0 \<le> j \<and> j < length ps \<longrightarrow> role_at (mem st) (ps ! j) \<noteq> MSG_SYSTEM
       | Some j \<Rightarrow> 0 \<le> j \<and> j < length ps \<and> role_at (mem st) (ps ! j) = MSG_SYSTEM
           \<and> (\<forall>m. 0 \<le> m \<and> m < j \<longrightarrow> role_at (mem st) (ps ! m) \<noteq> MSG_SYSTEM)"
      using find_system_holds [OF h, of 0] unfolding role by blast
    then have "r' = Some i" using i by (cases r') (auto, metis linorder_neqE_nat)
    then show ?thesis using set h r'(1) ctx_msg_holds [OF h i(1)] by (auto simp: context_get_system_def st'_def)
  next
    case None
    define st1 where "st1 = (if length ps + 1 > capacity st then realloc_slots (if capacity st = 0 then 64 else capacity st * 2) st else st)"
    have le: "length ps \<le> capacity st" using ctx_holdsD(2) [OF assms(1)] .
    then have "length ps < (if capacity st = 0 then 64 else capacity st * 2)" by (cases "slots st") auto
    then have h1: "ctx_holds st1 ps" "mem st1 = mem st" "length ps < capacity st1"
      using ctx_holds_realloc [OF assms(1), of "if capacity st = 0 then 64 else capacity st * 2"] assms(1) le
      unfolding st1_def by (auto split: if_splits)
    define st' where "st' = st1\<lparr>slots := Some a # take (length ps) (slots st1) @ drop (length ps + 1) (slots st1),
       message_count := length ps + 1, mem := (mem st1)(a \<mapsto> message_new MSG_SYSTEM content)\<rparr>"
    have set: "context_set_system st a content = Some st'"
      using None r(1) h1(3) ctx_holdsD(1) [OF h1(1)] ctx_holdsD(1) [OF assms(1)]
      by (simp add: context_set_system_def Let_def st'_def st1_def)
    have "a \<notin> set ps" using assms(2) ctx_holdsD(4) [OF assms(1)] by auto
    then have h: "ctx_holds st' (a # ps)"
      using ctx_holdsD [OF h1(1)] by (intro ctx_holdsI [of _ _ "drop (length ps + 1) (slots st1)"]) (auto simp: st'_def)
    have m: "mem st' a = Some (message_new MSG_SYSTEM content)" by (simp add: st'_def)
    then have "ctx_role st' 0 = Some MSG_SYSTEM"
      using ctx_role_holds [OF h, of 0] by (simp add: role_at_def message_new_def)
    then have "find_system st' 0 = Some (Some 0)"
      using ctx_holdsD(1) [OF h] by (simp add: find_system.simps [of st' 0])
    then have "context_get_system st' = Some content"
      using ctx_msg_holds [OF h, of 0] m by (simp add: context_get_system_def message_new_def)
    then show ?thesis using set h by blast
  qed
qed

end
