(* ===== verification/MessageRepair_Correct.thy ===== *)
theory MessageRepair_Correct
  imports MessageRepair Context_Correct "HOL-Library.Sublist"
begin

text \<open>
  Correctness of the repair: the passes over the array of pointers compute functions on lists of messages
  (\<open>kept\<close>, \<open>joined\<close>, \<open>missing\<close>), and these give a conversation that providers accept, stated on its
  own (\<open>conversation_ok\<close>, \<open>repairs_to\<close>). Then the cursor, the two passes that are wrong as written, the
  arguments of calls, guidance, and an eviction followed by a repair.
\<close>

section \<open>Conversations\<close>

text \<open>A conversation is what an array holds, each message with its address. The memory is the
  conversation and a frame the operations do not know.\<close>

type_synonym conv = "(ptr \<times> message) list"

definition live_ptrs :: "ptr option list \<Rightarrow> ptr list" where
  "live_ptrs sl = concat (map (\<lambda>p. case p of None \<Rightarrow> [] | Some q \<Rightarrow> [q]) sl)"

definition separate :: "heap \<Rightarrow> conv \<Rightarrow> bool" where
  "separate f c \<longleftrightarrow> distinct (map fst c) \<and> dom f \<inter> fst ` set c = {}"

definition holds_conv :: "heap \<Rightarrow> heap \<Rightarrow> ptr option list \<Rightarrow> nat \<Rightarrow> conv \<Rightarrow> bool" where
  "holds_conv h f sl n c \<longleftrightarrow>
     n \<le> length sl \<and> live_ptrs (take n sl) = map fst c \<and> separate f c \<and> h = f ++ map_of c"

lemma live_ptrs_simps [simp]:
  "live_ptrs [] = []" "live_ptrs (None # sl) = live_ptrs sl" "live_ptrs (Some p # sl) = p # live_ptrs sl"
  "live_ptrs (map Some ps) = ps" "live_ptrs (sl @ sl') = live_ptrs sl @ live_ptrs sl'"
  by (simp_all add: live_ptrs_def comp_def)

lemma separate_simps:
  "separate f [] \<longleftrightarrow> True"
  "separate f ((p, m) # c) \<longleftrightarrow> p \<notin> dom f \<and> p \<notin> fst ` set c \<and> separate f c"
  by (auto simp: separate_def image_iff)

lemma separate_append:
  "separate f (c @ d) \<longleftrightarrow> separate f c \<and> separate f d \<and> fst ` set c \<inter> fst ` set d = {}"
  by (auto simp: separate_def)

lemma separate_mid: "separate f (c @ (p, m) # d) \<longleftrightarrow> p \<notin> dom f \<and> p \<notin> fst ` set (c @ d) \<and> separate f (c @ d)"
  by (auto simp: separate_append separate_simps)

lemma separate_cons_iff: "separate (f(p \<mapsto> m)) c \<longleftrightarrow> p \<notin> fst ` set c \<and> separate f c"
  by (auto simp: separate_def)

lemma map_of_absent: "p \<notin> fst ` set c \<Longrightarrow> map_of c p = None"
  by (simp add: map_of_eq_None_iff)

lemma heap_lookup:
  assumes "separate f (c @ (p, m) # d)"
  shows "(f ++ map_of (c @ (p, m) # d)) x = (if x = p then Some m else (f ++ map_of (c @ d)) x)"
proof -
  have "map_of c p = None" using assms by (intro map_of_absent) (auto simp: separate_mid)
  then show ?thesis by (auto simp: map_add_def split: option.split)
qed

lemma heap_mid_fresh:
  assumes "separate f (c @ (p, m) # d)"
  shows "(f ++ map_of (c @ d)) p = None"
  using assms map_of_absent [of p "c @ d"] by (auto simp: separate_mid map_add_def domIff split: option.split)

lemma separate_any: "separate f (c @ (p, m) # d) \<Longrightarrow> separate f (c @ (p, m') # d)"
  by (simp add: separate_mid)

lemma heap_read: "separate f (c @ (p, m) # d) \<Longrightarrow> (f ++ map_of (c @ (p, m) # d)) p = Some m"
  by (subst heap_lookup) simp_all

lemma heap_write:
  assumes "separate f (c @ (p, m) # d)"
  shows "(f ++ map_of (c @ (p, m) # d))(p \<mapsto> m') = f ++ map_of (c @ (p, m') # d)"
  unfolding fun_eq_iff fun_upd_apply heap_lookup [OF assms] heap_lookup [OF separate_any [OF assms]] by simp

lemma heap_free:
  assumes "separate f (c @ (p, m) # d)"
  shows "(f ++ map_of (c @ (p, m) # d))(p := None) = f ++ map_of (c @ d)"
  unfolding fun_eq_iff fun_upd_apply heap_lookup [OF assms] using heap_mid_fresh [OF assms] by metis

lemma map_add_upd_absent: "g p = None \<Longrightarrow> (f(p \<mapsto> m) ++ g) x = (if x = p then Some m else (f ++ g) x)"
  by (simp add: map_add_def split: option.split)

lemma heap_frame:
  assumes "separate f (c @ (p, m) # d)"
  shows "f ++ map_of (c @ (p, m) # d) = f(p \<mapsto> m) ++ map_of (c @ d)"
proof -
  have g: "map_of (c @ d) p = None" using assms by (intro map_of_absent) (simp add: separate_mid)
  show ?thesis unfolding fun_eq_iff heap_lookup [OF assms] map_add_upd_absent [of "map_of (c @ d)", OF g] by simp
qed

lemma release_mid:
  "separate f (c @ (p, m) # d) \<Longrightarrow> release (f ++ map_of (c @ (p, m) # d)) p = Some (f ++ map_of (c @ d))"
  unfolding release_def by (simp only: heap_read heap_free option.case)

lemmas heap_head =
  heap_read [where c = "[]", simplified] release_mid [where c = "[]", simplified] heap_frame [where c = "[]", simplified]

lemma read_all_conv: "separate f c \<Longrightarrow> read_all (f ++ map_of c) (map fst c) = Some (map snd c)"
proof -
  assume s: "separate f c"
  have "(f ++ map_of c) p = Some m" if "(p, m) \<in> set c" for p m
    using s that map_of_eq_Some_iff [of c p m] by (simp add: separate_def map_add_def)
  then show ?thesis
    unfolding read_all_def map_map by (intro those_map_Some) (auto simp: comp_def)
qed

section \<open>What the passes compute\<close>

fun kept :: "string list \<Rightarrow> conv \<Rightarrow> conv" where
  "kept known [] = []"
| "kept known ((p, m) # c) =
     (if \<not> known_role (msg_role m) then kept known c
      else if msg_role m = MSG_ASSISTANT then (p, m) # kept (call_ids m) c
      else if msg_role m = MSG_TOOL then (if answers known m then (p, m) # kept known c else kept known c)
      else (p, m) # kept (if msg_role m = MSG_USER then [] else known) c)"

fun join :: "conv \<Rightarrow> conv \<Rightarrow> conv" where
  "join acc [] = acc"
| "join acc ((p, m) # c) =
     (if acc \<noteq> [] \<and> msg_role m = MSG_USER \<and> msg_role (snd (last acc)) = MSG_USER
      then join (butlast acc @ [(fst (last acc), (snd (last acc))\<lparr>msg_content := merge_content (msg_content (snd (last acc))) (msg_content m)\<rparr>)]) c
      else join (acc @ [(p, m)]) c)"

lemma kept_subset: "subseq (kept known c) c"
  by (induction known c rule: kept.induct) auto

lemma kept_ptrs: "subseq (map fst (kept known c)) (map fst c)"
  by (rule subseq_map) (rule kept_subset)

lemma subseq_distinct: "subseq xs ys \<Longrightarrow> distinct ys \<Longrightarrow> distinct xs"
  by (auto simp: subseq_conv_nths)

lemma subseq_subset: "subseq xs ys \<Longrightarrow> set xs \<subseteq> set ys"
  by (auto simp: subseq_conv_nths dest: in_set_nthsD)

lemma separate_subseq:
  assumes "separate f c" "subseq (map fst d) (map fst c)"
  shows "separate f d"
  using assms(1) subseq_distinct [OF assms(2)] subseq_subset [OF assms(2)] by (auto simp: separate_def)

lemma filter_pass_step:
  assumes "H p = Some m" "release H p = Some G"
    "\<And>k. filter_pass H k sl = Some (K k, ps k, a k)" "\<And>k. filter_pass G k sl = Some (L k, ps k, a k)"
  shows "filter_pass H known (Some p # sl) =
    (if \<not> known_role (msg_role m) then Some (L known, ps known, a known + 1)
     else if msg_role m = MSG_ASSISTANT then Some (K (call_ids m), p # ps (call_ids m), a (call_ids m))
     else if msg_role m = MSG_TOOL
     then if answers known m then Some (K known, p # ps known, a known) else Some (L known, ps known, a known + 1)
     else let k = (if msg_role m = MSG_USER then [] else known) in Some (K k, p # ps k, a k))"
  using assms by (simp add: Let_def)

lemma filter_pass_conv:
  "separate f c \<Longrightarrow> live_ptrs sl = map fst c \<Longrightarrow>
     filter_pass (f ++ map_of c) known sl
       = Some (f ++ map_of (kept known c), map fst (kept known c), length c - length (kept known c))"
proof (induction sl arbitrary: f c known)
  case (Cons s sl)
  show ?case
  proof (cases s)
    case None
    then show ?thesis using Cons by simp
  next
    case (Some p)
    then obtain m c' where c: "c = (p, m) # c'" "live_ptrs sl = map fst c'" using Cons(3) by (cases c) auto
    have sep: "separate f ([] @ (p, m) # c')" using Cons(2) c(1) by simp
    have s': "separate f c'" "p \<notin> fst ` set c'" "separate (f(p \<mapsto> m)) c'"
      using Cons(2) by (auto simp: c(1) separate_simps separate_cons_iff)
    have le: "length (kept k c') \<le> length c'" for k using kept_subset by (rule list_emb_length)
    have keep: "filter_pass (f ++ map_of c) k sl
        = Some (f ++ map_of ((p, m) # kept k c'), map fst (kept k c'), length c' - length (kept k c'))" for k
    proof -
      have sub: "subseq (map fst ((p, m) # kept k c')) (map fst c)" using kept_ptrs by (simp add: c(1))
      then have "separate f ([] @ (p, m) # kept k c')" using separate_subseq [OF Cons(2) sub] by simp
      from heap_frame [OF this] heap_frame [OF sep] show ?thesis
        using Cons(1) [OF s'(3) c(2), of k] by (simp only: c(1) append_Nil)
    qed
    have gone: "filter_pass (f ++ map_of c') k sl
        = Some (f ++ map_of (kept k c'), map fst (kept k c'), length c' - length (kept k c'))" for k
      by (rule Cons(1) [OF s'(1) c(2)])
    have step: "filter_pass (f ++ map_of c) known (Some p # sl) =
      (if \<not> known_role (msg_role m)
       then Some (f ++ map_of (kept known c'), map fst (kept known c'), length c' - length (kept known c') + 1)
       else if msg_role m = MSG_ASSISTANT
       then Some (f ++ map_of ((p, m) # kept (call_ids m) c'), p # map fst (kept (call_ids m) c'), length c' - length (kept (call_ids m) c'))
       else if msg_role m = MSG_TOOL
       then if answers known m
            then Some (f ++ map_of ((p, m) # kept known c'), p # map fst (kept known c'), length c' - length (kept known c'))
            else Some (f ++ map_of (kept known c'), map fst (kept known c'), length c' - length (kept known c') + 1)
       else let k = (if msg_role m = MSG_USER then [] else known)
            in Some (f ++ map_of ((p, m) # kept k c'), p # map fst (kept k c'), length c' - length (kept k c')))"
      by (rule filter_pass_step [where G = "f ++ map_of c'"])
         (use heap_read [OF sep] release_mid [OF sep] keep gone in \<open>simp_all only: c(1) append_Nil\<close>)
    show ?thesis
      unfolding Some step using le by (simp only: c(1) kept.simps Let_def split: if_split) (simp add: Suc_diff_le del: map_of.simps map_of_Cons_code)
  qed
qed simp

declare map_of.simps [simp del]

lemma map_of_Nil' [simp]: "map_of [] = Map.empty"
  by (simp add: map_of.simps)

section \<open>Merging\<close>

definition merged_with :: "message \<Rightarrow> message \<Rightarrow> message" where
  "merged_with prev msg = prev\<lparr>msg_content := merge_content (msg_content prev) (msg_content msg)\<rparr>"

lemma merged_with_fields [simp]:
  "msg_role (merged_with a m) = msg_role a" "msg_tool_calls (merged_with a m) = msg_tool_calls a"
  "msg_tool_call_id (merged_with a m) = msg_tool_call_id a"
  by (simp_all add: merged_with_def)

lemma join_snoc:
  "join (acc @ [(q, a)]) ((p, m) # c) =
     (if msg_role m = MSG_USER \<and> msg_role a = MSG_USER then join (acc @ [(q, merged_with a m)]) c
      else join (acc @ [(q, a)] @ [(p, m)]) c)"
  by (simp add: merged_with_def)

lemma join_first: "join [] ((p, m) # c) = join [(p, m)] c"
  by simp

declare join.simps(2) [simp del]

lemma length_join: "length (join acc c) \<le> length acc + length c"
proof (induction acc c rule: join.induct)
  case (2 acc p m c)
  then show ?case by (cases acc rule: rev_cases) (auto simp: join_first join_snoc merged_with_def)
qed simp

lemma merge_step_keep:
  assumes "H p = Some m" "acc = [] \<or> (H (last acc) = Some a \<and> \<not> (msg_role m = MSG_USER \<and> msg_role a = MSG_USER))"
  shows "merge_pass H acc (p # ps) = merge_pass H (acc @ [p]) ps"
  using assms by (cases "msg_role m") auto

lemma merge_step_join:
  assumes "H p = Some m" "H q = Some a" "msg_role m = MSG_USER" "msg_role a = MSG_USER"
    "release (H(q \<mapsto> merged_with a m)) p = Some G" "merge_pass G (acc @ [q]) ps = Some (H', r, k)"
  shows "merge_pass H (acc @ [q]) (p # ps) = Some (H', r, k + 1)"
  using assms by (simp add: merged_with_def)

lemma merge_pass_conv:
  "separate f (acc @ c) \<Longrightarrow>
     merge_pass (f ++ map_of (acc @ c)) (map fst acc) (map fst c)
       = Some (f ++ map_of (join acc c), map fst (join acc c), length acc + length c - length (join acc c))"
proof (induction c arbitrary: acc)
  case (Cons pm c)
  obtain p m where pm: "pm = (p, m)" by force
  define H where "H = f ++ map_of (acc @ (p, m) # c)"
  have sep: "separate f (acc @ (p, m) # c)" using Cons(2) pm by simp
  have Hp: "H p = Some m" unfolding H_def using sep by (rule heap_read)
  have keep: "merge_pass H (map fst acc) (p # map fst c)
      = Some (f ++ map_of (join (acc @ [(p, m)]) c), map fst (join (acc @ [(p, m)]) c),
              length acc + length (pm # c) - length (join (acc @ [(p, m)]) c))"
    if "acc = [] \<or> H (last (map fst acc)) = Some a \<and> \<not> (msg_role m = MSG_USER \<and> msg_role a = MSG_USER)" for a
    using Cons(1) [of "acc @ [(p, m)]"] sep merge_step_keep [of H p m "map fst acc" a "map fst c"] Hp that
    by (auto simp: H_def)
  show ?case
  proof (cases acc rule: rev_cases)
    case Nil
    then show ?thesis using keep by (simp add: pm H_def join_first)
  next
    case (snoc acc' qa)
    obtain q a where qa: "qa = (q, a)" by force
    have sepq: "separate f (acc' @ (q, a) # (p, m) # c)" using sep by (simp add: snoc qa)
    have Hq: "H q = Some a" unfolding H_def snoc qa using heap_read [OF sepq] by simp
    show ?thesis
    proof (cases "msg_role m = MSG_USER \<and> msg_role a = MSG_USER")
      case False
      have l: "H (last (map fst acc)) = Some a" using Hq by (simp add: snoc qa)
      have e: "join acc ((p, m) # c) = join (acc @ [(p, m)]) c"
        unfolding snoc qa join_snoc if_not_P [OF False] by simp
      show ?thesis
        unfolding pm H_def [symmetric] list.map fst_conv e using keep [of a] l False by (simp add: pm)
    next
      case True
      let ?acc = "acc' @ [(q, merged_with a m)]"
      have sepm: "separate f (?acc @ (p, m) # c)" using separate_any [OF sepq] by simp
      have w: "H(q \<mapsto> merged_with a m) = f ++ map_of (?acc @ (p, m) # c)"
        using heap_write [OF sepq, of "merged_with a m"] by (simp add: H_def snoc qa)
      have r: "release (H(q \<mapsto> merged_with a m)) p = Some (f ++ map_of (?acc @ c))"
        unfolding w using sepm by (rule release_mid)
      have "separate f (?acc @ c)" using sepm by (simp add: separate_mid)
      from Cons(1) [OF this] have ih: "merge_pass (f ++ map_of (?acc @ c)) (map fst acc' @ [q]) (map fst c)
          = Some (f ++ map_of (join ?acc c), map fst (join ?acc c), length acc + length c - length (join ?acc c))"
        by (simp add: snoc)
      have "merge_pass H (map fst acc' @ [q]) (p # map fst c)
          = Some (f ++ map_of (join ?acc c), map fst (join ?acc c), length acc + length c - length (join ?acc c) + 1)"
        by (rule merge_step_join [OF Hp Hq _ _ r ih]) (use True in simp_all)
      then show ?thesis
        using True length_join [of ?acc c] by (simp add: pm H_def snoc qa join_snoc Suc_diff_le)
    qed
  qed
qed simp

section \<open>Stubs\<close>

lemma make_stubs_conv:
  "length new = length ids \<Longrightarrow> distinct new \<Longrightarrow> set new \<inter> (dom f \<union> fst ` set c) = {} \<Longrightarrow> separate f c \<Longrightarrow>
     make_stubs (f ++ map_of c) new ids = f ++ map_of (c @ zip new (map stub ids)) \<and>
     separate f (c @ zip new (map stub ids))"
proof (induction new ids arbitrary: c rule: list_induct2)
  case Nil
  then show ?case by (simp add: make_stubs_def)
next
  case (Cons a new i ids)
  have s: "separate f (c @ [(a, stub i)])" using Cons(4,5) by (auto simp: separate_mid separate_append separate_simps)
  have "set new \<inter> (dom f \<union> fst ` set (c @ [(a, stub i)])) = {}" using Cons(3,4) by auto
  then have ih: "make_stubs (f ++ map_of (c @ [(a, stub i)])) new ids = f ++ map_of ((c @ [(a, stub i)]) @ zip new (map stub ids)) \<and>
      separate f ((c @ [(a, stub i)]) @ zip new (map stub ids))"
    using Cons(2) [of "c @ [(a, stub i)]"] Cons(3) s by simp
  have "(f ++ map_of c)(a \<mapsto> stub i) = f ++ map_of (c @ [(a, stub i)])"
  proof -
    have "(f ++ map_of (c @ (a, stub i) # [])) x = (if x = a then Some (stub i) else (f ++ map_of (c @ [])) x)" for x
      using s by (intro heap_lookup)
    then show ?thesis by (intro ext) simp
  qed
  then have "make_stubs (f ++ map_of c) (a # new) (i # ids) = make_stubs (f ++ map_of (c @ [(a, stub i)])) new ids"
    by (simp add: make_stubs_def)
  then show ?case using ih by simp
qed

section \<open>The repaired conversation\<close>

definition joined :: "conv \<Rightarrow> conv" where
  "joined c = join [] (kept [] c)"

definition missing :: "conv \<Rightarrow> string list" where
  "missing c = missing_ids (map snd (joined c))"

definition repaired :: "ptr list \<Rightarrow> conv \<Rightarrow> conv" where
  "repaired new c = joined c @ zip new (map stub (missing c))"

text \<open>The addresses \<open>malloc\<close> gives: one for each stub, different from each other and from what is live when
  they are given.\<close>

definition fresh_for :: "ptr list \<Rightarrow> heap \<Rightarrow> conv \<Rightarrow> string list \<Rightarrow> bool" where
  "fresh_for new f c ids \<longleftrightarrow> length new = length ids \<and> distinct new \<and> set new \<inter> (dom f \<union> fst ` set c) = {}"

lemma join_ptrs: "subseq (map fst (join acc c)) (map fst acc @ map fst c)"
proof (induction acc c rule: join.induct)
  case (2 acc p m c)
  show ?case
  proof (cases acc rule: rev_cases)
    case Nil
    then show ?thesis using 2(2) by (simp add: join_first)
  next
    case (snoc acc' qa)
    obtain q a where qa: "qa = (q, a)" by force
    show ?thesis
    proof (cases "msg_role m = MSG_USER \<and> msg_role a = MSG_USER")
      case True
      have "subseq (map fst (join (acc' @ [(q, merged_with a m)]) c)) (map fst (acc' @ [(q, a)]) @ map fst c)"
        using 2(1) True by (simp add: snoc qa merged_with_def)
      moreover have "subseq (map fst (acc' @ [(q, a)]) @ map fst c) (map fst (acc' @ [(q, a)]) @ p # map fst c)"
        by (intro list_emb_append_mono list_emb_Cons subseq_order.order_refl)
      ultimately show ?thesis using True by (simp add: snoc qa join_snoc)
    next
      case False
      then show ?thesis using 2(2) by (auto simp: snoc qa join_snoc)
    qed
  qed
qed simp

lemma joined_ptrs: "subseq (map fst (joined c)) (map fst c)"
  using join_ptrs [of "[]" "kept [] c"] kept_ptrs [of "[]" c] unfolding joined_def
  by (metis append_Nil list.map(1) subseq_order.order_trans)

lemma joined_separate: "separate f c \<Longrightarrow> separate f (joined c)"
  using separate_subseq [OF _ joined_ptrs] .

lemma count_with_stubs_small: "a + b \<le> HERMES_MAX_MESSAGES \<Longrightarrow> count_with_stubs a b = a + b"
  by (simp add: count_with_stubs_def Let_def)

text \<open>The whole repair on an array that has room: the conversation becomes the repaired one, and the rest of
  the memory is the frame as before.\<close>

lemma repair_lemma:
  assumes "holds_conv h f sl n c" "fresh_for new f (joined c) (missing c)"
    "length (repaired new c) \<le> length sl" "length (repaired new c) \<le> HERMES_MAX_MESSAGES"
  shows "\<exists>sl' repairs. repair_message_sequence h new sl n
      = Some (f ++ map_of (repaired new c), sl', length (repaired new c), repairs)
    \<and> holds_conv (f ++ map_of (repaired new c)) f sl' (length (repaired new c)) (repaired new c)
    \<and> take (length (repaired new c)) sl' = map Some (map fst (repaired new c)) \<and> length sl' = length sl
    \<and> repairs = length c - length (joined c) + length (missing c)"
proof (cases "n = 0")
  case True
  then have c: "c = []" using assms(1) by (auto simp: holds_conv_def)
  then have "repaired new c = []" by (simp add: repaired_def joined_def missing_def missing_ids_def collect_ids_def)
  then show ?thesis
    using True c assms(1) by (simp add: repair_message_sequence_def holds_conv_def joined_def missing_def missing_ids_def collect_ids_def)
next
  case False
  have a: "n \<le> length sl" "live_ptrs (take n sl) = map fst c" "separate f c" "h = f ++ map_of c"
    using assms(1) by (simp_all add: holds_conv_def)
  let ?k = "kept [] c" and ?j = "joined c" and ?m = "missing c" and ?r = "repaired new c"
  have fp: "filter_pass h [] (take n sl) = Some (f ++ map_of ?k, map fst ?k, length c - length ?k)"
    unfolding a(4) using a(3,2) by (rule filter_pass_conv)
  have sk: "separate f ([] @ ?k)" using separate_subseq [OF a(3) kept_ptrs] by simp
  have mp: "merge_pass (f ++ map_of ?k) [] (map fst ?k) = Some (f ++ map_of ?j, map fst ?j, length ?k - length ?j)"
    using merge_pass_conv [OF sk] by (simp add: joined_def)
  have sj: "separate f ?j" using a(3) by (rule joined_separate)
  have ra: "read_all (f ++ map_of ?j) (map fst ?j) = Some (map snd ?j)" using sj by (rule read_all_conv)
  have new: "length new = length ?m" "distinct new" "set new \<inter> (dom f \<union> fst ` set ?j) = {}"
    using assms(2) by (simp_all add: fresh_for_def)
  have st: "make_stubs (f ++ map_of ?j) new ?m = f ++ map_of ?r" "separate f ?r"
    using make_stubs_conv [OF new sj] by (simp_all add: repaired_def)
  have len: "length ?r = length ?j + length ?m" using new(1) by (simp add: repaired_def)
  have cnt: "count_with_stubs (length ?j) (length ?m) = length ?r"
    using assms(4) len by (simp add: count_with_stubs_small)
  have z: "map fst (zip new ?m) = new" "map snd (zip new ?m) = ?m" "length (zip new ?m) = length ?m"
    "map (Some \<circ> fst) (zip new ?m) = map Some new" "take (length ?r - length ?j) (zip new ?m) = zip new ?m"
    using new(1) len map_map [of Some fst "zip new ?m"] by simp_all
  define sl' where "sl' = map Some (map fst ?r) @ replicate (n - length ?r) None @ drop (max n (length ?r)) sl"
  have ptrs: "map fst ?r = map fst ?j @ new" using new(1) by (simp add: repaired_def)
  have le: "length ?j \<le> length ?k" "length ?k \<le> length c"
    using length_join [of "[]" ?k] kept_subset [of "[]" c] by (simp_all add: joined_def list_emb_length)
  have "repair_message_sequence h new sl n = Some (f ++ map_of ?r, sl', length ?r, (length c - length ?k) + (length ?k - length ?j) + length ?m)"
    using False a(1) assms(3) len z st(1) ptrs new(1)
    by (simp add: repair_message_sequence_def fp mp ra missing_def [symmetric] Let_def cnt sl'_def)
  moreover have "length sl' = length sl" using a(1) assms(3) by (simp add: sl'_def)
  moreover have t: "take (length ?r) sl' = map Some (map fst ?r)" by (simp add: sl'_def)
  moreover have "holds_conv (f ++ map_of ?r) f sl' (length ?r) ?r"
    using assms(3) st(2) t calculation(2) live_ptrs_simps(4) [of "map fst ?r"] by (simp add: holds_conv_def)
  ultimately show ?thesis using le by auto
qed

section \<open>A consistent conversation\<close>

text \<open>What the types of C guarantee of a message: at most 64 calls, identifiers that fit their arrays.\<close>

definition typed_message :: "message \<Rightarrow> bool" where
  "typed_message m \<longleftrightarrow> length (msg_tool_calls m) \<le> 64 \<and> list_all (\<lambda>tc. length (tc_id tc) < 64) (msg_tool_calls m)"

definition not_both_user :: "message \<Rightarrow> message \<Rightarrow> bool" where
  "not_both_user a b \<longleftrightarrow> \<not> (msg_role a = MSG_USER \<and> msg_role b = MSG_USER)"

text \<open>The identifiers of the calls of a message and of a conversation, and those that have a result.\<close>

definition calls_of :: "message \<Rightarrow> string list" where
  "calls_of m = (if msg_role m = MSG_ASSISTANT then filter (\<lambda>i. i \<noteq> []) (map tc_id (msg_tool_calls m)) else [])"

definition all_calls :: "message list \<Rightarrow> string set" where
  "all_calls ms = (\<Union>m \<in> set ms. set (calls_of m))"

definition answered :: "message list \<Rightarrow> string set" where
  "answered ms = {i. \<exists>m \<in> set ms. msg_role m = MSG_TOOL \<and> msg_tool_call_id m = Some i}"

text \<open>Every result comes after the assistant message with its call.\<close>

fun results_follow :: "string set \<Rightarrow> message list \<Rightarrow> bool" where
  "results_follow seen [] \<longleftrightarrow> True"
| "results_follow seen (m # ms) \<longleftrightarrow>
     (msg_role m = MSG_TOOL \<longrightarrow> (\<exists>i \<in> seen. msg_tool_call_id m = Some i)) \<and> results_follow (seen \<union> set (calls_of m)) ms"

text \<open>The results that are in place: those of a call of the last assistant message, with no user message
  in between.\<close>

fun results_in_place :: "string set \<Rightarrow> message list \<Rightarrow> message list" where
  "results_in_place calls [] = []"
| "results_in_place calls (m # ms) =
     (if msg_role m = MSG_TOOL
      then (if \<exists>i \<in> calls. msg_tool_call_id m = Some i then m # results_in_place calls ms else results_in_place calls ms)
      else results_in_place (if msg_role m = MSG_ASSISTANT then set (calls_of m) else if msg_role m = MSG_USER then {} else calls) ms)"

text \<open>Known roles only, no two user messages in a row, every result after its call, and every call with a
  result (as long as there are at most 64 different ones).\<close>

definition conversation_ok :: "message list \<Rightarrow> bool" where
  "conversation_ok ms \<longleftrightarrow>
     (\<forall>m \<in> set ms. msg_role m \<in> {MSG_SYSTEM, MSG_USER, MSG_ASSISTANT, MSG_TOOL}) \<and> successively not_both_user ms
     \<and> results_follow {} ms \<and> (card (all_calls ms) \<le> 64 \<longrightarrow> all_calls ms \<subseteq> answered ms)"

definition steady :: "message \<Rightarrow> bool" where
  "steady m \<longleftrightarrow> msg_role m = MSG_SYSTEM \<or> msg_role m = MSG_ASSISTANT"

definition text_of :: "message \<Rightarrow> string" where
  "text_of m = (case msg_content m of None \<Rightarrow> [] | Some s \<Rightarrow> s)"

definition user_text :: "message list \<Rightarrow> string" where
  "user_text ms = concat (map text_of (filter (\<lambda>m. msg_role m = MSG_USER) ms))"

lemma user_text_simps [simp]:
  "user_text [] = []" "user_text (m # ms) = (if msg_role m = MSG_USER then text_of m else []) @ user_text ms"
  "user_text (ms @ ms') = user_text ms @ user_text ms'"
  by (simp_all add: user_text_def)

section \<open>What the passes keep\<close>

lemma join_others:
  "filter (\<lambda>m. msg_role m \<noteq> MSG_USER) (map snd (join acc c)) = filter (\<lambda>m. msg_role m \<noteq> MSG_USER) (map snd acc @ map snd c)"
proof (induction acc c rule: join.induct)
  case (2 acc p m c)
  show ?case
  proof (cases acc rule: rev_cases)
    case Nil
    then show ?thesis using 2(2) by (simp add: join_first)
  next
    case (snoc acc' qa)
    obtain q a where qa: "qa = (q, a)" by force
    show ?thesis
    proof (cases "msg_role m = MSG_USER \<and> msg_role a = MSG_USER")
      case True
      then show ?thesis using 2(1) by (simp add: snoc qa join_snoc merged_with_def)
    next
      case False
      then show ?thesis
        using 2(2) unfolding snoc qa join_snoc if_not_P [OF False] by auto
    qed
  qed
qed simp

lemma join_spaced:
  "successively not_both_user (map snd acc) \<Longrightarrow> successively not_both_user (map snd (join acc c))"
proof (induction acc c rule: join.induct)
  case (2 acc p m c)
  show ?case
  proof (cases acc rule: rev_cases)
    case Nil
    then show ?thesis using 2(2) by (simp add: join_first)
  next
    case (snoc acc' qa)
    obtain q a where qa: "qa = (q, a)" by force
    show ?thesis
    proof (cases "msg_role m = MSG_USER \<and> msg_role a = MSG_USER")
      case True
      have "successively not_both_user (map snd (acc' @ [(q, merged_with a m)]))"
        using 2(3) by (auto simp: snoc qa successively_append_iff not_both_user_def)
      then show ?thesis using 2(1) True by (simp add: snoc qa join_snoc merged_with_def)
    next
      case False
      have "successively not_both_user (map snd (acc' @ [(q, a)] @ [(p, m)]))"
        using 2(3) False by (auto simp: snoc qa successively_append_iff not_both_user_def)
      then show ?thesis using 2(2) False unfolding snoc qa join_snoc if_not_P [OF False] by auto
    qed
  qed
qed simp

lemma merged_text: "subseq (text_of a @ text_of m) (text_of (merged_with a m))"
proof -
  have "subseq (x @ y) (x @ [CHR 0x0A, CHR 0x0A] @ y)" for x y :: string
    by (intro list_emb_append_mono list_emb_append2 subseq_order.order_refl)
  then show ?thesis
    by (cases "msg_content a"; cases "msg_content m") (simp_all add: text_of_def merged_with_def merge_content_def)
qed

lemma join_text: "subseq (user_text (map snd acc @ map snd c)) (user_text (map snd (join acc c)))"
proof (induction acc c rule: join.induct)
  case (2 acc p m c)
  show ?case
  proof (cases acc rule: rev_cases)
    case Nil
    then show ?thesis using 2(2) by (simp add: join_first)
  next
    case (snoc acc' qa)
    obtain q a where qa: "qa = (q, a)" by force
    show ?thesis
    proof (cases "msg_role m = MSG_USER \<and> msg_role a = MSG_USER")
      case True
      have "subseq (user_text (map snd acc') @ (text_of a @ text_of m) @ user_text (map snd c))
          (user_text (map snd acc') @ text_of (merged_with a m) @ user_text (map snd c))"
        by (intro list_emb_append_mono merged_text subseq_order.order_refl)
      moreover have "subseq (user_text (map snd acc') @ text_of (merged_with a m) @ user_text (map snd c))
          (user_text (map snd (join (acc' @ [(q, merged_with a m)]) c)))"
        using 2(1) True by (simp add: snoc qa merged_with_def)
      ultimately have "subseq (user_text (map snd acc') @ (text_of a @ text_of m) @ user_text (map snd c))
          (user_text (map snd (join (acc' @ [(q, merged_with a m)]) c)))"
        by (rule subseq_order.order_trans)
      then show ?thesis using True by (simp add: snoc qa join_snoc)
    next
      case False
      then show ?thesis
        using 2(2) unfolding snoc qa join_snoc if_not_P [OF False] by auto
    qed
  qed
qed simp

lemma kept_steady: "filter steady (map snd (kept known c)) = filter steady (map snd c)"
  by (induction known c rule: kept.induct) (auto simp: steady_def known_role_def)

lemma kept_users: "filter (\<lambda>m. msg_role m = MSG_USER) (map snd (kept known c)) = filter (\<lambda>m. msg_role m = MSG_USER) (map snd c)"
  by (induction known c rule: kept.induct) (auto simp: known_role_def)

lemma kept_known: "m \<in> snd ` set (kept known c) \<Longrightarrow> known_role (msg_role m)"
  by (induction known c rule: kept.induct) (auto split: if_splits)

lemma typed_call_ids: "typed_message m \<Longrightarrow> msg_role m = MSG_ASSISTANT \<Longrightarrow> set (call_ids m) = set (calls_of m)"
proof -
  assume t: "typed_message m" "msg_role m = MSG_ASSISTANT"
  have "map (c_trunc 64) (filter (\<lambda>i. i \<noteq> []) (map tc_id (msg_tool_calls m))) = filter (\<lambda>i. i \<noteq> []) (map tc_id (msg_tool_calls m))"
    using t(1) by (intro map_idI) (auto simp: typed_message_def list_all_iff c_trunc_def)
  then show ?thesis using t by (simp add: call_ids_def calls_of_def typed_message_def)
qed

lemma results_follow_mono: "results_follow seen ms \<Longrightarrow> seen \<subseteq> seen' \<Longrightarrow> results_follow seen' ms"
proof (induction ms arbitrary: seen seen')
  case (Cons m ms)
  then show ?case using Cons(1) [of "seen \<union> set (calls_of m)" "seen' \<union> set (calls_of m)"] by auto
qed simp

lemma results_follow_users: "results_follow seen (filter (\<lambda>m. msg_role m \<noteq> MSG_USER) ms) = results_follow seen ms"
  by (induction ms arbitrary: seen) (auto simp: calls_of_def)

lemma results_follow_append:
  "results_follow seen (ms @ ms') \<longleftrightarrow> results_follow seen ms \<and> results_follow (seen \<union> all_calls ms) ms'"
  by (induction ms arbitrary: seen) (auto simp: all_calls_def Un_assoc)

lemma kept_follow:
  "list_all typed_message (map snd c) \<Longrightarrow> set known \<subseteq> seen \<Longrightarrow> results_follow seen (map snd (kept known c))"
proof (induction known c arbitrary: seen rule: kept.induct)
  case (2 known p a c)
  have t: "typed_message a" "list_all typed_message (map snd c)" using "2.prems"(1) by simp_all
  consider "\<not> known_role (msg_role a)" | "msg_role a = MSG_ASSISTANT" | "msg_role a = MSG_TOOL"
    | "known_role (msg_role a)" "msg_role a \<noteq> MSG_ASSISTANT" "msg_role a \<noteq> MSG_TOOL" by blast
  then show ?case
  proof cases
    case 1
    then show ?thesis using 2(1,7) t(2) by simp
  next
    case 2
    then show ?thesis using "2.IH"(2) [OF _ _ t(2), of "seen \<union> set (calls_of a)"] typed_call_ids [OF t(1)]
      by (simp add: known_role_def)
  next
    case 3
    then show ?thesis
      using "2.IH"(3,4) [OF _ _ _ _ t(2), of "seen \<union> set (calls_of a)"] "2.prems"(2)
      by (auto simp: known_role_def answers_def calls_of_def split: option.splits)
  next
    case 4
    have "set (if msg_role a = MSG_USER then [] else known) \<subseteq> seen \<union> set (calls_of a)" using "2.prems"(2) by auto
    then show ?thesis using "2.IH"(5) [OF _ _ _ t(2)] 4 by auto
  qed
qed simp

lemma kept_results:
  "list_all typed_message (map snd c) \<Longrightarrow> [] \<notin> set known \<Longrightarrow>
     filter (\<lambda>m. msg_role m = MSG_TOOL) (map snd (kept known c)) = results_in_place (set known) (map snd c)"
proof (induction known c rule: kept.induct)
  case (2 known p a c)
  have t: "typed_message a" "list_all typed_message (map snd c)" using "2.prems"(1) by simp_all
  consider "\<not> known_role (msg_role a)" | "msg_role a = MSG_ASSISTANT" | "msg_role a = MSG_TOOL"
    | "known_role (msg_role a)" "msg_role a \<noteq> MSG_ASSISTANT" "msg_role a \<noteq> MSG_TOOL" by blast
  then show ?case
  proof cases
    case 1
    then show ?thesis using 2(1) t(2) "2.prems"(2) by (simp add: known_role_def)
  next
    case 2
    then have "[] \<notin> set (call_ids a)" unfolding typed_call_ids [OF t(1) 2] by (simp add: calls_of_def)
    then show ?thesis using "2.IH"(2) [OF _ _ t(2)] 2 typed_call_ids [OF t(1) 2] by (simp add: known_role_def)
  next
    case 3
    have e: "answers known a \<longleftrightarrow> (\<exists>i \<in> set known. msg_tool_call_id a = Some i)"
      using "2.prems"(2) by (auto simp: answers_def split: option.splits)
    show ?thesis
      using 3 "2.IH"(3,4) [OF _ _ _ _ t(2) "2.prems"(2)] by (simp add: known_role_def e [symmetric])
  next
    case 4
    then show ?thesis using "2.IH"(5) [OF _ _ _ t(2)] "2.prems"(2) by auto
  qed
qed simp

section \<open>The repaired conversation is what providers ask for\<close>

lemma stub_fields [simp]:
  "msg_role (stub i) = MSG_TOOL" "msg_tool_call_id (stub i) = Some i"
  by (simp_all add: stub_def message_new_tool_def message_new_def)

lemma all_calls_simps [simp]:
  "all_calls [] = {}" "all_calls (m # ms) = set (calls_of m) \<union> all_calls ms" "all_calls (ms @ ms') = all_calls ms \<union> all_calls ms'"
  by (simp_all add: all_calls_def)

lemma answered_simps [simp]:
  "answered [] = {}" "answered (ms @ ms') = answered ms \<union> answered ms'"
  "answered (m # ms) = (if msg_role m = MSG_TOOL then set_option (msg_tool_call_id m) else {}) \<union> answered ms"
  by (auto simp: answered_def)

lemma calls_of_stub [simp]: "calls_of (stub i) = []"
  by (simp add: calls_of_def)

lemma in_all_calls: "i \<in> all_calls ms \<longleftrightarrow> (\<exists>m \<in> set ms. msg_role m = MSG_ASSISTANT \<and> i \<noteq> [] \<and> i \<in> tc_id ` set (msg_tool_calls m))"
  by (auto simp: all_calls_def calls_of_def)

text \<open>The collection of identifiers: distinct calls of the conversation, and all of them up to 64.\<close>

lemma add_ids_short:
  "\<forall>x \<in> set xs. length x < 64 \<Longrightarrow> distinct acc \<Longrightarrow>
    distinct (fold add_id xs acc) \<and> set acc \<subseteq> set (fold add_id xs acc) \<and> set (fold add_id xs acc) \<subseteq> set acc \<union> {x \<in> set xs. x \<noteq> []}"
proof (induction xs arbitrary: acc)
  case (Cons x xs)
  have t: "c_trunc 64 x = x" using Cons(2) by (simp add: c_trunc_def)
  have d: "distinct (add_id x acc)" "set acc \<subseteq> set (add_id x acc)" "set (add_id x acc) \<subseteq> set acc \<union> {y. y = x \<and> x \<noteq> []}"
    using Cons(3) by (auto simp: add_id_def t)
  show ?case using Cons(1) [OF _ d(1)] Cons(2) d(2,3) by fastforce
qed simp

lemma add_ids_all:
  "\<forall>x \<in> set xs. length x < 64 \<Longrightarrow> distinct acc \<Longrightarrow> card (set acc \<union> {x \<in> set xs. x \<noteq> []}) \<le> 64 \<Longrightarrow>
    {x \<in> set xs. x \<noteq> []} \<subseteq> set (fold add_id xs acc)"
proof (induction xs arbitrary: acc)
  case (Cons x xs)
  have t: "c_trunc 64 x = x" using Cons(2) by (simp add: c_trunc_def)
  have "length acc < 64" if "x \<noteq> []" "x \<notin> set acc"
  proof -
    have "Suc (length acc) = card (insert x (set acc))" using that Cons(3) by (simp add: distinct_card)
    also have "\<dots> \<le> card (set acc \<union> {y \<in> set (x # xs). y \<noteq> []})" using that(1) by (intro card_mono) auto
    finally show ?thesis using Cons(4) by simp
  qed
  then have e: "set (add_id x acc) = set acc \<union> {y. y = x \<and> x \<noteq> []}" by (auto simp: add_id_def t)
  have d: "distinct (add_id x acc)" using Cons(3) by (auto simp: add_id_def t)
  have "set (add_id x acc) \<union> {y \<in> set xs. y \<noteq> []} = set acc \<union> {y \<in> set (x # xs). y \<noteq> []}" unfolding e by auto
  then have "{y \<in> set xs. y \<noteq> []} \<subseteq> set (fold add_id xs (add_id x acc))"
    using Cons(1) [of "add_id x acc"] Cons(2,4) d by simp
  moreover have "set (add_id x acc) \<subseteq> set (fold add_id xs (add_id x acc))"
    using add_ids_short [of xs "add_id x acc"] Cons(2) d by simp
  ultimately show ?case using e by auto
qed simp

lemma collect_ids_typed:
  assumes "list_all typed_message (filter steady ms)"
  shows "distinct (collect_ids ms)" "set (collect_ids ms) \<subseteq> all_calls ms"
    and "card (all_calls ms) \<le> 64 \<Longrightarrow> set (collect_ids ms) = all_calls ms"
proof -
  let ?xs = "concat (map (\<lambda>m. if msg_role m = MSG_ASSISTANT then map tc_id (msg_tool_calls m) else []) ms)"
  have short: "\<forall>x \<in> set ?xs. length x < 64"
    using assms by (auto simp: list_all_iff typed_message_def steady_def split: if_splits)
  have xs: "{x \<in> set ?xs. x \<noteq> []} = all_calls ms" by (induction ms) (auto simp: calls_of_def)
  show "distinct (collect_ids ms)" and sub: "set (collect_ids ms) \<subseteq> all_calls ms"
    using add_ids_short [OF short, of "[]"] unfolding xs by (simp_all add: collect_ids_def)
  show "set (collect_ids ms) = all_calls ms" if "card (all_calls ms) \<le> 64"
    using add_ids_all [OF short, of "[]"] sub that unfolding xs by (simp add: collect_ids_def)
qed

lemma result_ids_cons:
  "result_ids (m # ms) =
    (if msg_role m = MSG_TOOL
     then (case msg_tool_call_id m of None \<Rightarrow> [] | Some i \<Rightarrow> if i = [] then [] else [i]) else []) @ result_ids ms"
  unfolding result_ids_def list.map concat.simps ..

lemma set_result_ids_cons:
  "set (result_ids (m # ms)) = (if msg_role m = MSG_TOOL then set_option (msg_tool_call_id m) - {[]} else {}) \<union> set (result_ids ms)"
  unfolding result_ids_cons by (cases "msg_role m = MSG_TOOL"; cases "msg_tool_call_id m") simp_all

lemma result_ids_answered: "set (result_ids ms) = answered ms - {[]}"
  by (induction ms) (simp_all only: set_result_ids_cons answered_simps, auto simp: result_ids_def)

lemma all_calls_users: "all_calls (filter (\<lambda>m. msg_role m \<noteq> MSG_USER) ms) = all_calls ms"
  by (induction ms) (auto simp: calls_of_def)

lemma all_calls_stubs: "all_calls (ms @ map stub ids) = all_calls ms"
  by (induction ids) simp_all

lemma answered_stubs: "answered (ms @ map stub ids) = answered ms \<union> set ids"
  by (induction ids) auto

lemma results_follow_stubs: "set ids \<subseteq> seen \<Longrightarrow> results_follow seen (map stub ids)"
  by (induction ids arbitrary: seen) auto

lemma tools_subset:
  assumes "filter (\<lambda>m. msg_role m \<noteq> MSG_USER) ms = filter (\<lambda>m. msg_role m \<noteq> MSG_USER) ms'"
    "m \<in> set ms" "msg_role m \<noteq> MSG_USER"
  shows "m \<in> set ms'"
proof -
  have "m \<in> set (filter (\<lambda>m. msg_role m \<noteq> MSG_USER) ms)" using assms(2,3) by simp
  then show ?thesis unfolding assms(1) by simp
qed

lemma steady_others: "filter steady ms = filter steady (filter (\<lambda>m. msg_role m \<noteq> MSG_USER) ms)"
  by (induction ms) (auto simp: steady_def)

lemma tools_others: "filter (\<lambda>m. msg_role m = MSG_TOOL) ms = filter (\<lambda>m. msg_role m = MSG_TOOL) (filter (\<lambda>m. msg_role m \<noteq> MSG_USER) ms)"
  by (induction ms) auto

lemma joined_others:
  "filter (\<lambda>m. msg_role m \<noteq> MSG_USER) (map snd (joined c)) = filter (\<lambda>m. msg_role m \<noteq> MSG_USER) (map snd (kept [] c))"
  using join_others [of "[]" "kept [] c"] by (simp add: joined_def)

lemma joined_steady: "filter steady (map snd (joined c)) = filter steady (map snd c)"
  by (metis joined_others kept_steady steady_others)

lemma map_snd_repaired: "length new = length (missing c) \<Longrightarrow> map snd (repaired new c) = map snd (joined c) @ map stub (missing c)"
  by (simp add: repaired_def)

text \<open>What the repair makes of the messages \<open>ms\<close>: a consistent conversation with the same system and
  assistant messages, all that users wrote, and the results in place, followed by one stub for each call
  (of the first 64) that has none.\<close>

definition repairs_to :: "message list \<Rightarrow> message list \<Rightarrow> bool" where
  "repairs_to ms ms' \<longleftrightarrow> conversation_ok ms' \<and> filter steady ms' = filter steady ms
     \<and> subseq (user_text ms) (user_text ms')
     \<and> (\<exists>ids. filter (\<lambda>m. msg_role m = MSG_TOOL) ms' = results_in_place {} ms @ map stub ids
          \<and> distinct ids \<and> set ids \<subseteq> all_calls ms - answered (results_in_place {} ms))"

lemma repaired_ok:
  assumes "list_all typed_message (map snd c)" "length new = length (missing c)"
  shows "repairs_to (map snd c) (map snd (repaired new c))"
  unfolding repairs_to_def
proof (intro conjI exI)
  let ?j = "map snd (joined c)" and ?k = "map snd (kept [] c)" and ?m = "missing c"
  have r: "map snd (repaired new c) = ?j @ map stub ?m" using assms(2) by (rule map_snd_repaired)
  have typed: "list_all typed_message (filter steady ?j)" unfolding joined_steady using assms(1) by (auto simp: list_all_iff)
  note ids = collect_ids_typed [OF typed]
  have ne: "i \<noteq> []" if "i \<in> all_calls ?j" for i using that unfolding in_all_calls by blast
  have m: "set ?m = set (collect_ids ?j) - answered ?j"
    using ids(2) ne result_ids_answered by (auto simp: missing_def missing_ids_def)
  have tools: "filter (\<lambda>m. msg_role m = MSG_TOOL) ?j = results_in_place {} (map snd c)"
    using tools_others [of ?j] tools_others [of ?k] joined_others [of c] kept_results [OF assms(1), of "[]"] by simp
  have ans: "answered ?j = answered (results_in_place {} (map snd c))"
    unfolding tools [symmetric] by (auto simp: answered_def)
  have calls: "all_calls ?j = all_calls (map snd c)"
  proof -
    have "all_calls ms = all_calls (filter steady ms)" for ms by (induction ms) (auto simp: calls_of_def steady_def)
    then show ?thesis using joined_steady [of c] by metis
  qed
  have "results_follow {} ?k" using kept_follow [OF assms(1), of "[]" "{}"] by simp
  then have "results_follow {} ?j" using results_follow_users joined_others [of c] by metis
  then have follow: "results_follow {} (?j @ map stub ?m)"
    using m ids(2) by (auto simp: results_follow_append intro!: results_follow_stubs)
  have spaced: "successively not_both_user (?j @ map stub is)" for "is"
  proof -
    have "successively not_both_user ?j" unfolding joined_def by (rule join_spaced) simp
    moreover have "successively not_both_user (map stub is)"
      by (induction "is" rule: induct_list012) (simp_all add: not_both_user_def)
    moreover have "not_both_user x (hd (map stub is))" if "is \<noteq> []" for x
      using that by (cases "is") (simp_all add: not_both_user_def)
    ultimately show ?thesis by (cases "is = []") (simp_all add: successively_append_iff)
  qed
  have known: "msg_role x \<in> {MSG_SYSTEM, MSG_USER, MSG_ASSISTANT, MSG_TOOL}" if "x \<in> set (?j @ map stub ?m)" for x
  proof (cases "x \<in> set ?j \<and> msg_role x \<noteq> MSG_USER")
    case True
    then have "x \<in> set ?k" using tools_subset [OF joined_others] by blast
    then show ?thesis using kept_known [of x "[]" c] by (auto simp: known_role_def)
  qed (use that in auto)
  have all: "all_calls (?j @ map stub ?m) \<subseteq> answered (?j @ map stub ?m)" if "card (all_calls (?j @ map stub ?m)) \<le> 64"
    using that ids(3) m unfolding all_calls_stubs answered_stubs by auto
  show "conversation_ok (map snd (repaired new c))"
    unfolding conversation_ok_def r using known spaced follow all by blast
  show "filter steady (map snd (repaired new c)) = filter steady (map snd c)"
    unfolding r filter_append joined_steady by (simp add: comp_def steady_def)
  have "user_text ms = user_text ms'" if "filter (\<lambda>m. msg_role m = MSG_USER) ms = filter (\<lambda>m. msg_role m = MSG_USER) ms'" for ms ms'
    using that by (simp add: user_text_def)
  then have "user_text ?k = user_text (map snd c)" using kept_users by metis
  moreover have "user_text (map stub is) = []" for "is" by (induction "is") simp_all
  ultimately show "subseq (user_text (map snd c)) (user_text (map snd (repaired new c)))"
    using join_text [of "[]" "kept [] c"] by (simp add: r joined_def)
  show "filter (\<lambda>m. msg_role m = MSG_TOOL) (map snd (repaired new c)) = results_in_place {} (map snd c) @ map stub ?m"
    unfolding r filter_append tools by (simp add: comp_def)
  show "distinct ?m" using ids(1) by (simp add: missing_def missing_ids_def)
  show "set ?m \<subseteq> all_calls (map snd c) - answered (results_in_place {} (map snd c))"
    using m ids(2) calls ans by auto
qed

text \<open>C11. On a message array with room for the stubs (and at most 4096 messages with them), the repair
  returns a consistent conversation made of the messages given: known roles, no two user messages in a
  row, every result after its call, and every call with a result as long as there are at most 64
  different ones. The system and assistant messages are the same in the same order, nothing a user
  wrote is lost, the results in place are all kept (and only they), then come stubs, one for each call
  without a result (of the first 64 calls); memory outside the conversation is as before. A result is in
  place when its call is one of the last assistant message and no user message came in between.
  Messages are typed: at most 64 calls, identifiers of fewer than 64 bytes; the stubs get fresh
  addresses. The stubs stand at the end, behind messages that followed the call.\<close>

theorem repair_valid:
  assumes "holds_conv h f sl n c" "fresh_for new f (joined c) (missing c)"
    "length (repaired new c) \<le> length sl" "length (repaired new c) \<le> HERMES_MAX_MESSAGES"
    "list_all typed_message (map snd c)"
  shows "\<exists>h' sl' n' c' r. repair_message_sequence h new sl n = Some (h', sl', n', r) \<and> holds_conv h' f sl' n' c'
    \<and> repairs_to (map snd c) (map snd c')"
proof -
  have "length new = length (missing c)" using assms(2) by (simp add: fresh_for_def)
  then show ?thesis using repair_lemma [OF assms(1-4)] repaired_ok [OF assms(5)] by blast
qed

definition demo_call :: "string \<Rightarrow> tool_call" where
  "demo_call i = \<lparr>tc_id = i, tc_name = ''read_file'', tc_arguments = ''{}'', tc_malformed = False, tc_unwrapped = False\<rparr>"

text \<open>A user message, a stray result, another user message and a call without a result.\<close>

definition demo_conv :: conv where
  "demo_conv =
     [(0, message_new MSG_USER (Some ''a'')), (1, message_new_tool (Some ''lost'') (Some ''r'')),
      (2, message_new MSG_USER (Some ''b'')),
      (3, message_new_assistant_with_toolcalls None [demo_call ''x''] None None)]"

definition demo_slots :: "ptr option list" where
  "demo_slots = [Some 0, Some 1, None, Some 2, Some 3]"

lemma demo_facts:
  "joined demo_conv = [(0, message_new MSG_USER (Some (''a'' @ [CHR 0x0A, CHR 0x0A] @ ''b''))),
     (3, message_new_assistant_with_toolcalls None [demo_call ''x''] None None)]"
  "missing demo_conv = [''x'']" "list_all typed_message (map snd demo_conv)"
  "holds_conv (map_of demo_conv) Map.empty demo_slots 5 demo_conv"
  by (simp_all add: joined_def missing_def missing_ids_def demo_conv_def message_new_def message_new_tool_def
      message_new_assistant_with_toolcalls_def demo_call_def known_role_def answers_def join.simps merge_content_def
      collect_ids_def add_id_def result_ids_def typed_message_def holds_conv_def demo_slots_def separate_def)

lemma repair_valid_witness:
  "\<exists>h' sl' n' c' r. repair_message_sequence (map_of demo_conv) [7] demo_slots 5 = Some (h', sl', n', r)
    \<and> holds_conv h' Map.empty sl' n' c' \<and> repairs_to (map snd demo_conv) (map snd c')"
  using repair_valid [OF demo_facts(4), of "[7]"] demo_facts
  by (fastforce simp: fresh_for_def repaired_def demo_slots_def HERMES_MAX_MESSAGES_def)

section \<open>The flush cursor\<close>










text \<open>When \<open>malloc\<close> gives the address of a freed message to a stub, the stub counts as flushed: a stray
  result had been saved, the assistant message and its stub had not, and the cursor then claims the
  assistant message was.\<close>

definition reuse_demo :: "(nat \<times> message_role list) option" where
  "reuse_demo =
     (case repair_message_sequence_with_cursor
        (map_of [(0, message_new_tool (Some ''lost'') (Some ''r'')),
                 (1, message_new_assistant_with_toolcalls None [demo_call ''x''] None None)])
        [0] [Some 0, Some 1] 2 1 of
        None \<Rightarrow> None
      | Some (h, sl, n, cursor, r) \<Rightarrow> Some (cursor, map (role_at h) (live_ptrs (take n sl))))"

lemma cursor_counts_stub: "reuse_demo = Some (1, [MSG_ASSISTANT, MSG_TOOL])"
  by code_simp

section \<open>Thinking-only messages\<close>

lemma release_twice: "h p = Some m \<Longrightarrow> release_again h p = None"
  by (simp add: release_again_def message_free_def release_def)

lemma live_ptrs_from: "i < length sl \<Longrightarrow> live_ptrs (drop i sl) = live_ptrs [sl ! i] @ live_ptrs (drop (i + 1) sl)"
  by (simp add: Cons_nth_drop_Suc [symmetric] flip: live_ptrs_simps(5))

lemma length_live_ptrs_le: "length (live_ptrs sl) \<le> length sl"
  by (induction sl) (auto simp: live_ptrs_def split: option.split)

lemma drop_loop_length: "drop_loop is h sl w d = Some (h', sl', w', d') \<Longrightarrow> length sl' = length sl"
  by (induction "is" arbitrary: h sl w d) (auto split: option.splits if_splits bind_splits)

text \<open>A thinking-only message anywhere ahead ends in the second release.\<close>

lemma drop_loop_undefined:
  assumes "\<exists>p \<in> set (live_ptrs (drop i (take n sl))). thinking_only (the (h p))"
    and "set (live_ptrs (drop i (take n sl))) \<subseteq> dom h" and "w \<le> i" and "i \<le> n" and "n \<le> length sl"
  shows "drop_loop [i..<n] h sl w d = None"
  using assms
proof (induction "n - i" arbitrary: i sl w)
  case 0
  then show ?case by simp
next
  case (Suc k)
  then have i: "i < n" by simp
  have L: "live_ptrs (drop i (take n sl)) = live_ptrs [sl ! i] @ live_ptrs (drop (i + 1) (take n sl))"
    using i Suc.prems(5) live_ptrs_from [of i "take n sl"] by simp
  have step: "drop_loop [i + 1..<n] h sl' w' d = None"
    if "\<exists>p \<in> set (live_ptrs (drop (i + 1) (take n sl))). thinking_only (the (h p))"
      "drop (i + 1) (take n sl') = drop (i + 1) (take n sl)" "w' \<le> i + 1" "length sl' = length sl" for sl' w'
    using Suc.hyps(1) [of "i + 1" sl' w'] Suc.hyps(2) Suc.prems(2,5) i that L by auto
  show ?case
  proof (cases "sl ! i")
    case None
    then show ?thesis using step [of sl w] Suc.prems(1,3) i L by (simp add: upt_conv_Cons del: upt_Suc)
  next
    case (Some p)
    obtain m where m: "h p = Some m" using Suc.prems(2) L Some by auto
    have d: "drop (i + 1) (take n ((sl[w := Some p])[i := None])) = drop (i + 1) (take n sl)"
      using Suc.prems(3) by (simp add: take_update_swap)
    show ?thesis
    proof (cases "thinking_only m")
      case True
      then show ?thesis using Some m i release_twice [of h p m] by (simp add: upt_conv_Cons del: upt_Suc)
    next
      case False
      then have "\<exists>p \<in> set (live_ptrs (drop (i + 1) (take n sl))). thinking_only (the (h p))"
        using Suc.prems(1) L Some m by auto
      then show ?thesis using step [OF _ d, of "w + 1"] Suc.prems(3) Some m False i
        by (simp add: upt_conv_Cons del: upt_Suc)
    qed
  qed
qed

text \<open>Behind an empty slot the loop compacts as it should.\<close>

lemma drop_loop_compacts:
  assumes "\<forall>p \<in> set (live_ptrs (drop i (take n sl))). \<not> thinking_only (the (h p))"
    and "set (live_ptrs (drop i (take n sl))) \<subseteq> dom h" and "w < i" and "i \<le> n" and "n \<le> length sl"
  shows "\<exists>sl'. drop_loop [i..<n] h sl w d = Some (h, sl', w + length (live_ptrs (drop i (take n sl))), d)
    \<and> live_ptrs (take (w + length (live_ptrs (drop i (take n sl)))) sl') = live_ptrs (take w sl) @ live_ptrs (drop i (take n sl))"
  using assms
proof (induction "n - i" arbitrary: i sl w)
  case 0
  then show ?case by simp
next
  case (Suc k)
  then have i: "i < n" by simp
  have L: "live_ptrs (drop i (take n sl)) = live_ptrs [sl ! i] @ live_ptrs (drop (i + 1) (take n sl))"
    using i Suc.prems(5) live_ptrs_from [of i "take n sl"] by simp
  show ?case
  proof (cases "sl ! i")
    case None
    then show ?thesis
      using Suc.hyps(1) [of "i + 1" sl w] Suc.hyps(2) Suc.prems i L by (simp add: upt_conv_Cons del: upt_Suc)
  next
    case (Some p)
    obtain m where m: "h p = Some m" using Suc.prems(2) L Some by auto
    define sl2 where "sl2 = (sl[w := Some p])[i := None]"
    have d: "drop (i + 1) (take n sl2) = drop (i + 1) (take n sl)" "length sl2 = length sl"
      using Suc.prems(3) by (simp_all add: sl2_def take_update_swap)
    have t: "take (w + 1) sl2 = take w sl @ [Some p]"
      using Suc.prems(3-5) by (simp add: sl2_def take_Suc_conv_app_nth)
    have "\<not> thinking_only m" using Suc.prems(1) L Some m by auto
    moreover have "\<exists>sl'. drop_loop [i + 1..<n] h sl2 (w + 1) d = Some (h, sl', w + 1 + length (live_ptrs (drop (i + 1) (take n sl))), d)
      \<and> live_ptrs (take (w + 1 + length (live_ptrs (drop (i + 1) (take n sl)))) sl') = live_ptrs (take w sl @ [Some p]) @ live_ptrs (drop (i + 1) (take n sl))"
      using Suc.hyps(1) [of "i + 1" sl2 "w + 1"] Suc.hyps(2) Suc.prems i L unfolding d t by auto
    ultimately show ?thesis
      unfolding L using Some m i by (simp add: upt_conv_Cons sl2_def del: upt_Suc)
  qed
qed

text \<open>Up to the first empty slot each message is written to its own slot, which is then cleared.\<close>

lemma drop_loop_clears:
  assumes "\<forall>p \<in> set (live_ptrs (drop i (take n sl))). \<not> thinking_only (the (h p))"
    and "set (live_ptrs (drop i (take n sl))) \<subseteq> dom h" and "i \<le> n" and "n \<le> length sl" and "live_ptrs (take i sl) = []"
  shows "\<exists>sl'. drop_loop [i..<n] h sl i d = Some (h, sl', i + length (live_ptrs (drop i (take n sl))), d)
    \<and> live_ptrs (take (i + length (live_ptrs (drop i (take n sl)))) sl') = live_ptrs (dropWhile (\<lambda>s. s \<noteq> None) (drop i (take n sl)))"
  using assms
proof (induction "n - i" arbitrary: i sl)
  case 0
  then show ?case by simp
next
  case (Suc k)
  then have i: "i < n" by simp
  have D: "drop i (take n sl) = sl ! i # drop (i + 1) (take n sl)"
    using i Suc.prems(4) Cons_nth_drop_Suc [of i "take n sl"] by simp
  show ?case
  proof (cases "sl ! i")
    case None
    have "live_ptrs (take (i + 1) sl) = []"
      using Suc.prems(4,5) i None by (simp add: take_Suc_conv_app_nth)
    moreover have "\<exists>sl'. drop_loop [i + 1..<n] h sl i d = Some (h, sl', i + length (live_ptrs (drop (i + 1) (take n sl))), d)
      \<and> live_ptrs (take (i + length (live_ptrs (drop (i + 1) (take n sl)))) sl') = live_ptrs (take i sl) @ live_ptrs (drop (i + 1) (take n sl))"
      using Suc.prems i D None by (intro drop_loop_compacts) auto
    ultimately show ?thesis using None D Suc.prems(5) i by (simp add: upt_conv_Cons del: upt_Suc)
  next
    case (Some p)
    obtain m where m: "h p = Some m" using Suc.prems(2) D Some by auto
    define sl2 where "sl2 = sl[i := None]"
    have d: "drop (i + 1) (take n sl2) = drop (i + 1) (take n sl)" "length sl2 = length sl"
      by (simp_all add: sl2_def take_update_swap)
    have t: "live_ptrs (take (i + 1) sl2) = []"
      using Suc.prems(4,5) i by (simp add: sl2_def take_Suc_conv_app_nth)
    have "\<not> thinking_only m" using Suc.prems(1) D Some m by auto
    moreover have "\<exists>sl'. drop_loop [i + 1..<n] h sl2 (i + 1) d = Some (h, sl', i + 1 + length (live_ptrs (drop (i + 1) (take n sl))), d)
      \<and> live_ptrs (take (i + 1 + length (live_ptrs (drop (i + 1) (take n sl)))) sl') = live_ptrs (dropWhile (\<lambda>s. s \<noteq> None) (drop (i + 1) (take n sl)))"
      using Suc.hyps(1) [of "i + 1" sl2] Suc.hyps(2) Suc.prems i D Some t unfolding d by auto
    ultimately show ?thesis
      unfolding D using Some m i by (simp add: upt_conv_Cons sl2_def del: upt_Suc)
  qed
qed

text \<open>Dropping thinking-only messages never does what it is for. With one in the conversation, its memory
  is released twice: undefined. Without one the conversation should stay as it is, but every message
  before the first empty slot is cleared from the array (all of them when there is none), while the
  count stays and 0 is returned; the messages behind that slot move up.\<close>

theorem drop_thinking_loses_messages:
  assumes "holds_conv h f sl n c"
  shows "if \<exists>m \<in> snd ` set c. thinking_only m then drop_thinking_only_and_merge_users h new sl n = None
    else \<exists>sl'. drop_thinking_only_and_merge_users h new sl n = Some (h, sl', length c, 0)
      \<and> live_ptrs (take n sl') = live_ptrs (dropWhile (\<lambda>s. s \<noteq> None) (take n sl))"
proof -
  have a: "n \<le> length sl" "live_ptrs (take n sl) = map fst c" "separate f c" "h = f ++ map_of c"
    using assms by (simp_all add: holds_conv_def)
  have rd: "the (h p) = m" if "(p, m) \<in> set c" for p m
    using a(3,4) that by (auto simp: separate_def map_add_def)
  have dm: "set (live_ptrs (take n sl)) \<subseteq> dom h" unfolding a(2,4) by (auto simp: dom_map_of_conv_image_fst)
  have th: "(\<exists>p \<in> set (live_ptrs (take n sl)). thinking_only (the (h p))) \<longleftrightarrow> (\<exists>m \<in> snd ` set c. thinking_only m)"
    unfolding a(2) using rd by force
  show ?thesis
  proof (cases "\<exists>m \<in> snd ` set c. thinking_only m")
    case True
    then have "n \<noteq> 0" using a(2) by (cases n) auto
    moreover have "drop_loop [0..<n] h sl 0 0 = None"
      by (rule drop_loop_undefined) (use True th dm a(1) in simp_all)
    ultimately show ?thesis using True a(1) by (simp add: drop_thinking_only_and_merge_users_def)
  next
    case False
    have l: "length (live_ptrs (take n sl)) = length c" unfolding a(2) by simp
    obtain sl' where sl': "drop_loop [0..<n] h sl 0 0 = Some (h, sl', length c, 0)"
        "live_ptrs (take (length c) sl') = live_ptrs (dropWhile (\<lambda>s. s \<noteq> None) (take n sl))"
      using drop_loop_clears [of 0 n sl h 0] False th dm a(1) l by auto
    show ?thesis
    proof (cases "n = 0")
      case True
      then have "c = []" using a(2) by simp
      then show ?thesis using True False by (simp add: drop_thinking_only_and_merge_users_def)
    next
      case nz: False
      let ?r = "take (length c) sl' @ replicate (n - length c) None @ drop n sl'"
      have le: "length c \<le> n" using length_live_ptrs_le [of "take n sl"] l by simp
      have len: "length sl' = length sl" using drop_loop_length [OF sl'(1)] .
      have "take n ?r = take (length c) sl' @ replicate (n - length c) None" using le len a(1) by simp
      then have "live_ptrs (take n ?r) = live_ptrs (dropWhile (\<lambda>s. s \<noteq> None) (take n sl))"
        using sl'(2) by (simp add: live_ptrs_def)
      moreover have "drop_thinking_only_and_merge_users h new sl n = Some (h, ?r, length c, 0)"
        using sl'(1) nz a(1) by (simp add: drop_thinking_only_and_merge_users_def)
      ultimately show ?thesis using False by auto
    qed
  qed
qed

lemma drop_thinking_loses_messages_witness:
  "\<exists>sl'. drop_thinking_only_and_merge_users (map_of [(0, message_new MSG_USER (Some ''a'')), (1, message_new MSG_ASSISTANT (Some ''b''))])
     [] [Some 0, Some 1] 2 = Some (map_of [(0, message_new MSG_USER (Some ''a'')), (1, message_new MSG_ASSISTANT (Some ''b''))], sl', 2, 0)
     \<and> live_ptrs (take 2 sl') = []"
  using drop_thinking_loses_messages [of "map_of [(0, message_new MSG_USER (Some ''a'')), (1, message_new MSG_ASSISTANT (Some ''b''))]" Map.empty
      "[Some 0, Some 1]" 2 "[(0, message_new MSG_USER (Some ''a'')), (1, message_new MSG_ASSISTANT (Some ''b''))]" "[]"]
  by (simp add: holds_conv_def separate_def thinking_only_def message_new_def numeral_2_eq_2)

section \<open>Sanitizing without merging\<close>

text \<open>The sanitizer writes its stubs into an array of as many slots as there were messages: it is undefined
  just when the stubs do not fit into the slots of the messages it dropped, in particular whenever a call
  has no result and nothing is dropped.\<close>

theorem sanitize_api_overflows:
  assumes "holds_conv h f sl n c" "0 < n" "fresh_for new f (kept [] c) (missing_ids (map snd (kept [] c)))"
    "length (kept [] c) + length new \<le> HERMES_MAX_MESSAGES"
  shows "sanitize_api_messages h new sl n = None \<longleftrightarrow> n < length (kept [] c) + length (missing_ids (map snd (kept [] c)))"
proof -
  have a: "n \<le> length sl" "live_ptrs (take n sl) = map fst c" "separate f c" "h = f ++ map_of c"
    using assms(1) by (simp_all add: holds_conv_def)
  let ?k = "kept [] c"
  have fp: "filter_pass h [] (take n sl) = Some (f ++ map_of ?k, map fst ?k, length c - length ?k)"
    unfolding a(4) using a(3,2) by (rule filter_pass_conv)
  have ra: "read_all (f ++ map_of ?k) (map fst ?k) = Some (map snd ?k)"
    using separate_subseq [OF a(3) kept_ptrs] by (rule read_all_conv)
  have new: "length new = length (missing_ids (map snd ?k))" using assms(3) by (simp add: fresh_for_def)
  show ?thesis
    using assms(2,4) a(1) new by (simp add: sanitize_api_messages_def fp ra Let_def count_with_stubs_small)
qed

lemma sanitize_api_overflows_witness:
  "sanitize_api_messages (map_of [(3, message_new_assistant_with_toolcalls None [demo_call ''x''] None None)]) [7]
     [Some 3, None] 1 = None"
proof -
  let ?c = "[(3, message_new_assistant_with_toolcalls None [demo_call ''x''] None None)] :: conv"
  have "kept [] ?c = ?c" "missing_ids (map snd ?c) = [''x'']"
    by (simp_all add: message_new_assistant_with_toolcalls_def message_new_def known_role_def missing_ids_def
        collect_ids_def add_id_def demo_call_def result_ids_def)
  then show ?thesis
    using sanitize_api_overflows [of "map_of ?c" Map.empty "[Some 3, None]" 1 ?c "[7]"]
    by (simp add: holds_conv_def separate_def fresh_for_def HERMES_MAX_MESSAGES_def)
qed

section \<open>Where the stubs go\<close>

text \<open>The stubs go to the end of the conversation, behind a user message that followed the call. The next
  repair takes such a stub for a stray result, drops it and makes it again: the repairs never end.\<close>

definition again_demo :: "(message_role list \<times> nat \<times> message_role list \<times> nat) option" where
  "again_demo =
     (case repair_message_sequence
        (map_of [(0, message_new_assistant_with_toolcalls None [demo_call ''x''] None None), (1, message_new MSG_USER (Some ''u''))])
        [2] [Some 0, Some 1, None, None] 2 of
        None \<Rightarrow> None
      | Some (h, sl, n, r) \<Rightarrow>
          (case repair_message_sequence h [5] sl n of
             None \<Rightarrow> None
           | Some (h', sl', n', r') \<Rightarrow>
               Some (map (role_at h) (live_ptrs (take n sl)), r, map (role_at h') (live_ptrs (take n' sl')), r')))"

lemma repair_never_settles:
  "again_demo = Some ([MSG_ASSISTANT, MSG_USER, MSG_TOOL], 1, [MSG_ASSISTANT, MSG_USER, MSG_TOOL], 2)"
  by code_simp

text \<open>A full array of one slot has no room for a stub.\<close>

lemma repair_overruns_full_array:
  "repair_message_sequence (map_of [(0, message_new_assistant_with_toolcalls None [demo_call ''x''] None None)]) [1] [Some 0] 1 = None"
  by code_simp

section \<open>Arguments of tool calls\<close>

definition marked :: "string set \<Rightarrow> message \<Rightarrow> message" where
  "marked ids msg =
     (case msg_tool_call_id msg of
        None \<Rightarrow> msg
      | Some i \<Rightarrow>
          if msg_role msg = MSG_TOOL \<and> i \<noteq> [] \<and> i \<in> ids
          then msg\<lparr>msg_content := Some (case msg_content msg of
                 None \<Rightarrow> TOOL_CALL_ARGS_CORRUPTION_MARKER
               | Some c \<Rightarrow> TOOL_CALL_ARGS_CORRUPTION_MARKER @ [CHR 0x0A] @ c)\<rparr>
          else msg)"

lemma marked_fields [simp]:
  "msg_role (marked ids m) = msg_role m" "msg_tool_calls (marked ids m) = msg_tool_calls m"
  "msg_tool_call_id (marked ids m) = msg_tool_call_id m"
  by (simp_all add: marked_def split: option.split)

lemma takeWhile_stops: "\<exists>x\<in>set xs. \<not> P x \<Longrightarrow> length (takeWhile P xs) < length xs"
  by (induction xs) auto

lemma first_index:
  assumes "i \<in> fst ` set marks"
  shows "length (takeWhile (\<lambda>(k, _). k \<noteq> i) marks) < length marks"
    "fst (marks ! length (takeWhile (\<lambda>(k, _). k \<noteq> i) marks)) = i"
proof -
  show l: "length (takeWhile (\<lambda>(k, _). k \<noteq> i) marks) < length marks"
    using assms by (intro takeWhile_stops) auto
  show "fst (marks ! length (takeWhile (\<lambda>(k, _). k \<noteq> i) marks)) = i"
    using nth_length_takeWhile [OF l] by (auto split: prod.splits)
qed

lemma mark_result_facts:
  "fst (mark_result m marks) = marked (fst ` set marks) m"
  "map fst (snd (mark_result m marks)) = map fst marks"
  "(i, b) \<in> set marks \<Longrightarrow> \<not> is_result_of i m \<Longrightarrow> i \<noteq> [] \<Longrightarrow> (i, b) \<in> set (snd (mark_result m marks))"
proof -
  show "fst (mark_result m marks) = marked (fst ` set marks) m"
    by (auto simp: mark_result_def marked_def split: option.split)
  show "map fst (snd (mark_result m marks)) = map fst marks"
  proof (cases "msg_tool_call_id m")
    case (Some i)
    show ?thesis
    proof (cases "i \<in> fst ` set marks")
      case True
      have "map fst (marks[length (takeWhile (\<lambda>(k, _). k \<noteq> i) marks) := (i, True)]) = map fst marks"
        using first_index [OF True] by (metis fst_conv list_update_id map_update nth_map)
      then show ?thesis using Some by (simp add: mark_result_def Let_def)
    qed (use Some in \<open>simp add: mark_result_def\<close>)
  qed (simp add: mark_result_def)
  assume a: "(i, b) \<in> set marks" "\<not> is_result_of i m" "i \<noteq> []"
  then obtain j where j: "j < length marks" "marks ! j = (i, b)" by (auto simp: in_set_conv_nth)
  show "(i, b) \<in> set (snd (mark_result m marks))"
  proof (cases "msg_tool_call_id m")
    case (Some k)
    show ?thesis
    proof (cases "msg_role m = MSG_TOOL \<and> k \<noteq> [] \<and> k \<in> fst ` set marks")
      case True
      then have "k \<noteq> i" using a(2,3) Some by (auto simp: is_result_of_def)
      let ?x = "length (takeWhile (\<lambda>(k', _). k' \<noteq> k) marks)"
      have "?x \<noteq> j" using first_index(2) [of k marks] True j(2) \<open>k \<noteq> i\<close> by auto
      then have "marks[?x := (k, True)] ! j = (i, b)" using j by simp
      moreover have "j < length (marks[?x := (k, True)])" using j by simp
      ultimately have "(i, b) \<in> set (marks[?x := (k, True)])" by (metis nth_mem)
      then show ?thesis using Some True by (simp add: mark_result_def Let_def)
    qed (use Some a(1) in \<open>auto simp: mark_result_def\<close>)
  qed (use a(1) in \<open>simp add: mark_result_def\<close>)
qed

lemma mark_results_Cons:
  "mark_results (m # ms) marks =
     (fst (mark_result m marks) # fst (mark_results ms (snd (mark_result m marks))),
      snd (mark_results ms (snd (mark_result m marks))))"
  by (simp add: Let_def split: prod.split)

lemma mark_results_facts:
  "map fst (snd (mark_results ms marks)) = map fst marks"
  "fst (mark_results ms marks) = map (marked (fst ` set marks)) ms"
proof (induction ms arbitrary: marks)
  case (Cons m ms)
  have s: "fst ` set (snd (mark_result m marks)) = fst ` set marks" for marks
    using mark_result_facts(2) [of m marks] by (metis list.set_map)
  {
    case 1
    show ?case using Cons(1) by (simp add: mark_results_Cons mark_result_facts(2) del: mark_results.simps)
  next
    case 2
    show ?case using Cons(2) by (simp add: mark_results_Cons mark_result_facts(1) s del: mark_results.simps)
  }
qed simp_all

lemma mark_results_unhandled:
  "(i, b) \<in> set marks \<Longrightarrow> \<not> list_ex (is_result_of i) ms \<Longrightarrow> i \<noteq> [] \<Longrightarrow> (i, b) \<in> set (snd (mark_results ms marks))"
proof (induction ms arbitrary: marks)
  case (Cons m ms)
  then have "(i, b) \<in> set (snd (mark_result m marks))" by (intro mark_result_facts(3)) simp_all
  then show ?case using Cons by (simp add: mark_results_Cons del: mark_results.simps)
qed simp

lemma mark_calls_fst: "map fst (mark_calls ms) = concat (map corrupted_ids ms)"
  by (induction ms) (simp_all add: comp_def)

lemma mark_calls_flag: "(i, b) \<in> set (mark_calls ms) \<Longrightarrow> \<not> list_ex (is_result_of i) ms \<Longrightarrow> \<not> b"
  by (induction ms) auto

lemma args_valid_braces [simp]: "args_valid ''{}''"
  by (simp add: args_valid_def)

lemma fixed_valid:
  "typed_message m \<Longrightarrow> msg_role m = MSG_ASSISTANT \<Longrightarrow> tc \<in> set (msg_tool_calls (fix_message m)) \<Longrightarrow> args_valid (tc_arguments tc)"
  by (auto simp: fix_message_def fix_call_def typed_message_def)

lemma fix_message_fields [simp]:
  "msg_role (fix_message m) = msg_role m" "msg_tool_call_id (fix_message m) = msg_tool_call_id m"
  by (simp_all add: fix_message_def)

lemma corrupted_none: "corrupted_ids m = [] \<longleftrightarrow>
    (msg_role m = MSG_ASSISTANT \<longrightarrow> (\<forall>tc\<in>set (take 64 (msg_tool_calls m)). args_valid (tc_arguments tc)))"
  by (auto simp: corrupted_ids_def filter_empty_conv)

lemma corrupted_short: "typed_message m \<Longrightarrow> i \<in> set (corrupted_ids m) \<Longrightarrow> length i < 64"
  by (auto simp: corrupted_ids_def typed_message_def list_all_iff dest: in_set_takeD split: if_splits)

lemma c_trunc_map: "\<forall>(i, b)\<in>set xs. length i < 64 \<Longrightarrow> map (\<lambda>(i, b). (c_trunc 64 i, b)) xs = xs"
  by (induction xs) auto

text \<open>A second pass repairs nothing, because every call has valid arguments.\<close>

definition all_args_valid :: "message list \<Rightarrow> bool" where
  "all_args_valid ms \<longleftrightarrow>
     list_all (\<lambda>m. msg_role m = MSG_ASSISTANT \<longrightarrow> list_all (\<lambda>tc. args_valid (tc_arguments tc)) (msg_tool_calls m)) ms"

lemma all_args_valid_settled: "all_args_valid ms \<Longrightarrow> sanitize_tool_call_arguments cap ms = Some (ms, 0)"
proof -
  assume "all_args_valid ms"
  then have "concat (map corrupted_ids ms) = []"
    by (auto simp: all_args_valid_def list_all_iff corrupted_none dest: in_set_takeD)
  then show ?thesis by (simp add: sanitize_tool_call_arguments_def)
qed

definition marked_result :: "string \<Rightarrow> message \<Rightarrow> bool" where
  "marked_result i m \<longleftrightarrow> is_result_of i m \<and> (\<exists>t. msg_content m = Some (TOOL_CALL_ARGS_CORRUPTION_MARKER @ t))"

lemma marked_gives: "is_result_of i m \<Longrightarrow> i \<in> ids \<Longrightarrow> marked_result i (marked ids m)"
  by (cases "msg_content m") (auto simp: marked_result_def is_result_of_def marked_def)

text \<open>When the sanitizer returns, every tool call has arguments that begin as JSON, a second run repairs
  nothing, and each of the first 64 calls whose arguments were dropped has a result that says so; and it
  returns whenever the array has room for 64 more messages.\<close>

theorem sanitize_args_settles:
  assumes "list_all typed_message ms" "length ms + 64 \<le> HERMES_MAX_MESSAGES" "length ms + 64 \<le> cap"
  shows "\<exists>ms' r. sanitize_tool_call_arguments cap ms = Some (ms', r) \<and> all_args_valid ms'
    \<and> sanitize_tool_call_arguments cap ms' = Some (ms', 0)
    \<and> (\<forall>i\<in>set (take 64 (concat (map corrupted_ids ms))). i \<noteq> [] \<longrightarrow> list_ex (marked_result i) ms')"
proof (cases "concat (map corrupted_ids ms) = []")
  case True
  then have "all_args_valid ms"
    using assms(1) by (auto simp: all_args_valid_def list_all_iff corrupted_none typed_message_def)
  then show ?thesis unfolding True using all_args_valid_settled by simp
next
  case False
  define marks where "marks = take 64 (mark_calls ms)"
  have ids: "map fst marks = take 64 (concat (map corrupted_ids ms))" by (simp add: marks_def take_map mark_calls_fst [symmetric])
  have "length i < 64" if "(i, b) \<in> set marks" for i b
  proof -
    have "i \<in> set (concat (map corrupted_ids ms))" using that ids by (metis fst_conv in_set_takeD image_eqI list.set_map)
    then show ?thesis using assms(1) corrupted_short by (auto simp: list_all_iff)
  qed
  then have tr: "map (\<lambda>(i, b). (c_trunc 64 i, b)) marks = marks" by (intro c_trunc_map) auto
  obtain out marks' where mr: "mark_results (map fix_message ms) marks = (out, marks')" by force
  have out: "out = map (marked (fst ` set marks)) (map fix_message ms)" "map fst marks' = map fst marks"
    using mark_results_facts(2,1) [of "map fix_message ms" marks] mr by simp_all
  define miss where "miss = map fst (filter (\<lambda>(i, handled). \<not> handled) marks')"
  have "length miss \<le> length marks'" by (simp add: miss_def)
  also have "\<dots> \<le> 64" using arg_cong [OF out(2), of length] by (simp add: marks_def)
  finally have lm: "length miss \<le> 64" .
  then have "length (filter (\<lambda>(i, handled). \<not> handled) marks') \<le> 64" by (simp add: miss_def)
  then have le: "\<not> cap < length ms + min (length (filter (\<lambda>(i, handled). \<not> handled) marks')) (HERMES_MAX_MESSAGES - length ms)"
    "length miss \<le> HERMES_MAX_MESSAGES - length ms"
    using assms(2,3) lm by linarith+
  define res where "res = out @ map corruption_result miss"
  have len: "length out = length ms" by (simp add: out(1))
  have run: "sanitize_tool_call_arguments cap ms = Some (res, length (concat (map corrupted_ids ms)))"
    using False le len tr mr
    by (simp add: sanitize_tool_call_arguments_def Let_def marks_def [symmetric] miss_def [symmetric] res_def del: concat_eq_Nil_conv)
  have valid: "all_args_valid res"
    using assms(1) fixed_valid
    by (auto simp: all_args_valid_def res_def out(1) list_all_iff corruption_result_def message_new_tool_def message_new_def)
  have "list_ex (marked_result i) res" if i: "i \<in> set (take 64 (concat (map corrupted_ids ms)))" "i \<noteq> []" for i
  proof -
    have im: "i \<in> fst ` set marks" using i(1) ids by (metis list.set_map)
    show ?thesis
    proof (cases "list_ex (is_result_of i) ms")
      case True
      then obtain m where m: "m \<in> set ms" "is_result_of i m" by (auto simp: list_ex_iff)
      then have "is_result_of i (fix_message m)" by (simp add: is_result_of_def)
      then have "marked_result i (marked (fst ` set marks) (fix_message m))" using im by (rule marked_gives)
      then show ?thesis using m(1) by (auto simp: res_def out(1) list_ex_iff)
    next
      case no: False
      obtain b where b: "(i, b) \<in> set marks" using im by auto
      then have nb: "\<not> b" using mark_calls_flag no by (metis in_set_takeD marks_def)
      have "\<not> list_ex (is_result_of i) (map fix_message ms)"
        using no by (simp add: list_ex_iff is_result_of_def)
      then have "(i, b) \<in> set marks'" using mark_results_unhandled [OF b _ i(2), of "map fix_message ms"] mr by simp
      then have "i \<in> set miss" using nb by (force simp: miss_def)
      moreover have "marked_result i (corruption_result i)"
        using i(2) by (simp add: marked_result_def is_result_of_def corruption_result_def message_new_tool_def message_new_def)
      ultimately show ?thesis by (auto simp: res_def list_ex_iff)
    qed
  qed
  then show ?thesis using run valid all_args_valid_settled by blast
qed

definition broken_call :: tool_call where
  "broken_call = (demo_call ''x'')\<lparr>tc_arguments := ''null''\<rparr>"

lemma sanitize_args_settles_witness:
  "\<exists>ms' r. sanitize_tool_call_arguments 100 [message_new_assistant_with_toolcalls None [broken_call] None None] = Some (ms', r)
    \<and> all_args_valid ms' \<and> list_ex (marked_result ''x'') ms'"
proof -
  have "corrupted_ids (message_new_assistant_with_toolcalls None [broken_call] None None) = [''x'']"
    by (simp add: corrupted_ids_def message_new_assistant_with_toolcalls_def message_new_def broken_call_def demo_call_def
        args_valid_def)
  then show ?thesis
    using sanitize_args_settles [of "[message_new_assistant_with_toolcalls None [broken_call] None None]" 100]
    by (auto simp: typed_message_def message_new_assistant_with_toolcalls_def broken_call_def demo_call_def HERMES_MAX_MESSAGES_def)
qed

text \<open>The caller in the conversation loop leaves room for 16 more messages; 17 calls without arguments need 17.\<close>

definition many_broken :: message where
  "many_broken = message_new_assistant_with_toolcalls None
     (map (\<lambda>c. \<lparr>tc_id = [c], tc_name = ''f'', tc_arguments = [], tc_malformed = False, tc_unwrapped = False\<rparr>) ''abcdefghijklmnopq'')
     None None"

lemma sanitize_args_overruns_caller: "sanitize_tool_call_arguments (1 + 16) [many_broken] = None"
  by code_simp

section \<open>Pending guidance\<close>

lemma find_target_live:
  "set (live_ptrs sl) \<subseteq> dom h \<Longrightarrow> find_target h sl = Some (find (\<lambda>p. role_at h p = MSG_TOOL) (live_ptrs sl))"
proof (induction sl)
  case (Cons s sl)
  then show ?case by (cases s) (auto simp: role_at_def)
qed simp

lemma live_ptrs_rev: "live_ptrs (rev sl) = rev (live_ptrs sl)"
proof (induction sl)
  case (Cons s sl)
  then show ?case by (cases s) simp_all
qed simp

lemma set_live_ptrs: "set (live_ptrs sl) = {p. Some p \<in> set sl}"
proof (induction sl)
  case (Cons s sl)
  then show ?case by (cases s) auto
qed simp

text \<open>Guidance of up to 4094 characters is never lost: either a recent message is a tool result, and then
  the last such one ends with the guidance and nothing is pending, or there is none, and then memory is
  as before and the guidance is still pending.\<close>

theorem steer_not_lost:
  assumes "holds_conv h f sl n c" "0 < n" "0 < k" "steer \<noteq> []" "length steer \<le> 4094"
  shows "\<exists>h' pending r. apply_pending_steer_to_tool_results h sl n k steer = Some (h', pending, r)
    \<and> (case find (\<lambda>p. role_at h p = MSG_TOOL) (rev (live_ptrs (drop (n - k) (take n sl)))) of
         None \<Rightarrow> h' = h \<and> pending = steer
       | Some p \<Rightarrow> pending = [] \<and> (\<exists>s. h' = h(p \<mapsto> (the (h p))\<lparr>msg_content := Some s\<rparr>) \<and> suffix steer s
           \<and> prefix (text_of (the (h p))) s))"
proof -
  have a: "n \<le> length sl" "live_ptrs (take n sl) = map fst c" "h = f ++ map_of c" using assms(1) by (simp_all add: holds_conv_def)
  let ?recent = "drop (n - k) (take n sl)"
  have "set (live_ptrs ?recent) \<subseteq> set (map fst c)"
    unfolding a(2) [symmetric] set_live_ptrs by (auto dest: in_set_dropD)
  also have "\<dots> \<subseteq> dom h" by (auto simp: a(3) dom_map_of_conv_image_fst)
  finally have live: "set (live_ptrs ?recent) \<subseteq> dom h" .
  define target where "target = find (\<lambda>p. role_at h p = MSG_TOOL) (rev (live_ptrs ?recent))"
  have t: "find_target h (rev ?recent) = Some target"
    using live by (simp add: find_target_live live_ptrs_rev target_def)
  show ?thesis
  proof (cases target)
    case None
    then show ?thesis
      using assms(2-5) a(1) t by (simp add: apply_pending_steer_to_tool_results_def flip: target_def)
  next
    case (Some p)
    then have "p \<in> set (rev (live_ptrs ?recent))" unfolding target_def find_Some_iff by (metis nth_mem)
    then have "p \<in> set (live_ptrs ?recent)" by simp
    then obtain m where m: "h p = Some m" using live by auto
    show ?thesis
      using assms(2-4) a(1) t Some m
      by (cases "msg_content m") (auto simp: apply_pending_steer_to_tool_results_def text_of_def suffix_def simp flip: target_def)
  qed
qed

lemma steer_not_lost_witness:
  "\<exists>h' r. apply_pending_steer_to_tool_results (map_of (take 2 demo_conv)) [Some 0, Some 1] 2 1 ''stop'' = Some (h', [], r)"
proof -
  have "holds_conv (map_of (take 2 demo_conv)) Map.empty [Some 0, Some 1] 2 (take 2 demo_conv)"
    by (simp add: demo_conv_def holds_conv_def separate_def)
  moreover have "role_at (map_of (take 2 demo_conv)) 1 = MSG_TOOL"
    by (simp add: role_at_def demo_conv_def message_new_tool_def message_new_def map_of.simps)
  ultimately show ?thesis
    using steer_not_lost [of "map_of (take 2 demo_conv)" Map.empty "[Some 0, Some 1]" 2 "take 2 demo_conv" 1 "''stop''"]
    by auto
qed

text \<open>Guidance of 4095 characters, which the buffer can hold, is dropped when there is no tool result.\<close>

lemma long_steer_lost:
  "length steer = 4095 \<Longrightarrow> apply_pending_steer_to_tool_results h [None] 1 1 steer = Some (h, [], 0)"
  by (auto simp: apply_pending_steer_to_tool_results_def)

section \<open>Eviction, then repair\<close>

definition conv_of :: "heap \<Rightarrow> ptr list \<Rightarrow> conv" where
  "conv_of h ps = map (\<lambda>p. (p, the (h p))) ps"

lemma map_of_conv_of: "map_of (conv_of h ps) p = (if p \<in> set ps then Some (the (h p)) else None)"
  by (induction ps) (auto simp: conv_of_def map_of.simps)

lemma ctx_holds_conv:
  assumes "ctx_holds st ps"
  shows "holds_conv (mem st) (mem st |` (- set ps)) (slots st) (message_count st) (conv_of (mem st) ps)"
proof -
  have "mem st = (mem st |` (- set ps)) ++ map_of (conv_of (mem st) ps)"
    using ctx_holds_live [OF assms] by (intro ext) (auto simp: map_add_def map_of_conv_of restrict_map_def split: option.split)
  moreover have "map fst (conv_of (mem st) ps) = ps" by (simp add: conv_of_def comp_def)
  moreover from this have "separate (mem st |` (- set ps)) (conv_of (mem st) ps)"
    using ctx_holdsD(3) [OF assms] by (auto simp: separate_def conv_of_def)
  ultimately show ?thesis using ctx_holdsD(1,2,5) [OF assms] by (simp add: holds_conv_def)
qed

lemma remove_slots_room:
  assumes "remove_slots st i k = Some st'" "message_count st \<le> capacity st"
  shows "capacity st \<le> capacity st'" "message_count st' \<le> capacity st'"
  using assms by (auto simp: remove_slots_def bind_eq_Some_conv split: if_splits)

lemma evict_tools_room:
  "evict_tools k start st = Some st' \<Longrightarrow> message_count st \<le> capacity st \<Longrightarrow> capacity st \<le> capacity st'"
proof (induction k arbitrary: st)
  case (Suc k)
  obtain st1 i where st1: "remove_slots st i 1 = Some st1" "evict_tools k start st1 = Some st'"
    using Suc(2) by (auto simp: bind_eq_Some_conv)
  then show ?case using remove_slots_room [OF st1(1) Suc(3)] Suc(1) [OF st1(2)] by simp
qed simp

lemma evict_room:
  assumes "context_evict_smart st max_messages EVICT_OLDEST_TOOL_FIRST = Some st'" "message_count st \<le> capacity st"
  shows "capacity st \<le> capacity st'"
  using assms evict_tools_room
  by (auto simp: context_evict_smart_def Let_def bind_eq_Some_conv split: if_splits)

text \<open>Evicting messages, tool results first, to a limit of at least 2 tears calls from their results;
  repairing the context afterwards gives a consistent conversation made of the messages that survived
  the eviction (\<open>repairs_to\<close>: known roles, no two user messages in a row, every result after its call,
  every call with a result up to 64 of them; the surviving system and assistant messages, user texts
  and results in place are kept). The array has room for the stubs and \<open>malloc\<close> gives them addresses
  that were free before the eviction.\<close>

theorem evict_then_repair:
  assumes "ctx_holds st ps" "2 \<le> max_messages"
  defines "c \<equiv> conv_of (mem st) (filter (\<lambda>p. p \<notin> set (evicted (mem st) ps max_messages)) ps)"
  assumes "fresh_for new (mem st) (joined c) (missing c)" "length (repaired new c) \<le> capacity st"
    "length (repaired new c) \<le> HERMES_MAX_MESSAGES" "list_all typed_message (map snd c)"
  shows "\<exists>st' h' sl' n' c' r. context_evict_smart st max_messages EVICT_OLDEST_TOOL_FIRST = Some st'
    \<and> repair_message_sequence (mem st') new (slots st') (message_count st') = Some (h', sl', n', r)
    \<and> read_all h' (live_ptrs (take n' sl')) = Some c' \<and> repairs_to (map snd c) c'"
proof -
  let ?ps = "filter (\<lambda>p. p \<notin> set (evicted (mem st) ps max_messages)) ps"
  have "max_messages - 2 + 2 = max_messages" using assms(2) by simp
  then obtain st' where st': "context_evict_smart st max_messages EVICT_OLDEST_TOOL_FIRST = Some st'" "ctx_holds st' ?ps"
      "mem st' = mem st |` (- set (evicted (mem st) ps max_messages))"
    using tool_eviction.exact [OF assms(1), of "max_messages - 2"] by auto
  define f where "f = mem st' |` (- set ?ps)"
  have c: "conv_of (mem st') ?ps = c" unfolding c_def st'(3) conv_of_def by simp
  have h: "holds_conv (mem st') f (slots st') (message_count st') c" using ctx_holds_conv [OF st'(2)] by (simp add: c f_def)
  have "dom f \<subseteq> dom (mem st)" by (auto simp: f_def st'(3))
  then have new: "fresh_for new f (joined c) (missing c)" using assms(4) by (auto simp: fresh_for_def)
  have room: "length (repaired new c) \<le> capacity st'"
    using assms(5) evict_room [OF st'(1)] ctx_holdsD(1,2) [OF assms(1)] by simp
  obtain sl' r where rep: "repair_message_sequence (mem st') new (slots st') (message_count st')
        = Some (f ++ map_of (repaired new c), sl', length (repaired new c), r)"
      "holds_conv (f ++ map_of (repaired new c)) f sl' (length (repaired new c)) (repaired new c)"
    using repair_lemma [OF h new room assms(6)] by blast
  have "read_all (f ++ map_of (repaired new c)) (live_ptrs (take (length (repaired new c)) sl')) = Some (map snd (repaired new c))"
    using rep(2) read_all_conv by (simp add: holds_conv_def)
  moreover have "length new = length (missing c)" using assms(4) by (simp add: fresh_for_def)
  ultimately show ?thesis using st'(1) rep(1) repaired_ok [OF assms(7)] by blast
qed

definition torn_context :: agent_context where
  "torn_context =
     \<lparr>slots = map Some [0, 1, 2, 3, 4] @ replicate 3 None, message_count = 5,
      mem = [0 \<mapsto> message_new MSG_SYSTEM (Some ''s''), 1 \<mapsto> message_new MSG_USER (Some ''a''),
             2 \<mapsto> message_new_assistant_with_toolcalls None [demo_call ''x''] None None,
             3 \<mapsto> message_new_tool (Some ''x'') (Some ''t''), 4 \<mapsto> message_new MSG_USER (Some ''b'')]\<rparr>"

text \<open>The result of the call goes, and the repair puts a stub at the end.\<close>

lemma evict_then_repair_witness:
  "\<exists>st' h' sl' n' c' r. context_evict_smart torn_context 4 EVICT_OLDEST_TOOL_FIRST = Some st'
    \<and> repair_message_sequence (mem st') [9] (slots st') (message_count st') = Some (h', sl', n', r)
    \<and> read_all h' (live_ptrs (take n' sl')) = Some c' \<and> conversation_ok c'"
proof -
  have h: "ctx_holds torn_context [0, 1, 2, 3, 4]" by (simp add: ctx_holds_def torn_context_def)
  have "map (role_at (mem torn_context)) [0, 1, 2, 3, 4] = [MSG_SYSTEM, MSG_USER, MSG_ASSISTANT, MSG_TOOL, MSG_USER]"
    by (simp add: torn_context_def role_at_def message_new_def message_new_tool_def message_new_assistant_with_toolcalls_def)
  then have ev: "evicted (mem torn_context) [0, 1, 2, 3, 4] 4 = [3]"
    by (simp add: evicted_def has_system_def eviction_order_def)
  define c where "c = conv_of (mem torn_context) (filter (\<lambda>p. p \<notin> set (evicted (mem torn_context) [0, 1, 2, 3, 4] 4)) [0, 1, 2, 3, 4])"
  have c: "c = [(0, message_new MSG_SYSTEM (Some ''s'')), (1, message_new MSG_USER (Some ''a'')),
      (2, message_new_assistant_with_toolcalls None [demo_call ''x''] None None), (4, message_new MSG_USER (Some ''b''))]"
    unfolding c_def ev by (simp add: conv_of_def torn_context_def)
  have j: "joined c = c" "missing c = [''x'']"
    by (simp_all add: c joined_def missing_def missing_ids_def message_new_def message_new_assistant_with_toolcalls_def
        demo_call_def known_role_def join.simps collect_ids_def add_id_def result_ids_def)
  have f: "fresh_for [9] (mem torn_context) (joined c) (missing c)" unfolding j by (simp add: fresh_for_def c torn_context_def)
  have "length (repaired [9] c) = 5" by (simp add: repaired_def j) (simp add: c)
  then have l: "length (repaired [9] c) \<le> capacity torn_context" "length (repaired [9] c) \<le> HERMES_MAX_MESSAGES"
    by (simp_all add: torn_context_def HERMES_MAX_MESSAGES_def)
  have t: "list_all typed_message (map snd c)"
    by (simp add: c typed_message_def message_new_def message_new_assistant_with_toolcalls_def demo_call_def)
  have two: "2 \<le> (4 :: nat)" by simp
  obtain st' h' sl' n' c' r where
    "context_evict_smart torn_context 4 EVICT_OLDEST_TOOL_FIRST = Some st'"
    "repair_message_sequence (mem st') [9] (slots st') (message_count st') = Some (h', sl', n', r)"
    "read_all h' (live_ptrs (take n' sl')) = Some c'" "repairs_to (map snd c) c'"
    using evict_then_repair [OF h two, of "[9]", folded c_def, OF f l t] by (elim exE conjE) (rule that)
  then show ?thesis unfolding repairs_to_def by (intro exI conjI) auto
qed

end
