(* ===== verification/Spec2Isabelle.thy ===== *)
theory Spec2Isabelle
  imports Omap_Correct Hive_Correct Json_Correct ToolIdempotency_Correct ThinkScrubber_Correct
    WubuZip_Correct Cron_Correct FileState_Correct Base64_Correct Protobuf_Correct
    Csv_Correct Difflib_Correct Crypto_Correct Ansi_Correct MessageRepair_Correct
begin

text \<open>
  Slermes, the C11 reimplementation of the Hermes agent: the parts of it that hold state or transform
  data, modelled in definitions that follow the code, and what makes them correct.

  \<^bold>\<open>The program.\<close> An agent loop sends a conversation to a language model, streams the answer
  through filters, runs the tools the answer asks for and stores what happened. Under it lie libraries
  of containers, formats and coordination, each in a directory of \<^verbatim>\<open>lib\<close>; the agent and its tools are
  in \<^verbatim>\<open>src\<close>. Modelled here are the conversation and its repair, the containers, the formats the agent reads and writes, and the state
  machines between the model, the tools and the files.

  \<^bold>\<open>Theories.\<close> A component \<open>X\<close> is a theory \<open>X\<close> with its records, datatypes and operations, named as in
  the code, and a theory \<open>X_Correct\<close> with its invariant, its abstract value, its lemmas and its
  properties. \<open>Slermes_Prelude\<close> holds the C types, the C library calls that several components use,
  the allocator and the generic lemmas.

  \<^item> \<open>Omap\<close> (\<^verbatim>\<open>lib/libomap/omap.c\<close>): the insertion-ordered string map, entries with tombstones and an
    open-addressed index. \<open>omap_good\<close> is its invariant, \<open>omap_abs\<close> its list of bindings. Every operation
    is the one of an insertion-ordered dictionary; the locales \<open>kv_store\<close> and \<open>ordered_dict\<close> say what a
    client relies on, and \<open>od\<close> is their interpretation.
  \<^item> \<open>Hive\<close> (\<^verbatim>\<open>lib/libhive/hive.c\<close>): the slot map with stable handles, blocks with a skipfield and a
    freelist. \<open>hive_inv\<close>, \<open>hive_abs\<close>; the locale \<open>handle_store\<close> and its interpretation \<open>hs\<close>.
  \<^item> \<open>Json\<close> (\<^verbatim>\<open>lib/libjson/json.c\<close>): trees, the recursive-descent parser, the serializers.
  \<^item> \<open>ToolIdempotency\<close> (\<^verbatim>\<open>src/tools/tool_idempotency.c\<close>): the cache that lets a retried tool call
    return its first result. A client of the omap and of the JSON library; its entries are counted
    (live, freed), because the code owns them through pointers.
  \<^item> \<open>FileState\<close> (\<^verbatim>\<open>lib/libfilestate/file_state.c\<close>): the registry that warns an agent before it
    overwrites what another one wrote. A client of the hive, whose agents are objects in an explicit
    store; its calls are steps of a history, and the check compares two moments of it.
  \<^item> \<open>Context\<close> (\<^verbatim>\<open>src/agent/context.c\<close>, to line 327): the conversation, an array of pointers to messages in
    an explicit memory, and what shortens it. \<open>ctx_holds\<close> says what an array holds; the locale
    \<open>evictor\<close> is the contract of truncation and of two of the eviction strategies, which interpret it
    (the third one truncates).
  \<^item> \<open>MessageRepair\<close> (\<^verbatim>\<open>src/agent/agent_message_repair.c\<close>): the passes that make a conversation acceptable to
    providers, over the same memory. The result is a consistent conversation (\<open>conversation_ok\<close>) made
    of the messages given (\<open>repairs_to\<close>), also behind an eviction (\<open>evict_then_repair\<close>); two passes are
    wrong as written (\<open>drop_thinking_loses_messages\<close>, \<open>sanitize_api_overflows\<close>).
  \<^item> \<open>ThinkScrubber\<close> (\<^verbatim>\<open>src/agent/think_scrubber.c\<close>): the state machine that removes reasoning blocks
    from the streamed answer.
  \<^item> \<open>WubuBits\<close>, \<open>WubuHuffman\<close>, \<open>WubuLz77\<close>, \<open>WubuFlate\<close>, \<open>WubuZip\<close> (\<^verbatim>\<open>lib/libwubuoffice/src/wubuzip\<close>):
    the archive stack of the office documents, from bit streams and CRC-32 over Huffman codes, the
    matcher and DEFLATE to the ZIP file. Each theory uses the one before. The CRC is the remainder of a
    division by the standard polynomial over GF(2) (\<open>wubuzip_crc32_division\<close>).
  \<^item> \<open>Cron\<close> (\<^verbatim>\<open>lib/libcron/cron.c\<close>): the expressions of scheduled jobs, their parser and the search for
    the next time. A parse is accepted, rejected, or leaves the C semantics: an \<open>int\<close> overflows
    (\<open>Overflow\<close>) or a flag array is written out of bounds (\<open>Out_Of_Bounds\<close>, which cannot happen). The
    search is compared with a Gregorian calendar of its own, for time zones with a fixed offset.
  \<^item> \<open>Base64\<close>, \<open>Protobuf\<close>, \<open>Csv\<close> (\<^verbatim>\<open>lib/libbase64\<close>, \<^verbatim>\<open>lib/libprotobuf\<close>, \<^verbatim>\<open>lib/libcsv\<close>): wire and text
    formats, with their encoders and decoders.
  \<^item> \<open>Difflib\<close> (\<^verbatim>\<open>lib/libdifflib/difflib.c\<close>): unified diffs from a dynamic program, opcodes from
    recursive longest blocks, ratios and close matches. \<open>Difflib_Lcs\<close> shows what the dynamic programs
    compute, \<open>Difflib_Patch\<close> that a diff is a patch and a smallest one (for up to \<open>2^30 - 1\<close> lines of
    context; beyond that the \<open>int\<close> arithmetic of the hunks may overflow, which is \<open>None\<close>), \<open>Difflib_Correct\<close> the rest.
  \<^item> \<open>Crypto\<close> (\<^verbatim>\<open>lib/libcrypto/crypto.c\<close>): web tokens, base64url, hexadecimal, the credential vault and
    the AES-GCM envelope, over the primitives of OpenSSL as arguments. A client of the JSON parser in
    one lemma; the locales \<open>codec\<close> and \<open>codec_chain\<close> of the prelude are interpreted on base64url,
    hexadecimal and the vault, which is a chain of two codecs.
  \<^item> \<open>Ansi\<close> (\<^verbatim>\<open>lib/libansi\<close>): the state machine that strips escape sequences, the filter of Unicode tag
    characters and the sanitizer of display text.

  \<^bold>\<open>How C is modelled.\<close> Structs are records and enumerations datatypes. Integers keep their width as
  words where the code depends on wrapping (hashes, bytes under a key stream, sizes in headers, varints, CRC, skipfields) and are
  \<open>int\<close> or \<open>nat\<close> where it does not; the prelude has \<open>strtol\<close> with its clamp. Strings are the bytes
  before the NUL; fixed buffers cut with \<open>c_trunc\<close>. Arrays with a capacity are lists with their
  capacity. Where the code checks its allocator, the coming outcomes are a list of booleans
  (\<open>c_alloc\<close>) and a failure is a branch. Undefined behaviour that the code can reach is a value of its
  own: None, \<open>JOverrun\<close>, \<open>Overread\<close>, \<open>LockUndefined\<close>, \<open>Overflow\<close>, \<open>Out_Of_Bounds\<close>. Clock, file system and environment are
  arguments. Code outside the repository (OpenSSL, \<open>qsort\<close>, \<open>printf\<close> and \<open>strtod\<close> on doubles, the time zone) is
  a parameter, and its documented behaviour a hypothesis.

  \<^bold>\<open>What the lemmas show.\<close> For a container, the invariant is preserved by every operation and the
  operation is the one of the abstract value, failures of the allocator included. For a
  filter, what it keeps and that it is done after one pass. For a format, the
  decoder undoes the encoder, with the exact conditions where it does not always, and the reader stays
  inside its input or the property says when it does not. For a state machine, an invariant of the
  reachable states and a statement about whole runs. Several properties record that the code does not
  do what it means to; the manifest lists these findings with their lines.

  \<^bold>\<open>Loops and fuel.\<close> Loops with a measure are functions with a termination proof (probing of the omap,
  the iterators of the hive, the search of the matcher, the scan of a message), so they return.
  \<open>json_parse\<close> gives its recursion \<open>2 * length input + 2\<close> units, since every nested call but the first
  two consumes a character (\<open>json_fuel_enough\<close>); \<open>feed_loop\<close> has one unit for each character and one
  more (\<open>ts_feed_terminates\<close>). The block decoder of DEFLATE may really not return, so its fuel is an
  argument: on encoder output 32769 is enough, one unit for each token of a block of at most
  32768 bytes and one for its end (\<open>deflate_inflate\<close>), and there are streams for which none is (\<open>truncated_block_never_returns\<close>). The
  guard of a million blocks is the code's own. The search of \<open>cron_next\<close> ends after the year 2099, as
  in the code.

  \<^bold>\<open>Not modelled.\<close> SQLite, whisper.cpp and the fonts are vendored. The user interfaces, the web
  servers, the gateway and its platform adapters, the provider clients and most tools are input and
  output around remote services. Of \<^verbatim>\<open>json.c\<close> the schema validation and what computes on doubles are
  left out. The remaining pure libraries (TOML, YAML, JSON5, text wrapping, globs, paths, dates,
  hashes) and the small state machines of the agent (guards, budgets, credential rotation) are of the
  kind modelled here and not yet done. The Python and TypeScript trees are the original of the port and
  its desktop shell.
\<close>

end
